(* ===== verification/PaghPrelude.thy ===== *)
theory PaghPrelude
  imports "HOL-Library.Word"
begin

text \<open>
  Shared vocabulary of the development: the machine integers of the Rust sources, the
  byte/word conversions of the standard library (\<^verbatim>\<open>to_le_bytes\<close>,
  \<^verbatim>\<open>from_le_bytes\<close>, \<^verbatim>\<open>trailing_zeros\<close>, the checked and saturating
  operations), slices of byte buffers, and the lemmas on them that the component theories
  share.  Rust's fixed-width integers are words; \<^verbatim>\<open>usize\<close> lengths and indices are
  natural numbers.  A \<^verbatim>\<open>Result\<close> is a sum whose left injection is the error.
\<close>

unbundle bit_operations_syntax

named_theorems word_bits
named_theorems buf_simps

type_synonym u8 = "8 word"
type_synonym u16 = "16 word"
type_synonym u32 = "32 word"
type_synonym u64 = "64 word"
type_synonym bytes = "u8 list"

subsection \<open>Standard-library operations on machine integers\<close>

definition trailing_zeros :: "'a::len word \<Rightarrow> nat" where
  "trailing_zeros w = (case find (\<lambda>i. bit w i) [0..<LENGTH('a)] of Some i \<Rightarrow> i | None \<Rightarrow> LENGTH('a))"

definition checked_add :: "'a::len word \<Rightarrow> 'a word \<Rightarrow> 'a word option" where
  "checked_add a b = (if unat a + unat b < 2 ^ LENGTH('a) then Some (a + b) else None)"

definition checked_sub :: "'a::len word \<Rightarrow> 'a word \<Rightarrow> 'a word option" where
  "checked_sub a b = (if b \<le> a then Some (a - b) else None)"

definition checked_mul :: "'a::len word \<Rightarrow> 'a word \<Rightarrow> 'a word option" where
  "checked_mul a b = (if unat a * unat b < 2 ^ LENGTH('a) then Some (a * b) else None)"

definition saturating_add :: "'a::len word \<Rightarrow> 'a word \<Rightarrow> 'a word" where
  "saturating_add a b = (if unat a + unat b < 2 ^ LENGTH('a) then a + b else - 1)"

definition saturating_sub :: "'a::len word \<Rightarrow> 'a word \<Rightarrow> 'a word" where
  "saturating_sub a b = (if b \<le> a then a - b else 0)"

definition saturating_mul :: "'a::len word \<Rightarrow> 'a word \<Rightarrow> 'a word" where
  "saturating_mul a b = (if unat a * unat b < 2 ^ LENGTH('a) then a * b else - 1)"

text \<open>Little-endian byte images of words and back.\<close>

definition le_bytes :: "nat \<Rightarrow> 'a::len word \<Rightarrow> bytes" where
  "le_bytes n w = map (\<lambda>i. ucast (drop_bit (8 * i) w)) [0..<n]"

fun of_le :: "bytes \<Rightarrow> 'a::len word" where
  "of_le [] = 0"
| "of_le (b # bs) = ucast b OR push_bit 8 (of_le bs)"

subsection \<open>Byte buffers\<close>

definition sub_bytes :: "bytes \<Rightarrow> nat \<Rightarrow> nat \<Rightarrow> bytes" where
  "sub_bytes buf off n = take n (drop off buf)"

definition put_bytes :: "bytes \<Rightarrow> nat \<Rightarrow> bytes \<Rightarrow> bytes" where
  "put_bytes buf off bs = take off buf @ bs @ drop (off + length bs) buf"

subsection \<open>Lemmas: trailing zeros\<close>

lemma find_upt_Some:
  "find P [a..<n] = Some i \<longleftrightarrow> a \<le> i \<and> i < n \<and> P i \<and> (\<forall>j. a \<le> j \<and> j < i \<longrightarrow> \<not> P j)"
proof -
  have "find P [a..<n] = Some i \<longleftrightarrow>
      (\<exists>k < n - a. P (a + k) \<and> i = a + k \<and> (\<forall>j < k. \<not> P (a + j)))"
    by (auto simp: find_Some_iff)
  also have "\<dots> \<longleftrightarrow> a \<le> i \<and> i < n \<and> P i \<and> (\<forall>j. a \<le> j \<and> j < i \<longrightarrow> \<not> P j)"
  proof (intro iffI)
    assume "\<exists>k < n - a. P (a + k) \<and> i = a + k \<and> (\<forall>j < k. \<not> P (a + j))"
    then obtain k where k: "k < n - a" "P (a + k)" "i = a + k" "\<forall>j < k. \<not> P (a + j)"
      by blast
    have "\<not> P j" if "a \<le> j" "j < i" for j
      using k(4)[rule_format, of "j - a"] that k(3) by auto
    then show "a \<le> i \<and> i < n \<and> P i \<and> (\<forall>j. a \<le> j \<and> j < i \<longrightarrow> \<not> P j)"
      using k by auto
  next
    assume "a \<le> i \<and> i < n \<and> P i \<and> (\<forall>j. a \<le> j \<and> j < i \<longrightarrow> \<not> P j)"
    then show "\<exists>k < n - a. P (a + k) \<and> i = a + k \<and> (\<forall>j < k. \<not> P (a + j))"
      by (intro exI[of _ "i - a"]) auto
  qed
  finally show ?thesis .
qed

lemma find_upt_None: "find P [a..<n] = None \<longleftrightarrow> (\<forall>j. a \<le> j \<and> j < n \<longrightarrow> \<not> P j)"
  by (auto simp: find_None_iff)

lemma trailing_zeros_bit:
  fixes w :: "'a::len word"
  assumes "w \<noteq> 0"
  shows "trailing_zeros w < LENGTH('a)" and "bit w (trailing_zeros w)"
    and "j < trailing_zeros w \<Longrightarrow> \<not> bit w j"
proof -
  from assms obtain n where n: "n < LENGTH('a)" "bit w n"
    by (metis bit_0_eq bit_word_eqI bot_apply bot_bool_def)
  then have "find (\<lambda>i. bit w i) [0..<LENGTH('a)] \<noteq> None"
    by (auto simp: find_upt_None)
  then obtain i where i: "find (\<lambda>i. bit w i) [0..<LENGTH('a)] = Some i"
    by blast
  then have "trailing_zeros w = i"
    by (simp add: trailing_zeros_def)
  with i show "trailing_zeros w < LENGTH('a)" and "bit w (trailing_zeros w)"
    and "j < trailing_zeros w \<Longrightarrow> \<not> bit w j"
    by (auto simp: find_upt_Some)
qed

subsection \<open>Lemmas: checked arithmetic\<close>

lemma checked_add_Some:
  "checked_add a b = Some c \<longleftrightarrow> unat a + unat b < 2 ^ LENGTH('a) \<and> c = a + (b :: 'a::len word)"
  by (auto simp: checked_add_def)

lemma checked_mul_Some:
  "checked_mul a b = Some c \<longleftrightarrow> unat a * unat b < 2 ^ LENGTH('a) \<and> c = a * (b :: 'a::len word)"
  by (auto simp: checked_mul_def)

lemma unat_bound: "unat (w :: 'a::len word) < 2 ^ LENGTH('a)"
  by (rule unsigned_less)

lemma unat_plus_exact:
  "unat a + unat b < 2 ^ LENGTH('a) \<Longrightarrow> unat (a + b :: 'a::len word) = unat a + unat b"
  by (simp add: unat_word_ariths(1))

lemma unat_mult_exact:
  "unat a * unat b < 2 ^ LENGTH('a) \<Longrightarrow> unat (a * b :: 'a::len word) = unat a * unat b"
  by (simp add: unat_word_ariths(2))

lemma unat_minus_exact:
  "b \<le> a \<Longrightarrow> unat (a - b :: 'a::len word) = unat a - unat b"
  by (rule unat_sub)

lemma and_not_mask_eq: "a AND NOT (mask n) = push_bit n (drop_bit n (a :: 'a::len word))"
  by (rule bit_word_eqI) (auto simp: bit_simps)

lemma unat_and_not_mask:
  "unat (a AND NOT (mask n) :: 'a::len word) = unat a div 2 ^ n * 2 ^ n"
proof (cases "n < LENGTH('a)")
  case True
  have le: "unat a div 2 ^ n * 2 ^ n < 2 ^ LENGTH('a)"
    using div_times_less_eq_dividend[of "unat a" "2 ^ n"] unsigned_less[of a] by (rule le_less_trans)
  have "unat (push_bit n (drop_bit n a)) = (unat a div 2 ^ n * 2 ^ n) mod 2 ^ LENGTH('a)"
    by (simp only: unsigned_push_bit_eq unat_drop_bit_eq) (simp add: push_bit_eq_mult take_bit_eq_mod drop_bit_eq_div)
  then show ?thesis
    using le by (simp add: and_not_mask_eq)
next
  case False
  then have "(2::nat) ^ LENGTH('a) \<le> 2 ^ n"
    by (intro power_increasing) simp_all
  with unsigned_less[of a] have "unat a < 2 ^ n"
    by (rule less_le_trans)
  moreover have "a AND NOT (mask n) = 0"
    using False by (simp add: and_not_mask_eq)
  ultimately show ?thesis by simp
qed

subsection \<open>Lemmas: byte images\<close>

lemma length_le_bytes [simp]: "length (le_bytes n w) = n"
  by (simp add: le_bytes_def)

lemma nth_le_bytes [simp]: "i < n \<Longrightarrow> le_bytes n w ! i = ucast (drop_bit (8 * i) w)"
  by (simp add: le_bytes_def)

lemma bit_of_le [word_bits]:
  "bit (of_le bs :: 'a::len word) k \<longleftrightarrow>
     k < LENGTH('a) \<and> k div 8 < length bs \<and> bit (bs ! (k div 8)) (k mod 8)"
proof (induction bs arbitrary: k)
  case Nil
  then show ?case by simp
next
  case (Cons b bs)
  have split: "bit (of_le (b # bs) :: 'a word) k \<longleftrightarrow>
      k < LENGTH('a) \<and> bit b k \<or> 8 \<le> k \<and> k < LENGTH('a) \<and> bit (of_le bs :: 'a word) (k - 8)"
    by (auto simp: bit_or_iff bit_push_bit_iff bit_ucast_iff)
  show ?case
  proof (cases "k < 8")
    case True
    then show ?thesis
      by (simp only: split) simp
  next
    case False
    then have k: "k div 8 = Suc ((k - 8) div 8)" "k mod 8 = (k - 8) mod 8" "8 \<le> k"
      using div_if[of 8 k] mod_if[of k 8] by simp_all
    have nb: "\<not> bit b k"
      using False bit_imp_le_length[of b k] by auto
    show ?thesis
      using k(3) nb by (simp only: split k(1,2) Cons.IH) auto
  qed
qed

lemma of_le_le_bytes:
  fixes w :: "'a::len word"
  assumes "LENGTH('a) \<le> 8 * n"
  shows "of_le (le_bytes n w) = w"
proof (rule bit_word_eqI)
  fix k assume k: "k < LENGTH('a)"
  then have "k div 8 < n"
    using assms by auto
  then show "bit (of_le (le_bytes n w) :: 'a word) k = bit w k"
    using k by (simp add: bit_of_le bit_ucast_iff bit_drop_bit_eq)
qed

lemma le_bytes_of_le:
  assumes "length bs = n" "8 * n \<le> LENGTH('a)"
  shows "le_bytes n (of_le bs :: 'a::len word) = bs"
proof (rule nth_equalityI)
  show "length (le_bytes n (of_le bs :: 'a word)) = length bs"
    using assms by simp
next
  fix i assume i: "i < length (le_bytes n (of_le bs :: 'a word))"
  show "le_bytes n (of_le bs :: 'a word) ! i = bs ! i"
  proof (rule bit_word_eqI)
    fix k assume k: "k < LENGTH(8)"
    with i assms have "8 * i + k < LENGTH('a)"
      by simp
    moreover have "(8 * i + k) div 8 = i" "(8 * i + k) mod 8 = k"
      using k by simp_all
    ultimately show "bit (le_bytes n (of_le bs :: 'a word) ! i) k = bit (bs ! i) k"
      using i k assms by (simp add: bit_of_le bit_ucast_iff bit_drop_bit_eq)
  qed
qed

lemma of_le_replicate_0 [simp]: "of_le (replicate n 0) = 0"
  by (induction n) simp_all

subsection \<open>Lemmas: slices\<close>

lemma length_sub_bytes [buf_simps]: "length (sub_bytes buf off n) = min n (length buf - off)"
  by (simp add: sub_bytes_def)

lemma length_put_bytes [buf_simps]:
  "off + length bs \<le> length buf \<Longrightarrow> length (put_bytes buf off bs) = length buf"
  by (simp add: put_bytes_def)

lemma sub_put_same [buf_simps]:
  "off + length bs \<le> length buf \<Longrightarrow> n = length bs \<Longrightarrow> sub_bytes (put_bytes buf off bs) off n = bs"
  by (simp add: sub_bytes_def put_bytes_def)

lemma nth_put_bytes:
  "off + length bs \<le> length buf \<Longrightarrow> i < length buf \<Longrightarrow>
   put_bytes buf off bs ! i = (if off \<le> i \<and> i < off + length bs then bs ! (i - off) else buf ! i)"
  by (auto simp: put_bytes_def nth_append)

lemma nth_sub_bytes: "off + i < length buf \<Longrightarrow> i < n \<Longrightarrow> sub_bytes buf off n ! i = buf ! (off + i)"
  by (simp add: sub_bytes_def)

lemma sub_put_other [buf_simps]:
  assumes "off + length bs \<le> length buf" "o' + n \<le> off \<or> off + length bs \<le> o'"
  shows "sub_bytes (put_bytes buf off bs) o' n = sub_bytes buf o' n"
proof (rule nth_equalityI)
  show "length (sub_bytes (put_bytes buf off bs) o' n) = length (sub_bytes buf o' n)"
    using assms by (simp add: buf_simps)
next
  fix i assume "i < length (sub_bytes (put_bytes buf off bs) o' n)"
  then have "i < n" "o' + i < length buf"
    using assms(1) by (auto simp: buf_simps)
  then show "sub_bytes (put_bytes buf off bs) o' n ! i = sub_bytes buf o' n ! i"
    using assms by (auto simp: nth_sub_bytes nth_put_bytes length_put_bytes)
qed

lemma take_put_other [buf_simps]:
  "n \<le> off \<Longrightarrow> off \<le> length buf \<Longrightarrow> take n (put_bytes buf off bs) = take n buf"
  by (simp add: put_bytes_def min_def)

lemma sub_bytes_replicate [buf_simps]:
  "off + n \<le> m \<Longrightarrow> sub_bytes (replicate m x) off n = replicate n x"
  by (simp add: sub_bytes_def)

subsection \<open>Counting in lists\<close>

lemma length_filter_update:
  "i < length xs \<Longrightarrow>
   length (filter P (xs[i := x])) + of_bool (P (xs ! i)) = length (filter P xs) + of_bool (P x)"
proof (induction xs arbitrary: i)
  case (Cons y ys)
  then show ?case by (cases i) auto
qed simp

lemma sum_list_update_nat:
  "i < length xs \<Longrightarrow> sum_list (map f (xs[i := x])) + f (xs ! i) = sum_list (map f xs) + (f x :: nat)"
proof (induction xs arbitrary: i)
  case (Cons y ys)
  then show ?case by (cases i) auto
qed simp

lemma count_list_pos: "0 < count_list xs x \<longleftrightarrow> x \<in> set xs"
  by (induction xs) auto

end
