(* ===== verification/BitmapSpec.thy ===== *)
theory BitmapSpec
  imports PaghPrelude
begin

text \<open>
  The contract that the frame allocator (\<^verbatim>\<open>memory/pmm.rs\<close>, 64-bit words) and the
  ext2 allocator (\<^verbatim>\<open>fs/ext2/alloc.rs\<close>, bytes) share: a finite sequence of bits that
  can be tested, set and cleared one at a time.  The lemmas of the locale give the effect
  of a set or a clear on the \<^emph>\<open>set\<close> of marked indices and on its size, which is what the
  free counters of both allocators must track.
\<close>

locale bitmap =
  fixes nbits :: "'b \<Rightarrow> nat"
    and tst :: "'b \<Rightarrow> nat \<Rightarrow> bool"
    and mark :: "'b \<Rightarrow> nat \<Rightarrow> 'b"
    and unmark :: "'b \<Rightarrow> nat \<Rightarrow> 'b"
  assumes tst_range: "tst b i \<Longrightarrow> i < nbits b"
    and nbits_mark: "nbits (mark b i) = nbits b"
    and nbits_unmark: "nbits (unmark b i) = nbits b"
    and tst_mark: "i < nbits b \<Longrightarrow> tst (mark b i) j \<longleftrightarrow> j = i \<or> tst b j"
    and tst_unmark: "i < nbits b \<Longrightarrow> tst (unmark b i) j \<longleftrightarrow> j \<noteq> i \<and> tst b j"
begin

lemma finite_marked: "finite {j. tst b j}"
  by (rule finite_subset[of _ "{..<nbits b}"]) (auto dest: tst_range)

lemma marked_mark: "i < nbits b \<Longrightarrow> {j. tst (mark b i) j} = insert i {j. tst b j}"
  by (auto simp: tst_mark)

lemma marked_unmark: "i < nbits b \<Longrightarrow> {j. tst (unmark b i) j} = {j. tst b j} - {i}"
  by (auto simp: tst_unmark)

lemma card_mark:
  "i < nbits b \<Longrightarrow> \<not> tst b i \<Longrightarrow> card {j. tst (mark b i) j} = Suc (card {j. tst b j})"
  by (simp add: marked_mark finite_marked)

lemma card_unmark:
  "tst b i \<Longrightarrow> Suc (card {j. tst (unmark b i) j}) = card {j. tst b j}"
  using tst_range[of b i] card_Suc_Diff1[OF finite_marked, of i b] by (simp add: marked_unmark)

lemma card_pos: "tst b i \<Longrightarrow> 0 < card {j. tst b j}"
  using finite_marked[of b] by (auto simp: card_gt_0_iff)

lemma unmark_mark: "i < nbits b \<Longrightarrow> tst (unmark (mark b i) i) j \<longleftrightarrow> j \<noteq> i \<and> tst b j"
  by (auto simp: tst_unmark tst_mark nbits_mark)

lemma mark_unmark: "tst b i \<Longrightarrow> tst (mark (unmark b i) i) j \<longleftrightarrow> tst b j"
  using tst_range[of b i] by (auto simp: tst_unmark tst_mark nbits_unmark)

lemma tst_fold_unmark:
  "(\<And>i. i \<in> set is \<Longrightarrow> i < nbits b) \<Longrightarrow>
   tst (fold (\<lambda>i b. unmark b i) is b) j \<longleftrightarrow> j \<notin> set is \<and> tst b j"
proof (induction "is" arbitrary: b)
  case Nil
  then show ?case by simp
next
  case (Cons i "is")
  then show ?case by (auto simp: tst_unmark nbits_unmark)
qed

lemma nbits_fold_unmark: "nbits (fold (\<lambda>i b. unmark b i) is b) = nbits b"
  by (induction "is" arbitrary: b) (simp_all add: nbits_unmark)

lemma card_fold_unmark:
  assumes "\<And>i. i \<in> set is \<Longrightarrow> tst b i" and "distinct is"
  shows "card {j. tst (fold (\<lambda>i b. unmark b i) is b) j} + length is = card {j. tst b j}"
proof -
  have "{j. tst (fold (\<lambda>i b. unmark b i) is b) j} = {j. tst b j} - set is"
    using tst_fold_unmark[of "is" b] assms(1) tst_range by auto
  moreover have "set is \<subseteq> {j. tst b j}"
    using assms(1) by auto
  moreover have "card (set is) = length is"
    using assms(2) by (rule distinct_card)
  moreover have "card (set is) \<le> card {j. tst b j}"
    by (rule card_mono[OF finite_marked]) fact
  ultimately show ?thesis
    by (simp add: card_Diff_subset finite_marked)
qed

end

text \<open>
  Both bitmaps are lists of machine words with the bit of index \<open>i\<close> in word \<open>i div w\<close>.  The
  generic operations below are the code's \<^verbatim>\<open>bitmap[i / w] & (1 << (i % w))\<close>,
  \<^verbatim>\<open>|=\<close> and \<^verbatim>\<open>&= !\<close> for a word of \<open>w\<close> bits; the locale is interpreted on them
  once, for every width.
\<close>

definition wl_bits :: "'a::len word list \<Rightarrow> nat" where
  "wl_bits ws = LENGTH('a) * length ws"

definition wl_test :: "'a::len word list \<Rightarrow> nat \<Rightarrow> bool" where
  "wl_test ws i \<longleftrightarrow> i div LENGTH('a) < length ws
     \<and> ws ! (i div LENGTH('a)) AND push_bit (i mod LENGTH('a)) 1 \<noteq> 0"

definition wl_set :: "'a::len word list \<Rightarrow> nat \<Rightarrow> 'a word list" where
  "wl_set ws i = ws[i div LENGTH('a) := ws ! (i div LENGTH('a)) OR push_bit (i mod LENGTH('a)) 1]"

definition wl_clear :: "'a::len word list \<Rightarrow> nat \<Rightarrow> 'a word list" where
  "wl_clear ws i = ws[i div LENGTH('a) := ws ! (i div LENGTH('a)) AND NOT (push_bit (i mod LENGTH('a)) 1)]"

lemma word_and_bit: "(w :: 'a::len word) AND push_bit n 1 \<noteq> 0 \<longleftrightarrow> n < LENGTH('a) \<and> bit w n"
proof -
  have "w AND push_bit n 1 = 0 \<longleftrightarrow> (\<forall>k. \<not> (bit w k \<and> k = n))"
    by (auto simp: bit_eq_iff bit_simps dest: bit_imp_le_length)
  then show ?thesis
    by (auto dest: bit_imp_le_length)
qed

lemma wl_test_iff:
  "wl_test (ws :: 'a::len word list) i \<longleftrightarrow>
     i div LENGTH('a) < length ws \<and> bit (ws ! (i div LENGTH('a))) (i mod LENGTH('a))"
  by (simp add: wl_test_def word_and_bit del: push_bit_of_1)

lemma wl_bits_iff: "i < wl_bits (ws :: 'a::len word list) \<longleftrightarrow> i div LENGTH('a) < length ws"
  by (simp add: wl_bits_def div_less_iff_less_mult mult.commute)

lemma div_mod_eq_iff: "(i::nat) = j \<longleftrightarrow> i div n = j div n \<and> i mod n = j mod n"
  by (metis div_mod_decomp)

lemma length_wl_set [simp]: "length (wl_set ws i) = length ws"
  by (simp add: wl_set_def)

lemma length_wl_clear [simp]: "length (wl_clear ws i) = length ws"
  by (simp add: wl_clear_def)

lemma wl_test_set:
  assumes "i < wl_bits (ws :: 'a::len word list)"
  shows "wl_test (wl_set ws i) j \<longleftrightarrow> j = i \<or> wl_test ws j"
proof -
  have "i div LENGTH('a) < length ws"
    using assms by (simp add: wl_bits_iff)
  then show ?thesis
    by (cases "j div LENGTH('a) = i div LENGTH('a)")
      (auto simp: wl_test_iff wl_set_def bit_simps div_mod_eq_iff[of j i "LENGTH('a)"])
qed

lemma wl_test_clear:
  assumes "i < wl_bits (ws :: 'a::len word list)"
  shows "wl_test (wl_clear ws i) j \<longleftrightarrow> j \<noteq> i \<and> wl_test ws j"
proof -
  have "i div LENGTH('a) < length ws"
    using assms by (simp add: wl_bits_iff)
  then show ?thesis
    by (cases "j div LENGTH('a) = i div LENGTH('a)")
      (auto simp: wl_test_iff wl_clear_def bit_simps div_mod_eq_iff[of j i "LENGTH('a)"])
qed

interpretation wl: bitmap wl_bits wl_test wl_set wl_clear
proof
  show "wl_test b i \<Longrightarrow> i < wl_bits b" for b :: "'a::len word list" and i
    by (simp add: wl_test_iff wl_bits_iff)
qed (simp_all add: wl_bits_def[of "wl_set _ _"] wl_bits_def[of "wl_clear _ _"] wl_bits_def
      wl_test_set[unfolded wl_bits_def] wl_test_clear[unfolded wl_bits_def])

lemma wl_word_nonzero:
  "(k :: nat) < length (ws :: 'a::len word list) \<Longrightarrow>
   ws ! k \<noteq> 0 \<longleftrightarrow> (\<exists>i. i div LENGTH('a) = k \<and> wl_test ws i)"
proof
  assume k: "k < length ws" and "ws ! k \<noteq> 0"
  note t = trailing_zeros_bit[OF \<open>ws ! k \<noteq> 0\<close>]
  show "\<exists>i. i div LENGTH('a) = k \<and> wl_test ws i"
    by (rule exI[of _ "k * LENGTH('a) + trailing_zeros (ws ! k)"])
      (use t k in \<open>simp add: wl_test_iff\<close>)
next
  assume "k < length ws" and "\<exists>i. i div LENGTH('a) = k \<and> wl_test ws i"
  then show "ws ! k \<noteq> 0"
    by (auto simp: wl_test_iff)
qed

lemma wl_lowest:
  fixes ws :: "'a::len word list"
  assumes k: "k < length ws" "ws ! k \<noteq> 0" and below: "\<And>j. j < k \<Longrightarrow> ws ! j = 0"
  defines "f \<equiv> k * LENGTH('a) + trailing_zeros (ws ! k)"
  shows "wl_test ws f" and "wl_test ws j \<Longrightarrow> f \<le> j"
proof -
  note t = trailing_zeros_bit[OF k(2)]
  have f: "f div LENGTH('a) = k" "f mod LENGTH('a) = trailing_zeros (ws ! k)"
    using t(1) by (simp_all add: f_def)
  then show "wl_test ws f"
    using t k by (simp add: wl_test_iff)
  assume j: "wl_test ws j"
  then have kj: "k \<le> j div LENGTH('a)"
    using below[of "j div LENGTH('a)"] by (cases "j div LENGTH('a) < k") (auto simp: wl_test_iff)
  show "f \<le> j"
  proof (cases "j div LENGTH('a) = k")
    case True
    with j t(3)[of "j mod LENGTH('a)"] have "trailing_zeros (ws ! k) \<le> j mod LENGTH('a)"
      using True by (metis not_le wl_test_iff)
    with True show ?thesis
      unfolding f_def by (metis add_le_cancel_left div_mult_mod_eq)
  next
    case False
    with kj have "Suc k \<le> j div LENGTH('a)" by simp
    then have "Suc k * LENGTH('a) \<le> j div LENGTH('a) * LENGTH('a)"
      by (rule mult_le_mono1)
    also have "\<dots> \<le> j" by simp
    finally show ?thesis
      using t(1) by (simp add: f_def)
  qed
qed

lemma wl_eqI:
  fixes bm bm' :: "'a::len word list"
  assumes len: "length bm = length bm'" and t: "\<And>i. wl_test bm i = wl_test bm' i"
  shows "bm = bm'"
proof (rule nth_equalityI[OF len])
  fix k assume k: "k < length bm"
  show "bm ! k = bm' ! k"
  proof (rule bit_word_eqI)
    fix n assume n: "n < LENGTH('a)"
    show "bit (bm ! k) n = bit (bm' ! k) n"
      using t[of "k * LENGTH('a) + n"] n k len by (simp add: wl_test_iff)
  qed
qed

subsection \<open>The allocator contract\<close>

text \<open>
  What the clients of an allocator of numbered units rely on, whatever the allocator's data
  structure: taking hands out available units only, and giving back units that are manageable
  and not available makes exactly those available again.  \<open>live\<close> follows a sequence of such
  calls together with the set of units that the clients hold.
\<close>

inductive live :: "('s \<Rightarrow> nat set \<Rightarrow> 's \<Rightarrow> bool) \<Rightarrow> ('s \<Rightarrow> nat set \<Rightarrow> 's \<Rightarrow> bool)
    \<Rightarrow> 's \<Rightarrow> 's \<Rightarrow> nat set \<Rightarrow> bool"
  for tk gv s0 where
  live_start: "live tk gv s0 s0 {}"
| live_take: "live tk gv s0 s L \<Longrightarrow> tk s A s' \<Longrightarrow> live tk gv s0 s' (L \<union> A)"
| live_give: "live tk gv s0 s L \<Longrightarrow> A \<subseteq> L \<Longrightarrow> gv s A s' \<Longrightarrow> live tk gv s0 s' (L - A)"

locale allocator =
  fixes inv :: "'s \<Rightarrow> bool"
    and avail :: "'s \<Rightarrow> nat set"
    and managed :: "'s \<Rightarrow> nat set"
    and tk :: "'s \<Rightarrow> nat set \<Rightarrow> 's \<Rightarrow> bool"
    and gv :: "'s \<Rightarrow> nat set \<Rightarrow> 's \<Rightarrow> bool"
  assumes avail_managed: "inv s \<Longrightarrow> avail s \<subseteq> managed s"
    and take_law: "inv s \<Longrightarrow> tk s A s' \<Longrightarrow>
      inv s' \<and> A \<subseteq> avail s \<and> avail s' = avail s - A \<and> managed s' = managed s"
    and give_law: "inv s \<Longrightarrow> A \<subseteq> managed s \<Longrightarrow> A \<inter> avail s = {} \<Longrightarrow> gv s A s' \<Longrightarrow>
      inv s' \<and> avail s' = avail s \<union> A \<and> managed s' = managed s"
begin

lemma live_inv:
  assumes "live tk gv s0 s L" "inv s0"
  shows "inv s \<and> L \<inter> avail s = {} \<and> L \<union> avail s = avail s0 \<and> managed s = managed s0"
  using assms
proof (induction rule: live.induct)
  case live_start
  then show ?case by simp
next
  case (live_take s L A s')
  then show ?case using take_law[of s A s'] by auto
next
  case (live_give s L A s')
  then have "A \<subseteq> managed s" "A \<inter> avail s = {}"
    using avail_managed[of s0] by auto
  with live_give show ?case using give_law[of s A s'] by auto
qed

lemma live_take_fresh:
  assumes "live tk gv s0 s L" "inv s0" "tk s A s'"
  shows "A \<inter> L = {}"
  using live_inv[OF assms(1,2)] take_law[OF _ assms(3)] by blast

end

end
