(* ===== verification/Pmm.thy ===== *)
theory Pmm
  imports BitmapSpec
begin

text \<open>
  The physical memory manager, \<^verbatim>\<open>src/src/memory/pmm.rs\<close>: a bitmap of 4 KiB frames
  (1 = free), its initialisation from the Limine memory map, single-frame and contiguous
  allocation and release, and the copy-on-write sharer counts.

  Addresses are 64-bit words with the wrap-around of a release build; the
  \<^verbatim>\<open>usize\<close> counters are natural numbers (the invariant \<open>pmm_inv\<close> shows that no
  counter is ever decremented at zero).  The global \<^verbatim>\<open>Spinlock<Option<Pmm>>\<close> is a
  \<open>pmm option\<close> that the operations take and return; each operation runs under the lock, so
  it is one step.  The bitmap test, set and clear are \<open>wl_test\<close>, \<open>wl_set\<close> and \<open>wl_clear\<close> at
  width 64.
\<close>

subsection \<open>State\<close>

definition FRAME_SIZE :: u64 where "FRAME_SIZE = 4096"

definition LOW_RESERVED :: u64 where "LOW_RESERVED = 0x100000"

definition MAX_KERNEL_RANGES :: nat where "MAX_KERNEL_RANGES = 16"

record pmm =
  bitmap :: "u64 list"
  total_frames :: nat
  free_count :: nat
  base_addr :: u64
  top_addr :: u64
  bitmap_phys :: u64
  bitmap_bytes :: u64
  kernel_ranges :: "(u64 \<times> u64) list"
  kernel_range_count :: nat

definition align_up :: "u64 \<Rightarrow> u64 \<Rightarrow> u64" where
  "align_up addr al = (addr + al - 1) AND NOT (al - 1)"

definition align_down :: "u64 \<Rightarrow> u64 \<Rightarrow> u64" where
  "align_down addr al = addr AND NOT (al - 1)"

definition is_reserved :: "pmm \<Rightarrow> u64 \<Rightarrow> bool" where
  "is_reserved p addr \<longleftrightarrow>
     (if addr < LOW_RESERVED then True
      else if bitmap_phys p \<le> addr \<and> addr < bitmap_phys p + bitmap_bytes p then True
      else list_ex (\<lambda>i. case kernel_ranges p ! i of (start, end) \<Rightarrow> start \<le> addr \<and> addr < end)
             [0..<kernel_range_count p])"

subsection \<open>Initialisation from the memory map\<close>

text \<open>An entry of the boot loader's memory map; the type codes are those of the Limine protocol.\<close>

record memmap_entry =
  me_base :: u64
  me_length :: u64
  me_type :: u64

definition MEMMAP_USABLE :: u64 where "MEMMAP_USABLE = 0"

definition MEMMAP_EXECUTABLE_AND_MODULES :: u64 where "MEMMAP_EXECUTABLE_AND_MODULES = 6"

text \<open>First pass: lowest usable base and highest usable top.\<close>

fun usable_range :: "memmap_entry list \<Rightarrow> u64 \<Rightarrow> u64 \<Rightarrow> u64 \<times> u64" where
  "usable_range [] base tp = (base, tp)"
| "usable_range (e # es) base tp =
     (if me_type e = MEMMAP_USABLE
      then let base' = (if me_base e < base then me_base e else base);
               entry_top = me_base e + me_length e;
               tp' = (if tp < entry_top then entry_top else tp)
           in usable_range es base' tp'
      else usable_range es base tp)"

text \<open>Second pass: the first usable region long enough for the bitmap decides; 0 if there is none.\<close>

fun place_bitmap :: "memmap_entry list \<Rightarrow> u64 \<Rightarrow> u64" where
  "place_bitmap [] bytes = 0"
| "place_bitmap (e # es) bytes =
     (if me_type e = MEMMAP_USABLE \<and> bytes \<le> me_length e
      then let region_end = me_base e + me_length e;
               candidate = (me_base e + 0x200000) AND NOT (FRAME_SIZE - 1)
           in if candidate + bytes \<le> region_end then candidate else me_base e
      else place_bitmap es bytes)"

text \<open>Third pass: the kernel-and-modules ranges, aligned outward, at most sixteen.\<close>

fun collect_kernel_ranges :: "memmap_entry list \<Rightarrow> (u64 \<times> u64) list \<Rightarrow> (u64 \<times> u64) list" where
  "collect_kernel_ranges [] acc = acc"
| "collect_kernel_ranges (e # es) acc =
     (if me_type e = MEMMAP_EXECUTABLE_AND_MODULES
      then if MAX_KERNEL_RANGES \<le> length acc then acc
           else collect_kernel_ranges es
                  (acc @ [(align_down (me_base e) FRAME_SIZE,
                           align_up (me_base e + me_length e) FRAME_SIZE)])
      else collect_kernel_ranges es acc)"

text \<open>
  Fourth pass: one iteration of the loop that frees the frames of a usable region, and the
  loop, as a recursion over the number of frames between the two page-aligned bounds.
\<close>

definition init_free_step :: "u64 \<Rightarrow> pmm \<Rightarrow> pmm" where
  "init_free_step addr p =
     (if addr < 0x100000 then p
      else if bitmap_phys p \<le> addr \<and> addr < bitmap_phys p + bitmap_bytes p then p
      else let idx = unat ((addr - base_addr p) div FRAME_SIZE)
           in if idx div 64 < length (bitmap p)
              then p\<lparr>bitmap := wl_set (bitmap p) idx, free_count := free_count p + 1\<rparr>
              else p)"

fun init_free_loop :: "nat \<Rightarrow> u64 \<Rightarrow> pmm \<Rightarrow> pmm" where
  "init_free_loop 0 addr p = p"
| "init_free_loop (Suc n) addr p = init_free_loop n (addr + FRAME_SIZE) (init_free_step addr p)"

definition init_free_region :: "memmap_entry \<Rightarrow> pmm \<Rightarrow> pmm" where
  "init_free_region e p =
     (let frame_start = align_up (me_base e) FRAME_SIZE;
          frame_end = align_down (me_base e + me_length e) FRAME_SIZE
      in if frame_start < frame_end
         then init_free_loop (unat ((frame_end - frame_start) div FRAME_SIZE)) frame_start p
         else p)"

fun init_free_regions :: "memmap_entry list \<Rightarrow> pmm \<Rightarrow> pmm" where
  "init_free_regions [] p = p"
| "init_free_regions (e # es) p =
     init_free_regions es (if me_type e = MEMMAP_USABLE then init_free_region e p else p)"

text \<open>Fifth pass: the bitmap's own frames are marked used again.\<close>

definition reserve_step :: "u64 \<Rightarrow> pmm \<Rightarrow> pmm" where
  "reserve_step bm_addr p =
     (let idx = unat ((bm_addr - base_addr p) div FRAME_SIZE)
      in if idx div 64 < length (bitmap p) \<and> wl_test (bitmap p) idx
         then p\<lparr>bitmap := wl_clear (bitmap p) idx, free_count := free_count p - 1\<rparr>
         else p)"

fun reserve_loop :: "nat \<Rightarrow> u64 \<Rightarrow> pmm \<Rightarrow> pmm" where
  "reserve_loop 0 addr p = p"
| "reserve_loop (Suc n) addr p = reserve_loop n (addr + FRAME_SIZE) (reserve_step addr p)"

text \<open>
  The whole of \<^verbatim>\<open>init\<close>: it leaves the manager uninitialised when there is no usable
  memory, panics when no region holds the bitmap, and otherwise publishes the state.
\<close>

datatype pmm_init = InitNoMemory | InitPanic | InitDone pmm

definition init :: "memmap_entry list \<Rightarrow> pmm_init" where
  "init entries =
     (case usable_range entries (- 1) 0 of (base0, top0) \<Rightarrow>
      if base0 = - 1 then InitNoMemory
      else
        let base = base0 AND NOT (FRAME_SIZE - 1);
            tp = (top0 + FRAME_SIZE - 1) AND NOT (FRAME_SIZE - 1);
            tot = unat ((tp - base) div FRAME_SIZE);
            words = (tot + 63) div 64;
            bytes = of_nat (words * 8);
            phys = place_bitmap entries bytes
        in if phys = 0 then InitPanic
           else
             let ranges = collect_kernel_ranges entries [];
                 p = \<lparr>bitmap = replicate words 0, total_frames = tot, free_count = 0,
                      base_addr = base, top_addr = tp, bitmap_phys = phys, bitmap_bytes = bytes,
                      kernel_ranges = ranges @ replicate (MAX_KERNEL_RANGES - length ranges) (0, 0),
                      kernel_range_count = length ranges\<rparr>;
                 p = init_free_regions entries p;
                 p = reserve_loop ((words * 8 + 4095) div 4096) phys p
             in InitDone p)"

subsection \<open>Allocation and release\<close>

fun alloc_scan :: "u64 list \<Rightarrow> nat \<Rightarrow> (nat \<times> nat) option" where
  "alloc_scan [] k = None"
| "alloc_scan (w # ws) k = (if w \<noteq> 0 then Some (k, trailing_zeros w) else alloc_scan ws (Suc k))"

definition alloc_frame :: "pmm option \<Rightarrow> u64 option \<times> pmm option" where
  "alloc_frame st =
     (case st of
        None \<Rightarrow> (None, None)
      | Some p \<Rightarrow>
          (case alloc_scan (bitmap p) 0 of
             None \<Rightarrow> (None, Some p)
           | Some (word_idx, b) \<Rightarrow>
               let frame_idx = word_idx * 64 + b
               in (Some (base_addr p + of_nat frame_idx * FRAME_SIZE),
                   Some (p\<lparr>bitmap := wl_clear (bitmap p) frame_idx,
                           free_count := free_count p - 1\<rparr>))))"

text \<open>The scan for a run: \<open>idx\<close> counts up to \<open>tot\<close>, with the current run in \<open>run_start\<close>, \<open>run_len\<close>.\<close>

function run_scan :: "u64 list \<Rightarrow> nat \<Rightarrow> nat \<Rightarrow> nat \<Rightarrow> nat \<Rightarrow> nat \<Rightarrow> nat option" where
  "run_scan bm tot count idx run_start run_len =
     (if idx < tot
      then if wl_test bm idx
           then let run_start' = (if run_len = 0 then idx else run_start)
                in if run_len + 1 = count then Some run_start'
                   else run_scan bm tot count (idx + 1) run_start' (run_len + 1)
           else run_scan bm tot count (idx + 1) run_start 0
      else None)"
  by pat_completeness auto
termination
  by (relation "measure (\<lambda>(bm, tot, count, idx, s, l). tot - idx)") auto

declare run_scan.simps [simp del]

definition alloc_frames_contiguous :: "nat \<Rightarrow> pmm option \<Rightarrow> u64 option \<times> pmm option" where
  "alloc_frames_contiguous count st =
     (if count = 0 then (None, st)
      else case st of
        None \<Rightarrow> (None, None)
      | Some p \<Rightarrow>
          if total_frames p < count then (None, Some p)
          else (case run_scan (bitmap p) (total_frames p) count 0 0 0 of
                  None \<Rightarrow> (None, Some p)
                | Some start \<Rightarrow>
                    (Some (base_addr p + of_nat start * FRAME_SIZE),
                     Some (p\<lparr>bitmap := fold (\<lambda>i bm. wl_clear bm i) [start..<start + count] (bitmap p),
                             free_count := free_count p - count\<rparr>))))"

text \<open>
  The release loop over \<open>start..start+count\<close>: it stops at \<open>total_frames\<close>, skips reserved frames
  and frames that are already free.
\<close>

fun free_loop :: "nat \<Rightarrow> nat \<Rightarrow> pmm \<Rightarrow> pmm" where
  "free_loop 0 i p = p"
| "free_loop (Suc n) i p =
     (if total_frames p \<le> i then p
      else if is_reserved p (base_addr p + of_nat i * FRAME_SIZE) then free_loop n (Suc i) p
      else if \<not> wl_test (bitmap p) i
           then free_loop n (Suc i) (p\<lparr>bitmap := wl_set (bitmap p) i, free_count := free_count p + 1\<rparr>)
           else free_loop n (Suc i) p)"

definition free_frames_contiguous :: "u64 \<Rightarrow> nat \<Rightarrow> pmm option \<Rightarrow> pmm option" where
  "free_frames_contiguous base count st =
     (if count = 0 then st
      else case st of
        None \<Rightarrow> None
      | Some p \<Rightarrow>
          if base < base_addr p \<or> top_addr p \<le> base then Some p
          else Some (free_loop count (unat ((base - base_addr p) div FRAME_SIZE)) p))"

text \<open>\<^verbatim>\<open>free_frame\<close> also reports whether it saw a double free, which the code logs.\<close>

definition free_frame :: "u64 \<Rightarrow> pmm option \<Rightarrow> bool \<times> pmm option" where
  "free_frame addr st =
     (case st of
        None \<Rightarrow> (False, None)
      | Some p \<Rightarrow>
          if addr < base_addr p \<or> top_addr p \<le> addr then (False, Some p)
          else if is_reserved p addr then (False, Some p)
          else let idx = unat ((addr - base_addr p) div FRAME_SIZE)
               in if idx div 64 < length (bitmap p)
                  then if \<not> wl_test (bitmap p) idx
                       then (False, Some (p\<lparr>bitmap := wl_set (bitmap p) idx,
                                            free_count := free_count p + 1\<rparr>))
                       else (True, Some p)
                  else (False, Some p))"

definition get_total_frames :: "pmm option \<Rightarrow> nat" where
  "get_total_frames st = (case st of Some p \<Rightarrow> total_frames p | None \<Rightarrow> 0)"

definition get_free_frames :: "pmm option \<Rightarrow> nat" where
  "get_free_frames st = (case st of Some p \<Rightarrow> free_count p | None \<Rightarrow> 0)"

subsection \<open>Copy-on-write sharer counts\<close>

type_synonym cow_refs = "u64 \<rightharpoonup> u32"

definition cow_ref :: "u64 \<Rightarrow> cow_refs \<Rightarrow> cow_refs" where
  "cow_ref frame m =
     (let key = frame AND NOT (FRAME_SIZE - 1);
          e = (case m key of Some n \<Rightarrow> n | None \<Rightarrow> 0)
      in m(key \<mapsto> e + 1))"

definition cow_unref :: "u64 \<Rightarrow> cow_refs \<Rightarrow> bool \<times> cow_refs" where
  "cow_unref frame m =
     (let key = frame AND NOT (FRAME_SIZE - 1)
      in case m key of
           Some n \<Rightarrow> if n = 1 then (True, m(key := None)) else (False, m(key \<mapsto> n - 1))
         | None \<Rightarrow> (True, m))"

subsection \<open>Abstraction and invariant\<close>

text \<open>The abstract state: the set of free frame numbers; frame \<open>i\<close> starts at \<open>frame_addr p i\<close>.\<close>

definition free_set :: "pmm \<Rightarrow> nat set" where
  "free_set p = {i. wl_test (bitmap p) i}"

definition frame_addr :: "pmm \<Rightarrow> nat \<Rightarrow> u64" where
  "frame_addr p i = base_addr p + of_nat i * FRAME_SIZE"

definition pmm_geometry :: "pmm \<Rightarrow> bool" where
  "pmm_geometry p \<longleftrightarrow> length (bitmap p) = (total_frames p + 63) div 64
     \<and> 4096 dvd unat (base_addr p)
     \<and> unat (base_addr p) + 4096 * total_frames p = unat (top_addr p)"

definition pmm_inv :: "pmm \<Rightarrow> bool" where
  "pmm_inv p \<longleftrightarrow> pmm_geometry p
     \<and> free_count p = card (free_set p)
     \<and> (\<forall>i \<in> free_set p. i < total_frames p \<and> \<not> is_reserved p (frame_addr p i))"

lemma pmm_geometry_upd [simp]:
  "length bm = length (bitmap p) \<Longrightarrow>
   pmm_geometry (p\<lparr>bitmap := bm, free_count := n\<rparr>) = pmm_geometry p"
  by (simp add: pmm_geometry_def)

lemma is_reserved_upd [simp]:
  "is_reserved (p\<lparr>bitmap := bm, free_count := n\<rparr>) = is_reserved p"
  by (simp add: is_reserved_def fun_eq_iff)

lemma frame_addr_upd [simp]:
  "frame_addr (p\<lparr>bitmap := bm, free_count := n\<rparr>) = frame_addr p"
  by (simp add: frame_addr_def fun_eq_iff)

lemma free_set_upd:
  "free_set (p\<lparr>bitmap := bm, free_count := n\<rparr>) = {i. wl_test bm i}"
  by (simp add: free_set_def)

lemma finite_free_set [simp]: "finite (free_set p)"
  unfolding free_set_def by (rule wl.finite_marked)

lemma frame_in_bitmap:
  "pmm_geometry p \<Longrightarrow> i < total_frames p \<Longrightarrow> i < wl_bits (bitmap p)"
  by (simp add: pmm_geometry_def wl_bits_def)

lemma unat_frame_addr:
  assumes "pmm_geometry p" "i \<le> total_frames p"
  shows "unat (frame_addr p i) = unat (base_addr p) + 4096 * i"
proof -
  have le: "unat (base_addr p) + 4096 * i \<le> unat (top_addr p)"
    using assms by (simp add: pmm_geometry_def)
  also have "\<dots> < 2 ^ 64"
    using unsigned_less[of "top_addr p"] by simp
  finally have lt: "unat (base_addr p) + 4096 * i < 2 ^ 64" .
  have "unat (of_nat i * FRAME_SIZE) = 4096 * i"
    using lt by (simp add: FRAME_SIZE_def unat_word_ariths unat_of_nat mult.commute)
  then show ?thesis
    using lt by (simp add: frame_addr_def unat_plus_exact)
qed

lemma frame_index:
  assumes g: "pmm_geometry p" and r: "base_addr p \<le> addr" "addr < top_addr p"
  defines "i \<equiv> unat ((addr - base_addr p) div FRAME_SIZE)"
  shows "i < total_frames p" and "4096 dvd unat addr \<Longrightarrow> addr = frame_addr p i"
proof -
  have i: "i = (unat addr - unat (base_addr p)) div 4096"
    using r(1) by (simp add: i_def unat_div FRAME_SIZE_def unat_minus_exact)
  have "unat (base_addr p) \<le> unat addr" "unat addr < unat (top_addr p)"
    using r by (simp_all add: word_le_nat_alt word_less_nat_alt)
  then show lt: "i < total_frames p"
    using g by (auto simp: i pmm_geometry_def intro: less_mult_imp_div_less)
  assume "4096 dvd unat addr"
  then have "4096 * i = unat addr - unat (base_addr p)"
    using g by (simp add: i pmm_geometry_def)
  then have "unat (frame_addr p i) = unat addr"
    using unat_frame_addr[OF g, of i] lt \<open>unat (base_addr p) \<le> unat addr\<close> by simp
  then show "addr = frame_addr p i"
    by (simp add: word_unat_eq_iff)
qed

lemma index_frame_addr:
  assumes "pmm_geometry p" "i < total_frames p"
  shows "unat ((frame_addr p i - base_addr p) div FRAME_SIZE) = i"
    and "base_addr p \<le> frame_addr p i" and "frame_addr p i < top_addr p"
    and "4096 dvd unat (frame_addr p i)"
proof -
  note u = unat_frame_addr[OF assms(1) less_imp_le[OF assms(2)]]
  show le: "base_addr p \<le> frame_addr p i"
    by (simp add: word_le_nat_alt u)
  show "frame_addr p i < top_addr p"
    using assms by (simp add: word_less_nat_alt u pmm_geometry_def)
  show "4096 dvd unat (frame_addr p i)"
    using assms by (simp add: u pmm_geometry_def)
  show "unat ((frame_addr p i - base_addr p) div FRAME_SIZE) = i"
    using le by (simp add: unat_div FRAME_SIZE_def unat_minus_exact u)
qed

subsection \<open>Single-frame allocation\<close>

lemma alloc_scan_None: "alloc_scan ws k = None \<longleftrightarrow> (\<forall>w \<in> set ws. w = 0)"
  by (induction ws k rule: alloc_scan.induct) auto

lemma alloc_scan_Some:
  "alloc_scan ws k = Some (m, b) \<Longrightarrow>
   k \<le> m \<and> m - k < length ws \<and> ws ! (m - k) \<noteq> 0 \<and> b = trailing_zeros (ws ! (m - k))
   \<and> (\<forall>j < m - k. ws ! j = 0)"
proof (induction ws k rule: alloc_scan.induct)
  case (1 k)
  then show ?case by simp
next
  case (2 w ws k)
  show ?case
  proof (cases "w = 0")
    case True
    with 2 have IH: "Suc k \<le> m" "m - Suc k < length ws" "ws ! (m - Suc k) \<noteq> 0"
      "b = trailing_zeros (ws ! (m - Suc k))" "\<forall>j < m - Suc k. ws ! j = 0"
      by simp_all
    have "m - k = Suc (m - Suc k)"
      using IH(1) by simp
    with IH True show ?thesis
      by (auto simp: less_Suc_eq_0_disj)
  next
    case False
    with 2 show ?thesis by auto
  qed
qed

lemma free_set_empty_iff: "free_set p = {} \<longleftrightarrow> (\<forall>w \<in> set (bitmap p). w = 0)"
proof
  assume e: "free_set p = {}"
  show "\<forall>w \<in> set (bitmap p). w = 0"
  proof
    fix w assume "w \<in> set (bitmap p)"
    then obtain k where "k < length (bitmap p)" "w = bitmap p ! k"
      by (auto simp: in_set_conv_nth)
    with e wl_word_nonzero[of k "bitmap p"] show "w = 0"
      by (auto simp: free_set_def)
  qed
next
  assume "\<forall>w \<in> set (bitmap p). w = 0"
  then have "bitmap p ! k = 0" if "k < length (bitmap p)" for k
    using that by simp
  then show "free_set p = {}"
    by (auto simp: free_set_def wl_test_iff)
qed

lemma alloc_frame_min:
  "alloc_frame (Some p) =
    (if free_set p = {} then (None, Some p)
     else let i = Min (free_set p)
          in (Some (frame_addr p i),
              Some (p\<lparr>bitmap := wl_clear (bitmap p) i, free_count := free_count p - 1\<rparr>)))"
proof (cases "alloc_scan (bitmap p) 0")
  case None
  then have "free_set p = {}"
    by (simp add: alloc_scan_None free_set_empty_iff)
  then show ?thesis
    by (simp add: alloc_frame_def None)
next
  case (Some mb)
  then obtain m b where mb: "alloc_scan (bitmap p) 0 = Some (m, b)"
    by (cases mb) auto
  note s = alloc_scan_Some[OF mb, simplified]
  have b: "b = trailing_zeros (bitmap p ! m)"
    using s by simp
  have low: "wl_test (bitmap p) (m * 64 + b)" "wl_test (bitmap p) j \<Longrightarrow> m * 64 + b \<le> j" for j
    using wl_lowest[of m "bitmap p"] s by (simp_all add: b)
  then have "m * 64 + b = Min (free_set p)"
    by (intro Min_eqI[symmetric]) (auto simp: free_set_def wl.finite_marked)
  moreover have "free_set p \<noteq> {}"
    using low(1) by (auto simp: free_set_def)
  ultimately show ?thesis
    by (simp add: alloc_frame_def mb frame_addr_def Let_def del: of_nat_add of_nat_mult)
qed

lemma pmm_inv_clear:
  assumes inv: "pmm_inv p" and i: "i \<in> free_set p"
  defines "q \<equiv> p\<lparr>bitmap := wl_clear (bitmap p) i, free_count := free_count p - 1\<rparr>"
  shows "pmm_inv q" and "free_set q = free_set p - {i}" and "free_count p = Suc (free_count q)"
proof -
  have t: "wl_test (bitmap p) i"
    using i by (simp add: free_set_def)
  have lt: "i < wl_bits (bitmap p)"
    using t by (rule wl.tst_range)
  have fs: "free_set q = free_set p - {i}"
    using wl.marked_unmark[OF lt] by (simp add: q_def free_set_upd free_set_def)
  then show "free_set q = free_set p - {i}" .
  have c: "free_count p = card (free_set p)"
    using inv by (simp add: pmm_inv_def)
  have card: "card (free_set p) = Suc (card (free_set q))"
    using card_Suc_Diff1[OF finite_free_set i] by (simp only: fs)
  then show fc: "free_count p = Suc (free_count q)"
    by (simp add: q_def c)
  have "free_count q = card (free_set q)"
    using fc c card by linarith
  moreover have "pmm_geometry q"
    using inv by (simp add: pmm_inv_def q_def)
  moreover have "is_reserved q = is_reserved p" "frame_addr q = frame_addr p"
    "total_frames q = total_frames p"
    by (simp_all add: q_def)
  ultimately show "pmm_inv q"
    using inv by (simp add: pmm_inv_def fs)
qed

subsection \<open>Contiguous allocation\<close>

definition free_run :: "u64 list \<Rightarrow> nat \<Rightarrow> nat \<Rightarrow> nat \<Rightarrow> bool" where
  "free_run bm tot count s \<longleftrightarrow> s + count \<le> tot \<and> (\<forall>j. s \<le> j \<and> j < s + count \<longrightarrow> wl_test bm j)"

lemma run_scan_spec:
  assumes "0 < count" "rl < count" "cur + rl = idx" "0 < rl \<Longrightarrow> rs = cur" "idx \<le> tot"
    and "\<And>j. cur \<le> j \<Longrightarrow> j < idx \<Longrightarrow> wl_test bm j"
    and "\<And>s. s < cur \<Longrightarrow> \<not> free_run bm tot count s"
  shows "case run_scan bm tot count idx rs rl of
      Some s \<Rightarrow> free_run bm tot count s \<and> (\<forall>s' < s. \<not> free_run bm tot count s')
    | None \<Rightarrow> \<forall>s. \<not> free_run bm tot count s"
  using assms
proof (induction bm tot count idx rs rl arbitrary: cur rule: run_scan.induct)
  case (1 bm tot count idx rs rl)
  note prems = "1.prems"
  show ?case
  proof (cases "idx < tot")
    case False
    have "\<not> free_run bm tot count s" for s
    proof (cases "s < cur")
      case True
      then show ?thesis by (rule prems(7))
    next
      case False
      with \<open>\<not> idx < tot\<close> prems(2,3,5) show ?thesis
        by (simp add: free_run_def)
    qed
    with False show ?thesis
      by (simp add: run_scan.simps[of bm tot count idx])
  next
    case lt: True
    show ?thesis
    proof (cases "wl_test bm idx")
      case True
      have cur: "(if rl = 0 then idx else rs) = cur"
        using prems(3,4) by simp
      have free: "wl_test bm j" if "cur \<le> j" "j < idx + 1" for j
        using prems(6)[of j] True that by (cases "j = idx") auto
      show ?thesis
      proof (cases "rl + 1 = count")
        case True
        with cur lt \<open>wl_test bm idx\<close> have "run_scan bm tot count idx rs rl = Some cur"
          by (simp add: run_scan.simps[of bm tot count idx] Let_def)
        moreover have "free_run bm tot count cur"
          using free True prems(3) lt by (auto simp: free_run_def)
        ultimately show ?thesis
          using prems(7) by simp
      next
        case False
        with cur lt \<open>wl_test bm idx\<close>
        have step: "run_scan bm tot count idx rs rl = run_scan bm tot count (idx + 1) cur (rl + 1)"
          by (simp add: run_scan.simps[of bm tot count idx] Let_def)
        show ?thesis
          unfolding step
          by (rule "1.IH"(1)[OF lt \<open>wl_test bm idx\<close> cur[symmetric] False, of cur])
            (use prems False lt free in auto)
      qed
    next
      case False
      then have step: "run_scan bm tot count idx rs rl = run_scan bm tot count (idx + 1) rs 0"
        using lt by (simp add: run_scan.simps[of bm tot count idx])
      have none: "\<not> free_run bm tot count s" if "s < idx + 1" for s
      proof (cases "s < cur")
        case True
        then show ?thesis by (rule prems(7))
      next
        case False
        with that prems(2,3) have "s \<le> idx" "idx < s + count"
          by simp_all
        with \<open>\<not> wl_test bm idx\<close> show ?thesis
          by (auto simp: free_run_def)
      qed
      show ?thesis
        unfolding step
        by (rule "1.IH"(2)[OF lt False, of "idx + 1"]) (use prems lt none in auto)
    qed
  qed
qed

lemma pmm_inv_clear_run:
  assumes inv: "pmm_inv p" and run: "set is \<subseteq> free_set p" and "distinct is"
  defines "q \<equiv> p\<lparr>bitmap := fold (\<lambda>i bm. wl_clear bm i) is (bitmap p),
                 free_count := free_count p - length is\<rparr>"
  shows "pmm_inv q" and "free_set q = free_set p - set is"
    and "free_count p = free_count q + length is"
proof -
  have t: "\<And>i. i \<in> set is \<Longrightarrow> wl_test (bitmap p) i"
    using run by (auto simp: free_set_def)
  have lt: "\<And>i. i \<in> set is \<Longrightarrow> i < wl_bits (bitmap p)"
    using t by (rule wl.tst_range)
  have fs: "free_set q = free_set p - set is"
    using wl.tst_fold_unmark[of "is" "bitmap p"] lt by (auto simp: q_def free_set_def)
  then show "free_set q = free_set p - set is" .
  have c: "free_count p = card (free_set p)"
    using inv by (simp add: pmm_inv_def)
  have card: "card (free_set q) + length is = card (free_set p)"
    using wl.card_fold_unmark[of "is" "bitmap p"] t \<open>distinct is\<close> by (simp add: q_def free_set_def)
  have fq: "free_count q = free_count p - length is"
    by (simp add: q_def)
  then show fc: "free_count p = free_count q + length is"
    using card c by linarith
  have "length (fold (\<lambda>i bm. wl_clear bm i) is (bitmap p)) = length (bitmap p)"
    using wl.nbits_fold_unmark[of "is" "bitmap p"] by (simp add: wl_bits_def)
  then have "pmm_geometry q"
    using inv by (simp add: pmm_inv_def q_def)
  moreover have "free_count q = card (free_set q)"
    using fc c card by linarith
  moreover have "is_reserved q = is_reserved p" "frame_addr q = frame_addr p"
    "total_frames q = total_frames p"
    by (simp_all add: q_def)
  ultimately show "pmm_inv q"
    using inv by (simp add: pmm_inv_def fs)
qed

lemma alloc_run_step:
  assumes "pmm_inv p" "0 < count"
  shows "alloc_frames_contiguous count (Some p) =
    (case run_scan (bitmap p) (total_frames p) count 0 0 0 of
       None \<Rightarrow> (None, Some p)
     | Some s \<Rightarrow>
         (Some (frame_addr p s),
          Some (p\<lparr>bitmap := fold (\<lambda>i bm. wl_clear bm i) [s..<s + count] (bitmap p),
                  free_count := free_count p - length [s..<s + count]\<rparr>)))"
proof (cases "total_frames p < count")
  case True
  have "\<not> free_run (bitmap p) (total_frames p) count s" for s
    using True by (simp add: free_run_def)
  then have "run_scan (bitmap p) (total_frames p) count 0 0 0 = None"
    using run_scan_spec[of count 0 0 0 0 "total_frames p" "bitmap p"] assms(2)
    by (auto split: option.splits)
  with True assms(2) show ?thesis
    by (simp add: alloc_frames_contiguous_def)
next
  case False
  with assms(2) show ?thesis
    by (auto simp: alloc_frames_contiguous_def frame_addr_def split: option.splits)
qed

subsection \<open>Release\<close>

lemma pmm_inv_set:
  assumes inv: "pmm_inv p" and i: "i < total_frames p" "i \<notin> free_set p"
    and nr: "\<not> is_reserved p (frame_addr p i)"
  defines "q \<equiv> p\<lparr>bitmap := wl_set (bitmap p) i, free_count := free_count p + 1\<rparr>"
  shows "pmm_inv q" and "free_set q = insert i (free_set p)"
proof -
  have g: "pmm_geometry p"
    using inv by (simp add: pmm_inv_def)
  have lt: "i < wl_bits (bitmap p)"
    using frame_in_bitmap[OF g i(1)] .
  have fs: "free_set q = insert i (free_set p)"
    using wl.marked_mark[OF lt] by (simp add: q_def free_set_upd free_set_def)
  then show "free_set q = insert i (free_set p)" .
  have "free_count q = card (free_set q)"
    using inv i(2) unfolding fs by (simp add: q_def pmm_inv_def)
  moreover have "pmm_geometry q"
    using g by (simp add: q_def)
  moreover have "is_reserved q = is_reserved p" "frame_addr q = frame_addr p"
    "total_frames q = total_frames p"
    by (simp_all add: q_def)
  ultimately show "pmm_inv q"
    using inv i(1) nr by (simp add: pmm_inv_def fs)
qed

lemma free_loop_spec:
  assumes "pmm_inv p"
  shows "pmm_inv (free_loop n i p) \<and>
    free_set (free_loop n i p) =
      free_set p \<union> {j. i \<le> j \<and> j < i + n \<and> j < total_frames p \<and> \<not> is_reserved p (frame_addr p j)}"
  using assms
proof (induction n i p rule: free_loop.induct)
  case (1 i p)
  then show ?case by auto
next
  case (2 n i p)
  let ?q = "p\<lparr>bitmap := wl_set (bitmap p) i, free_count := free_count p + 1\<rparr>"
  have split: "{j. i \<le> j \<and> j < Suc (i + n) \<and> P j} =
      (if P i then insert i {j. Suc i \<le> j \<and> j < Suc (i + n) \<and> P j}
       else {j. Suc i \<le> j \<and> j < Suc (i + n) \<and> P j})" for P
    by (auto simp: le_less Suc_le_eq)
  show ?case
  proof (cases "total_frames p \<le> i")
    case True
    then show ?thesis
      using "2.prems" by auto
  next
    case lt: False
    show ?thesis
    proof (cases "is_reserved p (frame_addr p i)")
      case True
      then show ?thesis
        using lt "2.IH"(1) "2.prems" by (simp add: frame_addr_def[symmetric] split)
    next
      case nr: False
      show ?thesis
      proof (cases "wl_test (bitmap p) i")
        case True
        then have "i \<in> free_set p"
          by (simp add: free_set_def)
        then show ?thesis
          using lt nr True "2.IH"(3) "2.prems"
          by (simp add: frame_addr_def[symmetric] split insert_absorb)
      next
        case False
        then have nf: "i \<notin> free_set p"
          by (simp add: free_set_def)
        have "i < total_frames p"
          using lt by simp
        note q = pmm_inv_set[OF "2.prems" this nf nr]
        have "free_loop (Suc n) i p = free_loop n (Suc i) ?q"
          using lt nr False by (simp add: frame_addr_def[symmetric])
        moreover have "pmm_inv (free_loop n (Suc i) ?q) \<and>
          free_set (free_loop n (Suc i) ?q) = free_set ?q \<union>
            {j. Suc i \<le> j \<and> j < Suc i + n \<and> j < total_frames p \<and> \<not> is_reserved p (frame_addr p j)}"
          using "2.IH"(2)[OF _ _ _ q(1)] lt nr False by (simp add: frame_addr_def[symmetric])
        ultimately show ?thesis
          using q(2) lt nr by (simp add: split)
      qed
    qed
  qed
qed

lemma free_frame_step:
  assumes inv: "pmm_inv p" and al: "4096 dvd unat addr"
    and r: "base_addr p \<le> addr" "addr < top_addr p"
  defines "i \<equiv> unat ((addr - base_addr p) div FRAME_SIZE)"
  shows "free_frame addr (Some p) =
    (if is_reserved p addr then (False, Some p)
     else if i \<in> free_set p then (True, Some p)
     else (False, Some (p\<lparr>bitmap := wl_set (bitmap p) i, free_count := free_count p + 1\<rparr>)))"
    and "i < total_frames p" and "addr = frame_addr p i"
proof -
  have g: "pmm_geometry p"
    using inv by (simp add: pmm_inv_def)
  show lt: "i < total_frames p" and "addr = frame_addr p i"
    using frame_index[OF g r] al by (simp_all add: i_def)
  have "i div 64 < length (bitmap p)"
    using frame_in_bitmap[OF g lt] by (simp add: wl_bits_iff)
  then show "free_frame addr (Some p) =
    (if is_reserved p addr then (False, Some p)
     else if i \<in> free_set p then (True, Some p)
     else (False, Some (p\<lparr>bitmap := wl_set (bitmap p) i, free_count := free_count p + 1\<rparr>)))"
    using r by (auto simp: free_frame_def free_set_def i_def[symmetric] Let_def not_less)
qed

subsection \<open>Initialisation\<close>

text \<open>
  What the Limine protocol guarantees of a memory map: usable entries are 4 KiB aligned in
  base and length, and a usable entry overlaps no other entry.  No entry reaches beyond the
  52-bit physical address space of the architecture.
\<close>

definition entry_end :: "memmap_entry \<Rightarrow> nat" where
  "entry_end e = unat (me_base e) + unat (me_length e)"

definition wf_entry :: "memmap_entry \<Rightarrow> bool" where
  "wf_entry e \<longleftrightarrow> entry_end e \<le> 2 ^ 52
     \<and> (me_type e = MEMMAP_USABLE \<longrightarrow> 4096 dvd unat (me_base e) \<and> 4096 dvd unat (me_length e))"

definition apart :: "memmap_entry \<Rightarrow> memmap_entry \<Rightarrow> bool" where
  "apart e f \<longleftrightarrow> (me_type e = MEMMAP_USABLE \<or> me_type f = MEMMAP_USABLE \<longrightarrow>
     entry_end e \<le> unat (me_base f) \<or> entry_end f \<le> unat (me_base e))"

definition wf_memmap :: "memmap_entry list \<Rightarrow> bool" where
  "wf_memmap es \<longleftrightarrow> list_all wf_entry es \<and> sorted_wrt apart es"

definition entry_frames :: "pmm \<Rightarrow> memmap_entry \<Rightarrow> nat set" where
  "entry_frames p e = {j. unat (me_base e) \<le> unat (base_addr p) + 4096 * j
     \<and> unat (base_addr p) + 4096 * j < entry_end e}"

definition frame_skipped :: "pmm \<Rightarrow> nat \<Rightarrow> bool" where
  "frame_skipped p j \<longleftrightarrow> frame_addr p j < LOW_RESERVED
     \<or> bitmap_phys p \<le> frame_addr p j \<and> frame_addr p j < bitmap_phys p + bitmap_bytes p"

definition pmm_pre :: "pmm \<Rightarrow> bool" where
  "pmm_pre p \<longleftrightarrow> pmm_geometry p \<and> free_count p = card (free_set p)"

definition pmm_same :: "pmm \<Rightarrow> pmm \<Rightarrow> bool" where
  "pmm_same p q \<longleftrightarrow> (\<exists>bm n. length bm = length (bitmap p) \<and> q = p\<lparr>bitmap := bm, free_count := n\<rparr>)"

lemma pmm_same_refl [simp]: "pmm_same p p"
  unfolding pmm_same_def by (rule exI[of _ "bitmap p"], rule exI[of _ "free_count p"]) simp

lemma pmm_same_trans: "pmm_same p q \<Longrightarrow> pmm_same q r \<Longrightarrow> pmm_same p r"
  unfolding pmm_same_def
proof (elim exE conjE)
  fix bm n bm' n'
  assume "length bm = length (bitmap p)" "q = p\<lparr>bitmap := bm, free_count := n\<rparr>"
    "length bm' = length (bitmap q)" "r = q\<lparr>bitmap := bm', free_count := n'\<rparr>"
  then show "\<exists>bm n. length bm = length (bitmap p) \<and> r = p\<lparr>bitmap := bm, free_count := n\<rparr>"
    by (intro exI[of _ bm'] exI[of _ n']) simp
qed

lemma pmm_same_upd [simp]:
  "length bm = length (bitmap p) \<Longrightarrow> pmm_same p (p\<lparr>bitmap := bm, free_count := n\<rparr>)"
  by (auto simp: pmm_same_def)

lemma pmm_same_simps:
  assumes "pmm_same p q"
  shows "base_addr q = base_addr p" "top_addr q = top_addr p" "total_frames q = total_frames p"
    "frame_addr q = frame_addr p" "is_reserved q = is_reserved p" "frame_skipped q = frame_skipped p"
    "entry_frames q = entry_frames p" "pmm_geometry q = pmm_geometry p"
  using assms
  by (auto simp: pmm_same_def frame_skipped_def entry_frames_def fun_eq_iff)

lemma FRAME_mask: "FRAME_SIZE - 1 = mask 12"
  by (simp add: FRAME_SIZE_def mask_eq_exp_minus_1)

lemma unat_align_down: "unat (align_down a FRAME_SIZE) = unat a div 4096 * 4096"
  using unat_and_not_mask[of a 12] by (simp add: align_down_def FRAME_mask)

lemma unat_align_up:
  assumes "unat a + 4095 < 2 ^ 64"
  shows "unat (align_up a FRAME_SIZE) = (unat a + 4095) div 4096 * 4096"
proof -
  have "a + FRAME_SIZE - 1 = a + 4095"
    by (simp add: FRAME_SIZE_def)
  moreover have "unat (a + 4095) = unat a + 4095"
    using unat_plus_exact[of a 4095] assms by simp
  ultimately show ?thesis
    using unat_and_not_mask[of "a + 4095" 12] by (simp only: align_up_def FRAME_mask) simp
qed

lemma aligned_div_mult: "4096 dvd n \<Longrightarrow> (n + 4095) div 4096 * 4096 = (n::nat)"
  by (auto elim!: dvdE)

lemma aligned_id:
  assumes "4096 dvd unat a"
  shows "align_down a FRAME_SIZE = a" and "unat a + 4096 \<le> 2 ^ 64 \<Longrightarrow> align_up a FRAME_SIZE = a"
  using assms unat_align_down[of a] unat_align_up[of a]
  by (auto simp: word_unat_eq_iff aligned_div_mult)

lemma frame_addr_Suc: "frame_addr p (Suc k) = frame_addr p k + FRAME_SIZE"
  by (simp add: frame_addr_def algebra_simps)

lemma init_free_step_spec:
  assumes pre: "pmm_pre p" and k: "k < total_frames p" "k \<notin> free_set p"
  defines "q \<equiv> init_free_step (frame_addr p k) p"
  shows "pmm_pre q" and "pmm_same p q"
    and "free_set q = free_set p \<union> {j. j = k \<and> \<not> frame_skipped p j}"
proof -
  have g: "pmm_geometry p"
    using pre by (simp add: pmm_pre_def)
  have lt: "k < wl_bits (bitmap p)"
    using frame_in_bitmap[OF g k(1)] .
  have idx: "unat ((frame_addr p k - base_addr p) div FRAME_SIZE) = k"
    using index_frame_addr(1)[OF g k(1)] .
  have step: "q = (if frame_skipped p k then p
    else p\<lparr>bitmap := wl_set (bitmap p) k, free_count := free_count p + 1\<rparr>)"
    using lt by (simp add: q_def init_free_step_def idx frame_skipped_def LOW_RESERVED_def Let_def wl_bits_iff)
  show "pmm_same p q"
    by (simp add: step)
  have "free_set q = insert k (free_set p)" if "\<not> frame_skipped p k"
    using that wl.marked_mark[OF lt] by (simp add: step free_set_upd free_set_def)
  then show fs: "free_set q = free_set p \<union> {j. j = k \<and> \<not> frame_skipped p j}"
    by (cases "frame_skipped p k") (auto simp: step)
  have "free_count q = card (free_set q)" if "\<not> frame_skipped p k"
    using that pre k(2) \<open>\<not> frame_skipped p k \<Longrightarrow> free_set q = insert k (free_set p)\<close>
    by (simp add: step pmm_pre_def)
  then show "pmm_pre q"
    using pre by (cases "frame_skipped p k") (simp_all add: step pmm_pre_def)
qed

lemma init_free_loop_spec:
  assumes "pmm_pre p" "k + n \<le> total_frames p" "\<And>j. k \<le> j \<Longrightarrow> j < k + n \<Longrightarrow> j \<notin> free_set p"
  defines "q \<equiv> init_free_loop n (frame_addr p k) p"
  shows "pmm_pre q \<and> pmm_same p q
    \<and> free_set q = free_set p \<union> {j. k \<le> j \<and> j < k + n \<and> \<not> frame_skipped p j}"
  using assms(1-3) unfolding q_def
proof (induction n arbitrary: k p)
  case 0
  then show ?case by auto
next
  case (Suc n)
  define p' where "p' = init_free_step (frame_addr p k) p"
  have k: "k < total_frames p" "k \<notin> free_set p"
    using Suc.prems(2,3) by simp_all
  note s = init_free_step_spec[OF Suc.prems(1) k, folded p'_def]
  note same = pmm_same_simps[OF s(2)]
  have "pmm_pre (init_free_loop n (frame_addr p' (Suc k)) p')
      \<and> pmm_same p' (init_free_loop n (frame_addr p' (Suc k)) p')
      \<and> free_set (init_free_loop n (frame_addr p' (Suc k)) p') =
        free_set p' \<union> {j. Suc k \<le> j \<and> j < Suc k + n \<and> \<not> frame_skipped p' j}"
    using Suc.prems(2,3) by (intro Suc.IH[OF s(1)]) (auto simp: same s(3))
  moreover have "init_free_loop (Suc n) (frame_addr p k) p = init_free_loop n (frame_addr p' (Suc k)) p'"
    by (simp add: p'_def[symmetric] same frame_addr_Suc)
  moreover have "{j. j = k \<and> \<not> frame_skipped p j} \<union>
      {j. Suc k \<le> j \<and> j < Suc k + n \<and> \<not> frame_skipped p j} =
      {j. k \<le> j \<and> j < k + Suc n \<and> \<not> frame_skipped p j}"
    by (auto simp: le_less Suc_le_eq)
  ultimately show ?case
    using pmm_same_trans[OF s(2)] s(3) by (auto simp: same)
qed

lemma wf_usable:
  assumes "wf_entry e" "me_type e = MEMMAP_USABLE"
  shows "unat (me_base e + me_length e) = entry_end e"
    and "align_up (me_base e) FRAME_SIZE = me_base e"
    and "align_down (me_base e + me_length e) FRAME_SIZE = me_base e + me_length e"
    and "4096 dvd unat (me_base e)" and "4096 dvd unat (me_length e)" and "4096 dvd entry_end e"
    and "entry_end e \<le> 2 ^ 52"
proof -
  have w: "entry_end e \<le> 2 ^ 52" "4096 dvd unat (me_base e)" "4096 dvd unat (me_length e)"
    using assms by (simp_all add: wf_entry_def)
  then show "4096 dvd unat (me_base e)" "4096 dvd unat (me_length e)" "entry_end e \<le> 2 ^ 52"
    by simp_all
  show e: "4096 dvd entry_end e"
    using w(2,3) by (simp add: entry_end_def)
  show u: "unat (me_base e + me_length e) = entry_end e"
    using w(1) by (simp add: unat_plus_exact entry_end_def)
  show "align_up (me_base e) FRAME_SIZE = me_base e"
    using w by (intro aligned_id(2)) (simp_all add: entry_end_def)
  show "align_down (me_base e + me_length e) FRAME_SIZE = me_base e + me_length e"
    using e by (intro aligned_id(1)) (simp add: u)
qed

lemma init_free_region_spec:
  assumes wf: "wf_entry e" and us: "me_type e = MEMMAP_USABLE" and pre: "pmm_pre p"
    and lo: "base_addr p \<le> me_base e" and hi: "entry_end e \<le> unat (top_addr p)"
    and fresh: "entry_frames p e \<inter> free_set p = {}"
  defines "q \<equiv> init_free_region e p"
  shows "pmm_pre q \<and> pmm_same p q
    \<and> free_set q = free_set p \<union> {j \<in> entry_frames p e. \<not> frame_skipped p j}"
proof -
  note w = wf_usable[OF wf us]
  have g: "pmm_geometry p"
    using pre by (simp add: pmm_pre_def)
  have lo': "unat (base_addr p) \<le> unat (me_base e)"
    using lo by (simp add: word_le_nat_alt)
  define k where "k = (unat (me_base e) - unat (base_addr p)) div 4096"
  define n where "n = unat (me_length e) div 4096"
  have k: "4096 * k = unat (me_base e) - unat (base_addr p)"
    using w(4) g by (simp add: k_def pmm_geometry_def)
  have n: "4096 * n = unat (me_length e)"
    using w(5) by (simp add: n_def)
  have kn: "k + n \<le> total_frames p"
    using k n lo' hi g unfolding pmm_geometry_def entry_end_def by linarith
  have frames: "entry_frames p e = {j. k \<le> j \<and> j < k + n}"
    using k n lo' by (auto simp: entry_frames_def entry_end_def)
  have base: "me_base e = frame_addr p k"
    using unat_frame_addr[OF g, of k] kn k lo' by (simp add: word_unat_eq_iff)
  have cnt: "unat ((me_base e + me_length e - me_base e) div FRAME_SIZE) = n"
    by (simp add: unat_div FRAME_SIZE_def n_def)
  have lt: "me_base e < me_base e + me_length e \<longleftrightarrow> 0 < n"
    using n by (auto simp: word_less_nat_alt w(1) entry_end_def)
  have "q = init_free_loop n (frame_addr p k) p"
    using lt cnt unfolding q_def init_free_region_def w(2,3) Let_def
    by (cases "0 < n") (simp_all add: base[symmetric])
  then show ?thesis
    using init_free_loop_spec[OF pre kn] fresh by (auto simp: frames)
qed

lemma apart_frames:
  assumes "wf_entry e" "wf_entry f" "me_type e = MEMMAP_USABLE" "me_type f = MEMMAP_USABLE" "apart e f"
  shows "entry_frames p e \<inter> entry_frames p f = {}"
  using assms by (auto simp: apart_def entry_frames_def)

lemma init_free_regions_spec:
  assumes "wf_memmap es" "pmm_pre p"
    and "\<And>e. e \<in> set es \<Longrightarrow> me_type e = MEMMAP_USABLE \<Longrightarrow>
      base_addr p \<le> me_base e \<and> entry_end e \<le> unat (top_addr p) \<and> entry_frames p e \<inter> free_set p = {}"
  defines "q \<equiv> init_free_regions es p"
  shows "pmm_pre q \<and> pmm_same p q \<and> free_set q = free_set p \<union>
    {j. (\<exists>e \<in> set es. me_type e = MEMMAP_USABLE \<and> j \<in> entry_frames p e) \<and> \<not> frame_skipped p j}"
  using assms(1-3) unfolding q_def
proof (induction es p rule: init_free_regions.induct)
  case (1 p)
  then show ?case by simp
next
  case (2 e es p)
  have wf: "wf_entry e" "wf_memmap es" "\<And>f. f \<in> set es \<Longrightarrow> apart e f \<and> wf_entry f"
    using "2.prems"(1) by (auto simp: wf_memmap_def list_all_iff)
  show ?case
  proof (cases "me_type e = MEMMAP_USABLE")
    case False
    then show ?thesis
      using "2.IH"[OF wf(2)] "2.prems" by auto
  next
    case us: True
    define p' where "p' = init_free_region e p"
    have r: "pmm_pre p' \<and> pmm_same p p'
        \<and> free_set p' = free_set p \<union> {j \<in> entry_frames p e. \<not> frame_skipped p j}"
      unfolding p'_def using "2.prems"(3)[of e] us
      by (intro init_free_region_spec wf(1) "2.prems"(2)) auto
    then have same: "pmm_same p p'" and pre: "pmm_pre p'" by simp_all
    note ss = pmm_same_simps[OF same]
    have "pmm_pre (init_free_regions es p') \<and> pmm_same p' (init_free_regions es p') \<and>
      free_set (init_free_regions es p') = free_set p' \<union>
        {j. (\<exists>f \<in> set es. me_type f = MEMMAP_USABLE \<and> j \<in> entry_frames p' f) \<and> \<not> frame_skipped p' j}"
    proof (rule "2.IH"[unfolded if_P[OF us] p'_def[symmetric], OF wf(2) pre])
      fix f assume f: "f \<in> set es" "me_type f = MEMMAP_USABLE"
      have "entry_frames p e \<inter> entry_frames p f = {}"
        using apart_frames[OF wf(1) _ us f(2)] wf(3)[OF f(1)] by blast
      then show "base_addr p' \<le> me_base f \<and> entry_end f \<le> unat (top_addr p')
        \<and> entry_frames p' f \<inter> free_set p' = {}"
        using "2.prems"(3)[of f] f r by (auto simp: ss)
    qed
    moreover have "init_free_regions (e # es) p = init_free_regions es p'"
      by (simp add: us p'_def)
    ultimately show ?thesis
      using r pmm_same_trans[OF same] us by (auto simp: ss)
  qed
qed

lemma usable_range_spec:
  assumes "usable_range es b t = (b', t')"
  shows "b' \<le> b" and "t \<le> t'"
    and "\<And>e. e \<in> set es \<Longrightarrow> me_type e = MEMMAP_USABLE \<Longrightarrow>
      b' \<le> me_base e \<and> me_base e + me_length e \<le> t'"
    and "b' = b \<or> (\<exists>e \<in> set es. me_type e = MEMMAP_USABLE \<and> b' = me_base e)"
    and "t' = t \<or> (\<exists>e \<in> set es. me_type e = MEMMAP_USABLE \<and> t' = me_base e + me_length e)"
proof -
  have "b' \<le> b \<and> t \<le> t' \<and> (\<forall>e \<in> set es. me_type e = MEMMAP_USABLE \<longrightarrow>
      b' \<le> me_base e \<and> me_base e + me_length e \<le> t')
    \<and> (b' = b \<or> (\<exists>e \<in> set es. me_type e = MEMMAP_USABLE \<and> b' = me_base e))
    \<and> (t' = t \<or> (\<exists>e \<in> set es. me_type e = MEMMAP_USABLE \<and> t' = me_base e + me_length e))"
    using assms
  proof (induction es b t rule: usable_range.induct)
    case (1 b t)
    then show ?case by simp
  next
    case (2 e es b t)
    show ?case
    proof (cases "me_type e = MEMMAP_USABLE")
      case False
      then show ?thesis
        using 2 by auto
    next
      case True
      let ?b = "if me_base e < b then me_base e else b"
      let ?t = "if t < me_base e + me_length e then me_base e + me_length e else t"
      have eq: "usable_range es ?b ?t = (b', t')"
        using "2.prems" True by (simp add: Let_def)
      note IH = "2.IH"(1)[OF True refl refl refl eq]
      have "?b \<le> b" "?b \<le> me_base e" "t \<le> ?t" "me_base e + me_length e \<le> ?t"
        by (auto simp: not_less)
      then have "b' \<le> b" "b' \<le> me_base e" "t \<le> t'" "me_base e + me_length e \<le> t'"
        using IH by (meson order_trans)+
      then show ?thesis
        using IH True by (auto split: if_splits)
    qed
  qed
  then show "b' \<le> b" and "t \<le> t'"
    and "\<And>e. e \<in> set es \<Longrightarrow> me_type e = MEMMAP_USABLE \<Longrightarrow>
      b' \<le> me_base e \<and> me_base e + me_length e \<le> t'"
    and "b' = b \<or> (\<exists>e \<in> set es. me_type e = MEMMAP_USABLE \<and> b' = me_base e)"
    and "t' = t \<or> (\<exists>e \<in> set es. me_type e = MEMMAP_USABLE \<and> t' = me_base e + me_length e)"
    by auto
qed

lemma aligned_le_floor: "4096 dvd x \<Longrightarrow> x \<le> n \<Longrightarrow> x \<le> n div 4096 * (4096::nat)"
  by (metis div_le_mono dvd_div_mult_self mult_le_mono1)

lemma aligned_ceil_le: "4096 dvd x \<Longrightarrow> n \<le> x \<Longrightarrow> (n + 4095) div 4096 * 4096 \<le> (x::nat)"
  by (metis add_le_mono1 aligned_div_mult div_le_mono mult_le_mono1)

lemma ceil_block: "i < (n + 4095) div 4096 \<Longrightarrow> 4096 * i < (n::nat)"
  by (simp add: less_eq_div_iff_mult_less_eq Suc_le_eq[symmetric])

lemma place_bitmap_spec:
  assumes "wf_memmap es" "unat bytes \<le> 2 ^ 52" "place_bitmap es bytes \<noteq> 0"
  shows "\<exists>e \<in> set es. me_type e = MEMMAP_USABLE \<and> me_base e \<le> place_bitmap es bytes
    \<and> unat (place_bitmap es bytes) + unat bytes \<le> entry_end e
    \<and> 4096 dvd unat (place_bitmap es bytes)"
  using assms
proof (induction es)
  case Nil
  then show ?case by simp
next
  case (Cons e es)
  have wf: "wf_entry e" "wf_memmap es"
    using Cons.prems(1) by (auto simp: wf_memmap_def)
  show ?case
  proof (cases "me_type e = MEMMAP_USABLE \<and> bytes \<le> me_length e")
    case False
    then show ?thesis
      using Cons.IH[OF wf(2)] Cons.prems by auto
  next
    case True
    note w = wf_usable[OF wf(1) conjunct1[OF True]]
    let ?c = "(me_base e + 0x200000) AND NOT (FRAME_SIZE - 1)"
    have u: "unat (me_base e + 0x200000) = unat (me_base e) + 0x200000"
      using w(7) by (intro trans[OF unat_plus_exact]) (simp_all add: entry_end_def)
    have "unat ?c = unat (me_base e) + 0x200000"
      using unat_align_down[of "me_base e + 0x200000"] w(4)
      by (simp add: align_down_def u div_add)
    moreover have "unat (?c + bytes) = unat ?c + unat bytes"
      using calculation w(7) Cons.prems(2) by (intro unat_plus_exact) (simp add: entry_end_def)
    moreover have "unat bytes \<le> unat (me_length e)"
      using True by (simp add: word_le_nat_alt)
    ultimately show ?thesis
      using True w(1,4) by (auto simp: Let_def word_le_nat_alt entry_end_def intro!: bexI[of _ e])
  qed
qed

lemma collect_kernel_ranges_subset:
  "set (collect_kernel_ranges es acc) \<subseteq> set acc \<union>
     (\<lambda>e. (align_down (me_base e) FRAME_SIZE, align_up (me_base e + me_length e) FRAME_SIZE)) `
       {e \<in> set es. me_type e = MEMMAP_EXECUTABLE_AND_MODULES}"
proof (induction es acc rule: collect_kernel_ranges.induct)
  case (1 acc)
  then show ?case by simp
next
  case (2 e es acc)
  then show ?case
    by (cases "me_type e = MEMMAP_EXECUTABLE_AND_MODULES"; cases "MAX_KERNEL_RANGES \<le> length acc") auto
qed

lemma apart_set:
  assumes "sorted_wrt apart es" "e \<in> set es" "f \<in> set es" "e \<noteq> f"
  shows "apart e f"
  using assms by (induction es) (auto simp: apart_def)

lemma usable_not_in_kernel_range:
  assumes wf: "wf_memmap es" and e: "e \<in> set es" "me_type e = MEMMAP_USABLE"
    and f: "f \<in> set es" "me_type f = MEMMAP_EXECUTABLE_AND_MODULES"
    and a: "unat (me_base e) \<le> unat a" "unat a < entry_end e"
  shows "\<not> (align_down (me_base f) FRAME_SIZE \<le> a
    \<and> a < align_up (me_base f + me_length f) FRAME_SIZE)"
proof -
  have wfs: "wf_entry e" "wf_entry f"
    using wf e f by (auto simp: wf_memmap_def list_all_iff)
  note w = wf_usable[OF wfs(1) e(2)]
  have "e \<noteq> f"
    using e(2) f(2) by (auto simp: MEMMAP_USABLE_def MEMMAP_EXECUTABLE_AND_MODULES_def)
  then have "apart e f"
    using wf e f by (intro apart_set) (auto simp: wf_memmap_def)
  then have d: "entry_end e \<le> unat (me_base f) \<or> entry_end f \<le> unat (me_base e)"
    using e(2) by (simp add: apart_def)
  have fe: "entry_end f \<le> 2 ^ 52"
    using wfs(2) by (simp add: wf_entry_def)
  have uf: "unat (me_base f + me_length f) = entry_end f"
    using fe by (simp add: unat_plus_exact entry_end_def)
  have up: "unat (align_up (me_base f + me_length f) FRAME_SIZE) = (entry_end f + 4095) div 4096 * 4096"
    using fe by (simp add: unat_align_up uf)
  show ?thesis
    using d
  proof
    assume "entry_end e \<le> unat (me_base f)"
    then have "entry_end e \<le> unat (align_down (me_base f) FRAME_SIZE)"
      unfolding unat_align_down by (rule aligned_le_floor[OF w(6)])
    then show ?thesis
      using a by (simp add: word_le_nat_alt)
  next
    assume "entry_end f \<le> unat (me_base e)"
    then have "unat (align_up (me_base f + me_length f) FRAME_SIZE) \<le> unat (me_base e)"
      unfolding up by (rule aligned_ceil_le[OF w(4)])
    then show ?thesis
      using a by (simp add: word_less_nat_alt)
  qed
qed

lemma reserve_loop_id:
  assumes "pmm_geometry p" "addr = frame_addr p k" "k + n \<le> total_frames p"
    and "\<And>j. k \<le> j \<Longrightarrow> j < k + n \<Longrightarrow> j \<notin> free_set p"
  shows "reserve_loop n addr p = p"
  using assms
proof (induction n arbitrary: k addr)
  case 0
  then show ?case by simp
next
  case (Suc n)
  have "reserve_step addr p = p"
    using Suc.prems index_frame_addr(1)[OF Suc.prems(1), of k]
    by (simp add: reserve_step_def Let_def free_set_def)
  then show ?case
    using Suc.prems Suc.IH[of "addr + FRAME_SIZE" "Suc k"] by (simp add: frame_addr_Suc)
qed

text \<open>The state that \<^verbatim>\<open>init\<close> starts its freeing passes from.\<close>

definition init_start :: "memmap_entry list \<Rightarrow> u64 \<Rightarrow> u64 \<Rightarrow> pmm" where
  "init_start es b t =
     (let tot = unat ((t - b) div FRAME_SIZE);
          bytes = of_nat ((tot + 63) div 64 * 8);
          ranges = collect_kernel_ranges es []
      in \<lparr>bitmap = replicate ((tot + 63) div 64) 0, total_frames = tot, free_count = 0,
          base_addr = b, top_addr = t, bitmap_phys = place_bitmap es bytes, bitmap_bytes = bytes,
          kernel_ranges = ranges @ replicate (MAX_KERNEL_RANGES - length ranges) (0, 0),
          kernel_range_count = length ranges\<rparr>)"

lemma free_set_zero: "free_set p = {}" if "bitmap p = replicate n 0"
  using that by (simp add: free_set_empty_iff)

lemma is_reserved_ranges:
  assumes "kernel_range_count p \<le> length (kernel_ranges p)" "is_reserved p a"
  shows "a < LOW_RESERVED \<or> bitmap_phys p \<le> a \<and> a < bitmap_phys p + bitmap_bytes p
     \<or> (\<exists>r \<in> set (take (kernel_range_count p) (kernel_ranges p)). fst r \<le> a \<and> a < snd r)"
proof -
  from assms(2) consider "a < LOW_RESERVED" | "bitmap_phys p \<le> a \<and> a < bitmap_phys p + bitmap_bytes p"
    | i where "i < kernel_range_count p" "fst (kernel_ranges p ! i) \<le> a" "a < snd (kernel_ranges p ! i)"
    by (auto simp: is_reserved_def list_ex_iff split_beta split: if_splits)
  then show ?thesis
  proof cases
    case (3 i)
    then have "kernel_ranges p ! i \<in> set (take (kernel_range_count p) (kernel_ranges p))"
      using assms(1) by (auto simp: in_set_conv_nth)
    with 3 show ?thesis by blast
  qed simp_all
qed

lemma init_range:
  assumes wf: "wf_memmap es" and r: "usable_range es (- 1) 0 = (b, t)" and nb: "b \<noteq> - 1"
  shows "4096 dvd unat b" and "b \<le> t" and "4096 dvd unat t" and "unat t \<le> 2 ^ 52"
    and "\<And>e. e \<in> set es \<Longrightarrow> me_type e = MEMMAP_USABLE \<Longrightarrow> b \<le> me_base e \<and> entry_end e \<le> unat t"
proof -
  note ur = usable_range_spec[OF r]
  have w: "wf_entry e" if "e \<in> set es" for e
    using wf that by (auto simp: wf_memmap_def list_all_iff)
  show in_range: "b \<le> me_base e \<and> entry_end e \<le> unat t"
    if "e \<in> set es" "me_type e = MEMMAP_USABLE" for e
    using ur(3)[OF that] wf_usable(1)[OF w[OF that(1)] that(2)] by (simp add: word_le_nat_alt)
  obtain e0 where e0: "e0 \<in> set es" "me_type e0 = MEMMAP_USABLE" "b = me_base e0"
    using ur(4) nb by auto
  show "4096 dvd unat b"
    using wf_usable(4)[OF w[OF e0(1)] e0(2)] e0(3) by simp
  show "b \<le> t"
    using in_range[OF e0(1,2)] e0(3) by (simp add: word_le_nat_alt entry_end_def)
  have "4096 dvd unat t \<and> unat t \<le> 2 ^ 52"
    using ur(5) wf_usable(1,6,7)[OF w] by auto
  then show "4096 dvd unat t" and "unat t \<le> 2 ^ 52" by simp_all
qed

lemma init_decompose:
  assumes wf: "wf_memmap es" and i: "init es = InitDone p"
  obtains b t where "usable_range es (- 1) 0 = (b, t)" "b \<noteq> - 1"
    "bitmap_phys (init_start es b t) \<noteq> 0"
    "p = reserve_loop ((length (bitmap (init_start es b t)) * 8 + 4095) div 4096)
           (bitmap_phys (init_start es b t)) (init_free_regions es (init_start es b t))"
proof -
  obtain b t where r: "usable_range es (- 1) 0 = (b, t)"
    by (cases "usable_range es (- 1) 0")
  have nb: "b \<noteq> - 1"
    using i r by (auto simp: init_def)
  note ir = init_range[OF wf r nb]
  have "b AND NOT (FRAME_SIZE - 1) = b"
    using aligned_id(1)[OF ir(1)] by (simp add: align_down_def)
  moreover have "(t + FRAME_SIZE - 1) AND NOT (FRAME_SIZE - 1) = t"
    using aligned_id(2)[OF ir(3)] ir(4) by (simp add: align_up_def)
  ultimately show thesis
    using i r nb that[OF r nb] by (auto simp: init_def init_start_def Let_def split: if_splits)
qed

lemma init_start_pre:
  fixes es :: "memmap_entry list"
  assumes "4096 dvd unat b" "b \<le> t" "4096 dvd unat t" "unat t \<le> 2 ^ 52"
  defines "s \<equiv> init_start es b t"
  shows "pmm_pre s" and "free_set s = {}" and "base_addr s = b" and "top_addr s = t"
    and "unat (bitmap_bytes s) = length (bitmap s) * 8" and "unat (bitmap_bytes s) \<le> 2 ^ 52"
    and "bitmap_phys s = place_bitmap es (bitmap_bytes s)"
    and "kernel_range_count s \<le> length (kernel_ranges s)"
    and "set (take (kernel_range_count s) (kernel_ranges s)) = set (collect_kernel_ranges es [])"
proof -
  show [simp]: "base_addr s = b" "top_addr s = t"
    and "bitmap_phys s = place_bitmap es (bitmap_bytes s)"
    and "kernel_range_count s \<le> length (kernel_ranges s)"
    and "set (take (kernel_range_count s) (kernel_ranges s)) = set (collect_kernel_ranges es [])"
    by (simp_all add: s_def init_start_def Let_def)
  have tot: "total_frames s = (unat t - unat b) div 4096"
    and len: "length (bitmap s) = (total_frames s + 63) div 64"
    and bytes: "bitmap_bytes s = of_nat (length (bitmap s) * 8)"
    using assms(2) by (simp_all add: s_def init_start_def Let_def unat_div FRAME_SIZE_def unat_minus_exact)
  have "unat b \<le> unat t"
    using assms(2) by (simp add: word_le_nat_alt)
  then have "pmm_geometry s"
    using assms(1,3) by (simp add: pmm_geometry_def len tot)
  moreover show "free_set s = {}"
    by (rule free_set_zero[of _ "length (bitmap s)"]) (simp add: s_def init_start_def Let_def)
  moreover have "free_count s = 0"
    by (simp add: s_def init_start_def Let_def)
  ultimately show "pmm_pre s"
    by (simp add: pmm_pre_def)
  have "unat t - unat b \<le> 2 ^ 52"
    using assms(4) by linarith
  then have "total_frames s \<le> 2 ^ 40"
    by (simp add: tot)
  then have le: "length (bitmap s) * 8 \<le> 2 ^ 40"
    unfolding len by simp
  then show "unat (bitmap_bytes s) = length (bitmap s) * 8"
    unfolding bytes by (simp add: unat_of_nat del: of_nat_mult)
  then show "unat (bitmap_bytes s) \<le> 2 ^ 52"
    using le by simp
qed

lemma bitmap_frames:
  assumes g: "pmm_geometry s" and lo: "base_addr s \<le> bitmap_phys s"
    and al: "4096 dvd unat (bitmap_phys s)" "4096 dvd m" and m: "m \<le> unat (top_addr s)"
    and hi: "unat (bitmap_phys s) + unat (bitmap_bytes s) \<le> m"
  defines "n \<equiv> (unat (bitmap_bytes s) + 4095) div 4096"
  obtains k where "bitmap_phys s = frame_addr s k" "k + n \<le> total_frames s"
    "\<And>j. k \<le> j \<Longrightarrow> j < k + n \<Longrightarrow> frame_skipped s j"
proof -
  define k where "k = (unat (bitmap_phys s) - unat (base_addr s)) div 4096"
  have lo': "unat (base_addr s) \<le> unat (bitmap_phys s)"
    using lo by (simp add: word_le_nat_alt)
  have k: "unat (base_addr s) + 4096 * k = unat (bitmap_phys s)"
    using al(1) g lo' by (simp add: k_def pmm_geometry_def)
  have "4096 dvd m - unat (bitmap_phys s)"
    using al by simp
  then have "n * 4096 \<le> m - unat (bitmap_phys s)"
    unfolding n_def using hi by (intro aligned_ceil_le) simp_all
  then have kn: "k + n \<le> total_frames s"
    using k m hi g unfolding pmm_geometry_def by linarith
  have phys: "bitmap_phys s = frame_addr s k"
    using unat_frame_addr[OF g, of k] kn k by (simp add: word_unat_eq_iff)
  have "frame_skipped s j" if j: "k \<le> j" "j < k + n" for j
  proof -
    have u: "unat (frame_addr s j) = unat (base_addr s) + 4096 * j"
      using unat_frame_addr[OF g, of j] kn j by simp
    have "unat (bitmap_phys s + bitmap_bytes s) = unat (bitmap_phys s) + unat (bitmap_bytes s)"
      using hi m unat_bound[of "top_addr s"] by (intro unat_plus_exact) simp
    moreover have "4096 * (j - k) < unat (bitmap_bytes s)"
      using j ceil_block[of "j - k" "unat (bitmap_bytes s)"] by (simp add: n_def less_diff_conv2)
    moreover have "4096 * j = 4096 * k + 4096 * (j - k)"
      using j by simp
    ultimately show ?thesis
      using u k by (simp add: frame_skipped_def word_le_nat_alt word_less_nat_alt)
  qed
  with phys kn show thesis by (rule that)
qed

lemma init_correct:
  assumes wf: "wf_memmap es" and i: "init es = InitDone p"
  shows "pmm_inv p" and "free_set p =
    {j. (\<exists>e \<in> set es. me_type e = MEMMAP_USABLE \<and> j \<in> entry_frames p e) \<and> \<not> frame_skipped p j}"
proof -
  obtain b t where r: "usable_range es (- 1) 0 = (b, t)" "b \<noteq> - 1"
    and phys: "bitmap_phys (init_start es b t) \<noteq> 0"
    and p: "p = reserve_loop ((length (bitmap (init_start es b t)) * 8 + 4095) div 4096)
           (bitmap_phys (init_start es b t)) (init_free_regions es (init_start es b t))"
    by (rule init_decompose[OF wf i])
  define s where "s = init_start es b t"
  define q where "q = init_free_regions es s"
  note ir = init_range[OF wf r]
  note st = init_start_pre[OF ir(1-4), of es, folded s_def]
  have q: "pmm_pre q" "pmm_same s q" and fq: "free_set q =
      {j. (\<exists>e \<in> set es. me_type e = MEMMAP_USABLE \<and> j \<in> entry_frames s e) \<and> \<not> frame_skipped s j}"
    using init_free_regions_spec[OF wf st(1)] ir(5) by (auto simp: st(2-4) q_def)
  note ss = pmm_same_simps[OF q(2)]
  obtain e where e: "e \<in> set es" "me_type e = MEMMAP_USABLE" "me_base e \<le> bitmap_phys s"
    "unat (bitmap_phys s) + unat (bitmap_bytes s) \<le> entry_end e" "4096 dvd unat (bitmap_phys s)"
    using place_bitmap_spec[OF wf st(6)] phys st(7) by (auto simp: s_def)
  have "wf_entry e"
    using wf e(1) by (auto simp: wf_memmap_def list_all_iff)
  note we = wf_usable[OF this e(2)]
  have g: "pmm_geometry s"
    using st(1) by (simp add: pmm_pre_def)
  obtain k where "bitmap_phys s = frame_addr s k"
    "k + (unat (bitmap_bytes s) + 4095) div 4096 \<le> total_frames s"
    "\<And>j. k \<le> j \<Longrightarrow> j < k + (unat (bitmap_bytes s) + 4095) div 4096 \<Longrightarrow> frame_skipped s j"
    by (rule bitmap_frames[OF g _ e(5) we(6) _ e(4)])
      (use e(3) ir(5)[OF e(1,2)] st(3,4) in \<open>auto intro: order_trans\<close>)
  then have pq: "p = q"
    unfolding p s_def[symmetric] q_def[symmetric] st(5)[symmetric]
    by (intro reserve_loop_id) (auto simp: ss g fq)
  show "free_set p =
    {j. (\<exists>e \<in> set es. me_type e = MEMMAP_USABLE \<and> j \<in> entry_frames p e) \<and> \<not> frame_skipped p j}"
    by (simp add: pq fq ss)
  have "j < total_frames s \<and> \<not> is_reserved s (frame_addr s j)" if j: "j \<in> free_set q" for j
  proof -
    obtain f where f: "f \<in> set es" "me_type f = MEMMAP_USABLE" "j \<in> entry_frames s f"
      and ns: "\<not> frame_skipped s j"
      using j fq by auto
    have lt: "j < total_frames s"
      using f(3) ir(5)[OF f(1,2)] g by (auto simp: entry_frames_def pmm_geometry_def st(3,4))
    have u: "unat (frame_addr s j) = unat (base_addr s) + 4096 * j"
      using unat_frame_addr[OF g] lt by simp
    have "\<not> (fst r \<le> frame_addr s j \<and> frame_addr s j < snd r)" if "r \<in> set (collect_kernel_ranges es [])" for r
      using collect_kernel_ranges_subset[of es "[]"] that
        usable_not_in_kernel_range[OF wf f(1,2), of _ "frame_addr s j"] f(3)
      by (force simp: u entry_frames_def)
    then show ?thesis
      using ns lt is_reserved_ranges[OF st(8), of "frame_addr s j"] by (auto simp: frame_skipped_def st(9))
  qed
  then show "pmm_inv p"
    using q(1) by (simp add: pq pmm_inv_def pmm_pre_def ss)
qed

end
