(* ===== verification/PmmCorrect.thy ===== *)
theory PmmCorrect
  imports Pmm
begin

text \<open>
  The correctness theorems of the physical memory manager: what \<^verbatim>\<open>alloc_frame\<close>,
  \<^verbatim>\<open>alloc_frames_contiguous\<close>, \<^verbatim>\<open>free_frame\<close> and \<^verbatim>\<open>free_frames_contiguous\<close>
  return and keep, the round trips, the ownership discipline through the allocator contract,
  what \<^verbatim>\<open>init\<close> makes of a memory map, and the copy-on-write counts.
\<close>

subsection \<open>A concrete machine for the witnesses\<close>

text \<open>Eight frames from 1 MiB on, the bitmap in the last of them and frames 0, 2 and 3 free.\<close>

definition demo_pmm :: pmm where
  "demo_pmm = \<lparr>bitmap = [13], total_frames = 8, free_count = 3,
     base_addr = 0x100000, top_addr = 0x108000, bitmap_phys = 0x107000, bitmap_bytes = 8,
     kernel_ranges = [], kernel_range_count = 0\<rparr>"

lemma demo_bits: "wl_test [13 :: u64] i \<longleftrightarrow> i = 0 \<or> i = 2 \<or> i = 3"
proof (cases "i < 64")
  case True
  have "\<forall>i \<in> set [0..<64]. bit (13 :: u64) i \<longleftrightarrow> i = 0 \<or> i = 2 \<or> i = 3"
    by (simp add: upt_rec bit_simps)
  with True show ?thesis
    by (auto simp: wl_test_iff)
next
  case False
  then have "0 < i div 64"
    by (simp add: div_greater_zero_iff)
  with False show ?thesis
    by (simp add: wl_test_iff)
qed

lemma demo_free_set: "free_set demo_pmm = {0, 2, 3}"
  by (auto simp: free_set_def demo_pmm_def demo_bits)

lemma demo_inv: "pmm_inv demo_pmm"
proof -
  have "pmm_geometry demo_pmm"
    by (simp add: pmm_geometry_def demo_pmm_def)
  then show ?thesis
    unfolding pmm_inv_def demo_free_set
    by (simp add: demo_pmm_def is_reserved_def frame_addr_def LOW_RESERVED_def FRAME_SIZE_def)
qed

subsection \<open>Allocation\<close>

text \<open>
  C15: on a consistent manager \<^verbatim>\<open>alloc_frame\<close> returns the lowest free frame, aligned,
  at or above 1 MiB and outside every reserved range, removes exactly that frame from the
  free set and keeps the invariant; it fails, changing nothing, exactly when no frame is
  free.
\<close>

theorem alloc_frame_correct:
  assumes "pmm_inv p"
  shows "case alloc_frame (Some p) of
      (None, st) \<Rightarrow> free_set p = {} \<and> st = Some p
    | (Some a, st) \<Rightarrow> \<exists>i q. st = Some q \<and> i \<in> free_set p \<and> (\<forall>j \<in> free_set p. i \<le> j)
        \<and> a = frame_addr p i \<and> 4096 dvd unat a \<and> LOW_RESERVED \<le> a \<and> \<not> is_reserved p a
        \<and> pmm_inv q \<and> free_set q = free_set p - {i} \<and> free_count p = Suc (free_count q)"
proof (cases "free_set p = {}")
  case True
  then show ?thesis
    using alloc_frame_min by simp
next
  case False
  define i where "i = Min (free_set p)"
  have i: "i \<in> free_set p" "\<forall>j \<in> free_set p. i \<le> j"
    using False by (simp_all add: i_def)
  then have "i < total_frames p" "\<not> is_reserved p (frame_addr p i)" and g: "pmm_geometry p"
    using assms by (simp_all add: pmm_inv_def)
  then have "4096 dvd unat (frame_addr p i)" "LOW_RESERVED \<le> frame_addr p i"
    using index_frame_addr(4)[of p i] by (auto simp: is_reserved_def not_less split: if_splits)
  then show ?thesis
    using alloc_frame_min False i pmm_inv_clear[OF assms i(1)] \<open>\<not> is_reserved p _\<close>
    by (auto simp: Let_def i_def[symmetric])
qed

theorem alloc_frame_correct_witness:
  "\<exists>q. alloc_frame (Some demo_pmm) = (Some 0x100000, Some q) \<and> pmm_inv q \<and> free_set q = {2, 3}"
proof -
  obtain r st where st: "alloc_frame (Some demo_pmm) = (r, st)"
    by fastforce
  obtain i q where "r = Some (frame_addr demo_pmm i)" "st = Some q" "i \<in> {0, 2, 3}"
    "\<forall>j \<in> {0, 2, 3}. i \<le> j" "pmm_inv q" "free_set q = {0, 2, 3} - {i}"
    using alloc_frame_correct[OF demo_inv] unfolding st demo_free_set by (auto split: option.splits)
  moreover have "frame_addr demo_pmm 0 = 0x100000"
    by (simp add: frame_addr_def demo_pmm_def)
  ultimately show ?thesis
    using st by auto
qed

text \<open>
  C12: \<^verbatim>\<open>alloc_frames_contiguous\<close> returns the first run of the requested length whose
  frames are all free (none of them reserved), takes exactly that run out of the free set
  and out of the count, and keeps the invariant; it fails, changing nothing, exactly when the
  managed range has no such run.
\<close>

theorem alloc_frames_contiguous_correct:
  assumes inv: "pmm_inv p" and n: "0 < count"
  shows "case alloc_frames_contiguous count (Some p) of
      (None, st) \<Rightarrow> st = Some p \<and> (\<nexists>s. {s..<s + count} \<subseteq> free_set p)
    | (Some a, st) \<Rightarrow> \<exists>s q. st = Some q \<and> {s..<s + count} \<subseteq> free_set p
        \<and> (\<forall>s' < s. \<not> {s'..<s' + count} \<subseteq> free_set p)
        \<and> a = frame_addr p s \<and> (\<forall>j \<in> {s..<s + count}. \<not> is_reserved p (frame_addr p j))
        \<and> pmm_inv q \<and> free_set q = free_set p - {s..<s + count}
        \<and> free_count p = free_count q + count"
proof -
  have run: "free_run (bitmap p) (total_frames p) count s \<longleftrightarrow> {s..<s + count} \<subseteq> free_set p" for s
  proof
    assume "{s..<s + count} \<subseteq> free_set p"
    moreover from this have "s + count - 1 \<in> free_set p"
      using n by auto
    then have "s + count - 1 < total_frames p"
      using inv by (simp add: pmm_inv_def)
    ultimately show "free_run (bitmap p) (total_frames p) count s"
      by (auto simp: free_run_def free_set_def)
  qed (auto simp: free_run_def free_set_def)
  note sp = run_scan_spec[of count 0 0 0 0 "total_frames p" "bitmap p", unfolded run]
  show ?thesis
  proof (cases "run_scan (bitmap p) (total_frames p) count 0 0 0")
    case None
    then show ?thesis
      using sp n alloc_run_step[OF inv n] by simp
  next
    case (Some s)
    then have s: "{s..<s + count} \<subseteq> free_set p" "\<forall>s' < s. \<not> {s'..<s' + count} \<subseteq> free_set p"
      using sp n by auto
    then have "\<forall>j \<in> {s..<s + count}. \<not> is_reserved p (frame_addr p j)"
      using inv by (auto simp: pmm_inv_def)
    moreover have "set [s..<s + count] \<subseteq> free_set p"
      using s(1) by auto
    note pmm_inv_clear_run[of p "[s..<s + count]", OF inv this distinct_upt]
    ultimately show ?thesis
      using s alloc_run_step[OF inv n] Some by (auto intro!: exI[of _ s])
  qed
qed

theorem alloc_frames_contiguous_correct_witness:
  "\<exists>q. alloc_frames_contiguous 2 (Some demo_pmm) = (Some 0x102000, Some q) \<and> pmm_inv q
     \<and> free_set q = {0}"
proof -
  have "run_scan [13] 8 2 0 0 0 = Some 2"
    by (subst run_scan.simps, simp add: demo_bits)+
  then obtain st where st: "alloc_frames_contiguous 2 (Some demo_pmm) = (Some (frame_addr demo_pmm 2), st)"
    by (simp add: alloc_frames_contiguous_def demo_pmm_def frame_addr_def)
  have two: "s = 2" if "{s..<s + 2} \<subseteq> {0, 2, 3::nat}" for s
    using that[THEN subsetD, of s] that[THEN subsetD, of "Suc s"] by auto
  obtain s q where "st = Some q" "{s..<s + 2} \<subseteq> {0, 2, 3}" "pmm_inv q"
    "free_set q = {0, 2, 3} - {s..<s + 2}"
    using alloc_frames_contiguous_correct[OF demo_inv, of 2] unfolding st demo_free_set by auto
  moreover have "frame_addr demo_pmm 2 = 0x102000"
    by (simp add: frame_addr_def demo_pmm_def FRAME_SIZE_def)
  ultimately show ?thesis
    using st two[of s] by auto
qed

text \<open>
  a request for one contiguous frame is the same as \<^verbatim>\<open>alloc_frame\<close>, in the
  returned address and in the state left behind.
\<close>

theorem alloc_one_contiguous_eq_alloc_frame:
  assumes inv: "pmm_inv p"
  shows "alloc_frames_contiguous 1 (Some p) = alloc_frame (Some p)"
proof (cases "run_scan (bitmap p) (total_frames p) 1 0 0 0")
  note sp = run_scan_spec[of 1 0 0 0 0 "total_frames p" "bitmap p"]
  have lt: "j \<in> free_set p \<Longrightarrow> j < total_frames p" for j
    using inv by (simp add: pmm_inv_def)
  have run: "free_run (bitmap p) (total_frames p) 1 s \<longleftrightarrow> s \<in> free_set p" for s
    using lt[of s] by (auto simp: free_run_def free_set_def Suc_le_eq less_Suc_eq_le dest: le_antisym)
  {
    case None
    then have "free_set p = {}"
      using sp run by auto
    with None show ?thesis
      using alloc_run_step[OF inv, of 1] alloc_frame_min[of p] by simp
  next
    case (Some s)
    then have "s = Min (free_set p)" and "s \<in> free_set p"
      using sp run by (auto intro!: Min_eqI[symmetric] simp: not_less[symmetric])
    with Some show ?thesis
      using alloc_run_step[OF inv, of 1] alloc_frame_min[of p] by (auto simp: Let_def)
  }
qed

theorem alloc_one_contiguous_eq_alloc_frame_witness:
  "alloc_frames_contiguous 1 (Some demo_pmm) = alloc_frame (Some demo_pmm)"
  by (rule alloc_one_contiguous_eq_alloc_frame[OF demo_inv])

subsection \<open>Release and round trips\<close>

lemma pmm_eqI:
  assumes "pmm_same p q" "length (bitmap p) = length (bitmap q)" "free_set p = free_set q"
    "free_count p = free_count q"
  shows "p = q"
proof -
  have "bitmap p = bitmap q"
    using assms(2,3) by (intro wl_eqI) (auto simp: free_set_def)
  with assms(1,4) show ?thesis
    by (intro pmm.equality) (auto simp: pmm_same_def)
qed

lemma pmm_inv_length:
  assumes "pmm_inv p" "pmm_inv q" "total_frames p = total_frames q"
  shows "length (bitmap p) = length (bitmap q)"
  using assms by (simp add: pmm_inv_def pmm_geometry_def)

lemma free_loop_same: "pmm_same p (free_loop n i p)"
proof (induction n i p rule: free_loop.induct)
  case (2 n i p)
  let ?q = "p\<lparr>bitmap := wl_set (bitmap p) i, free_count := free_count p + 1\<rparr>"
  have "pmm_same p ?q"
    by simp
  then have "pmm_same p (free_loop n (Suc i) ?q)"
    if "\<not> total_frames p \<le> i" "\<not> is_reserved p (base_addr p + of_nat i * FRAME_SIZE)" "\<not> wl_test (bitmap p) i"
    using "2.IH"(2)[OF that] by (rule pmm_same_trans)
  with 2 show ?case by simp
qed simp

lemma free_frame_effect:
  assumes inv: "pmm_inv p" and al: "4096 dvd unat a"
  shows "\<exists>dbl q. free_frame a (Some p) = (dbl, Some q) \<and> pmm_inv q \<and> pmm_same p q \<and>
    (if base_addr p \<le> a \<and> a < top_addr p \<and> \<not> is_reserved p a
     then \<exists>i < total_frames p. a = frame_addr p i \<and> (dbl \<longleftrightarrow> i \<in> free_set p)
        \<and> free_set q = insert i (free_set p)
     else \<not> dbl \<and> q = p)"
proof (cases "base_addr p \<le> a \<and> a < top_addr p")
  case r: True
  define i where "i = unat ((a - base_addr p) div FRAME_SIZE)"
  note fs = free_frame_step[OF inv al conjunct1[OF r] conjunct2[OF r], folded i_def]
  define q where "q = p\<lparr>bitmap := wl_set (bitmap p) i, free_count := free_count p + 1\<rparr>"
  consider "is_reserved p a" | "\<not> is_reserved p a" "i \<in> free_set p" | "\<not> is_reserved p a" "i \<notin> free_set p"
    by blast
  then show ?thesis
  proof cases
    case 1
    then show ?thesis
      using inv fs(1) by auto
  next
    case 2
    then have "free_frame a (Some p) = (True, Some p)" "free_set p = insert i (free_set p)"
      using fs(1) by auto
    with 2 r inv fs(2,3) show ?thesis
      by (metis pmm_same_refl)
  next
    case 3
    then have "free_frame a (Some p) = (False, Some q)"
      using fs(1) by (simp add: q_def)
    moreover have "pmm_inv q" "free_set q = insert i (free_set p)"
      using pmm_inv_set[OF inv fs(2) 3(2)] 3(1) by (simp_all add: q_def fs(3)[symmetric])
    moreover have "pmm_same p q"
      by (simp add: q_def)
    moreover have ok: "base_addr p \<le> a \<and> a < top_addr p \<and> \<not> is_reserved p a"
      using r 3(1) by simp
    ultimately show ?thesis
      unfolding if_P[OF ok] using fs(2,3) 3(2) by blast
  qed
next
  case False
  then have "free_frame a (Some p) = (False, Some p)"
    by (auto simp: free_frame_def)
  moreover have nr: "\<not> (base_addr p \<le> a \<and> a < top_addr p \<and> \<not> is_reserved p a)"
    using False by blast
  ultimately show ?thesis
    unfolding if_not_P[OF nr] using inv pmm_same_refl by blast
qed

text \<open>
  C26: releasing a page-aligned address keeps the manager consistent.  An address inside the
  managed range and outside every reserved range makes its frame free, and the double-free
  report is raised exactly when the frame was free already; any other address changes
  nothing and reports nothing.
\<close>

theorem free_frame_correct:
  assumes "pmm_inv p" "4096 dvd unat a"
  shows "\<exists>dbl q. free_frame a (Some p) = (dbl, Some q) \<and> pmm_inv q \<and>
    (if base_addr p \<le> a \<and> a < top_addr p \<and> \<not> is_reserved p a
     then \<exists>i < total_frames p. a = frame_addr p i \<and> (dbl \<longleftrightarrow> i \<in> free_set p)
        \<and> free_set q = insert i (free_set p)
     else \<not> dbl \<and> q = p)"
  using free_frame_effect[OF assms] by blast

theorem free_frame_correct_witness:
  "\<exists>q. free_frame 0x101000 (Some demo_pmm) = (False, Some q) \<and> pmm_inv q
     \<and> free_set q = {0, 1, 2, 3}"
proof -
  have d: "4096 dvd unat (0x101000 :: u64)" "base_addr demo_pmm \<le> 0x101000"
    "0x101000 < top_addr demo_pmm" "\<not> is_reserved demo_pmm 0x101000"
    by (simp_all add: demo_pmm_def is_reserved_def LOW_RESERVED_def)
  have one: "i = 1" if "0x101000 = frame_addr demo_pmm i" "i < total_frames demo_pmm" for i
    using that(2) demo_inv index_frame_addr(1)[of demo_pmm i] unfolding that(1)[symmetric]
    by (simp add: pmm_inv_def demo_pmm_def FRAME_SIZE_def)
  obtain dbl q i where r: "free_frame 0x101000 (Some demo_pmm) = (dbl, Some q)" "pmm_inv q"
    "dbl \<longleftrightarrow> i \<in> {0, 2, 3}" "free_set q = insert i {0, 2, 3}"
    and "i < total_frames demo_pmm" "0x101000 = frame_addr demo_pmm i"
    using free_frame_correct[OF demo_inv d(1)] d(2-) unfolding demo_free_set by auto
  then have "i = 1"
    using one by blast
  moreover have "insert 1 {0, 2, 3} = {0, 1, 2, 3 :: nat}"
    by (rule insert_commute)
  ultimately show ?thesis
    using r by simp
qed

text \<open>
  freeing the frame just allocated restores the manager exactly, bit for bit, and raises
  no double-free report.
\<close>

theorem free_frame_undoes_alloc_frame:
  assumes inv: "pmm_inv p" and a: "alloc_frame (Some p) = (Some a, Some q)"
  shows "free_frame a (Some q) = (False, Some p)"
proof -
  define i where "i = Min (free_set p)"
  have ne: "free_set p \<noteq> {}" and aq: "a = frame_addr p i"
    "q = p\<lparr>bitmap := wl_clear (bitmap p) i, free_count := free_count p - 1\<rparr>"
    using a alloc_frame_min[of p] by (auto simp: Let_def i_def split: if_splits)
  then have i: "i \<in> free_set p"
    by (simp add: i_def)
  then have lt: "i < total_frames p" and nr: "\<not> is_reserved p a" and g: "pmm_geometry p"
    using inv aq(1) by (simp_all add: pmm_inv_def)
  note q = pmm_inv_clear[OF inv i, folded aq(2)]
  have sq: "pmm_same p q"
    by (simp add: aq(2))
  note ss = pmm_same_simps[OF sq]
  have "4096 dvd unat a" "base_addr q \<le> a" "a < top_addr q" and ix: "unat ((a - base_addr q) div FRAME_SIZE) = i"
    using index_frame_addr[OF g lt] by (simp_all add: aq(1) ss)
  note fs = free_frame_step(1)[OF q(1) this(1-3), unfolded ix]
  define r where "r = q\<lparr>bitmap := wl_set (bitmap q) i, free_count := free_count q + 1\<rparr>"
  have "pmm_inv r" "free_set r = insert i (free_set q)"
    using pmm_inv_set[OF q(1), of i] lt nr by (simp_all add: r_def ss q(2) aq(1)[symmetric])
  moreover have "pmm_same p r"
    by (rule pmm_same_trans[OF sq]) (simp add: r_def)
  moreover have "free_count r = Suc (free_count q)"
    by (simp add: r_def)
  ultimately have "p = r"
    using i q inv by (intro pmm_eqI pmm_inv_length) (auto simp: pmm_same_simps)
  moreover have "free_frame a (Some q) = (False, Some r)"
    using fs nr by (simp add: ss q(2) r_def)
  ultimately show ?thesis by simp
qed

theorem free_frame_undoes_alloc_frame_witness:
  "\<exists>q. alloc_frame (Some demo_pmm) = (Some 0x100000, Some q)
     \<and> free_frame 0x100000 (Some q) = (False, Some demo_pmm)"
proof -
  have "Min {0, 2, 3 :: nat} = 0"
    by simp
  then obtain q where q: "alloc_frame (Some demo_pmm) = (Some (frame_addr demo_pmm 0), Some q)"
    using alloc_frame_min[of demo_pmm] unfolding demo_free_set by (simp add: Let_def)
  moreover have "frame_addr demo_pmm 0 = 0x100000"
    by (simp add: frame_addr_def demo_pmm_def)
  ultimately show ?thesis
    using free_frame_undoes_alloc_frame[OF demo_inv q] by simp
qed

lemma alloc_run_result:
  assumes inv: "pmm_inv p" and a: "alloc_frames_contiguous n (Some p) = (Some a, Some q)"
  obtains s where "0 < n" "a = frame_addr p s"
    "q = p\<lparr>bitmap := fold (\<lambda>i bm. wl_clear bm i) [s..<s + n] (bitmap p),
          free_count := free_count p - length [s..<s + n]\<rparr>"
    "free_run (bitmap p) (total_frames p) n s"
proof -
  have n: "0 < n"
    using a by (cases n) (auto simp: alloc_frames_contiguous_def)
  with a alloc_run_step[OF inv n] run_scan_spec[of n 0 0 0 0 "total_frames p" "bitmap p"]
  show ?thesis
    by (auto split: option.splits intro: that)
qed

text \<open>
  C39: releasing the run just allocated restores the manager exactly, bit for bit.
\<close>

theorem free_frames_contiguous_undoes_alloc:
  assumes inv: "pmm_inv p" and a: "alloc_frames_contiguous count (Some p) = (Some a, Some q)"
  shows "free_frames_contiguous a count (Some q) = Some p"
proof -
  obtain s where n: "0 < count" and s: "a = frame_addr p s"
    "q = p\<lparr>bitmap := fold (\<lambda>i bm. wl_clear bm i) [s..<s + count] (bitmap p),
          free_count := free_count p - length [s..<s + count]\<rparr>"
    "free_run (bitmap p) (total_frames p) count s"
    by (rule alloc_run_result[OF inv a])
  have sub: "{s..<s + count} \<subseteq> free_set p" and lt: "s < total_frames p"
    using s(3) n by (auto simp: free_run_def free_set_def)
  then have "set [s..<s + count] \<subseteq> free_set p"
    by auto
  note q = pmm_inv_clear_run[of p "[s..<s + count]", OF inv this distinct_upt, folded s(2)]
  have sq: "pmm_same p q"
    using wl.nbits_fold_unmark[of "[s..<s + count]" "bitmap p"] by (simp add: s(2) wl_bits_def)
  note ss = pmm_same_simps[OF sq]
  have g: "pmm_geometry p"
    using inv by (simp add: pmm_inv_def)
  define r where "r = free_loop count s q"
  have r: "pmm_inv r" "pmm_same p r"
    using free_loop_spec[OF q(1)] pmm_same_trans[OF sq free_loop_same] by (auto simp: r_def)
  have "free_set r = free_set p"
    using free_loop_spec[OF q(1), of count s] sub inv by (auto simp: r_def q(2) ss pmm_inv_def)
  moreover from this have "free_count r = free_count p"
    using r(1) inv by (simp add: pmm_inv_def)
  ultimately have "p = r"
    using r inv by (intro pmm_eqI pmm_inv_length) (auto simp: pmm_same_simps)
  moreover have "free_frames_contiguous a count (Some q) = Some r"
    using index_frame_addr[OF g lt] n
    by (simp add: free_frames_contiguous_def s(1) ss r_def not_less not_le)
  ultimately show ?thesis by simp
qed

theorem free_frames_contiguous_undoes_alloc_witness:
  "\<exists>q. alloc_frames_contiguous 2 (Some demo_pmm) = (Some (frame_addr demo_pmm 2), Some q)
     \<and> free_frames_contiguous (frame_addr demo_pmm 2) 2 (Some q) = Some demo_pmm"
proof -
  have "run_scan [13] 8 2 0 0 0 = Some 2"
    by (subst run_scan.simps, simp add: demo_bits)+
  then obtain q where q: "alloc_frames_contiguous 2 (Some demo_pmm) = (Some (frame_addr demo_pmm 2), Some q)"
    by (simp add: alloc_frames_contiguous_def demo_pmm_def frame_addr_def)
  then show ?thesis
    using free_frames_contiguous_undoes_alloc[OF demo_inv q] by blast
qed

subsection \<open>Ownership\<close>

text \<open>
  The two ways a client takes frames and the two ways it gives them back, with the frames
  each call moves; \<open>unreserved\<close> are the frames a release can put back.
\<close>

definition pmm_take :: "pmm \<Rightarrow> nat set \<Rightarrow> pmm \<Rightarrow> bool" where
  "pmm_take p A q \<longleftrightarrow>
     (\<exists>i. A = {i} \<and> i < total_frames p \<and> alloc_frame (Some p) = (Some (frame_addr p i), Some q))
   \<or> (\<exists>i n. A = {i..<i + n} \<and> i < total_frames p
        \<and> alloc_frames_contiguous n (Some p) = (Some (frame_addr p i), Some q))"

definition pmm_give :: "pmm \<Rightarrow> nat set \<Rightarrow> pmm \<Rightarrow> bool" where
  "pmm_give p A q \<longleftrightarrow>
     (\<exists>i dbl. A = {i} \<and> free_frame (frame_addr p i) (Some p) = (dbl, Some q))
   \<or> (\<exists>i n. A = {i..<i + n} \<and> free_frames_contiguous (frame_addr p i) n (Some p) = Some q)"

definition unreserved :: "pmm \<Rightarrow> nat set" where
  "unreserved p = {i. i < total_frames p \<and> \<not> is_reserved p (frame_addr p i)}"

lemma frame_addr_inj:
  assumes "pmm_geometry p" "i < total_frames p" "j < total_frames p" "frame_addr p i = frame_addr p j"
  shows "i = j"
  using index_frame_addr(1)[OF assms(1,2)] index_frame_addr(1)[OF assms(1,3)]
  unfolding assms(4) by (rule trans[OF sym])

lemma pmm_take_law:
  assumes inv: "pmm_inv p" and t: "pmm_take p A q"
  shows "pmm_inv q \<and> A \<subseteq> free_set p \<and> free_set q = free_set p - A \<and> unreserved q = unreserved p"
proof -
  have g: "pmm_geometry p" and lt: "\<And>j. j \<in> free_set p \<Longrightarrow> j < total_frames p"
    using inv by (simp_all add: pmm_inv_def)
  from t consider (one) i where "A = {i}" "i < total_frames p" "alloc_frame (Some p) = (Some (frame_addr p i), Some q)"
    | (run) i n where "A = {i..<i + n}" "i < total_frames p"
        "alloc_frames_contiguous n (Some p) = (Some (frame_addr p i), Some q)"
    unfolding pmm_take_def by blast
  then show ?thesis
  proof cases
    case one
    let ?j = "Min (free_set p)"
    have j: "?j \<in> free_set p" and "frame_addr p i = frame_addr p ?j"
      and q: "q = p\<lparr>bitmap := wl_clear (bitmap p) ?j, free_count := free_count p - 1\<rparr>"
      using one(3) alloc_frame_min[of p] by (auto simp: Let_def split: if_splits)
    then have "i = ?j"
      using frame_addr_inj[OF g one(2) lt[OF j]] by blast
    moreover have "unreserved q = unreserved p"
      by (simp add: unreserved_def q)
    ultimately show ?thesis
      using pmm_inv_clear(1,2)[OF inv j, folded q] j one(1) by simp
  next
    case run
    obtain s where n: "0 < n" and s: "frame_addr p i = frame_addr p s"
      and q: "q = p\<lparr>bitmap := fold (\<lambda>i bm. wl_clear bm i) [s..<s + n] (bitmap p),
          free_count := free_count p - length [s..<s + n]\<rparr>"
      and fr: "free_run (bitmap p) (total_frames p) n s"
      by (rule alloc_run_result[OF inv run(3)])
    have sub: "set [s..<s + n] \<subseteq> free_set p" and "s < total_frames p"
      using fr n by (auto simp: free_run_def free_set_def)
    then have "i = s"
      using frame_addr_inj[OF g run(2) _ s] by blast
    moreover have "unreserved q = unreserved p"
      by (simp add: unreserved_def q)
    ultimately show ?thesis
      using pmm_inv_clear_run(1,2)[OF inv sub distinct_upt, folded q] sub run(1) by simp
  qed
qed

lemma pmm_give_law:
  assumes inv: "pmm_inv p" and A: "A \<subseteq> unreserved p" "A \<inter> free_set p = {}" and gv: "pmm_give p A q"
  shows "pmm_inv q \<and> free_set q = free_set p \<union> A \<and> unreserved q = unreserved p"
proof -
  have g: "pmm_geometry p"
    using inv by (simp add: pmm_inv_def)
  have un: "pmm_same p q \<Longrightarrow> unreserved q = unreserved p"
    by (simp add: unreserved_def pmm_same_simps)
  from gv consider (one) i dbl where "A = {i}" "free_frame (frame_addr p i) (Some p) = (dbl, Some q)"
    | (run) i n where "A = {i..<i + n}" "free_frames_contiguous (frame_addr p i) n (Some p) = Some q"
    unfolding pmm_give_def by blast
  then show ?thesis
  proof cases
    case one
    then have lt: "i < total_frames p" and "\<not> is_reserved p (frame_addr p i)"
      using A(1) by (auto simp: unreserved_def)
    then show ?thesis
      using free_frame_effect[OF inv index_frame_addr(4)[OF g lt]] index_frame_addr(2,3)[OF g lt]
        frame_addr_inj[OF g lt] one un by auto
  next
    case run
    show ?thesis
    proof (cases "n = 0")
      case True
      then show ?thesis
        using run inv by (simp add: free_frames_contiguous_def)
    next
      case False
      then have "i \<in> unreserved p"
        using A(1) run(1) by auto
      then have lt: "i < total_frames p"
        by (simp add: unreserved_def)
      have q: "q = free_loop n i p"
        using run(2) False index_frame_addr[OF g lt]
        by (simp add: free_frames_contiguous_def not_less[symmetric])
      then show ?thesis
        using free_loop_spec[OF inv, of n i] un[OF free_loop_same[of p n i, folded q]] A(1) run(1)
        by (auto simp: unreserved_def)
    qed
  qed
qed

interpretation frames: allocator pmm_inv free_set unreserved pmm_take pmm_give
proof
  show "pmm_inv p \<Longrightarrow> free_set p \<subseteq> unreserved p" for p
    by (auto simp: pmm_inv_def unreserved_def)
qed (rule pmm_take_law pmm_give_law; assumption)+

text \<open>
  C5: over any sequence of single and contiguous allocations and of releases of frames the
  clients hold, starting with nothing held: the manager stays consistent, the held and the
  free frames are disjoint and together are the frames that were free at the start, the free
  count is what was free less what is held, the next allocation never returns a frame that
  is still held, and releasing a held frame never looks like a double free.
\<close>

theorem frames_never_shared:
  assumes inv: "pmm_inv p0" and run: "live pmm_take pmm_give p0 p L"
  shows "pmm_inv p \<and> L \<inter> free_set p = {} \<and> L \<union> free_set p = free_set p0
    \<and> free_count p + card L = free_count p0
    \<and> (\<forall>A q. pmm_take p A q \<longrightarrow> A \<inter> L = {})
    \<and> (\<forall>i \<in> L. \<not> fst (free_frame (frame_addr p i) (Some p)))"
proof (intro conjI)
  note li = frames.live_inv[OF run inv]
  show p: "pmm_inv p" and disj: "L \<inter> free_set p = {}" and un: "L \<union> free_set p = free_set p0"
    using li by simp_all
  have "finite L"
    using un by (metis finite_Un finite_free_set)
  then have "card (free_set p0) = card L + card (free_set p)"
    unfolding un[symmetric] using disj by (intro card_Un_disjoint) simp_all
  then show "free_count p + card L = free_count p0"
    using p inv by (simp add: pmm_inv_def)
  show "\<forall>A q. pmm_take p A q \<longrightarrow> A \<inter> L = {}"
    using frames.live_take_fresh[OF run inv] by blast
  have g: "pmm_geometry p"
    using p by (simp add: pmm_inv_def)
  show "\<forall>i \<in> L. \<not> fst (free_frame (frame_addr p i) (Some p))"
  proof
    fix i assume i: "i \<in> L"
    have "i \<in> unreserved p"
      using i un li frames.avail_managed[OF inv] by auto
    then have lt: "i < total_frames p"
      by (simp add: unreserved_def)
    show "\<not> fst (free_frame (frame_addr p i) (Some p))"
      using free_frame_step(1)[OF p index_frame_addr(4,2,3)[OF g lt]] i disj index_frame_addr(1)[OF g lt]
      by auto
  qed
qed

theorem frames_never_shared_witness:
  "\<exists>p. live pmm_take pmm_give demo_pmm p {0} \<and> free_set p = {2, 3} \<and> free_count p = 2"
proof -
  have "Min {0, 2, 3 :: nat} = 0"
    by simp
  then obtain q where q: "alloc_frame (Some demo_pmm) = (Some (frame_addr demo_pmm 0), Some q)"
    using alloc_frame_min[of demo_pmm] unfolding demo_free_set by (simp add: Let_def)
  have "pmm_take demo_pmm {0} q"
    unfolding pmm_take_def by (intro disjI1 exI[of _ 0] conjI q) (simp_all add: demo_pmm_def)
  then have l: "live pmm_take pmm_give demo_pmm q {0}"
    using live_take[OF live_start, of pmm_take demo_pmm "{0}" q] by simp
  note n = frames_never_shared[OF demo_inv l, unfolded demo_free_set]
  have d: "{0} \<inter> free_set q = {}" and u: "{0} \<union> free_set q = {0, 2, 3}"
    and c: "free_count q + card {0 :: nat} = free_count demo_pmm"
    by (rule n[THEN conjunct2, THEN conjunct1] n[THEN conjunct2, THEN conjunct2, THEN conjunct1]
        n[THEN conjunct2, THEN conjunct2, THEN conjunct2, THEN conjunct1])+
  have "free_set q = ({0} \<union> free_set q) - {0}"
    using d by auto
  also have "\<dots> = {2, 3}"
    unfolding u by auto
  finally show ?thesis
    using l c by (auto simp: demo_pmm_def intro!: exI[of _ q])
qed

subsection \<open>Initialisation\<close>

text \<open>
  C10: for a memory map as the boot protocol promises it, when \<^verbatim>\<open>init\<close> succeeds the
  manager it publishes is consistent, and the free frames are exactly those of the usable
  regions that are neither below 1 MiB nor part of the bitmap.
\<close>

theorem init_frees_exactly_usable:
  assumes "wf_memmap es" "init es = InitDone p"
  shows "pmm_inv p \<and> free_set p =
    {j. (\<exists>e \<in> set es. me_type e = MEMMAP_USABLE \<and> j \<in> entry_frames p e) \<and> \<not> frame_skipped p j}"
  using init_correct[OF assms] by blast

text \<open>A map with one usable region of eight frames at 1 MiB and a kernel image behind it.\<close>

definition demo_map :: "memmap_entry list" where
  "demo_map = [\<lparr>me_base = 0x100000, me_length = 0x8000, me_type = MEMMAP_USABLE\<rparr>,
     \<lparr>me_base = 0x108000, me_length = 0x1234, me_type = MEMMAP_EXECUTABLE_AND_MODULES\<rparr>]"

lemma demo_map_wf: "wf_memmap demo_map"
  by (simp add: wf_memmap_def demo_map_def wf_entry_def apart_def entry_end_def MEMMAP_USABLE_def
      MEMMAP_EXECUTABLE_AND_MODULES_def)

theorem init_frees_exactly_usable_witness:
  "\<exists>p. init demo_map = InitDone p \<and> pmm_inv p \<and> (\<exists>e \<in> set demo_map. me_type e = MEMMAP_USABLE)"
proof -
  have "\<exists>p. init demo_map = InitDone p"
    by (simp add: init_def demo_map_def MEMMAP_USABLE_def MEMMAP_EXECUTABLE_AND_MODULES_def
        FRAME_SIZE_def Let_def unat_div del: init_free_regions.simps reserve_loop.simps)
  then obtain p where p: "init demo_map = InitDone p" ..
  show ?thesis
    using init_frees_exactly_usable[OF demo_map_wf p] p by (auto simp: demo_map_def)
qed

subsection \<open>Releasing an unaligned address\<close>

text \<open>
  C38: \<^verbatim>\<open>free_frame\<close> tests the raw address against the reserved ranges and then rounds it down to a
  frame.  On every consistent manager, an address that is not reserved itself but lies in a frame
  whose start is reserved, such as an address behind the last byte of the bitmap in the bitmap's
  last frame, makes that frame free.  The manager is then inconsistent, and if no lower frame is
  free the next allocation hands the reserved frame out.
\<close>
theorem free_frame_unaligned_releases_reserved:
  assumes inv: "pmm_inv p" and i: "i < total_frames p" "is_reserved p (frame_addr p i)"
    and a: "frame_addr p i \<le> a" "unat a < unat (frame_addr p i) + 4096" "\<not> is_reserved p a"
  shows "\<exists>q. free_frame a (Some p) = (False, Some q) \<and> free_set q = insert i (free_set p) \<and> \<not> pmm_inv q \<and>
    ((\<forall>j \<in> free_set p. i \<le> j) \<longrightarrow> fst (alloc_frame (Some q)) = Some (frame_addr p i))"
proof -
  define q where "q = p\<lparr>bitmap := wl_set (bitmap p) i, free_count := free_count p + 1\<rparr>"
  have g: "pmm_geometry p" and used: "\<not> wl_test (bitmap p) i"
    using inv i(2) by (auto simp: pmm_inv_def free_set_def)
  note u = unat_frame_addr[OF g less_imp_le[OF i(1)]]
  have lt: "i < wl_bits (bitmap p)"
    by (rule frame_in_bitmap[OF g i(1)])
  have base: "base_addr p \<le> a"
    using index_frame_addr(2)[OF g i(1)] a(1) by (rule order_trans)
  have "unat a < unat (base_addr p) + 4096 * Suc i" "4096 * Suc i \<le> 4096 * total_frames p"
    using a(2) u i(1) by (simp, intro mult_le_mono2 Suc_leI)
  then have top: "a < top_addr p"
    using g unfolding pmm_geometry_def word_less_nat_alt by linarith
  have "unat a - unat (base_addr p) = 4096 * i + (unat a - unat (frame_addr p i))" "unat a - unat (frame_addr p i) < 4096"
    using a(1,2) u by (simp_all add: word_le_nat_alt)
  then have idx: "unat ((a - base_addr p) div FRAME_SIZE) = i"
    using base by (simp add: unat_div FRAME_SIZE_def unat_minus_exact)
  have "i div 64 < length (bitmap p)"
    using lt by (simp add: wl_bits_def less_mult_imp_div_less)
  then have "free_frame a (Some p) = (False, Some q)"
    using base top a(3) used by (auto simp: free_frame_def q_def idx Let_def)
  moreover have fs: "free_set q = insert i (free_set p)"
    using wl.marked_mark[OF lt] by (simp add: q_def free_set_upd free_set_def)
  moreover have "\<not> pmm_inv q"
    using i(2) by (auto simp: pmm_inv_def fs) (auto simp: q_def)
  moreover have "fst (alloc_frame (Some q)) = Some (frame_addr p i)" if low: "\<forall>j \<in> free_set p. i \<le> j"
  proof -
    have "Min (free_set q) = i"
      unfolding fs using low by (intro Min_eqI) auto
    then show ?thesis
      by (simp add: alloc_frame_min fs Let_def) (simp add: q_def)
  qed
  ultimately show ?thesis by blast
qed

theorem free_frame_unaligned_releases_reserved_witness:
  "let p = demo_pmm\<lparr>bitmap := [0], free_count := 0\<rparr>
   in pmm_inv p \<and> is_reserved p (bitmap_phys p) \<and>
      fst (alloc_frame (snd (free_frame (bitmap_phys p + bitmap_bytes p) (Some p)))) = Some (bitmap_phys p)"
proof -
  define p where "p = demo_pmm\<lparr>bitmap := [0], free_count := 0\<rparr>"
  have fs: "free_set p = {}"
    by (auto simp: p_def free_set_def wl_test_iff nth_Cons')
  then have inv: "pmm_inv p"
    using demo_inv by (simp add: pmm_inv_def p_def pmm_geometry_def demo_pmm_def)
  have fa: "frame_addr p 7 = bitmap_phys p"
    by (simp add: frame_addr_def p_def demo_pmm_def FRAME_SIZE_def)
  have res: "is_reserved p (bitmap_phys p)"
    by (simp add: p_def demo_pmm_def is_reserved_def)
  have "7 < total_frames p" "frame_addr p 7 \<le> bitmap_phys p + bitmap_bytes p"
    "unat (bitmap_phys p + bitmap_bytes p) < unat (frame_addr p 7) + 4096"
    "\<not> is_reserved p (bitmap_phys p + bitmap_bytes p)"
    unfolding fa by (simp_all add: p_def demo_pmm_def is_reserved_def LOW_RESERVED_def)
  then show ?thesis
    using free_frame_unaligned_releases_reserved[OF inv, of 7 "bitmap_phys p + bitmap_bytes p"] inv res
    by (auto simp: fa fs p_def[symmetric])
qed

subsection \<open>Copy-on-write sharers\<close>

text \<open>
  The abstract state is the number of registered sharers of each frame.  The map never holds
  a zero count.
\<close>

definition sharers :: "cow_refs \<Rightarrow> u64 \<Rightarrow> nat" where
  "sharers m k = (case m k of Some n \<Rightarrow> unat n | None \<Rightarrow> 0)"

definition cow_inv :: "cow_refs \<Rightarrow> bool" where
  "cow_inv m \<longleftrightarrow> (\<forall>k. m k \<noteq> Some 0)"

definition frame_key :: "u64 \<Rightarrow> u64" where
  "frame_key frame = frame AND NOT (FRAME_SIZE - 1)"

lemma cow_ref_step:
  assumes "cow_inv m" "sharers m (frame_key f) < 2 ^ 32 - 1"
  shows "cow_inv (cow_ref f m)"
    and "sharers (cow_ref f m) = (sharers m)(frame_key f := Suc (sharers m (frame_key f)))"
proof -
  have s: "unat (n + 1) = Suc (unat n)" if "m (frame_key f) = Some n" for n
    using assms(2) that by (simp add: sharers_def unat_plus_exact)
  then have "n + 1 \<noteq> 0" if "m (frame_key f) = Some n" for n
    using that by (metis nat.distinct(1) unat_0)
  then show "cow_inv (cow_ref f m)"
    using assms(1) by (auto simp: cow_inv_def cow_ref_def frame_key_def[symmetric] Let_def split: option.splits)
  show "sharers (cow_ref f m) = (sharers m)(frame_key f := Suc (sharers m (frame_key f)))"
    using s by (auto simp: sharers_def cow_ref_def frame_key_def[symmetric] Let_def fun_eq_iff split: option.splits)
qed

lemma cow_unref_step:
  assumes "cow_inv m"
  shows "cow_inv (snd (cow_unref f m))"
    and "sharers (snd (cow_unref f m)) = (sharers m)(frame_key f := sharers m (frame_key f) - 1)"
    and "fst (cow_unref f m) \<longleftrightarrow> sharers m (frame_key f) \<le> 1"
proof -
  have s: "unat (n - 1) = unat n - 1" "n \<noteq> 1 \<Longrightarrow> n - 1 \<noteq> 0" "n \<noteq> 1 \<Longrightarrow> \<not> unat n \<le> 1"
    if "m (frame_key f) = Some n" for n
  proof -
    have "n \<noteq> 0"
      using assms that by (auto simp: cow_inv_def)
    then have pos: "1 \<le> unat n"
      by (metis One_nat_def Suc_leI gr0I unat_eq_zero)
    then show "unat (n - 1) = unat n - 1"
      by (simp add: unat_minus_exact word_le_nat_alt)
    show "n \<noteq> 1 \<Longrightarrow> n - 1 \<noteq> 0"
      by simp
    assume "n \<noteq> 1"
    then have "unat n \<noteq> 1"
      by (metis unat_1 word_unat_eq_iff)
    with pos show "\<not> unat n \<le> 1" by simp
  qed
  show "cow_inv (snd (cow_unref f m))"
    using assms s by (auto simp: cow_inv_def cow_unref_def frame_key_def[symmetric] Let_def split: option.splits)
  show "sharers (snd (cow_unref f m)) = (sharers m)(frame_key f := sharers m (frame_key f) - 1)"
    using s by (auto simp: sharers_def cow_unref_def frame_key_def[symmetric] Let_def fun_eq_iff split: option.splits)
  show "fst (cow_unref f m) \<longleftrightarrow> sharers m (frame_key f) \<le> 1"
    using s by (auto simp: sharers_def cow_unref_def frame_key_def[symmetric] Let_def split: option.splits)
qed

text \<open>A history of the two calls: \<open>True\<close> registers a sharer of a frame, \<open>False\<close> drops one.\<close>

fun cow_run :: "(bool \<times> u64) list \<Rightarrow> cow_refs \<Rightarrow> bool list \<times> cow_refs" where
  "cow_run [] m = ([], m)"
| "cow_run ((r, f) # ops) m =
     (if r then cow_run ops (cow_ref f m)
      else let (b, m') = cow_unref f m; (bs, m'') = cow_run ops m' in (b # bs, m''))"

fun cow_spec :: "(bool \<times> u64) list \<Rightarrow> (u64 \<Rightarrow> nat) \<Rightarrow> bool list \<times> (u64 \<Rightarrow> nat)" where
  "cow_spec [] c = ([], c)"
| "cow_spec ((r, f) # ops) c =
     (if r then cow_spec ops (c(frame_key f := Suc (c (frame_key f))))
      else let (bs, c') = cow_spec ops (c(frame_key f := c (frame_key f) - 1))
           in ((c (frame_key f) \<le> 1) # bs, c'))"

text \<open>
  C24: over any interleaving of \<^verbatim>\<open>cow_ref\<close> and \<^verbatim>\<open>cow_unref\<close> calls on any frames, short
  enough that no 32-bit count overflows, the map implements a counter per frame: the calls
  answer ``free it now'' exactly when at most one sharer is left, and the counts in the map
  are the abstract counts.
\<close>

theorem cow_counts_refine:
  assumes "cow_inv m" "\<And>k. sharers m k + length ops < 2 ^ 32"
  shows "cow_inv (snd (cow_run ops m))
    \<and> (fst (cow_run ops m), sharers (snd (cow_run ops m))) = cow_spec ops (sharers m)"
  using assms
proof (induction ops arbitrary: m)
  case (Cons op ops)
  obtain r f where op: "op = (r, f)" by (cases op)
  show ?case
  proof (cases r)
    case True
    have "sharers m (frame_key f) < 2 ^ 32 - 1"
      using Cons.prems(2)[of "frame_key f"] by simp
    note st = cow_ref_step[OF Cons.prems(1) this]
    have "sharers (cow_ref f m) k + length ops < 2 ^ 32" for k
      using Cons.prems(2)[of k] by (auto simp: st(2))
    from Cons.IH[OF st(1) this] show ?thesis
      using True op by (simp add: st(2) del: fun_upd_apply)
  next
    case False
    note st = cow_unref_step[OF Cons.prems(1), of f]
    have "sharers (snd (cow_unref f m)) k + length ops < 2 ^ 32" for k
      using Cons.prems(2)[of k] by (auto simp: st(2))
    from Cons.IH[OF st(1) this] show ?thesis
      unfolding op using False by (auto simp: st(2,3) split_beta Let_def prod_eq_iff simp del: fun_upd_apply)
  qed
qed simp

theorem cow_counts_refine_witness:
  "fst (cow_run [(True, 0x5000), (True, 0x5000), (False, 0x5008), (False, 0x5000)] Map.empty) = [False, True]"
proof -
  have "cow_inv Map.empty" and s: "sharers Map.empty = (\<lambda>k. 0)"
    by (simp_all add: cow_inv_def sharers_def fun_eq_iff)
  then show ?thesis
    using cow_counts_refine[of Map.empty "[(True, 0x5000), (True, 0x5000), (False, 0x5008), (False, 0x5000)]"]
    by (simp add: s frame_key_def FRAME_SIZE_def)
qed

end
