(* ===== verification/FdAlloc.thy ===== *)
theory FdAlloc
  imports PaghPrelude
begin

text \<open>
  The descriptor slots of \<^verbatim>\<open>src/src/task/fd_alloc.rs\<close>: a vector of optional objects with
  lowest-free allocation.  The contract \<open>fd_store\<close> is what the descriptor table of
  \<^verbatim>\<open>src/src/task/fd.rs\<close> relies on; the slot vector implements it.  Descriptors are
  \<^verbatim>\<open>u32\<close> and indices \<^verbatim>\<open>usize\<close>; \<open>alloc\<close> truncates an index to 32 bits as the code does.
\<close>

datatype bad_fd = BadFd

record 'a fd_slots =
  slots :: "'a option list"

function lowest_free_index :: "'a option list \<Rightarrow> nat \<Rightarrow> nat" where
  "lowest_free_index ss i =
     (if i < length ss
      then case ss ! i of Some x \<Rightarrow> lowest_free_index ss (i + 1) | None \<Rightarrow> i
      else i)"
  by pat_completeness auto
termination
  by (relation "measure (\<lambda>(ss, i). length ss - i)") auto

declare lowest_free_index.simps [simp del]

definition fd_new :: "'a fd_slots" where
  "fd_new = \<lparr>slots = []\<rparr>"

definition from_slots :: "'a option list \<Rightarrow> 'a fd_slots" where
  "from_slots ss = \<lparr>slots = ss\<rparr>"

text \<open>The loop that pushes empty slots while the vector is shorter than \<open>n\<close>.\<close>

definition push_none_until :: "nat \<Rightarrow> 'a option list \<Rightarrow> 'a option list" where
  "push_none_until n ss = ss @ replicate (n - length ss) None"

definition fd_alloc :: "nat \<Rightarrow> 'a \<Rightarrow> 'a fd_slots \<Rightarrow> u32 \<times> 'a fd_slots" where
  "fd_alloc mn obj t =
     (let idx = lowest_free_index (slots t) mn
      in (of_nat idx,
          if idx < length (slots t) then t\<lparr>slots := (slots t)[idx := Some obj]\<rparr>
          else t\<lparr>slots := push_none_until idx (slots t) @ [Some obj]\<rparr>))"

definition fd_set :: "u32 \<Rightarrow> 'a \<Rightarrow> 'a fd_slots \<Rightarrow> 'a option \<times> 'a fd_slots" where
  "fd_set fd obj t =
     (let idx = unat fd;
          ss = push_none_until (idx + 1) (slots t)
      in (ss ! idx, t\<lparr>slots := ss[idx := Some obj]\<rparr>))"

definition fd_get :: "u32 \<Rightarrow> 'a fd_slots \<Rightarrow> 'a option" where
  "fd_get fd t = (if unat fd < length (slots t) then slots t ! unat fd else None)"

definition fd_close :: "u32 \<Rightarrow> 'a fd_slots \<Rightarrow> (bad_fd + unit) \<times> 'a fd_slots" where
  "fd_close fd t =
     (if unat fd < length (slots t) \<and> slots t ! unat fd \<noteq> None
      then (Inr (), t\<lparr>slots := (slots t)[unat fd := None]\<rparr>)
      else (Inl BadFd, t))"

definition fd_len :: "'a fd_slots \<Rightarrow> nat" where
  "fd_len t = length (slots t)"

definition fd_is_empty :: "'a fd_slots \<Rightarrow> bool" where
  "fd_is_empty t \<longleftrightarrow> slots t = []"

subsection \<open>The contract\<close>

text \<open>
  A store of objects under small integers: \<open>room n t\<close> says that the store can still hand out
  \<open>n\<close> descriptors below \<open>2 ^ 32\<close>.
\<close>

locale fd_store =
  fixes lookup :: "u32 \<Rightarrow> 't \<Rightarrow> 'a option"
    and put_new :: "nat \<Rightarrow> 'a \<Rightarrow> 't \<Rightarrow> u32 \<times> 't"
    and put_at :: "u32 \<Rightarrow> 'a \<Rightarrow> 't \<Rightarrow> 'a option \<times> 't"
    and drop_at :: "u32 \<Rightarrow> 't \<Rightarrow> (bad_fd + unit) \<times> 't"
    and ceiling :: "'t \<Rightarrow> nat"
  assumes ceiling: "lookup fd t \<noteq> None \<Longrightarrow> unat fd < ceiling t"
    and put_new: "mn < 2 ^ 32 \<Longrightarrow> ceiling t < 2 ^ 32 \<Longrightarrow> put_new mn x t = (fd, t') \<Longrightarrow>
        mn \<le> unat fd \<and> lookup fd t = None
      \<and> (\<forall>j. mn \<le> unat j \<and> j < fd \<longrightarrow> lookup j t \<noteq> None)
      \<and> (\<forall>j. lookup j t' = (if j = fd then Some x else lookup j t))
      \<and> ceiling t' = max (ceiling t) (Suc (unat fd))"
    and put_at: "put_at fd x t = (old, t') \<Longrightarrow>
        old = lookup fd t \<and> (\<forall>j. lookup j t' = (if j = fd then Some x else lookup j t))"
    and drop_at: "drop_at fd t = (r, t') \<Longrightarrow>
        (case r of Inl e \<Rightarrow> lookup fd t = None \<and> t' = t | Inr u \<Rightarrow> lookup fd t \<noteq> None)
      \<and> (\<forall>j. lookup j t' = (if j = fd then None else lookup j t)) \<and> ceiling t' = ceiling t"
begin

lemma drop_put_new:
  assumes "mn < 2 ^ 32" "ceiling t < 2 ^ 32" "put_new mn x t = (fd, t')"
  shows "fst (drop_at fd t') = Inr ()" and "lookup j (snd (drop_at fd t')) = lookup j t"
  using put_new[OF assms] drop_at[of fd t' "fst (drop_at fd t')" "snd (drop_at fd t')"]
  by (auto split: sum.splits)

lemma put_new_reuses:
  assumes mn: "mn < 2 ^ 32" "mn \<le> unat fd" and c: "ceiling t < 2 ^ 32"
    and d: "drop_at fd t = (r, t1)" and p: "put_new mn x t1 = (fd', t2)"
  shows "fd' \<le> fd"
proof (rule ccontr)
  assume "\<not> fd' \<le> fd"
  moreover have "lookup fd t1 = None" "ceiling t1 = ceiling t"
    using drop_at[OF d] by auto
  ultimately show False
    using put_new[OF mn(1) _ p] mn(2) c by (auto simp: not_le)
qed

end

subsection \<open>The slot vector implements it\<close>

text \<open>The abstract content: the object at an index, if any.\<close>

definition slot_at :: "'a option list \<Rightarrow> nat \<Rightarrow> 'a option" where
  "slot_at ss i = (if i < length ss then ss ! i else None)"

lemma fd_get_slot: "fd_get fd t = slot_at (slots t) (unat fd)"
  by (simp add: fd_get_def slot_at_def)

lemma slot_at_upd: "i < length ss \<Longrightarrow> slot_at (ss[i := v]) j = (if j = i then v else slot_at ss j)"
  by (auto simp: slot_at_def)

lemma slot_at_push_none [simp]: "slot_at (push_none_until n ss) j = slot_at ss j"
  by (auto simp: slot_at_def push_none_until_def nth_append)

lemma slot_at_snoc:
  "length ss \<le> i \<Longrightarrow> slot_at (push_none_until i ss @ [v]) j = (if j = i then v else slot_at ss j)"
  by (auto simp: slot_at_def push_none_until_def nth_append)

lemma length_push_none [simp]: "length (push_none_until n ss) = max n (length ss)"
  by (simp add: push_none_until_def)

lemma lowest_free_index_spec:
  "i \<le> lowest_free_index ss i \<and> slot_at ss (lowest_free_index ss i) = None
   \<and> (\<forall>j. i \<le> j \<and> j < lowest_free_index ss i \<longrightarrow> slot_at ss j \<noteq> None)"
proof (induction ss i rule: lowest_free_index.induct)
  case (1 ss i)
  show ?case
  proof (cases "slot_at ss i")
    case None
    then have "lowest_free_index ss i = i"
      by (subst lowest_free_index.simps) (auto simp: slot_at_def)
    with None show ?thesis by auto
  next
    case (Some x)
    then have ss: "i < length ss" "ss ! i = Some x"
      by (simp_all add: slot_at_def split: if_splits)
    then have nxt: "lowest_free_index ss i = lowest_free_index ss (i + 1)"
      by (subst lowest_free_index.simps) simp
    have "slot_at ss j \<noteq> None" if "i \<le> j" "j < lowest_free_index ss (i + 1)" for j
      using that 1[OF ss] Some by (cases "j = i") auto
    with 1[OF ss] show ?thesis
      unfolding nxt by auto
  qed
qed

lemma lowest_free_index_bound: "lowest_free_index ss i \<le> max i (length ss)"
proof (rule ccontr)
  assume "\<not> lowest_free_index ss i \<le> max i (length ss)"
  then have "slot_at ss (max i (length ss)) \<noteq> None"
    using lowest_free_index_spec[of i ss] by (metis max.cobounded1 not_le)
  then show False by (simp add: slot_at_def)
qed

lemma fd_alloc_spec:
  assumes b: "mn < 2 ^ 32" "length (slots t) < 2 ^ 32" and a: "fd_alloc mn x t = (fd, t')"
  shows "unat fd = lowest_free_index (slots t) mn"
    and "slot_at (slots t') j = (if j = unat fd then Some x else slot_at (slots t) j)"
    and "length (slots t') = max (length (slots t)) (Suc (unat fd))"
proof -
  let ?i = "lowest_free_index (slots t) mn"
  have "?i < 2 ^ 32"
    using lowest_free_index_bound[of "slots t" mn] b by simp
  then show fd: "unat fd = ?i"
    using a by (auto simp: fd_alloc_def Let_def unat_of_nat)
  show "slot_at (slots t') j = (if j = unat fd then Some x else slot_at (slots t) j)"
    using a unfolding fd by (auto simp: fd_alloc_def Let_def slot_at_upd slot_at_snoc)
  show "length (slots t') = max (length (slots t)) (Suc (unat fd))"
    using a unfolding fd by (auto simp: fd_alloc_def Let_def)
qed

lemma fd_set_spec:
  assumes "fd_set fd x t = (old, t')"
  shows "old = slot_at (slots t) (unat fd)"
    and "slot_at (slots t') j = (if j = unat fd then Some x else slot_at (slots t) j)"
    and "length (slots t') = max (length (slots t)) (Suc (unat fd))"
proof -
  have "old = slot_at (push_none_until (unat fd + 1) (slots t)) (unat fd)"
    using assms by (auto simp: fd_set_def Let_def slot_at_def)
  then show "old = slot_at (slots t) (unat fd)"
    by (simp only: slot_at_push_none)
  show "slot_at (slots t') j = (if j = unat fd then Some x else slot_at (slots t) j)"
    and "length (slots t') = max (length (slots t)) (Suc (unat fd))"
    using assms by (auto simp: fd_set_def Let_def slot_at_upd)
qed

lemma fd_close_spec:
  assumes "fd_close fd t = (r, t')"
  shows "case r of Inl e \<Rightarrow> slot_at (slots t) (unat fd) = None \<and> t' = t
                 | Inr u \<Rightarrow> slot_at (slots t) (unat fd) \<noteq> None"
    and "slot_at (slots t') j = (if j = unat fd then None else slot_at (slots t) j)"
    and "length (slots t') = length (slots t)"
  using assms by (auto simp: fd_close_def slot_at_upd split: if_splits) (auto simp: slot_at_def)

interpretation fds: fd_store fd_get fd_alloc fd_set fd_close fd_len
proof
  show "unat fd < fd_len t" if "fd_get fd t \<noteq> None" for fd and t :: "'a fd_slots"
    using that by (auto simp: fd_get_def fd_len_def split: if_splits)
next
  fix mn fd and x :: 'a and t t'
  assume b: "mn < 2 ^ 32" "fd_len t < 2 ^ 32" and a: "fd_alloc mn x t = (fd, t')"
  note al = fd_alloc_spec[OF b(1) b(2)[unfolded fd_len_def] a]
  show "mn \<le> unat fd \<and> fd_get fd t = None
      \<and> (\<forall>j. mn \<le> unat j \<and> j < fd \<longrightarrow> fd_get j t \<noteq> None)
      \<and> (\<forall>j. fd_get j t' = (if j = fd then Some x else fd_get j t))
      \<and> fd_len t' = max (fd_len t) (Suc (unat fd))"
    using lowest_free_index_spec[of mn "slots t"] al(2,3) unfolding al(1)[symmetric]
    by (simp add: fd_get_slot word_less_nat_alt fd_len_def word_unat_eq_iff)
next
  fix fd and x :: 'a and t old t'
  assume "fd_set fd x t = (old, t')"
  from fd_set_spec[OF this] show "old = fd_get fd t \<and> (\<forall>j. fd_get j t' = (if j = fd then Some x else fd_get j t))"
    by (simp add: fd_get_slot word_unat_eq_iff)
next
  fix fd r and t t' :: "'a fd_slots"
  assume c: "fd_close fd t = (r, t')"
  have "case r of Inl e \<Rightarrow> fd_get fd t = None \<and> t' = t | Inr u \<Rightarrow> fd_get fd t \<noteq> None"
    using fd_close_spec(1)[OF c] by (simp only: fd_get_slot)
  moreover have "fd_get j t' = (if j = fd then None else fd_get j t)" for j
    unfolding fd_get_slot fd_close_spec(2)[OF c] by (simp add: word_unat_eq_iff)
  ultimately show "(case r of Inl e \<Rightarrow> fd_get fd t = None \<and> t' = t | Inr u \<Rightarrow> fd_get fd t \<noteq> None)
      \<and> (\<forall>j. fd_get j t' = (if j = fd then None else fd_get j t)) \<and> fd_len t' = fd_len t"
    using fd_close_spec(3)[OF c] unfolding fd_len_def by (intro conjI allI)
qed

end
