(* ===== verification/FdTable.thy ===== *)
theory FdTable
  imports FdAlloc
begin

text \<open>
  The per-process descriptor table of \<^verbatim>\<open>src/src/task/fd.rs\<close>: pipes and socket pairs with their
  reader and writer counts, the reference-counted endpoints that descriptors share, and the
  table operations.

  The shared objects live in a heap.  A pipe queue (\<^verbatim>\<open>Arc<Spinlock<PipeState>>\<close>) is an index
  into \<open>pipes\<close>; a \<^verbatim>\<open>PipeEndpoint\<close> behind an \<^verbatim>\<open>Arc\<close> is an index into \<open>arcs\<close>, which keeps
  the strong count beside the endpoint, so that \<^verbatim>\<open>Drop for PipeEndpoint\<close> runs when the last
  \<^verbatim>\<open>Arc\<close> goes.  The other objects a descriptor can name (files, network sockets, listeners,
  epoll sets, event counters) are opaque handles.
\<close>

subsection \<open>Pipes\<close>

definition PIPE_CAPACITY :: nat where "PIPE_CAPACITY = 64 * 1024"

record pipe_state =
  pbytes :: bytes
  readers :: nat
  writers :: nat

record pipe_endpoint =
  ep_state :: nat
  read_end :: bool
  nonblocking :: bool

record fd_heap =
  pipes :: "pipe_state list"
  arcs :: "(pipe_endpoint \<times> nat) list"

datatype pipe_read_result = ReadData bytes | ReadWouldBlock | ReadEof

datatype pipe_write_result = WriteData nat | WriteWouldBlock | WriteBroken

text \<open>Reading into a buffer of \<open>n\<close> bytes: the result carries the bytes that were copied out.\<close>

definition pipe_read :: "nat \<Rightarrow> pipe_state \<Rightarrow> pipe_read_result \<times> pipe_state" where
  "pipe_read n s =
     (if pbytes s \<noteq> []
      then let k = min n (length (pbytes s))
           in (ReadData (take k (pbytes s)), s\<lparr>pbytes := drop k (pbytes s)\<rparr>)
      else if writers s = 0 then (ReadEof, s)
      else (ReadWouldBlock, s))"

definition pipe_write :: "bytes \<Rightarrow> pipe_state \<Rightarrow> pipe_write_result \<times> pipe_state" where
  "pipe_write src s =
     (if readers s = 0 then (WriteBroken, s)
      else let room = PIPE_CAPACITY - length (pbytes s)
           in if room = 0 then (WriteWouldBlock, s)
              else let k = min room (length src)
                   in (WriteData k, s\<lparr>pbytes := pbytes s @ take k src\<rparr>))"

definition ep_of :: "fd_heap \<Rightarrow> nat \<Rightarrow> pipe_endpoint" where
  "ep_of h e = fst (arcs h ! e)"

definition pipe_of :: "fd_heap \<Rightarrow> nat \<Rightarrow> pipe_state" where
  "pipe_of h e = pipes h ! ep_state (ep_of h e)"

definition set_pipe :: "nat \<Rightarrow> pipe_state \<Rightarrow> fd_heap \<Rightarrow> fd_heap" where
  "set_pipe p s h = h\<lparr>pipes := (pipes h)[p := s]\<rparr>"

definition ep_read :: "nat \<Rightarrow> nat \<Rightarrow> fd_heap \<Rightarrow> pipe_read_result \<times> fd_heap" where
  "ep_read e n h = (case pipe_read n (pipe_of h e) of (r, s) \<Rightarrow> (r, set_pipe (ep_state (ep_of h e)) s h))"

definition ep_write :: "nat \<Rightarrow> bytes \<Rightarrow> fd_heap \<Rightarrow> pipe_write_result \<times> fd_heap" where
  "ep_write e src h = (case pipe_write src (pipe_of h e) of (r, s) \<Rightarrow> (r, set_pipe (ep_state (ep_of h e)) s h))"

definition read_ready :: "nat \<Rightarrow> fd_heap \<Rightarrow> bool" where
  "read_ready e h \<longleftrightarrow> pbytes (pipe_of h e) \<noteq> [] \<or> writers (pipe_of h e) = 0"

definition write_ready :: "nat \<Rightarrow> fd_heap \<Rightarrow> bool" where
  "write_ready e h \<longleftrightarrow> 0 < readers (pipe_of h e) \<and> length (pbytes (pipe_of h e)) < PIPE_CAPACITY"

definition peer_closed :: "nat \<Rightarrow> fd_heap \<Rightarrow> bool" where
  "peer_closed e h \<longleftrightarrow>
     (if read_end (ep_of h e) then writers (pipe_of h e) = 0 else readers (pipe_of h e) = 0)"

text \<open>
  Heap primitives: a new queue with one reader and one writer announced, a new \<^verbatim>\<open>Arc\<close>, its
  \<^verbatim>\<open>clone\<close>, and its drop, which runs the endpoint's \<^verbatim>\<open>drop\<close> at the last reference.
\<close>

definition pipe_new :: "fd_heap \<Rightarrow> nat \<times> fd_heap" where
  "pipe_new h = (length (pipes h), h\<lparr>pipes := pipes h @ [\<lparr>pbytes = [], readers = 1, writers = 1\<rparr>]\<rparr>)"

definition arc_new :: "pipe_endpoint \<Rightarrow> fd_heap \<Rightarrow> nat \<times> fd_heap" where
  "arc_new ep h = (length (arcs h), h\<lparr>arcs := arcs h @ [(ep, 1)]\<rparr>)"

definition arc_clone :: "nat \<Rightarrow> fd_heap \<Rightarrow> fd_heap" where
  "arc_clone e h = (case arcs h ! e of (ep, n) \<Rightarrow> h\<lparr>arcs := (arcs h)[e := (ep, n + 1)]\<rparr>)"

definition endpoint_drop :: "pipe_endpoint \<Rightarrow> fd_heap \<Rightarrow> fd_heap" where
  "endpoint_drop ep h =
     (let s = pipes h ! ep_state ep
      in set_pipe (ep_state ep)
           (if read_end ep then s\<lparr>readers := readers s - 1\<rparr> else s\<lparr>writers := writers s - 1\<rparr>) h)"

definition arc_drop :: "nat \<Rightarrow> fd_heap \<Rightarrow> fd_heap" where
  "arc_drop e h =
     (case arcs h ! e of (ep, n) \<Rightarrow>
        let h' = h\<lparr>arcs := (arcs h)[e := (ep, n - 1)]\<rparr>
        in if n = 1 then endpoint_drop ep h' else h')"

text \<open>\<^verbatim>\<open>with_nonblocking\<close>: the same \<^verbatim>\<open>Arc\<close>, or a new endpoint that registers itself on the queue.\<close>

definition with_nonblocking :: "nat \<Rightarrow> bool \<Rightarrow> fd_heap \<Rightarrow> nat \<times> fd_heap" where
  "with_nonblocking e on h =
     (if nonblocking (ep_of h e) = on then (e, arc_clone e h)
      else let s = pipe_of h e;
               s' = (if read_end (ep_of h e) then s\<lparr>readers := readers s + 1\<rparr>
                     else s\<lparr>writers := writers s + 1\<rparr>)
           in arc_new ((ep_of h e)\<lparr>nonblocking := on\<rparr>) (set_pipe (ep_state (ep_of h e)) s' h))"

subsection \<open>Open objects\<close>

type_synonym handle = nat

datatype open_object =
    Console
  | InetTcp handle
  | InetUdp handle
  | Stdin
  | File handle u64
  | PipeRead nat
  | PipeWrite nat
  | Eventfd handle bool
  | Socket nat nat
  | UnixListener handle
  | UnixSocketUnbound bool
  | Epoll handle
  | Dir string "handle list" nat

definition dup_clone :: "open_object \<Rightarrow> fd_heap \<Rightarrow> open_object \<times> fd_heap" where
  "dup_clone obj h =
     (case obj of
        PipeRead e \<Rightarrow> (PipeRead e, arc_clone e h)
      | PipeWrite e \<Rightarrow> (PipeWrite e, arc_clone e h)
      | Socket rx tx \<Rightarrow> (Socket rx tx, arc_clone tx (arc_clone rx h))
      | _ \<Rightarrow> (obj, h))"

text \<open>Dropping an object drops the \<^verbatim>\<open>Arc\<close>s it holds, in field order.\<close>

definition obj_drop :: "open_object \<Rightarrow> fd_heap \<Rightarrow> fd_heap" where
  "obj_drop obj h =
     (case obj of
        PipeRead e \<Rightarrow> arc_drop e h
      | PipeWrite e \<Rightarrow> arc_drop e h
      | Socket rx tx \<Rightarrow> arc_drop tx (arc_drop rx h)
      | _ \<Rightarrow> h)"

subsection \<open>The table\<close>

record fd_table =
  tslots :: "open_object fd_slots"
  cloexec :: "u32 set"

datatype fd_errno = EBADF | EINVAL | ENOENT | EAGAIN

definition FIRST_DYNAMIC_FD :: nat where "FIRST_DYNAMIC_FD = 3"

definition with_standard_streams :: fd_table where
  "with_standard_streams =
     \<lparr>tslots = from_slots [Some Stdin, Some Console, Some Console], cloexec = {}\<rparr>"

definition table_alloc :: "open_object \<Rightarrow> fd_table \<Rightarrow> u32 \<times> fd_table" where
  "table_alloc obj t =
     (case fd_alloc FIRST_DYNAMIC_FD obj (tslots t) of
        (fd, s) \<Rightarrow> (fd, t\<lparr>tslots := s, cloexec := cloexec t - {fd}\<rparr>))"

definition table_get :: "u32 \<Rightarrow> fd_table \<Rightarrow> open_object option" where
  "table_get fd t = fd_get fd (tslots t)"

definition table_pipe :: "bool \<Rightarrow> fd_heap \<Rightarrow> fd_table \<Rightarrow> (u32 \<times> u32) \<times> fd_heap \<times> fd_table" where
  "table_pipe nb h t =
     (let (state, h) = pipe_new h;
          (r, h) = arc_new \<lparr>ep_state = state, read_end = True, nonblocking = nb\<rparr> h;
          (w, h) = arc_new \<lparr>ep_state = state, read_end = False, nonblocking = nb\<rparr> h;
          (rfd, t) = table_alloc (PipeRead r) t;
          (wfd, t) = table_alloc (PipeWrite w) t
      in ((rfd, wfd), h, t))"

definition table_capacity :: "fd_table \<Rightarrow> nat" where
  "table_capacity t = fd_len (tslots t)"

definition table_close :: "u32 \<Rightarrow> fd_heap \<Rightarrow> fd_table \<Rightarrow> (fd_errno + unit) \<times> fd_heap \<times> fd_table" where
  "table_close fd h t =
     (case fd_close fd (tslots t) of
        (Inl BadFd, s) \<Rightarrow> (Inl EBADF, h, t\<lparr>tslots := s\<rparr>)
      | (Inr u, s) \<Rightarrow>
          (Inr u, (case table_get fd t of Some obj \<Rightarrow> obj_drop obj h | None \<Rightarrow> h),
           t\<lparr>tslots := s, cloexec := cloexec t - {fd}\<rparr>))"

definition dup_min :: "u32 \<Rightarrow> u32 \<Rightarrow> fd_heap \<Rightarrow> fd_table \<Rightarrow> (fd_errno + u32) \<times> fd_heap \<times> fd_table" where
  "dup_min oldfd mn h t =
     (case table_get oldfd t of
        None \<Rightarrow> (Inl EBADF, h, t)
      | Some obj \<Rightarrow>
          let (dup, h) = dup_clone obj h;
              (fd, s) = fd_alloc (unat mn) dup (tslots t)
          in (Inr fd, h, t\<lparr>tslots := s, cloexec := cloexec t - {fd}\<rparr>))"

definition table_dup :: "u32 \<Rightarrow> fd_heap \<Rightarrow> fd_table \<Rightarrow> (fd_errno + u32) \<times> fd_heap \<times> fd_table" where
  "table_dup oldfd h t = dup_min oldfd (of_nat FIRST_DYNAMIC_FD) h t"

text \<open>\<^verbatim>\<open>dup_to\<close> discards the object that \<^verbatim>\<open>set\<close> replaced, which drops it.\<close>

definition dup_to :: "u32 \<Rightarrow> u32 \<Rightarrow> fd_heap \<Rightarrow> fd_table \<Rightarrow> (fd_errno + u32) \<times> fd_heap \<times> fd_table" where
  "dup_to oldfd newfd h t =
     (case table_get oldfd t of
        None \<Rightarrow> (Inl EBADF, h, t)
      | Some obj \<Rightarrow>
          let (dup, h) = dup_clone obj h;
              (old, s) = fd_set newfd dup (tslots t);
              h = (case old of Some o' \<Rightarrow> obj_drop o' h | None \<Rightarrow> h)
          in (Inr newfd, h, t\<lparr>tslots := s, cloexec := cloexec t - {newfd}\<rparr>))"

definition set_cloexec :: "u32 \<Rightarrow> bool \<Rightarrow> fd_table \<Rightarrow> fd_table" where
  "set_cloexec fd on t =
     (if on then t\<lparr>cloexec := insert fd (cloexec t)\<rparr> else t\<lparr>cloexec := cloexec t - {fd}\<rparr>)"

definition is_cloexec :: "u32 \<Rightarrow> fd_table \<Rightarrow> bool" where
  "is_cloexec fd t \<longleftrightarrow> fd \<in> cloexec t"

definition describe_fd :: "u32 \<Rightarrow> fd_table \<Rightarrow> string" where
  "describe_fd fd t =
     (case table_get fd t of
        None \<Rightarrow> ''closed''
      | Some Stdin \<Rightarrow> ''stdin(kbd)''
      | Some Console \<Rightarrow> ''console''
      | Some (PipeRead e) \<Rightarrow> ''pipe-r''
      | Some (PipeWrite e) \<Rightarrow> ''pipe-w''
      | Some (Socket rx tx) \<Rightarrow> ''socket''
      | Some (InetTcp s) \<Rightarrow> ''inet-tcp''
      | Some (InetUdp s) \<Rightarrow> ''inet-udp''
      | Some (UnixListener l) \<Rightarrow> ''unix-listener''
      | Some (UnixSocketUnbound nb) \<Rightarrow> ''unix-unbound''
      | Some (Eventfd v sem) \<Rightarrow> ''eventfd''
      | Some (File node off) \<Rightarrow> ''file''
      | Some (Dir path cs i) \<Rightarrow> ''dir''
      | Some (Epoll i) \<Rightarrow> ''epoll'')"

text \<open>The execve sweep, in the ascending order of the set, ignoring absent descriptors.\<close>

fun close_each :: "u32 list \<Rightarrow> fd_heap \<Rightarrow> fd_table \<Rightarrow> fd_heap \<times> fd_table" where
  "close_each [] h t = (h, t)"
| "close_each (fd # fds) h t =
     (case fd_close fd (tslots t) of
        (Inl e, s) \<Rightarrow> close_each fds h (t\<lparr>tslots := s\<rparr>)
      | (Inr u, s) \<Rightarrow>
          close_each fds (case table_get fd t of Some obj \<Rightarrow> obj_drop obj h | None \<Rightarrow> h)
            (t\<lparr>tslots := s\<rparr>))"

definition close_cloexec :: "fd_heap \<Rightarrow> fd_table \<Rightarrow> fd_heap \<times> fd_table" where
  "close_cloexec h t = close_each (sorted_list_of_set (cloexec t)) h (t\<lparr>cloexec := {}\<rparr>)"

definition socketpair :: "bool \<Rightarrow> fd_heap \<Rightarrow> fd_table \<Rightarrow> (u32 \<times> u32) \<times> fd_heap \<times> fd_table" where
  "socketpair nb h t =
     (let (q_ab, h) = pipe_new h;
          (q_ba, h) = pipe_new h;
          (arx, h) = arc_new \<lparr>ep_state = q_ba, read_end = True, nonblocking = nb\<rparr> h;
          (atx, h) = arc_new \<lparr>ep_state = q_ab, read_end = False, nonblocking = nb\<rparr> h;
          (brx, h) = arc_new \<lparr>ep_state = q_ab, read_end = True, nonblocking = nb\<rparr> h;
          (btx, h) = arc_new \<lparr>ep_state = q_ba, read_end = False, nonblocking = nb\<rparr> h;
          (fa, t) = table_alloc (Socket arx atx) t;
          (fb, t) = table_alloc (Socket brx btx) t
      in ((fa, fb), h, t))"

definition socket_pair_endpoints ::
    "bool \<Rightarrow> bool \<Rightarrow> fd_heap \<Rightarrow> ((nat \<times> nat) \<times> (nat \<times> nat)) \<times> fd_heap" where
  "socket_pair_endpoints nbc nbs h =
     (let (q_cs, h) = pipe_new h;
          (q_sc, h) = pipe_new h;
          (crx, h) = arc_new \<lparr>ep_state = q_sc, read_end = True, nonblocking = nbc\<rparr> h;
          (ctx, h) = arc_new \<lparr>ep_state = q_cs, read_end = False, nonblocking = nbc\<rparr> h;
          (srx, h) = arc_new \<lparr>ep_state = q_cs, read_end = True, nonblocking = nbs\<rparr> h;
          (stx, h) = arc_new \<lparr>ep_state = q_sc, read_end = False, nonblocking = nbs\<rparr> h
      in (((crx, ctx), (srx, stx)), h))"

text \<open>
  \<^verbatim>\<open>F_SETFL\<close> and \<^verbatim>\<open>FIONBIO\<close> replace the endpoints in the slot by their \<^verbatim>\<open>with_nonblocking\<close>
  versions; assigning through the reference drops the old ones.
\<close>

definition set_nonblock :: "u32 \<Rightarrow> bool \<Rightarrow> fd_heap \<Rightarrow> fd_table \<Rightarrow> (fd_errno + unit) \<times> fd_heap \<times> fd_table" where
  "set_nonblock fd on h t =
     (case table_get fd t of
        None \<Rightarrow> (Inl EBADF, h, t)
      | Some obj \<Rightarrow>
          let (obj', h') =
            (case obj of
               PipeRead e \<Rightarrow> (case with_nonblocking e on h of (e', h) \<Rightarrow> (PipeRead e', arc_drop e h))
             | PipeWrite e \<Rightarrow> (case with_nonblocking e on h of (e', h) \<Rightarrow> (PipeWrite e', arc_drop e h))
             | Socket rx tx \<Rightarrow>
                 let (nrx, h) = with_nonblocking rx on h;
                     (ntx, h) = with_nonblocking tx on h
                 in (Socket nrx ntx, arc_drop tx (arc_drop rx h))
             | UnixSocketUnbound nb \<Rightarrow> (UnixSocketUnbound on, h)
             | _ \<Rightarrow> (obj, h))
          in (Inr (), h', t\<lparr>tslots := (tslots t)\<lparr>slots := (slots (tslots t))[unat fd := Some obj']\<rparr>\<rparr>))"

text \<open>Fork clones every slot in order; a process that exits drops every slot in order.\<close>

fun clone_slots :: "open_object option list \<Rightarrow> fd_heap \<Rightarrow> fd_heap" where
  "clone_slots [] h = h"
| "clone_slots (None # ss) h = clone_slots ss h"
| "clone_slots (Some obj # ss) h = clone_slots ss (snd (dup_clone obj h))"

fun drop_slots :: "open_object option list \<Rightarrow> fd_heap \<Rightarrow> fd_heap" where
  "drop_slots [] h = h"
| "drop_slots (None # ss) h = drop_slots ss h"
| "drop_slots (Some obj # ss) h = drop_slots ss (obj_drop obj h)"

end
