(* ===== verification/FdCorrect.thy ===== *)
theory FdCorrect
  imports FdTable
begin

text \<open>
  Correctness of the descriptor table: the reader and writer counts of every queue are the
  numbers of live endpoints, and the strong count of every endpoint is the number of
  descriptors that hold it, over all processes.  From this: a reader sees end of file exactly
  when no descriptor of any process can write to its queue any more.
\<close>

subsection \<open>Heap invariant\<close>

definition rc :: "fd_heap \<Rightarrow> nat \<Rightarrow> nat" where
  "rc h e = (if e < length (arcs h) then snd (arcs h ! e) else 0)"

definition is_end :: "nat \<Rightarrow> bool \<Rightarrow> pipe_endpoint \<times> nat \<Rightarrow> bool" where
  "is_end p r a \<longleftrightarrow> 0 < snd a \<and> ep_state (fst a) = p \<and> read_end (fst a) = r"

definition ends :: "fd_heap \<Rightarrow> nat \<Rightarrow> bool \<Rightarrow> nat" where
  "ends h p r = length (filter (is_end p r) (arcs h))"

definition side :: "pipe_state \<Rightarrow> bool \<Rightarrow> nat" where
  "side s r = (if r then readers s else writers s)"

text \<open>
  \<open>D p r\<close> is the number of endpoints that a queue has announced but that do not exist yet, or
  exist no more; it is zero between operations.
\<close>

definition heap_wf :: "(nat \<Rightarrow> bool \<Rightarrow> nat) \<Rightarrow> fd_heap \<Rightarrow> bool" where
  "heap_wf D h \<longleftrightarrow>
     (\<forall>e < length (arcs h). ep_state (ep_of h e) < length (pipes h))
   \<and> (\<forall>p < length (pipes h). length (pbytes (pipes h ! p)) \<le> PIPE_CAPACITY
        \<and> (\<forall>r. side (pipes h ! p) r = ends h p r + D p r))"

definition heap_ext :: "fd_heap \<Rightarrow> fd_heap \<Rightarrow> bool" where
  "heap_ext h h' \<longleftrightarrow> length (arcs h) \<le> length (arcs h') \<and> length (pipes h) \<le> length (pipes h')
     \<and> (\<forall>e < length (arcs h). ep_of h' e = ep_of h e)
     \<and> (\<forall>p < length (pipes h). pbytes (pipes h' ! p) = pbytes (pipes h ! p))"

lemma heap_ext_refl [simp]: "heap_ext h h"
  by (simp add: heap_ext_def)

lemma heap_ext_trans: "heap_ext h h' \<Longrightarrow> heap_ext h' h'' \<Longrightarrow> heap_ext h h''"
  by (simp add: heap_ext_def)

lemma rc_set_pipe [simp]: "rc (set_pipe p s h) = rc h"
  by (simp add: rc_def set_pipe_def fun_eq_iff)

lemma rc_pos_length: "0 < rc h e \<Longrightarrow> e < length (arcs h)"
  by (simp add: rc_def split: if_splits)

lemma arc_nth: "e < length (arcs h) \<Longrightarrow> arcs h ! e = (ep_of h e, rc h e)"
  by (simp add: ep_of_def rc_def)

lemma ends_update:
  assumes "e < length (arcs h)" "arcs h' = (arcs h)[e := (ep_of h e, n)]"
  shows "ends h' p r + of_bool (is_end p r (ep_of h e, rc h e)) = ends h p r + of_bool (is_end p r (ep_of h e, n))"
  using length_filter_update[OF assms(1), of "is_end p r" "(ep_of h e, n)"] assms
  by (simp add: ends_def arc_nth)

lemma rc_update:
  assumes "e < length (arcs h)" "arcs h' = (arcs h)[e := (ep_of h e, n)]"
  shows "rc h' = (rc h)(e := n)" and "e' < length (arcs h) \<Longrightarrow> ep_of h' e' = ep_of h e'"
  using assms by (auto simp: rc_def ep_of_def fun_eq_iff nth_list_update)

lemma arc_clone_wf:
  assumes wf: "heap_wf D h" and e: "0 < rc h e"
  shows "heap_wf D (arc_clone e h)" and "rc (arc_clone e h) = (rc h)(e := rc h e + 1)"
    and "heap_ext h (arc_clone e h)"
proof -
  note lt = rc_pos_length[OF e]
  have c: "arc_clone e h = h\<lparr>arcs := (arcs h)[e := (ep_of h e, rc h e + 1)]\<rparr>"
    by (simp add: arc_clone_def arc_nth[OF lt])
  note u = rc_update[OF lt, of "arc_clone e h" "rc h e + 1"]
  show "rc (arc_clone e h) = (rc h)(e := rc h e + 1)"
    using u by (simp add: c)
  have ep: "e' < length (arcs h) \<Longrightarrow> ep_of (arc_clone e h) e' = ep_of h e'" for e'
    using u(2) by (simp add: c)
  have "ends (arc_clone e h) p r = ends h p r" for p r
    using ends_update[OF lt, of "arc_clone e h" "rc h e + 1" p r] e by (simp add: c is_end_def)
  then show "heap_wf D (arc_clone e h)"
    using wf ep by (simp add: heap_wf_def c)
  show "heap_ext h (arc_clone e h)"
    using ep by (simp add: heap_ext_def c)
qed

lemma arc_drop_wf:
  assumes wf: "heap_wf D h" and e: "0 < rc h e"
  shows "heap_wf D (arc_drop e h)" and "rc (arc_drop e h) = (rc h)(e := rc h e - 1)"
    and "heap_ext h (arc_drop e h)"
proof -
  note lt = rc_pos_length[OF e]
  define ep where "ep = ep_of h e"
  define h1 where "h1 = h\<lparr>arcs := (arcs h)[e := (ep, rc h e - 1)]\<rparr>"
  have d: "arc_drop e h = (if rc h e = 1 then endpoint_drop ep h1 else h1)"
    by (simp add: arc_drop_def arc_nth[OF lt] h1_def ep_def)
  have arcs: "arcs (arc_drop e h) = (arcs h)[e := (ep_of h e, rc h e - 1)]"
    by (simp add: d endpoint_drop_def set_pipe_def Let_def h1_def ep_def)
  note u = rc_update[OF lt arcs]
  then show "rc (arc_drop e h) = (rc h)(e := rc h e - 1)" by simp
  have p: "ep_state ep < length (pipes h)"
    using wf lt by (simp add: heap_wf_def ep_def)
  have en: "ends (arc_drop e h) q r + of_bool (rc h e = 1 \<and> ep_state ep = q \<and> read_end ep = r) = ends h q r" for q r
    using ends_update[OF lt arcs, of q r] e by (auto simp: is_end_def ep_def split: if_splits)
  have pipes: "pipes (arc_drop e h) ! q = (if rc h e = 1 \<and> ep_state ep = q
      then (let s = pipes h ! q in if read_end ep then s\<lparr>readers := readers s - 1\<rparr> else s\<lparr>writers := writers s - 1\<rparr>)
      else pipes h ! q)" and len: "length (pipes (arc_drop e h)) = length (pipes h)" for q
    using p by (auto simp: d endpoint_drop_def set_pipe_def Let_def h1_def)
  have "side (pipes (arc_drop e h) ! q) r = ends (arc_drop e h) q r + D q r" if "q < length (pipes h)" for q r
  proof -
    have "side (pipes h ! q) r = ends h q r + D q r"
      using wf that by (simp add: heap_wf_def)
    then show ?thesis
      using en[of q r] by (auto simp: pipes side_def Let_def split: if_splits)
  qed
  then show "heap_wf D (arc_drop e h)"
    using wf u(2) by (auto simp: heap_wf_def len arcs pipes Let_def)
  show "heap_ext h (arc_drop e h)"
    using u(2) by (auto simp: heap_ext_def len arcs pipes Let_def)
qed

lemma arc_new_wf:
  assumes wf: "heap_wf D h" and p: "ep_state ep < length (pipes h)" and d: "0 < D (ep_state ep) (read_end ep)"
    and n: "arc_new ep h = (e, h')"
  shows "heap_wf (D(ep_state ep := (D (ep_state ep))(read_end ep := D (ep_state ep) (read_end ep) - 1))) h'"
    and "e = length (arcs h)" and "rc h' = (rc h)(e := 1)" and "ep_of h' e = ep" and "heap_ext h h'"
    and "rc h e = 0" and "pipes h' = pipes h" and "e < length (arcs h')"
proof -
  have h': "h' = h\<lparr>arcs := arcs h @ [(ep, 1)]\<rparr>" and e: "e = length (arcs h)"
    using n by (auto simp: arc_new_def)
  show "e = length (arcs h)" by (fact e)
  show "rc h e = 0" "pipes h' = pipes h" "ep_of h' e = ep" "e < length (arcs h')"
    by (simp_all add: rc_def e h' ep_of_def)
  show "rc h' = (rc h)(e := 1)"
    by (auto simp: rc_def e h' fun_eq_iff nth_append)
  show "heap_ext h h'"
    by (simp add: heap_ext_def h' ep_of_def nth_append)
  have "ends h' q r = ends h q r + of_bool (ep_state ep = q \<and> read_end ep = r)" for q r
    by (simp add: ends_def h' is_end_def)
  then show "heap_wf (D(ep_state ep := (D (ep_state ep))(read_end ep := D (ep_state ep) (read_end ep) - 1))) h'"
    using wf p d by (auto simp: heap_wf_def h' ep_of_def nth_append less_Suc_eq)
qed

lemma pipe_new_wf:
  assumes wf: "heap_wf D h" and z: "D (length (pipes h)) = (\<lambda>r. 0)" and n: "pipe_new h = (q, h')"
  shows "heap_wf (D(q := (\<lambda>r. 1))) h'" and "q = length (pipes h)" and "rc h' = rc h" and "heap_ext h h'"
    and "arcs h' = arcs h" and "length (pipes h') = Suc (length (pipes h))"
proof -
  have h': "h' = h\<lparr>pipes := pipes h @ [\<lparr>pbytes = [], readers = 1, writers = 1\<rparr>]\<rparr>" and q: "q = length (pipes h)"
    using n by (auto simp: pipe_new_def)
  show "q = length (pipes h)" by (fact q)
  show "rc h' = rc h" "heap_ext h h'" "arcs h' = arcs h" "length (pipes h') = Suc (length (pipes h))"
    by (simp_all add: rc_def h' heap_ext_def ep_of_def nth_append fun_eq_iff)
  have "\<not> is_end q r a" if "a \<in> set (arcs h)" for a r
    using that wf by (force simp: heap_wf_def is_end_def in_set_conv_nth ep_of_def q)
  then have "ends h q r = 0" for r
    by (simp add: ends_def filter_empty_conv)
  then show "heap_wf (D(q := (\<lambda>r. 1))) h'"
    using wf by (auto simp: heap_wf_def h' ep_of_def ends_def nth_append less_Suc_eq q side_def)
qed

subsection \<open>Objects\<close>

definition obj_eps :: "open_object \<Rightarrow> nat list" where
  "obj_eps obj = (case obj of PipeRead e \<Rightarrow> [e] | PipeWrite e \<Rightarrow> [e] | Socket rx tx \<Rightarrow> [rx, tx] | _ \<Rightarrow> [])"

text \<open>The endpoints an object reads from and those it writes to.\<close>

definition reads :: "open_object \<Rightarrow> nat list" where
  "reads obj = (case obj of PipeRead e \<Rightarrow> [e] | Socket rx tx \<Rightarrow> [rx] | _ \<Rightarrow> [])"

definition writes :: "open_object \<Rightarrow> nat list" where
  "writes obj = (case obj of PipeWrite e \<Rightarrow> [e] | Socket rx tx \<Rightarrow> [tx] | _ \<Rightarrow> [])"

definition obj_ok :: "fd_heap \<Rightarrow> open_object \<Rightarrow> bool" where
  "obj_ok h obj \<longleftrightarrow> (\<forall>e \<in> set (reads obj). e < length (arcs h) \<and> read_end (ep_of h e))
     \<and> (\<forall>e \<in> set (writes obj). e < length (arcs h) \<and> \<not> read_end (ep_of h e))"

lemma obj_eps_set: "set (obj_eps obj) = set (reads obj) \<union> set (writes obj)"
  by (cases obj) (simp_all add: obj_eps_def reads_def writes_def insert_commute)

lemma obj_ok_ext: "obj_ok h obj \<Longrightarrow> heap_ext h h' \<Longrightarrow> obj_ok h' obj"
  by (auto simp: obj_ok_def heap_ext_def)

lemma dup_clone_fold: "dup_clone obj h = (obj, fold arc_clone (obj_eps obj) h)"
  by (cases obj) (simp_all add: dup_clone_def obj_eps_def)

lemma obj_drop_fold: "obj_drop obj h = fold arc_drop (obj_eps obj) h"
  by (cases obj) (simp_all add: obj_drop_def obj_eps_def)

lemma fold_arc_clone:
  assumes "heap_wf D h" "\<forall>e \<in> set es. 0 < rc h e"
  shows "heap_wf D (fold arc_clone es h) \<and> (\<forall>e. rc (fold arc_clone es h) e = rc h e + count_list es e)
    \<and> heap_ext h (fold arc_clone es h)"
  using assms
proof (induction es arbitrary: h)
  case (Cons e es)
  note st = arc_clone_wf[OF Cons.prems(1), of e]
  have "0 < rc h e"
    using Cons.prems(2) by simp
  with Cons.IH[OF st(1)] Cons.prems(2) st show ?case
    by (auto intro: heap_ext_trans)
qed simp

lemma fold_arc_drop:
  assumes "heap_wf D h" "\<forall>e. count_list es e \<le> rc h e"
  shows "heap_wf D (fold arc_drop es h) \<and> (\<forall>e. rc (fold arc_drop es h) e = rc h e - count_list es e)
    \<and> heap_ext h (fold arc_drop es h)"
  using assms
proof (induction es arbitrary: h)
  case (Cons e es)
  have e: "0 < rc h e"
    using Cons.prems(2)[rule_format, of e] by simp
  note st = arc_drop_wf[OF Cons.prems(1) e]
  have "\<forall>a. count_list es a \<le> rc (arc_drop e h) a"
    using Cons.prems(2) by (auto simp: st(2) split: if_splits)
  with Cons.IH[OF st(1)] st show ?case
    by (auto intro: heap_ext_trans)
qed simp

subsection \<open>Tables\<close>

definition orefs :: "open_object option \<Rightarrow> nat \<Rightarrow> nat" where
  "orefs s e = (case s of Some obj \<Rightarrow> count_list (obj_eps obj) e | None \<Rightarrow> 0)"

definition srefs :: "open_object option list \<Rightarrow> nat \<Rightarrow> nat" where
  "srefs ss e = sum_list (map (\<lambda>s. orefs s e) ss)"

lemma orefs_simps [simp]: "orefs None e = 0" "orefs (Some obj) e = count_list (obj_eps obj) e"
  by (simp_all add: orefs_def)

lemma srefs_simps [simp]: "srefs [] e = 0" "srefs (s # ss) e = orefs s e + srefs ss e"
    "srefs (ss @ ss') e = srefs ss e + srefs ss' e" "srefs (replicate n None) e = 0"
    "srefs (push_none_until n ss) e = srefs ss e"
  by (simp_all add: srefs_def push_none_until_def sum_list_replicate)

lemma srefs_update: "i < length ss \<Longrightarrow> srefs (ss[i := s]) e + orefs (ss ! i) e = srefs ss e + orefs s e"
  unfolding srefs_def by (rule sum_list_update_nat)

lemma srefs_ge: "i < length ss \<Longrightarrow> orefs (ss ! i) e \<le> srefs ss e"
  using srefs_update[of i ss None e] by simp

abbreviation tslot_list :: "fd_table \<Rightarrow> open_object option list" where
  "tslot_list t \<equiv> slots (tslots t)"

definition table_objs :: "fd_table \<Rightarrow> open_object set" where
  "table_objs t = {obj. Some obj \<in> set (tslot_list t)}"

lemma slot_at_set: "(slot_at ss i = Some x) \<Longrightarrow> Some x \<in> set ss"
  by (auto simp: slot_at_def in_set_conv_nth split: if_splits)

lemma srefs_fd_alloc:
  assumes "fd_alloc mn obj t = (fd, t')"
  shows "srefs (slots t') e = srefs (slots t) e + count_list (obj_eps obj) e"
    and "set (slots t') \<subseteq> insert None (insert (Some obj) (set (slots t)))"
proof -
  let ?i = "lowest_free_index (slots t) mn"
  have free: "slot_at (slots t) ?i = None"
    using lowest_free_index_spec by blast
  show "srefs (slots t') e = srefs (slots t) e + count_list (obj_eps obj) e"
    using assms free srefs_update[of ?i "slots t" "Some obj" e]
    by (auto simp: fd_alloc_def Let_def slot_at_def split: if_splits)
  show "set (slots t') \<subseteq> insert None (insert (Some obj) (set (slots t)))"
    using assms set_update_subset_insert[of "slots t" ?i "Some obj"]
    by (auto simp: fd_alloc_def Let_def push_none_until_def split: if_splits)
qed

lemma srefs_fd_set:
  assumes "fd_set fd obj t = (old, t')"
  shows "srefs (slots t') e + orefs old e = srefs (slots t) e + count_list (obj_eps obj) e"
    and "set (slots t') \<subseteq> insert None (insert (Some obj) (set (slots t)))"
    and "orefs old e \<le> srefs (slots t) e"
proof -
  let ?ss = "push_none_until (unat fd + 1) (slots t)"
  have o: "old = ?ss ! unat fd" "slots t' = ?ss[unat fd := Some obj]"
    using assms by (auto simp: fd_set_def Let_def)
  show "srefs (slots t') e + orefs old e = srefs (slots t) e + count_list (obj_eps obj) e"
    using srefs_update[of "unat fd" ?ss "Some obj" e] by (simp add: o)
  show "orefs old e \<le> srefs (slots t) e"
    using srefs_ge[of "unat fd" ?ss e] by (simp add: o)
  show "set (slots t') \<subseteq> insert None (insert (Some obj) (set (slots t)))"
    using set_update_subset_insert[of ?ss "unat fd" "Some obj"] by (auto simp: o push_none_until_def)
qed

lemma srefs_fd_close:
  assumes "fd_close fd t = (Inr u, t')"
  obtains obj where "fd_get fd t = Some obj" "Some obj \<in> set (slots t)"
    "\<And>e. srefs (slots t') e + count_list (obj_eps obj) e = srefs (slots t) e"
    "set (slots t') \<subseteq> insert None (set (slots t))"
proof -
  obtain obj where o: "unat fd < length (slots t)" "slots t ! unat fd = Some obj"
    "slots t' = (slots t)[unat fd := None]"
    using assms by (auto simp: fd_close_def split: if_splits)
  show thesis
  proof (rule that[of obj])
    show "fd_get fd t = Some obj"
      using o by (simp add: fd_get_def)
    show "Some obj \<in> set (slots t)"
      using o by (metis nth_mem)
    show "srefs (slots t') e + count_list (obj_eps obj) e = srefs (slots t) e" for e
      using srefs_update[OF o(1), of None e] by (simp add: o)
    show "set (slots t') \<subseteq> insert None (set (slots t))"
      unfolding o(3) by (rule set_update_subset_insert)
  qed
qed

subsection \<open>The ownership invariant\<close>

text \<open>
  \<open>X e\<close> counts the references to endpoint \<open>e\<close> from outside the table: other processes, and the
  objects an operation holds in flight.
\<close>

definition fd_inv :: "(nat \<Rightarrow> bool \<Rightarrow> nat) \<Rightarrow> (nat \<Rightarrow> nat) \<Rightarrow> fd_heap \<Rightarrow> fd_table \<Rightarrow> bool" where
  "fd_inv D X h t \<longleftrightarrow> heap_wf D h \<and> (\<forall>e. rc h e = srefs (tslot_list t) e + X e)
     \<and> (\<forall>obj \<in> table_objs t. obj_ok h obj)"

definition held :: "(nat \<Rightarrow> nat) \<Rightarrow> nat list \<Rightarrow> nat \<Rightarrow> nat" where
  "held X es e = X e + count_list es e"

lemma held_Nil [simp]: "held X [] = X"
  by (simp add: held_def fun_eq_iff)

lemma fd_invD_ext:
  assumes "fd_inv D X h t" "heap_wf D' h'" "\<And>e. rc h' e = srefs (tslot_list t) e + X' e" "heap_ext h h'"
  shows "fd_inv D' X' h' t"
  using assms by (auto simp: fd_inv_def intro: obj_ok_ext)

lemma table_objs_get: "table_get fd t = Some obj \<Longrightarrow> obj \<in> table_objs t"
  by (auto simp: table_get_def fd_get_def table_objs_def in_set_conv_nth split: if_splits)

lemma obj_refs_le: "obj \<in> table_objs t \<Longrightarrow> count_list (obj_eps obj) e \<le> srefs (tslot_list t) e"
  using srefs_ge[of _ "tslot_list t" e] by (fastforce simp: table_objs_def in_set_conv_nth)

lemma fd_inv_clone:
  assumes inv: "fd_inv D X h t" and o: "obj \<in> table_objs t" and d: "dup_clone obj h = (obj', h')"
  shows "obj' = obj" and "fd_inv D (held X (obj_eps obj)) h' t" and "heap_ext h h'" and "obj_ok h' obj"
proof -
  have h': "h' = fold arc_clone (obj_eps obj) h" and "obj' = obj"
    using d by (auto simp: dup_clone_fold)
  then show "obj' = obj" by simp
  have "0 < rc h e" if "e \<in> set (obj_eps obj)" for e
  proof -
    have "0 < count_list (obj_eps obj) e"
      using that by (metis count_list_0_iff gr0I)
    then show ?thesis
      using inv obj_refs_le[OF o, of e] by (simp add: fd_inv_def)
  qed
  then have f: "heap_wf D h'" "\<And>e. rc h' e = rc h e + count_list (obj_eps obj) e" and x: "heap_ext h h'"
    using fold_arc_clone[of D h "obj_eps obj"] inv by (auto simp: h' fd_inv_def)
  show "fd_inv D (held X (obj_eps obj)) h' t"
    using inv f by (intro fd_invD_ext[OF inv _ _ x]) (auto simp: fd_inv_def held_def)
  show "heap_ext h h'" by (fact x)
  show "obj_ok h' obj"
    using inv o x by (auto simp: fd_inv_def intro: obj_ok_ext)
qed

lemma fd_inv_fold_drop:
  assumes inv: "fd_inv D (held X es) h t"
  shows "fd_inv D X (fold arc_drop es h) t" and "heap_ext h (fold arc_drop es h)"
proof -
  have "count_list es e \<le> rc h e" for e
    using inv by (simp add: fd_inv_def held_def)
  then have f: "heap_wf D (fold arc_drop es h)" "\<And>e. rc (fold arc_drop es h) e = rc h e - count_list es e"
    and x: "heap_ext h (fold arc_drop es h)"
    using fold_arc_drop[of D h es] inv by (auto simp: fd_inv_def)
  show "fd_inv D X (fold arc_drop es h) t"
    using inv f by (intro fd_invD_ext[OF inv _ _ x]) (auto simp: fd_inv_def held_def)
  show "heap_ext h (fold arc_drop es h)" by (fact x)
qed

lemmas fd_inv_drop = fd_inv_fold_drop[of _ _ "obj_eps obj" for obj, folded obj_drop_fold]

lemma fd_inv_move_in:
  assumes inv: "fd_inv D (held X (obj_eps obj)) h t" and ok: "obj_ok h obj"
    and s: "\<And>e. srefs (slots s) e = srefs (tslot_list t) e + count_list (obj_eps obj) e"
    and sub: "set (slots s) \<subseteq> insert None (insert (Some obj) (set (tslot_list t)))"
  shows "fd_inv D X h (t\<lparr>tslots := s, cloexec := c\<rparr>)"
  using inv ok s sub by (auto simp: fd_inv_def held_def table_objs_def)

lemma fd_inv_alloc:
  assumes "fd_inv D (held X (obj_eps obj)) h t" "obj_ok h obj" "fd_alloc mn obj (tslots t) = (fd, s)"
  shows "fd_inv D X h (t\<lparr>tslots := s, cloexec := c\<rparr>)"
  using fd_inv_move_in[OF assms(1,2) srefs_fd_alloc[OF assms(3)]] .

lemma fd_inv_table_alloc:
  assumes "fd_inv D (held X (obj_eps obj)) h t" "obj_ok h obj" "table_alloc obj t = (fd, t')"
  shows "fd_inv D X h t'"
proof -
  obtain s where s: "fd_alloc FIRST_DYNAMIC_FD obj (tslots t) = (fd, s)" "t' = t\<lparr>tslots := s, cloexec := cloexec t - {fd}\<rparr>"
    using assms(3) by (auto simp: table_alloc_def split: prod.splits)
  show ?thesis
    unfolding s(2) by (rule fd_inv_alloc[OF assms(1,2) s(1)])
qed

lemma fd_inv_close:
  assumes inv: "fd_inv D X h t" and c: "fd_close fd (tslots t) = (Inr u, s)"
  obtains obj where "table_get fd t = Some obj" "\<And>c. fd_inv D (held X (obj_eps obj)) h (t\<lparr>tslots := s, cloexec := c\<rparr>)"
    "fd_inv D (held X (obj_eps obj)) h (t\<lparr>tslots := s\<rparr>)"
proof -
  obtain obj where o: "fd_get fd (tslots t) = Some obj"
    "\<And>e. srefs (slots s) e + count_list (obj_eps obj) e = srefs (tslot_list t) e"
    "set (slots s) \<subseteq> insert None (set (tslot_list t))"
    by (rule srefs_fd_close[OF c]) blast
  have "rc h e = srefs (slots s) e + held X (obj_eps obj) e" for e
    using inv o(2)[of e] by (simp add: fd_inv_def held_def)
  moreover have "\<forall>obj. Some obj \<in> set (slots s) \<longrightarrow> obj_ok h obj"
    using inv o(3) by (auto simp: fd_inv_def table_objs_def)
  ultimately show thesis
    using inv o(1) by (intro that[of obj]) (auto simp: fd_inv_def table_objs_def table_get_def)
qed

lemma fd_inv_set:
  assumes inv: "fd_inv D (held X (obj_eps obj)) h t" and ok: "obj_ok h obj"
    and s: "fd_set fd obj (tslots t) = (old, s)"
  shows "fd_inv D (held X (case old of Some o' \<Rightarrow> obj_eps o' | None \<Rightarrow> [])) h (t\<lparr>tslots := s, cloexec := c\<rparr>)"
proof -
  note r = srefs_fd_set[OF s]
  have "rc h e = srefs (slots s) e + held X (case old of Some o' \<Rightarrow> obj_eps o' | None \<Rightarrow> []) e" for e
    using inv r(1)[of e] by (cases old) (simp_all add: fd_inv_def held_def)
  moreover have "\<forall>obj. Some obj \<in> set (slots s) \<longrightarrow> obj_ok h obj"
    using inv ok r(2) by (auto simp: fd_inv_def table_objs_def)
  ultimately show ?thesis
    using inv by (simp add: fd_inv_def table_objs_def)
qed

lemma fd_inv_pipe_new:
  assumes inv: "fd_inv D X h t" and z: "D (length (pipes h)) = (\<lambda>r. 0)" and n: "pipe_new h = (q, h')"
  shows "fd_inv (D(q := (\<lambda>r. 1))) X h' t" and "heap_ext h h'" and "q = length (pipes h)"
    and "length (pipes h') = Suc q"
proof -
  have "heap_wf D h"
    using inv by (simp add: fd_inv_def)
  note p = pipe_new_wf[OF this z n]
  then show "heap_ext h h'" "q = length (pipes h)" "length (pipes h') = Suc q"
    by simp_all
  show "fd_inv (D(q := (\<lambda>r. 1))) X h' t"
    using inv by (intro fd_invD_ext[OF inv p(1) _ p(4)]) (simp add: p(3) fd_inv_def)
qed

lemma fd_inv_arc_new:
  assumes inv: "fd_inv D X h t" and p: "ep_state ep < length (pipes h)"
    and d: "0 < D (ep_state ep) (read_end ep)" and n: "arc_new ep h = (e, h')"
  shows "fd_inv (D(ep_state ep := (D (ep_state ep))(read_end ep := D (ep_state ep) (read_end ep) - 1)))
      (held X [e]) h' t"
    and "heap_ext h h'" and "ep_of h' e = ep" and "e < length (arcs h')" and "pipes h' = pipes h"
proof -
  have "heap_wf D h"
    using inv by (simp add: fd_inv_def)
  note a = arc_new_wf[OF this p d n]
  then show "heap_ext h h'" "ep_of h' e = ep" "e < length (arcs h')" "pipes h' = pipes h"
    by simp_all
  have "rc h' e' = srefs (tslot_list t) e' + held X [e] e'" for e'
    using inv a(6) by (auto simp: a(3) fd_inv_def held_def)
  then show "fd_inv (D(ep_state ep := (D (ep_state ep))(read_end ep := D (ep_state ep) (read_end ep) - 1)))
      (held X [e]) h' t"
    by (intro fd_invD_ext[OF inv a(1) _ a(5)])
qed

lemma held_held: "held (held X es) es' = held X (es @ es')"
  by (simp add: held_def fun_eq_iff)

lemma held_swap: "held X (es @ es') = held X (es' @ es)"
  by (simp add: held_def fun_eq_iff)

lemma fd_inv_bump:
  assumes inv: "fd_inv D X h t" and p: "p < length (pipes h)"
    and s': "s' = (if r then (pipes h ! p)\<lparr>readers := readers (pipes h ! p) + 1\<rparr>
                  else (pipes h ! p)\<lparr>writers := writers (pipes h ! p) + 1\<rparr>)"
  shows "fd_inv (D(p := (D p)(r := D p r + 1))) X (set_pipe p s' h) t" and "heap_ext h (set_pipe p s' h)"
proof -
  have b: "pbytes s' = pbytes (pipes h ! p)" "side s' r' = side (pipes h ! p) r' + of_bool (r' = r)" for r'
    by (auto simp: s' side_def)
  show x: "heap_ext h (set_pipe p s' h)"
    using p by (auto simp: heap_ext_def set_pipe_def ep_of_def nth_list_update b)
  have "heap_wf (D(p := (D p)(r := D p r + 1))) (set_pipe p s' h)"
    using inv p by (auto simp: fd_inv_def heap_wf_def set_pipe_def ep_of_def ends_def nth_list_update b)
  then show "fd_inv (D(p := (D p)(r := D p r + 1))) X (set_pipe p s' h) t"
    using inv by (intro fd_invD_ext[OF inv _ _ x]) (simp_all add: fd_inv_def)
qed

lemma fd_inv_with_nonblocking:
  assumes inv: "fd_inv D X h t" and e: "0 < rc h e" and w: "with_nonblocking e on h = (e', h')"
  shows "fd_inv D (held X [e']) h' t" and "heap_ext h h'" and "e' < length (arcs h')"
    and "read_end (ep_of h' e') = read_end (ep_of h e)"
proof -
  note lt = rc_pos_length[OF e]
  have wf: "heap_wf D h"
    using inv by (simp add: fd_inv_def)
  have "fd_inv D (held X [e']) h' t \<and> heap_ext h h' \<and> e' < length (arcs h')
        \<and> read_end (ep_of h' e') = read_end (ep_of h e)"
  proof (cases "nonblocking (ep_of h e) = on")
    case True
    then have w': "e' = e" "h' = arc_clone e h"
      using w by (auto simp: with_nonblocking_def)
    note c = arc_clone_wf[OF wf e]
    have "fd_inv D (held X [e']) h' t"
      unfolding w' using inv by (intro fd_invD_ext[OF inv c(1) _ c(3)]) (auto simp: c(2) fd_inv_def held_def)
    then show "fd_inv D (held X [e']) h' t \<and> heap_ext h h' \<and> e' < length (arcs h')
        \<and> read_end (ep_of h' e') = read_end (ep_of h e)"
      using c(3) lt by (auto simp: w' heap_ext_def)
  next
    case False
    let ?p = "ep_state (ep_of h e)" and ?r = "read_end (ep_of h e)"
    let ?s = "if ?r then (pipes h ! ?p)\<lparr>readers := readers (pipes h ! ?p) + 1\<rparr>
              else (pipes h ! ?p)\<lparr>writers := writers (pipes h ! ?p) + 1\<rparr>"
    have p: "?p < length (pipes h)"
      using wf lt by (simp add: heap_wf_def)
    note b = fd_inv_bump[OF inv p, of ?s ?r, OF refl]
    have w': "arc_new ((ep_of h e)\<lparr>nonblocking := on\<rparr>) (set_pipe ?p ?s h) = (e', h')"
      using w False by (simp add: with_nonblocking_def pipe_of_def Let_def)
    have "?p < length (pipes (set_pipe ?p ?s h))"
      using p by (simp add: set_pipe_def)
    note a = fd_inv_arc_new[OF b(1) _ _ w', simplified, OF this]
    show "fd_inv D (held X [e']) h' t \<and> heap_ext h h' \<and> e' < length (arcs h')
        \<and> read_end (ep_of h' e') = read_end (ep_of h e)"
      using a heap_ext_trans[OF b(2) a(2)] by simp
  qed
  then show "fd_inv D (held X [e']) h' t" and "heap_ext h h'" and "e' < length (arcs h')"
    and "read_end (ep_of h' e') = read_end (ep_of h e)"
    by simp_all
qed

subsection \<open>Every operation keeps the invariant\<close>

abbreviation settled :: "nat \<Rightarrow> bool \<Rightarrow> nat" where
  "settled \<equiv> \<lambda>p r. 0"

lemma table_close_inv:
  assumes inv: "fd_inv settled X h t" and c: "table_close fd h t = (r, h', t')"
  shows "fd_inv settled X h' t' \<and> heap_ext h h'"
proof (cases "fst (fd_close fd (tslots t))")
  case (Inl e)
  then obtain s where s: "fd_close fd (tslots t) = (Inl BadFd, s)"
    by (cases "fd_close fd (tslots t)", cases e) auto
  then have "s = tslots t"
    using fd_close_spec(1)[OF s] by simp
  then show ?thesis
    using c inv by (simp add: table_close_def s)
next
  case (Inr u)
  then obtain s where s: "fd_close fd (tslots t) = (Inr u, s)"
    by (cases "fd_close fd (tslots t)") auto
  obtain obj where o: "table_get fd t = Some obj"
    "\<And>c. fd_inv settled (held X (obj_eps obj)) h (t\<lparr>tslots := s, cloexec := c\<rparr>)"
    by (rule fd_inv_close[OF inv s], rule that)
  show ?thesis
    using c fd_inv_drop[OF o(2)] by (auto simp: table_close_def s o(1))
qed

lemma dup_min_inv:
  assumes inv: "fd_inv settled X h t" and d: "dup_min oldfd mn h t = (r, h', t')"
  shows "fd_inv settled X h' t' \<and> heap_ext h h'"
proof (cases "table_get oldfd t")
  case None
  then show ?thesis using d inv by (simp add: dup_min_def)
next
  case (Some obj)
  obtain obj' h1 where h1: "dup_clone obj h = (obj', h1)" by fastforce
  note c = fd_inv_clone[OF inv table_objs_get[OF Some] h1]
  obtain fd s where s: "fd_alloc (unat mn) obj (tslots t) = (fd, s)" by fastforce
  show ?thesis
    using d c fd_inv_alloc[OF c(2,4) s] by (auto simp: dup_min_def Some h1 s Let_def)
qed

lemma dup_to_inv:
  assumes inv: "fd_inv settled X h t" and d: "dup_to oldfd newfd h t = (r, h', t')"
  shows "fd_inv settled X h' t' \<and> heap_ext h h'"
proof (cases "table_get oldfd t")
  case None
  then show ?thesis using d inv by (simp add: dup_to_def)
next
  case (Some obj)
  obtain obj' h1 where h1: "dup_clone obj h = (obj', h1)" by fastforce
  note c = fd_inv_clone[OF inv table_objs_get[OF Some] h1]
  obtain old s where s: "fd_set newfd obj (tslots t) = (old, s)" by fastforce
  note st = fd_inv_set[OF c(2,4) s, of "cloexec t - {newfd}"]
  show ?thesis
  proof (cases old)
    case None
    then show ?thesis
      using d c(1,3) st by (auto simp: dup_to_def Some h1 s Let_def)
  next
    case (Some o')
    note dr = fd_inv_drop[OF st[unfolded Some option.case]]
    then show ?thesis
      using d c(1) heap_ext_trans[OF c(3) dr(2)] \<open>table_get oldfd t = Some obj\<close>
      by (auto simp: dup_to_def h1 s Let_def Some)
  qed
qed

lemma close_each_inv:
  assumes "fd_inv settled X h t" "close_each fds h t = (h', t')"
  shows "fd_inv settled X h' t' \<and> heap_ext h h'"
  using assms
proof (induction fds h t rule: close_each.induct)
  case (2 fd fds h t)
  show ?case
  proof (cases "fst (fd_close fd (tslots t))")
    case (Inl e)
    then obtain s where s: "fd_close fd (tslots t) = (Inl e, s)"
      by (cases "fd_close fd (tslots t)") auto
    then have "s = tslots t"
      using fd_close_spec(1)[OF s] by simp
    with 2 s show ?thesis by simp
  next
    case (Inr u)
    then obtain s where s: "fd_close fd (tslots t) = (Inr u, s)"
      by (cases "fd_close fd (tslots t)") auto
    obtain obj where o: "table_get fd t = Some obj"
      "fd_inv settled (held X (obj_eps obj)) h (t\<lparr>tslots := s\<rparr>)"
      by (rule fd_inv_close[OF "2.prems"(1) s], rule that)
    note d = fd_inv_drop[OF o(2)]
    show ?thesis
      using "2.IH"(2)[OF s[symmetric] refl] "2.prems"(2) d s o(1) by (auto intro: heap_ext_trans)
  qed
qed simp

lemma close_cloexec_inv:
  assumes "fd_inv settled X h t" "close_cloexec h t = (h', t')"
  shows "fd_inv settled X h' t' \<and> heap_ext h h'"
proof (rule close_each_inv)
  show "close_each (sorted_list_of_set (cloexec t)) h (t\<lparr>cloexec := {}\<rparr>) = (h', t')"
    using assms(2) by (simp add: close_cloexec_def)
  show "fd_inv settled X h (t\<lparr>cloexec := {}\<rparr>)"
    using assms(1) by (simp add: fd_inv_def table_objs_def)
qed

definition owe :: "(nat \<Rightarrow> bool \<Rightarrow> nat) \<Rightarrow> nat \<Rightarrow> nat \<Rightarrow> bool \<Rightarrow> nat" where
  "owe D q p r = D p r + of_bool (p = q)"

definition pay :: "(nat \<Rightarrow> bool \<Rightarrow> nat) \<Rightarrow> nat \<Rightarrow> bool \<Rightarrow> nat \<Rightarrow> bool \<Rightarrow> nat" where
  "pay D q x p r = D p r - of_bool (p = q \<and> r = x)"

lemma fd_inv_owe:
  assumes "fd_inv D X h t" "D (length (pipes h)) = (\<lambda>r. 0)" "pipe_new h = (q, h')"
  shows "fd_inv (owe D q) X h' t"
proof -
  have "D(q := (\<lambda>r. 1)) = owe D q"
    using assms(2) fd_inv_pipe_new(3)[OF assms] by (auto simp: fun_eq_iff owe_def)
  then show ?thesis
    using fd_inv_pipe_new(1)[OF assms] by simp
qed

lemma fd_inv_pay:
  assumes "fd_inv D X h t" "q < length (pipes h)" "0 < D q x"
    and n: "arc_new \<lparr>ep_state = q, read_end = x, nonblocking = nb\<rparr> h = (e, h')"
  shows "fd_inv (pay D q x) (held X [e]) h' t" "heap_ext h h'" "read_end (ep_of h' e) = x"
    "e < length (arcs h')" "pipes h' = pipes h"
proof -
  note a = fd_inv_arc_new[OF assms(1) _ _ n, simplified, OF assms(2,3)]
  have "D(q := (D q)(x := D q x - Suc 0)) = pay D q x"
    by (auto simp: fun_eq_iff pay_def)
  then show "fd_inv (pay D q x) (held X [e]) h' t" "heap_ext h h'" "read_end (ep_of h' e) = x"
    "e < length (arcs h')" "pipes h' = pipes h"
    using a by simp_all
qed

lemma heap_ext_ep:
  "heap_ext h h' \<Longrightarrow> e < length (arcs h) \<Longrightarrow> read_end (ep_of h e) = x \<Longrightarrow>
   e < length (arcs h') \<and> read_end (ep_of h' e) = x"
  by (auto simp: heap_ext_def)

lemma fd_inv_length: "fd_inv D X h (t\<lparr>cloexec := c\<rparr>) = fd_inv D X h t"
  by (simp add: fd_inv_def table_objs_def)

lemma table_pipe_inv:
  assumes inv: "fd_inv settled X h t" and c: "table_pipe nb h t = (r, h', t')"
  shows "fd_inv settled X h' t' \<and> heap_ext h h'"
proof -
  obtain q h1 where h1: "pipe_new h = (q, h1)" by fastforce
  obtain e h2 where h2: "arc_new \<lparr>ep_state = q, read_end = True, nonblocking = nb\<rparr> h1 = (e, h2)" by fastforce
  obtain e' h3 where h3: "arc_new \<lparr>ep_state = q, read_end = False, nonblocking = nb\<rparr> h2 = (e', h3)" by fastforce
  obtain rfd t1 where t1: "table_alloc (PipeRead e) t = (rfd, t1)" by fastforce
  obtain wfd t2 where t2: "table_alloc (PipeWrite e') t1 = (wfd, t2)" by fastforce
  note p = fd_inv_pipe_new[OF inv refl h1] and o = fd_inv_owe[OF inv refl h1]
  have q: "q < length (pipes h1)" using p by simp
  have "0 < owe settled q q True"
    by (simp add: owe_def)
  note a = fd_inv_pay[OF o q this h2]
  have "0 < pay (owe settled q) q True q False" "q < length (pipes h2)"
    using q by (simp_all add: owe_def pay_def a(5))
  note b = fd_inv_pay[OF a(1) this(2,1) h3]
  have "pay (pay (owe settled q) q True) q False = settled"
    by (auto simp: fun_eq_iff pay_def owe_def)
  moreover have "held (held X [e]) [e'] = held (held X [e']) [e]"
    by (auto simp: held_def fun_eq_iff)
  ultimately have i3: "fd_inv settled (held (held X (obj_eps (PipeWrite e'))) (obj_eps (PipeRead e))) h3 t"
    using b(1) by (simp add: obj_eps_def)
  have ok: "obj_ok h3 (PipeRead e)" "obj_ok h3 (PipeWrite e')"
    using heap_ext_ep[OF b(2) a(4,3)] b(3,4) by (simp_all add: obj_ok_def reads_def writes_def)
  have "fd_inv settled X h3 t2"
    by (rule fd_inv_table_alloc[OF fd_inv_table_alloc[OF i3 ok(1) t1] ok(2) t2])
  then show ?thesis
    using c heap_ext_trans[OF p(2) heap_ext_trans[OF a(2) b(2)]]
    by (auto simp: table_pipe_def h1 h2 h3 t1 t2)
qed

lemma socket_endpoints_inv:
  assumes inv: "fd_inv settled X h t" and c: "socket_pair_endpoints nb nb' h = (((e1, e2), (e3, e4)), h')"
  shows "fd_inv settled (held (held X (obj_eps (Socket e3 e4))) (obj_eps (Socket e1 e2))) h' t"
    and "heap_ext h h'" and "obj_ok h' (Socket e1 e2)" and "obj_ok h' (Socket e3 e4)"
proof -
  obtain q1 h1 where h1: "pipe_new h = (q1, h1)" by fastforce
  obtain q2 h2 where h2: "pipe_new h1 = (q2, h2)" by fastforce
  obtain f1 h3 where h3: "arc_new \<lparr>ep_state = q2, read_end = True, nonblocking = nb\<rparr> h2 = (f1, h3)" by fastforce
  obtain f2 h4 where h4: "arc_new \<lparr>ep_state = q1, read_end = False, nonblocking = nb\<rparr> h3 = (f2, h4)" by fastforce
  obtain f3 h5 where h5: "arc_new \<lparr>ep_state = q1, read_end = True, nonblocking = nb'\<rparr> h4 = (f3, h5)" by fastforce
  obtain f4 h6 where h6: "arc_new \<lparr>ep_state = q2, read_end = False, nonblocking = nb'\<rparr> h5 = (f4, h6)" by fastforce
  have e: "e1 = f1" "e2 = f2" "e3 = f3" "e4 = f4" "h' = h6"
    using c by (simp_all add: socket_pair_endpoints_def h1 h2 h3 h4 h5 h6)
  note p1 = fd_inv_pipe_new[OF inv refl h1] and o1 = fd_inv_owe[OF inv refl h1]
  have "owe settled q1 (length (pipes h1)) = (\<lambda>r. 0)"
    using p1 by (simp add: owe_def fun_eq_iff)
  note p2 = fd_inv_pipe_new[OF o1 this h2] and o2 = fd_inv_owe[OF o1 this h2]
  have q: "q1 < length (pipes h2)" "q2 < length (pipes h2)" "q1 \<noteq> q2"
    using p1 p2 by simp_all
  let ?D2 = "owe (owe settled q1) q2"
  note D = owe_def pay_def
  have "0 < ?D2 q2 True"
    by (simp add: D)
  note a1 = fd_inv_pay[OF o2 q(2) this h3]
  let ?D3 = "pay ?D2 q2 True"
  have "0 < ?D3 q1 False" "q1 < length (pipes h3)"
    using q by (simp_all add: D a1(5))
  note a2 = fd_inv_pay[OF a1(1) this(2,1) h4]
  let ?D4 = "pay ?D3 q1 False"
  have "0 < ?D4 q1 True" "q1 < length (pipes h4)"
    using q by (simp_all add: D a1(5) a2(5))
  note a3 = fd_inv_pay[OF a2(1) this(2,1) h5]
  let ?D5 = "pay ?D4 q1 True"
  have "0 < ?D5 q2 False" "q2 < length (pipes h5)"
    using q by (simp_all add: D a1(5) a2(5) a3(5))
  note a4 = fd_inv_pay[OF a3(1) this(2,1) h6]
  have "pay ?D5 q2 False = settled"
    using q(3) by (auto simp: fun_eq_iff D)
  moreover have "held (held (held (held X [f1]) [f2]) [f3]) [f4] = held (held X [f3, f4]) [f1, f2]"
    by (auto simp: held_def fun_eq_iff)
  ultimately show "fd_inv settled (held (held X (obj_eps (Socket e3 e4))) (obj_eps (Socket e1 e2))) h' t"
    using a4(1) by (simp add: e obj_eps_def)
  note x5 = a4(2) and x4 = heap_ext_trans[OF a3(2) a4(2)]
  note x3 = heap_ext_trans[OF a2(2) x4]
  show "heap_ext h h'"
    unfolding e using heap_ext_trans[OF p1(2) heap_ext_trans[OF p2(2) heap_ext_trans[OF a1(2) x3]]] .
  show "obj_ok h' (Socket e1 e2)" "obj_ok h' (Socket e3 e4)"
    using heap_ext_ep[OF x3 a1(4,3)] heap_ext_ep[OF x4 a2(4,3)] heap_ext_ep[OF x5 a3(4,3)] a4(3,4)
    by (simp_all add: e obj_ok_def reads_def writes_def)
qed

lemma socketpair_inv:
  assumes inv: "fd_inv settled X h t" and c: "socketpair nb h t = (r, h', t')"
  shows "fd_inv settled X h' t' \<and> heap_ext h h'"
proof -
  obtain e1 e2 e3 e4 h1 where h1: "socket_pair_endpoints nb nb h = (((e1, e2), (e3, e4)), h1)"
    by (metis surj_pair)
  obtain fa t1 where t1: "table_alloc (Socket e1 e2) t = (fa, t1)" by fastforce
  obtain fb t2 where t2: "table_alloc (Socket e3 e4) t1 = (fb, t2)" by fastforce
  have e: "h' = h1" "t' = t2"
    using c h1 t1 t2 by (auto simp: socketpair_def socket_pair_endpoints_def Let_def split: prod.splits)
  note s = socket_endpoints_inv[OF inv h1]
  show ?thesis
    using fd_inv_table_alloc[OF fd_inv_table_alloc[OF s(1,3) t1] s(4) t2] s(2) by (simp add: e)
qed

lemma fd_inv_replace:
  assumes inv: "fd_inv D (held X (obj_eps obj')) h t" and g: "table_get fd t = Some obj" and ok: "obj_ok h obj'"
  shows "fd_inv D (held X (obj_eps obj)) h
    (t\<lparr>tslots := (tslots t)\<lparr>slots := (tslot_list t)[unat fd := Some obj']\<rparr>\<rparr>)"
proof -
  have i: "unat fd < length (tslot_list t)" "tslot_list t ! unat fd = Some obj"
    using g by (auto simp: table_get_def fd_get_def split: if_splits)
  have "rc h e = srefs ((tslot_list t)[unat fd := Some obj']) e + held X (obj_eps obj) e" for e
    using inv srefs_update[OF i(1), of "Some obj'" e] by (simp add: i(2) fd_inv_def held_def)
  then show ?thesis
    using inv ok set_update_subset_insert[of "tslot_list t" "unat fd" "Some obj'"]
    by (auto simp: fd_inv_def table_objs_def)
qed

lemma fd_inv_rc_pos: "fd_inv D X h t \<Longrightarrow> obj \<in> table_objs t \<Longrightarrow> e \<in> set (obj_eps obj) \<Longrightarrow> 0 < rc h e"
  using obj_refs_le[of obj t e] count_list_0_iff[of "obj_eps obj" e] by (auto simp: fd_inv_def)

lemma set_nonblock_inv:
  assumes inv: "fd_inv settled X h t" and c: "set_nonblock fd on h t = (r, h', t')"
  shows "fd_inv settled X h' t' \<and> heap_ext h h'"
proof (cases "table_get fd t")
  case None
  then show ?thesis using c inv by (simp add: set_nonblock_def)
next
  case (Some obj)
  note o = table_objs_get[OF Some]
  have ok: "obj_ok h obj"
    using inv o by (simp add: fd_inv_def)
  note pos = fd_inv_rc_pos[OF inv o]
  let ?upd = "\<lambda>obj'. t\<lparr>tslots := (tslots t)\<lparr>slots := (tslot_list t)[unat fd := Some obj']\<rparr>\<rparr>"
  have finish: "fd_inv settled X (obj_drop obj h1) (?upd obj') \<and> heap_ext h (obj_drop obj h1)"
    if "fd_inv settled (held X (obj_eps obj')) h1 t" "heap_ext h h1" "obj_ok h1 obj'" for h1 obj'
    using fd_inv_drop[OF fd_inv_replace[OF that(1) Some that(3)]] heap_ext_trans[OF that(2)] by blast
  have same: "fd_inv settled X h (?upd obj') \<and> heap_ext h h" if "obj_eps obj' = []" "obj_eps obj = []" "obj_ok h obj'" for obj'
    using fd_inv_replace[of settled X obj' h t fd obj] that inv Some by simp
  consider (pr) e where "obj = PipeRead e" | (pw) e where "obj = PipeWrite e" | (so) rx tx where "obj = Socket rx tx"
    | (un) nb where "obj = UnixSocketUnbound nb" | (other) "obj_eps obj = []" "\<forall>nb. obj \<noteq> UnixSocketUnbound nb"
    by (cases obj) (auto simp: obj_eps_def)
  then show ?thesis
  proof cases
    case pr
    obtain e' h1 where w: "with_nonblocking e on h = (e', h1)" by fastforce
    note n = fd_inv_with_nonblocking[OF inv pos w]
    show ?thesis
      using c Some pr w finish[of "PipeRead e'" h1] n ok
      by (auto simp: set_nonblock_def obj_eps_def obj_drop_def obj_ok_def reads_def writes_def)
  next
    case pw
    obtain e' h1 where w: "with_nonblocking e on h = (e', h1)" by fastforce
    note n = fd_inv_with_nonblocking[OF inv pos w]
    show ?thesis
      using c Some pw w finish[of "PipeWrite e'" h1] n ok
      by (auto simp: set_nonblock_def obj_eps_def obj_drop_def obj_ok_def reads_def writes_def)
  next
    case so
    obtain e1 h1 where w1: "with_nonblocking rx on h = (e1, h1)" by fastforce
    obtain e2 h2 where w2: "with_nonblocking tx on h1 = (e2, h2)" by fastforce
    have "0 < rc h rx"
      using pos so by (simp add: obj_eps_def)
    note n1 = fd_inv_with_nonblocking[OF inv this w1]
    have "0 < rc h1 tx"
      using fd_inv_rc_pos[OF n1(1) o] so by (simp add: obj_eps_def)
    note n2 = fd_inv_with_nonblocking[OF n1(1) this w2]
    have "obj_ok h2 (Socket e1 e2)"
      using heap_ext_ep[OF n2(2) n1(3,4)] n2(3,4) n1(2) ok so
      by (auto simp: obj_ok_def reads_def writes_def heap_ext_def)
    moreover have "held (held X [e1]) [e2] = held X (obj_eps (Socket e1 e2))"
      by (simp add: held_def fun_eq_iff obj_eps_def)
    ultimately show ?thesis
      using c Some so w1 w2 finish[of "Socket e1 e2" h2] n2(1) heap_ext_trans[OF n1(2) n2(2)]
      by (auto simp: set_nonblock_def obj_drop_def)
  next
    case un
    show ?thesis
      using c Some un same[of "UnixSocketUnbound on"]
      by (auto simp: set_nonblock_def obj_eps_def obj_ok_def reads_def writes_def)
  next
    case other
    have "(case obj of PipeRead e \<Rightarrow> a e | PipeWrite e \<Rightarrow> b e | Socket rx tx \<Rightarrow> cc rx tx
        | UnixSocketUnbound nb \<Rightarrow> d nb | _ \<Rightarrow> (obj, h)) = (obj, h)" for a b cc d
      using other by (cases obj) (auto simp: obj_eps_def)
    then show ?thesis
      using c Some same[of obj] other(1) ok by (simp add: set_nonblock_def)
  qed
qed

end
