(* ===== verification/UnixSock.thy ===== *)
theory UnixSock
  imports FdCorrect
begin

unbundle bit_operations_syntax

text \<open>
  AF_UNIX stream sockets, \<^verbatim>\<open>src/src/arch/x86_64/linux/unix_sock.rs\<close>, and the clones of endpoints that
  a running system call holds (\<^verbatim>\<open>resolve_fd\<close> of \<^verbatim>\<open>io_sys.rs\<close>).

  A listener (\<^verbatim>\<open>Arc<UnixListenerState>\<close>) is an index into \<open>listeners\<close>; the object \<open>UnixListener l\<close>
  of a descriptor names it.  The registry \<^verbatim>\<open>LISTENERS\<close> maps a path to the listener bound last.  The
  path and the flags come from user memory and are arguments here.  A queued connection holds the
  two endpoints of the server side.
\<close>

subsection \<open>State\<close>

definition AF_UNIX :: u64 where "AF_UNIX = 1"
definition SOCK_STREAM :: u64 where "SOCK_STREAM = 1"
definition SOCK_TYPE_MASK :: u64 where "SOCK_TYPE_MASK = 0xF"
definition SOCK_NONBLOCK :: u64 where "SOCK_NONBLOCK = 0x800"
definition SOCK_CLOEXEC :: u64 where "SOCK_CLOEXEC = 0x80000"

record unix_listener =
  ul_path :: bytes
  ul_listening :: bool
  ul_nonblocking :: bool
  ul_pending :: "(nat \<times> nat) list"

record unix_state =
  listeners :: "unix_listener list"
  registry :: "bytes \<rightharpoonup> nat"

definition set_slot :: "u32 \<Rightarrow> open_object \<Rightarrow> fd_table \<Rightarrow> fd_table" where
  "set_slot fd obj t = t\<lparr>tslots := (tslots t)\<lparr>slots := (slots (tslots t))[unat fd := Some obj]\<rparr>\<rparr>"

subsection \<open>System calls\<close>

definition sys_socket :: "u64 \<Rightarrow> u64 \<Rightarrow> fd_table \<Rightarrow> (fd_errno + u32) \<times> fd_table" where
  "sys_socket domain ty t =
     (if domain \<noteq> AF_UNIX then (Inl EINVAL, t)
      else if ty AND SOCK_TYPE_MASK \<noteq> SOCK_STREAM then (Inl EINVAL, t)
      else if ty AND NOT (SOCK_TYPE_MASK OR SOCK_NONBLOCK OR SOCK_CLOEXEC) \<noteq> 0 then (Inl EINVAL, t)
      else let (fd, t) = table_alloc (UnixSocketUnbound (ty AND SOCK_NONBLOCK \<noteq> 0)) t
           in (Inr fd, if ty AND SOCK_CLOEXEC \<noteq> 0 then set_cloexec fd True t else t))"

definition listener_new :: "bytes \<Rightarrow> bool \<Rightarrow> unix_listener" where
  "listener_new path nb = \<lparr>ul_path = path, ul_listening = False, ul_nonblocking = nb, ul_pending = []\<rparr>"

definition sys_bind :: "u32 \<Rightarrow> bytes \<Rightarrow> unix_state \<Rightarrow> fd_table \<Rightarrow> (fd_errno + unit) \<times> unix_state \<times> fd_table" where
  "sys_bind fd path u t =
     (case table_get fd t of
        None \<Rightarrow> (Inl EBADF, u, t)
      | Some (UnixSocketUnbound nb) \<Rightarrow>
          let l = length (listeners u)
          in (Inr (), u\<lparr>listeners := listeners u @ [listener_new path nb], registry := (registry u)(path \<mapsto> l)\<rparr>,
              set_slot fd (UnixListener l) t)
      | Some _ \<Rightarrow> (Inl EINVAL, u, t))"

definition upd_listener :: "nat \<Rightarrow> (unix_listener \<Rightarrow> unix_listener) \<Rightarrow> unix_state \<Rightarrow> unix_state" where
  "upd_listener l f u = u\<lparr>listeners := (listeners u)[l := f (listeners u ! l)]\<rparr>"

definition sys_listen :: "u32 \<Rightarrow> unix_state \<Rightarrow> fd_table \<Rightarrow> (fd_errno + unit) \<times> unix_state" where
  "sys_listen fd u t =
     (case table_get fd t of
        Some (UnixListener l) \<Rightarrow> (Inr (), upd_listener l (\<lambda>s. s\<lparr>ul_listening := True\<rparr>) u)
      | Some _ \<Rightarrow> (Inl EINVAL, u)
      | None \<Rightarrow> (Inl EBADF, u))"

text \<open>
  \<^verbatim>\<open>sys_connect\<close> clones the listener out of the registry and releases the registry lock before it
  takes the descriptor table: \<open>connect_to\<close> is what follows.
\<close>

definition connect_to ::
    "nat \<Rightarrow> u32 \<Rightarrow> fd_heap \<Rightarrow> unix_state \<Rightarrow> fd_table \<Rightarrow> (fd_errno + unit) \<times> fd_heap \<times> unix_state \<times> fd_table" where
  "connect_to l fd h u t =
     (case table_get fd t of
        None \<Rightarrow> (Inl EBADF, h, u, t)
      | Some (UnixSocketUnbound nb) \<Rightarrow>
          if \<not> ul_listening (listeners u ! l) then (Inl ENOENT, h, u, t)
          else let (((crx, ctx), server), h) = socket_pair_endpoints nb False h
               in (Inr (), h, upd_listener l (\<lambda>s. s\<lparr>ul_pending := ul_pending s @ [server]\<rparr>) u,
                   set_slot fd (Socket crx ctx) t)
      | Some _ \<Rightarrow> (Inl EINVAL, h, u, t))"

definition sys_connect ::
    "u32 \<Rightarrow> bytes \<Rightarrow> fd_heap \<Rightarrow> unix_state \<Rightarrow> fd_table \<Rightarrow> (fd_errno + unit) \<times> fd_heap \<times> unix_state \<times> fd_table" where
  "sys_connect fd path h u t =
     (case registry u path of None \<Rightarrow> (Inl ENOENT, h, u, t) | Some l \<Rightarrow> connect_to l fd h u t)"

text \<open>
  One round of the loop of \<^verbatim>\<open>sys_accept4\<close>: an error, the new descriptor, or nothing, after which the
  code yields and tries again.  The popped endpoints are dropped at the end of the round; the new
  descriptor holds what \<^verbatim>\<open>with_nonblocking\<close> made of them.
\<close>

definition sys_accept4 ::
    "u32 \<Rightarrow> u64 \<Rightarrow> fd_heap \<Rightarrow> unix_state \<Rightarrow> fd_table \<Rightarrow> (fd_errno + u32 option) \<times> fd_heap \<times> unix_state \<times> fd_table" where
  "sys_accept4 fd flags h u t =
     (if flags AND NOT (SOCK_NONBLOCK OR SOCK_CLOEXEC) \<noteq> 0 then (Inl EINVAL, h, u, t)
      else case table_get fd t of
        Some (UnixListener l) \<Rightarrow>
          (case ul_pending (listeners u ! l) of
             (rx, tx) # rest \<Rightarrow>
               let nb = (flags AND SOCK_NONBLOCK \<noteq> 0);
                   u = upd_listener l (\<lambda>s. s\<lparr>ul_pending := rest\<rparr>) u;
                   (nrx, h) = with_nonblocking rx nb h;
                   (ntx, h) = with_nonblocking tx nb h;
                   (newfd, t) = table_alloc (Socket nrx ntx) t;
                   t = (if flags AND SOCK_CLOEXEC \<noteq> 0 then set_cloexec newfd True t else t)
               in (Inr (Some newfd), arc_drop rx (arc_drop tx h), u, t)
           | [] \<Rightarrow> (if ul_nonblocking (listeners u ! l) then Inl EAGAIN else Inr None, h, u, t))
      | Some _ \<Rightarrow> (Inl EINVAL, h, u, t)
      | None \<Rightarrow> (Inl EBADF, h, u, t))"

text \<open>
  \<^verbatim>\<open>resolve_fd\<close>: the object a call works on, its endpoints cloned for as long as the call runs.
  \<^verbatim>\<open>Resolved\<close> repeats the variants of \<^verbatim>\<open>OpenObject\<close> and clones as \<^verbatim>\<open>dup_clone\<close> does; it takes listeners,
  unbound sockets and epoll descriptors as one variant, which hold no endpoints.
\<close>

definition resolve_fd :: "u32 \<Rightarrow> fd_heap \<Rightarrow> fd_table \<Rightarrow> open_object option \<times> fd_heap" where
  "resolve_fd fd h t =
     (case table_get fd t of
        None \<Rightarrow> (None, h)
      | Some obj \<Rightarrow> (case dup_clone obj h of (obj', h') \<Rightarrow> (Some obj', h')))"

text \<open>\<^verbatim>\<open>F_SETFL\<close> and \<^verbatim>\<open>FIONBIO\<close> on a listener set its flag; on anything else they work on the slot.\<close>

definition set_nonblock_any ::
    "u32 \<Rightarrow> bool \<Rightarrow> fd_heap \<Rightarrow> unix_state \<Rightarrow> fd_table \<Rightarrow> (fd_errno + unit) \<times> fd_heap \<times> unix_state \<times> fd_table" where
  "set_nonblock_any fd on h u t =
     (case table_get fd t of
        Some (UnixListener l) \<Rightarrow> (Inr (), h, upd_listener l (\<lambda>s. s\<lparr>ul_nonblocking := on\<rparr>) u, t)
      | _ \<Rightarrow> (case set_nonblock fd on h t of (r, h, t) \<Rightarrow> (r, h, u, t)))"

subsection \<open>What the queues hold\<close>

definition pair_eps :: "(nat \<times> nat) list \<Rightarrow> nat list" where
  "pair_eps ps = concat (map (\<lambda>(rx, tx). [rx, tx]) ps)"

definition queued :: "unix_state \<Rightarrow> nat list" where
  "queued u = concat (map (\<lambda>l. pair_eps (ul_pending l)) (listeners u))"

definition pending_ok :: "fd_heap \<Rightarrow> unix_state \<Rightarrow> bool" where
  "pending_ok h u \<longleftrightarrow> (\<forall>l \<in> set (listeners u). \<forall>(rx, tx) \<in> set (ul_pending l). obj_ok h (Socket rx tx))"

lemma pair_eps_simps [simp]:
  "pair_eps [] = []" "pair_eps ((rx, tx) # ps) = rx # tx # pair_eps ps" "pair_eps (ps @ ps') = pair_eps ps @ pair_eps ps'"
  by (simp_all add: pair_eps_def)

lemma pending_ok_ext: "pending_ok h u \<Longrightarrow> heap_ext h h' \<Longrightarrow> pending_ok h' u"
  by (fastforce simp: pending_ok_def intro: obj_ok_ext)

lemma count_concat_update:
  "l < length xss \<Longrightarrow> count_list (concat (xss[l := xs])) e + count_list (xss ! l) e = count_list (concat xss) e + count_list xs e"
  by (induction xss arbitrary: l) (auto split: nat.splits simp: less_Suc_eq_0_disj)

lemma queued_upd:
  assumes "l < length (listeners u)"
  shows "count_list (queued (upd_listener l f u)) e + count_list (pair_eps (ul_pending (listeners u ! l))) e =
    count_list (queued u) e + count_list (pair_eps (ul_pending (f (listeners u ! l)))) e"
  using count_concat_update[of l "map (\<lambda>l. pair_eps (ul_pending l)) (listeners u)"
      "pair_eps (ul_pending (f (listeners u ! l)))" e] assms
  by (simp add: queued_def upd_listener_def map_update)

lemma pending_ok_upd:
  assumes "pending_ok h u" "\<forall>(rx, tx) \<in> set (ul_pending (f (listeners u ! l))). obj_ok h (Socket rx tx)"
  shows "pending_ok h (upd_listener l f u)"
  using assms set_update_subset_insert[of "listeners u" l "f (listeners u ! l)"]
  by (auto simp: pending_ok_def upd_listener_def)

subsection \<open>The ownership invariant\<close>

text \<open>
  The references outside a table are those of the other holders, \<open>X\<close>, and of the queues.
\<close>

definition unix_inv :: "(nat \<Rightarrow> nat) \<Rightarrow> fd_heap \<Rightarrow> unix_state \<Rightarrow> fd_table \<Rightarrow> bool" where
  "unix_inv X h u t \<longleftrightarrow> fd_inv settled (held X (queued u)) h t \<and> pending_ok h u"

definition listener_handles :: "fd_table \<Rightarrow> nat set" where
  "listener_handles t = {l. UnixListener l \<in> table_objs t}"

lemma connect_to_inv:
  assumes inv: "unix_inv X h u t" and lt: "l < length (listeners u)" and c: "connect_to l fd h u t = (r, h', u', t')"
  shows "unix_inv X h' u' t' \<and> heap_ext h h'"
proof (cases "r = Inr ()")
  case True
  then obtain nb crx ctx srx stx where g: "table_get fd t = Some (UnixSocketUnbound nb)"
    and p: "socket_pair_endpoints nb False h = (((crx, ctx), (srx, stx)), h')"
    and u': "u' = upd_listener l (\<lambda>s. s\<lparr>ul_pending := ul_pending s @ [(srx, stx)]\<rparr>) u"
    and t': "t' = set_slot fd (Socket crx ctx) t"
    using c by (auto simp: connect_to_def Let_def split: option.splits open_object.splits if_splits prod.splits)
  have i: "fd_inv settled (held X (queued u)) h t" and ok: "pending_ok h u"
    using inv by (simp_all add: unix_inv_def)
  note s = socket_endpoints_inv[OF i p]
  have "held (held X (queued u)) (obj_eps (Socket srx stx)) = held X (queued u')"
    using queued_upd[OF lt, of "\<lambda>s. s\<lparr>ul_pending := ul_pending s @ [(srx, stx)]\<rparr>"]
    by (auto simp: u' held_def fun_eq_iff obj_eps_def algebra_simps simp flip: add.assoc)
  with s(1) have "fd_inv settled (held (held X (queued u')) (obj_eps (Socket crx ctx))) h' t"
    by simp
  from fd_inv_replace[OF this g s(3)] have "fd_inv settled (held X (queued u')) h' t'"
    by (simp add: obj_eps_def t' set_slot_def)
  moreover have "pending_ok h' u'"
    unfolding u' using pending_ok_ext[OF ok s(2)] s(4) lt by (intro pending_ok_upd) (auto simp: pending_ok_def)
  ultimately show ?thesis
    using s(2) by (simp add: unix_inv_def)
next
  case False
  then have "h' = h" "u' = u" "t' = t"
    using c by (auto simp: connect_to_def Let_def split: option.splits open_object.splits if_splits prod.splits)
  then show ?thesis
    using inv by simp
qed

lemma sys_bind_inv:
  assumes inv: "unix_inv X h u t" and b: "sys_bind fd path u t = (r, u', t')"
  shows "unix_inv X h u' t'"
proof (cases "r = Inr ()")
  case True
  then obtain nb where g: "table_get fd t = Some (UnixSocketUnbound nb)"
    and u': "u' = u\<lparr>listeners := listeners u @ [listener_new path nb], registry := (registry u)(path \<mapsto> length (listeners u))\<rparr>"
    and t': "t' = set_slot fd (UnixListener (length (listeners u))) t"
    using b by (auto simp: sys_bind_def Let_def split: option.splits open_object.splits)
  have q: "queued u' = queued u" "pending_ok h u' = pending_ok h u"
    by (simp_all add: u' queued_def pending_ok_def listener_new_def)
  have "fd_inv settled (held (held X (queued u)) (obj_eps (UnixListener l))) h t" "obj_ok h (UnixListener l)" for l
    using inv by (simp_all add: unix_inv_def obj_eps_def obj_ok_def reads_def writes_def)
  from fd_inv_replace[OF this(1) g this(2)] show ?thesis
    using inv by (simp add: unix_inv_def q t' set_slot_def obj_eps_def)
next
  case False
  then show ?thesis
    using b inv by (auto simp: sys_bind_def Let_def split: option.splits open_object.splits)
qed

lemma fd_inv_held_rc: "fd_inv D (held X es) h t \<Longrightarrow> e \<in> set es \<Longrightarrow> 0 < rc h e"
  using count_list_0_iff[of es e] by (auto simp: fd_inv_def held_def)

lemma accept_endpoints_inv:
  assumes inv: "fd_inv settled (held X [rx, tx]) h t" and ok: "obj_ok h (Socket rx tx)"
    and r: "with_nonblocking rx nb h = (nrx, h1)" and w: "with_nonblocking tx nb h1 = (ntx, h2)"
    and a: "table_alloc (Socket nrx ntx) t = (fd, t')"
  shows "fd_inv settled X (arc_drop rx (arc_drop tx h2)) t' \<and> heap_ext h (arc_drop rx (arc_drop tx h2))"
proof -
  have pos: "0 < rc h rx" "0 < rc h tx"
    using fd_inv_held_rc[OF inv] by simp_all
  note n1 = fd_inv_with_nonblocking[OF inv pos(1) r]
  have "0 < rc h1 tx"
    using n1(1) by (simp add: held_held fd_inv_held_rc[of _ X "[rx, tx, nrx]"])
  note n2 = fd_inv_with_nonblocking[OF n1(1) this w]
  have "obj_ok h2 (Socket nrx ntx)"
    using heap_ext_ep[OF n2(2) n1(3,4)] n2(3,4) n1(2) ok
    by (auto simp: obj_ok_def reads_def writes_def heap_ext_def)
  moreover have "held (held (held X [rx, tx]) [nrx]) [ntx] = held (held X [tx, rx]) (obj_eps (Socket nrx ntx))"
    by (auto simp: held_def fun_eq_iff obj_eps_def)
  ultimately have "fd_inv settled (held X [tx, rx]) h2 t'"
    using fd_inv_table_alloc[OF _ _ a] n2(1) by simp
  from fd_inv_fold_drop[OF this] show ?thesis
    using heap_ext_trans[OF n1(2) n2(2)] by (auto intro: heap_ext_trans)
qed

lemma unix_inv_cloexec [simp]: "unix_inv X h u (set_cloexec fd on t) = unix_inv X h u t"
  by (simp add: unix_inv_def set_cloexec_def fd_inv_length)

lemma sys_accept4_inv:
  assumes inv: "unix_inv X h u t" and hd: "listener_handles t \<subseteq> {..<length (listeners u)}" and a: "sys_accept4 fd flags h u t = (r, h', u', t')"
  shows "unix_inv X h' u' t' \<and> heap_ext h h'"
proof (cases "\<exists>newfd. r = Inr (Some newfd)")
  case True
  define nb where "nb \<longleftrightarrow> flags AND SOCK_NONBLOCK \<noteq> 0"
  from True a obtain l rx tx rest where g: "table_get fd t = Some (UnixListener l)"
    and p: "ul_pending (listeners u ! l) = (rx, tx) # rest"
    by (auto simp: sys_accept4_def split: if_splits option.splits open_object.splits list.splits prod.splits)
  obtain nrx h1 where r: "with_nonblocking rx nb h = (nrx, h1)" by fastforce
  obtain ntx h2 where w: "with_nonblocking tx nb h1 = (ntx, h2)" by fastforce
  obtain newfd t1 where t1: "table_alloc (Socket nrx ntx) t = (newfd, t1)" by fastforce
  have h': "h' = arc_drop rx (arc_drop tx h2)" and u': "u' = upd_listener l (\<lambda>s. s\<lparr>ul_pending := rest\<rparr>) u"
    and t': "t' = (if flags AND SOCK_CLOEXEC \<noteq> 0 then set_cloexec newfd True t1 else t1)"
    using True a g p r w t1 by (auto simp: sys_accept4_def nb_def Let_def split: if_splits)
  have lt: "l < length (listeners u)"
    using hd table_objs_get[OF g] by (auto simp: listener_handles_def)
  have i: "fd_inv settled (held X (queued u)) h t" and ok: "pending_ok h u"
    using inv by (simp_all add: unix_inv_def)
  have pok: "\<forall>(a, b) \<in> set ((rx, tx) # rest). obj_ok h (Socket a b)"
    using bspec[OF ok[unfolded pending_ok_def] nth_mem[OF lt]] by (simp add: p)
  have "count_list (queued u) e = count_list (queued u') e + count_list [rx, tx] e" for e
    using queued_upd[OF lt, of "\<lambda>s. s\<lparr>ul_pending := rest\<rparr>" e] by (simp add: u' p split: if_splits)
  then have "held X (queued u) = held (held X (queued u')) [rx, tx]"
    by (simp add: held_def fun_eq_iff)
  then have "fd_inv settled (held (held X (queued u')) [rx, tx]) h t"
    using i by simp
  from accept_endpoints_inv[OF this _ r w t1] have "fd_inv settled (held X (queued u')) h' t1 \<and> heap_ext h h'"
    using pok by (simp add: h')
  moreover have "pending_ok h u'"
    unfolding u' using ok pok by (intro pending_ok_upd) auto
  ultimately show ?thesis
    by (simp add: t' unix_inv_def[of _ _ _ t1] pending_ok_ext)
next
  case False
  then have "h' = h" "u' = u" "t' = t"
    using a by (auto simp: sys_accept4_def Let_def split: if_splits option.splits open_object.splits list.splits prod.splits)
  then show ?thesis
    using inv by simp
qed

subsection \<open>Handles of listeners\<close>

text \<open>No table operation makes up a listener: a handle in a table comes from \<^verbatim>\<open>bind\<close>.\<close>

lemma handles_sub:
  assumes "set (slots s) \<subseteq> insert None (insert (Some obj) (set (tslot_list t)))" "\<forall>l. obj \<noteq> UnixListener l"
  shows "listener_handles (t\<lparr>tslots := s, cloexec := c\<rparr>) \<subseteq> listener_handles t" "listener_handles (t\<lparr>tslots := s\<rparr>) \<subseteq> listener_handles t"
  using assms by (auto simp: listener_handles_def table_objs_def)

lemma handles_copy:
  assumes "set (slots s) \<subseteq> insert None (insert (Some obj) (set (tslot_list t)))" "obj \<in> table_objs t"
  shows "listener_handles (t\<lparr>tslots := s, cloexec := c\<rparr>) \<subseteq> listener_handles t"
  using assms by (auto simp: listener_handles_def table_objs_def)

lemma handles_fewer:
  assumes "set (slots s) \<subseteq> insert None (set (tslot_list t))"
  shows "listener_handles (t\<lparr>tslots := s, cloexec := c\<rparr>) \<subseteq> listener_handles t" "listener_handles (t\<lparr>tslots := s\<rparr>) \<subseteq> listener_handles t"
  using assms by (auto simp: listener_handles_def table_objs_def)

lemma handles_alloc:
  assumes "table_alloc obj t = (fd, t')" "\<forall>l. obj \<noteq> UnixListener l"
  shows "listener_handles t' \<subseteq> listener_handles t"
proof -
  obtain s where s: "fd_alloc FIRST_DYNAMIC_FD obj (tslots t) = (fd, s)" "t' = t\<lparr>tslots := s, cloexec := cloexec t - {fd}\<rparr>"
    using assms(1) by (auto simp: table_alloc_def split: prod.splits)
  show ?thesis unfolding s(2) by (rule handles_sub(1)[OF srefs_fd_alloc(2)[OF s(1)] assms(2)])
qed

lemma handles_slot:
  "listener_handles (set_slot fd obj t) \<subseteq> listener_handles t \<union> {l. obj = UnixListener l}"
  using set_update_subset_insert[of "tslot_list t" "unat fd" "Some obj"]
  by (auto simp: set_slot_def listener_handles_def table_objs_def)

lemma handles_cloexec [simp]: "listener_handles (set_cloexec fd on t) = listener_handles t"
  by (simp add: set_cloexec_def listener_handles_def table_objs_def)

lemma fd_close_slots: "fd_close fd s = (r, s') \<Longrightarrow> set (slots s') \<subseteq> insert None (set (slots s))"
  using set_update_subset_insert[of "slots s" "unat fd" None] by (auto simp: fd_close_def split: if_splits option.splits)

lemma handles_close: "table_close fd h t = (r, h', t') \<Longrightarrow> listener_handles t' \<subseteq> listener_handles t"
  using handles_fewer[OF fd_close_slots[of fd "tslots t"]]
  by (auto simp: table_close_def split: prod.splits sum.splits bad_fd.splits)

lemma handles_dup:
  assumes "dup_min fd mn h t = (r, h', t')"
  shows "listener_handles t' \<subseteq> listener_handles t"
proof (cases "table_get fd t")
  case (Some obj)
  obtain n s where s: "fd_alloc (unat mn) obj (tslots t) = (n, s)" by fastforce
  show ?thesis
    using assms Some s handles_copy[OF srefs_fd_alloc(2)[OF s] table_objs_get[OF Some]]
    by (auto simp: dup_min_def dup_clone_fold)
qed (use assms in \<open>simp add: dup_min_def\<close>)

lemma handles_dup_to:
  assumes "dup_to fd fd' h t = (r, h', t')"
  shows "listener_handles t' \<subseteq> listener_handles t"
proof (cases "table_get fd t")
  case (Some obj)
  obtain old s where s: "fd_set fd' obj (tslots t) = (old, s)" by fastforce
  show ?thesis
    using assms Some s handles_copy[OF srefs_fd_set(2)[OF s] table_objs_get[OF Some]]
    by (auto simp: dup_to_def dup_clone_fold)
qed (use assms in \<open>simp add: dup_to_def\<close>)

lemma handles_close_each: "close_each fds h t = (h', t') \<Longrightarrow> listener_handles t' \<subseteq> listener_handles t"
proof (induction fds h t rule: close_each.induct)
  case (2 fd fds h t)
  obtain r s where s: "fd_close fd (tslots t) = (r, s)" by fastforce
  note sub = handles_fewer(2)[OF fd_close_slots[OF s]]
  show ?case
    using "2.IH"(1)[OF s[symmetric]] "2.IH"(2)[OF s[symmetric]] "2.prems" s sub by (cases r) auto
qed simp

lemma handles_exec: "close_cloexec h t = (h', t') \<Longrightarrow> listener_handles t' \<subseteq> listener_handles t"
  using handles_close_each[of _ h "t\<lparr>cloexec := {}\<rparr>"]
  by (auto simp: close_cloexec_def listener_handles_def table_objs_def)

lemma handles_alloc_two:
  assumes "\<forall>l. obj \<noteq> UnixListener l" "\<forall>l. obj' \<noteq> UnixListener l"
  shows "listener_handles (snd (table_alloc obj' (snd (table_alloc obj t)))) \<subseteq> listener_handles t"
  using handles_alloc[OF prod.collapse[symmetric] assms(1)] handles_alloc[OF prod.collapse[symmetric] assms(2)] by blast

lemma handles_pipe: "table_pipe nb h t = (r, h', t') \<Longrightarrow> listener_handles t' \<subseteq> listener_handles t"
  using handles_alloc_two[of "PipeRead (length (arcs h))" "PipeWrite (Suc (length (arcs h)))" t]
  by (auto simp: table_pipe_def pipe_new_def arc_new_def split_beta Let_def)

lemma handles_socketpair:
  assumes "socketpair nb h t = (r, h', t')"
  shows "listener_handles t' \<subseteq> listener_handles t"
proof -
  obtain arx atx brx btx where "t' = snd (table_alloc (Socket brx btx) (snd (table_alloc (Socket arx atx) t)))"
    using assms by (auto simp: socketpair_def split_beta Let_def)
  then show ?thesis
    by (simp add: handles_alloc_two)
qed

lemma handles_nonblock:
  assumes "set_nonblock fd on h t = (r, h', t')"
  shows "listener_handles t' \<subseteq> listener_handles t"
proof (cases "table_get fd t")
  case (Some obj)
  then obtain obj' where o: "t' = set_slot fd obj' t" "\<forall>l. obj' = UnixListener l \<longrightarrow> obj = obj'"
    using assms by (cases obj) (auto simp: set_nonblock_def set_slot_def Let_def split: prod.splits)
  then show ?thesis
    using handles_slot[of fd obj' t] table_objs_get[OF Some] by (auto simp: listener_handles_def)
qed (use assms in \<open>simp add: set_nonblock_def\<close>)

lemmas handles_ops = handles_pipe handles_socketpair handles_close handles_dup handles_dup_to handles_exec

subsection \<open>The other calls\<close>

lemma unix_inv_op:
  assumes "unix_inv X h u t" and "fd_inv settled (held X (queued u)) h' t' \<and> heap_ext h h'"
  shows "unix_inv X h' u t' \<and> heap_ext h h'"
  using assms pending_ok_ext by (auto simp: unix_inv_def)

lemma unix_inv_quiet:
  assumes "unix_inv X h u t" "l < length (listeners u)" "ul_pending (f (listeners u ! l)) = ul_pending (listeners u ! l)"
  shows "unix_inv X h (upd_listener l f u) t"
proof -
  have "count_list (queued (upd_listener l f u)) e = count_list (queued u) e" for e
    using queued_upd[OF assms(2), of f e] assms(3) by simp
  then have "held X (queued (upd_listener l f u)) = held X (queued u)"
    by (simp add: held_def fun_eq_iff)
  moreover have "pending_ok h u"
    using assms(1) by (simp add: unix_inv_def)
  then have "pending_ok h (upd_listener l f u)"
    using assms(2,3) by (intro pending_ok_upd) (auto simp: pending_ok_def)
  ultimately show ?thesis
    using assms(1) by (simp add: unix_inv_def)
qed

lemma sys_socket_inv:
  assumes inv: "unix_inv X h u t" and s: "sys_socket domain ty t = (r, t')"
  shows "unix_inv X h u t' \<and> listener_handles t' \<subseteq> listener_handles t"
proof -
  let ?o = "UnixSocketUnbound (ty AND SOCK_NONBLOCK \<noteq> 0)"
  obtain fd t1 where a: "table_alloc ?o t = (fd, t1)" by fastforce
  have "fd_inv settled (held (held X (queued u)) (obj_eps ?o)) h t" "obj_ok h ?o"
    using inv by (simp_all add: unix_inv_def obj_eps_def obj_ok_def reads_def writes_def)
  then have "unix_inv X h u t1"
    using inv fd_inv_table_alloc[OF _ _ a] by (simp add: unix_inv_def)
  moreover have "listener_handles t1 \<subseteq> listener_handles t"
    using handles_alloc[OF a] by simp
  ultimately show ?thesis
    using s a inv by (auto simp: sys_socket_def split: if_splits)
qed

lemma set_nonblock_any_inv:
  assumes inv: "unix_inv X h u t" and hd: "listener_handles t \<subseteq> {..<length (listeners u)}"
    and s: "set_nonblock_any fd on h u t = (r, h', u', t')"
  shows "(unix_inv X h' u' t' \<and> heap_ext h h') \<and> listener_handles t' \<subseteq> listener_handles t \<and> length (listeners u') = length (listeners u)
    \<and> registry u' = registry u"
proof (cases "\<exists>l. table_get fd t = Some (UnixListener l)")
  case True
  then obtain l where l: "table_get fd t = Some (UnixListener l)" by blast
  have "l < length (listeners u)"
    using hd table_objs_get[OF l] by (auto simp: listener_handles_def)
  then show ?thesis
    using s l inv unix_inv_quiet[OF inv, of l "\<lambda>s. s\<lparr>ul_nonblocking := on\<rparr>"]
    by (auto simp: set_nonblock_any_def upd_listener_def)
next
  case False
  then have n: "set_nonblock fd on h t = (r, h', t')" and u: "u' = u"
    using s by (auto simp: set_nonblock_any_def split: option.splits open_object.splits prod.splits)
  have "fd_inv settled (held X (queued u)) h t"
    using inv by (simp add: unix_inv_def)
  from unix_inv_op[OF inv set_nonblock_inv[OF this n]] handles_nonblock[OF n] show ?thesis
    by (simp add: u)
qed

end
