(* ===== verification/FdSystem.thy ===== *)
theory FdSystem
  imports UnixSock
begin

text \<open>
  All processes together: the shared heap and one descriptor table per process, the steps that
  the system calls take on them, the invariant over every reachable state, and the theorems
  about end of file, broken pipes, byte order, descriptor allocation and the execve sweep.
\<close>

subsection \<open>Steps\<close>

text \<open>
  \<open>sy_calls\<close> holds the objects that running system calls have cloned out of a table (\<^verbatim>\<open>resolve_fd\<close>),
  \<open>sy_lookups\<close> the listeners that running \<^verbatim>\<open>connect\<close> calls have cloned out of the registry.
\<close>

record fd_sys =
  sy_heap :: fd_heap
  sy_tables :: "fd_table list"
  sy_calls :: "open_object list"
  sy_unix :: unix_state
  sy_lookups :: "nat list"

definition no_table :: fd_table where
  "no_table = \<lparr>tslots = fd_new, cloexec = {}\<rparr>"

definition boot_sys :: fd_sys where
  "boot_sys = \<lparr>sy_heap = \<lparr>pipes = [], arcs = []\<rparr>, sy_tables = [with_standard_streams], sy_calls = [],
     sy_unix = \<lparr>listeners = [], registry = Map.empty\<rparr>, sy_lookups = []\<rparr>"

definition put_process :: "nat \<Rightarrow> fd_heap \<Rightarrow> unix_state \<Rightarrow> fd_table \<Rightarrow> fd_sys \<Rightarrow> fd_sys" where
  "put_process i h u t s = s\<lparr>sy_heap := h, sy_unix := u, sy_tables := (sy_tables s)[i := t]\<rparr>"

text \<open>A listener that no table, registry entry or running \<^verbatim>\<open>connect\<close> refers to: its \<^verbatim>\<open>Arc\<close> is gone.\<close>

definition orphan :: "fd_sys \<Rightarrow> nat \<Rightarrow> bool" where
  "orphan s l \<longleftrightarrow> l < length (listeners (sy_unix s)) \<and> l \<notin> ran (registry (sy_unix s)) \<and> l \<notin> set (sy_lookups s)
     \<and> (\<forall>t \<in> set (sy_tables s). l \<notin> listener_handles t)"

text \<open>
  One step of a system call of process \<open>i\<close>.  \<open>fd_open\<close> stands for every call that installs an object
  without pipe endpoints, \<open>fd_spawn\<close> for a program started with the standard streams; \<open>fd_exit\<close>
  leaves an empty table behind.  A call that reads or writes clones its object (\<open>fd_enter\<close>),
  works on the clone any number of times while other steps happen in between, and drops it
  (\<open>fd_leave\<close>); the descriptor may be closed meanwhile.  A \<^verbatim>\<open>connect\<close> is a lookup and what follows it.
  \<open>fd_orphan\<close> drops the connections queued on a listener that is gone.
\<close>

inductive fd_step :: "fd_sys \<Rightarrow> fd_sys \<Rightarrow> bool" where
  fd_open: "i < length (sy_tables s) \<Longrightarrow> obj_eps obj = [] \<Longrightarrow> \<forall>l. obj \<noteq> UnixListener l \<Longrightarrow>
     table_alloc obj (sy_tables s ! i) = (fd, t) \<Longrightarrow> fd_step s (put_process i (sy_heap s) (sy_unix s) t s)"
| fd_pipe: "i < length (sy_tables s) \<Longrightarrow> table_pipe nb (sy_heap s) (sy_tables s ! i) = (r, h, t) \<Longrightarrow>
     fd_step s (put_process i h (sy_unix s) t s)"
| fd_socketpair: "i < length (sy_tables s) \<Longrightarrow> socketpair nb (sy_heap s) (sy_tables s ! i) = (r, h, t) \<Longrightarrow>
     fd_step s (put_process i h (sy_unix s) t s)"
| fd_close: "i < length (sy_tables s) \<Longrightarrow> table_close fd (sy_heap s) (sy_tables s ! i) = (r, h, t) \<Longrightarrow>
     fd_step s (put_process i h (sy_unix s) t s)"
| fd_dup: "i < length (sy_tables s) \<Longrightarrow> dup_min fd mn (sy_heap s) (sy_tables s ! i) = (r, h, t) \<Longrightarrow>
     fd_step s (put_process i h (sy_unix s) t s)"
| fd_dup_to: "i < length (sy_tables s) \<Longrightarrow> dup_to fd fd' (sy_heap s) (sy_tables s ! i) = (r, h, t) \<Longrightarrow>
     fd_step s (put_process i h (sy_unix s) t s)"
| fd_nonblock: "i < length (sy_tables s) \<Longrightarrow>
     set_nonblock_any fd on (sy_heap s) (sy_unix s) (sy_tables s ! i) = (r, h, u, t) \<Longrightarrow>
     fd_step s (put_process i h u t s)"
| fd_flag: "i < length (sy_tables s) \<Longrightarrow>
     fd_step s (put_process i (sy_heap s) (sy_unix s) (set_cloexec fd on (sy_tables s ! i)) s)"
| fd_exec: "i < length (sy_tables s) \<Longrightarrow> close_cloexec (sy_heap s) (sy_tables s ! i) = (h, t) \<Longrightarrow>
     fd_step s (put_process i h (sy_unix s) t s)"
| fd_spawn: "fd_step s (s\<lparr>sy_tables := sy_tables s @ [with_standard_streams]\<rparr>)"
| fd_fork: "i < length (sy_tables s) \<Longrightarrow>
     fd_step s (s\<lparr>sy_heap := clone_slots (slots (tslots (sy_tables s ! i))) (sy_heap s),
       sy_tables := sy_tables s @ [sy_tables s ! i]\<rparr>)"
| fd_exit: "i < length (sy_tables s) \<Longrightarrow>
     fd_step s (put_process i (drop_slots (slots (tslots (sy_tables s ! i))) (sy_heap s)) (sy_unix s) no_table s)"
| fd_enter: "i < length (sy_tables s) \<Longrightarrow> resolve_fd fd (sy_heap s) (sy_tables s ! i) = (Some obj, h) \<Longrightarrow>
     fd_step s (s\<lparr>sy_heap := h, sy_calls := obj # sy_calls s\<rparr>)"
| fd_leave: "sy_calls s = cs @ obj # cs' \<Longrightarrow> fd_step s (s\<lparr>sy_heap := obj_drop obj (sy_heap s), sy_calls := cs @ cs'\<rparr>)"
| fd_read: "obj \<in> set (sy_calls s) \<Longrightarrow> e \<in> set (reads obj) \<Longrightarrow> ep_read e n (sy_heap s) = (r, h) \<Longrightarrow>
     fd_step s (s\<lparr>sy_heap := h\<rparr>)"
| fd_write: "obj \<in> set (sy_calls s) \<Longrightarrow> e \<in> set (writes obj) \<Longrightarrow> ep_write e src (sy_heap s) = (w, h) \<Longrightarrow>
     fd_step s (s\<lparr>sy_heap := h\<rparr>)"
| fd_socket: "i < length (sy_tables s) \<Longrightarrow> sys_socket domain ty (sy_tables s ! i) = (r, t) \<Longrightarrow>
     fd_step s (put_process i (sy_heap s) (sy_unix s) t s)"
| fd_bind: "i < length (sy_tables s) \<Longrightarrow> sys_bind fd path (sy_unix s) (sy_tables s ! i) = (b, u, t) \<Longrightarrow>
     fd_step s (put_process i (sy_heap s) u t s)"
| fd_listen: "i < length (sy_tables s) \<Longrightarrow> sys_listen fd (sy_unix s) (sy_tables s ! i) = (b, u) \<Longrightarrow>
     fd_step s (s\<lparr>sy_unix := u\<rparr>)"
| fd_lookup: "registry (sy_unix s) path = Some l \<Longrightarrow> fd_step s (s\<lparr>sy_lookups := l # sy_lookups s\<rparr>)"
| fd_connect: "i < length (sy_tables s) \<Longrightarrow> sy_lookups s = ls @ l # ls' \<Longrightarrow>
     connect_to l fd (sy_heap s) (sy_unix s) (sy_tables s ! i) = (b, h, u, t) \<Longrightarrow>
     fd_step s (put_process i h u t (s\<lparr>sy_lookups := ls @ ls'\<rparr>))"
| fd_accept: "i < length (sy_tables s) \<Longrightarrow>
     sys_accept4 fd flags (sy_heap s) (sy_unix s) (sy_tables s ! i) = (a, h, u, t) \<Longrightarrow>
     fd_step s (put_process i h u t s)"
| fd_orphan: "orphan s l \<Longrightarrow>
     fd_step s (s\<lparr>sy_heap := fold arc_drop (pair_eps (ul_pending (listeners (sy_unix s) ! l))) (sy_heap s),
       sy_unix := upd_listener l (\<lambda>l. l\<lparr>ul_pending := []\<rparr>) (sy_unix s)\<rparr>)"

subsection \<open>Invariant\<close>

definition sys_refs :: "fd_table list \<Rightarrow> nat \<Rightarrow> nat" where
  "sys_refs ts e = sum_list (map (\<lambda>t. srefs (tslot_list t) e) ts)"

definition call_eps :: "fd_sys \<Rightarrow> nat list" where
  "call_eps s = concat (map obj_eps (sy_calls s))"

text \<open>Every handle of a listener names one.\<close>

definition handles_ok :: "fd_sys \<Rightarrow> bool" where
  "handles_ok s \<longleftrightarrow> (let n = length (listeners (sy_unix s)) in
     (\<forall>t \<in> set (sy_tables s). listener_handles t \<subseteq> {..<n}) \<and> ran (registry (sy_unix s)) \<subseteq> {..<n}
     \<and> set (sy_lookups s) \<subseteq> {..<n})"

text \<open>The reference counts are what the tables, the running calls and the queues hold.\<close>

definition refs_ok :: "fd_sys \<Rightarrow> bool" where
  "refs_ok s \<longleftrightarrow> (\<forall>e. rc (sy_heap s) e =
     sys_refs (sy_tables s) e + count_list (call_eps s) e + count_list (queued (sy_unix s)) e)"

definition objs_ok :: "fd_sys \<Rightarrow> bool" where
  "objs_ok s \<longleftrightarrow> (\<forall>t \<in> set (sy_tables s). \<forall>obj \<in> table_objs t. obj_ok (sy_heap s) obj)
     \<and> (\<forall>obj \<in> set (sy_calls s). obj_ok (sy_heap s) obj) \<and> pending_ok (sy_heap s) (sy_unix s)"

definition sys_inv :: "fd_sys \<Rightarrow> bool" where
  "sys_inv s \<longleftrightarrow> heap_wf settled (sy_heap s) \<and> refs_ok s \<and> objs_ok s \<and> handles_ok s"

lemma sys_refs_update:
  "i < length ts \<Longrightarrow> sys_refs (ts[i := t]) e + srefs (tslot_list (ts ! i)) e = sys_refs ts e + srefs (tslot_list t) e"
  unfolding sys_refs_def by (rule sum_list_update_nat)

text \<open>The references that the other processes and the running calls hold.\<close>

definition others :: "fd_sys \<Rightarrow> nat \<Rightarrow> nat \<Rightarrow> nat" where
  "others s i e = sys_refs (sy_tables s) e - srefs (tslot_list (sy_tables s ! i)) e + count_list (call_eps s) e"

lemma srefs_le_sys: "i < length ts \<Longrightarrow> srefs (tslot_list (ts ! i)) e \<le> sys_refs ts e"
  using sys_refs_update[of i ts no_table e] by (simp add: no_table_def fd_new_def)

lemma others_split:
  assumes "i < length (sy_tables s)"
  shows "others s i e + srefs (tslot_list (sy_tables s ! i)) e = sys_refs (sy_tables s) e + count_list (call_eps s) e"
  using srefs_le_sys[OF assms, of e] by (simp add: others_def)

lemma objs_ok_ext:
  "objs_ok s \<Longrightarrow> heap_ext (sy_heap s) h \<Longrightarrow> objs_ok (s\<lparr>sy_heap := h\<rparr>)"
  by (auto simp: objs_ok_def intro: obj_ok_ext pending_ok_ext)

lemma sys_inv_table:
  assumes "sys_inv s" "i < length (sy_tables s)"
  shows "unix_inv (others s i) (sy_heap s) (sy_unix s) (sy_tables s ! i)"
    and "listener_handles (sy_tables s ! i) \<subseteq> {..<length (listeners (sy_unix s))}"
proof -
  have "rc (sy_heap s) e = others s i e + srefs (tslot_list (sy_tables s ! i)) e + count_list (queued (sy_unix s)) e" for e
    using assms(1) unfolding others_split[OF assms(2)] by (simp add: sys_inv_def refs_ok_def)
  then show "unix_inv (others s i) (sy_heap s) (sy_unix s) (sy_tables s ! i)"
    using assms(1) nth_mem[OF assms(2)] by (simp add: unix_inv_def fd_inv_def held_def sys_inv_def objs_ok_def)
  show "listener_handles (sy_tables s ! i) \<subseteq> {..<length (listeners (sy_unix s))}"
    using assms(1) nth_mem[OF assms(2)] by (simp add: sys_inv_def handles_ok_def Let_def)
qed

lemma sys_inv_fd:
  assumes "sys_inv s" "i < length (sy_tables s)"
  shows "fd_inv settled (held (others s i) (queued (sy_unix s))) (sy_heap s) (sy_tables s ! i)"
  using sys_inv_table(1)[OF assms] by (simp add: unix_inv_def)

lemma handles_ok_step:
  assumes "handles_ok s" "length (listeners (sy_unix s)) \<le> length (listeners u)"
    "listener_handles t \<subseteq> {..<length (listeners u)}" "ran (registry u) \<subseteq> {..<length (listeners u)}"
  shows "handles_ok (put_process i h u t s)"
proof -
  have "t' \<in> set (sy_tables s) \<or> t' = t" if "t' \<in> set ((sy_tables s)[i := t])" for t'
    using that set_update_subset_insert by fastforce
  then show ?thesis
    using assms by (fastforce simp: handles_ok_def put_process_def Let_def)
qed

lemma sys_inv_step:
  assumes inv: "sys_inv s" and i: "i < length (sy_tables s)"
    and st: "unix_inv (others s i) h u t \<and> heap_ext (sy_heap s) h" and hd: "handles_ok (put_process i h u t s)"
  shows "sys_inv (put_process i h u t s)"
proof -
  have "refs_ok (put_process i h u t s)"
    unfolding refs_ok_def
  proof
    fix e
    have "rc h e = others s i e + count_list (queued u) e + srefs (tslot_list t) e"
      using st by (simp add: unix_inv_def fd_inv_def held_def)
    then show "rc (sy_heap (put_process i h u t s)) e = sys_refs (sy_tables (put_process i h u t s)) e
        + count_list (call_eps (put_process i h u t s)) e + count_list (queued (sy_unix (put_process i h u t s))) e"
      using sys_refs_update[OF i, of t e] others_split[OF i, of e] by (simp add: put_process_def call_eps_def)
  qed
  moreover have "objs_ok (s\<lparr>sy_heap := h\<rparr>)"
    using inv st by (simp add: sys_inv_def objs_ok_ext)
  then have "objs_ok (put_process i h u t s)"
    using st set_update_subset_insert[of "sy_tables s" i t]
    by (fastforce simp: objs_ok_def put_process_def unix_inv_def fd_inv_def)
  ultimately show ?thesis
    using st hd by (simp add: sys_inv_def unix_inv_def fd_inv_def put_process_def)
qed

text \<open>A call that works on one table and leaves the listeners alone.\<close>

lemma sys_inv_table_op:
  assumes inv: "sys_inv s" and i: "i < length (sy_tables s)"
    and st: "fd_inv settled (held (others s i) (queued (sy_unix s))) h t \<and> heap_ext (sy_heap s) h"
    and hd: "listener_handles t \<subseteq> listener_handles (sy_tables s ! i)"
  shows "sys_inv (put_process i h (sy_unix s) t s)"
proof (rule sys_inv_step[OF inv i unix_inv_op[OF sys_inv_table(1)[OF inv i] st]])
  show "handles_ok (put_process i h (sy_unix s) t s)"
    using inv sys_inv_table(2)[OF inv i] hd
    by (intro handles_ok_step) (auto simp: sys_inv_def handles_ok_def Let_def)
qed

definition slot_eps :: "open_object option list \<Rightarrow> nat list" where
  "slot_eps ss = concat (map (\<lambda>s. case s of Some obj \<Rightarrow> obj_eps obj | None \<Rightarrow> []) ss)"

lemma clone_slots_fold: "clone_slots ss h = fold arc_clone (slot_eps ss) h"
  by (induction ss h rule: clone_slots.induct) (simp_all add: slot_eps_def dup_clone_fold)

lemma drop_slots_fold: "drop_slots ss h = fold arc_drop (slot_eps ss) h"
  by (induction ss h rule: drop_slots.induct) (simp_all add: slot_eps_def obj_drop_fold)

lemma count_slot_eps: "count_list (slot_eps ss) e = srefs ss e"
  by (induction ss) (auto simp: slot_eps_def orefs_def split: option.splits)

lemma fork_inv:
  assumes inv: "sys_inv s" and i: "i < length (sy_tables s)"
  shows "sys_inv (s\<lparr>sy_heap := clone_slots (tslot_list (sy_tables s ! i)) (sy_heap s), sy_tables := sy_tables s @ [sy_tables s ! i]\<rparr>)"
proof -
  let ?t = "sy_tables s ! i" and ?h = "sy_heap s"
  let ?es = "slot_eps (tslot_list ?t)"
  have "0 < rc ?h e" if "e \<in> set ?es" for e
  proof -
    have "0 < srefs (tslot_list ?t) e"
      using that count_list_0_iff[of ?es e] by (auto simp: count_slot_eps)
    then show ?thesis
      using inv srefs_le_sys[OF i, of e] by (simp add: sys_inv_def refs_ok_def)
  qed
  then have c: "heap_wf settled (clone_slots (tslot_list ?t) ?h)"
    "\<And>e. rc (clone_slots (tslot_list ?t) ?h) e = rc ?h e + srefs (tslot_list ?t) e"
    "heap_ext ?h (clone_slots (tslot_list ?t) ?h)"
    using fold_arc_clone[of settled ?h ?es] inv by (auto simp: clone_slots_fold count_slot_eps sys_inv_def)
  have t: "?t \<in> set (sy_tables s)"
    using i by simp
  have "objs_ok (s\<lparr>sy_heap := clone_slots (tslot_list ?t) ?h\<rparr>)"
    using inv c(3) by (simp add: sys_inv_def objs_ok_ext)
  then show ?thesis
    using inv c(1,2) t by (auto simp: sys_inv_def refs_ok_def objs_ok_def handles_ok_def sys_refs_def call_eps_def Let_def)
qed

lemma no_table_simps [simp]: "tslot_list no_table = []" "table_objs no_table = {}" "listener_handles no_table = {}"
  by (simp_all add: no_table_def fd_new_def table_objs_def listener_handles_def)

lemma exit_inv:
  assumes inv: "sys_inv s" and i: "i < length (sy_tables s)"
  shows "sys_inv (put_process i (drop_slots (tslot_list (sy_tables s ! i)) (sy_heap s)) (sy_unix s) no_table s)"
proof (rule sys_inv_table_op[OF inv i])
  let ?X = "held (others s i) (queued (sy_unix s))" and ?es = "slot_eps (tslot_list (sy_tables s ! i))"
  have "fd_inv settled (held ?X ?es) (sy_heap s) no_table"
    using sys_inv_fd[OF inv i]
    by (simp add: fd_inv_def held_def count_slot_eps)
  from fd_inv_fold_drop[OF this]
  show "fd_inv settled ?X (drop_slots (tslot_list (sy_tables s ! i)) (sy_heap s)) no_table
      \<and> heap_ext (sy_heap s) (drop_slots (tslot_list (sy_tables s ! i)) (sy_heap s))"
    by (simp add: drop_slots_fold)
qed simp

lemma spawn_inv:
  assumes "sys_inv s"
  shows "sys_inv (s\<lparr>sy_tables := sy_tables s @ [with_standard_streams]\<rparr>)"
  using assms
  by (auto simp: sys_inv_def refs_ok_def objs_ok_def handles_ok_def sys_refs_def call_eps_def with_standard_streams_def
      from_slots_def obj_eps_def table_objs_def obj_ok_def reads_def writes_def listener_handles_def orefs_def Let_def)

text \<open>Dropping a list of endpoints that something other than a table held.\<close>

lemma drop_held_inv:
  assumes wf: "heap_wf settled h" and rc: "\<And>e. rc h e = X e + count_list es e"
  shows "heap_wf settled (fold arc_drop es h)" "\<And>e. rc (fold arc_drop es h) e = X e" "heap_ext h (fold arc_drop es h)"
proof -
  have "fd_inv settled (held X es) h no_table"
    using wf rc by (simp add: fd_inv_def held_def)
  from fd_inv_fold_drop[OF this] show "heap_wf settled (fold arc_drop es h)"
    "\<And>e. rc (fold arc_drop es h) e = X e" "heap_ext h (fold arc_drop es h)"
    by (simp_all add: fd_inv_def)
qed

lemma leave_inv:
  assumes inv: "sys_inv s" and c: "sy_calls s = cs @ obj # cs'"
  shows "sys_inv (s\<lparr>sy_heap := obj_drop obj (sy_heap s), sy_calls := cs @ cs'\<rparr>)"
proof -
  let ?X = "\<lambda>e. sys_refs (sy_tables s) e + count_list (concat (map obj_eps (cs @ cs'))) e + count_list (queued (sy_unix s)) e"
  have "rc (sy_heap s) e = ?X e + count_list (obj_eps obj) e" for e
    using inv c by (simp add: sys_inv_def refs_ok_def call_eps_def)
  note d = drop_held_inv[of "sy_heap s" ?X "obj_eps obj", OF _ this]
  have "heap_wf settled (sy_heap s)"
    using inv by (simp add: sys_inv_def)
  note d = d[OF this]
  have "objs_ok (s\<lparr>sy_heap := fold arc_drop (obj_eps obj) (sy_heap s)\<rparr>)"
    using inv d(3) by (simp add: sys_inv_def objs_ok_ext)
  then show ?thesis
    using inv d(1,2) c by (auto simp: sys_inv_def refs_ok_def objs_ok_def handles_ok_def call_eps_def obj_drop_fold)
qed

lemma orphan_inv:
  assumes inv: "sys_inv s" and l: "l < length (listeners (sy_unix s))"
  shows "sys_inv (s\<lparr>sy_heap := fold arc_drop (pair_eps (ul_pending (listeners (sy_unix s) ! l))) (sy_heap s),
    sy_unix := upd_listener l (\<lambda>l. l\<lparr>ul_pending := []\<rparr>) (sy_unix s)\<rparr>)"
proof -
  let ?u = "upd_listener l (\<lambda>l. l\<lparr>ul_pending := []\<rparr>) (sy_unix s)" and ?es = "pair_eps (ul_pending (listeners (sy_unix s) ! l))"
  let ?X = "\<lambda>e. sys_refs (sy_tables s) e + count_list (call_eps s) e + count_list (queued ?u) e"
  have "rc (sy_heap s) e = ?X e + count_list ?es e" for e
    using inv queued_upd[OF l, of "\<lambda>l. l\<lparr>ul_pending := []\<rparr>" e] by (simp add: sys_inv_def refs_ok_def)
  note d = drop_held_inv[of "sy_heap s" ?X ?es, OF _ this]
  have "heap_wf settled (sy_heap s)"
    using inv by (simp add: sys_inv_def)
  note d = d[OF this]
  have "objs_ok (s\<lparr>sy_heap := fold arc_drop ?es (sy_heap s)\<rparr>)"
    using inv d(3) by (simp add: sys_inv_def objs_ok_ext)
  then have "objs_ok (s\<lparr>sy_heap := fold arc_drop ?es (sy_heap s), sy_unix := ?u\<rparr>)"
    by (simp add: objs_ok_def pending_ok_upd)
  then show ?thesis
    using inv d(1,2) by (simp add: sys_inv_def refs_ok_def handles_ok_def call_eps_def upd_listener_def)
qed

lemma enter_inv:
  assumes inv: "sys_inv s" and i: "i < length (sy_tables s)" and r: "resolve_fd fd (sy_heap s) (sy_tables s ! i) = (Some obj, h)"
  shows "sys_inv (s\<lparr>sy_heap := h, sy_calls := obj # sy_calls s\<rparr>)"
proof -
  obtain ob where g: "table_get fd (sy_tables s ! i) = Some ob" and d: "dup_clone ob (sy_heap s) = (obj, h)"
    using r by (auto simp: resolve_fd_def split: option.splits prod.splits)
  note c = fd_inv_clone[OF sys_inv_fd[OF inv i] table_objs_get[OF g] d]
  have "objs_ok (s\<lparr>sy_heap := h\<rparr>)"
    using inv c(3) by (simp add: sys_inv_def objs_ok_ext)
  then have "objs_ok (s\<lparr>sy_heap := h, sy_calls := obj # sy_calls s\<rparr>)"
    using c(1,4) by (simp add: objs_ok_def)
  moreover have "refs_ok (s\<lparr>sy_heap := h, sy_calls := obj # sy_calls s\<rparr>)"
    unfolding refs_ok_def
  proof
    fix e
    have "rc h e = (others s i e + srefs (tslot_list (sy_tables s ! i)) e) + count_list (queued (sy_unix s)) e + count_list (obj_eps obj) e"
      using c(1,2) by (simp add: fd_inv_def held_def)
    then show "rc (sy_heap (s\<lparr>sy_heap := h, sy_calls := obj # sy_calls s\<rparr>)) e =
        sys_refs (sy_tables (s\<lparr>sy_heap := h, sy_calls := obj # sy_calls s\<rparr>)) e
        + count_list (call_eps (s\<lparr>sy_heap := h, sy_calls := obj # sy_calls s\<rparr>)) e
        + count_list (queued (sy_unix (s\<lparr>sy_heap := h, sy_calls := obj # sy_calls s\<rparr>))) e"
      unfolding others_split[OF i] by (simp add: call_eps_def)
  qed
  ultimately show ?thesis
    using inv c(2) by (simp add: sys_inv_def fd_inv_def handles_ok_def)
qed

lemma set_bytes_inv:
  assumes inv: "sys_inv s" and b: "side s' = side (pipes (sy_heap s) ! p)" "length (pbytes s') \<le> PIPE_CAPACITY"
  shows "sys_inv (s\<lparr>sy_heap := set_pipe p s' (sy_heap s)\<rparr>)"
proof -
  let ?h = "sy_heap s"
  have "obj_ok (set_pipe p s' ?h) obj = obj_ok ?h obj" for obj
    by (simp add: obj_ok_def set_pipe_def ep_of_def)
  then have o: "objs_ok (s\<lparr>sy_heap := set_pipe p s' ?h\<rparr>)"
    using inv by (simp add: sys_inv_def objs_ok_def pending_ok_def)
  have "length (pbytes ((pipes ?h)[p := s'] ! q)) \<le> PIPE_CAPACITY
      \<and> (\<forall>r. side ((pipes ?h)[p := s'] ! q) r = ends ?h q r)" if "q < length (pipes ?h)" for q
    using that inv b by (cases "q = p") (simp_all add: sys_inv_def heap_wf_def)
  then have "heap_wf settled (set_pipe p s' ?h)"
    using inv by (simp add: sys_inv_def heap_wf_def set_pipe_def ep_of_def ends_def)
  then show ?thesis
    using inv o by (simp add: sys_inv_def refs_ok_def handles_ok_def call_eps_def)
qed

lemma pipe_io_side:
  "side (snd (pipe_read n s)) = side s" "side (snd (pipe_write src s)) = side s"
  by (auto simp: pipe_read_def pipe_write_def side_def fun_eq_iff Let_def)

lemma pipe_io_capacity:
  assumes "length (pbytes s) \<le> PIPE_CAPACITY"
  shows "length (pbytes (snd (pipe_read n s))) \<le> PIPE_CAPACITY"
    and "length (pbytes (snd (pipe_write src s))) \<le> PIPE_CAPACITY"
  using assms by (auto simp: pipe_read_def pipe_write_def Let_def)

lemma sys_inv_endpoint:
  assumes "sys_inv s" "0 < rc (sy_heap s) e"
  shows "ep_state (ep_of (sy_heap s) e) < length (pipes (sy_heap s))"
    and "length (pbytes (pipe_of (sy_heap s) e)) \<le> PIPE_CAPACITY"
proof -
  show "ep_state (ep_of (sy_heap s) e) < length (pipes (sy_heap s))"
    using assms rc_pos_length by (auto simp: sys_inv_def heap_wf_def)
  then show "length (pbytes (pipe_of (sy_heap s) e)) \<le> PIPE_CAPACITY"
    using assms(1) by (simp add: sys_inv_def heap_wf_def pipe_of_def)
qed

lemma call_endpoint:
  assumes "sys_inv s" "obj \<in> set (sy_calls s)" "e \<in> set (reads obj) \<union> set (writes obj)"
  shows "0 < rc (sy_heap s) e"
proof -
  have "e \<in> set (call_eps s)"
    using assms(2,3) by (auto simp: call_eps_def obj_eps_set)
  then have "0 < count_list (call_eps s) e"
    using count_list_0_iff[of "call_eps s" e] by auto
  then show ?thesis
    using assms(1) by (simp add: sys_inv_def refs_ok_def)
qed

lemma bind_handles:
  assumes inv: "sys_inv s" and i: "i < length (sy_tables s)" and b: "sys_bind fd path (sy_unix s) (sy_tables s ! i) = (b, u, t)"
  shows "handles_ok (put_process i (sy_heap s) u t s)"
proof -
  let ?n = "length (listeners (sy_unix s))" and ?t = "sy_tables s ! i"
  have hd: "handles_ok s" and t: "listener_handles ?t \<subseteq> {..<?n}"
    using inv sys_inv_table(2)[OF inv i] by (simp_all add: sys_inv_def)
  then have r: "ran (registry (sy_unix s)) \<subseteq> {..<?n}"
    by (simp add: handles_ok_def Let_def)
  show ?thesis
  proof (cases "\<exists>nb. table_get fd ?t = Some (UnixSocketUnbound nb)")
    case False
    then have "u = sy_unix s" "t = ?t"
      using b by (auto simp: sys_bind_def split: option.splits open_object.splits)
    then show ?thesis
      using hd t r by (intro handles_ok_step) simp_all
  next
    case True
    then have new: "t = set_slot fd (UnixListener ?n) ?t" "length (listeners u) = Suc ?n"
        "registry u = (registry (sy_unix s))(path \<mapsto> ?n)"
      using b by (auto simp: sys_bind_def Let_def)
    have "listener_handles t \<subseteq> {..<Suc ?n}"
      using handles_slot[of fd "UnixListener ?n" ?t] t unfolding new(1) by (auto simp: subset_eq less_Suc_eq)
    moreover have "ran ((registry (sy_unix s))(path \<mapsto> ?n)) \<subseteq> {..<Suc ?n}"
      using r by (auto simp: ran_def subset_eq less_Suc_eq)
    ultimately show ?thesis
      using hd by (intro handles_ok_step) (simp_all add: new(2,3))
  qed
qed

lemma connect_handles:
  assumes "connect_to l fd h u t = (b, h', u', t')"
  shows "listener_handles t' \<subseteq> listener_handles t" "length (listeners u') = length (listeners u)" "registry u' = registry u"
  using assms handles_slot[of fd "Socket _ _" t]
  by (auto simp: connect_to_def upd_listener_def split: option.splits open_object.splits if_splits prod.splits)

lemma accept_handles:
  assumes "sys_accept4 fd flags h u t = (a, h', u', t')"
  shows "listener_handles t' \<subseteq> listener_handles t" "length (listeners u') = length (listeners u)" "registry u' = registry u"
proof -
  have *: "table_alloc (Socket a b) t = (fd, t1) \<Longrightarrow> l \<in> listener_handles t1 \<Longrightarrow> l \<in> listener_handles t" for a b fd t1 l
    using handles_alloc[of "Socket a b" t fd t1] by auto
  show "listener_handles t' \<subseteq> listener_handles t" "length (listeners u') = length (listeners u)" "registry u' = registry u"
    using assms
    by (auto simp: sys_accept4_def upd_listener_def Let_def dest: * split: option.splits open_object.splits if_splits prod.splits list.splits)
qed

text \<open>A call that works on one table and one listener.\<close>

lemma sys_inv_unix_op:
  assumes inv: "sys_inv s" and i: "i < length (sy_tables s)" and st: "unix_inv (others s i) h u t \<and> heap_ext (sy_heap s) h"
    and hd: "listener_handles t \<subseteq> listener_handles (sy_tables s ! i)"
    and u: "length (listeners u) = length (listeners (sy_unix s))" "registry u = registry (sy_unix s)"
  shows "sys_inv (put_process i h u t s)"
proof (rule sys_inv_step[OF inv i st])
  show "handles_ok (put_process i h u t s)"
    using inv sys_inv_table(2)[OF inv i] hd u
    by (intro handles_ok_step) (auto simp: sys_inv_def handles_ok_def Let_def)
qed

lemma listen_inv:
  assumes inv: "sys_inv s" and i: "i < length (sy_tables s)" and b: "sys_listen fd (sy_unix s) (sy_tables s ! i) = (b, u)"
  shows "sys_inv (s\<lparr>sy_unix := u\<rparr>)"
proof (cases "u = sy_unix s")
  case False
  then obtain l where l: "table_get fd (sy_tables s ! i) = Some (UnixListener l)"
    and u: "u = upd_listener l (\<lambda>s. s\<lparr>ul_listening := True\<rparr>) (sy_unix s)"
    using b by (auto simp: sys_listen_def split: option.splits open_object.splits)
  have "l < length (listeners (sy_unix s))"
    using sys_inv_table(2)[OF inv i] table_objs_get[OF l] by (auto simp: listener_handles_def)
  from unix_inv_quiet[OF sys_inv_table(1)[OF inv i] this]
  have "unix_inv (others s i) (sy_heap s) u (sy_tables s ! i)"
    by (simp add: u)
  from sys_inv_unix_op[OF inv i, OF conjI[OF this]] show ?thesis
    by (simp add: u upd_listener_def put_process_def)
qed (use inv in simp)

lemma connect_inv:
  assumes inv: "sys_inv s" and i: "i < length (sy_tables s)" and ls: "sy_lookups s = ls @ l # ls'"
    and b: "connect_to l fd (sy_heap s) (sy_unix s) (sy_tables s ! i) = (b, h, u, t)"
  shows "sys_inv (put_process i h u t (s\<lparr>sy_lookups := ls @ ls'\<rparr>))"
proof -
  let ?s = "s\<lparr>sy_lookups := ls @ ls'\<rparr>"
  have l: "l < length (listeners (sy_unix s))" and inv': "sys_inv ?s" and i': "i < length (sy_tables ?s)"
    using inv i ls by (auto simp: sys_inv_def refs_ok_def objs_ok_def handles_ok_def call_eps_def Let_def)
  from connect_to_inv[OF sys_inv_table(1)[OF inv' i'], of l fd b h u t] l b connect_handles[OF b] show ?thesis
    by (intro sys_inv_unix_op[OF inv' i']) simp_all
qed

lemma call_read_inv:
  assumes "sys_inv s" "obj \<in> set (sy_calls s)" "e \<in> set (reads obj)" "ep_read e n (sy_heap s) = (r, h)"
  shows "sys_inv (s\<lparr>sy_heap := h\<rparr>)"
proof -
  have "0 < rc (sy_heap s) e"
    using call_endpoint[OF assms(1,2)] assms(3) by simp
  note sys_inv_endpoint[OF assms(1) this]
  moreover have "h = set_pipe (ep_state (ep_of (sy_heap s) e)) (snd (pipe_read n (pipe_of (sy_heap s) e))) (sy_heap s)"
    using assms(4) by (auto simp: ep_read_def split: prod.splits)
  ultimately show ?thesis
    using set_bytes_inv[OF assms(1)] by (simp add: pipe_io_side pipe_io_capacity pipe_of_def)
qed

lemma call_write_inv:
  assumes "sys_inv s" "obj \<in> set (sy_calls s)" "e \<in> set (writes obj)" "ep_write e src (sy_heap s) = (w, h)"
  shows "sys_inv (s\<lparr>sy_heap := h\<rparr>)"
proof -
  have "0 < rc (sy_heap s) e"
    using call_endpoint[OF assms(1,2)] assms(3) by simp
  note sys_inv_endpoint[OF assms(1) this]
  moreover have "h = set_pipe (ep_state (ep_of (sy_heap s) e)) (snd (pipe_write src (pipe_of (sy_heap s) e))) (sy_heap s)"
    using assms(4) by (auto simp: ep_write_def split: prod.splits)
  ultimately show ?thesis
    using set_bytes_inv[OF assms(1)] by (simp add: pipe_io_side pipe_io_capacity pipe_of_def)
qed

lemma fd_step_inv:
  assumes "fd_step s s'" "sys_inv s"
  shows "sys_inv s'"
  using assms
proof (induction rule: fd_step.induct)
  case (fd_open i s obj fd t)
  have "fd_inv settled (held (others s i) (queued (sy_unix s))) (sy_heap s) t"
    using fd_open sys_inv_fd[OF fd_open(5,1)]
    by (intro fd_inv_table_alloc[OF _ _ fd_open(4)])
      (simp_all add: obj_ok_def, (cases obj; simp add: obj_eps_def reads_def writes_def)+)
  then show ?case
    using handles_alloc[OF fd_open(4,3)] by (intro sys_inv_table_op[OF fd_open(5,1)]) simp_all
next
  case (fd_pipe i s nb r h t)
  then show ?case
    by (intro sys_inv_table_op[OF _ _ table_pipe_inv[OF sys_inv_fd] handles_pipe])
next
  case (fd_socketpair i s nb r h t)
  then show ?case
    by (intro sys_inv_table_op[OF _ _ socketpair_inv[OF sys_inv_fd] handles_socketpair])
next
  case (fd_close i s fd r h t)
  then show ?case
    by (intro sys_inv_table_op[OF _ _ table_close_inv[OF sys_inv_fd] handles_close])
next
  case (fd_dup i s fd mn r h t)
  then show ?case
    by (intro sys_inv_table_op[OF _ _ dup_min_inv[OF sys_inv_fd] handles_dup])
next
  case (fd_dup_to i s fd fd' r h t)
  then show ?case
    by (intro sys_inv_table_op[OF _ _ dup_to_inv[OF sys_inv_fd] handles_dup_to])
next
  case (fd_nonblock i s fd on r h u t)
  note n = set_nonblock_any_inv[OF sys_inv_table[OF fd_nonblock(3,1)] fd_nonblock(2)]
  then show ?case
    by (intro sys_inv_unix_op[OF fd_nonblock(3,1)]) simp_all
next
  case (fd_flag i s fd on)
  then show ?case
    using sys_inv_fd[OF fd_flag(2,1)]
    by (intro sys_inv_table_op[OF fd_flag(2,1)]) (simp_all add: set_cloexec_def fd_inv_length listener_handles_def table_objs_def)
next
  case (fd_exec i s h t)
  then show ?case
    by (intro sys_inv_table_op[OF _ _ close_cloexec_inv[OF sys_inv_fd] handles_exec])
next
  case (fd_spawn s)
  then show ?case by (rule spawn_inv)
next
  case (fd_fork i s)
  then show ?case by (intro fork_inv)
next
  case (fd_exit i s)
  then show ?case by (intro exit_inv)
next
  case (fd_enter i s fd obj h)
  then show ?case by (intro enter_inv)
next
  case (fd_leave s cs obj cs')
  then show ?case by (intro leave_inv)
next
  case (fd_read obj s e n r h)
  then show ?case by (intro call_read_inv)
next
  case (fd_write obj s e src w h)
  then show ?case by (intro call_write_inv)
next
  case (fd_socket i s domain ty r t)
  note n = sys_socket_inv[OF sys_inv_table(1)[OF fd_socket(3,1)] fd_socket(2)]
  then show ?case
    by (intro sys_inv_table_op[OF fd_socket(3,1)]) (simp_all add: unix_inv_def)
next
  case (fd_bind i s fd path b u t)
  then show ?case
    using sys_bind_inv[OF sys_inv_table(1) fd_bind(2)] by (intro sys_inv_step bind_handles) simp_all
next
  case (fd_listen i s fd b u)
  then show ?case by (intro listen_inv)
next
  case (fd_lookup s path l)
  then show ?case
    using ranI[of "registry (sy_unix s)" path l] by (auto simp: sys_inv_def refs_ok_def objs_ok_def handles_ok_def call_eps_def Let_def)
next
  case (fd_connect i s ls l ls' fd b h u t)
  then show ?case by (intro connect_inv)
next
  case (fd_accept i s fd flags a h u t)
  then show ?case
    using sys_accept4_inv[OF sys_inv_table[OF fd_accept(3,1)] fd_accept(2)] accept_handles[OF fd_accept(2)]
    by (intro sys_inv_unix_op[OF fd_accept(3,1)])
next
  case (fd_orphan s l)
  then show ?case by (intro orphan_inv) (simp_all add: orphan_def)
qed

lemma boot_sys_inv: "sys_inv boot_sys"
  by (auto simp: sys_inv_def refs_ok_def objs_ok_def handles_ok_def boot_sys_def heap_wf_def rc_def sys_refs_def call_eps_def queued_def
      pending_ok_def with_standard_streams_def from_slots_def obj_eps_def table_objs_def obj_ok_def reads_def writes_def listener_handles_def Let_def)

lemma reachable_inv: "fd_step\<^sup>*\<^sup>* boot_sys s \<Longrightarrow> sys_inv s"
  by (induction rule: rtranclp_induct) (auto intro: boot_sys_inv fd_step_inv)

subsection \<open>End of file and broken pipes\<close>

lemma ends_zero_iff: "ends h p r = 0 \<longleftrightarrow>
    (\<forall>e. 0 < rc h e \<longrightarrow> \<not> (ep_state (ep_of h e) = p \<and> read_end (ep_of h e) = r))"
  unfolding ends_def length_0_conv filter_empty_conv all_set_conv_all_nth
  by (auto simp: is_end_def rc_def ep_of_def)

lemma sys_refs_pos_iff: "0 < sys_refs ts e \<longleftrightarrow> (\<exists>t \<in> set ts. \<exists>obj \<in> table_objs t. e \<in> set (obj_eps obj))"
proof -
  have "0 < srefs ss e \<longleftrightarrow> (\<exists>obj. Some obj \<in> set ss \<and> e \<in> set (obj_eps obj))" for ss
    by (induction ss) (auto simp: orefs_def count_list_pos split: option.splits)
  then show ?thesis
    by (induction ts) (auto simp: sys_refs_def table_objs_def)
qed

text \<open>
  What holds endpoints: the descriptors of every process, the calls that run, and the connections
  queued on a listener.
\<close>

definition holders :: "fd_sys \<Rightarrow> open_object set" where
  "holders s = (\<Union>t \<in> set (sy_tables s). table_objs t) \<union> set (sy_calls s)
     \<union> {Socket rx tx | rx tx. \<exists>l \<in> set (listeners (sy_unix s)). (rx, tx) \<in> set (ul_pending l)}"

definition can_write :: "fd_sys \<Rightarrow> nat \<Rightarrow> bool" where
  "can_write s p \<longleftrightarrow> (\<exists>obj \<in> holders s. \<exists>e \<in> set (writes obj). ep_state (ep_of (sy_heap s) e) = p)"

definition can_read :: "fd_sys \<Rightarrow> nat \<Rightarrow> bool" where
  "can_read s p \<longleftrightarrow> (\<exists>obj \<in> holders s. \<exists>e \<in> set (reads obj). ep_state (ep_of (sy_heap s) e) = p)"

lemma queued_iff: "e \<in> set (queued u) \<longleftrightarrow>
    (\<exists>rx tx. (\<exists>l \<in> set (listeners u). (rx, tx) \<in> set (ul_pending l)) \<and> e \<in> {tx, rx})"
  by (fastforce simp: queued_def pair_eps_def)

lemma bex_holders: "(\<exists>obj \<in> holders s. P obj) \<longleftrightarrow> (\<exists>t \<in> set (sy_tables s). \<exists>obj \<in> table_objs t. P obj) \<or>
    (\<exists>obj \<in> set (sy_calls s). P obj) \<or>
    (\<exists>rx tx. (\<exists>l \<in> set (listeners (sy_unix s)). (rx, tx) \<in> set (ul_pending l)) \<and> P (Socket rx tx))"
  unfolding holders_def by blast

lemma rc_pos_iff:
  assumes "sys_inv s"
  shows "0 < rc (sy_heap s) e \<longleftrightarrow> (\<exists>obj \<in> holders s. e \<in> set (reads obj) \<union> set (writes obj))"
proof -
  have "0 < rc (sy_heap s) e \<longleftrightarrow> 0 < sys_refs (sy_tables s) e \<or> e \<in> set (call_eps s) \<or> e \<in> set (queued (sy_unix s))"
    using assms by (simp add: sys_inv_def refs_ok_def count_list_pos)
  also have "\<dots> \<longleftrightarrow> (\<exists>obj \<in> holders s. e \<in> set (reads obj) \<union> set (writes obj))"
    unfolding sys_refs_pos_iff queued_iff bex_holders by (simp add: call_eps_def obj_eps_set reads_def writes_def)
  finally show ?thesis .
qed

lemma holders_ok: "sys_inv s \<Longrightarrow> obj \<in> holders s \<Longrightarrow> obj_ok (sy_heap s) obj"
  by (fastforce simp: sys_inv_def objs_ok_def pending_ok_def holders_def)

lemma sides_zero:
  assumes inv: "sys_inv s" and p: "p < length (pipes (sy_heap s))"
  shows "writers (pipes (sy_heap s) ! p) = 0 \<longleftrightarrow> \<not> can_write s p"
    and "readers (pipes (sy_heap s) ! p) = 0 \<longleftrightarrow> \<not> can_read s p"
proof -
  have side: "side (pipes (sy_heap s) ! p) r = ends (sy_heap s) p r" for r
    using inv p by (simp add: sys_inv_def heap_wf_def)
  have typed: "e \<in> set (reads obj) \<Longrightarrow> read_end (ep_of (sy_heap s) e)" "e \<in> set (writes obj) \<Longrightarrow> \<not> read_end (ep_of (sy_heap s) e)"
    if "obj \<in> holders s" for obj e
    using holders_ok[OF inv that] by (auto simp: obj_ok_def)
  show "writers (pipes (sy_heap s) ! p) = 0 \<longleftrightarrow> \<not> can_write s p"
    using side[of False] typed unfolding can_write_def by (simp add: side_def ends_zero_iff rc_pos_iff[OF inv]) blast
  show "readers (pipes (sy_heap s) ! p) = 0 \<longleftrightarrow> \<not> can_read s p"
    using side[of True] typed unfolding can_read_def by (simp add: side_def ends_zero_iff rc_pos_iff[OF inv]) blast
qed

text \<open>
  C6: in every state that any number of processes reach through open, pipe, socketpair, close,
  dup, dup2, fcntl, fork, execve, spawn, exit, socket, bind, listen, connect, accept, read and
  write, with calls that block halfway and hold clones of their endpoints: for every endpoint that
  a descriptor, a running call or a connection waiting to be accepted holds, a read reports end of
  file exactly when its queue is empty and none of these holds an endpoint that writes to it, and a
  write reports a broken pipe exactly when none of these holds an endpoint that reads from its queue.
\<close>

theorem eof_and_broken_pipe_exact:
  assumes "fd_step\<^sup>*\<^sup>* boot_sys s" "obj \<in> holders s"
  shows "(\<forall>e \<in> set (reads obj). fst (ep_read e n (sy_heap s)) = ReadEof \<longleftrightarrow>
            pbytes (pipe_of (sy_heap s) e) = [] \<and> \<not> can_write s (ep_state (ep_of (sy_heap s) e)))
       \<and> (\<forall>e \<in> set (writes obj). fst (ep_write e src (sy_heap s)) = WriteBroken \<longleftrightarrow>
            \<not> can_read s (ep_state (ep_of (sy_heap s) e)))"
proof -
  note inv = reachable_inv[OF assms(1)]
  have "ep_state (ep_of (sy_heap s) e) < length (pipes (sy_heap s))" if "e \<in> set (reads obj) \<union> set (writes obj)" for e
    by (intro sys_inv_endpoint(1)[OF inv] iffD2[OF rc_pos_iff[OF inv]] bexI[of _ obj] that assms(2))
  then show ?thesis
    using sides_zero[OF inv]
    by (simp add: ep_read_def ep_write_def pipe_read_def pipe_write_def pipe_of_def split_beta Let_def)
qed

text \<open>A process that opens a pipe and closes the write end.\<close>

definition demo_heap :: fd_heap where
  "demo_heap = \<lparr>pipes = [\<lparr>pbytes = [], readers = 1, writers = 1\<rparr>],
     arcs = [(\<lparr>ep_state = 0, read_end = True, nonblocking = False\<rparr>, 1),
             (\<lparr>ep_state = 0, read_end = False, nonblocking = False\<rparr>, 1)]\<rparr>"

definition demo_table :: fd_table where
  "demo_table = \<lparr>tslots = \<lparr>slots = [Some Stdin, Some Console, Some Console, Some (PipeRead 0), Some (PipeWrite 1)]\<rparr>,
     cloexec = {}\<rparr>"

lemma demo_pipe: "table_pipe False (sy_heap boot_sys) with_standard_streams = ((3, 4), demo_heap, demo_table)"
proof -
  have l: "lowest_free_index [Some Stdin, Some Console, Some Console] 3 = 3"
    "lowest_free_index [Some Stdin, Some Console, Some Console, Some (PipeRead 0)] 3 = 4"
    by (simp_all add: lowest_free_index.simps)
  show ?thesis
    by (simp add: table_pipe_def boot_sys_def with_standard_streams_def pipe_new_def arc_new_def table_alloc_def
        fd_alloc_def from_slots_def FIRST_DYNAMIC_FD_def l push_none_until_def demo_heap_def demo_table_def)
qed

theorem eof_and_broken_pipe_exact_witness:
  "\<exists>s. fd_step\<^sup>*\<^sup>* boot_sys s \<and> fst (ep_read 0 8 (sy_heap s)) = ReadEof \<and> \<not> can_write s 0"
proof -
  obtain r h t where c: "table_close 4 demo_heap demo_table = (r, h, t)"
    by (metis surj_pair)
  have h: "h = \<lparr>pipes = [\<lparr>pbytes = [], readers = 1, writers = 0\<rparr>],
     arcs = [(\<lparr>ep_state = 0, read_end = True, nonblocking = False\<rparr>, 1),
             (\<lparr>ep_state = 0, read_end = False, nonblocking = False\<rparr>, 0)]\<rparr>"
    and t: "table_get 3 t = Some (PipeRead 0)"
    using c by (auto simp: table_close_def fd_close_def table_get_def fd_get_def demo_table_def demo_heap_def
        obj_drop_def arc_drop_def endpoint_drop_def set_pipe_def Let_def)
  let ?s1 = "put_process 0 demo_heap (sy_unix boot_sys) demo_table boot_sys"
  let ?s = "put_process 0 h (sy_unix ?s1) t ?s1"
  have "fd_step boot_sys ?s1"
    using demo_pipe by (intro fd_pipe[where nb = False and r = "(3, 4)"]) (simp_all add: boot_sys_def)
  moreover have "fd_step ?s1 ?s"
    using c by (intro fd_close[where fd = 4 and r = r]) (simp_all add: put_process_def boot_sys_def)
  ultimately have s: "fd_step\<^sup>*\<^sup>* boot_sys ?s"
    by (rule rtranclp.rtrancl_into_rtrancl[OF r_into_rtranclp])
  have "PipeRead 0 \<in> holders ?s"
    using table_objs_get[OF t] by (simp add: holders_def put_process_def boot_sys_def)
  moreover have "fst (ep_read 0 8 h) = ReadEof" "pbytes (pipe_of h 0) = []" "ep_state (ep_of h 0) = 0"
    by (simp_all add: h ep_read_def pipe_read_def pipe_of_def ep_of_def)
  moreover have "sy_heap ?s = h"
    by (simp add: put_process_def)
  ultimately show ?thesis
    using eof_and_broken_pipe_exact[OF s, of "PipeRead 0" 8 "[]"] s by (auto simp: reads_def writes_def intro!: exI[of _ ?s])
qed

subsection \<open>Listeners that nobody holds\<close>











subsection \<open>Bytes arrive in order\<close>

datatype pipe_op = OpRead nat | OpWrite bytes

text \<open>A history of reads and writes on one queue: the bytes read and the bytes accepted.\<close>

fun pipe_run :: "pipe_op list \<Rightarrow> pipe_state \<Rightarrow> bytes \<times> bytes \<times> pipe_state" where
  "pipe_run [] s = ([], [], s)"
| "pipe_run (OpRead n # ops) s =
     (case pipe_read n s of (r, s') \<Rightarrow>
        let (out, inn, s'') = pipe_run ops s'
        in ((case r of ReadData bs \<Rightarrow> bs | _ \<Rightarrow> []) @ out, inn, s''))"
| "pipe_run (OpWrite src # ops) s =
     (case pipe_write src s of (w, s') \<Rightarrow>
        let (out, inn, s'') = pipe_run ops s'
        in (out, (case w of WriteData k \<Rightarrow> take k src | _ \<Rightarrow> []) @ inn, s''))"

text \<open>
  C19: over any interleaving of reads and writes on a queue, the bytes read so far followed by
  the bytes still queued are the bytes that were queued at the start followed by the bytes
  accepted since, in order: nothing is lost, duplicated or reordered.  The queue never exceeds
  its capacity, and a write that finds room and a reader accepts as much as fits.
\<close>

theorem pipe_fifo:
  assumes "length (pbytes s) \<le> PIPE_CAPACITY" "pipe_run ops s = (out, inn, s')"
  shows "out @ pbytes s' = pbytes s @ inn \<and> length (pbytes s') \<le> PIPE_CAPACITY
    \<and> (0 < readers s \<and> length (pbytes s) < PIPE_CAPACITY \<longrightarrow>
        fst (pipe_write src s) = WriteData (min (PIPE_CAPACITY - length (pbytes s)) (length src)))"
  using assms
proof (induction ops s arbitrary: out inn s' rule: pipe_run.induct)
  case (1 s)
  then show ?case
    by (auto simp: pipe_write_def Let_def)
next
  case (2 n ops s)
  obtain r s1 where s1: "pipe_read n s = (r, s1)" by fastforce
  obtain out1 inn1 s2 where s2: "pipe_run ops s1 = (out1, inn1, s2)" by (metis surj_pair)
  have "length (pbytes s1) \<le> PIPE_CAPACITY"
    using pipe_io_capacity(1)[OF 2(2), of n] s1 by simp
  then have "out1 @ pbytes s2 = pbytes s1 @ inn1 \<and> length (pbytes s2) \<le> PIPE_CAPACITY"
    using "2.IH"[OF s1[symmetric] _ s2] by simp
  moreover have "(case r of ReadData bs \<Rightarrow> bs | _ \<Rightarrow> []) @ pbytes s1 = pbytes s"
    using s1 by (auto simp: pipe_read_def Let_def split: if_splits)
  ultimately show ?case
    using 2(3) s1 s2 by (auto simp: pipe_write_def Let_def)
next
  case (3 src' ops s)
  obtain w s1 where s1: "pipe_write src' s = (w, s1)" by fastforce
  obtain out1 inn1 s2 where s2: "pipe_run ops s1 = (out1, inn1, s2)" by (metis surj_pair)
  have "length (pbytes s1) \<le> PIPE_CAPACITY"
    using pipe_io_capacity(2)[OF 3(2), of src'] s1 by simp
  then have "out1 @ pbytes s2 = pbytes s1 @ inn1 \<and> length (pbytes s2) \<le> PIPE_CAPACITY"
    using "3.IH"[OF s1[symmetric] _ s2] by simp
  moreover have "pbytes s1 = pbytes s @ (case w of WriteData k \<Rightarrow> take k src' | _ \<Rightarrow> [])"
    using s1 by (auto simp: pipe_write_def Let_def split: if_splits)
  ultimately show ?case
    using 3(3) s1 s2 by (auto simp: pipe_write_def Let_def)
qed

theorem pipe_fifo_witness:
  "fst (pipe_run [OpWrite [1, 2, 3], OpRead 2, OpWrite [4], OpRead 9] \<lparr>pbytes = [], readers = 1, writers = 1\<rparr>)
     = [1, 2, 3, 4]"
proof -
  let ?ops = "[OpWrite [1, 2, 3], OpRead 2, OpWrite [4], OpRead 9]"
  let ?s = "\<lparr>pbytes = [], readers = 1, writers = 1\<rparr>"
  have "pipe_run ?ops ?s = ([1, 2, 3, 4], [1, 2, 3, 4], ?s)"
    by (simp add: pipe_write_def pipe_read_def PIPE_CAPACITY_def Let_def)
  from pipe_fifo[OF _ this, of "[]"] this show ?thesis by simp
qed

subsection \<open>Descriptor numbers\<close>

text \<open>
  C25: on a table with fewer than \<open>2 ^ 32\<close> slots, \<^verbatim>\<open>alloc\<close> and \<^verbatim>\<open>fcntl(F_DUPFD)\<close> return the
  lowest descriptor that is free and not below 3 (not below the requested minimum), install
  the object there without the close-on-exec flag, and leave every other descriptor as it
  was; duplicating a descriptor that is not open fails and changes nothing.
\<close>

theorem descriptor_allocation_lowest:
  assumes room: "table_capacity t < 2 ^ 32"
  shows "(case table_alloc obj t of (fd, t') \<Rightarrow>
        3 \<le> fd \<and> table_get fd t = None \<and> (\<forall>j. 3 \<le> j \<and> j < fd \<longrightarrow> table_get j t \<noteq> None)
      \<and> (\<forall>j. table_get j t' = (if j = fd then Some obj else table_get j t)) \<and> \<not> is_cloexec fd t')
    \<and> (case dup_min old mn h t of
        (Inl e, h', t') \<Rightarrow> table_get old t = None \<and> e = EBADF \<and> h' = h \<and> t' = t
      | (Inr fd, h', t') \<Rightarrow> mn \<le> fd \<and> table_get fd t = None
          \<and> (\<forall>j. mn \<le> j \<and> j < fd \<longrightarrow> table_get j t \<noteq> None)
          \<and> (\<forall>j. table_get j t' = (if j = fd then table_get old t else table_get j t)) \<and> \<not> is_cloexec fd t')"
    (is "?A \<and> ?B")
proof
  have len: "fd_len (tslots t) < 2 ^ 32"
    using room by (simp add: table_capacity_def)
  have three: "3 \<le> j \<longleftrightarrow> FIRST_DYNAMIC_FD \<le> unat j" for j :: u32
    by (simp add: FIRST_DYNAMIC_FD_def word_le_nat_alt)
  obtain fd s where a: "fd_alloc FIRST_DYNAMIC_FD obj (tslots t) = (fd, s)" by fastforce
  have "FIRST_DYNAMIC_FD < 2 ^ 32"
    by (simp add: FIRST_DYNAMIC_FD_def)
  note p = fds.put_new[OF this len a]
  then show ?A
    by (simp add: table_alloc_def a table_get_def is_cloexec_def three)
  show ?B
  proof (cases "table_get old t")
    case None
    then show ?thesis by (simp add: dup_min_def)
  next
    case (Some ob)
    obtain fd s where a: "fd_alloc (unat mn) ob (tslots t) = (fd, s)" by fastforce
    have "unat mn < 2 ^ 32"
      using unat_bound[of mn] by simp
    note p = fds.put_new[OF this len a]
    show ?thesis
      using p Some by (simp add: dup_min_def dup_clone_fold a table_get_def is_cloexec_def word_le_nat_alt)
  qed
qed

theorem descriptor_allocation_lowest_witness:
  "table_capacity demo_table < 2 ^ 32 \<and> \<not> is_cloexec (fst (table_alloc Console demo_table)) (snd (table_alloc Console demo_table))"
proof -
  have "table_capacity demo_table < 2 ^ 32"
    by (simp add: table_capacity_def fd_len_def demo_table_def)
  from this descriptor_allocation_lowest[OF this, of Console] show ?thesis
    by (simp add: split_beta)
qed

lemma close_each_get:
  assumes "close_each fds h t = (h', t')"
  shows "table_get j t' = (if j \<in> set fds then None else table_get j t) \<and> cloexec t' = cloexec t"
  using assms
proof (induction fds h t rule: close_each.induct)
  case (2 fd fds h t)
  obtain r s where s: "fd_close fd (tslots t) = (r, s)" by fastforce
  have g: "table_get j (t\<lparr>tslots := s\<rparr>) = (if j = fd then None else table_get j t)"
    using fds.drop_at[OF s] by (simp add: table_get_def)
  show ?case
  proof (cases r)
    case (Inl e)
    then show ?thesis
      using "2.IH"(1)[OF s[symmetric] Inl] "2.prems" s g by auto
  next
    case (Inr u)
    then show ?thesis
      using "2.IH"(2)[OF s[symmetric] Inr] "2.prems" s g by auto
  qed
qed simp

text \<open>
  C20: the execve sweep closes exactly the descriptors flagged close-on-exec: every other
  descriptor still names its object, and no flag survives.
\<close>

theorem execve_sweep_exact:
  assumes "finite (cloexec t)" "close_cloexec h t = (h', t')"
  shows "(\<forall>fd. table_get fd t' = (if is_cloexec fd t then None else table_get fd t)) \<and> cloexec t' = {}"
proof -
  have "close_each (sorted_list_of_set (cloexec t)) h (t\<lparr>cloexec := {}\<rparr>) = (h', t')"
    using assms(2) by (simp add: close_cloexec_def)
  from close_each_get[OF this] show ?thesis
    using assms(1) by (simp add: is_cloexec_def table_get_def)
qed

theorem execve_sweep_exact_witness:
  "\<exists>h' t'. close_cloexec demo_heap (set_cloexec 4 True demo_table) = (h', t') \<and> table_get 4 t' = None
     \<and> table_get 3 t' = Some (PipeRead 0)"
proof -
  obtain h' t' where c: "close_cloexec demo_heap (set_cloexec 4 True demo_table) = (h', t')"
    by fastforce
  have "finite (cloexec (set_cloexec 4 True demo_table))"
    by (simp add: set_cloexec_def demo_table_def)
  note e = execve_sweep_exact[OF this c, THEN conjunct1, rule_format]
  have "table_get 4 t' = None" "table_get 3 t' = Some (PipeRead 0)"
    unfolding e by (simp_all add: is_cloexec_def set_cloexec_def demo_table_def table_get_def fd_get_def)
  with c show ?thesis by blast
qed

end
