(* ===== verification/Ext2Structs.thy ===== *)
theory Ext2Structs
  imports PaghPrelude
begin

text \<open>
  The on-disk structures of \<^verbatim>\<open>src/src/fs/ext2/structs.rs\<close>: the ext2 superblock, group
  descriptor, inode and directory-entry header, the journal's superblock, descriptor and
  commit record, their byte images, and the inline CRC-32.

  \<^verbatim>\<open>read_struct\<close> and \<^verbatim>\<open>write_struct\<close> copy a \<^verbatim>\<open>repr(C)\<close> value; the codecs below spell the copy
  out field by field at the field offsets.  The ext2 structures have no padding.  The three
  journal structures do, and their codecs leave padding bytes as the buffer has them; nothing
  reads those bytes.
\<close>

subsection \<open>Constants\<close>

definition BS :: nat where "BS = 4096"

definition SECTORS_PER_BLOCK :: nat where "SECTORS_PER_BLOCK = BS div 512"

definition INODE_SIZE :: nat where "INODE_SIZE = 128"

definition EXT2_MAGIC :: u16 where "EXT2_MAGIC = 0xEF53"

definition EXT2_ROOT_INO :: u32 where "EXT2_ROOT_INO = 2"

definition EXT2_FIRST_INO :: u32 where "EXT2_FIRST_INO = 11"

definition PTRS_PER_BLOCK :: u32 where "PTRS_PER_BLOCK = of_nat (BS div 4)"

definition S_IFREG :: u16 where "S_IFREG = 0x8000"

definition S_IFDIR :: u16 where "S_IFDIR = 0x4000"

definition S_IFLNK :: u16 where "S_IFLNK = 0xA000"

definition JNL_MAGIC :: u64 where "JNL_MAGIC = 0x504147484A4E4C01"

definition JDES_MAGIC :: u32 where "JDES_MAGIC = 0x4A444553"

definition JCMT_MAGIC :: u32 where "JCMT_MAGIC = 0x4A434D54"

definition JDESC_MAX_TARGETS :: nat where "JDESC_MAX_TARGETS = 254"

subsection \<open>Structures\<close>

record ext2_super_block =
  s_inodes_count :: u32
  s_blocks_count :: u32
  s_r_blocks_count :: u32
  s_free_blocks_count :: u32
  s_free_inodes_count :: u32
  s_first_data_block :: u32
  s_log_block_size :: u32
  s_log_frag_size :: u32
  s_blocks_per_group :: u32
  s_frags_per_group :: u32
  s_inodes_per_group :: u32
  s_mtime :: u32
  s_wtime :: u32
  s_mnt_count :: u16
  s_max_mnt_count :: u16
  s_magic :: u16
  s_state :: u16
  s_errors :: u16
  s_minor_rev_level :: u16
  s_lastcheck :: u32
  s_checkinterval :: u32
  s_creator_os :: u32
  s_rev_level :: u32
  s_def_resuid :: u16
  s_def_resgid :: u16
  s_first_ino :: u32
  s_inode_size :: u16
  s_block_group_nr :: u16
  s_feature_compat :: u32
  s_feature_incompat :: u32
  s_feature_ro_compat :: u32
  s_uuid :: bytes
  s_volume_name :: bytes

record ext2_group_desc =
  bg_block_bitmap :: u32
  bg_inode_bitmap :: u32
  bg_inode_table :: u32
  bg_free_blocks_count :: u16
  bg_free_inodes_count :: u16
  bg_used_dirs_count :: u16
  bg_pad :: u16
  bg_reserved :: bytes

record ext2_inode =
  i_mode :: u16
  i_uid :: u16
  i_size :: u32
  i_atime :: u32
  i_ctime :: u32
  i_mtime :: u32
  i_dtime :: u32
  i_gid :: u16
  i_links_count :: u16
  i_blocks :: u32
  i_flags :: u32
  i_osd1 :: u32
  i_block :: "u32 list"
  i_generation :: u32
  i_file_acl :: u32
  i_dir_acl :: u32
  i_faddr :: u32
  i_osd2 :: bytes

record ext2_dir_entry_header =
  de_inode :: u32
  de_rec_len :: u16
  de_name_len :: u8
  de_file_type :: u8

text \<open>The array fields have the lengths of their Rust types.\<close>

definition wf_super_block :: "ext2_super_block \<Rightarrow> bool" where
  "wf_super_block sb \<longleftrightarrow> length (s_uuid sb) = 16 \<and> length (s_volume_name sb) = 16"

definition wf_group_desc :: "ext2_group_desc \<Rightarrow> bool" where
  "wf_group_desc g \<longleftrightarrow> length (bg_reserved g) = 12"

definition wf_inode :: "ext2_inode \<Rightarrow> bool" where
  "wf_inode i \<longleftrightarrow> length (i_block i) = 15 \<and> length (i_osd2 i) = 12"

definition zeroed :: ext2_inode where
  "zeroed = \<lparr>i_mode = 0, i_uid = 0, i_size = 0, i_atime = 0, i_ctime = 0, i_mtime = 0, i_dtime = 0,
     i_gid = 0, i_links_count = 0, i_blocks = 0, i_flags = 0, i_osd1 = 0, i_block = replicate 15 0,
     i_generation = 0, i_file_acl = 0, i_dir_acl = 0, i_faddr = 0, i_osd2 = replicate 12 0\<rparr>"

definition is_dir :: "ext2_inode \<Rightarrow> bool" where
  "is_dir i \<longleftrightarrow> i_mode i AND 0xF000 = S_IFDIR"

definition is_reg :: "ext2_inode \<Rightarrow> bool" where
  "is_reg i \<longleftrightarrow> i_mode i AND 0xF000 = S_IFREG"

definition is_symlink :: "ext2_inode \<Rightarrow> bool" where
  "is_symlink i \<longleftrightarrow> i_mode i AND 0xF000 = S_IFLNK"

definition is_power_of_two :: "nat \<Rightarrow> bool" where
  "is_power_of_two n \<longleftrightarrow> list_ex (\<lambda>k. n = 2 ^ k) [0..<64]"

definition inode_size :: "ext2_super_block \<Rightarrow> nat" where
  "inode_size sb =
     (let v = unat (s_inode_size sb)
      in if s_rev_level sb = 0 \<or> v < INODE_SIZE \<or> BS < v \<or> \<not> is_power_of_two v then INODE_SIZE
         else v)"

subsection \<open>Byte images\<close>

definition read_u16 :: "bytes \<Rightarrow> nat \<Rightarrow> u16" where
  "read_u16 buf off = of_le (sub_bytes buf off 2)"

definition read_u32 :: "bytes \<Rightarrow> nat \<Rightarrow> u32" where
  "read_u32 buf off = of_le (sub_bytes buf off 4)"

definition read_u64 :: "bytes \<Rightarrow> nat \<Rightarrow> u64" where
  "read_u64 buf off = of_le (sub_bytes buf off 8)"

definition write_u32 :: "bytes \<Rightarrow> nat \<Rightarrow> u32 \<Rightarrow> bytes" where
  "write_u32 buf off v = put_bytes buf off (le_bytes 4 v)"

definition enc_super_block :: "ext2_super_block \<Rightarrow> bytes" where
  "enc_super_block sb =
     le_bytes 4 (s_inodes_count sb) @ le_bytes 4 (s_blocks_count sb) @ le_bytes 4 (s_r_blocks_count sb)
   @ le_bytes 4 (s_free_blocks_count sb) @ le_bytes 4 (s_free_inodes_count sb)
   @ le_bytes 4 (s_first_data_block sb) @ le_bytes 4 (s_log_block_size sb) @ le_bytes 4 (s_log_frag_size sb)
   @ le_bytes 4 (s_blocks_per_group sb) @ le_bytes 4 (s_frags_per_group sb)
   @ le_bytes 4 (s_inodes_per_group sb) @ le_bytes 4 (s_mtime sb) @ le_bytes 4 (s_wtime sb)
   @ le_bytes 2 (s_mnt_count sb) @ le_bytes 2 (s_max_mnt_count sb) @ le_bytes 2 (s_magic sb)
   @ le_bytes 2 (s_state sb) @ le_bytes 2 (s_errors sb) @ le_bytes 2 (s_minor_rev_level sb)
   @ le_bytes 4 (s_lastcheck sb) @ le_bytes 4 (s_checkinterval sb) @ le_bytes 4 (s_creator_os sb)
   @ le_bytes 4 (s_rev_level sb) @ le_bytes 2 (s_def_resuid sb) @ le_bytes 2 (s_def_resgid sb)
   @ le_bytes 4 (s_first_ino sb) @ le_bytes 2 (s_inode_size sb) @ le_bytes 2 (s_block_group_nr sb)
   @ le_bytes 4 (s_feature_compat sb) @ le_bytes 4 (s_feature_incompat sb)
   @ le_bytes 4 (s_feature_ro_compat sb) @ s_uuid sb @ s_volume_name sb"

definition dec_super_block :: "bytes \<Rightarrow> ext2_super_block" where
  "dec_super_block b =
     \<lparr>s_inodes_count = read_u32 b 0x00, s_blocks_count = read_u32 b 0x04, s_r_blocks_count = read_u32 b 0x08,
      s_free_blocks_count = read_u32 b 0x0C, s_free_inodes_count = read_u32 b 0x10,
      s_first_data_block = read_u32 b 0x14, s_log_block_size = read_u32 b 0x18, s_log_frag_size = read_u32 b 0x1C,
      s_blocks_per_group = read_u32 b 0x20, s_frags_per_group = read_u32 b 0x24,
      s_inodes_per_group = read_u32 b 0x28, s_mtime = read_u32 b 0x2C, s_wtime = read_u32 b 0x30,
      s_mnt_count = read_u16 b 0x34, s_max_mnt_count = read_u16 b 0x36, s_magic = read_u16 b 0x38,
      s_state = read_u16 b 0x3A, s_errors = read_u16 b 0x3C, s_minor_rev_level = read_u16 b 0x3E,
      s_lastcheck = read_u32 b 0x40, s_checkinterval = read_u32 b 0x44, s_creator_os = read_u32 b 0x48,
      s_rev_level = read_u32 b 0x4C, s_def_resuid = read_u16 b 0x50, s_def_resgid = read_u16 b 0x52,
      s_first_ino = read_u32 b 0x54, s_inode_size = read_u16 b 0x58, s_block_group_nr = read_u16 b 0x5A,
      s_feature_compat = read_u32 b 0x5C, s_feature_incompat = read_u32 b 0x60,
      s_feature_ro_compat = read_u32 b 0x64, s_uuid = sub_bytes b 0x68 16, s_volume_name = sub_bytes b 0x78 16\<rparr>"

definition enc_group_desc :: "ext2_group_desc \<Rightarrow> bytes" where
  "enc_group_desc g =
     le_bytes 4 (bg_block_bitmap g) @ le_bytes 4 (bg_inode_bitmap g) @ le_bytes 4 (bg_inode_table g)
   @ le_bytes 2 (bg_free_blocks_count g) @ le_bytes 2 (bg_free_inodes_count g)
   @ le_bytes 2 (bg_used_dirs_count g) @ le_bytes 2 (bg_pad g) @ bg_reserved g"

definition dec_group_desc :: "bytes \<Rightarrow> ext2_group_desc" where
  "dec_group_desc b =
     \<lparr>bg_block_bitmap = read_u32 b 0, bg_inode_bitmap = read_u32 b 4, bg_inode_table = read_u32 b 8,
      bg_free_blocks_count = read_u16 b 12, bg_free_inodes_count = read_u16 b 14,
      bg_used_dirs_count = read_u16 b 16, bg_pad = read_u16 b 18, bg_reserved = sub_bytes b 20 12\<rparr>"

definition enc_inode :: "ext2_inode \<Rightarrow> bytes" where
  "enc_inode i =
     le_bytes 2 (i_mode i) @ le_bytes 2 (i_uid i) @ le_bytes 4 (i_size i) @ le_bytes 4 (i_atime i)
   @ le_bytes 4 (i_ctime i) @ le_bytes 4 (i_mtime i) @ le_bytes 4 (i_dtime i) @ le_bytes 2 (i_gid i)
   @ le_bytes 2 (i_links_count i) @ le_bytes 4 (i_blocks i) @ le_bytes 4 (i_flags i) @ le_bytes 4 (i_osd1 i)
   @ concat (map (le_bytes 4) (i_block i)) @ le_bytes 4 (i_generation i) @ le_bytes 4 (i_file_acl i)
   @ le_bytes 4 (i_dir_acl i) @ le_bytes 4 (i_faddr i) @ i_osd2 i"

definition dec_inode :: "bytes \<Rightarrow> ext2_inode" where
  "dec_inode b =
     \<lparr>i_mode = read_u16 b 0, i_uid = read_u16 b 2, i_size = read_u32 b 4, i_atime = read_u32 b 8,
      i_ctime = read_u32 b 12, i_mtime = read_u32 b 16, i_dtime = read_u32 b 20, i_gid = read_u16 b 24,
      i_links_count = read_u16 b 26, i_blocks = read_u32 b 28, i_flags = read_u32 b 32, i_osd1 = read_u32 b 36,
      i_block = map (\<lambda>k. read_u32 b (40 + 4 * k)) [0..<15], i_generation = read_u32 b 100,
      i_file_acl = read_u32 b 104, i_dir_acl = read_u32 b 108, i_faddr = read_u32 b 112,
      i_osd2 = sub_bytes b 116 12\<rparr>"

definition enc_dir_header :: "ext2_dir_entry_header \<Rightarrow> bytes" where
  "enc_dir_header h = le_bytes 4 (de_inode h) @ le_bytes 2 (de_rec_len h) @ [de_name_len h, de_file_type h]"

definition dec_dir_header :: "bytes \<Rightarrow> ext2_dir_entry_header" where
  "dec_dir_header b =
     \<lparr>de_inode = read_u32 b 0, de_rec_len = read_u16 b 4, de_name_len = b ! 6, de_file_type = b ! 7\<rparr>"

text \<open>\<^verbatim>\<open>write_struct\<close> into a buffer: the image replaces the first bytes.\<close>

definition write_struct :: "bytes \<Rightarrow> bytes \<Rightarrow> bytes" where
  "write_struct buf img = put_bytes buf 0 img"

subsection \<open>CRC-32\<close>

definition crc_step :: "u32 \<Rightarrow> u32" where
  "crc_step crc = drop_bit 1 crc XOR (0xEDB88320 AND (- (crc AND 1)))"

definition crc_byte :: "u8 \<Rightarrow> u32 \<Rightarrow> u32" where
  "crc_byte b crc = (crc_step ^^ 8) (crc XOR ucast b)"

definition crc32 :: "bytes \<Rightarrow> u32" where
  "crc32 data = NOT (fold crc_byte data 0xFFFFFFFF)"

definition crc32_slices :: "bytes list \<Rightarrow> u32" where
  "crc32_slices ss = NOT (fold (\<lambda>s crc. fold crc_byte s crc) ss 0xFFFFFFFF)"

definition align4 :: "nat \<Rightarrow> nat" where
  "align4 n = (n + 3) div 4 * 4"

subsection \<open>Round trips of the codecs\<close>

lemma sub_bytes_append [buf_simps]:
  "length a \<le> off \<Longrightarrow> sub_bytes (a @ b) off n = sub_bytes b (off - length a) n"
  by (simp add: sub_bytes_def)

lemma sub_bytes_append_here [buf_simps]: "n = length a \<Longrightarrow> sub_bytes (a @ b) 0 n = a"
  by (simp add: sub_bytes_def)

lemma sub_bytes_all [buf_simps]: "n = length a \<Longrightarrow> sub_bytes a 0 n = a"
  by (simp add: sub_bytes_def)

lemma of_le_u16 [simp]: "of_le (le_bytes 2 w) = (w :: u16)"
  by (rule of_le_le_bytes) simp

lemma of_le_u32 [simp]: "of_le (le_bytes 4 w) = (w :: u32)"
  by (rule of_le_le_bytes) simp

lemma of_le_u64 [simp]: "of_le (le_bytes 8 w) = (w :: u64)"
  by (rule of_le_le_bytes) simp

lemma dec_enc_super_block: "wf_super_block sb \<Longrightarrow> dec_super_block (enc_super_block sb @ rest) = sb"
  by (simp add: dec_super_block_def enc_super_block_def wf_super_block_def read_u32_def read_u16_def buf_simps)

lemma dec_enc_group_desc: "wf_group_desc g \<Longrightarrow> dec_group_desc (enc_group_desc g @ rest) = g"
  by (simp add: dec_group_desc_def enc_group_desc_def wf_group_desc_def read_u32_def read_u16_def buf_simps)

lemma length_concat_le_bytes [simp]: "length (concat (map (le_bytes n) ws)) = n * length ws"
  by (induction ws) simp_all

lemma sub_concat_le_bytes:
  "k < length ws \<Longrightarrow> sub_bytes (concat (map (le_bytes n) ws) @ rest) (n * k) n = le_bytes n (ws ! k)"
proof (induction ws arbitrary: k)
  case (Cons w ws)
  show ?case
  proof (cases k)
    case 0
    then show ?thesis by (simp add: buf_simps)
  next
    case (Suc j)
    then show ?thesis
      using Cons by (simp add: buf_simps)
  qed
qed simp

lemma dec_enc_inode: "wf_inode i \<Longrightarrow> dec_inode (enc_inode i @ rest) = i"
proof -
  assume wf: "wf_inode i"
  have "map (\<lambda>k. read_u32 (enc_inode i @ rest) (40 + 4 * k)) [0..<15] = i_block i"
  proof (rule nth_equalityI)
    show "length (map (\<lambda>k. read_u32 (enc_inode i @ rest) (40 + 4 * k)) [0..<15]) = length (i_block i)"
      using wf by (simp add: wf_inode_def)
    fix k assume "k < length (map (\<lambda>k. read_u32 (enc_inode i @ rest) (40 + 4 * k)) [0..<15])"
    then have k: "k < 15" by simp
    have "sub_bytes (enc_inode i @ rest) (40 + 4 * k) 4 = le_bytes 4 (i_block i ! k)"
      using wf k sub_concat_le_bytes[of k "i_block i" 4]
      by (simp add: enc_inode_def buf_simps wf_inode_def)
    then show "map (\<lambda>k. read_u32 (enc_inode i @ rest) (40 + 4 * k)) [0..<15] ! k = i_block i ! k"
      using k by (simp add: read_u32_def)
  qed
  then show ?thesis
    using wf by (simp add: dec_inode_def) (simp add: enc_inode_def wf_inode_def read_u32_def read_u16_def buf_simps)
qed

lemma dec_enc_dir_header: "dec_dir_header (enc_dir_header h @ rest) = h"
  by (simp add: dec_dir_header_def enc_dir_header_def read_u32_def read_u16_def buf_simps nth_append)

lemma length_enc [simp]:
  "wf_super_block sb \<Longrightarrow> length (enc_super_block sb) = 0x88"
  "wf_group_desc g \<Longrightarrow> length (enc_group_desc g) = 32"
  "wf_inode i \<Longrightarrow> length (enc_inode i) = 128"
  "length (enc_dir_header h) = 8"
  by (simp_all add: enc_super_block_def wf_super_block_def enc_group_desc_def wf_group_desc_def
      enc_inode_def wf_inode_def enc_dir_header_def)

subsection \<open>CRC-32 detects short bursts\<close>

lemma crc_mask: "- (c AND 1) = (if bit c 0 then - 1 else (0 :: u32))"
  by (simp add: and_one_eq mod_2_eq_odd bit_0)

lemma crc_step_alt: "crc_step c = drop_bit 1 c XOR (if bit c 0 then 0xEDB88320 else 0)"
  by (simp add: crc_step_def crc_mask)

lemma crc_step_linear: "crc_step (a XOR b) = crc_step a XOR crc_step b"
proof -
  have "drop_bit 1 (a XOR b) = drop_bit 1 a XOR drop_bit 1 b"
    by (rule bit_word_eqI) (simp add: bit_simps)
  then show ?thesis
    by (simp add: crc_step_alt bit_xor_iff ac_simps)
qed

lemma crc_steps_linear: "(crc_step ^^ n) (a XOR b) = (crc_step ^^ n) a XOR (crc_step ^^ n) b"
  by (induction n) (simp_all add: crc_step_linear)

lemma xor_right_cancel: "a XOR c = b XOR c \<longleftrightarrow> a = (b :: 'a::len word)"
  by (auto simp: bit_eq_iff bit_xor_iff)

lemma crc_step_inj: "inj crc_step"
proof (rule injI)
  fix a b assume eq: "crc_step a = crc_step b"
  have top: "bit (crc_step c) 31 \<longleftrightarrow> bit c 0" for c :: u32
  proof -
    have "bit (0xEDB88320 :: u32) 31"
      by simp
    moreover have "\<not> bit c 32"
      using bit_imp_le_length[of c 32] by auto
    ultimately show ?thesis
      by (simp add: crc_step_alt bit_simps)
  qed
  then have b0: "bit a 0 = bit b 0"
    using eq by metis
  then have "drop_bit 1 a = drop_bit 1 b"
    using eq by (simp add: crc_step_alt xor_right_cancel split: if_splits)
  then have s: "bit a (Suc n) = bit b (Suc n)" for n
    using fun_cong[OF bit_drop_bit_eq[of 1 a], of n] fun_cong[OF bit_drop_bit_eq[of 1 b], of n] by simp
  show "a = b"
  proof (rule bit_word_eqI)
    fix n show "bit a n = bit b n"
      using b0 s by (cases n) auto
  qed
qed

lemma crc_steps_inj: "(crc_step ^^ n) a = (crc_step ^^ n) b \<Longrightarrow> a = b"
  by (induction n) (auto dest: injD[OF crc_step_inj])

lemma crc_steps_push:
  "take_bit (32 - k) y = y \<Longrightarrow> k \<le> 32 \<Longrightarrow> (crc_step ^^ k) (push_bit k y) = y"
proof (induction k)
  case (Suc k)
  have y: "take_bit (32 - k) y = y"
  proof -
    have "take_bit (32 - k) (take_bit (32 - Suc k) y) = take_bit (32 - Suc k) y"
      by (simp add: min_absorb2)
    then show ?thesis
      unfolding Suc.prems(1) .
  qed
  have "crc_step (push_bit (Suc k) y) = push_bit k y"
  proof (rule bit_word_eqI)
    fix n assume n: "n < LENGTH(32)"
    have "\<not> bit (push_bit (Suc k) y) 0"
      by (simp add: bit_simps del: push_bit_Suc)
    moreover have "\<not> (n = 31 \<and> k \<le> 31 \<and> bit y (31 - k))"
      using Suc.prems(1) bit_take_bit_iff[of "32 - Suc k" y "31 - k"] by auto
    ultimately show "bit (crc_step (push_bit (Suc k) y)) n = bit (push_bit k y) n"
      using n by (cases "n = 31") (auto simp: crc_step_alt bit_simps Suc_diff_le simp del: push_bit_Suc)
  qed
  then show ?case
    using Suc.IH[OF y] Suc.prems(2) by (simp add: funpow_swap1 del: push_bit_Suc)
qed simp

text \<open>Up to four bytes at once: they enter the register together.\<close>

lemma of_le_small: "length bs \<le> n \<Longrightarrow> take_bit (8 * n) (of_le bs :: 'a::len word) = of_le bs"
proof (rule bit_word_eqI)
  fix k assume "length bs \<le> n" "k < LENGTH('a)"
  then show "bit (take_bit (8 * n) (of_le bs :: 'a word)) k = bit (of_le bs :: 'a word) k"
    by (auto simp: bit_simps bit_of_le)
qed

lemma crc_bytes: "length bs \<le> 4 \<Longrightarrow> fold crc_byte bs c = (crc_step ^^ (8 * length bs)) (c XOR of_le bs)"
proof (induction bs arbitrary: c)
  case (Cons b bs)
  have "take_bit (32 - 8) (of_le bs :: u32) = of_le bs"
    using Cons.prems of_le_small[of bs 3] by simp
  then have p: "(crc_step ^^ 8) (push_bit 8 (of_le bs)) = (of_le bs :: u32)"
    by (intro crc_steps_push) simp_all
  have or: "ucast b OR push_bit 8 (of_le bs) = (ucast b XOR push_bit 8 (of_le bs) :: u32)"
    by (rule bit_word_eqI) (auto simp: bit_simps dest: bit_imp_le_length)
  have "c XOR of_le (b # bs) = (c XOR ucast b) XOR push_bit 8 (of_le bs)"
    by (simp only: of_le.simps or xor.assoc)
  then have "(crc_step ^^ 8) (c XOR of_le (b # bs)) = crc_byte b c XOR of_le bs"
    by (simp only: crc_steps_linear[of 8 "c XOR ucast b"] p crc_byte_def)
  moreover have "fold crc_byte (b # bs) c = (crc_step ^^ (8 * length bs)) (crc_byte b c XOR of_le bs)"
    using Cons by simp
  moreover have "8 * length (b # bs) = 8 * length bs + 8"
    by simp
  ultimately show ?case
    by (simp only: funpow_add comp_apply)
qed simp

lemma crc_byte_inj: "crc_byte b c = crc_byte b d \<Longrightarrow> c = d"
  unfolding crc_byte_def by (drule crc_steps_inj) (simp add: xor_right_cancel)

lemma fold_crc_inj: "fold crc_byte bs c = fold crc_byte bs d \<Longrightarrow> c = d"
  by (induction bs arbitrary: c d) (auto dest: crc_byte_inj)

lemma of_le_inj:
  assumes "length x = length y" "8 * length y \<le> LENGTH('a)" "(of_le x :: 'a::len word) = of_le y"
  shows "x = y"
  using le_bytes_of_le[OF assms(1,2)] le_bytes_of_le[OF refl assms(2)] unfolding assms(3) by (rule trans[OF sym])

lemma crc32_slices_concat: "crc32_slices ss = crc32 (concat ss)"
proof -
  have "fold (\<lambda>s crc. fold crc_byte s crc) ss c = fold crc_byte (concat ss) c" for c
    by (induction ss arbitrary: c) simp_all
  then show ?thesis
    by (simp add: crc32_slices_def crc32_def)
qed

lemma crc32_burst_ne:
  assumes "length x = length y" "length y \<le> 4" "x \<noteq> y"
  shows "crc32 (pre @ x @ post) \<noteq> crc32 (pre @ y @ post)"
proof
  assume "crc32 (pre @ x @ post) = crc32 (pre @ y @ post)"
  then have "fold crc_byte x (fold crc_byte pre 0xFFFFFFFF) = fold crc_byte y (fold crc_byte pre 0xFFFFFFFF)"
    by (simp add: crc32_def bit.compl_eq_compl_iff) (auto dest: fold_crc_inj)
  then have "fold crc_byte pre 0xFFFFFFFF XOR of_le x = fold crc_byte pre 0xFFFFFFFF XOR of_le y"
    using assms(1,2) by (simp add: crc_bytes) (rule crc_steps_inj)
  then have "(of_le x :: u32) = of_le y"
    by (simp only: xor.commute[of "fold crc_byte pre 0xFFFFFFFF"] xor_right_cancel)
  then show False
    using of_le_inj[OF assms(1), where 'a=32] assms(2,3) by simp
qed

end
