(* ===== verification/BlockDev.thy ===== *)
theory BlockDev
  imports Ext2Structs
begin

text \<open>
  The block device behind the file system.  The trait \<^verbatim>\<open>BlockDevice\<close> of
  \<^verbatim>\<open>src/src/drivers/mod.rs\<close> documents a device with a volatile write cache: a write is
  acknowledged before it is on the medium, \<^verbatim>\<open>flush\<close> makes every acknowledged write durable,
  and a power loss keeps any subset of the writes that were not flushed, in any order.  The
  model is that device: a medium, the writes in the cache (oldest first), a capacity, and a
  fuse that says after how many further commands the device stops answering.  Commands
  transfer whole 4096-byte file-system blocks at eight-sector alignment, as every caller does;
  a block is the unit that survives a power loss whole.
\<close>

datatype fs_error =
    BadSuperBlock | BadJournal | OutOfSpace | NotFound | AlreadyExists | IoError | NameTooLong
  | Corrupt | FileTooBig

record dev =
  medium :: "nat \<Rightarrow> bytes"
  cache :: "(nat \<times> bytes) list"
  capacity :: nat
  fuse :: "nat option"

type_synonym 'a io = "dev \<Rightarrow> (fs_error + 'a) \<times> dev"

definition io_return :: "'a \<Rightarrow> 'a io" where
  "io_return x d = (Inr x, d)"

definition io_bind :: "'a io \<Rightarrow> ('a \<Rightarrow> 'b io) \<Rightarrow> 'b io" where
  "io_bind m f d = (case m d of (Inl e, d') \<Rightarrow> (Inl e, d') | (Inr x, d') \<Rightarrow> f x d')"

text \<open>What a read sees: the newest cached write to the block, else the medium.\<close>

definition view :: "dev \<Rightarrow> nat \<Rightarrow> bytes" where
  "view d = fold (\<lambda>(u, b) f. f(u := b)) (cache d) (medium d)"

definition tick :: "dev \<Rightarrow> dev option" where
  "tick d = (case fuse d of None \<Rightarrow> Some d | Some 0 \<Rightarrow> None | Some (Suc n) \<Rightarrow> Some (d\<lparr>fuse := Some n\<rparr>))"

definition dev_read_block :: "nat \<Rightarrow> dev \<Rightarrow> (unit + bytes) \<times> dev" where
  "dev_read_block sector d =
     (case tick d of
        None \<Rightarrow> (Inl (), d)
      | Some d \<Rightarrow> if sector div SECTORS_PER_BLOCK < capacity d
                  then (Inr (view d (sector div SECTORS_PER_BLOCK)), d) else (Inl (), d))"

definition dev_write_block :: "nat \<Rightarrow> bytes \<Rightarrow> dev \<Rightarrow> (unit + unit) \<times> dev" where
  "dev_write_block sector data d =
     (case tick d of
        None \<Rightarrow> (Inl (), d)
      | Some d \<Rightarrow> if sector div SECTORS_PER_BLOCK < capacity d
                  then (Inr (), d\<lparr>cache := cache d @ [(sector div SECTORS_PER_BLOCK, data)]\<rparr>)
                  else (Inl (), d))"

definition dev_flush :: "dev \<Rightarrow> (unit + unit) \<times> dev" where
  "dev_flush d =
     (case tick d of None \<Rightarrow> (Inl (), d) | Some d \<Rightarrow> (Inr (), d\<lparr>medium := view d, cache := []\<rparr>))"

text \<open>The helpers of \<^verbatim>\<open>fs/journal.rs\<close>: file-system blocks over sectors, errors as \<^verbatim>\<open>IoError\<close>.\<close>

definition read_block :: "nat \<Rightarrow> bytes io" where
  "read_block fs_block d =
     (case dev_read_block ((fs_block * SECTORS_PER_BLOCK) mod 2 ^ 64) d of
        (Inl e, d) \<Rightarrow> (Inl IoError, d) | (Inr b, d) \<Rightarrow> (Inr b, d))"

definition write_block :: "nat \<Rightarrow> bytes \<Rightarrow> unit io" where
  "write_block fs_block data d =
     (case dev_write_block ((fs_block * SECTORS_PER_BLOCK) mod 2 ^ 64) data d of
        (Inl e, d) \<Rightarrow> (Inl IoError, d) | (Inr u, d) \<Rightarrow> (Inr u, d))"

definition flush :: "unit io" where
  "flush d = (case dev_flush d of (Inl e, d) \<Rightarrow> (Inl IoError, d) | (Inr u, d) \<Rightarrow> (Inr u, d))"

text \<open>Several writes in order, stopping at the first error.\<close>

fun write_all :: "(nat \<times> bytes) list \<Rightarrow> unit io" where
  "write_all [] = io_return ()"
| "write_all ((b, data) # ws) = io_bind (write_block b data) (\<lambda>_. write_all ws)"

fun read_all :: "nat list \<Rightarrow> bytes list io" where
  "read_all [] = io_return []"
| "read_all (b # bs) = io_bind (read_block b) (\<lambda>x. io_bind (read_all bs) (\<lambda>xs. io_return (x # xs)))"

subsection \<open>Power loss\<close>

text \<open>
  \<open>survives d s\<close>: the medium may read \<open>s\<close> after a power loss.  \<open>power_on\<close> is the device at the
  next boot.
\<close>

definition survives :: "dev \<Rightarrow> (nat \<Rightarrow> bytes) \<Rightarrow> bool" where
  "survives d s \<longleftrightarrow> (\<forall>u. s u = medium d u \<or> (u, s u) \<in> set (cache d))"

definition power_on :: "nat \<Rightarrow> (nat \<Rightarrow> bytes) \<Rightarrow> dev" where
  "power_on cap s = \<lparr>medium = s, cache = [], capacity = cap, fuse = None\<rparr>"

subsection \<open>Effects of the commands\<close>

definition max_blocks :: nat where
  "max_blocks = 2 ^ 60"

lemma block_unit: "b < max_blocks \<Longrightarrow> (b * SECTORS_PER_BLOCK) mod 2 ^ 64 div SECTORS_PER_BLOCK = b"
  by (simp add: SECTORS_PER_BLOCK_def BS_def max_blocks_def)

lemmas block_unit_num = block_unit[simplified]

lemma view_append: "view (d\<lparr>cache := cache d @ [(u, b)]\<rparr>) = (view d)(u := b)"
  by (simp add: view_def)

lemma view_empty [simp]: "cache d = [] \<Longrightarrow> view d = medium d"
  by (simp add: view_def)

lemma view_fuse [simp]: "view (d\<lparr>fuse := n\<rparr>) = view d"
  by (simp add: view_def)

lemma fold_upd_cases:
  "fold (\<lambda>(u, b) f. f(u := b)) ws f u = f u \<or> (u, fold (\<lambda>(u, b) f. f(u := b)) ws f u) \<in> set ws"
proof (induction ws arbitrary: f)
  case (Cons w ws)
  obtain v b where w: "w = (v, b)" by (cases w)
  show ?case
    using Cons[of "f(v := b)"] by (auto simp: w split: if_splits)
qed simp

lemma survives_view: "survives d (view d)"
  unfolding survives_def view_def by (rule allI) (rule fold_upd_cases)

lemma tick_cases:
  obtains (dead) "tick d = None" | (alive) n where "tick d = Some (d\<lparr>fuse := n\<rparr>)" "fuse d = None \<longleftrightarrow> n = None"
proof (cases "fuse d")
  case None
  then have "tick d = Some (d\<lparr>fuse := None\<rparr>)"
    by (simp add: tick_def)
  then show thesis using alive None by blast
next
  case (Some n)
  then show thesis
    using dead alive[of "Some (n - 1)"] by (cases n) (auto simp: tick_def)
qed

lemma tick_None [simp]: "fuse d = None \<Longrightarrow> tick d = Some d"
  by (simp add: tick_def)

end
