(* ===== verification/Journal.thy ===== *)
theory Journal
  imports BlockDev
begin

text \<open>
  The write-ahead log of \<^verbatim>\<open>src/src/fs/journal.rs\<close>: the on-disk journal superblock, descriptor
  and commit records at byte level, \<^verbatim>\<open>format\<close>, \<^verbatim>\<open>open\<close>, \<^verbatim>\<open>log_block\<close>, \<^verbatim>\<open>commit\<close> and
  \<^verbatim>\<open>recover\<close>.

  The \<^verbatim>\<open>u64\<close> fields are natural numbers below \<open>2 ^ 64\<close> with the wrap-around of a release build
  written out (\<open>wadd\<close>, \<open>wsub\<close>).  The device is the state that the operations thread; every
  early return of the code is a branch that keeps what was changed up to it.
\<close>

definition wadd :: "nat \<Rightarrow> nat \<Rightarrow> nat" where "wadd a b = (a + b) mod 2 ^ 64"

definition wsub :: "nat \<Rightarrow> nat \<Rightarrow> nat" where "wsub a b = (a + 2 ^ 64 - b) mod 2 ^ 64"

subsection \<open>On-disk records\<close>

record journal_super =
  js_magic :: u64
  js_head :: nat
  js_tail :: nat
  js_next_seq :: nat
  js_log_blocks :: nat
  js_fs_blocks :: nat
  js_checksum :: u32

record journal_descriptor =
  jd_magic :: u32
  jd_seq :: nat
  jd_count :: nat
  jd_targets :: "nat list"

record journal_commit =
  jc_magic :: u32
  jc_seq :: nat
  jc_data_checksum :: u32
  jc_pad :: u32

definition put_u64 :: "nat \<Rightarrow> nat \<Rightarrow> bytes \<Rightarrow> bytes" where
  "put_u64 off n buf = put_bytes buf off (le_bytes 8 (of_nat n :: u64))"

definition put_u32 :: "nat \<Rightarrow> u32 \<Rightarrow> bytes \<Rightarrow> bytes" where
  "put_u32 off w buf = put_bytes buf off (le_bytes 4 w)"

definition get_u64 :: "bytes \<Rightarrow> nat \<Rightarrow> nat" where
  "get_u64 buf off = unat (read_u64 buf off)"

definition JOURNAL_SUPER_SIZE :: nat where "JOURNAL_SUPER_SIZE = 56"

definition store_journal_super :: "bytes \<Rightarrow> journal_super \<Rightarrow> bytes" where
  "store_journal_super buf js =
     (let buf = put_u64 0 (unat (js_magic js)) buf;
          buf = put_u64 8 (js_head js) buf;
          buf = put_u64 16 (js_tail js) buf;
          buf = put_u64 24 (js_next_seq js) buf;
          buf = put_u64 32 (js_log_blocks js) buf;
          buf = put_u64 40 (js_fs_blocks js) buf;
          buf = put_u32 48 (js_checksum js) buf;
          csum_off = JOURNAL_SUPER_SIZE - 4;
          checksum = crc32 (take csum_off buf)
      in write_u32 buf csum_off checksum)"

definition load_journal_super :: "bytes \<Rightarrow> fs_error + journal_super" where
  "load_journal_super buf =
     (let js = \<lparr>js_magic = read_u64 buf 0, js_head = get_u64 buf 8, js_tail = get_u64 buf 16,
                js_next_seq = get_u64 buf 24, js_log_blocks = get_u64 buf 32,
                js_fs_blocks = get_u64 buf 40, js_checksum = read_u32 buf 48\<rparr>;
          stored = read_u32 buf (JOURNAL_SUPER_SIZE - 4)
      in if crc32 (take (JOURNAL_SUPER_SIZE - 4) buf) \<noteq> stored then Inl BadJournal else Inr js)"

definition store_descriptor :: "bytes \<Rightarrow> journal_descriptor \<Rightarrow> bytes" where
  "store_descriptor buf d =
     (let buf = put_u32 0 (jd_magic d) buf;
          buf = put_u64 8 (jd_seq d) buf;
          buf = put_u32 16 (of_nat (jd_count d)) buf
      in put_bytes buf 24 (concat (map (\<lambda>t. le_bytes 8 (of_nat t :: u64)) (jd_targets d))))"

definition load_descriptor :: "bytes \<Rightarrow> journal_descriptor" where
  "load_descriptor buf =
     \<lparr>jd_magic = read_u32 buf 0, jd_seq = get_u64 buf 8, jd_count = unat (read_u32 buf 16),
      jd_targets = map (\<lambda>i. get_u64 buf (24 + 8 * i)) [0..<JDESC_MAX_TARGETS]\<rparr>"

definition store_commit :: "bytes \<Rightarrow> journal_commit \<Rightarrow> bytes" where
  "store_commit buf c =
     (let buf = put_u32 0 (jc_magic c) buf;
          buf = put_u64 8 (jc_seq c) buf;
          buf = put_u32 16 (jc_data_checksum c) buf
      in put_u32 20 (jc_pad c) buf)"

definition load_commit :: "bytes \<Rightarrow> journal_commit" where
  "load_commit buf =
     \<lparr>jc_magic = read_u32 buf 0, jc_seq = get_u64 buf 8, jc_data_checksum = read_u32 buf 16,
      jc_pad = read_u32 buf 20\<rparr>"

definition zero_block :: bytes where "zero_block = replicate BS 0"

subsection \<open>The journal\<close>

record journal_area =
  ja_super_block :: nat
  ja_log_blocks :: nat
  ja_fs_blocks :: nat

type_synonym txn = "(nat \<times> bytes) list"

record journal =
  super_block :: nat
  log_start :: nat
  log_blocks :: nat
  fs_blocks :: nat
  head :: nat
  tail :: nat
  next_seq :: nat

definition log_block_addr :: "journal \<Rightarrow> nat \<Rightarrow> nat" where
  "log_block_addr j pos = wadd (log_start j) (pos mod log_blocks j)"

definition read_log :: "journal \<Rightarrow> nat \<Rightarrow> bytes io" where
  "read_log j pos = read_block (log_block_addr j pos)"

definition write_log :: "journal \<Rightarrow> nat \<Rightarrow> bytes \<Rightarrow> unit io" where
  "write_log j pos data = write_block (log_block_addr j pos) data"

definition journal_format :: "journal_area \<Rightarrow> unit io" where
  "journal_format area =
     (let js = \<lparr>js_magic = JNL_MAGIC, js_head = 0, js_tail = 0, js_next_seq = 1,
                js_log_blocks = ja_log_blocks area, js_fs_blocks = ja_fs_blocks area, js_checksum = 0\<rparr>
      in io_bind (write_block (ja_super_block area) (store_journal_super zero_block js))
           (\<lambda>_. write_block (wadd (ja_super_block area) 1) zero_block))"

definition journal_open :: "journal_area \<Rightarrow> journal io" where
  "journal_open area =
     io_bind (read_block (ja_super_block area)) (\<lambda>buf d.
       case load_journal_super buf of
         Inl e \<Rightarrow> (Inl e, d)
       | Inr js \<Rightarrow>
           if js_magic js \<noteq> JNL_MAGIC then (Inl BadJournal, d)
           else if js_log_blocks js = 0 then (Inl BadJournal, d)
           else (Inr \<lparr>super_block = ja_super_block area, log_start = wadd (ja_super_block area) 1,
                     log_blocks = js_log_blocks js, fs_blocks = js_fs_blocks js, head = js_head js,
                     tail = js_tail js, next_seq = js_next_seq js\<rparr>, d))"

definition super_image :: "journal \<Rightarrow> bytes" where
  "super_image j = store_journal_super zero_block
     \<lparr>js_magic = JNL_MAGIC, js_head = head j, js_tail = tail j, js_next_seq = next_seq j,
      js_log_blocks = log_blocks j, js_fs_blocks = fs_blocks j, js_checksum = 0\<rparr>"

definition persist_super :: "journal \<Rightarrow> unit io" where
  "persist_super j = write_block (super_block j) (super_image j)"

definition txn_begin :: txn where "txn_begin = []"

definition txn_len :: "txn \<Rightarrow> nat" where "txn_len t = length t"

definition txn_is_empty :: "txn \<Rightarrow> bool" where "txn_is_empty t \<longleftrightarrow> t = []"

text \<open>The first record with the same target is replaced; otherwise the record is appended.\<close>

fun replace_target :: "nat \<Rightarrow> bytes \<Rightarrow> txn \<Rightarrow> txn option" where
  "replace_target t b [] = None"
| "replace_target t b ((u, c) # rs) =
     (if u = t then Some ((u, b) # rs) else map_option (\<lambda>rs. (u, c) # rs) (replace_target t b rs))"

definition log_block :: "nat \<Rightarrow> bytes \<Rightarrow> txn \<Rightarrow> txn" where
  "log_block final_block contents txn =
     (let n = min (length contents) BS;
          block = put_bytes zero_block 0 (take n contents)
      in case replace_target final_block block txn of Some t \<Rightarrow> t | None \<Rightarrow> txn @ [(final_block, block)])"

subsection \<open>Commit\<close>

definition desc_image :: "nat \<Rightarrow> txn \<Rightarrow> bytes" where
  "desc_image seq txn = store_descriptor zero_block
     \<lparr>jd_magic = JDES_MAGIC, jd_seq = seq, jd_count = length txn,
      jd_targets = map fst txn @ replicate (JDESC_MAX_TARGETS - length txn) 0\<rparr>"

definition commit_image :: "nat \<Rightarrow> txn \<Rightarrow> bytes" where
  "commit_image seq txn = store_commit zero_block
     \<lparr>jc_magic = JCMT_MAGIC, jc_seq = seq, jc_data_checksum = crc32_slices (map snd txn), jc_pad = 0\<rparr>"

text \<open>The log writes of a transaction in order: descriptor, data, commit record.\<close>

definition log_writes :: "journal \<Rightarrow> txn \<Rightarrow> (nat \<times> bytes) list" where
  "log_writes j txn =
     [(log_block_addr j (head j), desc_image (next_seq j) txn)]
   @ map (\<lambda>i. (log_block_addr j (wadd (wadd (head j) 1) i), snd (txn ! i))) [0..<length txn]
   @ [(log_block_addr j (wadd (wadd (head j) 1) (length txn)), commit_image (next_seq j) txn)]"

definition commit_body :: "journal \<Rightarrow> txn \<Rightarrow> unit io" where
  "commit_body j txn =
     io_bind (write_all (log_writes j txn)) (\<lambda>_.
     io_bind flush (\<lambda>_.
     io_bind (write_all txn) (\<lambda>_.
     flush)))"

text \<open>Dropping the live records when the transaction does not fit behind them.\<close>

definition reclaim :: "journal \<Rightarrow> dev \<Rightarrow> (fs_error + unit) \<times> journal \<times> dev" where
  "reclaim j d =
     (let j = j\<lparr>tail := head j\<rparr>
      in case io_bind (persist_super j) (\<lambda>_. flush) d of (r, d) \<Rightarrow> (r, j, d))"

definition log_used :: "journal \<Rightarrow> nat" where
  "log_used j = (if tail j \<le> head j then wsub (head j) (tail j)
                 else wsub (wadd (head j) (log_blocks j)) (tail j))"

definition commit :: "txn \<Rightarrow> journal \<Rightarrow> dev \<Rightarrow> (fs_error + unit) \<times> journal \<times> dev" where
  "commit txn j d =
     (let count = length txn
      in if count = 0 then (Inr (), j, d)
         else if JDESC_MAX_TARGETS < count then (Inl OutOfSpace, j, d)
         else if log_blocks j < wadd count 3 then (Inl OutOfSpace, j, d)
         else
           let free = wsub (log_blocks j) (log_used j)
           in case (if free < wadd count 2 then reclaim j d else (Inr (), j, d)) of
                (Inl e, j, d) \<Rightarrow> (Inl e, j, d)
              | (Inr _, j, d) \<Rightarrow>
                  if list_ex (\<lambda>(target, contents). fs_blocks j \<le> target \<or> length contents \<noteq> BS) txn
                  then (Inl Corrupt, j, d)
                  else (case commit_body j txn d of
                          (Inl e, d) \<Rightarrow> (Inl e, j, d)
                        | (Inr _, d) \<Rightarrow>
                            let j = j\<lparr>head := wadd (wadd (head j) count) 2 mod log_blocks j,
                                      next_seq := wadd (next_seq j) 1\<rparr>
                            in case persist_super j d of (r, d) \<Rightarrow> (r, j, d)))"

subsection \<open>Recovery\<close>

text \<open>Re-applying a record: an out-of-range target stops with an error after the writes before it.\<close>

fun replay_writes :: "journal \<Rightarrow> (nat \<times> bytes) list \<Rightarrow> unit io" where
  "replay_writes j [] = io_return ()"
| "replay_writes j ((target, data) # ws) =
     (\<lambda>d. if fs_blocks j \<le> target then (Inl Corrupt, d)
          else io_bind (write_block target data) (\<lambda>_. replay_writes j ws) d)"

record scan =
  sc_pos :: nat
  sc_replayed :: u32
  sc_expected :: nat
  sc_last :: "nat option"

text \<open>The scan loop; \<open>budget\<close> bounds it to one lap of the ring.\<close>

function scan_loop :: "journal \<Rightarrow> nat \<Rightarrow> scan \<Rightarrow> dev \<Rightarrow> (fs_error + scan) \<times> dev" where
  "scan_loop j budget sc d =
     (if budget = 0 then (Inr sc, d)
      else case read_log j (sc_pos sc) d of
        (Inl e, d) \<Rightarrow> (Inl e, d)
      | (Inr desc_buf, d) \<Rightarrow>
          let desc = load_descriptor desc_buf; count = jd_count desc
          in if jd_magic desc \<noteq> JDES_MAGIC then (Inr sc, d)
             else if count = 0 \<or> JDESC_MAX_TARGETS < count \<or> log_blocks j < wadd count 2 then (Inr sc, d)
             else if sc_last sc = None \<and> jd_seq desc < sc_expected sc
                  then scan_loop j (budget - (count + 2))
                         (sc\<lparr>sc_pos := wadd (sc_pos sc) (wadd count 2) mod log_blocks j\<rparr>) d
             else if jd_seq desc \<noteq> sc_expected sc then (Inr sc, d)
             else case read_all (map (\<lambda>i. log_block_addr j (wadd (wadd (sc_pos sc) 1) i)) [0..<count]) d of
               (Inl e, d) \<Rightarrow> (Inl e, d)
             | (Inr data_blocks, d) \<Rightarrow>
                 let commit_pos = wadd (wadd (sc_pos sc) 1) count
                 in case read_log j commit_pos d of
                      (Inl e, d) \<Rightarrow> (Inl e, d)
                    | (Inr cmt_buf, d) \<Rightarrow>
                        let cmt = load_commit cmt_buf
                        in if \<not> (jc_magic cmt = JCMT_MAGIC \<and> jc_seq cmt = jd_seq desc
                                  \<and> jc_data_checksum cmt = crc32_slices data_blocks)
                           then (Inr sc, d)
                           else case replay_writes j (zip (take count (jd_targets desc)) data_blocks) d of
                             (Inl e, d) \<Rightarrow> (Inl e, d)
                           | (Inr _, d) \<Rightarrow>
                               scan_loop j (budget - (count + 2))
                                 \<lparr>sc_pos = wadd commit_pos 1 mod log_blocks j, sc_replayed = sc_replayed sc + 1,
                                  sc_expected = wadd (jd_seq desc) 1, sc_last = Some (jd_seq desc)\<rparr> d)"
  by pat_completeness auto
termination
  by (relation "measure (\<lambda>(j, budget, sc, d). budget)") auto

declare scan_loop.simps [simp del]

definition recover :: "journal \<Rightarrow> dev \<Rightarrow> (fs_error + u32) \<times> journal \<times> dev" where
  "recover j d =
     (case scan_loop j (log_blocks j)
             \<lparr>sc_pos = tail j, sc_replayed = 0, sc_expected = next_seq j, sc_last = None\<rparr> d of
        (Inl e, d) \<Rightarrow> (Inl e, j, d)
      | (Inr sc, d) \<Rightarrow>
          let j = j\<lparr>tail := sc_pos sc, head := sc_pos sc\<rparr>;
              j' = (case sc_last sc of Some seq \<Rightarrow> j\<lparr>next_seq := max (next_seq j) (wadd seq 1)\<rparr> | None \<Rightarrow> j);
              (r, d) = (case sc_last sc of Some seq \<Rightarrow> flush d | None \<Rightarrow> (Inr (), d))
          in case r of
               Inl e \<Rightarrow> (Inl e, j', d)
             | Inr _ \<Rightarrow> (case persist_super j' d of (Inl e, d) \<Rightarrow> (Inl e, j', d) | (Inr _, d) \<Rightarrow> (Inr (sc_replayed sc), j', d)))"

text \<open>Mounting: open and recover.\<close>

definition mount_journal :: "journal_area \<Rightarrow> dev \<Rightarrow> (fs_error + journal) \<times> dev" where
  "mount_journal area d =
     (case journal_open area d of
        (Inl e, d) \<Rightarrow> (Inl e, d)
      | (Inr j, d) \<Rightarrow> (case recover j d of (Inl e, j, d) \<Rightarrow> (Inl e, d) | (Inr n, j, d) \<Rightarrow> (Inr j, d)))"

end
