(* ===== verification/JournalCodec.thy ===== *)
theory JournalCodec
  imports Journal
begin

text \<open>
  What \<^verbatim>\<open>open\<close> and \<^verbatim>\<open>recover\<close> read back of the images that \<^verbatim>\<open>format\<close>, \<^verbatim>\<open>commit\<close> and
  \<^verbatim>\<open>persist_super\<close> write, and the effect of device commands on the medium and the cache.
\<close>

subsection \<open>Images\<close>

lemma sub_put_inside:
  assumes "off + length bs \<le> length buf" "off \<le> o'" "o' + n \<le> off + length bs"
  shows "sub_bytes (put_bytes buf off bs) o' n = sub_bytes bs (o' - off) n"
proof (rule nth_equalityI)
  show "length (sub_bytes (put_bytes buf off bs) o' n) = length (sub_bytes bs (o' - off) n)"
    using assms by (simp add: buf_simps)
next
  fix i assume "i < length (sub_bytes (put_bytes buf off bs) o' n)"
  then have "i < n"
    using assms by (simp add: buf_simps)
  then show "sub_bytes (put_bytes buf off bs) o' n ! i = sub_bytes bs (o' - off) n ! i"
    using assms by (simp add: nth_sub_bytes nth_put_bytes length_put_bytes)
qed

lemma length_puts [simp]:
  "off + 8 \<le> length buf \<Longrightarrow> length (put_u64 off n buf) = length buf"
  "off + 4 \<le> length buf \<Longrightarrow> length (put_u32 off w buf) = length buf"
  "off + 4 \<le> length buf \<Longrightarrow> length (write_u32 buf off w) = length buf"
  by (simp_all add: put_u64_def put_u32_def write_u32_def length_put_bytes)

lemma get_put_u64:
  assumes "off + 8 \<le> length buf"
  shows "get_u64 (put_u64 off n buf) off = n mod 2 ^ 64"
    and "o' + 8 \<le> off \<or> off + 8 \<le> o' \<Longrightarrow> get_u64 (put_u64 off n buf) o' = get_u64 buf o'"
    and "o' + 8 \<le> off \<or> off + 8 \<le> o' \<Longrightarrow> read_u64 (put_u64 off n buf) o' = read_u64 buf o'"
    and "read_u64 (put_u64 off n buf) off = of_nat n"
    and "o' + 4 \<le> off \<or> off + 8 \<le> o' \<Longrightarrow> read_u32 (put_u64 off n buf) o' = read_u32 buf o'"
  using assms by (simp_all add: get_u64_def put_u64_def read_u64_def read_u32_def sub_put_same sub_put_other unat_of_nat)

lemma get_put_u32:
  assumes "off + 4 \<le> length buf"
  shows "read_u32 (put_u32 off w buf) off = w"
    and "o' + 8 \<le> off \<or> off + 4 \<le> o' \<Longrightarrow> get_u64 (put_u32 off w buf) o' = get_u64 buf o'"
    and "o' + 8 \<le> off \<or> off + 4 \<le> o' \<Longrightarrow> read_u64 (put_u32 off w buf) o' = read_u64 buf o'"
    and "o' + 4 \<le> off \<or> off + 4 \<le> o' \<Longrightarrow> read_u32 (put_u32 off w buf) o' = read_u32 buf o'"
  using assms by (simp_all add: get_u64_def put_u32_def read_u64_def read_u32_def sub_put_same sub_put_other)

lemma write_u32_put: "write_u32 buf off w = put_u32 off w buf"
  by (simp add: write_u32_def put_u32_def)

lemma length_zero_block [simp]: "length zero_block = BS"
  by (simp add: zero_block_def)

lemma length_images [simp]:
  "length (super_image j) = BS" "length (commit_image q t) = BS"
  "length (store_journal_super zero_block js) = BS"
  by (simp_all add: super_image_def store_journal_super_def commit_image_def store_commit_def Let_def BS_def
      JOURNAL_SUPER_SIZE_def)

lemma load_store_super:
  assumes "js_head js < 2 ^ 64" "js_tail js < 2 ^ 64" "js_next_seq js < 2 ^ 64" "js_log_blocks js < 2 ^ 64"
    "js_fs_blocks js < 2 ^ 64"
  shows "load_journal_super (store_journal_super zero_block js) = Inr js"
proof -
  have t: "take 52 (put_u32 52 w b) = take 52 b" if "length b = 4096" for w b
    using that by (simp add: put_u32_def take_put_other)
  show ?thesis
    using assms
    by (simp add: load_journal_super_def store_journal_super_def Let_def JOURNAL_SUPER_SIZE_def write_u32_put
        get_put_u64 get_put_u32 t BS_def)
qed

lemma load_super_image:
  assumes "head j < 2 ^ 64" "tail j < 2 ^ 64" "next_seq j < 2 ^ 64" "log_blocks j < 2 ^ 64" "fs_blocks j < 2 ^ 64"
  shows "load_journal_super (super_image j) = Inr
    \<lparr>js_magic = JNL_MAGIC, js_head = head j, js_tail = tail j, js_next_seq = next_seq j,
     js_log_blocks = log_blocks j, js_fs_blocks = fs_blocks j, js_checksum = 0\<rparr>"
  unfolding super_image_def using assms by (intro load_store_super) simp_all

lemma load_commit_image:
  "q < 2 ^ 64 \<Longrightarrow> load_commit (commit_image q t) =
     \<lparr>jc_magic = JCMT_MAGIC, jc_seq = q, jc_data_checksum = crc32_slices (map snd t), jc_pad = 0\<rparr>"
  by (simp add: load_commit_def commit_image_def store_commit_def Let_def get_put_u64 get_put_u32 BS_def)

lemma length_desc_targets [simp]:
  "length t \<le> JDESC_MAX_TARGETS \<Longrightarrow>
   length (concat (map (\<lambda>x. le_bytes 8 (of_nat x :: u64)) (map fst t @ replicate (JDESC_MAX_TARGETS - length t) 0)))
     = 8 * JDESC_MAX_TARGETS"
  using length_concat_le_bytes[of 8 "map of_nat (map fst t @ replicate (JDESC_MAX_TARGETS - length t) 0) :: u64 list"]
  by (simp add: comp_def)

lemma desc_image_put:
  assumes "length t \<le> JDESC_MAX_TARGETS"
  obtains b cs where "desc_image q t = put_bytes b 24 cs" "length b = 4096" "length cs = 2032"
    "b = put_u32 16 (of_nat (length t)) (put_u64 8 q (put_u32 0 JDES_MAGIC zero_block))"
    "cs = concat (map (\<lambda>x. le_bytes 8 (of_nat x :: u64)) (map fst t @ replicate (JDESC_MAX_TARGETS - length t) 0))"
proof -
  define cs where "cs = concat (map (\<lambda>x. le_bytes 8 (of_nat x :: u64)) (map fst t @ replicate (JDESC_MAX_TARGETS - length t) 0))"
  define b where "b = put_u32 16 (of_nat (length t)) (put_u64 8 q (put_u32 0 JDES_MAGIC zero_block))"
  have "length cs = 2032"
    using length_desc_targets[OF assms] by (simp only: cs_def JDESC_MAX_TARGETS_def)
  moreover have "length b = 4096"
    by (simp add: b_def BS_def)
  moreover have "desc_image q t = put_bytes b 24 cs"
    by (simp add: desc_image_def store_descriptor_def Let_def b_def cs_def)
  ultimately show thesis
    using that b_def cs_def by blast
qed

lemma length_desc_image [simp]: "length t \<le> JDESC_MAX_TARGETS \<Longrightarrow> length (desc_image q t) = BS"
  by (erule desc_image_put[where q = q]) (simp add: length_put_bytes BS_def)

lemma load_desc_image:
  assumes q: "q < 2 ^ 64" and n: "length t \<le> JDESC_MAX_TARGETS" and tg: "\<forall>x \<in> set t. fst x < 2 ^ 64"
  shows "load_descriptor (desc_image q t) =
    \<lparr>jd_magic = JDES_MAGIC, jd_seq = q, jd_count = length t,
     jd_targets = map fst t @ replicate (JDESC_MAX_TARGETS - length t) 0\<rparr>"
proof -
  define ts where "ts = map fst t @ replicate (JDESC_MAX_TARGETS - length t) 0"
  obtain b cs where img: "desc_image q t = put_bytes b 24 cs" and lb: "length b = 4096" and lc: "length cs = 2032"
    and b_def: "b = put_u32 16 (of_nat (length t)) (put_u64 8 q (put_u32 0 JDES_MAGIC zero_block))"
    and cs_def: "cs = concat (map (\<lambda>x. le_bytes 8 (of_nat x :: u64)) ts)"
    unfolding ts_def by (rule desc_image_put[OF n])
  have "read_u32 (desc_image q t) 0 = JDES_MAGIC" "get_u64 (desc_image q t) 8 = q"
    "unat (read_u32 (desc_image q t) 16) = length t"
    using lb lc q n
    by (simp_all add: img read_u32_def get_u64_def read_u64_def sub_put_other)
      (simp_all add: b_def flip: read_u32_def read_u64_def get_u64_def,
       simp_all add: get_put_u32 get_put_u64 BS_def unat_of_nat JDESC_MAX_TARGETS_def)
  moreover have "map (\<lambda>i. get_u64 (desc_image q t) (24 + 8 * i)) [0..<JDESC_MAX_TARGETS] = ts"
  proof (rule nth_equalityI)
    show "length (map (\<lambda>i. get_u64 (desc_image q t) (24 + 8 * i)) [0..<JDESC_MAX_TARGETS]) = length ts"
      using n by (simp add: ts_def)
    fix i assume "i < length (map (\<lambda>i. get_u64 (desc_image q t) (24 + 8 * i)) [0..<JDESC_MAX_TARGETS])"
    then have i: "i < JDESC_MAX_TARGETS" "i < length ts"
      using n by (simp_all add: ts_def)
    have "sub_bytes (desc_image q t) (24 + 8 * i) 8 = sub_bytes cs (8 * i) 8"
      unfolding img using lb lc i(1) by (subst sub_put_inside) (simp_all add: JDESC_MAX_TARGETS_def)
    also have "\<dots> = le_bytes 8 (of_nat (ts ! i) :: u64)"
      using sub_concat_le_bytes[of i "map of_nat ts" 8 "[]"] i(2) by (simp add: cs_def comp_def)
    finally have "get_u64 (desc_image q t) (24 + 8 * i) = ts ! i mod 2 ^ 64"
      by (simp add: get_u64_def read_u64_def unat_of_nat)
    moreover have "ts ! i < 2 ^ 64"
      using tg i(2) by (auto simp: ts_def nth_append)
    ultimately show "map (\<lambda>i. get_u64 (desc_image q t) (24 + 8 * i)) [0..<JDESC_MAX_TARGETS] ! i = ts ! i"
      using i(1) by simp
  qed
  ultimately show ?thesis
    by (simp add: load_descriptor_def ts_def)
qed

end
