(* ===== verification/JournalScan.thy ===== *)
theory JournalScan
  imports JournalCodec
begin

text \<open>
  The recovery scan as a function of the medium alone, its agreement with \<^verbatim>\<open>recover\<close> on a
  device that answers every command, and how the scan treats complete records, stale records
  and torn records.
\<close>

subsection \<open>Commands on a device that answers\<close>

lemma read_block_alive:
  "fuse d = None \<Longrightarrow> b < capacity d \<Longrightarrow> capacity d \<le> max_blocks \<Longrightarrow> read_block b d = (Inr (view d b), d)"
  by (simp add: read_block_def dev_read_block_def block_unit_num)

lemma read_all_alive:
  assumes "fuse d = None" "\<forall>b \<in> set bs. b < capacity d" "capacity d \<le> max_blocks"
  shows "read_all bs d = (Inr (map (view d) bs), d)"
  using assms(2) by (induction bs) (simp_all add: io_bind_def io_return_def read_block_alive assms)

definition apply_writes :: "(nat \<times> bytes) list \<Rightarrow> (nat \<Rightarrow> bytes) \<Rightarrow> nat \<Rightarrow> bytes" where
  "apply_writes ws f = fold (\<lambda>(u, b) f. f(u := b)) ws f"

lemma apply_writes_simps [simp]:
  "apply_writes [] f = f" "apply_writes ((u, b) # ws) f = apply_writes ws (f(u := b))"
  "apply_writes (ws @ ws') f = apply_writes ws' (apply_writes ws f)"
  by (simp_all add: apply_writes_def)

lemma apply_writes_other: "u \<notin> fst ` set ws \<Longrightarrow> apply_writes ws f u = f u"
proof (induction ws arbitrary: f)
  case (Cons w ws)
  then show ?case by (cases w) auto
qed simp

lemma apply_writes_in: "distinct (map fst ws) \<Longrightarrow> (u, b) \<in> set ws \<Longrightarrow> apply_writes ws f u = b"
proof (induction ws arbitrary: f)
  case (Cons w ws)
  obtain v c where w: "w = (v, c)" by (cases w)
  show ?case
  proof (cases "(u, b) = w")
    case True
    then have "u \<notin> fst ` set ws"
      using Cons.prems(1) by (auto simp: w)
    then show ?thesis
      using True by (simp add: w apply_writes_other)
  next
    case False
    then show ?thesis
      using Cons by (auto simp: w)
  qed
qed simp

lemma view_apply: "view d = apply_writes (cache d) (medium d)"
  by (simp add: view_def apply_writes_def)

lemma write_block_alive:
  "fuse d = None \<Longrightarrow> b < capacity d \<Longrightarrow> capacity d \<le> max_blocks \<Longrightarrow>
   write_block b data d = (Inr (), d\<lparr>cache := cache d @ [(b, data)]\<rparr>)"
  by (simp add: write_block_def dev_write_block_def block_unit_num)

lemma replay_writes_alive:
  assumes "fuse d = None" "capacity d \<le> max_blocks" "fs_blocks j \<le> capacity d"
    "\<forall>x \<in> set ws. fst x < fs_blocks j"
  shows "replay_writes j ws d = (Inr (), d\<lparr>cache := cache d @ ws\<rparr>)"
  using assms
proof (induction ws arbitrary: d)
  case (Cons w ws)
  obtain u b where w: "w = (u, b)" by (cases w)
  have "write_block u b d = (Inr (), d\<lparr>cache := cache d @ [(u, b)]\<rparr>)"
    using Cons.prems by (intro write_block_alive) (simp_all add: w)
  then show ?case
    using Cons by (simp add: w io_bind_def)
qed (simp add: io_return_def)

lemma flush_alive: "fuse d = None \<Longrightarrow> flush d = (Inr (), d\<lparr>medium := view d, cache := []\<rparr>)"
  by (simp add: flush_def dev_flush_def)

subsection \<open>Geometry\<close>

definition geo :: "journal \<Rightarrow> nat \<Rightarrow> bool" where
  "geo j cap \<longleftrightarrow> 0 < log_blocks j \<and> 6 \<le> log_blocks j \<and> 0 < fs_blocks j \<and> log_start j = super_block j + 1 \<and> fs_blocks j \<le> super_block j
     \<and> log_start j + log_blocks j \<le> cap \<and> cap \<le> max_blocks
     \<and> head j < log_blocks j \<and> tail j < log_blocks j \<and> next_seq j < 2 ^ 63"

definition slot :: "journal \<Rightarrow> (nat \<Rightarrow> bytes) \<Rightarrow> nat \<Rightarrow> bytes" where
  "slot j s p = s (log_start j + p mod log_blocks j)"

lemma slot_mod [simp]: "slot j s (p mod log_blocks j + k) = slot j s (p + k)"
  by (simp add: slot_def mod_add_left_eq)

lemma slot_mod0 [simp]: "slot j s (p mod log_blocks j) = slot j s p"
  by (simp add: slot_def)

lemma wadd_exact: "a + b < 2 ^ 64 \<Longrightarrow> wadd a b = a + b"
  by (simp add: wadd_def)

lemma log_addr: "geo j cap \<Longrightarrow> log_block_addr j p = log_start j + p mod log_blocks j"
proof -
  assume g: "geo j cap"
  have "log_start j + p mod log_blocks j < log_start j + log_blocks j"
    using g by (simp add: geo_def)
  also have "\<dots> \<le> max_blocks"
    using g by (simp add: geo_def)
  finally show ?thesis
    by (simp add: log_block_addr_def wadd_exact max_blocks_def)
qed

lemma log_addr_bounds:
  assumes "geo j cap"
  shows "log_start j + p mod log_blocks j < cap" and "fs_blocks j \<le> log_start j + p mod log_blocks j"
    and "super_block j < log_start j + p mod log_blocks j"
proof -
  have "p mod log_blocks j < log_blocks j"
    using assms by (simp add: geo_def)
  then show "log_start j + p mod log_blocks j < cap"
    using assms unfolding geo_def by linarith
qed (use assms in \<open>simp_all add: geo_def\<close>)

lemma geo_cap: "geo j cap \<Longrightarrow> cap \<le> max_blocks"
  by (simp add: geo_def)

lemma read_log_alive:
  assumes "geo j (capacity d)" "fuse d = None"
  shows "read_log j p d = (Inr (slot j (view d) p), d)"
  using read_block_alive[OF assms(2) log_addr_bounds(1)[OF assms(1)] geo_cap[OF assms(1)]]
  by (simp add: read_log_def log_addr[OF assms(1)] slot_def)

subsection \<open>The scan on a medium\<close>

function pscan :: "journal \<Rightarrow> (nat \<Rightarrow> bytes) \<Rightarrow> nat \<Rightarrow> nat \<Rightarrow> nat \<Rightarrow> nat option \<Rightarrow> txn list \<times> nat \<times> nat option" where
  "pscan j s budget pos ex lst =
     (if budget = 0 then ([], pos, lst)
      else
        let desc = load_descriptor (slot j s pos); c = jd_count desc
        in if jd_magic desc \<noteq> JDES_MAGIC \<or> c = 0 \<or> JDESC_MAX_TARGETS < c \<or> log_blocks j < c + 2
           then ([], pos, lst)
           else if lst = None \<and> jd_seq desc < ex
           then pscan j s (budget - (c + 2)) ((pos + c + 2) mod log_blocks j) ex lst
           else if jd_seq desc \<noteq> ex then ([], pos, lst)
           else
             let datas = map (\<lambda>i. slot j s (pos + 1 + i)) [0..<c];
                 cmt = load_commit (slot j s (pos + 1 + c))
             in if jc_magic cmt = JCMT_MAGIC \<and> jc_seq cmt = ex \<and> jc_data_checksum cmt = crc32_slices datas
                then (case pscan j s (budget - (c + 2)) ((pos + c + 2) mod log_blocks j) (ex + 1) (Some ex) of
                        (ts, p, l) \<Rightarrow> (zip (take c (jd_targets desc)) datas # ts, p, l))
                else ([], pos, lst))"
  by pat_completeness auto
termination
  by (relation "measure (\<lambda>(j, s, budget, pos, ex, lst). budget)") auto

declare pscan.simps [simp del]

text \<open>The medium scan only depends on the log region.\<close>

lemma pscan_cong:
  assumes "\<And>p. slot j s p = slot j s' p"
  shows "pscan j s budget pos ex lst = pscan j s' budget pos ex lst"
proof -
  have "slot j s = slot j s'"
    using assms by (rule ext)
  then show ?thesis
  proof (induction j s budget pos ex lst rule: pscan.induct)
    case (1 j s budget pos ex lst)
    then show ?case
      by (subst (1 2) pscan.simps) (simp add: Let_def split: if_splits)
  qed
qed

lemma slot_apply_fs:
  assumes "geo j cap" "\<forall>x \<in> set ws. fst x < fs_blocks j"
  shows "slot j (apply_writes ws f) p = slot j f p"
  unfolding slot_def using assms(2) log_addr_bounds(2)[OF assms(1), of p]
  by (intro apply_writes_other) (auto simp: not_less[symmetric])

lemma geo_L: "geo j cap \<Longrightarrow> log_blocks j < 2 ^ 60"
proof -
  assume g: "geo j cap"
  then have "0 < log_start j" "log_start j + log_blocks j \<le> max_blocks"
    by (simp_all add: geo_def)
  then show ?thesis
    unfolding max_blocks_def by linarith
qed

text \<open>On a device that answers, the loop returns what the medium scan says and queues its writes.\<close>

lemma scan_loop_pscan:
  assumes "geo j (capacity d)" "fuse d = None" "sc_pos sc < log_blocks j" "sc_expected sc + budget < 2 ^ 64"
    and "pscan j (view d) budget (sc_pos sc) (sc_expected sc) (sc_last sc) = (ts, p, l)"
    and "\<forall>t \<in> set ts. \<forall>x \<in> set t. fst x < fs_blocks j"
  shows "\<exists>sc'. scan_loop j budget sc d = (Inr sc', d\<lparr>cache := cache d @ concat ts\<rparr>)
    \<and> sc_pos sc' = p \<and> sc_last sc' = l"
  using assms
proof (induction budget arbitrary: sc d ts p l rule: less_induct)
  case (less budget)
  note g = less.prems(1) and alive = less.prems(2) and pos = less.prems(3)
  have L: "log_blocks j < 2 ^ 60"
    by (rule geo_L[OF g])
  show ?case
  proof (cases "budget = 0")
    case True
    then show ?thesis
      using less.prems(5) by (simp add: scan_loop.simps pscan.simps)
  next
    case b: False
    define desc where "desc = load_descriptor (slot j (view d) (sc_pos sc))"
    define c where "c = jd_count desc"
    note rd = read_log_alive[OF g alive]
    have ps: "pscan j (view d) budget (sc_pos sc) (sc_expected sc) (sc_last sc) = (ts, p, l)"
      by (fact less.prems(5))
    consider (bad) "jd_magic desc \<noteq> JDES_MAGIC \<or> c = 0 \<or> JDESC_MAX_TARGETS < c \<or> log_blocks j < c + 2"
      | (skip) "jd_magic desc = JDES_MAGIC" "0 < c" "c \<le> JDESC_MAX_TARGETS" "c + 2 \<le> log_blocks j"
          "sc_last sc = None" "jd_seq desc < sc_expected sc"
      | (seq) "jd_magic desc = JDES_MAGIC" "0 < c" "c \<le> JDESC_MAX_TARGETS" "c + 2 \<le> log_blocks j"
          "\<not> (sc_last sc = None \<and> jd_seq desc < sc_expected sc)" "jd_seq desc \<noteq> sc_expected sc"
      | (here) "jd_magic desc = JDES_MAGIC" "0 < c" "c \<le> JDESC_MAX_TARGETS" "c + 2 \<le> log_blocks j"
          "jd_seq desc = sc_expected sc"
      unfolding not_less[symmetric] neq0_conv[symmetric] by satx
    then show ?thesis
    proof cases
      case bad
      have "wadd c 2 = c + 2" if "c \<le> JDESC_MAX_TARGETS"
        using that by (simp add: wadd_exact JDESC_MAX_TARGETS_def)
      then have "scan_loop j budget sc d = (Inr sc, d)"
        using b bad rd by (subst scan_loop.simps) (auto simp: Let_def desc_def[symmetric] c_def[symmetric])
      moreover have "ts = []" "p = sc_pos sc" "l = sc_last sc"
        using ps b bad by (subst (asm) pscan.simps, auto simp: Let_def desc_def[symmetric] c_def[symmetric])+
      ultimately show ?thesis by simp
    next
      case skip
      have w: "wadd c 2 = c + 2" "wadd (sc_pos sc) (c + 2) = sc_pos sc + c + 2"
        using skip(3) pos L by (simp_all add: wadd_exact JDESC_MAX_TARGETS_def)
      define sc1 where "sc1 = sc\<lparr>sc_pos := (sc_pos sc + c + 2) mod log_blocks j\<rparr>"
      have "scan_loop j budget sc d = scan_loop j (budget - (c + 2)) sc1 d"
        using b skip rd w by (subst scan_loop.simps) (simp add: Let_def desc_def[symmetric] c_def[symmetric] sc1_def)
      moreover have "pscan j (view d) (budget - (c + 2)) (sc_pos sc1) (sc_expected sc1) (sc_last sc1) = (ts, p, l)"
        using ps b skip by (subst (asm) pscan.simps) (simp add: Let_def desc_def[symmetric] c_def[symmetric] sc1_def)
      moreover have "sc_pos sc1 < log_blocks j"
        using g by (simp add: sc1_def geo_def)
      ultimately show ?thesis
        using less.IH[of "budget - (c + 2)" d sc1 ts p l] b g alive less.prems(4,6) by (simp add: sc1_def)
    next
      case seq
      have "wadd c 2 = c + 2"
        using seq(3) by (simp add: wadd_exact JDESC_MAX_TARGETS_def)
      then have "scan_loop j budget sc d = (Inr sc, d)"
        using b seq rd by (subst scan_loop.simps) (auto simp: Let_def desc_def[symmetric] c_def[symmetric])
      moreover have "ts = []" "p = sc_pos sc" "l = sc_last sc"
        using ps b seq by (subst (asm) pscan.simps, auto simp: Let_def desc_def[symmetric] c_def[symmetric])+
      ultimately show ?thesis by simp
    next
      case here
      have w: "wadd c 2 = c + 2" "wadd (sc_pos sc) (Suc 0) = sc_pos sc + 1"
        "wadd (sc_pos sc + 1) c = sc_pos sc + 1 + c" "wadd (sc_pos sc + 1 + c) (Suc 0) = sc_pos sc + c + 2"
        "wadd (sc_expected sc) (Suc 0) = sc_expected sc + 1"
        using here(3) pos L b less.prems(4) by (simp_all add: wadd_exact JDESC_MAX_TARGETS_def)
      define datas where "datas = map (\<lambda>i. slot j (view d) (Suc (sc_pos sc + i))) [0..<c]"
      have w2: "map (\<lambda>i. log_block_addr j (wadd (Suc (sc_pos sc)) i)) [0..<c]
          = map (\<lambda>i. log_start j + (sc_pos sc + 1 + i) mod log_blocks j) [0..<c]"
        using here(3) pos L by (simp add: log_addr[OF g] wadd_exact JDESC_MAX_TARGETS_def)
      have ra: "read_all (map (\<lambda>i. log_block_addr j (wadd (Suc (sc_pos sc)) i)) [0..<c]) d = (Inr datas, d)"
        unfolding w2 using log_addr_bounds(1)[OF g]
        by (subst read_all_alive[OF alive _ geo_cap[OF g]]) (auto simp: datas_def slot_def)
      define cmt where "cmt = load_commit (slot j (view d) (Suc (sc_pos sc + c)))"
      have sl: "scan_loop j budget sc d =
         (if \<not> (jc_magic cmt = JCMT_MAGIC \<and> jc_seq cmt = sc_expected sc \<and> jc_data_checksum cmt = crc32_slices datas)
          then (Inr sc, d)
          else case replay_writes j (zip (take c (jd_targets desc)) datas) d of
                 (Inl e, d) \<Rightarrow> (Inl e, d)
               | (Inr _, d) \<Rightarrow> scan_loop j (budget - (c + 2))
                   \<lparr>sc_pos = (sc_pos sc + c + 2) mod log_blocks j, sc_replayed = sc_replayed sc + 1,
                    sc_expected = sc_expected sc + 1, sc_last = Some (sc_expected sc)\<rparr> d)"
        using b here rd w by (subst scan_loop.simps)
          (simp add: Let_def desc_def[symmetric] c_def[symmetric] cmt_def[symmetric] ra split: prod.splits sum.splits)
      show ?thesis
      proof (cases "jc_magic cmt = JCMT_MAGIC \<and> jc_seq cmt = sc_expected sc \<and> jc_data_checksum cmt = crc32_slices datas")
        case False
        then have "scan_loop j budget sc d = (Inr sc, d)"
          unfolding sl by (simp only: if_True not_not if_not_P not_False_eq_True)
        moreover have "(ts, p, l) = ([], sc_pos sc, sc_last sc)"
          unfolding ps[symmetric] using b here False
          by (subst pscan.simps) (auto simp: Let_def desc_def[symmetric] c_def[symmetric] cmt_def[symmetric] datas_def[symmetric])
        ultimately show ?thesis by simp
      next
        case True
        define w where "w = zip (take c (jd_targets desc)) datas"
        define sc1 where "sc1 = \<lparr>sc_pos = (sc_pos sc + c + 2) mod log_blocks j, sc_replayed = sc_replayed sc + 1,
                    sc_expected = sc_expected sc + 1, sc_last = Some (sc_expected sc)\<rparr>"
        obtain ts' where ps': "pscan j (view d) (budget - (c + 2)) (sc_pos sc1) (sc_expected sc1) (sc_last sc1) = (ts', p, l)"
          and ts: "ts = w # ts'"
          using ps b here True
          by (subst (asm) pscan.simps)
            (auto simp: Let_def desc_def[symmetric] c_def[symmetric] cmt_def[symmetric] datas_def[symmetric] sc1_def w_def
              split: prod.splits)
        have tw: "\<forall>x \<in> set w. fst x < fs_blocks j"
          using less.prems(6) by (simp add: ts)
        define d1 where "d1 = d\<lparr>cache := cache d @ w\<rparr>"
        have "replay_writes j w d = (Inr (), d1)"
          unfolding d1_def using g tw by (intro replay_writes_alive alive) (simp_all add: geo_def)
        then have "scan_loop j budget sc d = scan_loop j (budget - (c + 2)) sc1 d1"
          unfolding sl using True by (simp add: w_def sc1_def)
        moreover have "view d1 = apply_writes w (view d)"
          by (simp add: d1_def view_apply)
        then have "pscan j (view d1) (budget - (c + 2)) (sc_pos sc1) (sc_expected sc1) (sc_last sc1) = (ts', p, l)"
          unfolding ps'[symmetric] using slot_apply_fs[OF g tw] by (intro pscan_cong) simp
        moreover have "sc_pos sc1 < log_blocks j"
          using g by (simp add: sc1_def geo_def)
        ultimately show ?thesis
          using less.IH[of "budget - (c + 2)" d1 sc1 ts' p l] b g alive less.prems(4,6)
          by (simp add: sc1_def d1_def ts)
      qed
    qed
  qed
qed

end
