(* ===== verification/JournalRing.thy ===== *)
theory JournalRing
  imports JournalScan
begin

text \<open>
  The ring of records as the recovery scan of \<^verbatim>\<open>src/src/fs/journal.rs\<close> meets it: complete
  records, records of earlier transactions that are stepped over, the record of an interrupted
  \<^verbatim>\<open>commit\<close> of which any subset of blocks is on the medium, and the record that no durable
  superblock acknowledges yet.  The last part lifts the scan to \<^verbatim>\<open>open\<close> followed by \<^verbatim>\<open>recover\<close>.

  \<open>inert\<close> says that a block does not begin with one of the two record magics; \<open>old_log\<close> that
  every descriptor and commit record in the ring has a smaller sequence number; \<open>fits\<close> that a
  transaction is one the journal accepts and takes at most half of the ring.
\<close>

subsection \<open>Records in the ring\<close>

definition inert :: "bytes \<Rightarrow> bool" where
  "inert b \<longleftrightarrow> read_u32 b 0 \<noteq> JDES_MAGIC \<and> read_u32 b 0 \<noteq> JCMT_MAGIC"

definition old_log :: "journal \<Rightarrow> (nat \<Rightarrow> bytes) \<Rightarrow> nat \<Rightarrow> bool" where
  "old_log j s q \<longleftrightarrow> (\<forall>p. \<not> inert (slot j s p) \<longrightarrow> get_u64 (slot j s p) 8 < q)"

definition rec_blocks :: "nat \<Rightarrow> txn \<Rightarrow> bytes list" where
  "rec_blocks q t = desc_image q t # map snd t @ [commit_image q t]"

definition rec_at :: "journal \<Rightarrow> (nat \<Rightarrow> bytes) \<Rightarrow> nat \<Rightarrow> nat \<Rightarrow> txn \<Rightarrow> bool" where
  "rec_at j s p q t \<longleftrightarrow> (\<forall>i < length t + 2. slot j s (p + i) = rec_blocks q t ! i)"

definition fits :: "journal \<Rightarrow> txn \<Rightarrow> bool" where
  "fits j t \<longleftrightarrow> t \<noteq> [] \<and> length t \<le> JDESC_MAX_TARGETS \<and> 2 * (length t + 2) \<le> log_blocks j
     \<and> (\<forall>x \<in> set t. fst x < fs_blocks j \<and> length (snd x) = BS \<and> inert (snd x))"

text \<open>\<open>skips j s q p k\<close>: from position \<open>p\<close> on, \<open>k\<close> slots hold descriptors older than \<open>q\<close> back to back.\<close>

inductive skips :: "journal \<Rightarrow> (nat \<Rightarrow> bytes) \<Rightarrow> nat \<Rightarrow> nat \<Rightarrow> nat \<Rightarrow> bool" for j s q where
  skips_nil: "skips j s q p 0"
| skips_rec: "jd_magic (load_descriptor (slot j s p)) = JDES_MAGIC \<Longrightarrow>
    c = jd_count (load_descriptor (slot j s p)) \<Longrightarrow> 0 < c \<Longrightarrow> c \<le> JDESC_MAX_TARGETS \<Longrightarrow> c + 2 \<le> log_blocks j \<Longrightarrow>
    jd_seq (load_descriptor (slot j s p)) < q \<Longrightarrow> skips j s q (p + (c + 2)) k \<Longrightarrow> skips j s q p (c + 2 + k)"

lemma rec_blocks_nth:
  "rec_blocks q t ! 0 = desc_image q t" "i < length t \<Longrightarrow> rec_blocks q t ! Suc i = snd (t ! i)"
  "rec_blocks q t ! Suc (length t) = commit_image q t" "length (rec_blocks q t) = length t + 2"
  by (simp_all add: rec_blocks_def nth_append)

lemma rec_at_slots:
  assumes "rec_at j s p q t"
  shows "slot j s p = desc_image q t" "i < length t \<Longrightarrow> slot j s (Suc (p + i)) = snd (t ! i)"
    "slot j s (Suc (p + length t)) = commit_image q t"
  using assms[unfolded rec_at_def, rule_format, of 0] assms[unfolded rec_at_def, rule_format, of "Suc i"]
    assms[unfolded rec_at_def, rule_format, of "Suc (length t)"]
  by (simp_all add: rec_blocks_nth)

lemma load_desc_sel:
  "jd_magic (load_descriptor b) = read_u32 b 0" "jd_seq (load_descriptor b) = get_u64 b 8"
  by (simp_all add: load_descriptor_def)

lemma load_commit_sel:
  "jc_magic (load_commit b) = read_u32 b 0" "jc_seq (load_commit b) = get_u64 b 8"
  by (simp_all add: load_commit_def)

lemma ring_step: "Suc (Suc (p mod n + c)) mod n = Suc (Suc (p + c)) mod (n :: nat)"
  using mod_add_left_eq[of p n "Suc (Suc c)"] by simp

lemma slot_Suc_mod [simp]: "slot j s (Suc (p mod log_blocks j + k)) = slot j s (Suc (p + k))"
  using slot_mod[of j s p "Suc k"] by simp

lemma slot_eqI: "p mod log_blocks j = p' mod log_blocks j \<Longrightarrow> slot j s p = slot j s p'"
  by (simp add: slot_def)

text \<open>One step of the scan over a slot that carries an older record.\<close>

lemma pscan_skip_step:
  assumes "jd_magic (load_descriptor (slot j s p)) = JDES_MAGIC" "c = jd_count (load_descriptor (slot j s p))"
    "0 < c" "c \<le> JDESC_MAX_TARGETS" "c + 2 \<le> log_blocks j" "jd_seq (load_descriptor (slot j s p)) < q" "0 < b"
  shows "pscan j s b (p mod log_blocks j) q None = pscan j s (b - (c + 2)) ((p + (c + 2)) mod log_blocks j) q None"
  using assms by (subst pscan.simps) (simp add: Let_def ring_step)

lemma pscan_skips:
  "skips j s q p k \<Longrightarrow> k < b \<Longrightarrow> pscan j s b (p mod log_blocks j) q None = pscan j s (b - k) ((p + k) mod log_blocks j) q None"
proof (induction arbitrary: b rule: skips.induct)
  case (skips_rec p c k)
  have "pscan j s b (p mod log_blocks j) q None = pscan j s (b - (c + 2)) ((p + (c + 2)) mod log_blocks j) q None"
    using skips_rec by (intro pscan_skip_step) simp_all
  also have "\<dots> = pscan j s (b - (c + 2) - k) ((p + (c + 2) + k) mod log_blocks j) q None"
    using skips_rec.prems by (intro skips_rec.IH) simp
  finally show ?case
    by (simp add: add.assoc diff_diff_eq)
qed simp

lemma skips_cong:
  "skips j s q p k \<Longrightarrow> (\<And>i. i < k \<Longrightarrow> slot j s' (p + i) = slot j s (p + i)) \<Longrightarrow> skips j s' q p k"
proof (induction rule: skips.induct)
  case (skips_rec p c k)
  have "slot j s' p = slot j s p"
    using skips_rec.prems[of 0] skips_rec(3) by simp
  moreover have "skips j s' q (p + (c + 2)) k"
    using skips_rec.prems[of "c + 2 + i" for i] by (intro skips_rec.IH) (simp add: add.assoc)
  ultimately show ?case
    using skips_rec by (intro skips.skips_rec) simp_all
qed (rule skips_nil)

lemma skips_mono: "skips j s q p k \<Longrightarrow> q \<le> q' \<Longrightarrow> skips j s q' p k"
proof (induction rule: skips.induct)
  case (skips_rec p c k)
  then show ?case
    by (intro skips.skips_rec) simp_all
qed (rule skips_nil)

lemma skips_append: "skips j s q p k \<Longrightarrow> skips j s q (p + k) k' \<Longrightarrow> skips j s q p (k + k')"
proof (induction rule: skips.induct)
  case (skips_rec p c k)
  have "skips j s q p (c + 2 + (k + k'))"
    using skips_rec by (intro skips.skips_rec) (simp_all add: add.assoc)
  then show ?case
    by (simp add: add.assoc)
qed simp

text \<open>A complete record is replayed as its transaction.\<close>

lemma fits_targets: "fits j t \<Longrightarrow> geo j cap \<Longrightarrow> \<forall>x \<in> set t. fst x < 2 ^ 64"
proof
  fix x assume f: "fits j t" and g: "geo j cap" and "x \<in> set t"
  then have "fst x < fs_blocks j"
    by (simp add: fits_def)
  also have "\<dots> \<le> super_block j" using g by (simp add: geo_def)
  also have "\<dots> < max_blocks" using g by (simp add: geo_def)
  also have "\<dots> \<le> 2 ^ 64" by (simp add: max_blocks_def)
  finally show "fst x < 2 ^ 64" .
qed

lemma load_desc_fits:
  assumes "geo j cap" "fits j t" "q < 2 ^ 64"
  shows "load_descriptor (desc_image q t) =
    \<lparr>jd_magic = JDES_MAGIC, jd_seq = q, jd_count = length t,
     jd_targets = map fst t @ replicate (JDESC_MAX_TARGETS - length t) 0\<rparr>"
  using assms(2,3) fits_targets[OF assms(2,1)] by (intro load_desc_image) (simp_all add: fits_def)

lemma pscan_rec_step:
  assumes g: "geo j cap" and f: "fits j t" and q: "q < 2 ^ 64" and r: "rec_at j s p q t" and b: "0 < b"
  shows "pscan j s b (p mod log_blocks j) q lst =
    (case pscan j s (b - (length t + 2)) ((p + (length t + 2)) mod log_blocks j) (q + 1) (Some q) of
       (ts, p, l) \<Rightarrow> (t # ts, p, l))"
proof -
  note d = load_desc_fits[OF g f q]
  have datas: "map (\<lambda>i. slot j s (Suc (p + i))) [0..<length t] = map snd t"
    using rec_at_slots(2)[OF r] by (intro nth_equalityI) simp_all
  have z: "zip (map fst t) (map snd t) = t"
    by (rule zip_map_fst_snd)
  show ?thesis
    using b f q
    by (subst pscan.simps)
      (simp add: Let_def rec_at_slots[OF r] d datas load_commit_image fits_def ring_step z)
qed

lemma pscan_stop:
  assumes "read_u32 (slot j s p) 0 = JDES_MAGIC \<Longrightarrow> get_u64 (slot j s p) 8 \<noteq> q \<and> (lst = None \<longrightarrow> q \<le> get_u64 (slot j s p) 8)"
  shows "pscan j s b (p mod log_blocks j) q lst = ([], p mod log_blocks j, lst)"
  using assms by (subst pscan.simps) (auto simp: Let_def load_desc_sel)


subsection \<open>A torn record\<close>

text \<open>
  \<open>torn_log j s p q t s'\<close>: the log of \<open>s'\<close> is that of \<open>s\<close> with any subset of the blocks of the
  record of \<open>t\<close> written at \<open>p\<close>.  \<open>crc_guard\<close>: no mixture of old and new data blocks other than the
  new data itself has the checksum of the new data.
\<close>

definition torn_log :: "journal \<Rightarrow> (nat \<Rightarrow> bytes) \<Rightarrow> nat \<Rightarrow> nat \<Rightarrow> txn \<Rightarrow> (nat \<Rightarrow> bytes) \<Rightarrow> bool" where
  "torn_log j s p q t s' \<longleftrightarrow>
     (\<forall>i < length t + 2. slot j s' (p + i) = slot j s (p + i) \<or> slot j s' (p + i) = rec_blocks q t ! i)
   \<and> (\<forall>x. (\<forall>i < length t + 2. x mod log_blocks j \<noteq> (p + i) mod log_blocks j) \<longrightarrow> slot j s' x = slot j s x)"

definition crc_guard :: "journal \<Rightarrow> (nat \<Rightarrow> bytes) \<Rightarrow> nat \<Rightarrow> txn \<Rightarrow> bool" where
  "crc_guard j s p t \<longleftrightarrow>
     (\<forall>ds. length ds = length t \<and> (\<forall>i < length t. ds ! i = slot j s (Suc (p + i)) \<or> ds ! i = snd (t ! i))
        \<and> crc32_slices ds = crc32_slices (map snd t) \<longrightarrow> ds = map snd t)"

lemma commit_image_head: "q < 2 ^ 64 \<Longrightarrow> read_u32 (commit_image q t) 0 = JCMT_MAGIC"
  using load_commit_image[of q t] by (simp add: load_commit_def)

lemma magics: "JDES_MAGIC \<noteq> JCMT_MAGIC"
  by (simp add: JDES_MAGIC_def JCMT_MAGIC_def)

lemma torn_desc:
  assumes f: "fits j t" and q: "q < 2 ^ 64" and tl: "torn_log j s p q t s'" and o: "old_log j s q"
    and m: "read_u32 (slot j s' x) 0 = JDES_MAGIC"
  shows "slot j s' x = slot j s x \<and> get_u64 (slot j s' x) 8 < q
    \<or> x mod log_blocks j = p mod log_blocks j \<and> slot j s' x = desc_image q t"
proof (cases "slot j s' x = slot j s x")
  case True
  then show ?thesis
    using o m by (auto simp: old_log_def inert_def)
next
  case False
  then obtain i where i: "i < length t + 2" "x mod log_blocks j = (p + i) mod log_blocks j"
    using tl by (auto simp: torn_log_def)
  have "slot j s' x = rec_blocks q t ! i"
    using tl i False slot_eqI[OF i(2)] by (auto simp: torn_log_def)
  moreover have "i = 0"
  proof (rule ccontr)
    assume "i \<noteq> 0"
    then consider k where "i = Suc k" "k < length t" | "i = Suc (length t)"
      using i(1) by (cases i) (auto simp: less_Suc_eq)
    then show False
    proof cases
      case 1
      then have "inert (snd (t ! k))"
        using f by (simp add: fits_def)
      then show False
        using m calculation 1 by (simp add: rec_blocks_nth inert_def)
    next
      case 2
      then show False
        using m calculation magics by (simp add: rec_blocks_nth commit_image_head[OF q])
    qed
  qed
  ultimately show ?thesis
    using i by (simp add: rec_blocks_nth)
qed

lemma torn_complete:
  assumes q: "q < 2 ^ 64" and tl: "torn_log j s p q t s'" and o: "old_log j s q" and g: "crc_guard j s p t"
    and dsc: "slot j s' p = desc_image q t"
    and cm: "read_u32 (slot j s' (Suc (p + length t))) 0 = JCMT_MAGIC" "get_u64 (slot j s' (Suc (p + length t))) 8 = q"
    and cs: "read_u32 (slot j s' (Suc (p + length t))) 16 = crc32_slices (map (\<lambda>i. slot j s' (Suc (p + i))) [0..<length t])"
  shows "rec_at j s' p q t"
proof -
  have alt: "slot j s' (p + i) = slot j s (p + i) \<or> slot j s' (p + i) = rec_blocks q t ! i" if "i < length t + 2" for i
    using tl that by (simp add: torn_log_def)
  have cmt: "slot j s' (Suc (p + length t)) = commit_image q t"
    using alt[of "Suc (length t)"] o cm by (auto simp: rec_blocks_nth old_log_def inert_def)
  define ds where "ds = map (\<lambda>i. slot j s' (Suc (p + i))) [0..<length t]"
  have "crc32_slices ds = crc32_slices (map snd t)"
    using cs load_commit_image[OF q, of t] by (simp add: ds_def cmt load_commit_def)
  moreover have "\<forall>i < length t. ds ! i = slot j s (Suc (p + i)) \<or> ds ! i = snd (t ! i)"
  proof (intro allI impI)
    fix i assume "i < length t"
    then show "ds ! i = slot j s (Suc (p + i)) \<or> ds ! i = snd (t ! i)"
      using alt[of "Suc i"] by (simp add: ds_def rec_blocks_nth)
  qed
  ultimately have ds: "ds = map snd t"
    using g by (simp add: crc_guard_def ds_def)
  have "slot j s' (p + i) = rec_blocks q t ! i" if l: "i < length t + 2" for i
  proof -
    consider "i = 0" | k where "i = Suc k" "k < length t" | "i = Suc (length t)"
      using l by (cases i) (auto simp: less_Suc_eq)
    then show ?thesis
    proof cases
      case 2
      then have "ds ! k = snd (t ! k)"
        by (simp add: ds)
      then show ?thesis
        using 2 by (simp add: ds_def rec_blocks_nth)
    qed (simp_all add: rec_blocks_nth dsc cmt)
  qed
  then show ?thesis
    by (simp add: rec_at_def)
qed

text \<open>At the torn record itself the scan stops, unless the record is complete.\<close>

lemma pscan_torn_step:
  assumes geo: "geo j cap" and f: "fits j t" and q: "q < 2 ^ 64" and tl: "torn_log j s p q t s'" and o: "old_log j s q"
    and g: "crc_guard j s p t" and dsc: "slot j s' p = desc_image q t"
  shows "pscan j s' b (p mod log_blocks j) q lst = ([], p mod log_blocks j, lst) \<or> rec_at j s' p q t"
proof (rule disjCI)
  assume n: "\<not> rec_at j s' p q t"
  define cm where "cm = slot j s' (Suc (p + length t))"
  have "\<not> (read_u32 cm 0 = JCMT_MAGIC \<and> get_u64 cm 8 = q
           \<and> read_u32 cm 16 = crc32_slices (map (\<lambda>i. slot j s' (Suc (p + i))) [0..<length t]))"
    using torn_complete[OF q tl o g dsc] n unfolding cm_def by blast
  then show "pscan j s' b (p mod log_blocks j) q lst = ([], p mod log_blocks j, lst)"
    using f load_desc_fits[OF geo f q]
    by (subst pscan.simps) (auto simp: Let_def dsc load_commit_def cm_def fits_def)
qed


lemma pscan_cases:
  obtains (stop) "pscan j s b (x mod log_blocks j) q lst = ([], x mod log_blocks j, lst)"
  | (skip) c where "0 < b" "lst = None" "get_u64 (slot j s x) 8 < q" "read_u32 (slot j s x) 0 = JDES_MAGIC"
      "pscan j s b (x mod log_blocks j) q lst = pscan j s (b - (c + 2)) ((x + (c + 2)) mod log_blocks j) q None"
  | (here) "0 < b" "get_u64 (slot j s x) 8 = q" "read_u32 (slot j s x) 0 = JDES_MAGIC"
proof -
  define c where "c = jd_count (load_descriptor (slot j s x))"
  define ok where "ok \<longleftrightarrow> 0 < b \<and> read_u32 (slot j s x) 0 = JDES_MAGIC \<and> 0 < c \<and> c \<le> JDESC_MAX_TARGETS \<and> c + 2 \<le> log_blocks j"
  have "pscan j s b (x mod log_blocks j) q lst = ([], x mod log_blocks j, lst)" if "\<not> ok"
    using that by (subst pscan.simps) (auto simp: Let_def ok_def c_def load_desc_sel)
  moreover have "pscan j s b (x mod log_blocks j) q lst = pscan j s (b - (c + 2)) ((x + (c + 2)) mod log_blocks j) q None"
    if "ok" "lst = None" "get_u64 (slot j s x) 8 < q"
    unfolding that(2) using that by (intro pscan_skip_step) (simp_all add: ok_def c_def load_desc_sel)
  moreover have "pscan j s b (x mod log_blocks j) q lst = ([], x mod log_blocks j, lst)"
    if "\<not> (lst = None \<and> get_u64 (slot j s x) 8 < q)" "get_u64 (slot j s x) 8 \<noteq> q"
    using that by (intro pscan_stop) auto
  ultimately show thesis
    using that ok_def by metis
qed

lemma pscan_beyond:
  assumes geo: "geo j cap" and f: "fits j t" and q: "q < 2 ^ 63" and tl: "torn_log j s p q t s'" and o: "old_log j s q"
  shows "pscan j s' b (x mod log_blocks j) (q + 1) (Some q) = ([], x mod log_blocks j, Some q)"
proof (rule pscan_stop)
  have q': "q < 2 ^ 64"
    using q by simp
  assume m: "read_u32 (slot j s' x) 0 = JDES_MAGIC"
  have "get_u64 (desc_image q t) 8 = q"
    using load_desc_fits[OF geo f q'] by (simp add: load_descriptor_def)
  then show "get_u64 (slot j s' x) 8 \<noteq> q + 1 \<and> (Some q = None \<longrightarrow> q + 1 \<le> get_u64 (slot j s' x) 8)"
    using torn_desc[OF f q' tl o m] by auto
qed

lemma pscan_after_torn:
  assumes geo: "geo j cap" and f: "fits j t" and q: "q < 2 ^ 63" and tl: "torn_log j s p q t s'" and o: "old_log j s q"
    and g: "slot j s' p = desc_image q t \<Longrightarrow> crc_guard j s p t" and dsc: "slot j s' x = desc_image q t" "x mod log_blocks j = p mod log_blocks j"
  shows "pscan j s' b (x mod log_blocks j) q lst = ([], x mod log_blocks j, lst)
    \<or> (rec_at j s' p q t \<and> (\<exists>p'. pscan j s' b (x mod log_blocks j) q lst = ([t], p', Some q)))"
proof (cases "b = 0")
  case True
  then show ?thesis
    by (subst pscan.simps) simp
next
  case False
  have q': "q < 2 ^ 64"
    using q by simp
  have d: "slot j s' p = desc_image q t"
    using dsc slot_eqI by metis
  have "rec_at j s' p q t \<Longrightarrow> \<exists>p'. pscan j s' b (p mod log_blocks j) q lst = ([t], p', Some q)"
    using pscan_rec_step[OF geo f q', of s' p b lst] False by (simp only: pscan_beyond[OF geo f q tl o]) simp
  then show ?thesis
    unfolding dsc(2) using pscan_torn_step[OF geo f q' tl o g[OF d] d, of b lst] by blast
qed

lemma pscan_ack:
  assumes geo: "geo j cap" and f: "fits j t" and q: "q < 2 ^ 63" and tl: "torn_log j s p q t s'" and o: "old_log j s q"
    and g: "slot j s' p = desc_image q t \<Longrightarrow> crc_guard j s p t"
  shows "\<exists>p'. pscan j s' b (x mod log_blocks j) q None = ([], p', None)
    \<or> (rec_at j s' p q t \<and> pscan j s' b (x mod log_blocks j) q None = ([t], p', Some q))"
proof (induction b arbitrary: x rule: less_induct)
  case (less b)
  show ?case
  proof (cases rule: pscan_cases[of j s' b x q None])
    case (skip c)
    then show ?thesis
      using less[of "b - (c + 2)" "x + (c + 2)"] by simp
  next
    case here
    then have "x mod log_blocks j = p mod log_blocks j \<and> slot j s' x = desc_image q t"
      using torn_desc[OF f _ tl o here(3)] q by auto
    then show ?thesis
      using pscan_after_torn[OF geo f q tl o g, of x b None] by blast
  qed blast
qed


subsection \<open>The record that no durable superblock acknowledges yet\<close>

definition unacked :: "journal \<Rightarrow> (nat \<Rightarrow> bytes) \<Rightarrow> nat \<Rightarrow> nat \<Rightarrow> txn \<Rightarrow> bool" where
  "unacked j s p n r \<longleftrightarrow> fits j r \<and> rec_at j s p n r \<and> (p + (length r + 2)) mod log_blocks j = head j
     \<and> (\<forall>x. read_u32 (slot j s x) 0 = JDES_MAGIC \<and> get_u64 (slot j s x) 8 = n \<longrightarrow> x mod log_blocks j = p mod log_blocks j)"

lemma mod_ne: "a < b \<Longrightarrow> b < a + m \<Longrightarrow> a mod m \<noteq> b mod (m :: nat)"
proof
  assume "a < b" "b < a + m" "a mod m = b mod m"
  then have "m dvd b - a" "0 < b - a" "b - a < m"
    using mod_eq_dvd_iff_nat[of a b m] by simp_all
  then show False
    using nat_dvd_not_less by blast
qed

lemma torn_keeps_rec:
  assumes "fits j r" "fits j t" "rec_at j s p n r" "(p + (length r + 2)) mod log_blocks j = h mod log_blocks j"
    "torn_log j s h q t s'"
  shows "rec_at j s' p n r"
  unfolding rec_at_def
proof (intro allI impI)
  fix i assume i: "i < length r + 2"
  have "(p + i) mod log_blocks j \<noteq> (h + k) mod log_blocks j" if k: "k < length t + 2" for k
  proof -
    have "2 * (length r + 2) \<le> log_blocks j" "2 * (length t + 2) \<le> log_blocks j"
      using assms(1,2) by (simp_all add: fits_def)
    then have "(p + i) mod log_blocks j \<noteq> (p + (length r + 2) + k) mod log_blocks j"
      using i k by (intro mod_ne) arith+
    also have "(p + (length r + 2) + k) mod log_blocks j = (h + k) mod log_blocks j"
      using assms(4) mod_add_cong by blast
    finally show ?thesis .
  qed
  then have "slot j s' (p + i) = slot j s (p + i)"
    using assms(5) by (simp add: torn_log_def)
  then show "slot j s' (p + i) = rec_blocks n r ! i"
    using assms(3) i by (simp add: rec_at_def)
qed

lemma pscan_unacked:
  assumes geo: "geo j cap" and f: "fits j t" and q: "q < 2 ^ 63" and tl: "torn_log j s (head j) q t s'" and o: "old_log j s q"
    and g: "slot j s' (head j) = desc_image q t \<Longrightarrow> crc_guard j s (head j) t" and u: "unacked j s p n r" and n: "Suc n = q"
  shows "\<exists>p' l. (\<exists>ts \<in> {[], [r]}. pscan j s' b (x mod log_blocks j) n None = (ts, p', l))
    \<or> (rec_at j s' (head j) q t \<and> pscan j s' b (x mod log_blocks j) n None = ([r, t], p', l))"
proof (induction b arbitrary: x rule: less_induct)
  case (less b)
  have fr: "fits j r" and hd: "head j mod log_blocks j = head j"
    using u geo by (simp_all add: unacked_def geo_def)
  have endr: "(p + (length r + 2)) mod log_blocks j = head j mod log_blocks j"
    using u hd by (simp add: unacked_def)
  have r: "rec_at j s' p n r"
    using torn_keeps_rec[OF fr f _ endr tl] u by (simp add: unacked_def)
  show ?case
  proof (cases rule: pscan_cases[of j s' b x n None])
    case (skip c)
    then show ?thesis
      using less[of "b - (c + 2)" "x + (c + 2)"] by simp
  next
    case here
    have "get_u64 (desc_image q t) 8 = q"
      using load_desc_fits[OF geo f, of q] q by (simp add: load_descriptor_def)
    then have "slot j s' x \<noteq> desc_image q t"
      using here n by auto
    then have "slot j s' x = slot j s x"
      using torn_desc[OF f _ tl o here(3)] q by auto
    then have x: "x mod log_blocks j = p mod log_blocks j"
      using u here by (simp add: unacked_def)
    define rest where "rest = pscan j s' (b - (length r + 2)) (head j mod log_blocks j) q (Some n)"
    have step: "pscan j s' b (x mod log_blocks j) n None = (case rest of (ts, p, l) \<Rightarrow> (r # ts, p, l))"
      unfolding x rest_def endr[symmetric] using pscan_rec_step[OF geo fr _ r here(1)] q n by simp
    have "\<exists>p'. rest = ([], p', Some n) \<or> rec_at j s' (head j) q t \<and> rest = ([t], p', Some q)"
    proof (cases rule: pscan_cases[of j s' "b - (length r + 2)" "head j" q "Some n"])
      case here
      then have "slot j s' (head j) = desc_image q t"
        using torn_desc[OF f _ tl o here(3)] q by auto
      then show ?thesis
        using pscan_after_torn[OF geo f q tl o g, of "head j" "b - (length r + 2)" "Some n"] unfolding rest_def by blast
    qed (simp_all add: rest_def)
    then show ?thesis
      unfolding step by auto
  qed blast
qed


subsection \<open>Mounting\<close>

definition area_of :: "journal \<Rightarrow> journal_area" where
  "area_of j = \<lparr>ja_super_block = super_block j, ja_log_blocks = log_blocks j, ja_fs_blocks = fs_blocks j\<rparr>"

lemma pscan_result:
  "pscan j s b x q lst = (ts, p, l) \<Longrightarrow> x < log_blocks j \<Longrightarrow>
   p < log_blocks j \<and> l = (if ts = [] then lst else Some (q + length ts - 1)) \<and> length ts \<le> b"
proof (induction j s b x q lst arbitrary: ts p l rule: pscan.induct)
  case (1 j s b x q lst)
  define desc where "desc = load_descriptor (slot j s x)"
  define c where "c = jd_count desc"
  define cmt where "cmt = load_commit (slot j s (Suc (x + c)))"
  define datas where "datas = map (\<lambda>i. slot j s (Suc (x + i))) [0..<c]"
  note defs = desc_def[symmetric] c_def[symmetric] cmt_def[symmetric] datas_def[symmetric]
  have L: "0 < log_blocks j"
    using 1(4) by simp
  note IH1 = 1(1)[OF _ refl refl, unfolded defs] and IH2 = 1(2)[OF _ refl refl _ _ _ refl refl, simplified, unfolded defs]
  from 1(3) show ?case
    using 1(4) L IH1 IH2
    by (subst (asm) pscan.simps) (auto simp: Let_def defs split: if_splits prod.splits)
qed


lemma pscan_fields:
  "pscan (j\<lparr>head := h, tail := t0, next_seq := n\<rparr>) s b x q lst = pscan j s b x q lst"
proof (induction j s b x q lst rule: pscan.induct)
  case (1 j s b x q lst)
  have sl: "slot (j\<lparr>head := h, tail := t0, next_seq := n\<rparr>) s = slot j s"
    by (rule ext) (simp add: slot_def)
  show ?case
    using 1 by (subst (1 2) pscan.simps) (simp add: sl Let_def)
qed

lemma geo_fields:
  "geo j cap \<Longrightarrow> h < log_blocks j \<Longrightarrow> t0 < log_blocks j \<Longrightarrow> n < 2 ^ 63 \<Longrightarrow>
   geo (j\<lparr>head := h, tail := t0, next_seq := n\<rparr>) cap"
  by (simp add: geo_def)

lemma geo_small:
  assumes "geo j cap"
  shows "log_blocks j < 2 ^ 60" "fs_blocks j < 2 ^ 60" "super_block j < cap" "wadd (super_block j) 1 = log_start j"
proof -
  have "super_block j + 1 + log_blocks j \<le> 2 ^ 60" "super_block j + 1 + log_blocks j \<le> cap"
    "fs_blocks j \<le> super_block j" "log_start j = super_block j + 1"
    using assms by (simp_all add: geo_def max_blocks_def)
  then show "log_blocks j < 2 ^ 60" "fs_blocks j < 2 ^ 60" "super_block j < cap" "wadd (super_block j) 1 = log_start j"
    using geo_L[OF assms] by (simp_all add: wadd_exact)
qed

lemma open_super_image:
  assumes "geo j (capacity d)" "fuse d = None" "view d (super_block j) = super_image j"
  shows "journal_open (area_of j) d = (Inr j, d)"
proof -
  have b: "log_blocks j < 2 ^ 60" "fs_blocks j < 2 ^ 60" "super_block j < capacity d"
    and w: "wadd (super_block j) 1 = log_start j"
    using geo_small[OF assms(1)] by simp_all
  have "read_block (super_block j) d = (Inr (super_image j), d)"
    using read_block_alive[OF assms(2) b(3) geo_cap[OF assms(1)]] assms(3) by simp
  moreover have "load_journal_super (super_image j) = Inr
    \<lparr>js_magic = JNL_MAGIC, js_head = head j, js_tail = tail j, js_next_seq = next_seq j,
     js_log_blocks = log_blocks j, js_fs_blocks = fs_blocks j, js_checksum = 0\<rparr>"
    using assms(1) b by (intro load_super_image) (auto simp: geo_def)
  moreover have "0 < log_blocks j"
    using assms(1) by (simp add: geo_def)
  ultimately show ?thesis
    using w by (simp add: journal_open_def io_bind_def area_of_def)
qed

lemma recover_alive:
  assumes g: "geo j (capacity d)" and a: "fuse d = None" and c: "cache d = []"
    and ps: "pscan j (medium d) (log_blocks j) (tail j) (next_seq j) None = (ts, p, l)"
    and tg: "\<forall>t \<in> set ts. \<forall>x \<in> set t. fst x < fs_blocks j"
  defines "j2 \<equiv> j\<lparr>head := p, tail := p, next_seq := next_seq j + length ts\<rparr>"
  shows "\<exists>n. recover j d = (Inr n, j2,
    d\<lparr>medium := apply_writes (concat ts) (medium d), cache := [(super_block j, super_image j2)]\<rparr>)"
proof -
  define sc where "sc = \<lparr>sc_pos = tail j, sc_replayed = 0, sc_expected = next_seq j, sc_last = None\<rparr>"
  have tl: "tail j < log_blocks j" and nq: "next_seq j < 2 ^ 63"
    using g by (simp_all add: geo_def)
  obtain sc' where sc': "scan_loop j (log_blocks j) sc d = (Inr sc', d\<lparr>cache := cache d @ concat ts\<rparr>)"
    "sc_pos sc' = p" "sc_last sc' = l"
    using scan_loop_pscan[OF g a, of sc "log_blocks j" ts p l] ps tg tl nq geo_small(1)[OF g]
    by (auto simp: sc_def c)
  have l: "l = (if ts = [] then None else Some (next_seq j + length ts - 1))"
    using pscan_result[OF ps tl] by simp
  define d1 where "d1 = d\<lparr>medium := apply_writes (concat ts) (medium d), cache := []\<rparr>"
  have j2b: "j\<lparr>tail := p, head := p, next_seq := next_seq j + length ts\<rparr> = j2"
    by (simp add: j2_def)
  have ps2: "persist_super j2 d1 = (Inr (), d1\<lparr>cache := [(super_block j, super_image j2)]\<rparr>)"
    unfolding persist_super_def
    by (subst write_block_alive) (use g a geo_small(3)[OF g] in \<open>simp_all add: d1_def j2_def geo_cap\<close>)
  show ?thesis
  proof (cases "ts = []")
    case True
    have "d1 = d"
      using True c by (simp add: d1_def)
    moreover have "j2 = j\<lparr>tail := p, head := p\<rparr>"
      using True by (simp add: j2_def)
    ultimately show ?thesis
      using ps2 sc' True l c unfolding recover_def sc_def[symmetric] by (simp add: Let_def d1_def)
  next
    case False
    have lim: "length ts \<le> log_blocks j"
      using pscan_result[OF ps tl] by simp
    then have w: "wadd (next_seq j + length ts - 1) 1 = next_seq j + length ts"
      using False nq geo_small(1)[OF g] by (simp add: wadd_exact)
    have "flush (d\<lparr>cache := cache d @ concat ts\<rparr>) = (Inr (), d1)"
      using a c by (simp add: flush_alive d1_def view_apply)
    then show ?thesis
      using ps2 sc' False l w j2b unfolding recover_def sc_def[symmetric] by (simp add: Let_def d1_def max_absorb2)
  qed
qed

end
