(* ===== verification/JournalCrash.thy ===== *)
theory JournalCrash
  imports JournalRing
begin

text \<open>
  The journal of \<^verbatim>\<open>src/src/fs/journal.rs\<close> on a device that may lose power after any command.

  \<open>super_ok j s c\<close>: the superblock image \<open>c\<close> may be found next to the medium \<open>s\<close>.  It either
  acknowledges every committed transaction, or all but the last one, whose record is then intact
  in front of the head and whose blocks are checkpointed.  \<open>recoverable\<close>: a power loss at this
  point is harmless.  \<open>journal_inv\<close> adds what holds between two operations.
\<close>

subsection \<open>What a crash may find\<close>

definition super_ok :: "journal \<Rightarrow> (nat \<Rightarrow> bytes) \<Rightarrow> bytes \<Rightarrow> bool" where
  "super_ok j s c \<longleftrightarrow> (\<exists>h t0 n. c = super_image (j\<lparr>head := h, tail := t0, next_seq := n\<rparr>) \<and> h < log_blocks j \<and> t0 < log_blocks j
     \<and> (n = next_seq j
        \<or> Suc n = next_seq j \<and> (\<exists>p r k. unacked j s p n r \<and> (\<forall>u < fs_blocks j. apply_writes r s u = s u)
             \<and> skips j s n t0 k \<and> k < log_blocks j \<and> (t0 + k) mod log_blocks j = p mod log_blocks j)))"

definition recoverable :: "journal \<Rightarrow> dev \<Rightarrow> bool" where
  "recoverable j d \<longleftrightarrow> geo j (capacity d) \<and> old_log j (medium d) (next_seq j)
     \<and> super_ok j (medium d) (medium d (super_block j))
     \<and> (\<forall>x \<in> set (cache d). fst x = super_block j \<and> super_ok j (medium d) (snd x))"

definition journal_inv :: "journal \<Rightarrow> dev \<Rightarrow> bool" where
  "journal_inv j d \<longleftrightarrow> recoverable j d \<and> view d (super_block j) = super_image j
     \<and> skips j (medium d) (next_seq j) (tail j) (log_used j)"

lemma apply_agree:
  "(\<And>u. u < n \<Longrightarrow> f u = g u) \<Longrightarrow> u < n \<Longrightarrow> apply_writes ws f u = apply_writes ws g u"
proof (induction ws arbitrary: f g)
  case (Cons w ws)
  obtain v b where w: "w = (v, b)" by (cases w)
  show ?case
    unfolding w apply_writes_simps by (rule Cons.IH) (use Cons.prems in simp_all)
qed simp

lemma power_on_sel [simp]:
  "medium (power_on cap s) = s" "cache (power_on cap s) = []" "capacity (power_on cap s) = cap" "fuse (power_on cap s) = None"
  "view (power_on cap s) = s"
  by (simp_all add: power_on_def view_def)

lemma mount_alive:
  assumes g: "geo j cap" and b: "h < log_blocks j" "t0 < log_blocks j" "n \<le> next_seq j"
    and sb: "s (super_block j) = super_image (j\<lparr>head := h, tail := t0, next_seq := n\<rparr>)"
    and ps: "pscan j s (log_blocks j) t0 n None = (ts, p, l)" and ft: "\<forall>t \<in> set ts. fits j t"
  defines "j2 \<equiv> j\<lparr>head := p, tail := p, next_seq := n + length ts\<rparr>"
  shows "mount_journal (area_of j) (power_on cap s) = (Inr j2,
    \<lparr>medium = apply_writes (concat ts) s, cache = [(super_block j, super_image j2)], capacity = cap, fuse = None\<rparr>)"
proof -
  define j0 where "j0 = j\<lparr>head := h, tail := t0, next_seq := n\<rparr>"
  have g0: "geo j0 (capacity (power_on cap s))"
    using g b by (simp add: j0_def geo_def)
  have ar: "area_of j = area_of j0" and eq: "j0\<lparr>head := p, tail := p, next_seq := next_seq j0 + length ts\<rparr> = j2"
    and sb0: "super_block j0 = super_block j"
    by (simp_all add: area_of_def j0_def j2_def)
  have op: "journal_open (area_of j) (power_on cap s) = (Inr j0, power_on cap s)"
    unfolding ar using sb by (intro open_super_image g0) (simp_all add: j0_def)
  have ps0: "pscan j0 (medium (power_on cap s)) (log_blocks j0) (tail j0) (next_seq j0) None = (ts, p, l)"
    using ps by (simp add: j0_def pscan_fields)
  have "\<forall>t \<in> set ts. \<forall>x \<in> set t. fst x < fs_blocks j0"
    using ft by (simp add: fits_def j0_def)
  from recover_alive[OF g0 _ _ ps0 this]
  obtain k where "recover j0 (power_on cap s) = (Inr k, j2,
      power_on cap s\<lparr>medium := apply_writes (concat ts) s, cache := [(super_block j, super_image j2)]\<rparr>)"
    unfolding eq sb0 by auto
  then have "mount_journal (area_of j) (power_on cap s) = (Inr j2,
      power_on cap s\<lparr>medium := apply_writes (concat ts) s, cache := [(super_block j, super_image j2)]\<rparr>)"
    by (simp add: mount_journal_def op)
  then show ?thesis
    by (simp add: power_on_def)
qed

lemma view_super_cache: "cache d = [(b, x)] \<Longrightarrow> u \<noteq> b \<Longrightarrow> view d u = medium d u"
  by (simp add: view_def)

text \<open>Mounting a medium on which the record of an interrupted commit is torn.\<close>

lemma mount_torn:
  assumes g: "geo j cap" and o: "old_log j s0 (next_seq j)" and f: "fits j t" 
    and c: "slot j s (head j) = desc_image (next_seq j) t \<Longrightarrow> crc_guard j s0 (head j) t"
    and tl: "torn_log j s0 (head j) (next_seq j) t s" and fs: "\<And>u. u < fs_blocks j \<Longrightarrow> s u = s0 u"
    and so: "super_ok j s0 (s (super_block j))"
  shows "\<exists>j2 d2. mount_journal (area_of j) (power_on cap s) = (Inr j2, d2)
    \<and> ((\<forall>u < fs_blocks j. view d2 u = s0 u)
       \<or> rec_at j s (head j) (next_seq j) t \<and> (\<forall>u < fs_blocks j. view d2 u = apply_writes t s0 u))"
proof -
  obtain h t0 n where sb: "s (super_block j) = super_image (j\<lparr>head := h, tail := t0, next_seq := n\<rparr>)"
    and b: "h < log_blocks j" "t0 < log_blocks j"
    and n: "n = next_seq j \<or> Suc n = next_seq j \<and> (\<exists>p r. unacked j s0 p n r \<and> (\<forall>u < fs_blocks j. apply_writes r s0 u = s0 u))"
    using so unfolding super_ok_def by blast
  have q: "next_seq j < 2 ^ 63" and fsb: "fs_blocks j \<le> super_block j"
    using g by (simp_all add: geo_def)
  have "\<exists>ts p l. pscan j s (log_blocks j) t0 n None = (ts, p, l) \<and> (\<forall>t \<in> set ts. fits j t)
     \<and> ((\<forall>u < fs_blocks j. apply_writes (concat ts) s0 u = s0 u)
        \<or> rec_at j s (head j) (next_seq j) t \<and> (\<forall>u < fs_blocks j. apply_writes (concat ts) s0 u = apply_writes t s0 u))"
    using n
  proof (elim disjE conjE exE)
    assume [simp]: "n = next_seq j"
    show ?thesis
      using pscan_ack[OF g f q tl o c, of "log_blocks j" t0] b(2) f by auto
  next
    fix p r assume n: "Suc n = next_seq j" and u: "unacked j s0 p n r" and r: "\<forall>u < fs_blocks j. apply_writes r s0 u = s0 u"
    have fr: "fits j r"
      using u by (simp add: unacked_def)
    obtain p' l where "(\<exists>ts \<in> {[], [r]}. pscan j s (log_blocks j) t0 n None = (ts, p', l))
      \<or> (rec_at j s (head j) (next_seq j) t \<and> pscan j s (log_blocks j) t0 n None = ([r, t], p', l))"
      using pscan_unacked[OF g f q tl o c u n, of "log_blocks j" t0] b(2) by auto
    moreover have "apply_writes t (apply_writes r s0) u = apply_writes t s0 u" if "u < fs_blocks j" for u
      using that r by (intro apply_agree[where n = "fs_blocks j"]) simp_all
    ultimately show ?thesis
      using f fr r by fastforce
  qed
  then obtain ts p l where ps: "pscan j s (log_blocks j) t0 n None = (ts, p, l)" and ft: "\<forall>t \<in> set ts. fits j t"
    and res: "(\<forall>u < fs_blocks j. apply_writes (concat ts) s0 u = s0 u)
        \<or> rec_at j s (head j) (next_seq j) t \<and> (\<forall>u < fs_blocks j. apply_writes (concat ts) s0 u = apply_writes t s0 u)"
    by blast
  define j2 where "j2 = j\<lparr>head := p, tail := p, next_seq := n + length ts\<rparr>"
  define d2 where "d2 = \<lparr>medium = apply_writes (concat ts) s, cache = [(super_block j, super_image j2)], capacity = cap, fuse = None\<rparr>"
  have "mount_journal (area_of j) (power_on cap s) = (Inr j2, d2)"
    unfolding j2_def d2_def using n by (intro mount_alive[OF g b _ sb ps ft]) auto
  moreover have "view d2 u = apply_writes (concat ts) s0 u" if "u < fs_blocks j" for u
    using that fsb view_super_cache[of d2 "super_block j" "super_image j2" u] apply_agree[of "fs_blocks j" s s0 u "concat ts"] fs
    by (simp add: d2_def)
  ultimately show ?thesis
    using res by auto
qed


lemma fits_exists: "geo j cap \<Longrightarrow> fits j [(0, zero_block)]"
proof -
  assume "geo j cap"
  moreover have "inert zero_block"
    by (simp add: inert_def zero_block_def BS_def JDES_MAGIC_def JCMT_MAGIC_def read_u32_def buf_simps)
  ultimately show ?thesis
    by (simp add: fits_def geo_def JDESC_MAX_TARGETS_def)
qed

lemma torn_none: "(\<And>x. slot j s x = slot j s0 x) \<Longrightarrow> torn_log j s0 p q t s"
  by (simp add: torn_log_def)

lemma old_log_no_desc:
  assumes "geo j cap" "fits j t" "old_log j s q" "q < 2 ^ 64"
  shows "slot j s x \<noteq> desc_image q t"
proof
  assume "slot j s x = desc_image q t"
  moreover have "get_u64 (desc_image q t) 8 = q" "read_u32 (desc_image q t) 0 = JDES_MAGIC"
    using load_desc_fits[OF assms(1,2,4)] by (simp_all add: load_descriptor_def)
  ultimately show False
    using assms(3) unfolding old_log_def inert_def by (metis less_irrefl)
qed

text \<open>Between two commits a power loss changes no block of the file system.\<close>

lemma mount_recoverable:
  assumes r: "recoverable j d" and s: "survives d s"
  shows "\<exists>j2 d2. mount_journal (area_of j) (power_on (capacity d) s) = (Inr j2, d2)
    \<and> (\<forall>u < fs_blocks j. view d2 u = medium d u)"
proof -
  have g: "geo j (capacity d)" and o: "old_log j (medium d) (next_seq j)" and q: "next_seq j < 2 ^ 64"
    using r by (auto simp: recoverable_def geo_def)
  have other: "s u = medium d u" if "u \<noteq> super_block j" for u
    using s r that unfolding survives_def recoverable_def by fastforce
  have sl: "slot j s x = slot j (medium d) x" for x
    unfolding slot_def using log_addr_bounds(3)[OF g, of x] by (intro other) simp
  let ?t = "[(0, zero_block)]"
  have no: "slot j s x \<noteq> desc_image (next_seq j) ?t" for x
    unfolding sl by (rule old_log_no_desc[OF g fits_exists[OF g] o q])
  have fsb: "s u = medium d u" if "u < fs_blocks j" for u
    using that g by (intro other) (auto simp: geo_def)
  have so: "super_ok j (medium d) (s (super_block j))"
    using s r unfolding survives_def recoverable_def by (metis fst_conv snd_conv)
  obtain j2 d2 where "mount_journal (area_of j) (power_on (capacity d) s) = (Inr j2, d2)"
    "(\<forall>u < fs_blocks j. view d2 u = medium d u)
       \<or> rec_at j s (head j) (next_seq j) ?t \<and> (\<forall>u < fs_blocks j. view d2 u = apply_writes ?t (medium d) u)"
    using mount_torn[OF g o fits_exists[OF g] _ torn_none[OF sl] fsb so] no by blast
  then show ?thesis
    using no rec_at_slots(1) by blast
qed


subsection \<open>Commands that may fail\<close>

lemma write_block_any:
  assumes "write_block b x d = (r, d')" "b < capacity d" "capacity d \<le> max_blocks"
  obtains (ok) n where "r = Inr ()" "d' = d\<lparr>cache := cache d @ [(b, x)], fuse := n\<rparr>"
  | (err) "r = Inl IoError" "d' = d" "fuse d \<noteq> None"
proof (cases rule: tick_cases[of d])
  case dead
  then show ?thesis
    using assms err by (auto simp: write_block_def dev_write_block_def tick_def split: option.splits)
next
  case (alive n)
  then have "r = Inr () \<and> d' = d\<lparr>cache := cache d @ [(b, x)], fuse := n\<rparr>"
    using assms by (auto simp: write_block_def dev_write_block_def block_unit_num)
  then show ?thesis
    using ok by blast
qed

lemma flush_any:
  assumes "flush d = (r, d')"
  obtains (ok) n where "r = Inr ()" "d' = d\<lparr>medium := view d, cache := [], fuse := n\<rparr>"
  | (err) "r = Inl IoError" "d' = d" "fuse d \<noteq> None"
proof (cases rule: tick_cases[of d])
  case dead
  then show ?thesis
    using assms err by (auto simp: flush_def dev_flush_def tick_def split: option.splits)
next
  case (alive n)
  then have "r = Inr () \<and> d' = d\<lparr>medium := view d, cache := [], fuse := n\<rparr>"
    using assms by (auto simp: flush_def dev_flush_def)
  then show ?thesis
    using ok by blast
qed

lemma write_all_any:
  assumes "write_all ws d = (r, d')" "\<forall>x \<in> set ws. fst x < capacity d" "capacity d \<le> max_blocks"
  shows "\<exists>m n. d' = d\<lparr>cache := cache d @ take m ws, fuse := n\<rparr> \<and> (r = Inr () \<and> m = length ws \<or> r = Inl IoError)"
  using assms
proof (induction ws arbitrary: d)
  case Nil
  then show ?case
    by (intro exI[of _ 0] exI[of _ "fuse d"]) (auto simp: io_return_def)
next
  case (Cons w ws)
  obtain b x where w: "w = (b, x)" by (cases w)
  obtain r1 d1 where wb: "write_block b x d = (r1, d1)" by fastforce
  have b: "b < capacity d"
    using Cons.prems by (simp add: w)
  show ?case
  proof (cases rule: write_block_any[OF wb b Cons.prems(3)])
    case (1 n)
    then have "write_all ws d1 = (r, d')"
      using Cons.prems(1) wb by (simp add: w io_bind_def)
    then obtain m k where "d' = d1\<lparr>cache := cache d1 @ take m ws, fuse := k\<rparr>" "r = Inr () \<and> m = length ws \<or> r = Inl IoError"
      using Cons.IH[of d1] Cons.prems 1 by auto
    then show ?thesis
      using 1 by (intro exI[of _ "Suc m"] exI[of _ k]) (auto simp: w)
  next
    case 2
    then show ?thesis
      using Cons.prems(1) wb by (intro exI[of _ 0] exI[of _ "fuse d"]) (auto simp: w io_bind_def)
  qed
qed

lemma write_all_alive:
  assumes "fuse d = None" "\<forall>x \<in> set ws. fst x < capacity d" "capacity d \<le> max_blocks"
  shows "write_all ws d = (Inr (), d\<lparr>cache := cache d @ ws\<rparr>)"
  using assms
proof (induction ws arbitrary: d)
  case (Cons w ws)
  then show ?case
    by (cases w) (simp add: io_bind_def write_block_alive)
qed (simp add: io_return_def)


subsection \<open>The writes of a commit\<close>

lemma wsub_exact: "b \<le> a \<Longrightarrow> a < 2 ^ 64 \<Longrightarrow> wsub a b = a - b"
proof -
  assume "b \<le> a" "a < 2 ^ 64"
  moreover have "a + 2 ^ 64 - b = (a - b) + 2 ^ 64"
    using \<open>b \<le> a\<close> by simp
  ultimately show ?thesis
    unfolding wsub_def by (simp only: mod_add_self2 mod_less)
qed

lemma log_used_geo:
  assumes "geo j cap"
  shows "log_used j < log_blocks j" "(tail j + log_used j) mod log_blocks j = head j"
    "log_used j = (if tail j \<le> head j then head j - tail j else head j + log_blocks j - tail j)"
proof -
  have b: "head j < log_blocks j" "tail j < log_blocks j" "log_blocks j < 2 ^ 60"
    using assms geo_small[OF assms] by (simp_all add: geo_def)
  have *: "log_used j = (if tail j \<le> head j then head j - tail j else head j + log_blocks j - tail j)"
    using b by (simp add: log_used_def wsub_exact wadd_exact)
  then show "log_used j = (if tail j \<le> head j then head j - tail j else head j + log_blocks j - tail j)" .
  show "log_used j < log_blocks j" "(tail j + log_used j) mod log_blocks j = head j"
    using b unfolding * by auto
qed

lemma log_writes_eq:
  assumes g: "geo j cap" and f: "fits j t"
  shows "log_writes j t = map (\<lambda>i. (log_start j + (head j + i) mod log_blocks j, rec_blocks (next_seq j) t ! i)) [0..<length t + 2]"
proof -
  have w: "wadd (wadd (head j) (Suc 0)) i = head j + Suc i" if "i \<le> length t" for i
    using that f g geo_small(1)[OF g] by (simp add: wadd_exact fits_def JDESC_MAX_TARGETS_def geo_def)
  have "[0..<Suc (length t)] = 0 # map Suc [0..<length t]"
    unfolding map_Suc_upt by (rule upt_conv_Cons) simp
  then have "[0..<length t + 2] = 0 # map Suc [0..<length t] @ [Suc (length t)]"
    using upt_Suc[of 0 "Suc (length t)"] by simp
  then show ?thesis
    by (simp add: log_writes_def w log_addr[OF g] rec_blocks_nth)
qed

lemma ring_inj:
  assumes "i < n" "k < n" "n \<le> m" "(h + i) mod m = (h + k) mod (m :: nat)"
  shows "i = k"
proof (rule ccontr)
  assume "i \<noteq> k"
  then consider "i < k" | "k < i" by linarith
  then show False
    using mod_ne[of "h + i" "h + k" m] mod_ne[of "h + k" "h + i" m] assms by cases auto
qed

lemma torn_from_writes:
  assumes g: "geo j cap" and f: "fits j t"
    and s': "\<And>u. log_start j \<le> u \<Longrightarrow> s' u = s u \<or> (u, s' u) \<in> set (log_writes j t)"
  shows "torn_log j s (head j) (next_seq j) t s'"
proof -
  have n: "length t + 2 \<le> log_blocks j"
    using f by (simp add: fits_def)
  have cs: "slot j s' x = slot j s x
     \<or> (\<exists>i < length t + 2. x mod log_blocks j = (head j + i) mod log_blocks j \<and> slot j s' x = rec_blocks (next_seq j) t ! i)" for x
    using s'[of "log_start j + x mod log_blocks j"] unfolding log_writes_eq[OF g f] slot_def by auto
  have "slot j s' (head j + i) = slot j s (head j + i) \<or> slot j s' (head j + i) = rec_blocks (next_seq j) t ! i"
    if i: "i < length t + 2" for i
    using cs[of "head j + i"] ring_inj[OF i _ n] by metis
  moreover have "slot j s' x = slot j s x" if "\<forall>i < length t + 2. x mod log_blocks j \<noteq> (head j + i) mod log_blocks j" for x
    using cs[of x] that by blast
  ultimately show ?thesis
    unfolding torn_log_def by blast
qed

lemma apply_writes_map_of: "apply_writes ws f u = (case map_of (rev ws) u of Some b \<Rightarrow> b | None \<Rightarrow> f u)"
proof (induction ws arbitrary: f)
  case (Cons w ws)
  then show ?case
    by (cases w) (auto simp: map_add_def split: option.splits)
qed simp

lemma apply_writes_idem [simp]: "apply_writes ws (apply_writes ws f) = apply_writes ws f"
  by (rule ext) (simp add: apply_writes_map_of split: option.splits)

lemma apply_writes_overwrite:
  assumes "s u = f u \<or> (u, s u) \<in> set ws"
  shows "apply_writes ws s u = apply_writes ws f u"
proof (cases "u \<in> fst ` set ws")
  case True
  then have "map_of (rev ws) u \<noteq> None"
    by (simp add: map_of_eq_None_iff)
  then show ?thesis
    by (auto simp: apply_writes_map_of)
next
  case False
  then have "(u, s u) \<notin> set ws"
    by (metis fst_conv image_eqI)
  then show ?thesis
    using assms by (simp add: apply_writes_other[OF False])
qed

lemma rec_at_applied:
  assumes g: "geo j cap" and f: "fits j t"
  shows "rec_at j (apply_writes (log_writes j t) s) (head j) (next_seq j) t"
  unfolding rec_at_def
proof (intro allI impI)
  fix i assume i: "i < length t + 2"
  have n: "length t + 2 \<le> log_blocks j"
    using f by (simp add: fits_def)
  have "inj_on (\<lambda>i. log_start j + (head j + i) mod log_blocks j) {0..<length t + 2}"
  proof (rule inj_onI)
    fix x y assume "x \<in> {0..<length t + 2}" "y \<in> {0..<length t + 2}"
      "log_start j + (head j + x) mod log_blocks j = log_start j + (head j + y) mod log_blocks j"
    then show "x = y"
      using ring_inj[of x "length t + 2" y "log_blocks j" "head j"] n by simp
  qed
  then have "distinct (map fst (log_writes j t))"
    unfolding log_writes_eq[OF g f] by (simp add: distinct_map comp_def del: upt_Suc add_2_eq_Suc')
  moreover have "(log_start j + (head j + i) mod log_blocks j, rec_blocks (next_seq j) t ! i) \<in> set (log_writes j t)"
    unfolding log_writes_eq[OF g f] set_map set_upt using i by (intro image_eqI[of _ _ i]) auto
  ultimately show "slot j (apply_writes (log_writes j t) s) (head j + i) = rec_blocks (next_seq j) t ! i"
    unfolding slot_def by (rule apply_writes_in)
qed


lemma log_writes_addr:
  assumes "geo j cap" "fits j t" "x \<in> set (log_writes j t)"
  shows "log_start j \<le> fst x" "fst x < cap"
  using assms(3) log_addr_bounds(1)[OF assms(1)] unfolding log_writes_eq[OF assms(1,2)] by auto

text \<open>The second half of a commit: the record is complete in the log and the checkpoint is under way.\<close>

lemma mount_complete:
  assumes g: "geo j cap" and o: "old_log j s0 (next_seq j)" and f: "fits j t"
    and tl: "torn_log j s0 (head j) (next_seq j) t s" and r: "rec_at j s (head j) (next_seq j) t"
    and sb: "s (super_block j) = super_image j" and sk: "skips j s (next_seq j) (tail j) (log_used j)"
  shows "\<exists>j2 d2. mount_journal (area_of j) (power_on cap s) = (Inr j2, d2)
    \<and> (\<forall>u < fs_blocks j. view d2 u = apply_writes t s u)"
proof -
  have q: "next_seq j < 2 ^ 63" "next_seq j < 2 ^ 64" and fsb: "fs_blocks j \<le> super_block j"
    and b: "head j < log_blocks j" "tail j < log_blocks j"
    using g by (auto simp: geo_def)
  note u = log_used_geo(1,2)[OF g]
  have "pscan j s (log_blocks j) (tail j) (next_seq j) None
      = pscan j s (log_blocks j - log_used j) (head j mod log_blocks j) (next_seq j) None"
    using pscan_skips[OF sk u(1)] u(2) b by simp
  also have "\<dots> = ([t], (head j + (length t + 2)) mod log_blocks j, Some (next_seq j))"
    using pscan_rec_step[OF g f q(2) r, of "log_blocks j - log_used j" None] u(1)
    by (simp only: pscan_beyond[OF g f q(1) tl o]) simp
  finally have ps: "pscan j s (log_blocks j) (tail j) (next_seq j) None
      = ([t], (head j + (length t + 2)) mod log_blocks j, Some (next_seq j))" .
  have sb': "s (super_block j) = super_image (j\<lparr>head := head j, tail := tail j, next_seq := next_seq j\<rparr>)"
    using sb by simp
  show ?thesis
    using mount_alive[OF g b _ sb' ps] f fsb by (auto simp: view_super_cache)
qed

lemma torn_seq:
  assumes geo: "geo j cap" and f: "fits j t" and q: "q < 2 ^ 64" and tl: "torn_log j s p q t s'" and o: "old_log j s q"
  shows "old_log j s' (Suc q)"
  unfolding old_log_def
proof (intro allI impI)
  fix x assume ni: "\<not> inert (slot j s' x)"
  show "get_u64 (slot j s' x) 8 < Suc q"
  proof (cases "slot j s' x = slot j s x")
    case True
    then show ?thesis
      using o ni by (auto simp: old_log_def intro: less_SucI)
  next
    case False
    then obtain i where i: "i < length t + 2" "x mod log_blocks j = (p + i) mod log_blocks j"
      using tl by (auto simp: torn_log_def)
    have sl: "slot j s' x = rec_blocks q t ! i"
      using tl i False slot_eqI[OF i(2)] by (auto simp: torn_log_def)
    consider "i = 0" | k where "i = Suc k" "k < length t" | "i = Suc (length t)"
      using i(1) by (cases i) (auto simp: less_Suc_eq)
    then show ?thesis
    proof cases
      case 1
      then show ?thesis
        using load_desc_fits[OF geo f q] by (simp add: sl rec_blocks_nth load_descriptor_def)
    next
      case 2
      then show ?thesis
        using ni f by (simp add: sl rec_blocks_nth fits_def)
    next
      case 3
      then show ?thesis
        using load_commit_image[OF q, of t] by (simp add: sl rec_blocks_nth load_commit_def)
    qed
  qed
qed


subsection \<open>The stages of a commit\<close>

lemma view_cache: "view (d\<lparr>cache := cache d @ ws, fuse := n\<rparr>) = apply_writes ws (view d)"
  by (simp add: view_apply)

lemma commit_body_cases:
  assumes g: "geo j (capacity d)" and f: "fits j t" and body: "commit_body j t d = (r, d')"
  obtains (log) m n where "r = Inl IoError" "d' = d\<lparr>cache := cache d @ take m (log_writes j t), fuse := n\<rparr>"
  | (check) m n where "r = Inl IoError"
      "d' = d\<lparr>medium := apply_writes (log_writes j t) (view d), cache := take m t, fuse := n\<rparr>"
  | (ckpt) n where "r = Inr ()"
      "d' = d\<lparr>medium := apply_writes t (apply_writes (log_writes j t) (view d)), cache := [], fuse := n\<rparr>"
proof -
  let ?lw = "log_writes j t"
  have cap: "capacity d \<le> max_blocks"
    by (rule geo_cap[OF g])
  obtain r1 d1 where w1: "write_all ?lw d = (r1, d1)" by fastforce
  obtain m1 n1 where d1: "d1 = d\<lparr>cache := cache d @ take m1 ?lw, fuse := n1\<rparr>"
    and r1: "r1 = Inr () \<and> m1 = length ?lw \<or> r1 = Inl IoError"
    using write_all_any[OF w1 _ cap] log_writes_addr(2)[OF g f] by blast
  show thesis
  proof (cases "r1 = Inl IoError")
    case True
    then show thesis
      using log[where m = m1 and n = n1] body w1 d1 by (simp add: commit_body_def io_bind_def)
  next
    case False
    then have r1: "r1 = Inr ()" and d1: "d1 = d\<lparr>cache := cache d @ ?lw, fuse := n1\<rparr>"
      using r1 d1 by simp_all
    obtain r2 d2 where fl: "flush d1 = (r2, d2)" by fastforce
    show thesis
    proof (cases rule: flush_any[OF fl])
      case 2
      then show thesis
        using log[where m = "length ?lw" and n = n1] body w1 fl r1 d1 by (simp add: commit_body_def io_bind_def)
    next
      case (1 n2)
      define M where "M = apply_writes ?lw (view d)"
      have d2: "d2 = d\<lparr>medium := M, cache := [], fuse := n2\<rparr>"
        using 1(2) d1 view_cache[where d = d and ws = ?lw and n = n1] by (simp add: M_def)
      obtain r3 d3 where w3: "write_all t d2 = (r3, d3)" by fastforce
      have "\<forall>x \<in> set t. fst x < capacity d2"
        using f g by (auto simp: d2 fits_def geo_def)
      then obtain m3 n3 where d3: "d3 = d\<lparr>medium := M, cache := take m3 t, fuse := n3\<rparr>"
        and r3: "r3 = Inr () \<and> m3 = length t \<or> r3 = Inl IoError"
        using write_all_any[OF w3] cap by (auto simp: d2)
      show thesis
      proof (cases "r3 = Inl IoError")
        case True
        then show thesis
          using check[where m = m3 and n = n3] body w1 fl w3 r1 1(1) d3 by (simp add: commit_body_def io_bind_def M_def)
      next
        case False
        then have r3: "r3 = Inr ()" and d3: "d3 = d\<lparr>medium := M, cache := t, fuse := n3\<rparr>"
          using r3 d3 by simp_all
        have body': "flush d3 = (r, d')"
          using body w1 fl w3 r1 1(1) r3 by (simp add: commit_body_def io_bind_def)
        show thesis
        proof (cases rule: flush_any[OF body'])
          case (1 n4)
          then show thesis
            using ckpt[of n4] by (simp add: d3 view_apply M_def)
        next
          case 2
          then show thesis
            using check[where m = "length t" and n = n3] by (simp add: d3 M_def)
        qed
      qed
    qed
  qed
qed

lemma skips_torn:
  assumes g: "geo j cap" and sk: "skips j s q' (tail j) (log_used j)" and tl: "torn_log j s (head j) q t s'"
    and room: "log_used j + (length t + 2) \<le> log_blocks j"
  shows "skips j s' q' (tail j) (log_used j)"
proof (rule skips_cong[OF sk])
  fix i assume i: "i < log_used j"
  have "(tail j + i) mod log_blocks j \<noteq> (head j + k) mod log_blocks j" if k: "k < length t + 2" for k
  proof -
    have "(tail j + i) mod log_blocks j \<noteq> (tail j + log_used j + k) mod log_blocks j"
      using i k room by (intro mod_ne) arith+
    also have "(tail j + log_used j + k) mod log_blocks j = (head j + k) mod log_blocks j"
      using log_used_geo(2)[OF g] by (metis mod_add_left_eq)
    finally show ?thesis .
  qed
  then show "slot j s' (tail j + i) = slot j s (tail j + i)"
    using tl by (simp add: torn_log_def)
qed


lemma slot_fields [simp]:
  "slot (head_update f j) = slot j" "slot (tail_update f j) = slot j" "slot (next_seq_update f j) = slot j"
  by (simp_all add: slot_def fun_eq_iff)

lemma ring_fields [simp]:
  "rec_at (head_update f j) = rec_at j" "rec_at (tail_update f j) = rec_at j" "rec_at (next_seq_update f j) = rec_at j"
  "old_log (head_update f j) = old_log j" "old_log (tail_update f j) = old_log j" "old_log (next_seq_update f j) = old_log j"
  "fits (head_update f j) = fits j" "fits (tail_update f j) = fits j" "fits (next_seq_update f j) = fits j"
  by (simp_all add: rec_at_def old_log_def fits_def fun_eq_iff)

lemma skips_fields:
  assumes "slot j' = slot j" "log_blocks j' = log_blocks j"
  shows "skips j s q p k \<Longrightarrow> skips j' s q p k"
proof (induction rule: skips.induct)
  case (skips_rec p c k)
  then show ?case
    using assms by (intro skips.skips_rec) simp_all
qed (rule skips_nil)

lemma recoverable_sel:
  assumes "recoverable j d"
  shows "geo j (capacity d)" "old_log j (medium d) (next_seq j)"
    "u \<noteq> super_block j \<Longrightarrow> view d u = medium d u"
    "survives d s \<Longrightarrow> super_ok j (medium d) (s (super_block j))"
    "survives d s \<Longrightarrow> u \<noteq> super_block j \<Longrightarrow> s u = medium d u"
proof -
  show "geo j (capacity d)" "old_log j (medium d) (next_seq j)"
    using assms by (simp_all add: recoverable_def)
  show oth: "s u = medium d u" if "survives d s" "u \<noteq> super_block j" for s u
    using assms that unfolding survives_def recoverable_def by fastforce
  then show "view d u = medium d u" if "u \<noteq> super_block j"
    using that survives_view by blast
  show "super_ok j (medium d) (s (super_block j))" if "survives d s"
    using assms that unfolding survives_def recoverable_def by (metis fst_conv snd_conv)
qed

lemma crash_log:
  assumes r: "recoverable j d" and f: "fits j t" and c: "crc_guard j (medium d) (head j) t"
    and s: "survives (d\<lparr>cache := cache d @ take m (log_writes j t), fuse := n\<rparr>) s"
  shows "\<exists>j2 d2. mount_journal (area_of j) (power_on (capacity d) s) = (Inr j2, d2)
    \<and> ((\<forall>u < fs_blocks j. view d2 u = medium d u) \<or> (\<forall>u < fs_blocks j. view d2 u = apply_writes t (medium d) u))"
proof -
  note sel = recoverable_sel[OF r]
  have lw: "log_start j \<le> u" if "(u, b) \<in> set (take m (log_writes j t))" for u b
    using log_writes_addr(1)[OF sel(1) f] in_set_takeD[OF that] by fastforce
  have cs: "s u = medium d u \<or> (u, s u) \<in> set (cache d) \<or> (u, s u) \<in> set (take m (log_writes j t))" for u
    using s by (auto simp: survives_def)
  have ls: "super_block j < log_start j" "fs_blocks j \<le> super_block j"
    using sel(1) by (simp_all add: geo_def)
  have cache: "u = super_block j" if "(u, b) \<in> set (cache d)" for u b
    using r that by (auto simp: recoverable_def)
  have "s u = medium d u \<or> (u, s u) \<in> set (log_writes j t)" if "log_start j \<le> u" for u
    using cs[of u] that cache ls in_set_takeD by (metis leD)
  then have tl: "torn_log j (medium d) (head j) (next_seq j) t s"
    by (rule torn_from_writes[OF sel(1) f])
  have fs: "s u = medium d u" if "u < fs_blocks j" for u
    using cs[of u] that cache[of u] lw[of u] ls by fastforce
  have "s (super_block j) = medium d (super_block j) \<or> (super_block j, s (super_block j)) \<in> set (cache d)"
    using cs[of "super_block j"] lw ls by fastforce
  then have "super_ok j (medium d) (s (super_block j))"
    using r by (auto simp: recoverable_def)
  from mount_torn[OF sel(1,2) f c tl fs this] show ?thesis
    by blast
qed

lemma crash_check:
  assumes i: "journal_inv j d" and f: "fits j t" and room: "log_used j + (length t + 2) \<le> log_blocks j"
    and s: "survives (d\<lparr>medium := apply_writes (log_writes j t) (view d), cache := take m t, fuse := n\<rparr>) s"
  shows "\<exists>j2 d2. mount_journal (area_of j) (power_on (capacity d) s) = (Inr j2, d2)
    \<and> (\<forall>u < fs_blocks j. view d2 u = apply_writes t (medium d) u)"
proof -
  have r: "recoverable j d" and sv: "view d (super_block j) = super_image j"
    and sk: "skips j (medium d) (next_seq j) (tail j) (log_used j)"
    using i by (simp_all add: journal_inv_def)
  note sel = recoverable_sel[OF r]
  define M where "M = apply_writes (log_writes j t) (view d)"
  have ls: "super_block j < log_start j" "fs_blocks j \<le> super_block j"
    using sel(1) by (simp_all add: geo_def)
  have cs: "s u = M u \<or> (u, s u) \<in> set t" for u
    using s in_set_takeD unfolding survives_def M_def by fastforce
  have tt: "u < fs_blocks j" if "(u, b) \<in> set t" for u b
    using f that by (auto simp: fits_def)
  have hi: "s u = M u" if "fs_blocks j \<le> u" for u
    using cs[of u] tt that by (meson leD)
  have M: "M u = view d u" if "u < log_start j" for u
    unfolding M_def using log_writes_addr(1)[OF sel(1) f] that by (intro apply_writes_other) fastforce
  have "s u = medium d u \<or> (u, s u) \<in> set (log_writes j t)" if "log_start j \<le> u" for u
    using hi[of u] that ls sel(3)[of u] unfolding M_def apply_writes_def
    using fold_upd_cases[of "log_writes j t" "view d" u] by auto
  then have tl: "torn_log j (medium d) (head j) (next_seq j) t s"
    by (rule torn_from_writes[OF sel(1) f])
  have "slot j s x = slot j M x" for x
    unfolding slot_def using log_addr_bounds(2)[OF sel(1)] by (rule hi)
  then have ra: "rec_at j s (head j) (next_seq j) t"
    using rec_at_applied[OF sel(1) f, of "view d"] by (simp add: rec_at_def M_def)
  have "s (super_block j) = super_image j"
    using hi[of "super_block j"] M[of "super_block j"] ls sv by simp
  from mount_complete[OF sel(1,2) f tl ra this skips_torn[OF sel(1) sk tl room]]
  obtain j2 d2 where "mount_journal (area_of j) (power_on (capacity d) s) = (Inr j2, d2)"
    "\<forall>u < fs_blocks j. view d2 u = apply_writes t s u"
    by blast
  moreover have "apply_writes t s u = apply_writes t (medium d) u" if "u < fs_blocks j" for u
    using cs[of u] M[of u] sel(3)[of u] that ls by (intro apply_writes_overwrite) simp
  ultimately show ?thesis
    by auto
qed

end
