(* ===== verification/JournalCommit.thy ===== *)
theory JournalCommit
  imports JournalCrash
begin

text \<open>
  \<^verbatim>\<open>Journal::commit\<close> as a whole, with the reclaim of the ring in front of the body, and the
  preservation of the journal invariant by \<^verbatim>\<open>commit\<close> and by mounting.
\<close>

subsection \<open>Invariant and reclaim\<close>

lemma skips_upd [simp]:
  "skips (head_update f j) = skips j" "skips (tail_update f j) = skips j" "skips (next_seq_update f j) = skips j"
  by (intro ext iffI; erule skips_fields[rotated 2]; simp)+

lemma super_ok_tail [simp]: "super_ok (tail_update g j) = super_ok j"
  by (simp add: super_ok_def unacked_def fun_eq_iff)

lemma super_ok_self:
  "h < log_blocks j \<Longrightarrow> t0 < log_blocks j \<Longrightarrow> super_ok j s (super_image (j\<lparr>head := h, tail := t0, next_seq := next_seq j\<rparr>))"
  unfolding super_ok_def by blast

lemma super_ok_unacked:
  "h < log_blocks j \<Longrightarrow> t0 < log_blocks j \<Longrightarrow> Suc n = next_seq j \<Longrightarrow> unacked j s p n r \<Longrightarrow>
   (\<And>u. u < fs_blocks j \<Longrightarrow> apply_writes r s u = s u) \<Longrightarrow> skips j s n t0 k \<Longrightarrow> k < log_blocks j \<Longrightarrow>
   (t0 + k) mod log_blocks j = p mod log_blocks j \<Longrightarrow>
   super_ok j s (super_image (j\<lparr>head := h, tail := t0, next_seq := n\<rparr>))"
  unfolding super_ok_def by blast

lemma recoverable_fuse [simp]: "recoverable j (d\<lparr>fuse := n\<rparr>) = recoverable j d"
  by (simp add: recoverable_def)

lemma journal_inv_fuse [simp]: "journal_inv j (d\<lparr>fuse := n\<rparr>) = journal_inv j d"
  by (simp add: journal_inv_def)

lemma inv_selD:
  assumes "journal_inv j d"
  shows "recoverable j d" "view d (super_block j) = super_image j"
    "skips j (medium d) (next_seq j) (tail j) (log_used j)"
  using assms by (simp_all add: journal_inv_def)

lemma old_log_cong: "(\<And>x. slot j s x = slot j s' x) \<Longrightarrow> old_log j s q \<Longrightarrow> old_log j s' q"
  by (simp add: old_log_def)

lemma crc_guard_cong: "(\<And>x. slot j s x = slot j s' x) \<Longrightarrow> crc_guard j s p t \<Longrightarrow> crc_guard j s' p t"
  by (simp add: crc_guard_def)

text \<open>An empty log whose superblock is current satisfies the invariant.\<close>

lemma journal_inv_empty:
  assumes g: "geo j (capacity d)" and ht: "head j = tail j" and o: "old_log j (medium d) (next_seq j)"
    and m: "super_ok j (medium d) (medium d (super_block j))"
    and c: "\<forall>x \<in> set (cache d). fst x = super_block j \<and> super_ok j (medium d) (snd x)"
    and v: "view d (super_block j) = super_image j"
  shows "journal_inv j d"
proof -
  have "log_used j = 0"
    using log_used_geo(3)[OF g] ht by simp
  then show ?thesis
    using assms by (simp add: journal_inv_def recoverable_def skips_nil)
qed

lemma reclaim_outcome:
  assumes r: "recoverable j d" and rc: "reclaim j d = (r, j1, d1)"
  shows "j1 = j\<lparr>tail := head j\<rparr> \<and> recoverable j1 d1 \<and> (r = Inr () \<and> journal_inv j1 d1 \<or> r = Inl IoError \<and> fuse d \<noteq> None)
    \<and> (\<forall>u. u \<noteq> super_block j \<longrightarrow> medium d1 u = medium d u) \<and> capacity d1 = capacity d"
proof -
  define j0 where "j0 = j\<lparr>tail := head j\<rparr>"
  note sel = recoverable_sel[OF r]
  have b: "super_block j < capacity d" "capacity d \<le> max_blocks" and hb: "head j < log_blocks j"
    using geo_small(3)[OF sel(1)] geo_cap[OF sel(1)] sel(1) by (simp_all add: geo_def)
  have g0: "geo j0 (capacity d)"
    using sel(1) by (simp add: j0_def geo_def)
  have so: "super_ok j s (super_image j0)" for s
    using super_ok_self[OF hb hb, of s] by (simp add: j0_def)
  have r0: "recoverable j0 d"
    using r g0 by (simp add: recoverable_def j0_def)
  obtain r1 e1 where p: "write_block (super_block j) (super_image j0) d = (r1, e1)" by fastforce
  show ?thesis
  proof (cases rule: write_block_any[OF p b])
    case 2
    then have "reclaim j d = (Inl IoError, j0, d)"
      using p by (simp add: reclaim_def Let_def io_bind_def persist_super_def j0_def)
    then show ?thesis
      using rc r0 2(3) by (simp add: j0_def)
  next
    case (1 n)
    obtain r2 e2 where fl: "flush e1 = (r2, e2)" by fastforce
    have rcl: "reclaim j d = (r2, j0, e2)"
      using p fl 1 by (simp add: reclaim_def Let_def io_bind_def persist_super_def j0_def)
    show ?thesis
    proof (cases rule: flush_any[OF fl])
      case f2: 2
      have "recoverable j0 e1"
        using r0 so by (auto simp: 1(2) recoverable_def j0_def)
      moreover have "fuse d \<noteq> None"
        using p f2(3) b write_block_alive[of d "super_block j" "super_image j0"] by (cases "fuse d") auto
      ultimately show ?thesis
        using rc rcl f2 1(2) by (auto simp: j0_def)
    next
      case f1: (1 k)
      have m2: "medium e2 = (view d)(super_block j := super_image j0)" "cache e2 = []" "capacity e2 = capacity d"
        using f1(2) 1(2) by (simp_all add: view_def)
      have oth: "medium e2 u = medium d u" if "u \<noteq> super_block j" for u
        using that sel(3) by (simp add: m2)
      have "slot j (medium d) x = slot j (medium e2) x" for x
        unfolding slot_def using oth log_addr_bounds(3)[OF sel(1), of x] by simp
      then have "old_log j (medium e2) (next_seq j)"
        using sel(2) by (rule old_log_cong)
      then have "journal_inv j0 e2"
        using g0 so[of "medium e2"] by (intro journal_inv_empty) (simp_all add: m2 j0_def)
      then show ?thesis
        using rc rcl f1(1) oth m2(3) inv_selD(1) by (auto simp: j0_def)
    qed
  qed
qed


subsection \<open>After the checkpoint\<close>

lemma log_used_unique:
  assumes "geo j cap" "k < log_blocks j" "(tail j + k) mod log_blocks j = head j"
  shows "log_used j = k"
  using ring_inj[of "log_used j" "log_blocks j" k "log_blocks j" "tail j"] log_used_geo(1,2)[OF assms(1)] assms(2,3) by simp

text \<open>Stepping over the new record; a record that fills the ring exactly leaves an empty chain.\<close>

lemma skips_extend:
  assumes g: "geo j cap" and g': "geo j' cap" and f: "fits j t" and q: "next_seq j < 2 ^ 64"
    and j': "j' = j\<lparr>head := (head j + (length t + 2)) mod log_blocks j, next_seq := Suc (next_seq j)\<rparr>"
    and ra: "rec_at j M (head j) (next_seq j) t" and sk: "skips j M (next_seq j) (tail j) (log_used j)"
    and room: "log_used j + (length t + 2) \<le> log_blocks j"
  shows "skips j' M (next_seq j') (tail j') (log_used j')"
proof -
  define k where "k = log_used j + (length t + 2)"
  note u = log_used_geo(1,2)[OF g]
  have e: "(tail j + k) mod log_blocks j = (head j + (length t + 2)) mod log_blocks j"
    unfolding k_def using u(2) by (metis add.assoc mod_add_left_eq)
  show ?thesis
  proof (cases "k < log_blocks j")
    case True
    have "slot j M (tail j + log_used j) = desc_image (next_seq j) t"
      using rec_at_slots(1)[OF ra] u(2) slot_eqI[of "tail j + log_used j" j "head j" M] g by (simp add: geo_def)
    then have "skips j M (Suc (next_seq j)) (tail j + log_used j) (length t + 2 + 0)"
      using load_desc_fits[OF g f q] f by (intro skips_rec skips_nil) (simp_all add: fits_def)
    then have "skips j M (Suc (next_seq j)) (tail j) k"
      using skips_append[OF skips_mono[OF sk, of "Suc (next_seq j)"], of "length t + 2"] by (simp add: k_def)
    moreover have "log_used j' = k"
      using True e by (intro log_used_unique[OF g']) (simp_all add: j')
    ultimately show ?thesis
      by (simp add: j')
  next
    case False
    then have "k = log_blocks j"
      using room by (simp add: k_def)
    then have "log_used j' = 0"
      using e g by (intro log_used_unique[OF g']) (simp_all add: j' geo_def)
    then show ?thesis
      by (simp add: skips_nil)
  qed
qed

lemma commit_done:
  assumes i: "journal_inv j d" and f: "fits j t" and room: "log_used j + (length t + 2) \<le> log_blocks j"
    and nq: "Suc (next_seq j) < 2 ^ 63"
  defines "M \<equiv> apply_writes t (apply_writes (log_writes j t) (view d))"
    and "j' \<equiv> j\<lparr>head := (head j + (length t + 2)) mod log_blocks j, next_seq := Suc (next_seq j)\<rparr>"
  shows "recoverable j' (d\<lparr>medium := M, cache := [], fuse := n\<rparr>)"
    "journal_inv j' (d\<lparr>medium := M, cache := [(super_block j, super_image j')], fuse := n\<rparr>)"
    "u < fs_blocks j \<Longrightarrow> M u = apply_writes t (medium d) u"
proof -
  note r = inv_selD(1)[OF i] and sv = inv_selD(2)[OF i] and sk = inv_selD(3)[OF i]
  note sel = recoverable_sel[OF r]
  have g: "geo j (capacity d)" and ls: "super_block j < log_start j" "fs_blocks j \<le> super_block j"
    and lb: "0 < log_blocks j" "head j < log_blocks j" "tail j < log_blocks j" and q: "next_seq j < 2 ^ 64"
    using sel(1) by (auto simp: geo_def)
  have tt: "fst x < fs_blocks j" if "x \<in> set t" for x
    using f that by (auto simp: fits_def)
  have hi: "M u = apply_writes (log_writes j t) (view d) u" if "fs_blocks j \<le> u" for u
    unfolding M_def using tt that by (intro apply_writes_other) fastforce
  have lo: "apply_writes (log_writes j t) (view d) u = view d u" if "u < log_start j" for u
    using log_writes_addr(1)[OF g f] that by (intro apply_writes_other) fastforce
  show fs: "M u = apply_writes t (medium d) u" if "u < fs_blocks j" for u
    unfolding M_def using lo sel(3) ls that by (intro apply_agree[where n = "fs_blocks j"]) simp_all
  have "M u = medium d u \<or> (u, M u) \<in> set (log_writes j t)" if "log_start j \<le> u" for u
    using hi[of u] that ls sel(3)[of u] fold_upd_cases[of "log_writes j t" "view d" u]
    unfolding apply_writes_def by auto
  then have tl: "torn_log j (medium d) (head j) (next_seq j) t M"
    by (rule torn_from_writes[OF g f])
  have "slot j M x = slot j (apply_writes (log_writes j t) (view d)) x" for x
    unfolding slot_def using log_addr_bounds(2)[OF g] by (rule hi)
  then have ra: "rec_at j M (head j) (next_seq j) t"
    using rec_at_applied[OF g f, of "view d"] by (simp add: rec_at_def)
  have g': "geo j' (capacity d)"
    using g nq lb(1) by (simp add: j'_def geo_def)
  have o': "old_log j' M (next_seq j')"
    using torn_seq[OF g f q tl sel(2)] by (simp add: j'_def)
  have sk': "skips j M (next_seq j) (tail j) (log_used j)"
    by (rule skips_torn[OF g sk tl room])
  have un: "unacked j' M (head j) (next_seq j) t"
    unfolding unacked_def using f ra by (auto simp: j'_def dest: torn_desc[OF f q tl sel(2)])
  have sM: "M (super_block j) = super_image j"
    using hi[of "super_block j"] lo ls sv by simp
  have jj: "super_image (j'\<lparr>head := head j, tail := tail j, next_seq := next_seq j\<rparr>) = super_image j"
    by (simp add: j'_def)
  have "super_ok j' M (super_image (j'\<lparr>head := head j, tail := tail j, next_seq := next_seq j\<rparr>))"
    using lb log_used_geo(1,2)[OF g] sk' un
    by (intro super_ok_unacked[of _ _ _ _ _ "head j" t "log_used j"]) (simp_all add: j'_def M_def)
  then have so: "super_ok j' M (super_image j)"
    unfolding jj .
  show rec: "recoverable j' (d\<lparr>medium := M, cache := [], fuse := n\<rparr>)"
    using g' o' so sM by (simp add: recoverable_def j'_def)
  have so': "super_ok j' M (super_image j')"
    using super_ok_self[of "head j'" j' "tail j'" M] lb by (simp add: j'_def)
  have "skips j' M (next_seq j') (tail j') (log_used j')"
    using skips_extend[OF g g' f q _ ra sk' room] by (simp add: j'_def)
  then show "journal_inv j' (d\<lparr>medium := M, cache := [(super_block j, super_image j')], fuse := n\<rparr>)"
    using rec so' by (simp add: journal_inv_def recoverable_def view_def j'_def)
qed


subsection \<open>The whole commit\<close>

lemma fits_guards:
  assumes "geo j cap" "fits j t"
  shows "length t \<noteq> 0" "\<not> JDESC_MAX_TARGETS < length t" "\<not> log_blocks j < wadd (length t) 3"
    "wadd (length t) 2 = length t + 2" "wsub (log_blocks j) (log_used j) = log_blocks j - log_used j"
    "\<not> list_ex (\<lambda>(target, contents). fs_blocks j \<le> target \<or> length contents \<noteq> BS) t"
    "wadd (wadd (head j) (length t)) 2 = head j + (length t + 2)" "wadd (next_seq j) 1 = Suc (next_seq j)"
proof -
  have b: "0 < length t" "length t \<le> 254" "2 * (length t + 2) \<le> log_blocks j" "log_blocks j < 2 ^ 60"
    "log_used j < log_blocks j" "head j < log_blocks j" "next_seq j < 2 ^ 63"
    using assms geo_small[OF assms(1)] log_used_geo(1)[OF assms(1)] by (simp_all add: fits_def geo_def JDESC_MAX_TARGETS_def)
  show "length t \<noteq> 0" "\<not> JDESC_MAX_TARGETS < length t" "\<not> log_blocks j < wadd (length t) 3"
    "wadd (length t) 2 = length t + 2" "wsub (log_blocks j) (log_used j) = log_blocks j - log_used j"
    "wadd (wadd (head j) (length t)) 2 = head j + (length t + 2)" "wadd (next_seq j) 1 = Suc (next_seq j)"
    using b by (simp_all add: JDESC_MAX_TARGETS_def wadd_exact wsub_exact)
  show "\<not> list_ex (\<lambda>(target, contents). fs_blocks j \<le> target \<or> length contents \<noteq> BS) t"
    using assms(2) by (auto simp: fits_def list_ex_iff)
qed

text \<open>A commit that fits is the reclaim if needed, the body, and the new superblock.\<close>

definition commit_tail :: "txn \<Rightarrow> journal \<Rightarrow> dev \<Rightarrow> (fs_error + unit) \<times> journal \<times> dev" where
  "commit_tail t j d =
     (case commit_body j t d of
        (Inl e, d) \<Rightarrow> (Inl e, j, d)
      | (Inr _, d) \<Rightarrow>
          let j = j\<lparr>head := (head j + (length t + 2)) mod log_blocks j, next_seq := Suc (next_seq j)\<rparr>
          in case persist_super j d of (r, d) \<Rightarrow> (r, j, d))"

lemma commit_unfold:
  assumes g: "geo j (capacity d)" and f: "fits j t"
  shows "commit t j d =
    (if log_blocks j < log_used j + (length t + 2)
     then case reclaim j d of (Inl e, j, d) \<Rightarrow> (Inl e, j, d) | (Inr _, j, d) \<Rightarrow> commit_tail t j d
     else commit_tail t j d)"
proof -
  note u = log_used_geo(1)[OF g] and gd = fits_guards[OF g f]
  have rt: "j1 = j\<lparr>tail := head j\<rparr>" if "reclaim j d = (r, j1, d1)" for r j1 d1
    using that by (simp add: reclaim_def Let_def split: prod.splits)
  have free: "log_blocks j - log_used j < length t + 2 \<longleftrightarrow> log_blocks j < log_used j + (length t + 2)"
    using u by linarith
  show ?thesis
    unfolding commit_def Let_def commit_tail_def using gd free rt
    by (auto split: prod.splits sum.splits)
qed


lemma commit_tail_crash:
  assumes i: "journal_inv j d" and f: "fits j t" and c: "crc_guard j (medium d) (head j) t"
    and room: "log_used j + (length t + 2) \<le> log_blocks j" and nq: "Suc (next_seq j) < 2 ^ 63"
    and ct: "commit_tail t j d = (r, j', d')" and s: "survives d' s"
  shows "\<exists>j2 d2. mount_journal (area_of j) (power_on (capacity d) s) = (Inr j2, d2)
    \<and> ((\<forall>u < fs_blocks j. view d2 u = apply_writes t (medium d) u)
       \<or> r \<noteq> Inr () \<and> (\<forall>u < fs_blocks j. view d2 u = medium d u))"
proof -
  note rc = inv_selD(1)[OF i]
  note g = recoverable_sel(1)[OF rc]
  obtain r1 d1 where body: "commit_body j t d = (r1, d1)" by fastforce
  show ?thesis
  proof (cases rule: commit_body_cases[OF g f body])
    case (1 m n)
    then have "d' = d\<lparr>cache := cache d @ take m (log_writes j t), fuse := n\<rparr>" "r = Inl IoError"
      using ct body by (auto simp: commit_tail_def)
    then show ?thesis
      using crash_log[OF rc f c, where m = m and n = n and s = s] s by blast
  next
    case (2 m n)
    then have "d' = d\<lparr>medium := apply_writes (log_writes j t) (view d), cache := take m t, fuse := n\<rparr>"
      using ct body by (auto simp: commit_tail_def)
    then show ?thesis
      using crash_check[OF i f room, where m = m and n = n and s = s] s by blast
  next
    case (3 n)
    define jn where "jn = j\<lparr>head := (head j + (length t + 2)) mod log_blocks j, next_seq := Suc (next_seq j)\<rparr>"
    note dn = commit_done[OF i f room nq, folded jn_def]
    obtain r2 d2 where ps: "write_block (super_block j) (super_image jn) d1 = (r2, d2)" by fastforce
    have cap: "super_block j < capacity d1" "capacity d1 \<le> max_blocks"
      using geo_small(3)[OF g] geo_cap[OF g] by (simp_all add: 3)
    have d': "d' = d2"
      using ct body ps 3 by (simp add: commit_tail_def persist_super_def jn_def Let_def)
    have "recoverable jn d2 \<and> medium d2 = medium d1 \<and> capacity d2 = capacity d"
    proof (cases rule: write_block_any[OF ps cap])
      case (1 k)
      then show ?thesis
        using inv_selD(1)[OF dn(2)[of k]] by (simp add: 3)
    next
      case 2
      then show ?thesis
        using dn(1) by (simp add: 3)
    qed
    then show ?thesis
      using mount_recoverable[of jn d2 s] s dn(3) by (auto simp: d' jn_def area_of_def 3)
  qed
qed

lemma commit_body_alive:
  assumes g: "geo j (capacity d)" and f: "fits j t" and a: "fuse d = None"
  shows "commit_body j t d = (Inr (), d\<lparr>medium := apply_writes t (apply_writes (log_writes j t) (view d)), cache := []\<rparr>)"
proof -
  have cap: "capacity d \<le> max_blocks" and fsb: "fs_blocks j \<le> capacity d"
    using g by (auto simp: geo_def)
  have w1: "write_all (log_writes j t) d = (Inr (), d\<lparr>cache := cache d @ log_writes j t\<rparr>)"
    using log_writes_addr(2)[OF g f] by (intro write_all_alive[OF a _ cap]) blast
  have w2: "write_all t d1 = (Inr (), d1\<lparr>cache := cache d1 @ t\<rparr>)" if "capacity d1 = capacity d" "fuse d1 = None" for d1
    using f fsb cap that by (intro write_all_alive) (auto simp: fits_def)
  show ?thesis
    using a by (simp add: commit_body_def io_bind_def w1 w2 flush_alive view_apply)
qed

lemma commit_tail_alive:
  assumes i: "journal_inv j d" and f: "fits j t" and a: "fuse d = None"
    and room: "log_used j + (length t + 2) \<le> log_blocks j" and nq: "Suc (next_seq j) < 2 ^ 63"
  obtains j' d' where "commit_tail t j d = (Inr (), j', d')" "journal_inv j' d'" "fuse d' = None"
    "\<And>u. u < fs_blocks j \<Longrightarrow> view d' u = apply_writes t (view d) u" "next_seq j' = Suc (next_seq j)" "area_of j' = area_of j"
    "capacity d' = capacity d" "log_blocks j' = log_blocks j" "fs_blocks j' = fs_blocks j"
proof -
  define jn where "jn = j\<lparr>head := (head j + (length t + 2)) mod log_blocks j, next_seq := Suc (next_seq j)\<rparr>"
  note rc = inv_selD(1)[OF i]
  note g = recoverable_sel(1)[OF rc] and dn = commit_done[OF i f room nq, folded jn_def]
  define M where "M = apply_writes t (apply_writes (log_writes j t) (view d))"
  have cap: "capacity d \<le> max_blocks" and fsb: "fs_blocks j \<le> super_block j" "fs_blocks j \<le> capacity d"
    using g by (auto simp: geo_def)
  have body: "commit_body j t d = (Inr (), d\<lparr>medium := M, cache := []\<rparr>)"
    unfolding M_def by (rule commit_body_alive[OF g f a])
  define d' where "d' = d\<lparr>medium := M, cache := [(super_block j, super_image jn)], fuse := None\<rparr>"
  have "persist_super jn (d\<lparr>medium := M, cache := []\<rparr>) = (Inr (), d')"
    using a cap geo_small(3)[OF g] by (simp add: persist_super_def write_block_alive d'_def jn_def)
  then have "commit_tail t j d = (Inr (), jn, d')"
    by (simp add: commit_tail_def body jn_def)
  moreover have "journal_inv jn d'"
    unfolding d'_def M_def by (rule dn(2))
  moreover have "view d' u = apply_writes t (view d) u" if "u < fs_blocks j" for u
  proof -
    have "view d' u = M u"
      using that fsb by (simp add: d'_def view_def)
    also have "\<dots> = apply_writes t (medium d) u"
      unfolding M_def by (rule dn(3)[OF that])
    also have "\<dots> = apply_writes t (view d) u"
      using recoverable_sel(3)[OF rc] that fsb by (intro apply_agree[of "fs_blocks j"]) auto
    finally show ?thesis .
  qed
  ultimately show thesis
    by (intro that[of jn d']) (simp_all add: d'_def jn_def area_of_def)
qed


subsection \<open>Mounting keeps the invariant\<close>

text \<open>What is fixed of a medium found after a power loss between two operations.\<close>

lemma survivor_facts:
  assumes r: "recoverable j d" and s: "survives d s"
  shows "\<And>x. slot j s x = slot j (medium d) x" "old_log j s (next_seq j)"
    "\<And>u. u < fs_blocks j \<Longrightarrow> s u = medium d u" "geo j (capacity d)" "super_ok j s (s (super_block j))"
proof -
  note sel = recoverable_sel[OF r]
  have oth: "s u = medium d u" if "u \<noteq> super_block j" for u
    using sel(5)[OF s that] .
  show sl: "slot j s x = slot j (medium d) x" for x
    unfolding slot_def using log_addr_bounds(3)[OF sel(1), of x] by (intro oth) simp
  show "old_log j s (next_seq j)"
    using old_log_cong[OF sl[symmetric] sel(2)] .
  show fs: "s u = medium d u" if "u < fs_blocks j" for u
    using that sel(1) by (intro oth) (simp add: geo_def)
  show "geo j (capacity d)"
    by (rule sel(1))
  have "apply_writes r s u = s u" if "\<forall>u < fs_blocks j. apply_writes r (medium d) u = medium d u" "u < fs_blocks j" for r u
    using that fs apply_agree[of "fs_blocks j" s "medium d" u r] by simp
  moreover have "skips j s n t0 k" if "skips j (medium d) n t0 k" for n t0 k
    using skips_cong[OF that] sl by blast
  moreover have "unacked j s p n r" if "unacked j (medium d) p n r" for p n r
    using that by (simp add: unacked_def rec_at_def sl)
  ultimately show "super_ok j s (s (super_block j))"
    using sel(4)[OF s] unfolding super_ok_def by blast
qed

lemma mount_inv_ack:
  assumes g: "geo j cap" and o: "old_log j s (next_seq j)" and b: "h < log_blocks j" "t0 < log_blocks j"
    and sb: "s (super_block j) = super_image (j\<lparr>head := h, tail := t0, next_seq := next_seq j\<rparr>)"
  shows "\<exists>p d2. mount_journal (area_of j) (power_on cap s) = (Inr (j\<lparr>head := p, tail := p\<rparr>), d2)
    \<and> journal_inv (j\<lparr>head := p, tail := p\<rparr>) d2 \<and> (\<forall>u < fs_blocks j. view d2 u = s u) \<and> fuse d2 = None \<and> capacity d2 = cap"
proof -
  have q: "next_seq j < 2 ^ 63" "next_seq j < 2 ^ 64" and fsb: "fs_blocks j \<le> super_block j"
    using g by (auto simp: geo_def)
  let ?t = "[(0, zero_block)]"
  have no: "slot j s x \<noteq> desc_image (next_seq j) ?t" for x
    by (rule old_log_no_desc[OF g fits_exists[OF g] o q(2)])
  obtain p where ps: "pscan j s (log_blocks j) t0 (next_seq j) None = ([], p, None)"
    using pscan_ack[OF g fits_exists[OF g] q(1) torn_none[OF refl] o, of "head j" "log_blocks j" t0] no
      rec_at_slots(1)[of j s "head j" "next_seq j" ?t] b(2) by auto
  define j2 where "j2 = j\<lparr>head := p, tail := p\<rparr>"
  define d2 where "d2 = \<lparr>medium = s, cache = [(super_block j, super_image j2)], capacity = cap, fuse = None\<rparr>"
  have p: "p < log_blocks j"
    using pscan_result[OF ps b(2)] by simp
  have "mount_journal (area_of j) (power_on cap s) = (Inr j2, d2)"
    using mount_alive[OF g b _ sb ps] by (simp add: j2_def d2_def)
  moreover have so: "super_ok j2 s (super_image (j2\<lparr>head := h', tail := t', next_seq := next_seq j2\<rparr>))"
    if "h' < log_blocks j" "t' < log_blocks j" for h' t'
    using super_ok_self[of h' j2 t' s] that by (simp add: j2_def)
  have "journal_inv j2 d2"
    using so[OF b] so[OF p p] g o p sb
    by (intro journal_inv_empty) (simp_all add: d2_def j2_def geo_def view_def)
  ultimately show ?thesis
    using fsb by (intro exI[of _ p] exI[of _ d2]) (auto simp: d2_def j2_def view_def)
qed

lemma mount_inv_unacked:
  assumes g: "geo j cap" and o: "old_log j s (next_seq j)" and b: "h < log_blocks j" "t0 < log_blocks j"
    and sb: "s (super_block j) = super_image (j\<lparr>head := h, tail := t0, next_seq := n\<rparr>)" and n: "Suc n = next_seq j"
    and un: "unacked j s p n r" and ck: "\<And>u. u < fs_blocks j \<Longrightarrow> apply_writes r s u = s u"
    and sk: "skips j s n t0 k" "k < log_blocks j" "(t0 + k) mod log_blocks j = p mod log_blocks j"
  shows "\<exists>p d2. mount_journal (area_of j) (power_on cap s) = (Inr (j\<lparr>head := p, tail := p\<rparr>), d2)
    \<and> journal_inv (j\<lparr>head := p, tail := p\<rparr>) d2 \<and> (\<forall>u < fs_blocks j. view d2 u = s u) \<and> fuse d2 = None \<and> capacity d2 = cap"
proof -
  have q: "n < 2 ^ 64" and fsb: "fs_blocks j \<le> super_block j" and hb: "head j < log_blocks j" "head j mod log_blocks j = head j"
    using g n by (auto simp: geo_def)
  have f: "fits j r" and ra: "rec_at j s p n r" and hd: "(p + (length r + 2)) mod log_blocks j = head j"
    using un by (simp_all add: unacked_def)
  have "get_u64 (slot j s (head j)) 8 \<noteq> next_seq j" if "read_u32 (slot j s (head j)) 0 = JDES_MAGIC"
    using o that unfolding old_log_def inert_def by (metis less_irrefl)
  then have stop: "pscan j s x (head j) (Suc n) (Some n) = ([], head j, Some n)" for x
    using pscan_stop[of j s "head j" "Suc n" "Some n" x] hb n by simp
  have "pscan j s (log_blocks j) t0 n None = pscan j s (log_blocks j - k) (p mod log_blocks j) n None"
    using pscan_skips[OF sk(1,2)] b(2) sk(3) by simp
  also have "\<dots> = ([r], head j, Some n)"
    using pscan_rec_step[OF g f q ra, of "log_blocks j - k" None] sk(2) hd by (simp add: stop)
  finally have ps: "pscan j s (log_blocks j) t0 n None = ([r], head j, Some n)" .
  define j2 where "j2 = j\<lparr>head := head j, tail := head j\<rparr>"
  define M where "M = apply_writes r s"
  define d2 where "d2 = \<lparr>medium = M, cache = [(super_block j, super_image j2)], capacity = cap, fuse = None\<rparr>"
  have m: "mount_journal (area_of j) (power_on cap s) = (Inr j2, d2)"
    using mount_alive[OF g b _ sb ps] f n by (simp add: j2_def d2_def M_def)
  have Mhi: "M u = s u" if "fs_blocks j \<le> u" for u
    unfolding M_def using f that by (intro apply_writes_other) (auto simp: fits_def)
  have slM: "slot j s x = slot j M x" for x
    unfolding slot_def using log_addr_bounds(2)[OF g] by (rule Mhi[symmetric])
  have "super_ok j M (super_image (j\<lparr>head := h, tail := t0, next_seq := n\<rparr>))"
    using un sk skips_cong[OF sk(1), of M] slM
    by (intro super_ok_unacked[OF b n, of _ p r k]) (auto simp: unacked_def rec_at_def M_def)
  moreover have "super_ok j M (super_image (j\<lparr>head := head j, tail := head j, next_seq := next_seq j\<rparr>))"
    by (rule super_ok_self[OF hb(1) hb(1)])
  ultimately have "journal_inv j2 d2"
    using g old_log_cong[OF slM o] sb Mhi[of "super_block j"] fsb
    by (intro journal_inv_empty) (simp_all add: d2_def j2_def geo_def view_def)
  then show ?thesis
    using m fsb ck unfolding j2_def by (intro exI[of _ "head j"] exI[of _ d2]) (auto simp: d2_def M_def view_def)
qed

lemma mount_inv:
  assumes r: "recoverable j d" and s: "survives d s"
  shows "\<exists>p d2. mount_journal (area_of j) (power_on (capacity d) s) = (Inr (j\<lparr>head := p, tail := p\<rparr>), d2)
    \<and> journal_inv (j\<lparr>head := p, tail := p\<rparr>) d2 \<and> (\<forall>u < fs_blocks j. view d2 u = medium d u) \<and> fuse d2 = None
    \<and> capacity d2 = capacity d"
proof -
  note sf = survivor_facts[OF r s]
  have "\<exists>p d2. mount_journal (area_of j) (power_on (capacity d) s) = (Inr (j\<lparr>head := p, tail := p\<rparr>), d2)
    \<and> journal_inv (j\<lparr>head := p, tail := p\<rparr>) d2 \<and> (\<forall>u < fs_blocks j. view d2 u = s u) \<and> fuse d2 = None
    \<and> capacity d2 = capacity d"
    using sf(5) mount_inv_ack[OF sf(4,2)] mount_inv_unacked[OF sf(4,2)] unfolding super_ok_def by blast
  then show ?thesis
    using sf(3) by auto
qed

lemma commit_crash:
  assumes i: "journal_inv j d" and f: "fits j t" and c: "crc_guard j (medium d) (head j) t"
    and nq: "Suc (next_seq j) < 2 ^ 63" and cm: "commit t j d = (r, j', d')" and s: "survives d' s"
  shows "\<exists>j2 d2. mount_journal (area_of j) (power_on (capacity d) s) = (Inr j2, d2)
    \<and> ((\<forall>u < fs_blocks j. view d2 u = apply_writes t (medium d) u)
       \<or> r \<noteq> Inr () \<and> (\<forall>u < fs_blocks j. view d2 u = medium d u))"
proof -
  note rc = inv_selD(1)[OF i]
  note g = recoverable_sel(1)[OF rc]
  note cu = commit_unfold[OF g f]
  show ?thesis
  proof (cases "log_blocks j < log_used j + (length t + 2)")
    case False
    then show ?thesis
      using commit_tail_crash[OF i f c _ nq _ s] cm cu by simp
  next
    case True
    obtain r1 j1 d1 where rcl: "reclaim j d = (r1, j1, d1)" by (cases "reclaim j d")
    note ro = reclaim_outcome[OF rc rcl]
    have j1: "j1 = j\<lparr>tail := head j\<rparr>" and rec1: "recoverable j1 d1" and cap: "capacity d1 = capacity d"
      and med: "\<And>u. u \<noteq> super_block j \<Longrightarrow> medium d1 u = medium d u"
      using ro by auto
    have fs: "medium d1 u = medium d u" if "u < fs_blocks j" for u
      using g that by (intro med) (simp add: geo_def)
    have ar: "area_of j1 = area_of j" and fb: "fs_blocks j1 = fs_blocks j"
      by (simp_all add: j1 area_of_def)
    show ?thesis
    proof (cases "r1 = Inr ()")
      case False
      then have "d' = d1" "r \<noteq> Inr ()"
        using ro cm cu True rcl by auto
      then show ?thesis
        using mount_recoverable[OF rec1, of s] s fs by (auto simp: ar cap fb)
    next
      case ok: True
      then have i1: "journal_inv j1 d1" and ct: "commit_tail t j1 d1 = (r, j', d')"
        using ro cm cu True rcl by auto
      have g1: "geo j1 (capacity d1)"
        using recoverable_sel(1)[OF rec1] .
      have "log_used j1 = 0"
        using log_used_geo(3)[OF g1] by (simp add: j1)
      then have room: "log_used j1 + (length t + 2) \<le> log_blocks j1"
        using f by (simp add: j1 fits_def)
      have "slot j (medium d) x = slot j (medium d1) x" for x
        unfolding slot_def using log_addr_bounds(3)[OF g, of x] by (intro med[symmetric]) simp
      then have c1: "crc_guard j1 (medium d1) (head j1) t"
        using crc_guard_cong[OF _ c] by (simp add: j1 crc_guard_def)
      have "apply_writes t (medium d1) u = apply_writes t (medium d) u" if "u < fs_blocks j" for u
        using fs that by (intro apply_agree[of "fs_blocks j"])
      then show ?thesis
        using commit_tail_crash[OF i1 _ c1 room _ ct s] f nq fs by (auto simp: ar cap fb) (auto simp: j1)
    qed
  qed
qed

lemma commit_alive:
  assumes i: "journal_inv j d" and f: "fits j t" and a: "fuse d = None" and nq: "Suc (next_seq j) < 2 ^ 63"
  shows "\<exists>j' d'. commit t j d = (Inr (), j', d') \<and> journal_inv j' d' \<and> fuse d' = None
    \<and> (\<forall>u < fs_blocks j. view d' u = apply_writes t (view d) u) \<and> area_of j' = area_of j
    \<and> next_seq j' = Suc (next_seq j) \<and> capacity d' = capacity d"
proof -
  note rc = inv_selD(1)[OF i]
  note g = recoverable_sel(1)[OF rc]
  note cu = commit_unfold[OF g f]
  show ?thesis
  proof (cases "log_blocks j < log_used j + (length t + 2)")
    case False
    then have "log_used j + (length t + 2) \<le> log_blocks j"
      by simp
    from commit_tail_alive[OF i f a this nq] False show ?thesis
      unfolding cu by (metis (no_types, lifting))
  next
    case True
    obtain r1 j1 d1 where rcl: "reclaim j d = (r1, j1, d1)" by (cases "reclaim j d")
    note ro = reclaim_outcome[OF rc rcl]
    have j1: "j1 = j\<lparr>tail := head j\<rparr>" and i1: "journal_inv j1 d1" and r1: "r1 = Inr ()"
      and med: "\<And>u. u \<noteq> super_block j \<Longrightarrow> medium d1 u = medium d u" and cap: "capacity d1 = capacity d"
      using ro a by auto
    have g1: "geo j1 (capacity d1)"
      using recoverable_sel(1)[OF inv_selD(1)[OF i1]] .
    have "log_used j1 = 0"
      using log_used_geo(3)[OF g1] by (simp add: j1)
    then have room: "log_used j1 + (length t + 2) \<le> log_blocks j1"
      using f by (simp add: j1 fits_def)
    have a1: "fuse d1 = None"
      using rcl a geo_small(3)[OF g] geo_cap[OF g]
      by (auto simp: reclaim_def Let_def io_bind_def persist_super_def write_block_alive flush_alive)
    have f1: "fits j1 t" and nq1: "Suc (next_seq j1) < 2 ^ 63"
      using f nq by (simp_all add: j1)
    obtain j' d' where ct: "commit_tail t j1 d1 = (Inr (), j', d')" "journal_inv j' d'" "fuse d' = None"
      and v: "\<And>u. u < fs_blocks j1 \<Longrightarrow> view d' u = apply_writes t (view d1) u" and rest: "next_seq j' = Suc (next_seq j1)"
        "area_of j' = area_of j1" "capacity d' = capacity d1"
      by (rule commit_tail_alive[OF i1 f1 a1 room nq1], rule that)
    have "view d1 u = view d u" if "u < fs_blocks j" for u
    proof -
      have "u \<noteq> super_block j" "u \<noteq> super_block j1"
        using g that by (simp_all add: geo_def j1)
      then show ?thesis
        using recoverable_sel(3)[OF rc] recoverable_sel(3)[OF inv_selD(1)[OF i1]] med by simp
    qed
    then have "view d' u = apply_writes t (view d) u" if "u < fs_blocks j" for u
      using v[of u] that by (simp add: j1 apply_agree[of "fs_blocks j" "view d1" "view d" u t])
    then show ?thesis
      using ct rest True r1 rcl cap unfolding cu by (auto simp: j1 area_of_def)
  qed
qed

end
