(* ===== verification/JournalCorrect.thy ===== *)
theory JournalCorrect
  imports JournalCommit
begin

text \<open>
  The properties of the write-ahead log: atomicity and durability of \<^verbatim>\<open>commit\<close> under power
  loss, histories of commits and remounts, \<^verbatim>\<open>format\<close> and \<^verbatim>\<open>open\<close>, confinement of
  \<^verbatim>\<open>recover\<close> on arbitrary media.
\<close>

subsection \<open>A small journal\<close>

definition small_journal :: journal where
  "small_journal = \<lparr>super_block = 2, log_start = 3, log_blocks = 6, fs_blocks = 2, head = 0, tail = 0, next_seq = 1\<rparr>"

definition small_dev :: dev where
  "small_dev = \<lparr>medium = (\<lambda>_. zero_block)(2 := super_image small_journal), cache = [], capacity = 9, fuse = None\<rparr>"

definition small_block :: "u8 \<Rightarrow> bytes" where
  "small_block b = b # replicate 4095 0"

definition small_txn :: "u8 \<Rightarrow> txn" where
  "small_txn b = [(1, small_block b)]"

lemma small_geo: "geo small_journal 9"
  by (simp add: geo_def small_journal_def max_blocks_def)

lemma small_slot: "slot small_journal (medium small_dev) p = zero_block"
  by (simp add: slot_def small_journal_def small_dev_def)

lemma zero_inert: "inert zero_block"
  using fits_exists[OF small_geo] by (simp add: fits_def)

lemma small_inv: "journal_inv small_journal small_dev"
proof (rule journal_inv_empty)
  show "super_ok small_journal (medium small_dev) (medium small_dev (super_block small_journal))"
    using super_ok_self[of 0 small_journal 0 "medium small_dev"] by (simp add: small_journal_def small_dev_def)
  show "old_log small_journal (medium small_dev) (next_seq small_journal)"
    unfolding old_log_def small_slot using zero_inert by simp
qed (use small_geo in \<open>simp_all add: small_journal_def small_dev_def view_def\<close>)

lemma small_inert: "inert (small_block b)"
proof -
  have "read_u32 (small_block b) 0 = ucast b"
    by (simp add: read_u32_def small_block_def sub_bytes_def numeral_eq_Suc)
  moreover have "(ucast b :: u32) < 256"
    using unsigned_less[of b, where 'a = nat] by (simp add: word_less_nat_alt unsigned_ucast_eq take_bit_nat_def)
  moreover have "(256 :: u32) \<le> JDES_MAGIC" "(256 :: u32) \<le> JCMT_MAGIC"
    by (simp_all add: JDES_MAGIC_def JCMT_MAGIC_def)
  ultimately show ?thesis
    unfolding inert_def by (metis leD)
qed

lemma small_fits: "fits small_journal (small_txn b)"
  using small_inert[of b] by (simp add: fits_def small_journal_def small_txn_def small_block_def BS_def JDESC_MAX_TARGETS_def)

lemma small_guard: "crc_guard small_journal (medium small_dev) 0 (small_txn b)"
proof -
  have z: "zero_block = [] @ [0] @ replicate 4095 0"
    unfolding zero_block_def BS_def by (simp flip: replicate_Suc)
  have b: "small_block b = [] @ [b] @ replicate 4095 0"
    by (simp add: small_block_def)
  have "crc32_slices [zero_block] \<noteq> crc32_slices [small_block b]" if "b \<noteq> 0"
    unfolding crc32_slices_concat z b concat.simps append_Nil2 using that by (intro crc32_burst_ne) simp_all
  moreover have "small_block 0 = zero_block"
    using z by (simp add: small_block_def)
  ultimately have eq: "x = small_block b" if "x = zero_block \<or> x = small_block b" "crc32_slices [x] = crc32_slices [small_block b]" for x
    using that by (cases "b = 0") auto
  show ?thesis
    unfolding crc_guard_def small_slot
  proof (intro allI impI)
    fix ds assume ds: "length ds = length (small_txn b) \<and> (\<forall>i < length (small_txn b). ds ! i = zero_block \<or> ds ! i = snd (small_txn b ! i))
      \<and> crc32_slices ds = crc32_slices (map snd (small_txn b))"
    then obtain x where "ds = [x]"
      by (auto simp: small_txn_def length_Suc_conv)
    then show "ds = map snd (small_txn b)"
      using ds eq[of x] by (simp add: small_txn_def)
  qed
qed


subsection \<open>Atomicity and durability\<close>

text \<open>
  C1: let the journal be consistent between two operations (\<open>journal_inv\<close>: in particular no record in
  the ring carries the sequence number about to be used or a later one, as an earlier interrupted commit
  would leave behind), let the transaction be non-empty and fill at most half of the ring, with
  targets inside the file system and no block that begins with the magic of a journal record (\<open>fits\<close>),
  and suppose that no mixture of its blocks with the old contents of their log slots has the checksum of
  the transaction (\<open>crc_guard\<close>).  Then, whatever command the device fails at and whatever subset of
  the unflushed writes the power loss keeps, the next mount of a journal whose \<^verbatim>\<open>commit\<close> was
  running succeeds and shows the file system either with all blocks of the transaction or with none;
  if \<^verbatim>\<open>commit\<close> had returned \<^verbatim>\<open>Ok\<close>, it shows all of them.
\<close>

theorem commit_atomic:
  assumes "journal_inv j d" "fits j t" "crc_guard j (medium d) (head j) t" "Suc (next_seq j) < 2 ^ 63"
    and "commit t j (d\<lparr>fuse := fu\<rparr>) = (r, j', d')" "survives d' s"
  shows "\<exists>j2 d2. mount_journal (area_of j) (power_on (capacity d) s) = (Inr j2, d2)
    \<and> ((\<forall>u < fs_blocks j. view d2 u = apply_writes t (view d) u)
       \<or> r \<noteq> Inr () \<and> (\<forall>u < fs_blocks j. view d2 u = view d u))"
proof -
  note sel = recoverable_sel[OF inv_selD(1)[OF assms(1)]]
  have v: "view d u = medium d u" if "u < fs_blocks j" for u
    using sel(1) that by (intro sel(3)) (simp add: geo_def)
  then have a: "apply_writes t (view d) u = apply_writes t (medium d) u" if "u < fs_blocks j" for u
    using that by (intro apply_agree[of "fs_blocks j"])
  show ?thesis
    using commit_crash[of j "d\<lparr>fuse := fu\<rparr>" t r j' d' s] assms v a by auto
qed

theorem commit_atomic_witness:
  "\<exists>r j' d' j2 d2. commit (small_txn 7) small_journal (small_dev\<lparr>fuse := Some 4\<rparr>) = (r, j', d')
    \<and> mount_journal (area_of small_journal) (power_on (capacity small_dev) (view d')) = (Inr j2, d2)
    \<and> ((\<forall>u < fs_blocks small_journal. view d2 u = apply_writes (small_txn 7) (view small_dev) u)
       \<or> r \<noteq> Inr () \<and> (\<forall>u < fs_blocks small_journal. view d2 u = view small_dev u))"
proof -
  obtain r j' d' where c: "commit (small_txn 7) small_journal (small_dev\<lparr>fuse := Some 4\<rparr>) = (r, j', d')"
    by (cases "commit (small_txn 7) small_journal (small_dev\<lparr>fuse := Some 4\<rparr>)")
  have "Suc (next_seq small_journal) < 2 ^ 63" "crc_guard small_journal (medium small_dev) (head small_journal) (small_txn 7)"
    using small_guard by (simp_all add: small_journal_def)
  from commit_atomic[OF small_inv small_fits this(2,1) c survives_view] show ?thesis
    using c by blast
qed

subsection \<open>Histories\<close>

text \<open>
  The life of a journal: transactions that fit are committed, and between two
  operations the machine may lose power and mount again.
\<close>

inductive journal_run :: "journal \<Rightarrow> dev \<Rightarrow> txn list \<Rightarrow> journal \<Rightarrow> dev \<Rightarrow> bool" for j0 d0 where
  run_start: "journal_run j0 d0 [] j0 d0"
| run_commit: "journal_run j0 d0 ts j d \<Longrightarrow> fits j t \<Longrightarrow> Suc (next_seq j) < 2 ^ 63 \<Longrightarrow> commit t j d = (r, j', d') \<Longrightarrow>
    journal_run j0 d0 (ts @ [t]) j' d'"
| run_remount: "journal_run j0 d0 ts j d \<Longrightarrow> survives d s \<Longrightarrow>
    mount_journal (area_of j) (power_on (capacity d) s) = (r, d') \<Longrightarrow> r = Inr j' \<Longrightarrow> journal_run j0 d0 ts j' d'"

lemma area_of_eq:
  "area_of j = area_of j' \<longleftrightarrow> super_block j = super_block j' \<and> log_blocks j = log_blocks j' \<and> fs_blocks j = fs_blocks j'"
  by (simp add: area_of_def)

lemma run_inv:
  assumes "journal_run j0 d0 ts j d" "journal_inv j0 d0" "fuse d0 = None"
  shows "journal_inv j d \<and> fuse d = None \<and> area_of j = area_of j0
    \<and> (\<forall>u < fs_blocks j0. view d u = apply_writes (concat ts) (view d0) u)"
  using assms
proof (induction rule: journal_run.induct)
  case (run_commit ts j d t r j' d')
  then have IH: "journal_inv j d" "fuse d = None" "area_of j = area_of j0"
    and v: "\<And>u. u < fs_blocks j0 \<Longrightarrow> view d u = apply_writes (concat ts) (view d0) u"
    by blast+
  have "journal_inv j' d' \<and> fuse d' = None \<and> area_of j' = area_of j \<and> (\<forall>u < fs_blocks j. view d' u = apply_writes t (view d) u)"
    using commit_alive[OF IH(1) run_commit.hyps(2) IH(2) run_commit.hyps(3)] run_commit.hyps(4) by auto
  moreover have "apply_writes t (view d) u = apply_writes t (apply_writes (concat ts) (view d0)) u" if "u < fs_blocks j0" for u
    using v that by (intro apply_agree[of "fs_blocks j0"])
  ultimately show ?case
    using IH(3) by (simp add: area_of_eq)
next
  case (run_remount ts j d s r d' j')
  then have IH: "journal_inv j d" "fuse d = None" "area_of j = area_of j0"
    and v: "\<And>u. u < fs_blocks j0 \<Longrightarrow> view d u = apply_writes (concat ts) (view d0) u"
    by blast+
  note rc = inv_selD(1)[OF IH(1)]
  obtain p where "j' = j\<lparr>head := p, tail := p\<rparr>" "journal_inv j' d'" "fuse d' = None"
    "\<forall>u < fs_blocks j. view d' u = medium d u"
    using mount_inv[OF rc run_remount.hyps(2)] run_remount.hyps(3,4) by auto
  moreover have "view d u = medium d u" if "u < fs_blocks j" for u
    using recoverable_sel(1)[OF rc] that by (intro recoverable_sel(3)[OF rc]) (simp add: geo_def)
  ultimately show ?case
    using IH(3) v by (simp add: area_of_eq)
qed simp

text \<open>
  C2: over any history of completed commits and of power losses between operations, on a device
  that works and from a consistent journal (\<open>journal_inv\<close>), where every transaction is non-empty, fills at
  most half of the ring, stays inside the file system and has no block that begins with the magic of a
  journal record (\<open>fits\<close>), the file system region holds exactly the effect of the committed
  transactions in order, the journal stays consistent, and no committed transaction is lost
  or applied twice.
\<close>

theorem committed_transactions_survive:
  assumes "journal_inv j0 d0" "fuse d0 = None" "journal_run j0 d0 ts j d"
  shows "journal_inv j d \<and> (\<forall>u < fs_blocks j0. view d u = apply_writes (concat ts) (view d0) u)"
  using run_inv[OF assms(3,1,2)] by blast

theorem committed_transactions_survive_witness:
  "\<exists>j d. journal_run small_journal small_dev [small_txn 7, small_txn 9] j d
    \<and> journal_inv j d \<and> (\<forall>u < fs_blocks small_journal. view d u = apply_writes (concat [small_txn 7, small_txn 9]) (view small_dev) u)"
proof -
  have f: "fuse small_dev = None" "Suc (next_seq small_journal) < 2 ^ 62"
    by (simp_all add: small_dev_def small_journal_def)
  obtain j1 d1 where c1: "commit (small_txn 7) small_journal small_dev = (Inr (), j1, d1)" "area_of j1 = area_of small_journal"
    "next_seq j1 = Suc (next_seq small_journal)"
    using commit_alive[OF small_inv small_fits f(1), of 7] f(2) by auto
  have r1: "journal_run small_journal small_dev ([] @ [small_txn 7]) j1 d1"
    using f by (intro run_commit[OF run_start small_fits _ c1(1)]) simp
  obtain j2 d2 where m: "mount_journal (area_of j1) (power_on (capacity d1) (view d1)) = (Inr j2, d2)" "next_seq j2 = next_seq j1"
    "area_of j2 = area_of j1"
    using mount_inv[OF inv_selD(1) survives_view] run_inv[OF r1 small_inv f(1)] by (fastforce simp: area_of_def)
  have r2: "journal_run small_journal small_dev [small_txn 7] j2 d2"
    using run_remount[OF r1 survives_view m(1) refl] by simp
  have fit: "fits j2 (small_txn 9)"
    using small_fits[of 9] c1(2) m(3) by (simp add: fits_def area_of_eq)
  obtain j3 d3 where "commit (small_txn 9) j2 d2 = (Inr (), j3, d3)"
    using commit_alive[of j2 d2 "small_txn 9"] run_inv[OF r2 small_inv f(1)] fit f(2) m(2) c1(3) by auto
  then have "journal_run small_journal small_dev ([small_txn 7] @ [small_txn 9]) j3 d3"
    using f(2) m(2) c1(3) by (intro run_commit[OF r2 fit]) simp_all
  then show ?thesis
    using committed_transactions_survive[OF small_inv f(1)] by fastforce
qed


subsection \<open>Format and open\<close>

definition fresh_journal :: "journal_area \<Rightarrow> journal" where
  "fresh_journal a = \<lparr>super_block = ja_super_block a, log_start = ja_super_block a + 1, log_blocks = ja_log_blocks a,
     fs_blocks = ja_fs_blocks a, head = 0, tail = 0, next_seq = 1\<rparr>"

definition area_ok :: "journal_area \<Rightarrow> nat \<Rightarrow> bool" where
  "area_ok a cap \<longleftrightarrow> 6 \<le> ja_log_blocks a \<and> 0 < ja_fs_blocks a \<and> ja_fs_blocks a \<le> ja_super_block a
     \<and> ja_super_block a + 1 + ja_log_blocks a \<le> cap \<and> cap \<le> max_blocks"

lemma fresh_geo: "area_ok a cap \<Longrightarrow> geo (fresh_journal a) cap"
  by (auto simp: area_ok_def geo_def fresh_journal_def)

lemma area_of_fresh: "area_of (fresh_journal a) = a"
  by (simp add: area_of_def fresh_journal_def)

lemma format_alive:
  assumes a: "area_ok a (capacity d)" and f: "fuse d = None"
  shows "io_bind (journal_format a) (\<lambda>_. io_bind flush (\<lambda>_. journal_open a)) d = (Inr (fresh_journal a),
    d\<lparr>medium := (view d)(ja_super_block a := super_image (fresh_journal a), ja_super_block a + 1 := zero_block), cache := []\<rparr>)"
proof -
  note g = fresh_geo[OF a]
  have w: "wadd (ja_super_block a) 1 = ja_super_block a + 1" "ja_super_block a < capacity d" "ja_super_block a + 1 < capacity d"
    using geo_small(4)[OF g] a by (auto simp: fresh_journal_def area_ok_def)
  have img: "store_journal_super zero_block \<lparr>js_magic = JNL_MAGIC, js_head = 0, js_tail = 0, js_next_seq = 1,
       js_log_blocks = ja_log_blocks a, js_fs_blocks = ja_fs_blocks a, js_checksum = 0\<rparr> = super_image (fresh_journal a)"
    by (simp add: super_image_def fresh_journal_def)
  define d1 where "d1 = d\<lparr>medium := (view d)(ja_super_block a := super_image (fresh_journal a), ja_super_block a + 1 := zero_block), cache := []\<rparr>"
  have "journal_open (area_of (fresh_journal a)) d1 = (Inr (fresh_journal a), d1)"
    using g f by (intro open_super_image) (simp_all add: d1_def fresh_journal_def view_def)
  moreover have "io_bind (journal_format a) (\<lambda>_. flush) d = (Inr (), d1)"
    using w f geo_cap[OF g] unfolding journal_format_def Let_def img
    by (simp add: io_bind_def write_block_alive flush_alive d1_def view_apply)
  ultimately show ?thesis
    by (auto simp: io_bind_def area_of_fresh d1_def split: prod.splits sum.splits)
qed

text \<open>
  C27: suppose that no block of the ring behind its first carries the magic of a journal record.  Then
  after \<^verbatim>\<open>format\<close> on a working device, once its two writes are durable, \<^verbatim>\<open>open\<close> returns an empty
  journal with the geometry it was given, in a consistent state, and the file system blocks are
  untouched.
\<close>

theorem format_then_open:
  assumes "area_ok a (capacity d)" "fuse d = None"
    and "\<And>u. ja_super_block a + 1 < u \<Longrightarrow> u < ja_super_block a + 1 + ja_log_blocks a \<Longrightarrow> inert (view d u)"
  shows "\<exists>d'. io_bind (journal_format a) (\<lambda>_. io_bind flush (\<lambda>_. journal_open a)) d = (Inr (fresh_journal a), d')
    \<and> journal_inv (fresh_journal a) d' \<and> (\<forall>u < ja_fs_blocks a. view d' u = view d u)"
proof -
  note g = fresh_geo[OF assms(1)]
  define M where "M = (view d)(ja_super_block a := super_image (fresh_journal a), ja_super_block a + 1 := zero_block)"
  define d' where "d' = d\<lparr>medium := M, cache := []\<rparr>"
  have lb: "0 < ja_log_blocks a" "ja_fs_blocks a \<le> ja_super_block a"
    using assms(1) by (auto simp: area_ok_def)
  have "inert zero_block"
    using fits_exists[OF g] by (simp add: fits_def)
  then have "inert (slot (fresh_journal a) M p)" for p
    using assms(3)[of "ja_super_block a + 1 + p mod ja_log_blocks a"] lb(1) by (auto simp: slot_def fresh_journal_def M_def)
  then have o: "old_log (fresh_journal a) M 1"
    by (simp add: old_log_def)
  have "super_ok (fresh_journal a) M (super_image (fresh_journal a))"
    using super_ok_self[of 0 "fresh_journal a" 0 M] lb(1) by (simp add: fresh_journal_def)
  then have "journal_inv (fresh_journal a) d'"
    using g o by (intro journal_inv_empty) (simp_all add: d'_def M_def fresh_journal_def)
  then show ?thesis
    using format_alive[OF assms(1,2)] lb(2) by (auto simp: d'_def M_def)
qed

theorem format_then_open_witness:
  "\<exists>d'. io_bind (journal_format \<lparr>ja_super_block = 2, ja_log_blocks = 64, ja_fs_blocks = 2\<rparr>)
         (\<lambda>_. io_bind flush (\<lambda>_. journal_open \<lparr>ja_super_block = 2, ja_log_blocks = 64, ja_fs_blocks = 2\<rparr>)) (power_on 67 (\<lambda>_. zero_block))
       = (Inr (fresh_journal \<lparr>ja_super_block = 2, ja_log_blocks = 64, ja_fs_blocks = 2\<rparr>), d')
    \<and> journal_inv (fresh_journal \<lparr>ja_super_block = 2, ja_log_blocks = 64, ja_fs_blocks = 2\<rparr>) d'
    \<and> (\<forall>u < 2. view d' u = zero_block)"
proof -
  let ?a = "\<lparr>ja_super_block = 2, ja_log_blocks = 64, ja_fs_blocks = 2\<rparr>"
  have a: "area_ok ?a (capacity (power_on 67 (\<lambda>_. zero_block)))"
    by (simp add: area_ok_def max_blocks_def)
  have "inert zero_block"
    using fits_exists[OF fresh_geo[OF a]] by (simp add: fits_def)
  then show ?thesis
    using format_then_open[OF a] by simp
qed

subsection \<open>Recovery of an arbitrary log\<close>

lemma read_block_keeps:
  assumes "read_block b d = (r, d')"
  shows "\<exists>n. d' = d\<lparr>fuse := n\<rparr>"
proof (cases rule: tick_cases[of d])
  case dead
  then have "d' = d\<lparr>fuse := fuse d\<rparr>"
    using assms by (auto simp: read_block_def dev_read_block_def)
  then show ?thesis ..
next
  case (alive n)
  then show ?thesis
    using assms by (auto simp: read_block_def dev_read_block_def split: if_splits)
qed

lemma read_all_keeps: "read_all bs d = (r, d') \<Longrightarrow> \<exists>n. d' = d\<lparr>fuse := n\<rparr>"
proof (induction bs arbitrary: r d d')
  case Nil
  then show ?case
    by (intro exI[of _ "fuse d"]) (auto simp: io_return_def)
next
  case (Cons b bs)
  obtain r1 d1 where r1: "read_block b d = (r1, d1)" by fastforce
  obtain r2 d2 where r2: "read_all bs d1 = (r2, d2)" by fastforce
  show ?case
    using Cons.prems read_block_keeps[OF r1] Cons.IH[OF r2] r1 r2
    by (auto simp: io_bind_def io_return_def split: sum.splits)
qed

definition outside_kept :: "journal \<Rightarrow> dev \<Rightarrow> dev \<Rightarrow> bool" where
  "outside_kept j d d' \<longleftrightarrow> (\<forall>u. fs_blocks j \<le> u \<longrightarrow> view d' u = view d u)"

lemma outside_refl: "outside_kept j d (d\<lparr>fuse := n\<rparr>)"
  by (simp add: outside_kept_def)

lemma outside_trans: "outside_kept j d d1 \<Longrightarrow> outside_kept j d1 d2 \<Longrightarrow> outside_kept j d d2"
  by (simp add: outside_kept_def)

lemma write_block_outside:
  assumes "write_block b x d = (r, d')" "b < max_blocks"
  shows "\<exists>n ws. d' = d\<lparr>cache := cache d @ ws, fuse := n\<rparr> \<and> set ws \<subseteq> {(b, x)}"
proof (cases rule: tick_cases[of d])
  case dead
  then have "d' = d\<lparr>cache := cache d @ [], fuse := fuse d\<rparr>"
    using assms by (auto simp: write_block_def dev_write_block_def)
  then show ?thesis
    by (intro exI[of _ "fuse d"] exI[of _ "[]"]) simp
next
  case (alive n)
  show ?thesis
  proof (cases "b < capacity d")
    case True
    then have "d' = d\<lparr>cache := cache d @ [(b, x)], fuse := n\<rparr>"
      using assms alive by (auto simp: write_block_def dev_write_block_def block_unit_num)
    then show ?thesis
      by (intro exI[of _ n] exI[of _ "[(b, x)]"]) simp
  next
    case False
    then have "d' = d\<lparr>cache := cache d @ [], fuse := n\<rparr>"
      using assms alive by (auto simp: write_block_def dev_write_block_def block_unit_num)
    then show ?thesis
      by (intro exI[of _ n] exI[of _ "[]"]) simp
  qed
qed

lemma replay_outside:
  "replay_writes j ws d = (r, d') \<Longrightarrow> fs_blocks j \<le> max_blocks \<Longrightarrow> outside_kept j d d'"
proof (induction ws arbitrary: d)
  case (Cons w ws)
  obtain t x where w: "w = (t, x)" by (cases w)
  show ?case
  proof (cases "fs_blocks j \<le> t")
    case True
    then show ?thesis
      using Cons.prems by (auto simp: w outside_kept_def)
  next
    case False
    obtain r1 d1 where wb: "write_block t x d = (r1, d1)" by fastforce
    obtain n ws' where d1: "d1 = d\<lparr>cache := cache d @ ws', fuse := n\<rparr>" "set ws' \<subseteq> {(t, x)}"
      using write_block_outside[OF wb] False Cons.prems(2) by auto
    have "outside_kept j d d1"
      unfolding outside_kept_def d1(1) view_cache using d1(2) False
      by (auto intro!: apply_writes_other)
    then show ?thesis
      using Cons.prems Cons.IH[of d1] False wb outside_trans by (auto simp: w io_bind_def split: sum.splits)
  qed
qed (simp add: io_return_def outside_kept_def)


lemma scan_outside:
  "scan_loop j b sc d = (r, d') \<Longrightarrow> fs_blocks j \<le> max_blocks \<Longrightarrow> outside_kept j d d'"
proof (induction b arbitrary: sc d rule: less_induct)
  case (less b)
  show ?case
  proof (cases "b = 0")
    case True
    then show ?thesis
      using less.prems by (auto simp: scan_loop.simps outside_kept_def)
  next
    case b: False
    obtain r1 d1 where r1: "read_log j (sc_pos sc) d = (r1, d1)" by fastforce
    have k1: "outside_kept j d d1"
      using read_block_keeps[OF r1[unfolded read_log_def]] outside_refl by auto
    show ?thesis
    proof (cases r1)
      case (Inl e)
      then show ?thesis
        using less.prems b r1 k1 by (simp add: scan_loop.simps[of j b])
    next
      case (Inr buf)
      define desc where "desc = load_descriptor buf"
      define c where "c = jd_count desc"
      define as where "as = map (\<lambda>i. log_block_addr j (wadd (wadd (sc_pos sc) (Suc 0)) i)) [0..<c]"
      obtain r2 d2 where r2: "read_all as d1 = (r2, d2)" by fastforce
      have k2: "outside_kept j d d2"
        using read_all_keeps[OF r2] outside_refl outside_trans[OF k1] by auto
      obtain r3 d3 where r3: "read_log j (wadd (wadd (sc_pos sc) (Suc 0)) c) d2 = (r3, d3)" by fastforce
      have k3: "outside_kept j d d3"
        using read_block_keeps[OF r3[unfolded read_log_def]] outside_refl outside_trans[OF k2] by auto
      have k4: "outside_kept j d d4" if "replay_writes j ws d3 = (r4, d4)" for ws r4 d4
        using replay_outside[OF that less.prems(2)] outside_trans[OF k3] by blast
      have IH: "outside_kept j d d'" if "scan_loop j (b - Suc (Suc c)) sc' e = (r, d')" "outside_kept j d e" for sc' e
        using less.IH[of "b - Suc (Suc c)" sc' e] that b less.prems(2) outside_trans by auto
      show ?thesis
        using less.prems(1) b k1 k2 k3
        unfolding scan_loop.simps[of j b sc d] r1 Inr
        by (auto simp: Let_def desc_def[symmetric] c_def[symmetric] as_def[symmetric] r2 r3
            dest: k4 IH split: if_splits sum.splits prod.splits)
    qed
  qed
qed


text \<open>
  C16: whatever the log region contains, and whether or not the device fails on the way,
  \<^verbatim>\<open>recover\<close> writes nothing outside the file system region and the journal superblock, and
  it leaves the geometry of the journal alone.
\<close>

theorem recover_confined:
  assumes "fs_blocks j \<le> max_blocks" "super_block j < max_blocks" "recover j d = (r, j', d')"
    and "fs_blocks j \<le> u" "u \<noteq> super_block j"
  shows "view d' u = view d u \<and> area_of j' = area_of j \<and> log_start j' = log_start j"
proof -
  define sc0 where "sc0 = \<lparr>sc_pos = tail j, sc_replayed = 0, sc_expected = next_seq j, sc_last = None\<rparr>"
  obtain r1 d1 where sl: "scan_loop j (log_blocks j) sc0 d = (r1, d1)" by fastforce
  have k1: "view d1 u = view d u"
    using scan_outside[OF sl assms(1)] assms(4) by (simp add: outside_kept_def)
  have kf: "view e u = view d1 u" if "flush d1 = (r2, e)" for r2 e
    using that by (cases rule: flush_any[OF that]) (simp_all add: view_def)
  have kp: "view e' u = view e u" if ps: "persist_super i e = (r2, e')" and si: "super_block i = super_block j" for i e r2 e'
  proof -
    obtain n ws where e': "e' = e\<lparr>cache := cache e @ ws, fuse := n\<rparr>" and ws: "set ws \<subseteq> {(super_block j, super_image i)}"
      using write_block_outside[of "super_block i" "super_image i" e r2 e'] ps assms(2) si by (auto simp: persist_super_def)
    show ?thesis
      unfolding e' view_cache using assms(5) ws by (auto intro!: apply_writes_other)
  qed
  show ?thesis
    using assms(3) k1 kf kp sl unfolding recover_def sc0_def[symmetric]
    by (auto simp: Let_def area_of_def split: sum.splits prod.splits option.splits)
qed

theorem recover_confined_witness:
  "\<exists>r j' d'. recover \<lparr>super_block = 2, log_start = 3, log_blocks = 6, fs_blocks = 2, head = 0, tail = 0, next_seq = 1\<rparr>
       (power_on 9 (\<lambda>_. desc_image 1 [(1, zero_block)])) = (r, j', d') \<and> view d' 5 = desc_image 1 [(1, zero_block)]"
proof -
  let ?j = "\<lparr>super_block = 2, log_start = 3, log_blocks = 6, fs_blocks = 2, head = 0, tail = 0, next_seq = 1\<rparr>"
  obtain r j' d' where "recover ?j (power_on 9 (\<lambda>_. desc_image 1 [(1, zero_block)])) = (r, j', d')"
    by (cases "recover ?j (power_on 9 (\<lambda>_. desc_image 1 [(1, zero_block)]))")
  then show ?thesis
    using recover_confined[of ?j "power_on 9 (\<lambda>_. desc_image 1 [(1, zero_block)])" r j' d' 5] by (auto simp: max_blocks_def)
qed


end
