(* ===== verification/JournalStale.thy ===== *)
theory JournalStale
  imports JournalCorrect
begin

text \<open>
  The transaction buffer of the journal, and two situations in which \<^verbatim>\<open>recover\<close> of
  \<^verbatim>\<open>src/src/fs/journal.rs\<close> takes blocks of an earlier record for a current one.
\<close>

subsection \<open>The transaction buffer\<close>

lemma replace_target_some:
  "replace_target b x t = Some t' \<Longrightarrow> map fst t' = map fst t \<and> b \<in> fst ` set t
     \<and> (distinct (map fst t) \<longrightarrow> (\<forall>f u. apply_writes t' f u = (if u = b then x else apply_writes t f u)))"
proof (induction t arbitrary: t')
  case (Cons w t)
  obtain v c where w: "w = (v, c)" by (cases w)
  show ?case
  proof (cases "v = b")
    case True
    then show ?thesis
      using Cons.prems by (auto simp: w apply_writes_other apply_agree)
        (metis apply_writes_map_of fun_upd_apply)+
  next
    case False
    then obtain t1 where "replace_target b x t = Some t1" "t' = (v, c) # t1"
      using Cons.prems by (auto simp: w)
    then show ?thesis
      using Cons.IH[of t1] by (auto simp: w)
  qed
qed simp

lemma replace_target_none: "replace_target b x t = None \<longleftrightarrow> b \<notin> fst ` set t"
  by (induction b x t rule: replace_target.induct) auto

definition padded :: "bytes \<Rightarrow> bytes" where
  "padded c = put_bytes zero_block 0 (take BS c)"

lemma padded_min: "put_bytes zero_block 0 (take (min (length c) BS) c) = padded c"
  by (simp add: padded_def min_def)

lemma length_padded: "length (padded c) = BS"
  by (simp add: padded_def length_put_bytes)

text \<open>
  logging a block keeps one record per target and makes the last contents logged for a
  target, cut or zero-padded to a block, the one that the transaction writes; the other targets
  keep theirs.
\<close>

theorem log_block_last_wins:
  assumes "distinct (map fst t)" "\<forall>x \<in> set t. length (snd x) = BS"
  shows "distinct (map fst (log_block b c t)) \<and> (\<forall>x \<in> set (log_block b c t). length (snd x) = BS)
    \<and> apply_writes (log_block b c t) f = (apply_writes t f)(b := padded c)"
proof (cases "replace_target b (padded c) t")
  case None
  then have "log_block b c t = t @ [(b, padded c)]" "b \<notin> fst ` set t"
    using replace_target_none[of b "padded c" t] by (simp_all add: log_block_def Let_def padded_min)
  then show ?thesis
    using assms by (auto simp: length_padded)
next
  case (Some t')
  then have l: "log_block b c t = t'"
    by (simp add: log_block_def Let_def padded_min)
  have "\<forall>x \<in> set t'. length (snd x) = BS"
    using Some assms(2)
  proof (induction t arbitrary: t')
    case (Cons w t)
    then show ?case
      by (cases w) (fastforce simp: length_padded split: if_splits)
  qed simp
  then show ?thesis
    using replace_target_some[OF Some] assms(1) by (auto simp: l)
qed

theorem log_block_last_wins_witness:
  "apply_writes (log_block 5 [1, 2] (log_block 5 [9] txn_begin)) (\<lambda>_. []) 5 = padded [1, 2]"
proof -
  have "distinct (map fst (log_block 5 [9] txn_begin)) \<and> (\<forall>x \<in> set (log_block 5 [9] txn_begin). length (snd x) = BS)"
    by (simp add: log_block_def Let_def txn_begin_def length_put_bytes)
  then show ?thesis
    using log_block_last_wins[of "log_block 5 [9] txn_begin" 5 "[1, 2]" "\<lambda>_. []"] by simp
qed


subsection \<open>Records of the past\<close>

lemma write_all_fuse:
  assumes "fuse d = Some (length ws + k)" "\<forall>x \<in> set ws. fst x < capacity d" "capacity d \<le> max_blocks"
  shows "write_all ws d = (Inr (), d\<lparr>cache := cache d @ ws, fuse := Some k\<rparr>)"
  using assms
proof (induction ws arbitrary: d)
  case (Cons w ws)
  obtain b x where w: "w = (b, x)" by (cases w)
  have "write_block b x d = (Inr (), d\<lparr>cache := cache d @ [(b, x)], fuse := Some (length ws + k)\<rparr>)"
    using Cons.prems by (simp add: w write_block_def dev_write_block_def tick_def block_unit_num)
  then show ?case
    using Cons by (simp add: w io_bind_def)
qed (simp add: io_return_def)

lemma commands_dead:
  "fuse d = Some 0 \<Longrightarrow> flush d = (Inl IoError, d)" "fuse d = Some 0 \<Longrightarrow> write_block b x d = (Inl IoError, d)"
  by (simp_all add: flush_def dev_flush_def write_block_def dev_write_block_def tick_def)

text \<open>A commit on an empty log that loses the device after its log writes, or after the first one.\<close>

lemma commit_dies:
  assumes g: "geo j (capacity d)" and f: "fits j t" and e: "head j = tail j"
  shows "commit t j (d\<lparr>fuse := Some (length t + 2)\<rparr>) = (Inl IoError, j, d\<lparr>cache := cache d @ log_writes j t, fuse := Some 0\<rparr>)"
    "commit t j (d\<lparr>fuse := Some 1\<rparr>)
      = (Inl IoError, j, d\<lparr>cache := cache d @ [(log_start j + head j, desc_image (next_seq j) t)], fuse := Some 0\<rparr>)"
proof -
  have u: "\<not> log_blocks j < log_used j + (length t + 2)"
    using log_used_geo(3)[OF g] e f by (simp add: fits_def)
  have cu: "commit t j (d\<lparr>fuse := n\<rparr>) = commit_tail t j (d\<lparr>fuse := n\<rparr>)" for n
    using commit_unfold[of j "d\<lparr>fuse := n\<rparr>" t] g f u by simp
  have l: "length (log_writes j t) = length t + 2"
    by (simp add: log_writes_eq[OF g f])
  have ad: "\<forall>x \<in> set (log_writes j t). fst x < capacity d" and cap: "capacity d \<le> max_blocks"
    using log_writes_addr(2)[OF g f] geo_cap[OF g] by blast+
  have "write_all (log_writes j t) (d\<lparr>fuse := Some (length t + 2)\<rparr>)
      = (Inr (), d\<lparr>cache := cache d @ log_writes j t, fuse := Some 0\<rparr>)"
    using write_all_fuse[of "d\<lparr>fuse := Some (length t + 2)\<rparr>" "log_writes j t" 0] l ad cap by simp
  then show "commit t j (d\<lparr>fuse := Some (length t + 2)\<rparr>) = (Inl IoError, j, d\<lparr>cache := cache d @ log_writes j t, fuse := Some 0\<rparr>)"
    unfolding cu by (simp add: commit_tail_def commit_body_def io_bind_def commands_dead)
  have hd: "log_block_addr j (head j) = log_start j + head j" "log_start j + head j < capacity d"
    using log_addr[OF g, of "head j"] g by (auto simp: geo_def)
  obtain w ws where lw: "log_writes j t = (log_start j + head j, desc_image (next_seq j) t) # w # ws"
  proof -
    obtain rest where r: "log_writes j t = (log_start j + head j, desc_image (next_seq j) t) # rest"
      by (simp add: log_writes_def hd(1))
    then show thesis
      using that l by (cases rest) auto
  qed
  have "write_block (log_start j + head j) x (d\<lparr>fuse := Some 1\<rparr>)
      = (Inr (), d\<lparr>cache := cache d @ [(log_start j + head j, x)], fuse := Some 0\<rparr>)" for x
    using write_all_fuse[of "d\<lparr>fuse := Some 1\<rparr>" "[(log_start j + head j, x)]" 0] hd(2) cap
    by (simp add: io_bind_def io_return_def split: prod.splits sum.splits)
  then have "write_all (log_writes j t) (d\<lparr>fuse := Some 1\<rparr>)
      = (Inl IoError, d\<lparr>cache := cache d @ [(log_start j + head j, desc_image (next_seq j) t)], fuse := Some 0\<rparr>)"
    unfolding lw by (cases w) (simp add: io_bind_def commands_dead)
  then show "commit t j (d\<lparr>fuse := Some 1\<rparr>)
      = (Inl IoError, j, d\<lparr>cache := cache d @ [(log_start j + head j, desc_image (next_seq j) t)], fuse := Some 0\<rparr>)"
    unfolding cu by (simp add: commit_tail_def commit_body_def io_bind_def)
qed


text \<open>The transaction that a foreign descriptor makes of the data of another record.\<close>

definition crossed :: "txn \<Rightarrow> txn \<Rightarrow> txn" where
  "crossed t1 t2 = zip (map fst t2) (map snd t1)"

lemma crossed_record:
  assumes "length t1 = length t2"
  shows "map fst (crossed t1 t2) = map fst t2" "map snd (crossed t1 t2) = map snd t1" "length (crossed t1 t2) = length t1"
    "rec_blocks q (crossed t1 t2) = desc_image q t2 # map snd t1 @ [commit_image q t1]"
proof -
  show *: "map fst (crossed t1 t2) = map fst t2" "map snd (crossed t1 t2) = map snd t1" "length (crossed t1 t2) = length t1"
    using assms by (simp_all add: crossed_def)
  have "desc_image q (crossed t1 t2) = desc_image q t2" "commit_image q (crossed t1 t2) = commit_image q t1"
    using assms * by (simp_all add: desc_image_def commit_image_def)
  then show "rec_blocks q (crossed t1 t2) = desc_image q t2 # map snd t1 @ [commit_image q t1]"
    using * by (simp add: rec_blocks_def)
qed

lemma crossed_fits:
  assumes "fits j t1" "fits j t2" "length t1 = length t2"
  shows "fits j (crossed t1 t2)"
proof -
  have "fst x < fs_blocks j \<and> length (snd x) = BS \<and> inert (snd x)" if x: "x \<in> set (crossed t1 t2)" for x
  proof -
    obtain k where "k < length t1" "x = (fst (t2 ! k), snd (t1 ! k))"
      using x assms(3) by (auto simp: crossed_def in_set_conv_nth)
    then obtain y z where "y \<in> set t2" "z \<in> set t1" "x = (fst y, snd z)"
      using assms(3) nth_mem by metis
    then show ?thesis
      using assms by (auto simp: fits_def)
  qed
  then show ?thesis
    using assms crossed_record(3)[OF assms(3)] by (auto simp: fits_def)
qed

text \<open>The medium after the second power loss: a descriptor in front of the data of another record.\<close>

lemma crossed_on_medium:
  fixes m :: "nat \<Rightarrow> bytes"
  assumes g: "geo j cap" and f: "fits j t1" "length t1 = length t2"
  defines "s2 \<equiv> (apply_writes (log_writes j t1) m)(log_start j + head j := desc_image (next_seq j) t2)"
  shows "rec_at j s2 (head j) (next_seq j) (crossed t1 t2)" "torn_log j m (head j) (next_seq j) (crossed t1 t2) s2"
    "u < log_start j \<Longrightarrow> s2 u = m u"
proof -
  let ?q = "next_seq j" and ?L = "log_blocks j"
  have n: "length t1 + 2 \<le> ?L" and hb: "head j < ?L"
    using f g by (simp_all add: fits_def geo_def)
  have ne: "slot j s2 x = slot j (apply_writes (log_writes j t1) m) x" if "x mod ?L \<noteq> head j" for x
    using that by (simp add: slot_def s2_def)
  have "slot j s2 (head j + i) = rec_blocks ?q (crossed t1 t2) ! i" if i: "i < length t1 + 2" for i
  proof (cases i)
    case 0
    then show ?thesis
      using hb by (simp add: slot_def s2_def crossed_record(4)[OF f(2)])
  next
    case (Suc k)
    have "(head j + i) mod ?L \<noteq> head j"
      using ring_inj[OF i _ n, of 0 "head j"] hb Suc by auto
    then have "slot j s2 (head j + i) = rec_blocks ?q t1 ! i"
      using ne rec_at_applied[OF g f(1), of m] i by (simp add: rec_at_def)
    then show ?thesis
      by (simp add: Suc crossed_record(4)[OF f(2)]) (simp add: rec_blocks_def)
  qed
  then show r: "rec_at j s2 (head j) ?q (crossed t1 t2)"
    by (simp add: rec_at_def crossed_record(3)[OF f(2)])
  have "slot j s2 x = slot j m x" if x: "\<forall>i < length t1 + 2. x mod ?L \<noteq> (head j + i) mod ?L" for x
  proof -
    have "slot j s2 x = slot j (apply_writes (log_writes j t1) m) x"
      using x[rule_format, of 0] hb by (intro ne) simp
    also have "\<dots> = slot j m x"
      unfolding slot_def
    proof (rule apply_writes_other, rule notI)
      assume "log_start j + x mod ?L \<in> fst ` set (log_writes j t1)"
      then obtain i where "i \<in> {0..<length t1 + 2}" "x mod ?L = (head j + i) mod ?L"
        unfolding log_writes_eq[OF g f(1)] set_map set_upt image_image by (elim imageE) simp
      then show False
        using x by simp
    qed
    finally show ?thesis .
  qed
  then show "torn_log j m (head j) ?q (crossed t1 t2) s2"
    using r by (simp add: torn_log_def rec_at_def crossed_record(3)[OF f(2)])
  show "s2 u = m u" if "u < log_start j"
    unfolding s2_def using that by (auto intro!: apply_writes_other dest!: log_writes_addr(1)[OF g f(1)])
qed

text \<open>
  C28: the commit record does not cover the descriptor and a sequence number is used again after
  an interrupted commit.  If a first power loss keeps the data and the commit record of a
  transaction but not its descriptor, and a second one keeps only the descriptor of the next
  transaction of the same size, then mounting succeeds and writes the data of the first
  transaction over the targets of the second, a state that no sequence of whole transactions
  produces.
\<close>

theorem interrupted_commits_mix:
  assumes i: "journal_inv j d" and e: "head j = tail j" "cache d = []" "inert (slot j (medium d) (head j))"
    and f: "fits j t1" "fits j t2" "length t1 = length t2"
  shows "\<exists>d1 s1 d2 d3 s2 j4 d4.
      commit t1 j (d\<lparr>fuse := Some (length t1 + 2)\<rparr>) = (Inl IoError, j, d1) \<and> survives d1 s1
    \<and> mount_journal (area_of j) (power_on (capacity d) s1) = (Inr j, d2)
    \<and> commit t2 j (d2\<lparr>fuse := Some 1\<rparr>) = (Inl IoError, j, d3) \<and> survives d3 s2
    \<and> mount_journal (area_of j) (power_on (capacity d) s2) = (Inr j4, d4)
    \<and> (\<forall>u < fs_blocks j. view d4 u = apply_writes (zip (map fst t2) (map snd t1)) (view d) u)"
proof -
  note rc = inv_selD(1)[OF i]
  note g = recoverable_sel(1)[OF rc] and o = recoverable_sel(2)[OF rc]
  define M where "M = apply_writes (log_writes j t1) (medium d)"
  define a where "a = log_start j + head j"
  define s1 where "s1 = M(a := medium d a)"
  define s2 where "s2 = M(a := desc_image (next_seq j) t2)"
  define d2 where "d2 = \<lparr>medium = s1, cache = [(super_block j, super_image j)], capacity = capacity d, fuse = None\<rparr>"
  have hb: "head j < log_blocks j" "tail j < log_blocks j" and fsb: "fs_blocks j \<le> super_block j" "super_block j < log_start j"
    using g by (auto simp: geo_def)
  have jj: "j\<lparr>head := head j, tail := head j, next_seq := next_seq j\<rparr> = j"
    using e(1) by simp
  have lo: "M u = medium d u" if "u < log_start j" for u
    unfolding M_def using that by (auto intro!: apply_writes_other dest!: log_writes_addr(1)[OF g f(1)])
  have sup: "s1 (super_block j) = super_image j" "s2 (super_block j) = super_image j"
    using inv_selD(2)[OF i] e(2) lo[of "super_block j"] fsb by (simp_all add: s1_def s2_def a_def)
  have c1: "commit t1 j (d\<lparr>fuse := Some (length t1 + 2)\<rparr>) = (Inl IoError, j, d\<lparr>cache := log_writes j t1, fuse := Some 0\<rparr>)"
    using commit_dies(1)[OF g f(1) e(1)] e(2) by simp
  have v1: "survives (d\<lparr>cache := log_writes j t1, fuse := Some 0\<rparr>) s1"
    unfolding survives_def s1_def M_def apply_writes_def using fold_upd_cases[of "log_writes j t1" "medium d"] by auto
  have "slot j s1 (head j) = slot j (medium d) (head j)"
    using hb by (simp add: slot_def s1_def a_def)
  then have "pscan j s1 (log_blocks j) (head j) (next_seq j) None = ([], head j, None)"
    using pscan_stop[of j s1 "head j" "next_seq j" None "log_blocks j"] e(3) hb by (simp add: inert_def)
  then have m1: "mount_journal (area_of j) (power_on (capacity d) s1) = (Inr j, d2)"
    using mount_alive[OF g hb(1) hb(1), of "next_seq j" s1 "[]" "head j" None] sup(1) jj by (simp add: d2_def)
  have c2: "commit t2 j (d2\<lparr>fuse := Some 1\<rparr>) = (Inl IoError, j, d2\<lparr>cache := cache d2 @ [(a, desc_image (next_seq j) t2)], fuse := Some 0\<rparr>)"
    using commit_dies(2)[of j d2 t2] g f(2) e(1) by (simp add: d2_def a_def)
  have v2: "survives (d2\<lparr>cache := cache d2 @ [(a, desc_image (next_seq j) t2)], fuse := Some 0\<rparr>) s2"
    by (simp add: survives_def d2_def s1_def s2_def)
  note cm = crossed_on_medium[OF g f(1,3), where m = "medium d", folded M_def a_def, folded s2_def]
  have "skips j s2 (next_seq j) (tail j) (log_used j)"
    using log_used_geo(3)[OF g] e(1) by (simp add: skips_nil)
  from mount_complete[OF g o crossed_fits[OF f] cm(2,1) sup(2) this]
  obtain j4 d4 where m2: "mount_journal (area_of j) (power_on (capacity d) s2) = (Inr j4, d4)"
    "\<forall>u < fs_blocks j. view d4 u = apply_writes (crossed t1 t2) s2 u"
    by blast
  have "apply_writes (crossed t1 t2) s2 u = apply_writes (crossed t1 t2) (view d) u" if "u < fs_blocks j" for u
    using that cm(3) fsb e(2) by (intro apply_agree[of "fs_blocks j"]) simp_all
  then have "\<forall>u < fs_blocks j. view d4 u = apply_writes (zip (map fst t2) (map snd t1)) (view d) u"
    using m2(2) by (simp add: crossed_def)
  then show ?thesis
    using c1 v1 m1 c2 v2 m2(1) by blast
qed

theorem interrupted_commits_mix_witness:
  "\<exists>d1 s1 d2 d3 s2 j4 d4.
      commit (small_txn 7) small_journal (small_dev\<lparr>fuse := Some 3\<rparr>) = (Inl IoError, small_journal, d1) \<and> survives d1 s1
    \<and> mount_journal (area_of small_journal) (power_on 9 s1) = (Inr small_journal, d2)
    \<and> commit [(0, small_block 9)] small_journal (d2\<lparr>fuse := Some 1\<rparr>) = (Inl IoError, small_journal, d3) \<and> survives d3 s2
    \<and> mount_journal (area_of small_journal) (power_on 9 s2) = (Inr j4, d4) \<and> view d4 0 = small_block 7"
proof -
  have "fits small_journal [(0, small_block 9)]"
    using small_fits[of 9] by (simp add: fits_def small_txn_def small_journal_def)
  moreover have "inert (slot small_journal (medium small_dev) (head small_journal))"
    unfolding small_slot by (rule zero_inert)
  moreover have "head small_journal = tail small_journal" "cache small_dev = []" "fs_blocks small_journal = 2" "capacity small_dev = 9"
    by (simp_all add: small_journal_def small_dev_def)
  ultimately show ?thesis
    using interrupted_commits_mix[OF small_inv _ _ _ small_fits[of 7], of "[(0, small_block 9)]"]
    by (simp add: small_txn_def numeral_3_eq_3) fastforce
qed


text \<open>A commit at the start of the ring leaves the slots behind its record alone.\<close>

lemma after_commit_slots:
  assumes g: "geo j cap" and f: "fits j t" and h: "head j = 0"
  defines "M \<equiv> \<lambda>m. apply_writes t (apply_writes (log_writes j t) m)"
  shows "rec_at j (M m) 0 (next_seq j) t"
    "length t + 2 \<le> x \<Longrightarrow> x < log_blocks j \<Longrightarrow> slot j (M m) x = slot j m x"
proof -
  have "fst ` set t \<subseteq> {..<fs_blocks j}"
    using f by (auto simp: fits_def)
  then have "M m u = apply_writes (log_writes j t) m u" if "fs_blocks j \<le> u" for u
    unfolding M_def using that by (intro apply_writes_other) auto
  then have hi: "slot j (M m) x = slot j (apply_writes (log_writes j t) m) x" for x
    using log_addr_bounds(2)[OF g, of x] by (simp add: slot_def)
  show "rec_at j (M m) 0 (next_seq j) t"
    using rec_at_applied[OF g f, of m] by (simp add: rec_at_def hi h)
  show "slot j (M m) x = slot j m x" if x: "length t + 2 \<le> x" "x < log_blocks j"
  proof -
    have "log_start j + x mod log_blocks j \<notin> fst ` set (log_writes j t)"
    proof
      assume "log_start j + x mod log_blocks j \<in> fst ` set (log_writes j t)"
      then obtain i where "i \<in> {0..<length t + 2}" "x mod log_blocks j = i mod log_blocks j"
        unfolding log_writes_eq[OF g f] set_map set_upt image_image by (elim imageE) (simp add: h)
      then show False
        using x by simp
    qed
    then show ?thesis
      using apply_writes_other hi[of x] by (simp add: slot_def)
  qed
qed

text \<open>
  C29: \<^verbatim>\<open>format\<close> clears only the first slot of the ring.  If the ring of the previous file
  system still holds the record with sequence number 2 behind a first record of \<open>n\<close> blocks, then
  after a format and one commit of \<open>n\<close> blocks, without any power loss, the next mount replays
  the stale record into the new file system.
\<close>

theorem format_keeps_stale_record:
  assumes a: "area_ok a (capacity d)" "fuse d = None"
    and f: "fits (fresh_journal a) t" "fits (fresh_journal a) r"
    and stale: "rec_at (fresh_journal a) (view d) (length t + 2) 2 r"
    and room: "length t + 2 + (length r + 2) < ja_log_blocks a"
    and after: "inert (slot (fresh_journal a) (view d) (length t + 2 + (length r + 2)))"
  shows "\<exists>d1 j1 d2 j2 d3. io_bind (journal_format a) (\<lambda>_. io_bind flush (\<lambda>_. journal_open a)) d = (Inr (fresh_journal a), d1)
    \<and> commit t (fresh_journal a) d1 = (Inr (), j1, d2)
    \<and> mount_journal a (power_on (capacity d) (view d2)) = (Inr j2, d3)
    \<and> (\<forall>u < ja_fs_blocks a. view d3 u = apply_writes r (apply_writes t (view d)) u)"
proof -
  define j where "j = fresh_journal a"
  define M0 where "M0 = (view d)(ja_super_block a := super_image j, ja_super_block a + 1 := zero_block)"
  define d1 where "d1 = d\<lparr>medium := M0, cache := []\<rparr>"
  define M where "M = apply_writes t (apply_writes (log_writes j t) M0)"
  define j1 where "j1 = j\<lparr>head := length t + 2, next_seq := 2\<rparr>"
  define d2 where "d2 = d\<lparr>medium := M, cache := [(ja_super_block a, super_image j1)]\<rparr>"
  define s where "s = M(ja_super_block a := super_image j1)"
  let ?p = "length t + 2" and ?L = "ja_log_blocks a"
  have jf: "super_block j = ja_super_block a" "log_start j = ja_super_block a + 1" "log_blocks j = ?L"
    "fs_blocks j = ja_fs_blocks a" "head j = 0" "tail j = 0" "next_seq j = 1"
    by (simp_all add: j_def fresh_journal_def)
  note g = fresh_geo[OF a(1), folded j_def] and f = f[folded j_def]
  have fsb: "ja_fs_blocks a \<le> ja_super_block a" and cap: "ja_super_block a < capacity d" "capacity d \<le> max_blocks"
    using a(1) by (auto simp: area_ok_def)
  have fo: "io_bind (journal_format a) (\<lambda>_. io_bind flush (\<lambda>_. journal_open a)) d = (Inr (fresh_journal a), d1)"
    using format_alive[OF a] by (simp add: d1_def M0_def j_def)
  have "commit_body j t d1 = (Inr (), d\<lparr>medium := M, cache := []\<rparr>)"
    using commit_body_alive[of j d1 t] g f(1) a(2) by (simp add: d1_def M_def)
  moreover have "log_used j = 0"
    using log_used_geo(3)[OF g] by (simp add: jf)
  ultimately have cm: "commit t j d1 = (Inr (), j1, d2)"
    using commit_unfold[of j d1 t] g f(1) a(2) cap room
    by (simp add: d1_def commit_tail_def jf persist_super_def write_block_alive d2_def j1_def Let_def numeral_2_eq_2)
  have vs: "view d2 = s"
    by (simp add: d2_def s_def view_def)
  have sM: "slot j s x = slot j M x" for x
    by (simp add: slot_def s_def jf)
  note cs = after_commit_slots[OF g f(1) jf(5), where m = M0, folded M_def]
  have ra: "rec_at j s 0 1 t"
    using cs(1) by (simp add: rec_at_def sM jf)
  have keep: "slot j s x = slot j (view d) x" if x: "?p \<le> x" "x < ?L" for x
    using cs(2)[of x] x by (simp add: sM jf) (simp add: slot_def jf M0_def)
  have rr: "rec_at j s ?p 2 r"
    unfolding rec_at_def
  proof (intro allI impI)
    fix i assume "i < length r + 2"
    then show "slot j s (?p + i) = rec_blocks 2 r ! i"
      using keep[of "?p + i"] stale room by (simp add: rec_at_def j_def)
  qed
  have "skips j s 2 0 (length t + 2 + 0)"
    using load_desc_fits[OF g f(1), of 1] rec_at_slots(1)[OF ra] f(1) by (intro skips_rec skips_nil) (simp_all add: fits_def)
  then have "pscan j s ?L 0 2 None = pscan j s (?L - ?p) (?p mod ?L) 2 None"
    using pscan_skips[of j s 2 0 ?p ?L] room by (simp add: jf)
  moreover have "pscan j s b ((?p + (length r + 2)) mod ?L) 3 (Some 2) = ([], (?p + (length r + 2)) mod ?L, Some 2)" for b
    using pscan_stop[of j s "?p + (length r + 2)" 3 "Some 2" b] keep[of "?p + (length r + 2)"] after room
    by (simp add: jf inert_def j_def[symmetric])
  moreover have "pscan j s (?L - ?p) (?p mod ?L) 2 None
      = (case pscan j s (?L - ?p - (length r + 2)) ((?p + (length r + 2)) mod ?L) 3 (Some 2) of (ts, p, l) \<Rightarrow> (r # ts, p, l))"
    using pscan_rec_step[OF g f(2) _ rr, of "?L - ?p" None] room by (simp add: jf)
  ultimately have ps: "pscan j s (log_blocks j) 0 2 None = ([r], (?p + (length r + 2)) mod ?L, Some 2)"
    by (simp add: jf)
  have g2: "geo (j\<lparr>next_seq := 2\<rparr>) (capacity d)"
    using g by (simp add: geo_def)
  have ps2: "pscan (j\<lparr>next_seq := 2\<rparr>) s (log_blocks (j\<lparr>next_seq := 2\<rparr>)) 0 2 None = ([r], (?p + (length r + 2)) mod ?L, Some 2)"
    using ps pscan_fields[where j = j and h = "head j" and ?t0.0 = "tail j" and n = 2] by simp
  have "j1 = j\<lparr>next_seq := 2\<rparr>\<lparr>head := ?p, tail := 0, next_seq := 2\<rparr>"
    by (simp add: j1_def j_def fresh_journal_def)
  then have sb: "s (super_block (j\<lparr>next_seq := 2\<rparr>)) = super_image (j\<lparr>next_seq := 2\<rparr>\<lparr>head := ?p, tail := 0, next_seq := 2\<rparr>)"
    by (simp add: s_def jf)
  obtain j2 d3 where "mount_journal (area_of (j\<lparr>next_seq := 2\<rparr>)) (power_on (capacity d) s) = (Inr j2, d3)"
    "medium d3 = apply_writes r s" "cache d3 = [(super_block j, super_image j2)]"
    using mount_alive[OF g2 _ _ _ sb ps2] f(2) room by (simp add: jf)
  moreover have "apply_writes r s u = apply_writes r (apply_writes t (view d)) u" if "u < ja_fs_blocks a" for u
  proof (rule apply_agree[of "ja_fs_blocks a"])
    fix u assume u: "u < ja_fs_blocks a"
    have "apply_writes (log_writes j t) M0 v = view d v" if "v < ja_fs_blocks a" for v
      using that fsb by (subst apply_writes_other) (auto simp: M0_def jf dest!: log_writes_addr(1)[OF g f(1)])
    then show "s u = apply_writes t (view d) u"
      using u fsb apply_agree[of "ja_fs_blocks a" "apply_writes (log_writes j t) M0" "view d" u t] by (simp add: s_def M_def)
  qed (rule that)
  moreover have "area_of (j\<lparr>next_seq := 2\<rparr>) = a"
    by (simp add: area_of_def jf)
  ultimately show ?thesis
    using fo cm vs fsb view_super_cache[of d3 "super_block j" "super_image j2"]
    by (intro exI[of _ d1] exI[of _ j1] exI[of _ d2] exI[of _ j2] exI[of _ d3]) (simp add: j_def[symmetric] jf)
qed


theorem format_keeps_stale_record_witness:
  "\<exists>d d1 j1 d2 j2 d3. view d 0 = zero_block
    \<and> io_bind (journal_format \<lparr>ja_super_block = 2, ja_log_blocks = 64, ja_fs_blocks = 2\<rparr>)
         (\<lambda>_. io_bind flush (\<lambda>_. journal_open \<lparr>ja_super_block = 2, ja_log_blocks = 64, ja_fs_blocks = 2\<rparr>)) d
       = (Inr (fresh_journal \<lparr>ja_super_block = 2, ja_log_blocks = 64, ja_fs_blocks = 2\<rparr>), d1)
    \<and> commit (small_txn 7) (fresh_journal \<lparr>ja_super_block = 2, ja_log_blocks = 64, ja_fs_blocks = 2\<rparr>) d1 = (Inr (), j1, d2)
    \<and> mount_journal \<lparr>ja_super_block = 2, ja_log_blocks = 64, ja_fs_blocks = 2\<rparr> (power_on (capacity d) (view d2)) = (Inr j2, d3)
    \<and> view d3 0 = small_block 9"
proof -
  let ?a = "\<lparr>ja_super_block = 2, ja_log_blocks = 64, ja_fs_blocks = 2\<rparr>"
  define r where "r = [(0 :: nat, small_block 9)]"
  define d where "d = power_on 67 ((\<lambda>_. zero_block)(6 := desc_image 2 r, 7 := small_block 9, 8 := commit_image 2 r))"
  have a: "area_ok ?a (capacity d)" "fuse d = None"
    by (simp_all add: d_def area_ok_def max_blocks_def)
  have f: "fits (fresh_journal ?a) (small_txn 7)" "fits (fresh_journal ?a) r"
    using small_fits[of 7] small_fits[of 9] by (simp_all add: fits_def small_txn_def small_journal_def fresh_journal_def r_def)
  have st: "rec_at (fresh_journal ?a) (view d) (length (small_txn 7) + 2) 2 r"
    by (auto simp: rec_at_def slot_def fresh_journal_def small_txn_def d_def r_def less_Suc_eq rec_blocks_def)
  have af: "inert (slot (fresh_journal ?a) (view d) (length (small_txn 7) + 2 + (length r + 2)))"
    using zero_inert by (simp add: slot_def fresh_journal_def small_txn_def d_def r_def)
  have "length (small_txn 7) + 2 + (length r + 2) < ja_log_blocks ?a"
    by (simp add: small_txn_def r_def)
  from format_keeps_stale_record[OF a f st this af]
  obtain d1 j1 d2 j2 d3 where *: "io_bind (journal_format ?a) (\<lambda>_. io_bind flush (\<lambda>_. journal_open ?a)) d = (Inr (fresh_journal ?a), d1)"
    "commit (small_txn 7) (fresh_journal ?a) d1 = (Inr (), j1, d2)" "mount_journal ?a (power_on (capacity d) (view d2)) = (Inr j2, d3)"
    "\<forall>u < ja_fs_blocks ?a. view d3 u = apply_writes r (apply_writes (small_txn 7) (view d)) u"
    by blast
  have "view d3 0 = small_block 9" "view d 0 = zero_block"
    using *(4) by (simp_all add: r_def d_def)
  then show ?thesis
    using * by blast
qed

end
