(* ===== verification/Ext2Alloc.thy ===== *)
theory Ext2Alloc
  imports BitmapSpec Ext2Structs
begin

section \<open>ext2 allocation\<close>

text \<open>
  The block and inode allocator of \<^verbatim>\<open>fs/ext2/alloc.rs\<close>: one 4096-byte bitmap block, the
  superblock and the group descriptor, whose free counters it keeps in step.  The bit
  operations are related to the bitmap contract of the library at width eight; both
  allocators implement the ownership contract that the frame allocator implements too.
\<close>

subsection \<open>Bit operations\<close>

fun alloc_bit_loop :: "bytes \<Rightarrow> nat \<Rightarrow> nat \<Rightarrow> (u32 \<times> bytes) option" where
  "alloc_bit_loop bm byte_idx 0 = None"
| "alloc_bit_loop bm byte_idx (Suc n) =
     (let byte = bm ! byte_idx
      in if byte \<noteq> 0xFF
         then let bt = trailing_zeros (NOT byte)
              in Some (of_nat byte_idx * 8 + of_nat bt, bm[byte_idx := byte OR push_bit bt 1])
         else alloc_bit_loop bm (Suc byte_idx) n)"

definition alloc_bit :: "bytes \<Rightarrow> (u32 \<times> bytes) option" where
  "alloc_bit bm = alloc_bit_loop bm 0 (min (length bm) BS)"

definition set_bit_at :: "bytes \<Rightarrow> u32 \<Rightarrow> bool \<times> bytes" where
  "set_bit_at bm idx =
     (let byte = unat (idx div 8); bt = unat (idx mod 8)
      in if length bm \<le> byte then (False, bm)
         else (bm ! byte AND push_bit bt 1 = 0, bm[byte := bm ! byte OR push_bit bt 1]))"

definition clear_bit :: "bytes \<Rightarrow> u32 \<Rightarrow> bool \<times> bytes" where
  "clear_bit bm idx =
     (let byte = unat (idx div 8); bt = unat (idx mod 8)
      in if length bm \<le> byte then (False, bm)
         else (bm ! byte AND push_bit bt 1 \<noteq> 0, bm[byte := bm ! byte AND NOT (push_bit bt 1)]))"

definition test_bit :: "bytes \<Rightarrow> u32 \<Rightarrow> bool" where
  "test_bit bm idx =
     (let byte = unat (idx div 8); bt = unat (idx mod 8)
      in byte < length bm \<and> bm ! byte AND push_bit bt 1 \<noteq> 0)"

definition count_set_bits :: "bytes \<Rightarrow> u32 \<Rightarrow> u32" where
  "count_set_bits bm span = fold (\<lambda>idx count. if test_bit bm (of_nat idx) then count + 1 else count) [0..<unat span] 0"

subsection \<open>Blocks and inodes\<close>

type_synonym group = "bytes \<times> ext2_super_block \<times> ext2_group_desc"

definition alloc_block :: "group \<Rightarrow> u32 option \<times> group" where
  "alloc_block = (\<lambda>(block_bitmap, sb, gd).
     case alloc_bit block_bitmap of
       None \<Rightarrow> (None, block_bitmap, sb, gd)
     | Some (bt, block_bitmap) \<Rightarrow>
         let block = s_first_data_block sb + bt
         in if s_blocks_count sb \<le> block then (None, snd (clear_bit block_bitmap bt), sb, gd)
            else (Some block, block_bitmap,
                  sb\<lparr>s_free_blocks_count := saturating_sub (s_free_blocks_count sb) 1\<rparr>,
                  gd\<lparr>bg_free_blocks_count := saturating_sub (bg_free_blocks_count gd) 1\<rparr>))"

definition free_block :: "u32 \<Rightarrow> group \<Rightarrow> group" where
  "free_block block = (\<lambda>(block_bitmap, sb, gd).
     case checked_sub block (s_first_data_block sb) of
       None \<Rightarrow> (block_bitmap, sb, gd)
     | Some bt \<Rightarrow>
         (case clear_bit block_bitmap bt of
            (True, bm) \<Rightarrow> (bm, sb\<lparr>s_free_blocks_count := s_free_blocks_count sb + 1\<rparr>,
                           gd\<lparr>bg_free_blocks_count := bg_free_blocks_count gd + 1\<rparr>)
          | (False, bm) \<Rightarrow> (bm, sb, gd)))"

definition alloc_inode :: "group \<Rightarrow> u32 option \<times> group" where
  "alloc_inode = (\<lambda>(inode_bitmap, sb, gd).
     case alloc_bit inode_bitmap of
       None \<Rightarrow> (None, inode_bitmap, sb, gd)
     | Some (bt, inode_bitmap) \<Rightarrow>
         let ino = bt + 1
         in if s_inodes_count sb < ino then (None, snd (clear_bit inode_bitmap bt), sb, gd)
            else (Some ino, inode_bitmap,
                  sb\<lparr>s_free_inodes_count := saturating_sub (s_free_inodes_count sb) 1\<rparr>,
                  gd\<lparr>bg_free_inodes_count := saturating_sub (bg_free_inodes_count gd) 1\<rparr>))"

definition free_inode :: "u32 \<Rightarrow> group \<Rightarrow> group" where
  "free_inode ino = (\<lambda>(inode_bitmap, sb, gd).
     if ino = 0 then (inode_bitmap, sb, gd)
     else case clear_bit inode_bitmap (ino - 1) of
            (True, bm) \<Rightarrow> (bm, sb\<lparr>s_free_inodes_count := s_free_inodes_count sb + 1\<rparr>,
                           gd\<lparr>bg_free_inodes_count := bg_free_inodes_count gd + 1\<rparr>)
          | (False, bm) \<Rightarrow> (bm, sb, gd))"

subsection \<open>The bitmap contract at width eight\<close>

lemma unat_u32_div8: "unat (idx div 8 :: u32) = unat idx div 8" "unat (idx mod 8 :: u32) = unat idx mod 8"
  by (simp_all add: unat_div unat_mod)

lemma bit_ops:
  "test_bit bm idx \<longleftrightarrow> wl_test bm (unat idx)"
  "set_bit_at bm idx = (if unat idx < wl_bits bm then (\<not> wl_test bm (unat idx), wl_set bm (unat idx)) else (False, bm))"
  "clear_bit bm idx = (if unat idx < wl_bits bm then (wl_test bm (unat idx), wl_clear bm (unat idx)) else (False, bm))"
  by (simp_all add: test_bit_def set_bit_at_def clear_bit_def wl_test_def wl_set_def wl_clear_def wl_bits_iff
      unat_u32_div8 Let_def not_le)


lemma wl_test_not:
  "wl_test (map NOT (ws :: 'a::len word list)) i \<longleftrightarrow> i < wl_bits ws \<and> \<not> wl_test ws i"
  by (auto simp: wl_test_iff wl_bits_iff bit_not_iff)

lemma alloc_bit_loop_spec:
  assumes "byte_idx + n = length bm" "\<And>k. k < byte_idx \<Longrightarrow> bm ! k = 0xFF" "length bm \<le> BS"
  shows "case alloc_bit_loop bm byte_idx n of
      None \<Rightarrow> \<forall>i < wl_bits bm. wl_test bm i
    | Some (idx, bm') \<Rightarrow> unat idx < wl_bits bm \<and> \<not> wl_test bm (unat idx) \<and> (\<forall>i < unat idx. wl_test bm i)
        \<and> bm' = wl_set bm (unat idx)"
  using assms
proof (induction n arbitrary: byte_idx)
  case 0
  have "bit (0xFF :: u8) k" if "k < 8" for k
    using that by (auto simp: less_Suc_eq numeral_eq_Suc)
  then have "wl_test bm i" if "i < wl_bits bm" for i
    using that 0 by (simp add: wl_bits_iff wl_test_iff)
  then show ?case by simp
next
  case (Suc n)
  let ?byte = "bm ! byte_idx"
  show ?case
  proof (cases "?byte = 0xFF")
    case True
    have "bm ! k = 0xFF" if "k < Suc byte_idx" for k
      using that True Suc.prems(2) by (cases "k = byte_idx") auto
    then show ?thesis
      using Suc.IH[of "Suc byte_idx"] Suc.prems True by (simp del: alloc_bit_loop.simps add: alloc_bit_loop.simps(2))
  next
    case False
    moreover have "(0xFF :: u8) = NOT 0"
      by simp
    ultimately have nz: "NOT ?byte \<noteq> 0"
      by (metis bit.double_compl)
    let ?t = "trailing_zeros (NOT ?byte)"
    define idx :: u32 where "idx = of_nat byte_idx * 8 + of_nat ?t"
    have t: "?t < 8"
      using trailing_zeros_bit(1)[OF nz] by simp
    have b: "byte_idx < 4096" "byte_idx < length bm"
      using Suc.prems by (simp_all add: BS_def)
    have idx: "unat idx = byte_idx * 8 + ?t"
      using b(1) t by (simp add: idx_def unat_word_ariths unat_of_nat)
    have low: "map NOT bm ! j = 0" if "j < byte_idx" for j
      using that b(2) Suc.prems(2) by simp
    have l: "wl_test (map NOT bm) (unat idx)" "\<And>j. wl_test (map NOT bm) j \<Longrightarrow> unat idx \<le> j"
      using wl_lowest[of byte_idx "map NOT bm"] b(2) nz low idx by simp_all
    have "wl_test bm i" if "i < unat idx" for i
      using l(2)[of i] l(1) that by (auto simp: wl_test_not)
    moreover have "bm[byte_idx := ?byte OR push_bit ?t 1] = wl_set bm (unat idx)"
      using t by (simp add: wl_set_def idx)
    ultimately show ?thesis
      using l(1) False by (simp add: wl_test_not Let_def idx_def[symmetric])
  qed
qed

lemma alloc_bit_spec:
  assumes "length bm \<le> BS"
  shows "alloc_bit bm = None \<Longrightarrow> i < wl_bits bm \<Longrightarrow> wl_test bm i"
    "alloc_bit bm = Some (idx, bm') \<Longrightarrow>
       unat idx < wl_bits bm \<and> \<not> wl_test bm (unat idx) \<and> (\<forall>i < unat idx. wl_test bm i) \<and> bm' = wl_set bm (unat idx)"
  using alloc_bit_loop_spec[of 0 "length bm" bm] assms by (auto simp: alloc_bit_def min_def split: option.splits)


subsection \<open>Consistency of a group\<close>

text \<open>
  A group is consistent when its bitmap block covers the blocks (inodes) of the file system and
  both free counters count the clear bits among them.  Blocks are numbered from
  \<^verbatim>\<open>s_first_data_block\<close>, inodes from one.
\<close>

definition clear_units :: "bytes \<Rightarrow> nat \<Rightarrow> nat \<Rightarrow> nat set" where
  "clear_units bm base n = {base + i | i. i < n \<and> \<not> wl_test bm i}"

definition block_units :: "group \<Rightarrow> nat set" where
  "block_units = (\<lambda>(bm, sb, gd). {unat (s_first_data_block sb)..<unat (s_blocks_count sb)})"

definition free_blocks :: "group \<Rightarrow> nat set" where
  "free_blocks = (\<lambda>(bm, sb, gd). clear_units bm (unat (s_first_data_block sb))
     (unat (s_blocks_count sb) - unat (s_first_data_block sb)))"

definition blocks_ok :: "group \<Rightarrow> bool" where
  "blocks_ok g = (case g of (bm, sb, gd) \<Rightarrow> length bm = BS \<and> s_first_data_block sb \<le> s_blocks_count sb
     \<and> unat (s_first_data_block sb) + 8 * BS < 2 ^ 32
     \<and> unat (s_blocks_count sb) - unat (s_first_data_block sb) \<le> 8 * BS
     \<and> unat (bg_free_blocks_count gd) = card (free_blocks g) \<and> unat (s_free_blocks_count sb) = card (free_blocks g))"

definition inode_units :: "group \<Rightarrow> nat set" where
  "inode_units = (\<lambda>(bm, sb, gd). {1..unat (s_inodes_count sb)})"

definition free_inodes :: "group \<Rightarrow> nat set" where
  "free_inodes = (\<lambda>(bm, sb, gd). clear_units bm 1 (unat (s_inodes_count sb)))"

definition inodes_ok :: "group \<Rightarrow> bool" where
  "inodes_ok g = (case g of (bm, sb, gd) \<Rightarrow> length bm = BS \<and> unat (s_inodes_count sb) \<le> 8 * BS
     \<and> unat (bg_free_inodes_count gd) = card (free_inodes g) \<and> unat (s_free_inodes_count sb) = card (free_inodes g))"

lemma clear_units_finite: "finite (clear_units bm base n)" and clear_units_card: "card (clear_units bm base n) \<le> n"
proof -
  have *: "clear_units bm base n \<subseteq> (\<lambda>i. base + i) ` {..<n}"
    by (auto simp: clear_units_def)
  then show "finite (clear_units bm base n)"
    by (rule finite_subset) simp
  have "card (clear_units bm base n) \<le> card ((\<lambda>i. base + i) ` {..<n})"
    by (rule card_mono[OF _ *]) simp
  also have "\<dots> \<le> n"
    using card_image_le[of "{..<n}" "\<lambda>i. base + i"] by simp
  finally show "card (clear_units bm base n) \<le> n" .
qed

lemma clear_units_set:
  "i < wl_bits bm \<Longrightarrow> clear_units (wl_set bm i) base n = clear_units bm base n - {base + i}"
  by (auto simp: clear_units_def wl_test_set)

lemma clear_units_clear:
  "i < wl_bits bm \<Longrightarrow> i < n \<Longrightarrow> clear_units (wl_clear bm i) base n = insert (base + i) (clear_units bm base n)"
  by (auto simp: clear_units_def wl_test_clear)

lemma wl_clear_set: "i < wl_bits bm \<Longrightarrow> \<not> wl_test bm i \<Longrightarrow> wl_clear (wl_set bm i) i = bm"
  by (rule wl_eqI) (auto simp: wl_test_clear wl_test_set wl.nbits_mark)

lemma dec_count:
  fixes w :: "'a::len word"
  assumes "unat w = card A" "x \<in> A" "finite A"
  shows "unat (saturating_sub w 1) = card (A - {x})"
proof -
  have "0 < card A"
    using assms(2,3) by (auto simp: card_gt_0_iff)
  then have "1 \<le> w"
    using assms(1) by (simp add: word_le_nat_alt Suc_le_eq)
  then have "unat (saturating_sub w 1) = unat w - 1"
    by (simp add: saturating_sub_def unat_minus_exact)
  then show ?thesis
    using assms by simp
qed

lemma inc_count:
  fixes w :: "'a::len word"
  assumes "unat w = card A" "x \<notin> A" "finite A" "card A + 1 < 2 ^ LENGTH('a)"
  shows "unat (w + 1) = card (insert x A)"
proof -
  have "unat (w + 1) = unat w + 1"
    using assms(1,4) unat_plus_exact[of w 1] by simp
  then show ?thesis
    using assms by simp
qed


lemma wl_bits_block: "length (bm :: bytes) = BS \<Longrightarrow> wl_bits bm = 8 * BS"
  by (simp add: wl_bits_def)

lemma alloc_block_some:
  assumes ok: "blocks_ok g" and al: "alloc_block g = (Some b, g')"
  shows "unat b \<in> free_blocks g \<and> (\<forall>x \<in> free_blocks g. unat b \<le> x) \<and> blocks_ok g'
    \<and> free_blocks g' = free_blocks g - {unat b} \<and> block_units g' = block_units g"
proof -
  obtain bm sb gd where g: "g = (bm, sb, gd)" by (cases g)
  let ?f = "unat (s_first_data_block sb)" and ?n = "unat (s_blocks_count sb) - unat (s_first_data_block sb)"
  have len: "length bm = BS" and fc: "?f \<le> unat (s_blocks_count sb)" and nb: "?n \<le> 8 * BS" and fb: "?f + 8 * BS < 2 ^ 32"
    and cnt: "unat (bg_free_blocks_count gd) = card (free_blocks g)" "unat (s_free_blocks_count sb) = card (free_blocks g)"
    using ok by (auto simp: blocks_ok_def g word_le_nat_alt)
  obtain bt bm' where ab: "alloc_bit bm = Some (bt, bm')"
    using al by (cases "alloc_bit bm") (auto simp: alloc_block_def g)
  have nle: "\<not> s_blocks_count sb \<le> s_first_data_block sb + bt"
    using al by (auto simp: alloc_block_def g ab Let_def split: if_splits)
  then have b: "b = s_first_data_block sb + bt"
    and g': "g' = (bm', sb\<lparr>s_free_blocks_count := saturating_sub (s_free_blocks_count sb) 1\<rparr>,
       gd\<lparr>bg_free_blocks_count := saturating_sub (bg_free_blocks_count gd) 1\<rparr>)"
    using al by (simp_all add: alloc_block_def g ab Let_def)
  have lt: "s_first_data_block sb + bt < s_blocks_count sb"
    using nle by simp
  note sp = alloc_bit_spec(2)[OF eq_imp_le[OF len] ab]
  have bt: "unat bt < 8 * BS"
    using sp wl_bits_block[OF len] by simp
  have ub: "unat b = ?f + unat bt"
    unfolding b using fb bt by (intro unat_plus_exact) simp
  have btn: "unat bt < ?n"
    using lt ub by (simp add: b word_less_nat_alt)
  have free: "unat b \<in> free_blocks g"
    using sp btn by (auto simp: g free_blocks_def clear_units_def ub)
  have low: "unat b \<le> x" if "x \<in> free_blocks g" for x
    using that sp by (auto simp: g free_blocks_def clear_units_def ub not_less[symmetric])
  have fr: "free_blocks g' = free_blocks g - {unat b}"
    using sp clear_units_set[of "unat bt" bm ?f ?n] by (simp add: g g' free_blocks_def ub)
  have fin: "finite (free_blocks g)"
    by (simp add: g free_blocks_def clear_units_finite)
  have "blocks_ok g'"
    unfolding blocks_ok_def g' prod.case
    using fr dec_count[OF cnt(1) free fin] dec_count[OF cnt(2) free fin] sp len fc nb fb
    by (simp add: g' word_le_nat_alt)
  then show ?thesis
    using free low fr by (simp add: g g' block_units_def)
qed

lemma alloc_block_none:
  assumes ok: "blocks_ok g" and al: "alloc_block g = (None, g')"
  shows "free_blocks g = {} \<and> g' = g"
proof -
  obtain bm sb gd where g: "g = (bm, sb, gd)" by (cases g)
  let ?f = "unat (s_first_data_block sb)" and ?n = "unat (s_blocks_count sb) - unat (s_first_data_block sb)"
  have len: "length bm = BS" and nb: "?n \<le> 8 * BS" and fb: "?f + 8 * BS < 2 ^ 32"
    using ok by (auto simp: blocks_ok_def g)
  show ?thesis
  proof (cases "alloc_bit bm")
    case None
    then show ?thesis
      using alloc_bit_spec(1)[OF eq_imp_le[OF len] None] al wl_bits_block[OF len] nb
      by (auto simp: g alloc_block_def free_blocks_def clear_units_def)
  next
    case (Some p)
    obtain bt bm' where ab: "alloc_bit bm = Some (bt, bm')"
      using Some by (cases p) auto
    note sp = alloc_bit_spec(2)[OF eq_imp_le[OF len] ab]
    have bt: "unat bt < 8 * BS"
      using sp wl_bits_block[OF len] by simp
    have ub: "unat (s_first_data_block sb + bt) = ?f + unat bt"
      using fb bt by (intro unat_plus_exact) simp
    have ge: "s_blocks_count sb \<le> s_first_data_block sb + bt" and g': "g' = (snd (clear_bit bm' bt), sb, gd)"
      using al ab by (auto simp: g alloc_block_def Let_def split: if_splits)
    have "?n \<le> unat bt"
      using ge by (simp add: word_le_nat_alt ub)
    then have "free_blocks g = {}"
      using sp by (auto simp: g free_blocks_def clear_units_def)
    moreover have "snd (clear_bit bm' bt) = bm"
      using sp by (simp add: bit_ops wl.nbits_mark wl_clear_set)
    ultimately show ?thesis
      by (simp add: g g')
  qed
qed

lemma free_block_spec:
  assumes ok: "blocks_ok g" and b: "unat b \<in> block_units g" "unat b \<notin> free_blocks g"
  shows "blocks_ok (free_block b g) \<and> free_blocks (free_block b g) = insert (unat b) (free_blocks g)
    \<and> block_units (free_block b g) = block_units g"
proof -
  obtain bm sb gd where g: "g = (bm, sb, gd)" by (cases g)
  let ?f = "unat (s_first_data_block sb)" and ?n = "unat (s_blocks_count sb) - unat (s_first_data_block sb)"
  have len: "length bm = BS" and fc: "?f \<le> unat (s_blocks_count sb)" and nb: "?n \<le> 8 * BS" and fb: "?f + 8 * BS < 2 ^ 32"
    and cnt: "unat (bg_free_blocks_count gd) = card (free_blocks g)" "unat (s_free_blocks_count sb) = card (free_blocks g)"
    using ok by (auto simp: blocks_ok_def g word_le_nat_alt)
  have le: "s_first_data_block sb \<le> b" and btn: "unat b - ?f < ?n"
    using b(1) by (auto simp: g block_units_def word_le_nat_alt)
  let ?i = "unat b - ?f"
  have ui: "unat (b - s_first_data_block sb) = ?i"
    using le by (rule unat_minus_exact)
  have bits: "?i < wl_bits bm"
    using btn nb wl_bits_block[OF len] by simp
  have t: "wl_test bm ?i"
    using b(2) btn le by (auto simp: g free_blocks_def clear_units_def word_le_nat_alt)
  define g' where "g' = (wl_clear bm ?i, sb\<lparr>s_free_blocks_count := s_free_blocks_count sb + 1\<rparr>,
      gd\<lparr>bg_free_blocks_count := bg_free_blocks_count gd + 1\<rparr>)"
  have fb': "free_block b g = g'"
    using le bits t by (simp add: g g'_def free_block_def checked_sub_def bit_ops ui)
  have fr: "free_blocks g' = insert (unat b) (free_blocks g)"
    using clear_units_clear[OF bits btn, of ?f] le by (simp add: g g'_def free_blocks_def word_le_nat_alt)
  have fin: "finite (free_blocks g)"
    by (simp add: g free_blocks_def clear_units_finite)
  have c: "card (free_blocks g) \<le> 32768"
    using clear_units_card[of bm ?f ?n] nb by (simp add: g free_blocks_def BS_def)
  have "blocks_ok g'"
    unfolding blocks_ok_def g'_def prod.case
    using fr inc_count[OF cnt(1) b(2) fin] inc_count[OF cnt(2) b(2) fin] c len fc nb fb
    by (simp add: g'_def word_le_nat_alt)
  then show ?thesis
    unfolding fb' using fr by (simp add: g g'_def block_units_def)
qed


lemma alloc_inode_some:
  assumes ok: "inodes_ok g" and al: "alloc_inode g = (Some ino, g')"
  shows "unat ino \<in> free_inodes g \<and> (\<forall>x \<in> free_inodes g. unat ino \<le> x) \<and> inodes_ok g'
    \<and> free_inodes g' = free_inodes g - {unat ino} \<and> inode_units g' = inode_units g"
proof -
  obtain bm sb gd where g: "g = (bm, sb, gd)" by (cases g)
  let ?n = "unat (s_inodes_count sb)"
  have len: "length bm = BS" and nb: "?n \<le> 8 * BS"
    and cnt: "unat (bg_free_inodes_count gd) = card (free_inodes g)" "unat (s_free_inodes_count sb) = card (free_inodes g)"
    using ok by (auto simp: inodes_ok_def g)
  obtain bt bm' where ab: "alloc_bit bm = Some (bt, bm')"
    using al by (cases "alloc_bit bm") (auto simp: alloc_inode_def g)
  have nlt: "\<not> s_inodes_count sb < bt + 1"
    using al by (auto simp: alloc_inode_def g ab Let_def split: if_splits)
  then have ino: "ino = bt + 1"
    and g': "g' = (bm', sb\<lparr>s_free_inodes_count := saturating_sub (s_free_inodes_count sb) 1\<rparr>,
       gd\<lparr>bg_free_inodes_count := saturating_sub (bg_free_inodes_count gd) 1\<rparr>)"
    using al by (simp_all add: alloc_inode_def g ab Let_def)
  note sp = alloc_bit_spec(2)[OF eq_imp_le[OF len] ab]
  have "unat bt < 8 * BS"
    using sp wl_bits_block[OF len] by simp
  then have ub: "unat ino = 1 + unat bt"
    unfolding ino using unat_plus_exact[of bt 1] by (simp add: BS_def)
  have btn: "unat bt < ?n"
    using nlt ub by (simp add: ino word_less_nat_alt)
  have free: "unat ino \<in> free_inodes g"
    using sp btn by (auto simp: g free_inodes_def clear_units_def ub)
  have low: "unat ino \<le> x" if "x \<in> free_inodes g" for x
    using that sp by (auto simp: g free_inodes_def clear_units_def ub not_less[symmetric])
  have fr: "free_inodes g' = free_inodes g - {unat ino}"
    using sp clear_units_set[of "unat bt" bm 1 ?n] by (simp add: g g' free_inodes_def ub)
  have fin: "finite (free_inodes g)"
    by (simp add: g free_inodes_def clear_units_finite)
  have "inodes_ok g'"
    unfolding inodes_ok_def g' prod.case
    using fr dec_count[OF cnt(1) free fin] dec_count[OF cnt(2) free fin] sp len nb by (simp add: g')
  then show ?thesis
    using free low fr by (simp add: g g' inode_units_def)
qed

lemma alloc_inode_none:
  assumes ok: "inodes_ok g" and al: "alloc_inode g = (None, g')"
  shows "free_inodes g = {} \<and> g' = g"
proof -
  obtain bm sb gd where g: "g = (bm, sb, gd)" by (cases g)
  let ?n = "unat (s_inodes_count sb)"
  have len: "length bm = BS" and nb: "?n \<le> 8 * BS"
    using ok by (auto simp: inodes_ok_def g)
  show ?thesis
  proof (cases "alloc_bit bm")
    case None
    then show ?thesis
      using alloc_bit_spec(1)[OF eq_imp_le[OF len] None] al wl_bits_block[OF len] nb
      by (auto simp: g alloc_inode_def free_inodes_def clear_units_def)
  next
    case (Some p)
    obtain bt bm' where ab: "alloc_bit bm = Some (bt, bm')"
      using Some by (cases p) auto
    note sp = alloc_bit_spec(2)[OF eq_imp_le[OF len] ab]
    have bt: "unat bt < 8 * BS"
      using sp wl_bits_block[OF len] by simp
    then have ub: "unat (bt + 1) = 1 + unat bt"
      using unat_plus_exact[of bt 1] by (simp add: BS_def)
    have ge: "s_inodes_count sb < bt + 1" and g': "g' = (snd (clear_bit bm' bt), sb, gd)"
      using al ab by (auto simp: g alloc_inode_def Let_def split: if_splits)
    have "?n \<le> unat bt"
      using ge by (simp add: word_less_nat_alt ub)
    then have "free_inodes g = {}"
      using sp by (auto simp: g free_inodes_def clear_units_def)
    moreover have "snd (clear_bit bm' bt) = bm"
      using sp by (simp add: bit_ops wl.nbits_mark wl_clear_set)
    ultimately show ?thesis
      by (simp add: g g')
  qed
qed

lemma free_inode_spec:
  assumes ok: "inodes_ok g" and b: "unat ino \<in> inode_units g" "unat ino \<notin> free_inodes g"
  shows "inodes_ok (free_inode ino g) \<and> free_inodes (free_inode ino g) = insert (unat ino) (free_inodes g)
    \<and> inode_units (free_inode ino g) = inode_units g"
proof -
  obtain bm sb gd where g: "g = (bm, sb, gd)" by (cases g)
  let ?n = "unat (s_inodes_count sb)" and ?i = "unat ino - 1"
  have len: "length bm = BS" and nb: "?n \<le> 8 * BS"
    and cnt: "unat (bg_free_inodes_count gd) = card (free_inodes g)" "unat (s_free_inodes_count sb) = card (free_inodes g)"
    using ok by (auto simp: inodes_ok_def g)
  have pos: "1 \<le> unat ino" and btn: "?i < ?n"
    using b(1) by (auto simp: g inode_units_def)
  then have ui: "unat (ino - 1) = ?i"
    using unat_minus_exact[of 1 ino] by (simp add: word_le_nat_alt)
  have bits: "?i < wl_bits bm"
    using btn nb wl_bits_block[OF len] by simp
  have t: "wl_test bm ?i"
    using b(2) btn pos by (force simp: g free_inodes_def clear_units_def)
  define g' where "g' = (wl_clear bm ?i, sb\<lparr>s_free_inodes_count := s_free_inodes_count sb + 1\<rparr>,
      gd\<lparr>bg_free_inodes_count := bg_free_inodes_count gd + 1\<rparr>)"
  have fb': "free_inode ino g = g'"
    using pos bits t by (auto simp: g g'_def free_inode_def bit_ops ui)
  have fr: "free_inodes g' = insert (unat ino) (free_inodes g)"
    using clear_units_clear[OF bits btn, of 1] pos by (simp add: g g'_def free_inodes_def)
  have fin: "finite (free_inodes g)"
    by (simp add: g free_inodes_def clear_units_finite)
  have c: "card (free_inodes g) \<le> 32768"
    using clear_units_card[of bm 1 ?n] nb by (simp add: g free_inodes_def BS_def)
  have "inodes_ok g'"
    unfolding inodes_ok_def g'_def prod.case
    using fr inc_count[OF cnt(1) b(2) fin] inc_count[OF cnt(2) b(2) fin] c len nb
    by (simp add: g'_def)
  then show ?thesis
    unfolding fb' using fr by (simp add: g g'_def inode_units_def)
qed

subsection \<open>The allocator contract\<close>

definition take_block :: "group \<Rightarrow> nat set \<Rightarrow> group \<Rightarrow> bool" where
  "take_block g A g' \<longleftrightarrow> (\<exists>b. alloc_block g = (Some b, g') \<and> A = {unat b})"

definition give_block :: "group \<Rightarrow> nat set \<Rightarrow> group \<Rightarrow> bool" where
  "give_block g A g' \<longleftrightarrow> (\<exists>b. A = {unat b} \<and> g' = free_block b g)"

definition take_inode :: "group \<Rightarrow> nat set \<Rightarrow> group \<Rightarrow> bool" where
  "take_inode g A g' \<longleftrightarrow> (\<exists>ino. alloc_inode g = (Some ino, g') \<and> A = {unat ino})"

definition give_inode :: "group \<Rightarrow> nat set \<Rightarrow> group \<Rightarrow> bool" where
  "give_inode g A g' \<longleftrightarrow> (\<exists>ino. A = {unat ino} \<and> g' = free_inode ino g)"

interpretation ext2_blocks: allocator blocks_ok free_blocks block_units take_block give_block
proof
  show "free_blocks s \<subseteq> block_units s" if "blocks_ok s" for s
    by (auto simp: free_blocks_def block_units_def clear_units_def)
  show "blocks_ok s' \<and> A \<subseteq> free_blocks s \<and> free_blocks s' = free_blocks s - A \<and> block_units s' = block_units s"
    if "blocks_ok s" "take_block s A s'" for s A s'
    using that unfolding take_block_def by (blast dest: alloc_block_some)
  show "blocks_ok s' \<and> free_blocks s' = free_blocks s \<union> A \<and> block_units s' = block_units s"
    if "blocks_ok s" "A \<subseteq> block_units s" "A \<inter> free_blocks s = {}" "give_block s A s'" for s A s'
    using that unfolding give_block_def by (elim exE) (simp add: free_block_spec)
qed

interpretation ext2_inodes: allocator inodes_ok free_inodes inode_units take_inode give_inode
proof
  show "free_inodes s \<subseteq> inode_units s" if "inodes_ok s" for s
    by (auto simp: free_inodes_def inode_units_def clear_units_def)
  show "inodes_ok s' \<and> A \<subseteq> free_inodes s \<and> free_inodes s' = free_inodes s - A \<and> inode_units s' = inode_units s"
    if "inodes_ok s" "take_inode s A s'" for s A s'
    using that unfolding take_inode_def by (blast dest: alloc_inode_some)
  show "inodes_ok s' \<and> free_inodes s' = free_inodes s \<union> A \<and> inode_units s' = inode_units s"
    if "inodes_ok s" "A \<subseteq> inode_units s" "A \<inter> free_inodes s = {}" "give_inode s A s'" for s A s'
    using that unfolding give_inode_def by (elim exE) (simp add: free_inode_spec)
qed


lemma unat_of_nat_small: "n < 2 ^ LENGTH('a) \<Longrightarrow> unat (of_nat n :: 'a::len word) = n"
  by (simp add: unat_of_nat)

lemma count_set_bits_eq:
  "unat (count_set_bits bm span) = card {i. i < unat span \<and> wl_test bm i}"
proof -
  have "fold (\<lambda>idx count. if test_bit bm (of_nat idx) then count + 1 else count) [0..<n] 0
      = (of_nat (card {i. i < n \<and> wl_test bm i}) :: u32)" if "n \<le> unat span" for n
    using that
  proof (induction n)
    case (Suc n)
    have u: "unat (of_nat n :: u32) = n"
      using Suc.prems unat_bound[of span] by (simp add: unat_of_nat_small)
    have "{i. i < Suc n \<and> wl_test bm i} = (if wl_test bm n then insert n {i. i < n \<and> wl_test bm i} else {i. i < n \<and> wl_test bm i})"
      by (auto simp: less_Suc_eq)
    then show ?case
      using Suc by (simp add: bit_ops u)
  qed simp
  moreover have "card {i. i < unat span \<and> wl_test bm i} \<le> unat span"
    using card_mono[of "{..<unat span}" "{i. i < unat span \<and> wl_test bm i}"] by auto
  ultimately show ?thesis
    using unat_bound[of span] by (simp add: count_set_bits_def unat_of_nat_small)
qed

subsection \<open>Properties\<close>

definition demo_group :: group where
  "demo_group = (0x07 # replicate 4095 0,
     (dec_super_block (replicate 1024 0))\<lparr>s_blocks_count := 5, s_inodes_count := 5,
        s_free_blocks_count := 2, s_free_inodes_count := 2\<rparr>,
     (dec_group_desc (replicate 32 0))\<lparr>bg_free_blocks_count := 2, bg_free_inodes_count := 2\<rparr>)"

lemma demo_group_test: "{i. i < 5 \<and> \<not> wl_test (0x07 # replicate 4095 (0 :: u8)) i} = {3, 4}"
proof -
  have b: "bit (0x07 :: u8) i \<longleftrightarrow> i < 3" if "i < 5" for i
    using that bit_mask_iff[of 3 i, where ?'a = u8] by (simp add: mask_eq_exp_minus_1 min_def)
  have "wl_test (0x07 # replicate 4095 (0 :: u8)) i \<longleftrightarrow> i < 3" if "i < 5" for i
    using that b[of i] by (simp add: wl_test_iff)
  then have "{i. i < 5 \<and> \<not> wl_test (0x07 # replicate 4095 (0 :: u8)) i} = {i. i < 5 \<and> \<not> i < 3}"
    by (intro Collect_cong conj_cong) simp_all
  also have "\<dots> = {3, 4}"
    by auto
  finally show ?thesis .
qed

lemma demo_group_units: "clear_units (0x07 # replicate 4095 0) base 5 = {base + 3, base + 4}"
proof -
  have "clear_units (0x07 # replicate 4095 0) base 5
      = (\<lambda>i. base + i) ` {i. i < 5 \<and> \<not> wl_test (0x07 # replicate 4095 (0 :: u8)) i}"
    unfolding clear_units_def by blast
  then show ?thesis
    unfolding demo_group_test by simp
qed

lemma demo_group_ok: "blocks_ok demo_group" "inodes_ok demo_group"
  "free_blocks demo_group = {3, 4}" "free_inodes demo_group = {4, 5}"
proof -
  have f0: "s_first_data_block (dec_super_block (replicate 1024 0)) = 0"
    by (simp add: dec_super_block_def read_u32_def read_u16_def sub_bytes_replicate)
  show fb: "free_blocks demo_group = {3, 4}"
    using demo_group_units[of 0] by (simp add: demo_group_def free_blocks_def f0)
  show fi: "free_inodes demo_group = {4, 5}"
    using demo_group_units[of 1] by (simp add: demo_group_def free_inodes_def)
  show "blocks_ok demo_group" "inodes_ok demo_group"
    using fb fi by (simp_all add: blocks_ok_def inodes_ok_def demo_group_def BS_def f0)
qed

text \<open>
  C21: block allocation in a consistent group.  When a block is free, \<^verbatim>\<open>alloc_block\<close> returns the
  lowest free block, which lies inside the declared region, removes exactly that block from the
  free set and leaves both free counters equal to the number of clear bits.  When no block is
  free it returns none and leaves bitmap, superblock and group descriptor as they were, also
  when the bitmap has clear bits past the end of the region.
\<close>
theorem ext2_alloc_block_lowest:
  assumes "blocks_ok g"
  shows "if free_blocks g = {} then alloc_block g = (None, g)
    else \<exists>b g'. alloc_block g = (Some b, g') \<and> unat b = Min (free_blocks g) \<and> unat b \<in> block_units g
      \<and> free_blocks g' = free_blocks g - {Min (free_blocks g)} \<and> blocks_ok g'"
proof -
  obtain r g' where Pair: "alloc_block g = (r, g')" by (cases "alloc_block g")
  have fin: "finite (free_blocks g)"
    by (cases g) (simp add: free_blocks_def clear_units_finite)
  show ?thesis
  proof (cases r)
    case None
    then show ?thesis
      using alloc_block_none[OF assms, of g'] Pair by simp
  next
    case (Some b)
    have sp: "unat b \<in> free_blocks g" "\<forall>x \<in> free_blocks g. unat b \<le> x" "blocks_ok g'"
      "free_blocks g' = free_blocks g - {unat b}"
      using alloc_block_some[OF assms] Pair Some by auto
    have "Min (free_blocks g) = unat b"
      using sp(1,2) fin by (intro Min_eqI) auto
    then show ?thesis
      using sp Pair Some ext2_blocks.avail_managed[OF assms] by auto
  qed
qed

theorem ext2_alloc_block_lowest_witness:
  "\<exists>b g'. alloc_block demo_group = (Some b, g') \<and> unat b = 3 \<and> free_blocks g' = {4}"
  using ext2_alloc_block_lowest[OF demo_group_ok(1)] by (auto simp: demo_group_ok)

text \<open>
  C18: an inode number is never handed out twice.  Start from a consistent group and run any
  sequence of inode allocations and releases of numbers still held.  The next allocation then
  returns a number between one and \<^verbatim>\<open>s_inodes_count\<close> that no holder has, and the free counters
  of the superblock and of the group descriptor both equal the free count at the start less the
  numbers held.
\<close>
theorem ext2_inode_never_shared:
  assumes "inodes_ok g0" "live take_inode give_inode g0 g L"
  shows "(\<forall>ino g'. alloc_inode g = (Some ino, g') \<longrightarrow> unat ino \<notin> L \<and> unat ino \<in> inode_units g0)
    \<and> unat (s_free_inodes_count (fst (snd g))) + card L = card (free_inodes g0)
    \<and> unat (bg_free_inodes_count (snd (snd g))) + card L = card (free_inodes g0)"
proof -
  note li = ext2_inodes.live_inv[OF assms(2,1)]
  have fin: "finite (free_inodes h)" for h
    by (cases h) (simp add: free_inodes_def clear_units_finite)
  have "finite L"
    using li fin[of g0] by (metis finite_Un)
  then have "card L + card (free_inodes g) = card (free_inodes g0)"
    using li fin card_Un_disjoint[of L "free_inodes g"] by simp
  moreover have "unat ino \<notin> L \<and> unat ino \<in> inode_units g0" if a: "alloc_inode g = (Some ino, g')" for ino g'
  proof -
    have "take_inode g {unat ino} g'"
      using a by (simp add: take_inode_def)
    from ext2_inodes.live_take_fresh[OF assms(2,1) this] show ?thesis
      using alloc_inode_some[of g ino g'] a li ext2_inodes.avail_managed[of g] by auto
  qed
  ultimately show ?thesis
    using li by (cases g) (auto simp: inodes_ok_def)
qed

theorem ext2_inode_never_shared_witness:
  "\<exists>g. live take_inode give_inode demo_group g {4} \<and> unat (s_free_inodes_count (fst (snd g))) = 1"
proof -
  obtain r g where a: "alloc_inode demo_group = (r, g)" by (cases "alloc_inode demo_group")
  have "r \<noteq> None"
    using alloc_inode_none[OF demo_group_ok(2)] a demo_group_ok(4) by auto
  then obtain ino where r: "r = Some ino" by auto
  have "unat ino = 4"
    using alloc_inode_some[OF demo_group_ok(2) a[unfolded r]] demo_group_ok(4) by auto
  then have l: "live take_inode give_inode demo_group g {4}"
    using live_take[OF live_start, of take_inode demo_group "{4}" g] a r by (auto simp: take_inode_def)
  show ?thesis
    using ext2_inode_never_shared[OF demo_group_ok(2) l] l demo_group_ok(4) by (intro exI[of _ g]) simp
qed

end
