(* ===== verification/Utf8.thy ===== *)
theory Utf8
  imports PaghPrelude
begin

section \<open>UTF-8\<close>

text \<open>
  A Rust \<^verbatim>\<open>str\<close> is a byte sequence that is valid UTF-8.  The sources turn untrusted bytes
  into strings with \<^verbatim>\<open>String::from_utf8_lossy\<close>, which replaces each maximal ill-formed
  prefix by U+FFFD.  \<open>utf8_step\<close> is the decision of the standard library's decoder at one
  lead byte: whether a well-formed sequence starts there, and how many bytes after the lead byte
  belong to the sequence or to the ill-formed part.
\<close>

definition safe_get :: "bytes \<Rightarrow> nat \<Rightarrow> u8" where
  "safe_get bs i = (if i < length bs then bs ! i else 0)"

definition is_cont :: "u8 \<Rightarrow> bool" where
  "is_cont b \<longleftrightarrow> b AND 192 = 128"

definition utf8_char_width :: "u8 \<Rightarrow> nat" where
  "utf8_char_width b =
     (if b < 0x80 then 1 else if b < 0xC2 then 0 else if b < 0xE0 then 2
      else if b < 0xF0 then 3 else if b < 0xF5 then 4 else 0)"

definition second3 :: "u8 \<Rightarrow> u8 \<Rightarrow> bool" where
  "second3 b c \<longleftrightarrow>
     (if b = 0xE0 then 0xA0 \<le> c \<and> c \<le> 0xBF
      else if b = 0xED then 0x80 \<le> c \<and> c \<le> 0x9F
      else 0x80 \<le> c \<and> c \<le> 0xBF)"

definition second4 :: "u8 \<Rightarrow> u8 \<Rightarrow> bool" where
  "second4 b c \<longleftrightarrow>
     (if b = 0xF0 then 0x90 \<le> c \<and> c \<le> 0xBF
      else if b = 0xF4 then 0x80 \<le> c \<and> c \<le> 0x8F
      else 0x80 \<le> c \<and> c \<le> 0xBF)"

definition utf8_step :: "u8 \<Rightarrow> bytes \<Rightarrow> bool \<times> nat" where
  "utf8_step b bs =
     (let w = utf8_char_width b
      in if w = 1 then (True, 0)
         else if w = 2 then (if is_cont (safe_get bs 0) then (True, 1) else (False, 0))
         else if w = 3 then
           (if \<not> second3 b (safe_get bs 0) then (False, 0)
            else if \<not> is_cont (safe_get bs 1) then (False, 1) else (True, 2))
         else if w = 4 then
           (if \<not> second4 b (safe_get bs 0) then (False, 0)
            else if \<not> is_cont (safe_get bs 1) then (False, 1)
            else if \<not> is_cont (safe_get bs 2) then (False, 2) else (True, 3))
         else (False, 0))"

function utf8_lossy :: "bytes \<Rightarrow> bytes" where
  "utf8_lossy [] = []"
| "utf8_lossy (b # bs) =
     (case utf8_step b bs of (ok, k) \<Rightarrow>
        (if ok then b # take k bs else [0xEF, 0xBF, 0xBD]) @ utf8_lossy (drop k bs))"
  by pat_completeness auto
termination by (relation "measure length") auto

function valid_utf8 :: "bytes \<Rightarrow> bool" where
  "valid_utf8 [] = True"
| "valid_utf8 (b # bs) = (case utf8_step b bs of (ok, k) \<Rightarrow> ok \<and> valid_utf8 (drop k bs))"
  by pat_completeness auto
termination by (relation "measure length") auto

lemma utf8_lossy_valid: "valid_utf8 bs \<Longrightarrow> utf8_lossy bs = bs"
  by (induction bs rule: utf8_lossy.induct) (auto split: prod.splits)

lemma utf8_step_ascii: "b < 0x80 \<Longrightarrow> utf8_step b bs = (True, 0)"
  by (simp add: utf8_step_def utf8_char_width_def)

lemma valid_utf8_ascii: "\<forall>b \<in> set bs. b < 0x80 \<Longrightarrow> valid_utf8 bs"
  by (induction bs) (simp_all add: utf8_step_ascii)

text \<open>A sequence accepted at a lead byte stays accepted whatever follows it.\<close>

lemma is_cont_0 [simp]: "\<not> is_cont 0" and second_0 [simp]: "\<not> second3 b 0" "\<not> second4 b 0"
  by (simp_all add: is_cont_def second3_def second4_def word_le_nat_alt)

lemma utf8_step_bound: "utf8_step b bs = (ok, k) \<Longrightarrow> k \<le> length bs"
  by (auto simp: utf8_step_def Let_def safe_get_def Suc_le_eq less_Suc_eq_le not_less split: if_splits intro: le_antisym)

lemma safe_get_append: "safe_get bs i \<noteq> 0 \<Longrightarrow> safe_get (bs @ cs) i = safe_get bs i"
  by (auto simp: safe_get_def nth_append split: if_splits)

lemma follow_append:
  "is_cont (safe_get bs i) \<Longrightarrow> is_cont (safe_get (bs @ cs) i)"
  "second3 b (safe_get bs i) \<Longrightarrow> second3 b (safe_get (bs @ cs) i)"
  "second4 b (safe_get bs i) \<Longrightarrow> second4 b (safe_get (bs @ cs) i)"
  by (metis safe_get_append is_cont_0, metis safe_get_append second_0(1), metis safe_get_append second_0(2))

lemma utf8_step_append: "utf8_step b bs = (True, k) \<Longrightarrow> utf8_step b (bs @ cs) = (True, k)"
  unfolding utf8_step_def Let_def by (simp add: follow_append split: if_splits)

lemma valid_utf8_append: "valid_utf8 xs \<Longrightarrow> valid_utf8 ys \<Longrightarrow> valid_utf8 (xs @ ys)"
proof (induction xs rule: valid_utf8.induct)
  case (2 b bs)
  obtain k where s: "utf8_step b bs = (True, k)" and v: "valid_utf8 (drop k bs)"
    using "2.prems"(1) by (auto split: prod.splits)
  then show ?case
    using "2.IH"[OF s[symmetric] v "2.prems"(2)] utf8_step_append[OF s] utf8_step_bound[OF s] by simp
qed simp

lemma safe_get_take: "i < k \<Longrightarrow> safe_get (take k bs) i = safe_get bs i"
  by (simp add: safe_get_def)

lemma valid_utf8_lossy: "valid_utf8 (utf8_lossy bs)"
proof (induction bs rule: utf8_lossy.induct)
  case (2 b bs)
  obtain ok k where s: "utf8_step b bs = (ok, k)" by (cases "utf8_step b bs")
  have r: "valid_utf8 [0xEF, 0xBF, 0xBD]"
    by (simp add: utf8_step_def utf8_char_width_def safe_get_def second3_def is_cont_def word_less_nat_alt word_le_nat_alt)
  have t: "utf8_step b (take k bs) = (True, k)" if "ok"
    using s that unfolding utf8_step_def Let_def by (simp add: safe_get_take split: if_splits)
  have "valid_utf8 (b # take k bs)" if "ok"
    using t[OF that] by simp
  then show ?case
    using "2.IH"[OF s[symmetric]] r s by (auto intro: valid_utf8_append simp del: append_Cons valid_utf8.simps(2))
qed simp

end
