(* ===== verification/Ext2Dir.thy ===== *)
theory Ext2Dir
  imports Utf8 BlockDev Ext2Structs
begin

section \<open>ext2 directory blocks\<close>

text \<open>
  The directory entries of \<^verbatim>\<open>fs/ext2/dir.rs\<close>: the walk over the records of one block,
  lookup, insertion by splitting the slack of a record, and removal by merging a record into
  its predecessor.  A well-formed block is shown to denote a map from names to inode numbers,
  and the operations to denote lookup, update and deletion on that map.  Names are the UTF-8
  bytes of the Rust strings.
\<close>

subsection \<open>Entries\<close>

definition min_rec_len :: "nat \<Rightarrow> nat" where
  "min_rec_len name_len = align4 (8 + name_len)"

record dir_entry =
  e_pos :: nat
  e_inode :: u32
  e_rec_len :: u16
  e_name_len :: u8
  e_name :: bytes

definition read_header :: "bytes \<Rightarrow> nat \<Rightarrow> ext2_dir_entry_header" where
  "read_header block pos = dec_dir_header (sub_bytes block pos 8)"

definition write_header :: "bytes \<Rightarrow> nat \<Rightarrow> u32 \<Rightarrow> u16 \<Rightarrow> u8 \<Rightarrow> bytes" where
  "write_header block pos inode rec_len name_len =
     put_bytes block pos
       (enc_dir_header \<lparr>de_inode = inode, de_rec_len = rec_len, de_name_len = name_len, de_file_type = 0\<rparr>)"

function iter_from :: "bytes \<Rightarrow> nat \<Rightarrow> fs_error + dir_entry list" where
  "iter_from block pos =
     (if pos < BS then
        if pos + 8 > BS then Inl Corrupt
        else
          let h = read_header block pos; rec_len = unat (de_rec_len h); nl = unat (de_name_len h)
          in if rec_len < 8 \<or> rec_len mod 4 \<noteq> 0 \<or> pos + rec_len > BS then Inl Corrupt
             else if de_inode h \<noteq> 0 \<and> 8 + nl > rec_len then Inl Corrupt
             else
               let name = (if de_inode h \<noteq> 0 then utf8_lossy (sub_bytes block (pos + 8) nl) else [])
               in (case iter_from block (pos + rec_len) of
                     Inl e \<Rightarrow> Inl e
                   | Inr out \<Rightarrow> Inr (\<lparr>e_pos = pos, e_inode = de_inode h, e_rec_len = de_rec_len h,
                                    e_name_len = de_name_len h, e_name = name\<rparr> # out))
      else if pos \<noteq> BS then Inl Corrupt
      else Inr [])"
  by pat_completeness auto
termination by (relation "measure (\<lambda>(block, pos). BS - pos)") auto

declare iter_from.simps [simp del]

definition iter_entries :: "bytes \<Rightarrow> fs_error + dir_entry list" where
  "iter_entries block = iter_from block 0"

definition dir_find :: "bytes \<Rightarrow> bytes \<Rightarrow> fs_error + (u32 \<times> u8) option" where
  "dir_find block name =
     (case iter_entries block of
        Inl e \<Rightarrow> Inl e
      | Inr es \<Rightarrow> Inr (map_option (\<lambda>e. (e_inode e, 0)) (find (\<lambda>e. e_inode e \<noteq> 0 \<and> e_name e = name) es)))"

definition init_empty_block :: "bytes \<Rightarrow> bytes" where
  "init_empty_block block = write_header (map (\<lambda>b. 0) block) 0 0 (of_nat BS) 0"

definition init_dot_entries :: "bytes \<Rightarrow> u32 \<Rightarrow> u32 \<Rightarrow> bytes" where
  "init_dot_entries block self_ino parent_ino =
     (let block = map (\<lambda>b. 0) block;
          dot_rec = of_nat (min_rec_len 1) :: u16;
          block = write_header block 0 self_ino dot_rec 1;
          block = block[8 := 0x2E];
          ddot_pos = unat dot_rec;
          ddot_rec = of_nat (BS - ddot_pos) :: u16;
          block = write_header block ddot_pos parent_ino ddot_rec 2;
          block = block[ddot_pos + 8 := 0x2E]
      in block[ddot_pos + 9 := 0x2E])"

definition entry_ideal :: "dir_entry \<Rightarrow> nat" where
  "entry_ideal e = (if e_inode e = 0 then 0 else min_rec_len (unat (e_name_len e)))"

definition split_record :: "bytes \<Rightarrow> dir_entry \<Rightarrow> bytes \<Rightarrow> u32 \<Rightarrow> bytes" where
  "split_record block e name ino =
     (let ideal = entry_ideal e;
          new_pos = e_pos e + ideal;
          new_rec_len = of_nat (unat (e_rec_len e) - ideal) :: u16;
          block = write_header block new_pos ino new_rec_len (of_nat (length name));
          block = put_bytes block (new_pos + 8) name
      in if e_inode e \<noteq> 0
         then let cur = read_header block (e_pos e)
              in write_header block (e_pos e) (de_inode cur) (of_nat ideal) (de_name_len cur)
         else block)"

fun insert_loop :: "bytes \<Rightarrow> bytes \<Rightarrow> u32 \<Rightarrow> nat \<Rightarrow> dir_entry list \<Rightarrow> bool \<times> bytes" where
  "insert_loop block name ino needed [] = (False, block)"
| "insert_loop block name ino needed (e # entries) =
     (let slack = unat (e_rec_len e) - entry_ideal e
      in if needed \<le> slack then (True, split_record block e name ino)
         else insert_loop block name ino needed entries)"

definition insert_into_block :: "bytes \<Rightarrow> bytes \<Rightarrow> u32 \<Rightarrow> (fs_error + bool) \<times> bytes" where
  "insert_into_block block name ino =
     (if length name > 255 then (Inl NameTooLong, block)
      else if name = [] then (Inl Corrupt, block)
      else case iter_entries block of
             Inl e \<Rightarrow> (Inl e, block)
           | Inr entries \<Rightarrow>
               (case insert_loop block name ino (min_rec_len (length name)) entries of
                  (ok, block') \<Rightarrow> (Inr ok, block')))"

definition unlink_record :: "bytes \<Rightarrow> nat option \<Rightarrow> dir_entry \<Rightarrow> bytes" where
  "unlink_record block prev_pos e =
     (case prev_pos of
        Some pp \<Rightarrow>
          let prev = read_header block pp; merged = de_rec_len prev + e_rec_len e
          in write_header block pp (de_inode prev) merged (de_name_len prev)
      | None \<Rightarrow> write_header block (e_pos e) 0 (e_rec_len e) 0)"

fun remove_loop :: "bytes \<Rightarrow> bytes \<Rightarrow> nat option \<Rightarrow> dir_entry list \<Rightarrow> u32 option \<times> bytes" where
  "remove_loop block name prev_pos [] = (None, block)"
| "remove_loop block name prev_pos (e # entries) =
     (if e_inode e \<noteq> 0 \<and> e_name e = name then (Some (e_inode e), unlink_record block prev_pos e)
      else remove_loop block name (Some (e_pos e)) entries)"

definition remove_from_block :: "bytes \<Rightarrow> bytes \<Rightarrow> (fs_error + u32 option) \<times> bytes" where
  "remove_from_block block name =
     (case iter_entries block of
        Inl e \<Rightarrow> (Inl e, block)
      | Inr entries \<Rightarrow> (case remove_loop block name None entries of (r, block') \<Rightarrow> (Inr r, block')))"

definition live_entry_count :: "bytes \<Rightarrow> fs_error + nat" where
  "live_entry_count block =
     (case iter_entries block of
        Inl e \<Rightarrow> Inl e
      | Inr es \<Rightarrow> Inr (length (filter (\<lambda>e. e_inode e \<noteq> 0 \<and> e_name e \<noteq> [0x2E] \<and> e_name e \<noteq> [0x2E, 0x2E]) es)))"

subsection \<open>The record chain\<close>

text \<open>
  \<open>entry_at\<close> decodes the record at a position and \<open>entry_ok\<close> are the conditions under which the
  walk accepts it; \<open>chain block p es q\<close> says that the records \<open>es\<close> tile the bytes from \<open>p\<close> to \<open>q\<close>.
\<close>

definition entry_at :: "bytes \<Rightarrow> nat \<Rightarrow> dir_entry" where
  "entry_at block pos =
     (let h = read_header block pos
      in \<lparr>e_pos = pos, e_inode = de_inode h, e_rec_len = de_rec_len h, e_name_len = de_name_len h,
          e_name = if de_inode h \<noteq> 0 then utf8_lossy (sub_bytes block (pos + 8) (unat (de_name_len h))) else []\<rparr>)"

definition entry_ok :: "nat \<Rightarrow> dir_entry \<Rightarrow> bool" where
  "entry_ok pos e \<longleftrightarrow> 8 \<le> unat (e_rec_len e) \<and> unat (e_rec_len e) mod 4 = 0 \<and> pos + unat (e_rec_len e) \<le> BS
     \<and> (e_inode e \<noteq> 0 \<longrightarrow> 8 + unat (e_name_len e) \<le> unat (e_rec_len e))"

fun chain :: "bytes \<Rightarrow> nat \<Rightarrow> dir_entry list \<Rightarrow> nat \<Rightarrow> bool" where
  "chain block pos [] q \<longleftrightarrow> pos = q"
| "chain block pos (e # es) q \<longleftrightarrow>
     e = entry_at block pos \<and> entry_ok pos e \<and> chain block (pos + unat (e_rec_len e)) es q"

lemma iter_from_chain: "iter_from block pos = Inr es \<longleftrightarrow> chain block pos es BS"
proof (induction block pos arbitrary: es rule: iter_from.induct)
  case (1 block pos)
  let ?e = "entry_at block pos"
  have step: "iter_from block pos = Inr es \<longleftrightarrow>
      (if pos < BS then entry_ok pos ?e \<and> (\<exists>es'. es = ?e # es' \<and> iter_from block (pos + unat (e_rec_len ?e)) = Inr es')
       else pos = BS \<and> es = [])"
    by (subst iter_from.simps) (auto simp: entry_ok_def entry_at_def Let_def split: sum.splits)
  show ?case
  proof (cases "pos < BS \<and> entry_ok pos ?e")
    case True
    then have IH: "iter_from block (pos + unat (e_rec_len ?e)) = Inr es' \<longleftrightarrow> chain block (pos + unat (e_rec_len ?e)) es' BS" for es'
      using "1.IH"[of "read_header block pos" "unat (e_rec_len ?e)" "unat (e_name_len ?e)"]
      by (auto simp: entry_ok_def entry_at_def Let_def)
    show ?thesis
      using True unfolding step IH by (cases es) auto
  next
    case False
    then show ?thesis
      unfolding step by (cases es) (auto simp: entry_ok_def)
  qed
qed

lemma iter_entries_chain: "iter_entries block = Inr es \<longleftrightarrow> chain block 0 es BS"
  by (simp add: iter_entries_def iter_from_chain)

lemma chain_append: "chain block p (xs @ ys) q \<longleftrightarrow> (\<exists>r. chain block p xs r \<and> chain block r ys q)"
  by (induction xs arbitrary: p) auto


lemma chain_le: "chain block p es q \<Longrightarrow> p \<le> q"
  by (induction es arbitrary: p) (fastforce dest: add_leD1)+

lemma chain_bound: "chain block p es q \<Longrightarrow> p \<le> BS \<Longrightarrow> q \<le> BS"
  by (induction es arbitrary: p) (auto simp: entry_ok_def)

text \<open>Two blocks that agree on a range of bytes have the same records there.\<close>

definition agree :: "nat \<Rightarrow> nat \<Rightarrow> bytes \<Rightarrow> bytes \<Rightarrow> bool" where
  "agree p q b b' \<longleftrightarrow> length b = BS \<and> length b' = BS \<and> (\<forall>i. p \<le> i \<and> i < q \<longrightarrow> b ! i = b' ! i)"

lemma agree_sub: "agree p q b b' \<Longrightarrow> p \<le> o' \<Longrightarrow> o' + n \<le> q \<Longrightarrow> sub_bytes b o' n = sub_bytes b' o' n"
  by (rule nth_equalityI) (auto simp: agree_def buf_simps nth_sub_bytes)

lemma agree_mono: "agree p q b b' \<Longrightarrow> p \<le> p' \<Longrightarrow> q' \<le> q \<Longrightarrow> agree p' q' b b'"
  by (auto simp: agree_def)

lemma agree_entry:
  assumes "agree p q b b'" "entry_ok p (entry_at b p)" "p + unat (e_rec_len (entry_at b p)) \<le> q"
  shows "entry_at b' p = entry_at b p"
proof -
  have "read_header b' p = read_header b p"
    using agree_sub[OF assms(1), of p 8] assms(2,3) by (simp add: read_header_def entry_ok_def)
  moreover have "de_inode (read_header b p) \<noteq> 0 \<Longrightarrow>
      sub_bytes b' (p + 8) (unat (de_name_len (read_header b p))) = sub_bytes b (p + 8) (unat (de_name_len (read_header b p)))"
    using agree_sub[OF assms(1), of "p + 8"] assms(2,3) by (simp add: entry_ok_def entry_at_def Let_def)
  ultimately show ?thesis
    by (auto simp: entry_at_def Let_def)
qed

lemma agree_chain: "chain b p es q \<Longrightarrow> agree p q b b' \<Longrightarrow> chain b' p es q"
proof (induction es arbitrary: p)
  case (Cons e es)
  let ?r = "p + unat (e_rec_len e)"
  have e: "e = entry_at b p" "entry_ok p e" and c: "chain b ?r es q"
    using Cons.prems(1) by auto
  have "entry_at b' p = entry_at b p"
    using agree_entry[OF Cons.prems(2)] e chain_le[OF c] by simp
  moreover have "chain b' ?r es q"
    using Cons.IH[OF c] agree_mono[OF Cons.prems(2)] by simp
  ultimately show ?case
    using e by simp
qed simp

lemma length_write_header [buf_simps]: "pos + 8 \<le> length b \<Longrightarrow> length (write_header b pos i r n) = length b"
  by (simp add: write_header_def buf_simps)

lemma read_write_header [buf_simps]:
  "pos + 8 \<le> length b \<Longrightarrow> read_header (write_header b pos i r n) pos =
     \<lparr>de_inode = i, de_rec_len = r, de_name_len = n, de_file_type = 0\<rparr>"
  using dec_enc_dir_header[where rest = "[]"] by (simp add: read_header_def write_header_def buf_simps)

lemma sub_write_header [buf_simps]:
  "pos + 8 \<le> length b \<Longrightarrow> o' + n \<le> pos \<or> pos + 8 \<le> o' \<Longrightarrow>
   sub_bytes (write_header b pos i r m) o' n = sub_bytes b o' n"
  by (simp add: write_header_def buf_simps)

lemma agree_put: "length b = BS \<Longrightarrow> off + length bs \<le> BS \<Longrightarrow> q \<le> BS \<Longrightarrow> q \<le> off \<or> off + length bs \<le> p \<Longrightarrow> agree p q b (put_bytes b off bs)"
  by (auto simp: agree_def buf_simps nth_put_bytes)

lemma agree_trans: "agree p q b b' \<Longrightarrow> agree p q b' b'' \<Longrightarrow> agree p q b b''"
  by (auto simp: agree_def)

lemma agree_write: "length b = BS \<Longrightarrow> off + 8 \<le> BS \<Longrightarrow> q \<le> BS \<Longrightarrow> q \<le> off \<or> off + 8 \<le> p \<Longrightarrow> agree p q b (write_header b off i r n)"
  by (auto simp: write_header_def intro: agree_put)

lemma align4_bounds: "n \<le> align4 n" "align4 n mod 4 = 0" "m mod 4 = 0 \<Longrightarrow> n \<le> m \<Longrightarrow> align4 n \<le> m"
  by (auto simp: align4_def)

lemma ideal_bounds:
  assumes "entry_ok p e"
  shows "entry_ideal e \<le> unat (e_rec_len e)" "entry_ideal e mod 4 = 0"
    "e_inode e \<noteq> 0 \<Longrightarrow> 8 + unat (e_name_len e) \<le> entry_ideal e"
  using assms align4_bounds(1)[of "8 + unat (e_name_len e)"] align4_bounds(2)
    align4_bounds(3)[of "unat (e_rec_len e)" "8 + unat (e_name_len e)"]
  by (auto simp: entry_ideal_def min_rec_len_def entry_ok_def)


definition new_entry :: "dir_entry \<Rightarrow> bytes \<Rightarrow> u32 \<Rightarrow> dir_entry" where
  "new_entry e name ino =
     \<lparr>e_pos = e_pos e + entry_ideal e, e_inode = ino, e_rec_len = of_nat (unat (e_rec_len e) - entry_ideal e),
      e_name_len = of_nat (length name), e_name = name\<rparr>"

definition split_entries :: "dir_entry \<Rightarrow> bytes \<Rightarrow> u32 \<Rightarrow> dir_entry list" where
  "split_entries e name ino =
     (if e_inode e = 0 then [new_entry e name ino]
      else [e\<lparr>e_rec_len := of_nat (entry_ideal e)\<rparr>, new_entry e name ino])"

lemma unat_of_nat_block: "n \<le> BS \<Longrightarrow> unat (of_nat n :: u16) = n"
  by (simp add: unat_of_nat BS_def)

lemma split_new:
  assumes "length b = BS" "q + m \<le> BS" "min_rec_len (length name) \<le> m" "m mod 4 = 0" "length name \<le> 255"
    "valid_utf8 name" "ino \<noteq> 0" "b' = put_bytes (write_header b q ino (of_nat m) (of_nat (length name))) (q + 8) name"
  shows "entry_at b' q = \<lparr>e_pos = q, e_inode = ino, e_rec_len = of_nat m, e_name_len = of_nat (length name), e_name = name\<rparr>"
    "entry_ok q (entry_at b' q)" "length b' = BS" "agree p q b b'" "q + m \<le> p' \<Longrightarrow> agree p' BS b b'"
proof -
  have l: "8 + length name \<le> m"
    using assms(3) align4_bounds(1)[of "8 + length name"] by (simp add: min_rec_len_def)
  have n: "unat (of_nat (length name) :: u8) = length name" and m: "unat (of_nat m :: u16) = m"
    using assms(2,5) by (simp_all add: unat_of_nat BS_def)
  have h: "read_header b' q = \<lparr>de_inode = ino, de_rec_len = of_nat m, de_name_len = of_nat (length name), de_file_type = 0\<rparr>"
    using assms(1,2) l read_write_header[of q b ino] unfolding assms(8) read_header_def by (simp add: buf_simps)
  have s: "sub_bytes b' (q + 8) (length name) = name"
    using assms(1,2) l unfolding assms(8) by (simp add: buf_simps)
  show e: "entry_at b' q = \<lparr>e_pos = q, e_inode = ino, e_rec_len = of_nat m, e_name_len = of_nat (length name), e_name = name\<rparr>"
    using assms(6,7) n s by (simp add: entry_at_def h utf8_lossy_valid)
  show "entry_ok q (entry_at b' q)"
    unfolding e entry_ok_def using assms(2,4) l n m by simp
  show "length b' = BS"
    using assms(1,2) l unfolding assms(8) by (simp add: buf_simps)
  show "agree p q b b'"
    unfolding assms(8) using assms(1,2) l by (intro agree_trans[OF agree_write agree_put]) (auto simp: buf_simps)
  show "agree p' BS b b'" if "q + m \<le> p'"
    unfolding assms(8) using assms(1,2) l that by (intro agree_trans[OF agree_write agree_put]) (auto simp: buf_simps)
qed

lemma split_record_chain:
  assumes len: "length b = BS" and e: "e = entry_at b p" "entry_ok p e"
    and fit: "min_rec_len (length name) \<le> unat (e_rec_len e) - entry_ideal e"
    and name: "length name \<le> 255" "valid_utf8 name" "ino \<noteq> 0"
  defines "b' \<equiv> split_record b e name ino" and "r \<equiv> unat (e_rec_len e)"
  shows "length b' = BS" "agree 0 p b b'" "agree (p + r) BS b b'"
    "chain b' p (split_entries e name ino) (p + r)"
proof -
  let ?i = "entry_ideal e"
  define c where "c = put_bytes (write_header b (p + ?i) ino (of_nat (r - ?i)) (of_nat (length name))) (p + ?i + 8) name"
  note ib = ideal_bounds[OF e(2), folded r_def]
  have ep: "e_pos e = p" by (simp add: e entry_at_def Let_def)
  have r: "8 \<le> r" "r mod 4 = 0" "p + r \<le> BS"
    using e(2) by (simp_all add: entry_ok_def r_def)
  have mod: "(r - ?i) mod 4 = 0"
    using ib(1,2) r(2) by presburger
  have qm: "p + ?i + (r - ?i) = p + r"
    using ib(1) by simp
  note sn = split_new[OF len _ fit[folded r_def] mod name c_def, unfolded qm, OF r(3)]
  have ne: "entry_at c (p + ?i) = new_entry e name ino"
    by (simp add: sn(1) new_entry_def ep r_def)
  have nr: "unat (e_rec_len (new_entry e name ino)) = r - ?i"
    using unat_of_nat_block[of "r - ?i"] r(3) by (simp add: new_entry_def r_def del: of_nat_diff)
  have eh: "e_inode e = de_inode (read_header b p)" "e_name_len e = de_name_len (read_header b p)"
    "e_name e = (if e_inode e \<noteq> 0 then utf8_lossy (sub_bytes b (p + 8) (unat (e_name_len e))) else [])"
    by (simp_all add: e entry_at_def Let_def)
  have sr: "b' = (if e_inode e \<noteq> 0 then write_header c p (de_inode (read_header c p)) (of_nat ?i) (de_name_len (read_header c p)) else c)"
    unfolding b'_def split_record_def Let_def ep r_def[symmetric] c_def ..
  have "length b' = BS \<and> agree 0 p b b' \<and> agree (p + r) BS b b' \<and> chain b' p (split_entries e name ino) (p + r)"
  proof (cases "e_inode e = 0")
    case True
    then have "?i = 0" "b' = c" "split_entries e name ino = [new_entry e name ino]"
      by (simp_all add: entry_ideal_def sr split_entries_def)
    then show ?thesis
      using sn(2-5) ne r by (simp add: new_entry_def r_def)
  next
    case False
    have i8: "8 + unat (e_name_len e) \<le> ?i"
      using ib(3)[OF False] .
    have "read_header c p = read_header b p"
      using agree_sub[OF sn(4)[of p], of p 8] i8 by (simp add: read_header_def)
    then have b': "b' = write_header c p (e_inode e) (of_nat ?i) (e_name_len e)"
      using False by (simp add: sr eh)
    have l: "length b' = BS"
      using sn(3) r by (simp add: b' buf_simps)
    have a0: "agree 0 p c b'" and a1: "agree (p + 8) BS c b'"
      unfolding b' using sn(3) r by (auto intro!: agree_write)
    have nm: "sub_bytes b' (p + 8) (unat (e_name_len e)) = sub_bytes b (p + 8) (unat (e_name_len e))"
      using agree_sub[OF a1, of "p + 8"] agree_sub[OF sn(4)[of p], of "p + 8"] i8 r ib(1) by simp
    have ee: "entry_at b' p = e\<lparr>e_rec_len := of_nat ?i\<rparr>"
      using sn(3) r False nm eh(3) ep by (simp add: entry_at_def b' buf_simps Let_def)
    have "entry_at b' (p + ?i) = new_entry e name ino"
      using agree_entry[OF a1[THEN agree_mono, of "p + ?i" BS] sn(2)] i8 r ib(1) ne nr by simp
    then have "chain b' p (split_entries e name ino) (p + r)"
      using False ee sn(2) ne i8 ib r nr by (simp add: split_entries_def unat_of_nat_block entry_ok_def)
    then show ?thesis
      using l agree_trans[OF agree_mono[OF sn(4)[of 0]] a0] agree_trans[OF sn(5) agree_mono[OF a1]] r by simp
  qed
  then show "length b' = BS" "agree 0 p b b'" "agree (p + r) BS b b'" "chain b' p (split_entries e name ino) (p + r)"
    by simp_all
qed


subsection \<open>Insertion and removal on the chain\<close>

definition live_names :: "dir_entry list \<Rightarrow> (bytes \<times> u32) list" where
  "live_names es = map (\<lambda>e. (e_name e, e_inode e)) (filter (\<lambda>e. e_inode e \<noteq> 0) es)"

lemma live_names_simps [simp]:
  "live_names [] = []" "live_names (xs @ ys) = live_names xs @ live_names ys"
  "live_names (e # es) = (if e_inode e = 0 then live_names es else (e_name e, e_inode e) # live_names es)"
  by (simp_all add: live_names_def)

lemma live_split: "ino \<noteq> 0 \<Longrightarrow> live_names (split_entries e name ino) = live_names [e] @ [(name, ino)]"
  by (simp add: split_entries_def new_entry_def)

lemma insert_loop_cases:
  "insert_loop b name ino needed es = (ok, b') \<Longrightarrow>
   (if ok then \<exists>xs e ys. es = xs @ e # ys \<and> needed \<le> unat (e_rec_len e) - entry_ideal e \<and> b' = split_record b e name ino
    else b' = b \<and> (\<forall>e \<in> set es. unat (e_rec_len e) - entry_ideal e < needed))"
proof (induction es)
  case (Cons e es)
  show ?case
  proof (cases "needed \<le> unat (e_rec_len e) - entry_ideal e")
    case True
    then show ?thesis
      using Cons.prems by (auto simp: Let_def intro: exI[of _ "[]"])
  next
    case False
    then have "insert_loop b name ino needed es = (ok, b')"
      using Cons.prems by (simp add: Let_def)
    then show ?thesis
      using Cons.IH False by (auto split: if_splits) (metis append_Cons)
  qed
qed simp

lemma chain_entry_at: "chain b p (xs @ e # ys) q \<Longrightarrow>
  \<exists>r. chain b p xs r \<and> e = entry_at b r \<and> e_pos e = r \<and> entry_ok r e \<and> chain b (r + unat (e_rec_len e)) ys q"
  by (auto simp: chain_append entry_at_def Let_def)

text \<open>Replacing the records of one stretch of the block.\<close>

lemma chain_replace:
  assumes "chain b 0 xs p" "chain b' p zs r" "chain b r ys BS" "agree 0 p b b'" "agree r BS b b'"
  shows "chain b' 0 (xs @ zs @ ys) BS"
  using agree_chain[OF assms(1,4)] agree_chain[OF assms(3,5)] assms(2) by (auto simp: chain_append)

lemma insert_chain:
  assumes "length b = BS" "chain b 0 es BS" "name \<noteq> []" "length name \<le> 255" "valid_utf8 name" "ino \<noteq> 0"
    and r: "insert_loop b name ino (min_rec_len (length name)) es = (True, b')"
  shows "length b' = BS \<and> (\<exists>xs ys es'. chain b' 0 es' BS \<and> live_names es = xs @ ys \<and> live_names es' = xs @ (name, ino) # ys)"
proof -
  obtain xs e ys where es: "es = xs @ e # ys" and fit: "min_rec_len (length name) \<le> unat (e_rec_len e) - entry_ideal e"
    and b': "b' = split_record b e name ino"
    using insert_loop_cases[OF r] by auto
  obtain p where p: "chain b 0 xs p" "e = entry_at b p" "entry_ok p e" "chain b (p + unat (e_rec_len e)) ys BS"
    using chain_entry_at[OF assms(2)[unfolded es]] by auto
  note sr = split_record_chain[OF assms(1) p(2,3) fit assms(4-6), folded b']
  have c: "chain b' 0 (xs @ split_entries e name ino @ ys) BS"
    by (rule chain_replace[OF p(1) sr(4) p(4) sr(2,3)])
  have "live_names (xs @ split_entries e name ino @ ys) = (live_names xs @ live_names [e]) @ (name, ino) # live_names ys"
    using live_split[OF assms(6)] by simp
  moreover have "live_names es = (live_names xs @ live_names [e]) @ live_names ys"
    by (simp add: es)
  ultimately show ?thesis
    using sr(1) c by blast
qed

lemma remove_loop_cases:
  "remove_loop b name pp es = (r, b') \<Longrightarrow>
   (case r of
      None \<Rightarrow> b' = b \<and> (\<forall>e \<in> set es. e_inode e \<noteq> 0 \<longrightarrow> e_name e \<noteq> name)
    | Some ino \<Rightarrow> \<exists>xs e ys. es = xs @ e # ys \<and> e_inode e = ino \<and> ino \<noteq> 0 \<and> e_name e = name
        \<and> (\<forall>x \<in> set xs. e_inode x \<noteq> 0 \<longrightarrow> e_name x \<noteq> name)
        \<and> b' = unlink_record b (if xs = [] then pp else Some (e_pos (last xs))) e)"
proof (induction es arbitrary: pp)
  case (Cons e es)
  show ?case
  proof (cases "e_inode e \<noteq> 0 \<and> e_name e = name")
    case True
    then show ?thesis
      using Cons.prems by (auto intro!: exI[of _ "[]"])
  next
    case False
    then have "remove_loop b name (Some (e_pos e)) es = (r, b')"
      using Cons.prems by (auto split: if_splits)
    note IH = Cons.IH[OF this]
    show ?thesis
    proof (cases r)
      case (Some ino)
      then obtain xs e' ys where x: "es = xs @ e' # ys" "e_inode e' = ino" "ino \<noteq> 0" "e_name e' = name"
        "\<forall>x \<in> set xs. e_inode x \<noteq> 0 \<longrightarrow> e_name x \<noteq> name"
        "b' = unlink_record b (if xs = [] then Some (e_pos e) else Some (e_pos (last xs))) e'"
        using IH by auto
      then show ?thesis
        using False Some by (auto intro!: exI[of _ "e # xs"])
    qed (use IH False in auto)
  qed
qed simp

lemma unlink_first:
  assumes "length b = BS" "e = entry_at b p" "entry_ok p e" "e_pos e = p"
  defines "b' \<equiv> unlink_record b None e" and "r \<equiv> unat (e_rec_len e)"
  shows "length b' = BS" "agree 0 p b b'" "agree (p + r) BS b b'"
    "chain b' p [e\<lparr>e_inode := 0, e_name_len := 0, e_name := []\<rparr>] (p + r)"
proof -
  have r: "8 \<le> r" "p + r \<le> BS" "r mod 4 = 0"
    using assms(3) by (simp_all add: entry_ok_def r_def)
  have b': "b' = write_header b p 0 (e_rec_len e) 0"
    by (simp add: b'_def unlink_record_def assms(4))
  show "length b' = BS" "agree 0 p b b'" "agree (p + r) BS b b'"
    unfolding b' using r assms(1) by (auto simp: buf_simps intro!: agree_write)
  show "chain b' p [e\<lparr>e_inode := 0, e_name_len := 0, e_name := []\<rparr>] (p + r)"
    using r assms(1,4) by (simp add: b' entry_at_def buf_simps entry_ok_def r_def)
qed

lemma unlink_merge:
  assumes "length b = BS" "v = entry_at b p" "entry_ok p v" "e = entry_at b (p + unat (e_rec_len v))"
    "entry_ok (p + unat (e_rec_len v)) e"
  defines "b' \<equiv> unlink_record b (Some p) e" and "r \<equiv> unat (e_rec_len v) + unat (e_rec_len e)"
  shows "length b' = BS" "agree 0 p b b'" "agree (p + r) BS b b'"
    "chain b' p [v\<lparr>e_rec_len := e_rec_len v + e_rec_len e\<rparr>] (p + r)"
proof -
  have r: "8 \<le> unat (e_rec_len v)" "p + r \<le> BS" "r mod 4 = 0" "8 \<le> r"
    using assms(3,5) by (auto simp: entry_ok_def r_def mod_add_eq[symmetric])
  have sum: "unat (e_rec_len v + e_rec_len e) = r"
    using r(2) unat_plus_exact[of "e_rec_len v" "e_rec_len e"] by (simp add: r_def BS_def)
  have vh: "e_pos v = p" "e_inode v = de_inode (read_header b p)" "e_name_len v = de_name_len (read_header b p)"
    "e_rec_len v = de_rec_len (read_header b p)"
    "e_name v = (if e_inode v \<noteq> 0 then utf8_lossy (sub_bytes b (p + 8) (unat (e_name_len v))) else [])"
    by (simp_all add: assms(2) entry_at_def Let_def)
  have b': "b' = write_header b p (e_inode v) (e_rec_len v + e_rec_len e) (e_name_len v)"
    by (simp add: b'_def unlink_record_def vh Let_def)
  show "length b' = BS" "agree 0 p b b'" "agree (p + r) BS b b'"
    unfolding b' using r assms(1) by (auto simp: buf_simps intro!: agree_write)
  have "entry_at b' p = v\<lparr>e_rec_len := e_rec_len v + e_rec_len e\<rparr>"
    using r assms(1) vh(1,5) by (simp add: b' entry_at_def buf_simps Let_def)
  then show "chain b' p [v\<lparr>e_rec_len := e_rec_len v + e_rec_len e\<rparr>] (p + r)"
    using r sum assms(3) by (auto simp: entry_ok_def r_def)
qed


lemma remove_chain:
  assumes "length b = BS" "chain b 0 es BS" and r: "remove_loop b name None es = (Some ino, b')"
  shows "length b' = BS \<and> (\<exists>xs ys es'. chain b' 0 es' BS \<and> live_names es = xs @ (name, ino) # ys
    \<and> live_names es' = xs @ ys \<and> name \<notin> fst ` set xs)"
proof -
  obtain xs e ys where es: "es = xs @ e # ys" and e: "e_inode e = ino" "ino \<noteq> 0" "e_name e = name"
    and before: "\<forall>x \<in> set xs. e_inode x \<noteq> 0 \<longrightarrow> e_name x \<noteq> name"
    and b': "b' = unlink_record b (if xs = [] then None else Some (e_pos (last xs))) e"
    using remove_loop_cases[OF r] by auto
  obtain q where q: "chain b 0 xs q" "e = entry_at b q" "e_pos e = q" "entry_ok q e" "chain b (q + unat (e_rec_len e)) ys BS"
    using chain_entry_at[OF assms(2)[unfolded es]] by auto
  have nin: "name \<notin> fst ` set (live_names xs)"
    using before by (auto simp: live_names_def)
  have "length b' = BS \<and> (\<exists>es'. chain b' 0 es' BS \<and> live_names es' = live_names xs @ live_names ys)"
  proof (cases xs rule: rev_exhaust)
    case Nil
    let ?z = "e\<lparr>e_inode := 0, e_name_len := 0, e_name := []\<rparr>"
    note u = unlink_first[OF assms(1) q(2,4,3)]
    have bn: "b' = unlink_record b None e" by (simp add: b' Nil)
    have "chain b' 0 ([] @ [?z] @ ys) BS"
      unfolding bn by (rule chain_replace[OF q(1)[unfolded Nil] u(4) q(5) u(2,3)])
    moreover have "live_names ([] @ [?z] @ ys) = live_names xs @ live_names ys"
      by (simp add: Nil)
    ultimately show ?thesis
      using u(1) bn by blast
  next
    case (snoc ws v)
    let ?z = "v\<lparr>e_rec_len := e_rec_len v + e_rec_len e\<rparr>"
    obtain p where p: "chain b 0 ws p" "v = entry_at b p" "e_pos v = p" "entry_ok p v" "p + unat (e_rec_len v) = q"
      using chain_entry_at[of b 0 ws v "[]" q] q(1) snoc by auto
    note u = unlink_merge[OF assms(1) p(2,4) q(2,4)[folded p(5)]]
    have bn: "b' = unlink_record b (Some p) e" by (simp add: b' snoc p(3))
    have "chain b' 0 (ws @ [?z] @ ys) BS"
      unfolding bn using chain_replace[OF p(1) u(4) _ u(2,3)] q(5) p(5) by (simp add: add.assoc[symmetric])
    moreover have "live_names (ws @ [?z] @ ys) = live_names xs @ live_names ys"
      by (simp add: snoc)
    ultimately show ?thesis
      using u(1) bn by blast
  qed
  moreover have "live_names es = live_names xs @ (name, ino) # live_names ys"
    using e by (simp add: es)
  ultimately show ?thesis
    using nin by blast
qed

subsection \<open>A directory block as a map from names to inodes\<close>

definition dir_list :: "bytes \<Rightarrow> (bytes \<times> u32) list" where
  "dir_list b = (case iter_entries b of Inl e \<Rightarrow> [] | Inr es \<Rightarrow> live_names es)"

definition dir_map :: "bytes \<Rightarrow> bytes \<rightharpoonup> u32" where
  "dir_map b = map_of (dir_list b)"

definition dir_ok :: "bytes \<Rightarrow> bool" where
  "dir_ok b \<longleftrightarrow> length b = BS \<and> (case iter_entries b of Inl e \<Rightarrow> False | Inr es \<Rightarrow> True) \<and> distinct (map fst (dir_list b))"

lemma dir_okE:
  assumes "dir_ok b"
  obtains es where "length b = BS" "iter_entries b = Inr es" "chain b 0 es BS" "dir_list b = live_names es"
    "distinct (map fst (live_names es))"
  using assms by (auto simp: dir_ok_def dir_list_def iter_entries_chain[symmetric] split: sum.splits)

lemma dir_okI:
  assumes "length b = BS" "chain b 0 es BS" "distinct (map fst (live_names es))"
  shows "dir_ok b \<and> dir_list b = live_names es"
  using assms by (auto simp: dir_ok_def dir_list_def iter_entries_chain[symmetric])

lemma find_live:
  "map_option (\<lambda>e. (e_inode e, 0 :: u8)) (find (\<lambda>e. e_inode e \<noteq> 0 \<and> e_name e = name) es)
   = map_option (\<lambda>i. (i, 0)) (map_of (live_names es) name)"
  by (induction es) auto

lemma dir_find_map: "dir_ok b \<Longrightarrow> dir_find b name = Inr (map_option (\<lambda>i. (i, 0)) (dir_map b name))"
  by (elim dir_okE) (simp add: dir_find_def dir_map_def find_live)

lemma map_of_insert_mid: "name \<notin> fst ` set (xs @ ys) \<Longrightarrow> map_of (xs @ (name, i) # ys) = (map_of (xs @ ys))(name \<mapsto> i)"
  by (induction xs) (auto simp: fun_upd_twist)

lemma insert_refines:
  assumes ok: "dir_ok b" and name: "name \<noteq> []" "length name \<le> 255" "valid_utf8 name" "ino \<noteq> 0"
    and new: "dir_map b name = None" and r: "insert_into_block b name ino = (r, b')"
  shows "r = Inr True \<and> dir_ok b' \<and> dir_map b' = (dir_map b)(name \<mapsto> ino)
    \<or> r = Inr False \<and> b' = b \<and> (\<forall>es. iter_entries b = Inr es \<longrightarrow> (\<forall>e \<in> set es. unat (e_rec_len e) - entry_ideal e < min_rec_len (length name)))"
proof -
  from ok obtain es where es: "length b = BS" "iter_entries b = Inr es" "chain b 0 es BS" "dir_list b = live_names es"
    "distinct (map fst (live_names es))" by (rule dir_okE)
  obtain k where k: "insert_loop b name ino (min_rec_len (length name)) es = (k, b')" "r = Inr k"
    using r name es(2) by (auto simp: insert_into_block_def split: prod.splits)
  show ?thesis
  proof (cases k)
    case True
    then have "insert_loop b name ino (min_rec_len (length name)) es = (True, b')"
      using k(1) by simp
    from insert_chain[OF es(1,3) name this]
    obtain xs ys es' where x: "length b' = BS" "chain b' 0 es' BS" "live_names es = xs @ ys" "live_names es' = xs @ (name, ino) # ys"
      by blast
    have nin: "name \<notin> fst ` set (xs @ ys)"
      using new es(4) x(3) by (simp add: dir_map_def map_of_eq_None_iff image_Un)
    have "dir_ok b' \<and> dir_list b' = live_names es'"
      using x es(5) nin by (intro dir_okI) auto
    then show ?thesis
      using k(2) True map_of_insert_mid[OF nin] es(4) x(3,4) by (simp add: dir_map_def)
  next
    case False
    then show ?thesis
      using insert_loop_cases[OF k(1)] k(2) es(2) by auto
  qed
qed

lemma remove_refines:
  assumes ok: "dir_ok b"
  shows "\<exists>b'. remove_from_block b name = (Inr (dir_map b name), b') \<and> dir_ok b' \<and> dir_map b' = (dir_map b)(name := None)"
proof -
  from ok obtain es where es: "length b = BS" "iter_entries b = Inr es" "chain b 0 es BS" "dir_list b = live_names es"
    "distinct (map fst (live_names es))" by (rule dir_okE)
  obtain r b' where l: "remove_loop b name None es = (r, b')" by (cases "remove_loop b name None es")
  have rm: "remove_from_block b name = (Inr r, b')"
    by (simp add: remove_from_block_def es(2) l)
  show ?thesis
  proof (cases r)
    case None
    have n: "b' = b" "\<forall>e \<in> set es. e_inode e \<noteq> 0 \<longrightarrow> e_name e \<noteq> name"
      using remove_loop_cases[OF l] None by auto
    then have "map_of (live_names es) name = None"
      by (auto simp: map_of_eq_None_iff live_names_def)
    then show ?thesis
      using rm n(1) None ok es(4) by (auto simp: dir_map_def)
  next
    case (Some ino)
    from remove_chain[OF es(1,3) l[unfolded Some]]
    obtain xs ys es' where x: "length b' = BS" "chain b' 0 es' BS" "live_names es = xs @ (name, ino) # ys"
      "live_names es' = xs @ ys" "name \<notin> fst ` set xs"
      by blast
    have nin: "name \<notin> fst ` set (xs @ ys)"
      using es(5) x(3,5) by auto
    have o: "dir_ok b' \<and> dir_list b' = live_names es'"
      using x es(5) by (intro dir_okI) auto
    have m: "dir_map b = (map_of (xs @ ys))(name \<mapsto> ino)"
      using map_of_insert_mid[OF nin] by (simp add: dir_map_def es(4) x(3))
    have "map_of (xs @ ys) name = None"
      using nin unfolding map_of_eq_None_iff .
    then have "dir_map b' = (dir_map b)(name := None)"
      using o x(4) by (simp add: m dir_map_def[of b'] fun_upd_idem del: map_of_append)
    then show ?thesis
      using rm Some o m by auto
  qed
qed


subsection \<open>Fresh blocks\<close>

lemma init_empty_chain:
  assumes "length b = BS"
  shows "length (init_empty_block b) = BS"
    "chain (init_empty_block b) 0 [\<lparr>e_pos = 0, e_inode = 0, e_rec_len = of_nat BS, e_name_len = 0, e_name = []\<rparr>] BS"
proof -
  have b: "8 \<le> BS" "BS mod 4 = 0" by (simp_all add: BS_def)
  then show "length (init_empty_block b) = BS"
    "chain (init_empty_block b) 0 [\<lparr>e_pos = 0, e_inode = 0, e_rec_len = of_nat BS, e_name_len = 0, e_name = []\<rparr>] BS"
    using assms by (simp_all add: init_empty_block_def entry_at_def buf_simps entry_ok_def unat_of_nat_block Let_def)
qed

lemma list_update_put: "k < length b \<Longrightarrow> b[k := x] = put_bytes b k [x]"
  by (simp add: put_bytes_def upd_conv_take_nth_drop)

lemma put_put: "off + length xs + length ys \<le> length b \<Longrightarrow> o' = off + length xs \<Longrightarrow>
  put_bytes (put_bytes b off xs) o' ys = put_bytes b off (xs @ ys)"
  by (simp add: put_bytes_def ac_simps)

lemma init_dot_chain:
  assumes len: "length b = BS" and ino: "self_ino \<noteq> 0" "parent_ino \<noteq> 0"
  defines "c \<equiv> init_dot_entries b self_ino parent_ino"
  shows "length c = BS \<and> chain c 0
    [\<lparr>e_pos = 0, e_inode = self_ino, e_rec_len = 12, e_name_len = 1, e_name = [0x2E]\<rparr>,
     \<lparr>e_pos = 12, e_inode = parent_ino, e_rec_len = of_nat (BS - 12), e_name_len = 2, e_name = [0x2E, 0x2E]\<rparr>] BS"
proof -
  define z where "z = replicate BS (0 :: u8)"
  define c1 where "c1 = put_bytes (write_header z 0 self_ino (of_nat 12) (of_nat (length [0x2E :: u8]))) (0 + 8) [0x2E]"
  have mr: "min_rec_len 1 = 12" "min_rec_len (Suc 0) = 12" "min_rec_len 2 = 12" "min_rec_len (Suc (Suc 0)) = 12" by (simp_all add: min_rec_len_def align4_def)
  have v: "valid_utf8 [0x2E]" "valid_utf8 [0x2E, 0x2E]"
    by (simp_all add: utf8_step_ascii word_less_nat_alt)
  have b12: "12 \<le> BS" by (simp add: BS_def)
  note s1 = split_new[where b = z and q = 0 and m = 12 and name = "[0x2E]", OF _ _ _ _ _ v(1) ino(1) c1_def]
  have l1: "length c1 = BS" and e1: "entry_at c1 0 = \<lparr>e_pos = 0, e_inode = self_ino, e_rec_len = 12, e_name_len = 1, e_name = [0x2E]\<rparr>"
    and o1: "entry_ok 0 (entry_at c1 0)"
    using s1(1,2,3) b12 by (simp_all add: z_def mr)
  have c: "c = put_bytes (write_header c1 12 parent_ino (of_nat (BS - 12)) (of_nat (length [0x2E :: u8, 0x2E]))) (12 + 8) [0x2E, 0x2E]"
  proof -
    have "map (\<lambda>b. 0) b = z"
      using len by (simp add: z_def map_replicate_const)
    then show ?thesis
      using b12 by (simp add: c_def init_dot_entries_def Let_def mr c1_def z_def BS_def list_update_put buf_simps put_put)
  qed
  note s2 = split_new[where b = c1 and q = 12 and m = "BS - 12" and name = "[0x2E, 0x2E]", OF l1 _ _ _ _ v(2) ino(2) c]
  have m2: "(BS - 12) mod 4 = 0" "12 + (BS - 12) \<le> BS" "12 \<le> BS - 12" by (simp_all add: BS_def)
  have l2: "length c = BS" and e2: "entry_at c 12 = \<lparr>e_pos = 12, e_inode = parent_ino, e_rec_len = of_nat (BS - 12), e_name_len = 2, e_name = [0x2E, 0x2E]\<rparr>"
    and o2: "entry_ok 12 (entry_at c 12)" and a2: "agree 0 12 c1 c"
    using s2(1,2,3,4) m2 by (simp_all add: mr)
  have "entry_at c 0 = entry_at c1 0"
    using agree_entry[OF a2 o1] e1 by simp
  moreover have "unat (of_nat (BS - 12) :: u16) = BS - 12"
    by (rule unat_of_nat_block) simp
  ultimately show ?thesis
    using l2 e1 e2 o1 o2 b12 by simp
qed


lemma init_empty_ok: "length b = BS \<Longrightarrow> dir_ok (init_empty_block b) \<and> dir_map (init_empty_block b) = Map.empty"
  using dir_okI[OF init_empty_chain] by (simp add: dir_map_def)

lemma init_dot_ok:
  assumes "length b = BS" "self_ino \<noteq> 0" "parent_ino \<noteq> 0"
  shows "dir_ok (init_dot_entries b self_ino parent_ino)"
    "dir_map (init_dot_entries b self_ino parent_ino) = [[0x2E] \<mapsto> self_ino, [0x2E, 0x2E] \<mapsto> parent_ino]"
    "live_entry_count (init_dot_entries b self_ino parent_ino) = Inr 0"
proof -
  note c = conjunct2[OF init_dot_chain[OF assms]] and l = conjunct1[OF init_dot_chain[OF assms]]
  have o: "dir_ok (init_dot_entries b self_ino parent_ino) \<and>
      dir_list (init_dot_entries b self_ino parent_ino) = [([0x2E], self_ino), ([0x2E, 0x2E], parent_ino)]"
    using dir_okI[OF l c] assms(2,3) by simp
  then show "dir_ok (init_dot_entries b self_ino parent_ino)" by simp
  show "dir_map (init_dot_entries b self_ino parent_ino) = [[0x2E] \<mapsto> self_ino, [0x2E, 0x2E] \<mapsto> parent_ino]"
    using o by (auto simp: dir_map_def)
  show "live_entry_count (init_dot_entries b self_ino parent_ino) = Inr 0"
    unfolding live_entry_count_def c[folded iter_entries_chain] by simp
qed

lemma insert_empty_succeeds:
  assumes "length b = BS" "name \<noteq> []" "length name \<le> 255"
  shows "\<exists>b'. insert_into_block (init_empty_block b) name ino = (Inr True, b')"
proof -
  have "min_rec_len (length name) \<le> BS"
    using assms(3) by (simp add: min_rec_len_def align4_def BS_def)
  then show ?thesis
    using assms init_empty_chain(2)[OF assms(1), folded iter_entries_chain]
    by (simp add: insert_into_block_def entry_ideal_def unat_of_nat_block)
qed

lemma live_count_zero:
  assumes "dir_ok b"
  shows "live_entry_count b = Inr 0 \<longleftrightarrow> dom (dir_map b) \<subseteq> {[0x2E], [0x2E, 0x2E]}"
proof -
  from assms obtain es where es: "iter_entries b = Inr es" "dir_list b = live_names es"
    by (rule dir_okE)
  have "dom (dir_map b) = e_name ` {e \<in> set es. e_inode e \<noteq> 0}"
    by (simp add: dir_map_def es(2) live_names_def dom_map_of_conv_image_fst image_image)
  then show ?thesis
    by (auto simp: live_entry_count_def es(1) filter_empty_conv)
qed

subsection \<open>Properties\<close>

definition demo_dir :: bytes where
  "demo_dir = init_dot_entries (replicate BS 0) 2 2"

definition demo_name :: bytes where
  "demo_name = [0x61, 0x62]"

lemma demo_dir_ok: "dir_ok demo_dir" "dir_map demo_dir = [[0x2E] \<mapsto> 2, [0x2E, 0x2E] \<mapsto> 2]"
  using init_dot_ok[of "replicate BS 0" 2 2] by (simp_all add: demo_dir_def)

lemma demo_name_ok: "valid_utf8 demo_name" "demo_name \<noteq> []" "length demo_name \<le> 255" "dir_map demo_dir demo_name = None"
  by (simp_all add: demo_name_def demo_dir_ok(2) utf8_step_ascii word_less_nat_alt)

text \<open>
  C8: insertion refines a map update.  Take a directory block whose records tile the block and
  whose live names are distinct, and a new name of 1 to 255 bytes.  \<^verbatim>\<open>insert_into_block\<close>
  then never fails.  If it returns true the block is again well formed and denotes the old map
  with the new binding, so that a later \<^verbatim>\<open>find\<close> of any name sees exactly that.  If it returns
  false the block is unchanged and no record has the room the name needs.
\<close>
theorem dir_insert_refines_update:
  assumes "dir_ok b" "name \<noteq> []" "length name \<le> 255" "valid_utf8 name" "ino \<noteq> 0" "dir_find b name = Inr None"
  shows "(\<exists>b'. insert_into_block b name ino = (Inr True, b') \<and> dir_ok b' \<and> dir_map b' = (dir_map b)(name \<mapsto> ino)
        \<and> (\<forall>n. dir_find b' n = (if n = name then Inr (Some (ino, 0)) else dir_find b n)))
    \<or> insert_into_block b name ino = (Inr False, b)
        \<and> (\<forall>es. iter_entries b = Inr es \<longrightarrow> (\<forall>e \<in> set es. unat (e_rec_len e) - entry_ideal e < min_rec_len (length name)))"
proof -
  obtain r b' where r: "insert_into_block b name ino = (r, b')"
    by (cases "insert_into_block b name ino")
  have "dir_map b name = None"
    using assms(1,6) by (simp add: dir_find_map)
  note i = insert_refines[OF assms(1-5) this r]
  have "dir_find b' n = (if n = name then Inr (Some (ino, 0)) else dir_find b n)"
    if "dir_ok b'" "dir_map b' = (dir_map b)(name \<mapsto> ino)" for n
    using that assms(1) by (simp add: dir_find_map)
  then show ?thesis
    using i r by auto
qed

theorem dir_insert_refines_update_witness:
  "\<exists>b'. insert_into_block demo_dir demo_name 12 = (Inr True, b') \<and> dir_map b' demo_name = Some 12"
proof -
  have es: "iter_entries demo_dir = Inr
    [\<lparr>e_pos = 0, e_inode = 2, e_rec_len = 12, e_name_len = 1, e_name = [0x2E]\<rparr>,
     \<lparr>e_pos = 12, e_inode = 2, e_rec_len = of_nat (BS - 12), e_name_len = 2, e_name = [0x2E, 0x2E]\<rparr>]"
    unfolding iter_entries_chain demo_dir_def by (rule conjunct2[OF init_dot_chain]) simp_all
  have "insert_into_block demo_dir demo_name 12 \<noteq> (Inr False, demo_dir)"
    by (simp add: insert_into_block_def es demo_name_def min_rec_len_def align4_def entry_ideal_def BS_def)
  then show ?thesis
    using dir_insert_refines_update[OF demo_dir_ok(1) demo_name_ok(2,3,1), of 12] demo_name_ok(4) demo_dir_ok(1)
    by (auto simp: dir_find_map)
qed

text \<open>
  C14: removal refines map deletion.  On a well-formed block \<^verbatim>\<open>remove_from_block\<close> returns the
  inode bound to the name, or none, and leaves a well-formed block denoting the map without the
  name: merging the record into its predecessor, or freeing the first record in place, loses no
  other entry.
\<close>
theorem dir_remove_refines_delete:
  assumes "dir_ok b"
  shows "\<exists>b'. remove_from_block b name = (Inr (dir_map b name), b') \<and> dir_ok b'
    \<and> dir_map b' = (dir_map b)(name := None)
    \<and> dir_find b' name = Inr None \<and> (\<forall>n. n \<noteq> name \<longrightarrow> dir_find b' n = dir_find b n)"
  using remove_refines[OF assms, of name] assms by (auto simp: dir_find_map)

theorem dir_remove_refines_delete_witness:
  "\<exists>b'. remove_from_block demo_dir [0x2E] = (Inr (Some 2), b') \<and> dir_find b' [0x2E, 0x2E] = Inr (Some (2, 0))"
proof -
  obtain b' where "remove_from_block demo_dir [0x2E] = (Inr (dir_map demo_dir [0x2E]), b')"
    "\<forall>n. n \<noteq> [0x2E] \<longrightarrow> dir_find b' n = dir_find demo_dir n"
    using dir_remove_refines_delete[OF demo_dir_ok(1), of "[0x2E]"] by auto
  then show ?thesis
    by (auto simp: demo_dir_ok dir_find_map)
qed

lemma chain_sum: "chain b p es q \<Longrightarrow> p + sum_list (map (\<lambda>e. unat (e_rec_len e)) es) = q"
  by (induction es arbitrary: p) (auto simp: add.assoc[symmetric])

lemma chain_entries:
  "chain b p es q \<Longrightarrow> e \<in> set es \<Longrightarrow> entry_ok (e_pos e) e \<and> valid_utf8 (e_name e)"
  by (induction es arbitrary: p) (auto simp: entry_at_def Let_def valid_utf8_lossy)

text \<open>
  C22: the walk is safe on arbitrary disk contents.  Whatever the bytes of a directory block are,
  the walk ends; if it accepts the block, the record lengths add up to the block size, every
  record lies inside the block, every name is valid UTF-8, and the size a record needs never
  exceeds its length, so that the subtraction \<^verbatim>\<open>rec_len - ideal\<close> in the insertion cannot wrap.
\<close>
theorem dir_walk_bounds:
  "case iter_entries b of
     Inl err \<Rightarrow> err = Corrupt
   | Inr es \<Rightarrow> sum_list (map (\<lambda>e. unat (e_rec_len e)) es) = BS
       \<and> list_all (\<lambda>e. e_pos e + unat (e_rec_len e) \<le> BS \<and> valid_utf8 (e_name e)
           \<and> entry_ideal e \<le> unat (e_rec_len e)) es"
proof (cases "iter_entries b")
  case (Inl err)
  have "iter_from b p = Inl err \<Longrightarrow> err = Corrupt" for p
    by (induction b p arbitrary: err rule: iter_from.induct)
      (erule_tac P = "iter_from _ _ = _" in rev_mp, subst iter_from.simps, auto simp: Let_def split: if_splits sum.splits)
  then show ?thesis
    using Inl by (simp add: iter_entries_def)
next
  case (Inr es)
  then have c: "chain b 0 es BS"
    by (simp add: iter_entries_chain)
  show ?thesis
    using chain_sum[OF c] chain_entries[OF c] ideal_bounds(1) by (auto simp: Inr list_all_iff entry_ok_def)
qed

end
