(* ===== verification/LinkWalk.thy ===== *)
theory LinkWalk
  imports PaghPrelude
begin

section \<open>Symbolic-link path resolution\<close>

text \<open>
  The path walker of \<^verbatim>\<open>vfs/link_walk.rs\<close> and its adapter \<^verbatim>\<open>WalkNodes\<close> of
  \<^verbatim>\<open>vfs/mod.rs\<close>.  Paths and names are UTF-8 byte lists.  The Rust vectors \<^verbatim>\<open>pending\<close> and
  \<^verbatim>\<open>stack\<close> are pushed and popped at their end only; the lists of the model hold them with
  that end first.
\<close>

subsection \<open>Paths\<close>

definition ascii :: "string \<Rightarrow> bytes" where
  "ascii = map of_char"

definition slash :: u8 where "slash = 0x2F"

definition dot :: bytes where "dot = [0x2E]"

definition dotdot :: bytes where "dotdot = [0x2E, 0x2E]"

text \<open>\<^verbatim>\<open>str::split('/')\<close>: the segments between the slashes, empty ones included.\<close>

fun split_slash :: "bytes \<Rightarrow> bytes list" where
  "split_slash [] = [[]]"
| "split_slash (c # cs) =
     (if c = slash then [] # split_slash cs
      else case split_slash cs of [] \<Rightarrow> [[c]] | s # ss \<Rightarrow> (c # s) # ss)"

definition starts_with_slash :: "bytes \<Rightarrow> bool" where
  "starts_with_slash p \<longleftrightarrow> (case p of [] \<Rightarrow> False | c # _ \<Rightarrow> c = slash)"

definition SYMLOOP_MAX :: nat where "SYMLOOP_MAX = 40"

definition MAX_EXPANDED_BYTES :: nat where "MAX_EXPANDED_BYTES = 4096"

definition ROOT_KEEPING_COMPONENTS :: "bytes list" where
  "ROOT_KEEPING_COMPONENTS = map ascii [''mnt'', ''dev'', ''proc'', ''sys'', ''tmp'']"

definition guest_path_keeps_root :: "bytes \<Rightarrow> bool" where
  "guest_path_keeps_root p =
     (let first = (case split_slash (dropWhile (\<lambda>c. c = slash) p) of [] \<Rightarrow> [] | s # _ \<Rightarrow> s)
      in first \<in> set ROOT_KEEPING_COMPONENTS)"

datatype walk_error = NotFound | NotDir | TooManyLinks | TooLong

record link_target =
  lt_path :: bytes
  lt_absolute :: bool

definition map_guest_target :: "bytes \<Rightarrow> link_target" where
  "map_guest_target target =
     (if \<not> starts_with_slash target then \<lparr>lt_path = target, lt_absolute = False\<rparr>
      else \<lparr>lt_path = (if guest_path_keeps_root target then target else ascii ''/mnt'' @ target),
            lt_absolute = True\<rparr>)"

definition components :: "bytes \<Rightarrow> bytes list" where
  "components path = filter (\<lambda>c. c \<noteq> [] \<and> c \<noteq> dot) (split_slash path)"

subsection \<open>The walker\<close>

text \<open>
  The trait \<^verbatim>\<open>LinkTree\<close>: a state \<open>'t\<close>, node handles \<open>'i\<close>, and the four operations.  Only
  \<^verbatim>\<open>lookup\<close> takes the tree by mutable reference.
\<close>

record ('t, 'i) link_tree =
  tr_root :: "'t \<Rightarrow> 'i"
  tr_lookup :: "'t \<Rightarrow> 'i \<Rightarrow> bytes \<Rightarrow> 'i option \<times> 't"
  tr_is_dir :: "'t \<Rightarrow> 'i \<Rightarrow> bool"
  tr_link_target :: "'t \<Rightarrow> 'i \<Rightarrow> link_target option"

record 'i walk =
  w_pending :: "bytes list"
  w_expanded :: nat
  w_links :: nat
  w_stack :: "'i list"

text \<open>One iteration of the loop of \<^verbatim>\<open>resolve\<close>: the next state, or the value it returns.\<close>

definition enter_child :: "('t, 'i) link_tree \<Rightarrow> 't \<Rightarrow> 'i walk \<Rightarrow> 'i \<Rightarrow> 'i walk + (walk_error + 'i)" where
  "enter_child T t w child =
     (if w_pending w \<noteq> [] \<and> \<not> tr_is_dir T t child then Inr (Inl NotDir)
      else Inl (w\<lparr>w_stack := child # w_stack w\<rparr>))"

definition link_base :: "link_target \<Rightarrow> 'i list \<Rightarrow> 'i list" where
  "link_base target stack = (if lt_absolute target then [last stack] else stack)"

definition cross_link :: "'i walk \<Rightarrow> link_target \<Rightarrow> 'i walk + (walk_error + 'i)" where
  "cross_link w target =
     (let links = w_links w + 1; expanded = w_expanded w + length (lt_path target)
      in if links > SYMLOOP_MAX then Inr (Inl TooManyLinks)
         else if lt_path target = [] then Inr (Inl NotFound)
         else if expanded > MAX_EXPANDED_BYTES then Inr (Inl TooLong)
         else Inl \<lparr>w_pending = components (lt_path target) @ w_pending w, w_expanded = expanded, w_links = links,
                   w_stack = link_base target (w_stack w)\<rparr>)"

definition pop_dir :: "'i list \<Rightarrow> 'i list" where
  "pop_dir stack = (if length stack > 1 then tl stack else stack)"

definition walk_step ::
  "('t, 'i) link_tree \<Rightarrow> bool \<Rightarrow> 't \<Rightarrow> 'i walk \<Rightarrow> ('i walk + (walk_error + 'i)) \<times> 't" where
  "walk_step T follow_final t w =
     (case w_pending w of
        [] \<Rightarrow> (Inr (Inr (hd (w_stack w))), t)
      | c # pending \<Rightarrow>
          let w = w\<lparr>w_pending := pending\<rparr>
          in if c = dotdot
             then (Inl (w\<lparr>w_stack := pop_dir (w_stack w)\<rparr>), t)
             else
               (case tr_lookup T t (hd (w_stack w)) c of
                  (None, t) \<Rightarrow> (Inr (Inl NotFound), t)
                | (Some child, t) \<Rightarrow>
                    (case tr_link_target T t child of
                       Some target \<Rightarrow>
                         (if follow_final \<or> pending \<noteq> [] then cross_link w target else enter_child T t w child, t)
                     | None \<Rightarrow> (enter_child T t w child, t))))"

definition walk_fuel :: "'i walk \<Rightarrow> nat" where
  "walk_fuel w = length (w_pending w) + (MAX_EXPANDED_BYTES - w_expanded w)"

lemma split_slash_ne [simp]: "split_slash p \<noteq> []"
  by (induction p) (auto split: list.splits)

lemma split_slash_length: "split_slash p = s # ss \<Longrightarrow> length (filter (\<lambda>c. c \<noteq> []) ss) + length s \<le> length p"
proof (induction p arbitrary: s ss)
  case (Cons c p)
  obtain t ts where p: "split_slash p = t # ts"
    using split_slash_ne[of p] by (cases "split_slash p") auto
  have "length (filter (\<lambda>c. c \<noteq> []) (t # ts)) \<le> length (filter (\<lambda>c. c \<noteq> []) ts) + length t"
    by (cases t) auto
  moreover have "s = [] \<and> ss = t # ts \<or> s = c # t \<and> ss = ts"
    using Cons.prems by (simp add: p split: if_splits)
  ultimately show ?case
    using Cons.IH[OF p] by auto
qed simp

lemma components_length: "length (components p) \<le> length p"
proof -
  obtain s ss where p: "split_slash p = s # ss"
    using split_slash_ne[of p] by (cases "split_slash p") auto
  have "components p = filter (\<lambda>c. c \<noteq> dot) (filter (\<lambda>c. c \<noteq> []) (s # ss))"
    unfolding components_def p filter_filter by meson
  then have "length (components p) \<le> length (filter (\<lambda>c. c \<noteq> []) (s # ss))"
    using length_filter_le by metis
  also have "\<dots> \<le> length (filter (\<lambda>c. c \<noteq> []) ss) + length s"
    by (cases s) auto
  finally show ?thesis
    using split_slash_length[OF p] by simp
qed

lemma cross_link_fuel: "cross_link w target = Inl w' \<Longrightarrow> walk_fuel w' < Suc (walk_fuel w)"
  using components_length[of "lt_path target"]
  by (auto simp: cross_link_def walk_fuel_def Let_def split: if_splits)

lemma walk_step_fuel: "walk_step T f t w = (Inl w', t') \<Longrightarrow> walk_fuel w' < walk_fuel w"
  by (auto simp: walk_step_def enter_child_def Let_def split: list.splits option.splits prod.splits if_splits
      dest!: cross_link_fuel) (auto simp: walk_fuel_def)

function resolve_loop :: "('t, 'i) link_tree \<Rightarrow> bool \<Rightarrow> 't \<Rightarrow> 'i walk \<Rightarrow> (walk_error + 'i) \<times> 't" where
  "resolve_loop T follow_final t w =
     (case walk_step T follow_final t w of
        (Inl w', t') \<Rightarrow> resolve_loop T follow_final t' w'
      | (Inr r, t') \<Rightarrow> (r, t'))"
  by pat_completeness auto
termination
  by (relation "measure (\<lambda>(T, f, t, w). walk_fuel w)") (auto dest: walk_step_fuel[OF sym])

declare resolve_loop.simps [simp del]

definition walk_start :: "bytes \<Rightarrow> 'i \<Rightarrow> 'i walk" where
  "walk_start path root = \<lparr>w_pending = components path, w_expanded = length path, w_links = 0, w_stack = [root]\<rparr>"

definition resolve :: "('t, 'i) link_tree \<Rightarrow> 't \<Rightarrow> bytes \<Rightarrow> bool \<Rightarrow> (walk_error + 'i) \<times> 't" where
  "resolve T t path follow_final = resolve_loop T follow_final t (walk_start path (tr_root T t))"

subsection \<open>The adapter over VFS nodes\<close>

text \<open>
  The methods of the trait \<^verbatim>\<open>VfsNode\<close> the walker uses.  They are implemented by every file
  system, so they are parameters here; \<^verbatim>\<open>lookup(..).ok()\<close> is an option.  The adapter interns the
  node handles a walk meets, comparing handles by identity.
\<close>

record 'n vfs_ops =
  vn_lookup :: "'n \<Rightarrow> bytes \<Rightarrow> 'n option"
  vn_is_directory :: "'n \<Rightarrow> bool"
  vn_is_symlink :: "'n \<Rightarrow> bool"
  vn_read_link :: "'n \<Rightarrow> bytes option"

definition node_target :: "'n vfs_ops \<Rightarrow> 'n \<Rightarrow> link_target option" where
  "node_target v n =
     (if \<not> vn_is_symlink v n then None
      else Some (case vn_read_link v n of
                   Some target \<Rightarrow> if target \<noteq> [] then map_guest_target target else \<lparr>lt_path = [], lt_absolute = False\<rparr>
                 | None \<Rightarrow> \<lparr>lt_path = [], lt_absolute = False\<rparr>))"

fun index_of :: "'n \<Rightarrow> 'n list \<Rightarrow> nat" where
  "index_of x [] = 0"
| "index_of x (y # ys) = (if y = x then 0 else Suc (index_of x ys))"

text \<open>
  The code finds a node it has seen with \<^verbatim>\<open>Arc::ptr_eq\<close>; here a node is its identity, so equality is
  pointer equality.
\<close>

definition walk_intern :: "'n list \<Rightarrow> 'n \<Rightarrow> nat \<times> 'n list" where
  "walk_intern nodes n = (let i = index_of n nodes in if i < length nodes then (i, nodes) else (length nodes, nodes @ [n]))"

definition node_get :: "'n list \<Rightarrow> nat \<Rightarrow> 'n option" where
  "node_get xs i = (if i < length xs then Some (xs ! i) else None)"

definition walk_nodes :: "'n vfs_ops \<Rightarrow> ('n list, nat) link_tree" where
  "walk_nodes v =
     \<lparr>tr_root = (\<lambda>nodes. 0),
      tr_lookup = (\<lambda>nodes i name.
        (case node_get nodes i of
           None \<Rightarrow> (None, nodes)
         | Some n \<Rightarrow> (case vn_lookup v n name of
                        None \<Rightarrow> (None, nodes)
                      | Some child \<Rightarrow> (case walk_intern nodes child of (j, nodes') \<Rightarrow> (Some j, nodes'))))),
      tr_is_dir = (\<lambda>nodes i. case node_get nodes i of Some n \<Rightarrow> vn_is_directory v n | None \<Rightarrow> False),
      tr_link_target = (\<lambda>nodes i. case node_get nodes i of Some n \<Rightarrow> node_target v n | None \<Rightarrow> None)\<rparr>"

definition lookup_path_walk :: "'n vfs_ops \<Rightarrow> 'n option \<Rightarrow> bytes \<Rightarrow> bool \<Rightarrow> walk_error + 'n" where
  "lookup_path_walk v vfs_root path follow_final =
     (if \<not> starts_with_slash path then Inl NotFound
      else case vfs_root of
             None \<Rightarrow> Inl NotFound
           | Some root \<Rightarrow>
               (case resolve (walk_nodes v) [root] path follow_final of
                  (Inl e, nodes) \<Rightarrow> Inl e
                | (Inr i, nodes) \<Rightarrow> (case node_get nodes i of Some n \<Rightarrow> Inr n | None \<Rightarrow> Inl NotFound)))"


subsection \<open>Interning is transparent\<close>

text \<open>The walker run directly on the nodes, without handles.\<close>

definition node_tree :: "'n vfs_ops \<Rightarrow> 'n \<Rightarrow> (unit, 'n) link_tree" where
  "node_tree v root =
     \<lparr>tr_root = (\<lambda>_. root), tr_lookup = (\<lambda>_ n name. (vn_lookup v n name, ())),
      tr_is_dir = (\<lambda>_. vn_is_directory v), tr_link_target = (\<lambda>_. node_target v)\<rparr>"

lemma index_of_nth: "index_of x xs < length xs \<Longrightarrow> xs ! index_of x xs = x"
  by (induction xs) auto

lemma walk_intern_spec: "walk_intern nodes n = (j, nodes') \<Longrightarrow> j < length nodes' \<and> nodes' ! j = n \<and> (\<exists>xs. nodes' = nodes @ xs)"
  by (auto simp: walk_intern_def Let_def index_of_nth nth_append split: if_splits)

definition on_nodes :: "'n list \<Rightarrow> nat walk \<Rightarrow> 'n walk" where
  "on_nodes nodes w = \<lparr>w_pending = w_pending w, w_expanded = w_expanded w, w_links = w_links w,
     w_stack = map ((!) nodes) (w_stack w)\<rparr>"

definition handles_ok :: "'n list \<Rightarrow> nat walk \<Rightarrow> bool" where
  "handles_ok nodes w \<longleftrightarrow> w_stack w \<noteq> [] \<and> (\<forall>i \<in> set (w_stack w). i < length nodes)"

lemma on_nodes_append: "handles_ok nodes w \<Longrightarrow> on_nodes (nodes @ xs) w = on_nodes nodes w \<and> handles_ok (nodes @ xs) w"
  by (auto simp: on_nodes_def handles_ok_def nth_append)

fun sim_result :: "'n list \<Rightarrow> nat walk + (walk_error + nat) \<Rightarrow> 'n walk + (walk_error + 'n) \<Rightarrow> bool" where
  "sim_result nodes (Inl w) r \<longleftrightarrow> handles_ok nodes w \<and> r = Inl (on_nodes nodes w)"
| "sim_result nodes (Inr (Inl e)) r \<longleftrightarrow> r = Inr (Inl e)"
| "sim_result nodes (Inr (Inr i)) r \<longleftrightarrow> i < length nodes \<and> r = Inr (Inr (nodes ! i))"

lemma sim_enter:
  assumes "handles_ok nodes w" "j < length nodes"
  shows "sim_result nodes (enter_child (walk_nodes v) nodes w j) (enter_child (node_tree v r) () (on_nodes nodes w) (nodes ! j))"
  using assms by (auto simp: enter_child_def walk_nodes_def node_tree_def on_nodes_def handles_ok_def node_get_def)

lemma sim_cross:
  assumes "handles_ok nodes w"
  shows "sim_result nodes (cross_link w tg) (cross_link (on_nodes nodes w) tg)"
  using assms by (auto simp: cross_link_def on_nodes_def handles_ok_def Let_def last_map link_base_def)

lemma pop_dir_simps: "stack \<noteq> [] \<Longrightarrow> pop_dir stack \<noteq> []" "set (pop_dir stack) \<subseteq> set stack" "pop_dir (map f stack) = map f (pop_dir stack)"
  by (auto simp: pop_dir_def map_tl dest: list.set_sel(2) split: if_splits) (cases stack; simp; blast)+

lemma walk_step_name:
  assumes "w_pending w = c # p" "c \<noteq> dotdot"
  shows "walk_step T f t w = (case tr_lookup T t (hd (w_stack w)) c of
       (None, t) \<Rightarrow> (Inr (Inl NotFound), t)
     | (Some child, t) \<Rightarrow> (case tr_link_target T t child of
           Some tg \<Rightarrow> (if f \<or> p \<noteq> [] then cross_link (w\<lparr>w_pending := p\<rparr>) tg else enter_child T t (w\<lparr>w_pending := p\<rparr>) child)
         | None \<Rightarrow> enter_child T t (w\<lparr>w_pending := p\<rparr>) child, t))"
  using assms by (auto simp: walk_step_def Let_def split: prod.splits option.splits)

lemma walk_step_stack: "w_stack w \<noteq> [] \<Longrightarrow> walk_step T f t w = (Inl w', t') \<Longrightarrow> w_stack w' \<noteq> []"
  by (auto simp: walk_step_def Let_def enter_child_def cross_link_def link_base_def pop_dir_simps
      split: list.splits if_splits option.splits prod.splits)

lemma tree_sel:
  "tr_lookup (node_tree v rt) () n c = (vn_lookup v n c, ())" "tr_link_target (node_tree v rt) () n = node_target v n"
  "i < length nodes \<Longrightarrow> tr_lookup (walk_nodes v) nodes i c = (case vn_lookup v (nodes ! i) c of None \<Rightarrow> (None, nodes)
     | Some child \<Rightarrow> (case walk_intern nodes child of (j, nodes') \<Rightarrow> (Some j, nodes')))"
  "i < length nodes \<Longrightarrow> tr_link_target (walk_nodes v) nodes i = node_target v (nodes ! i)"
  by (simp_all add: node_tree_def walk_nodes_def node_get_def)

lemma sim_step:
  assumes ok: "handles_ok nodes w" and st: "walk_step (walk_nodes v) f nodes w = (r, nodes')"
  shows "\<exists>r'. walk_step (node_tree v rt) f () (on_nodes nodes w) = (r', ()) \<and> sim_result nodes' r r'"
proof (cases "w_pending w")
  case Nil
  then show ?thesis
    using ok st by (auto simp: walk_step_def on_nodes_def handles_ok_def hd_map)
next
  case (Cons c p)
  define w1 where "w1 = w\<lparr>w_pending := p\<rparr>"
  have ok1: "handles_ok nodes w1" and st1: "w_stack w1 = w_stack w" "w_pending w1 = p"
    using ok by (simp_all add: w1_def handles_ok_def)
  have on: "(on_nodes nodes w)\<lparr>w_pending := p\<rparr> = on_nodes nodes w1" and onp: "w_pending (on_nodes nodes w) = c # p"
    "hd (w_stack (on_nodes nodes w1)) = nodes ! hd (w_stack w1)" "w_stack (on_nodes nodes w) = w_stack (on_nodes nodes w1)"
    using ok1 by (simp_all add: on_nodes_def w1_def Cons handles_ok_def hd_map)
  show ?thesis
  proof (cases "c = dotdot")
    case True
    have "r = Inl (w1\<lparr>w_stack := pop_dir (w_stack w1)\<rparr>)" "nodes' = nodes"
      using st True by (simp_all add: walk_step_def Cons w1_def)
    moreover have "walk_step (node_tree v rt) f () (on_nodes nodes w) = (Inl ((on_nodes nodes w1)\<lparr>w_stack := pop_dir (w_stack (on_nodes nodes w1))\<rparr>), ())"
      using True by (simp add: walk_step_def onp on)
    moreover have "on_nodes nodes (w1\<lparr>w_stack := pop_dir (w_stack w1)\<rparr>) = (on_nodes nodes w1)\<lparr>w_stack := pop_dir (w_stack (on_nodes nodes w1))\<rparr>"
      by (simp add: on_nodes_def pop_dir_simps(3))
    moreover have "handles_ok nodes (w1\<lparr>w_stack := pop_dir (w_stack w1)\<rparr>)"
      using ok1 pop_dir_simps(1,2)[of "w_stack w1"] by (auto simp: handles_ok_def)
    ultimately show ?thesis by simp
  next
    case False
    let ?d = "hd (w_stack w1)"
    have d: "?d < length nodes"
      using ok1 by (auto simp: handles_ok_def)
    show ?thesis
    proof (cases "vn_lookup v (nodes ! ?d) c")
      case None
      then have "r = Inr (Inl NotFound)"
        using st d by (simp add: walk_step_name[OF Cons False] st1 tree_sel)
      moreover have "walk_step (node_tree v rt) f () (on_nodes nodes w) = (Inr (Inl NotFound), ())"
        using None by (simp add: walk_step_name[OF onp(1) False] onp(2,3) tree_sel)
      ultimately show ?thesis by simp
    next
      case (Some n)
      obtain j ns where i: "walk_intern nodes n = (j, ns)" by (cases "walk_intern nodes n")
      obtain xs where j: "j < length ns" "ns ! j = n" "ns = nodes @ xs"
        using walk_intern_spec[OF i] by auto
      have on': "on_nodes ns w1 = on_nodes nodes w1" and ok': "handles_ok ns w1"
        using on_nodes_append[OF ok1, of xs] j(3) by simp_all
      have "walk_step (walk_nodes v) f nodes w = (case node_target v n of
            Some tg \<Rightarrow> (if f \<or> p \<noteq> [] then cross_link w1 tg else enter_child (walk_nodes v) ns w1 j)
          | None \<Rightarrow> enter_child (walk_nodes v) ns w1 j, ns)"
        using Some d i j(1,2) by (simp add: walk_step_name[OF Cons False] st1 tree_sel) (simp add: w1_def split: option.splits)
      moreover have "walk_step (node_tree v rt) f () (on_nodes nodes w) = (case node_target v n of
            Some tg \<Rightarrow> (if f \<or> p \<noteq> [] then cross_link (on_nodes ns w1) tg else enter_child (node_tree v rt) () (on_nodes ns w1) n)
          | None \<Rightarrow> enter_child (node_tree v rt) () (on_nodes ns w1) n, ())"
        unfolding walk_step_name[OF onp(1) False] on on' using Some by (simp add: onp(2,3) tree_sel)
      ultimately show ?thesis
        using st sim_enter[OF ok' j(1), of v rt] sim_cross[OF ok'] j(2) by (auto split: option.splits)
    qed
  qed
qed

lemma sim_loop:
  assumes "handles_ok nodes w" "resolve_loop (walk_nodes v) f nodes w = (r, nodes')"
  shows "case r of Inl e \<Rightarrow> resolve_loop (node_tree v rt) f () (on_nodes nodes w) = (Inl e, ())
    | Inr i \<Rightarrow> i < length nodes' \<and> resolve_loop (node_tree v rt) f () (on_nodes nodes w) = (Inr (nodes' ! i), ())"
  using assms
proof (induction "walk_nodes v" f nodes w rule: resolve_loop.induct)
  case (1 f nodes w)
  obtain s ns where st: "walk_step (walk_nodes v) f nodes w = (s, ns)"
    by (cases "walk_step (walk_nodes v) f nodes w")
  obtain s' where s': "walk_step (node_tree v rt) f () (on_nodes nodes w) = (s', ())" "sim_result ns s s'"
    using sim_step[OF "1.prems"(1) st] by blast
  show ?case
  proof (cases s)
    case (Inl w')
    then have ok': "handles_ok ns w'" and e: "s' = Inl (on_nodes ns w')"
      using s'(2) by auto
    have "resolve_loop (walk_nodes v) f ns w' = (r, nodes')"
      using "1.prems"(2) st Inl by (subst (asm) resolve_loop.simps) simp
    moreover have "resolve_loop (node_tree v rt) f () (on_nodes nodes w) = resolve_loop (node_tree v rt) f () (on_nodes ns w')"
      by (subst resolve_loop.simps) (simp add: s' e)
    ultimately show ?thesis
      using "1.hyps"[OF st[unfolded Inl, symmetric] refl ok'] by (simp split: sum.splits)
  next
    case (Inr r0)
    have "r = r0 \<and> nodes' = ns"
      using "1.prems"(2) st Inr by (subst (asm) resolve_loop.simps) simp
    moreover have "resolve_loop (node_tree v rt) f () (on_nodes nodes w) = (case s' of Inr r \<Rightarrow> (r, ()) | Inl u \<Rightarrow> resolve_loop (node_tree v rt) f () u)"
      by (subst resolve_loop.simps) (simp add: s'(1) split: sum.splits)
    ultimately show ?thesis
      using s'(2) Inr by (cases r0) auto
  qed
qed


lemma lookup_path_walk_nodes:
  "lookup_path_walk v (Some root) path f =
     (if starts_with_slash path then fst (resolve (node_tree v root) () path f) else Inl NotFound)"
proof -
  have ok: "handles_ok [root] (walk_start path 0)" and on: "on_nodes [root] (walk_start path 0) = walk_start path root"
    by (simp_all add: handles_ok_def on_nodes_def walk_start_def)
  obtain r ns where r: "resolve (walk_nodes v) [root] path f = (r, ns)"
    by (cases "resolve (walk_nodes v) [root] path f")
  then have "resolve_loop (walk_nodes v) f [root] (walk_start path 0) = (r, ns)"
    by (simp add: resolve_def walk_nodes_def)
  note sl = sim_loop[OF ok this, of root, unfolded on]
  have "resolve (node_tree v root) () path f = resolve_loop (node_tree v root) f () (walk_start path root)"
    by (simp add: resolve_def node_tree_def)
  then show ?thesis
    using sl by (auto simp: lookup_path_walk_def r node_get_def split: sum.splits)
qed

subsection \<open>What a path denotes\<close>

text \<open>
  The meaning of a path, written without the functions of the walker.  A path is a sequence of
  names separated by slashes (0x2F); empty names and a single dot (0x2E) mean nothing.
\<close>

function path_names :: "bytes \<Rightarrow> bytes list" where
  "path_names p =
     (if p = [] then []
      else let c = takeWhile (\<lambda>b. b \<noteq> 0x2F) p; cs = path_names (drop (Suc (length c)) p)
           in if c = [] \<or> c = [0x2E] then cs else c # cs)"
  by pat_completeness auto
termination
  by (relation "measure length") auto

declare path_names.simps [simp del]

text \<open>
  An absolute target is a path of the guest.  It lies below \<^verbatim>\<open>/mnt\<close>, unless its first name is one of
  the trees the kernel shares with the guest.
\<close>

definition kernel_trees :: "bytes set" where
  "kernel_trees = {ascii ''mnt'', ascii ''dev'', ascii ''proc'', ascii ''sys'', ascii ''tmp''}"

definition shared_target :: "bytes \<Rightarrow> bool" where
  "shared_target t \<longleftrightarrow> takeWhile (\<lambda>b. b \<noteq> 0x2F) (dropWhile (\<lambda>b. b = 0x2F) t) \<in> kernel_trees"

definition absolute_names :: "bytes \<Rightarrow> bytes list" where
  "absolute_names t = (if shared_target t then path_names t else ascii ''mnt'' # path_names t)"

definition absolute_bytes :: "bytes \<Rightarrow> nat" where
  "absolute_bytes t = (if shared_target t then length t else length t + 4)"

text \<open>
  \<open>names v f rt st cs k e n\<close>: from the chain of directories \<open>st\<close> (current directory first) of the
  tree below \<open>rt\<close> the names \<open>cs\<close> lead to the node \<open>n\<close>, crossing \<open>k\<close> links whose targets have \<open>e\<close>
  bytes in total; \<open>f\<close> says whether a final link is followed.  Two dots lead to the directory before,
  or nowhere from the root.  A relative target continues in the directory that holds the link, an
  absolute one at the root; the rest of the path follows behind the target.
\<close>

inductive names :: "'n vfs_ops \<Rightarrow> bool \<Rightarrow> 'n \<Rightarrow> 'n list \<Rightarrow> bytes list \<Rightarrow> nat \<Rightarrow> nat \<Rightarrow> 'n \<Rightarrow> bool" for v f rt where
  names_here: "names v f rt (d # st) [] 0 0 d"
| names_up: "names v f rt (d' # st) cs k e n \<Longrightarrow> names v f rt (d # d' # st) ([0x2E, 0x2E] # cs) k e n"
| names_top: "names v f rt [d] cs k e n \<Longrightarrow> names v f rt [d] ([0x2E, 0x2E] # cs) k e n"
| names_child: "c \<noteq> [0x2E, 0x2E] \<Longrightarrow> vn_lookup v d c = Some m \<Longrightarrow> \<not> vn_is_symlink v m \<or> \<not> f \<and> cs = [] \<Longrightarrow>
    cs = [] \<or> vn_is_directory v m \<Longrightarrow> names v f rt (m # d # st) cs k e n \<Longrightarrow> names v f rt (d # st) (c # cs) k e n"
| names_relative: "c \<noteq> [0x2E, 0x2E] \<Longrightarrow> vn_lookup v d c = Some m \<Longrightarrow> vn_is_symlink v m \<Longrightarrow> f \<or> cs \<noteq> [] \<Longrightarrow>
    vn_read_link v m = Some t \<Longrightarrow> t \<noteq> [] \<Longrightarrow> hd t \<noteq> 0x2F \<Longrightarrow> names v f rt (d # st) (path_names t @ cs) k e n \<Longrightarrow>
    names v f rt (d # st) (c # cs) (Suc k) (length t + e) n"
| names_absolute: "c \<noteq> [0x2E, 0x2E] \<Longrightarrow> vn_lookup v d c = Some m \<Longrightarrow> vn_is_symlink v m \<Longrightarrow> f \<or> cs \<noteq> [] \<Longrightarrow>
    vn_read_link v m = Some t \<Longrightarrow> t \<noteq> [] \<Longrightarrow> hd t = 0x2F \<Longrightarrow> names v f rt [rt] (absolute_names t @ cs) k e n \<Longrightarrow>
    names v f rt (d # st) (c # cs) (Suc k) (absolute_bytes t + e) n"

inductive_cases names_nilE: "names v f rt st [] k e n"
inductive_cases names_consE: "names v f rt st (c # cs) k e n"

lemma names_nil_iff: "names v f rt (d # st) [] k e n \<longleftrightarrow> k = 0 \<and> e = 0 \<and> n = d"
  by (auto intro: names_here elim: names_nilE)

subsection \<open>The functions of the walker meet the specification\<close>

lemma split_slash_take:
  "split_slash p = takeWhile (\<lambda>b. b \<noteq> slash) p # (case dropWhile (\<lambda>b. b \<noteq> slash) p of [] \<Rightarrow> [] | _ # r \<Rightarrow> split_slash r)"
  by (induction p) auto

lemma path_names_drop: "path_names (drop (Suc n) p) = (case drop n p of [] \<Rightarrow> [] | _ # r \<Rightarrow> path_names r)"
  by (cases "drop n p") (simp_all add: path_names.simps[of "[]"] drop_Suc tl_drop[symmetric])

lemma components_path_names: "components p = path_names p"
proof (induction p rule: length_induct)
  case (1 p)
  let ?c = "takeWhile (\<lambda>b. b \<noteq> slash) p" and ?r = "dropWhile (\<lambda>b. b \<noteq> slash) p"
  have r: "drop (length ?c) p = ?r"
    by (metis dropWhile_eq_drop)
  have IH: "components q = path_names q" if "?r = b # q" for b q
    using 1 that length_dropWhile_le[of "\<lambda>b. b \<noteq> slash" p] by (metis Suc_le_eq length_Cons)
  show ?case
  proof (cases "p = []")
    case False
    have "components p = (if ?c = [] \<or> ?c = dot then [] else [?c]) @ (case ?r of [] \<Rightarrow> [] | _ # q \<Rightarrow> components q)"
      unfolding components_def by (subst split_slash_take) (cases ?r; simp del: dropWhile_eq_Nil_conv)
    also have "\<dots> = (if ?c = [] \<or> ?c = [0x2E] then [] else [?c]) @ path_names (drop (Suc (length ?c)) p)"
      using IH by (cases ?r) (simp_all add: path_names_drop r dot_def del: dropWhile_eq_Nil_conv)
    finally show ?thesis
      using False by (subst path_names.simps) (simp add: slash_def Let_def)
  qed (simp add: components_def path_names.simps[of "[]"])
qed

lemma keeps_root_shared: "guest_path_keeps_root t \<longleftrightarrow> shared_target t"
  unfolding guest_path_keeps_root_def shared_target_def kernel_trees_def
  by (subst split_slash_take) (simp add: slash_def ROOT_KEEPING_COMPONENTS_def Let_def)

lemma components_mnt: "starts_with_slash t \<Longrightarrow> components (ascii ''/mnt'' @ t) = ascii ''mnt'' # components t"
  by (cases t) (auto simp: starts_with_slash_def components_def ascii_def slash_def dot_def)

text \<open>What the walker does with a link, in the words of the specification.\<close>

lemma node_target_cases:
  assumes "vn_is_symlink v m" "vn_read_link v m = Some t" "t \<noteq> []"
  obtains tg where "node_target v m = Some tg" "lt_path tg \<noteq> []" "lt_absolute tg \<longleftrightarrow> hd t = 0x2F"
    "components (lt_path tg) = (if hd t = 0x2F then absolute_names t else path_names t)"
    "length (lt_path tg) = (if hd t = 0x2F then absolute_bytes t else length t)"
proof
  have s: "starts_with_slash t \<longleftrightarrow> hd t = 0x2F"
    using assms(3) by (cases t) (simp_all add: starts_with_slash_def slash_def)
  show "node_target v m = Some (map_guest_target t)"
    using assms by (simp add: node_target_def)
  show "lt_path (map_guest_target t) \<noteq> []" "lt_absolute (map_guest_target t) \<longleftrightarrow> hd t = 0x2F"
    using assms(3) by (simp_all add: map_guest_target_def s)
  show "components (lt_path (map_guest_target t)) = (if hd t = 0x2F then absolute_names t else path_names t)"
    using components_mnt[of t]
    by (simp add: map_guest_target_def s absolute_names_def keeps_root_shared components_path_names)
  show "length (lt_path (map_guest_target t)) = (if hd t = 0x2F then absolute_bytes t else length t)"
    by (simp add: map_guest_target_def s absolute_bytes_def keeps_root_shared ascii_def)
qed

lemma node_target_None: "node_target v m = None \<longleftrightarrow> \<not> vn_is_symlink v m"
  by (simp add: node_target_def)

lemma node_target_broken:
  "vn_is_symlink v m \<Longrightarrow> vn_read_link v m = None \<or> vn_read_link v m = Some [] \<Longrightarrow> lt_path (the (node_target v m)) = []"
  by (auto simp: node_target_def)

lemma names_up_iff: "names v f rt (d # st) (dotdot # cs) k e n \<longleftrightarrow> names v f rt (pop_dir (d # st)) cs k e n"
  by (cases st) (auto simp: pop_dir_def dotdot_def intro: names_up names_top elim: names_consE)

lemma names_link_iff:
  assumes c: "c \<noteq> dotdot" "vn_lookup v d c = Some m" and l: "vn_is_symlink v m" "f \<or> cs \<noteq> []"
    and rt: "last (d # st) = rt" and tg: "node_target v m = Some tg"
  shows "names v f rt (d # st) (c # cs) k e n \<longleftrightarrow>
    (\<exists>k' e'. lt_path tg \<noteq> [] \<and> k = Suc k' \<and> e = length (lt_path tg) + e' \<and>
       names v f rt (link_base tg (d # st)) (components (lt_path tg) @ cs) k' e' n)"
    (is "?L \<longleftrightarrow> ?R")
proof (cases "\<exists>t. vn_read_link v m = Some t \<and> t \<noteq> []")
  case True
  then obtain t where t: "vn_read_link v m = Some t" "t \<noteq> []" by blast
  obtain tg' where tg': "node_target v m = Some tg'" and tgt': "lt_path tg' \<noteq> []" "lt_absolute tg' \<longleftrightarrow> hd t = 0x2F"
    "components (lt_path tg') = (if hd t = 0x2F then absolute_names t else path_names t)"
    "length (lt_path tg') = (if hd t = 0x2F then absolute_bytes t else length t)"
    by (rule node_target_cases[OF l(1) t])
  have "tg' = tg"
    using tg tg' by simp
  note tgt = tgt'[unfolded this]
  have base: "link_base tg (d # st) = (if hd t = 0x2F then [rt] else d # st)"
    using rt by (simp add: link_base_def tgt)
  note ne = c(1)[unfolded dotdot_def]
  show ?thesis
  proof
    assume ?L
    then show ?R
      using l t c(2) ne by (cases rule: names.cases) (auto simp: base tgt)
  next
    assume ?R
    then show ?L
      using names_relative[OF ne c(2) l t] names_absolute[OF ne c(2) l t]
      by (cases "hd t = 0x2F") (auto simp: base tgt)
  qed
next
  case False
  then have "lt_path tg = []"
    using node_target_broken[OF l(1)] tg by (cases "vn_read_link v m") auto
  then show ?thesis
    using False c l by (auto simp: dotdot_def elim: names_consE)
qed

lemma names_cons_iff:
  assumes rt: "last (d # st) = rt"
  shows "names v f rt (d # st) (c # cs) k e n \<longleftrightarrow>
    (if c = dotdot then names v f rt (pop_dir (d # st)) cs k e n
     else case vn_lookup v d c of
       None \<Rightarrow> False
     | Some m \<Rightarrow>
         (if node_target v m = None \<or> \<not> f \<and> cs = [] then (cs = [] \<or> vn_is_directory v m) \<and> names v f rt (m # d # st) cs k e n
          else \<exists>k' e'. lt_path (the (node_target v m)) \<noteq> [] \<and> k = Suc k' \<and> e = length (lt_path (the (node_target v m))) + e' \<and>
            names v f rt (link_base (the (node_target v m)) (d # st))
              (components (lt_path (the (node_target v m))) @ cs) k' e' n))"
proof (cases "c = dotdot")
  case False
  show ?thesis
  proof (cases "vn_lookup v d c")
    case None
    then show ?thesis
      using False by (auto simp: dotdot_def elim: names_consE)
  next
    case (Some m)
    show ?thesis
    proof (cases "node_target v m = None \<or> \<not> f \<and> cs = []")
      case True
      then have "names v f rt (d # st) (c # cs) k e n \<longleftrightarrow> (cs = [] \<or> vn_is_directory v m) \<and> names v f rt (m # d # st) cs k e n"
        using False Some unfolding node_target_None dotdot_def
        by (auto intro: names_child elim: names_consE)
      then show ?thesis
        using False Some True by simp
    next
      case link: False
      then show ?thesis
        using names_link_iff[OF False Some _ _ rt] False Some by (auto simp: node_target_None)
    qed
  qed
qed (simp add: names_up_iff)

lemma pop_dir_last: "st \<noteq> [] \<Longrightarrow> last (pop_dir st) = last st"
  by (cases st rule: list.exhaust) (auto simp: pop_dir_def last_tl)

definition within :: "nat \<Rightarrow> nat \<Rightarrow> nat \<Rightarrow> nat \<Rightarrow> bool" where
  "within links expanded k e \<longleftrightarrow> k = 0 \<or> links + k \<le> SYMLOOP_MAX \<and> expanded + e \<le> MAX_EXPANDED_BYTES"

lemma names_no_link: "names v f rt st cs k e n \<Longrightarrow> k = 0 \<Longrightarrow> e = 0"
  by (induction rule: names.induct) auto

definition denotes :: "'n vfs_ops \<Rightarrow> bool \<Rightarrow> 'n walk \<Rightarrow> 'n \<Rightarrow> bool" where
  "denotes v f w n \<longleftrightarrow> (\<exists>k e. names v f (last (w_stack w)) (w_stack w) (w_pending w) k e n \<and> within (w_links w) (w_expanded w) k e)"

definition denotes_result :: "'n vfs_ops \<Rightarrow> bool \<Rightarrow> 'n walk + (walk_error + 'n) \<Rightarrow> 'n \<Rightarrow> bool" where
  "denotes_result v f r n \<longleftrightarrow> (case r of Inl w' \<Rightarrow> w_stack w' \<noteq> [] \<and> denotes v f w' n | Inr r \<Rightarrow> r = Inr n)"

lemma denotes_enter:
  assumes "w_stack w = d # st" "w_pending w = c # cs" "c \<noteq> dotdot" "vn_lookup v d c = Some m"
    "node_target v m = None \<or> \<not> f \<and> cs = []"
  shows "denotes v f w n \<longleftrightarrow> denotes_result v f (enter_child (node_tree v rt) () (w\<lparr>w_pending := cs\<rparr>) m) n"
  using assms last_ConsR[of "d # st" m]
  by (auto simp: denotes_def denotes_result_def enter_child_def node_tree_def names_cons_iff[OF refl] simp del: last.simps)

lemma denotes_cross:
  assumes s: "w_stack w = d # st" and p: "w_pending w = c # cs" "c \<noteq> dotdot" "vn_lookup v d c = Some m"
    and tg: "node_target v m = Some tg" "f \<or> cs \<noteq> []"
  shows "denotes v f w n \<longleftrightarrow> denotes_result v f (cross_link (w\<lparr>w_pending := cs\<rparr>) tg) n"
proof (cases "cross_link (w\<lparr>w_pending := cs\<rparr>) tg :: 'a walk + (walk_error + 'a)")
  case (Inl w')
  have w': "w' = \<lparr>w_pending = components (lt_path tg) @ cs, w_expanded = w_expanded w + length (lt_path tg),
      w_links = Suc (w_links w), w_stack = link_base tg (d # st)\<rparr>"
    and b: "Suc (w_links w) \<le> SYMLOOP_MAX" "lt_path tg \<noteq> []" "w_expanded w + length (lt_path tg) \<le> MAX_EXPANDED_BYTES"
    using Inl by (auto simp: cross_link_def Let_def s split: if_splits)
  have "within (Suc (w_links w)) (w_expanded w + length (lt_path tg)) k e \<longleftrightarrow>
      within (w_links w) (w_expanded w) (Suc k) (length (lt_path tg) + e)"
    if "names v f (last (d # st)) (link_base tg (d # st)) (components (lt_path tg) @ cs) k e n" for k e
    using b names_no_link[OF that] by (auto simp: within_def)
  moreover have "last (link_base tg (d # st)) = last (d # st)"
    by (simp add: link_base_def)
  ultimately have "denotes v f w' n \<longleftrightarrow> denotes v f w n"
    using tg b(2) p by (auto simp: w' s names_cons_iff[OF refl] denotes_def simp del: last.simps)
  then show ?thesis
    unfolding Inl by (simp add: denotes_result_def w' link_base_def)
next
  case (Inr r)
  then have "r \<noteq> Inr n"
    "\<not> (Suc (w_links w) \<le> SYMLOOP_MAX \<and> lt_path tg \<noteq> [] \<and> w_expanded w + length (lt_path tg) \<le> MAX_EXPANDED_BYTES)"
    by (auto simp: cross_link_def Let_def split: if_splits)
  then show ?thesis
    unfolding Inr using p tg by (auto simp: denotes_result_def denotes_def s names_cons_iff[OF refl] within_def simp del: last.simps)
qed

lemma denotes_step:
  assumes "w_stack w \<noteq> []"
  shows "denotes v f w n \<longleftrightarrow> denotes_result v f (fst (walk_step (node_tree v rt) f () w)) n"
proof -
  obtain d st where s: "w_stack w = d # st"
    using assms by (cases "w_stack w") auto
  show ?thesis
  proof (cases "w_pending w")
    case Nil
    then show ?thesis
      by (auto simp: walk_step_def s within_def names_nil_iff denotes_def denotes_result_def)
  next
    case (Cons c cs)
    show ?thesis
    proof (cases "c = dotdot")
      case True
      then show ?thesis
        by (simp add: walk_step_def Cons s names_cons_iff[OF refl] pop_dir_simps(1) pop_dir_last denotes_def denotes_result_def
            del: last.simps)
    next
      case False
      note ws = walk_step_name[OF Cons False, of "node_tree v rt" f "()", unfolded s list.sel tree_sel]
      show ?thesis
      proof (cases "vn_lookup v d c")
        case None
        then show ?thesis
          using False by (simp add: ws Cons s names_cons_iff[OF refl] denotes_def denotes_result_def del: last.simps)
      next
        case (Some m)
        then show ?thesis
          using denotes_enter[OF s Cons False Some] denotes_cross[OF s Cons False Some] ws
          by (cases "node_target v m") (auto simp: tree_sel)
      qed
    qed
  qed
qed

lemma resolve_names:
  "w_stack w \<noteq> [] \<Longrightarrow> resolve_loop (node_tree v rt) f () w = (Inr n, ()) \<longleftrightarrow> denotes v f w n"
proof (induction "walk_fuel w" arbitrary: w rule: less_induct)
  case less
  obtain r where r: "walk_step (node_tree v rt) f () w = (r, ())"
    by (cases "walk_step (node_tree v rt) f () w") auto
  have "resolve_loop (node_tree v rt) f () w = (Inr n, ()) \<longleftrightarrow>
      (case r of Inl w' \<Rightarrow> resolve_loop (node_tree v rt) f () w' = (Inr n, ()) | Inr r \<Rightarrow> r = Inr n)"
    by (subst resolve_loop.simps) (auto simp: r split: sum.splits)
  moreover have "w_stack w' \<noteq> []" if "r = Inl w'" for w'
    using less.prems r that walk_step_stack by fastforce
  ultimately show ?case
    using denotes_step[OF less.prems, of v f n rt] less.hyps[OF walk_step_fuel[of "node_tree v rt" f "()" w]] r
    by (auto simp: denotes_result_def split: sum.splits)
qed


subsection \<open>Runs of the walker\<close>

inductive walk_run :: "('t, 'i) link_tree \<Rightarrow> bool \<Rightarrow> 't \<Rightarrow> 'i walk \<Rightarrow> nat \<Rightarrow> 't \<Rightarrow> 'i walk \<Rightarrow> bool" for T f t0 w0 where
  run_start: "walk_run T f t0 w0 0 t0 w0"
| run_step: "walk_run T f t0 w0 n t w \<Longrightarrow> walk_step T f t w = (Inl w', t') \<Longrightarrow> walk_run T f t0 w0 (Suc n) t' w'"

lemma run_fuel: "walk_run T f t0 w0 n t w \<Longrightarrow> n + walk_fuel w \<le> walk_fuel w0"
  by (induction rule: walk_run.induct) (auto dest!: walk_step_fuel)

lemma run_prepend: "walk_run T f t1 w1 n t w \<Longrightarrow> walk_step T f t0 w0 = (Inl w1, t1) \<Longrightarrow> walk_run T f t0 w0 (Suc n) t w"
  by (induction rule: walk_run.induct) (auto intro: walk_run.intros)

lemma resolve_loop_run:
  "resolve_loop T f t w = (r, t') \<Longrightarrow> \<exists>n t1 w1. walk_run T f t w n t1 w1 \<and> walk_step T f t1 w1 = (Inr r, t')"
proof (induction T f t w rule: resolve_loop.induct)
  case (1 T f t w)
  obtain s t2 where s: "walk_step T f t w = (s, t2)" by (cases "walk_step T f t w")
  show ?case
  proof (cases s)
    case (Inl w2)
    then have "resolve_loop T f t2 w2 = (r, t')"
      using "1.prems" s by (subst (asm) resolve_loop.simps) simp
    then show ?thesis
      using "1.IH"[OF s[unfolded Inl, symmetric] refl] run_prepend[OF _ s[unfolded Inl]] by blast
  next
    case (Inr q)
    then have "r = q \<and> t' = t2"
      using "1.prems" s by (subst (asm) resolve_loop.simps) simp
    then show ?thesis
      using s Inr by (metis run_start)
  qed
qed

lemma walk_start_fuel: "walk_fuel (walk_start path root) \<le> max MAX_EXPANDED_BYTES (length path)"
  using components_length[of path] by (simp add: walk_fuel_def walk_start_def)

definition walk_inv :: "'i \<Rightarrow> nat \<Rightarrow> 'i walk \<Rightarrow> bool" where
  "walk_inv root len w \<longleftrightarrow> w_stack w \<noteq> [] \<and> last (w_stack w) = root \<and> w_links w \<le> SYMLOOP_MAX
     \<and> w_expanded w \<le> max MAX_EXPANDED_BYTES len"

lemma walk_step_inv: "walk_inv root len w \<Longrightarrow> walk_step T f t w = (Inl w', t') \<Longrightarrow> walk_inv root len w'"
  by (auto simp: walk_inv_def walk_step_def Let_def enter_child_def cross_link_def link_base_def pop_dir_simps pop_dir_last
      split: list.splits if_splits option.splits prod.splits)

lemma walk_run_inv: "walk_run T f t0 w0 n t w \<Longrightarrow> walk_inv root len w0 \<Longrightarrow> walk_inv root len w"
  by (induction rule: walk_run.induct) (auto intro: walk_step_inv)

subsection \<open>Paths of system calls\<close>

text \<open>\<^verbatim>\<open>resolve_path\<close> of \<^verbatim>\<open>arch/x86_64/linux/io_sys.rs\<close>; the working directory is a parameter.\<close>

definition ends_with_slash :: "bytes \<Rightarrow> bool" where
  "ends_with_slash p \<longleftrightarrow> p \<noteq> [] \<and> last p = slash"

fun normalize :: "bytes list \<Rightarrow> bytes list \<Rightarrow> bytes list" where
  "normalize stack [] = stack"
| "normalize stack (c # cs) =
     (if c = [] \<or> c = dot then normalize stack cs
      else if c = dotdot then normalize (butlast stack) cs
      else normalize (stack @ [c]) cs)"

definition resolve_path :: "bytes \<Rightarrow> bytes \<Rightarrow> bytes" where
  "resolve_path cwd path =
     (let combined = (if starts_with_slash path then path
                      else (if ends_with_slash cwd then cwd else cwd @ [slash]) @ path);
          stack = normalize [] (split_slash combined)
      in if stack = [] then [slash]
         else let out = concat (map (\<lambda>c. slash # c) stack)
              in if out \<noteq> [slash] \<and> \<not> guest_path_keeps_root out then ascii ''/mnt'' @ out else out)"











subsection \<open>Properties\<close>

definition demo_vfs :: "nat vfs_ops" where
  "demo_vfs =
     \<lparr>vn_lookup = (\<lambda>n c. if n = 0 \<and> c = ascii ''mnt'' then Some 1 else if n = 0 \<and> c = ascii ''etc'' then Some 2 else None),
      vn_is_directory = (\<lambda>n. n < 2), vn_is_symlink = (\<lambda>n. False), vn_read_link = (\<lambda>n. None)\<rparr>"

text \<open>
  C17: resolution terminates within a fixed number of iterations on any tree.  However the tree
  answers, and even if its links form cycles, the loop of \<^verbatim>\<open>resolve\<close> reaches its result
  after at most 4096 iterations, or as many as the path has bytes if it is longer, so the number
  of lookups and link reads on an attacker-controlled image is bounded.
\<close>
theorem resolve_terminates_within:
  "\<exists>n t1 w1. walk_run T f t (walk_start path (tr_root T t)) n t1 w1
     \<and> walk_step T f t1 w1 = (Inr (fst (resolve T t path f)), snd (resolve T t path f))
     \<and> n \<le> max MAX_EXPANDED_BYTES (length path)"
proof -
  obtain r t' where "resolve T t path f = (r, t')" by (cases "resolve T t path f")
  then obtain n t1 w1 where run: "walk_run T f t (walk_start path (tr_root T t)) n t1 w1" "walk_step T f t1 w1 = (Inr r, t')"
    using resolve_loop_run[of T f t "walk_start path (tr_root T t)" r t'] by (auto simp: resolve_def)
  then show ?thesis
    using run_fuel[OF run(1)] walk_start_fuel[of path "tr_root T t"] \<open>resolve T t path f = (r, t')\<close>
    by (intro exI[of _ n] exI[of _ t1] exI[of _ w1]) auto
qed

text \<open>
  C23: the walk stays inside its budgets and below its root.  In every state a resolution reaches,
  at most 40 links have been crossed, the expanded path has at most 4096 bytes (or the bytes of
  the path itself), and the directory stack still has the root at its bottom: no sequence of
  \<^verbatim>\<open>..\<close> components and links leaves the tree the walk was given.
\<close>
theorem walk_stays_below_root:
  assumes "walk_run T f t (walk_start path (tr_root T t)) n t1 w1"
  shows "w_links w1 \<le> SYMLOOP_MAX \<and> w_expanded w1 \<le> max MAX_EXPANDED_BYTES (length path)
    \<and> w_stack w1 \<noteq> [] \<and> last (w_stack w1) = tr_root T t"
  using walk_run_inv[OF assms, of "tr_root T t" "length path"] by (auto simp: walk_inv_def walk_start_def)

theorem walk_stays_below_root_witness:
  "\<exists>w1. walk_run (node_tree demo_vfs 0) True () (walk_start (ascii ''/..'') 0) 1 () w1 \<and> w_stack w1 \<noteq> [] \<and> last (w_stack w1) = 0"
proof -
  let ?w = "walk_start (ascii ''/..'') (0 :: nat)"
  have "w_pending ?w = [dotdot]"
    by (simp add: walk_start_def components_def ascii_def slash_def dot_def dotdot_def)
  then obtain w1 where "walk_step (node_tree demo_vfs 0) True () ?w = (Inl w1, ())"
    by (simp add: walk_step_def)
  then have run: "walk_run (node_tree demo_vfs 0) True () ?w (Suc 0) () w1"
    by (rule run_step[OF run_start])
  have rt: "tr_root (node_tree demo_vfs 0) () = 0"
    by (simp add: node_tree_def)
  show ?thesis
    using walk_stays_below_root[of "node_tree demo_vfs 0" True "()" "ascii ''/..''" "Suc 0" "()" w1] run by (auto simp: rt)
qed

lemma names_lookup:
  assumes "starts_with_slash path"
  shows "lookup_path_walk v (Some root) path f = Inr n \<longleftrightarrow> (\<exists>k e. names v f root [root] (path_names path) k e n
       \<and> (k = 0 \<or> k \<le> SYMLOOP_MAX \<and> length path + e \<le> MAX_EXPANDED_BYTES))"
proof -
  have "resolve (node_tree v root) () path f = resolve_loop (node_tree v root) f () (walk_start path root)"
    by (simp add: resolve_def node_tree_def)
  then have "fst (resolve (node_tree v root) () path f) = Inr n \<longleftrightarrow> denotes v f (walk_start path root) n"
    using resolve_names[of "walk_start path root" v root f n]
    by (cases "resolve_loop (node_tree v root) f () (walk_start path root)") (auto simp: walk_start_def)
  then show ?thesis
    using assms by (simp add: lookup_path_walk_nodes denotes_def within_def walk_start_def components_path_names)
qed

text \<open>
  C7: \<^verbatim>\<open>lookup_path_walk\<close> computes what the path denotes.  It returns the node \<open>n\<close> exactly when
  the path is absolute and leads to \<open>n\<close> by the rules of path resolution (links spliced in front of
  the rest, absolute targets from the root, \<^verbatim>\<open>..\<close> one directory up, a final link followed
  only on request), with either no link crossed or at most 40 links and 4096 bytes in total.
  The interning of node handles does not show.
\<close>
theorem lookup_path_walk_denotes:
  "lookup_path_walk v (Some root) path f = Inr n \<longleftrightarrow>
     starts_with_slash path \<and> (\<exists>k e. names v f root [root] (path_names path) k e n
       \<and> (k = 0 \<or> k \<le> SYMLOOP_MAX \<and> length path + e \<le> MAX_EXPANDED_BYTES))"
  by (cases "starts_with_slash path") (simp add: names_lookup, simp add: lookup_path_walk_nodes)



lemma components_slash: "components (slash # p) = components p"
  by (simp add: components_def)

text \<open>
  C36: a link with target \<^verbatim>\<open>/../etc\<close> leaves the guest tree.  A program that opens \<^verbatim>\<open>/../etc\<close> gets
  \<^verbatim>\<open>/mnt/etc\<close>.  But if a link \<open>c\<close> in \<^verbatim>\<open>/mnt\<close>, the root directory of the guest, has this target, and
  \<^verbatim>\<open>/mnt\<close> and \<^verbatim>\<open>/etc\<close> are not links themselves, then \<^verbatim>\<open>/mnt/c\<close> resolves to the entry \<^verbatim>\<open>etc\<close> of the kernel's
  own root directory.
\<close>
theorem guest_target_escapes:
  assumes mnt: "vn_lookup v root (ascii ''mnt'') = Some g" "vn_is_directory v g" "\<not> vn_is_symlink v g"
    and etc: "vn_lookup v root (ascii ''etc'') = Some m" "\<not> vn_is_symlink v m"
    and link: "vn_lookup v g c = Some l" "vn_is_symlink v l" "vn_read_link v l = Some (ascii ''/../etc'')"
    and c: "path_names c = [c]" "c \<noteq> dotdot" "length c \<le> 4000"
  shows "lookup_path_walk v (Some root) (ascii ''/mnt/'' @ c) True = Inr m
    \<and> resolve_path cwd (ascii ''/../etc'') = ascii ''/mnt/etc''"
proof -
  let ?t = "ascii ''/../etc''" and ?p = "ascii ''/mnt/'' @ c"
  have p: "starts_with_slash ?p" "path_names ?p = [ascii ''mnt'', c]" "length ?p = 5 + length c"
    using components_mnt[of "slash # c"] c(1)
    by (simp_all add: starts_with_slash_def slash_def ascii_def components_path_names[symmetric] components_slash[unfolded slash_def])
  have t: "absolute_names ?t = [ascii ''mnt'', dotdot, ascii ''etc'']" "absolute_bytes ?t = 11" "?t \<noteq> []" "hd ?t = 0x2F"
    by (simp_all add: absolute_names_def absolute_bytes_def shared_target_def kernel_trees_def ascii_def
        components_path_names[symmetric] components_def slash_def dot_def dotdot_def)
  have ne: "ascii ''mnt'' \<noteq> [0x2E, 0x2E]" "ascii ''etc'' \<noteq> [0x2E, 0x2E]"
    by (simp_all add: ascii_def)
  have "names v True root [g, root] [dotdot, ascii ''etc''] 0 0 m"
    unfolding dotdot_def by (intro names_up names_child[OF ne(2) etc(1)] names_here) (use etc in auto)
  then have "names v True root [root] (absolute_names ?t @ []) 0 0 m"
    unfolding t append_Nil2 by (intro names_child[OF ne(1) mnt(1)]) (use mnt in auto)
  then have "names v True root [g, root] [c] (Suc 0) (absolute_bytes ?t + 0) m"
    using c(2) by (intro names_absolute[OF _ link(1,2) _ link(3) t(3,4)]) (simp_all add: dotdot_def)
  then have "names v True root [root] [ascii ''mnt'', c] (Suc 0) 11 m"
    unfolding t by (intro names_child[OF ne(1) mnt(1)]) (use mnt in auto)
  moreover have "resolve_path cwd ?t = ascii ''/mnt/etc''"
    by (simp add: resolve_path_def starts_with_slash_def guest_path_keeps_root_def
        ROOT_KEEPING_COMPONENTS_def ascii_def dot_def dotdot_def slash_def)
  moreover have "Suc 0 \<le> SYMLOOP_MAX" "length ?p + 11 \<le> MAX_EXPANDED_BYTES"
    using c(3) by (simp_all only: p(3) SYMLOOP_MAX_def MAX_EXPANDED_BYTES_def)
  ultimately show ?thesis
    unfolding names_lookup[OF p(1)] p(2) by blast
qed

definition escape_vfs :: "nat vfs_ops" where
  "escape_vfs =
     \<lparr>vn_lookup = (\<lambda>n c. if n = 0 \<and> c = ascii ''mnt'' then Some 1 else if n = 0 \<and> c = ascii ''etc'' then Some 2
                    else if n = 1 \<and> c = ascii ''x'' then Some 3 else None),
      vn_is_directory = (\<lambda>n. n < 2), vn_is_symlink = (\<lambda>n. n = 3),
      vn_read_link = (\<lambda>n. if n = 3 then Some (ascii ''/../etc'') else None)\<rparr>"

theorem guest_target_escapes_witness:
  "lookup_path_walk escape_vfs (Some 0) (ascii ''/mnt/x'') True = Inr 2"
proof -
  have "path_names (ascii ''x'') = [ascii ''x'']" "ascii ''x'' \<noteq> dotdot"
    by (simp_all add: components_path_names[symmetric] components_def ascii_def slash_def dot_def dotdot_def)
  then show ?thesis
    using guest_target_escapes[of escape_vfs 0 1 2 "ascii ''x''" 3 "[]"] by (simp add: escape_vfs_def ascii_def)
qed

end
