(* ===== verification/Ext2Symlink.thy ===== *)
theory Ext2Symlink
  imports Ext2Structs
begin

section \<open>ext2 symbolic links and link counts\<close>

text \<open>
  The layout rules of \<^verbatim>\<open>fs/ext2/symlink.rs\<close>: which targets fit into the inode, the reshaping
  of the 60 inline bytes into the words of \<^verbatim>\<open>i_block\<close> and back, and the rules for the link
  count of an inode.
\<close>

definition INLINE_CAPACITY :: nat where "INLINE_CAPACITY = 60"

definition INLINE_WORDS :: nat where "INLINE_WORDS = 15"

definition FAST_MAX_TARGET :: nat where "FAST_MAX_TARGET = INLINE_CAPACITY - 1"

datatype symlink_layout = Fast | Slow

datatype symlink_error = Empty | TooBig

record symlink_plan =
  sp_layout :: symlink_layout
  sp_size :: nat
  sp_inline :: "bytes option"

definition plan :: "bytes \<Rightarrow> symlink_error + symlink_plan" where
  "plan target =
     (let len = length target
      in if len = 0 then Inl Empty
         else if unat (- 1 :: u32) < len then Inl TooBig
         else if len \<le> FAST_MAX_TARGET then
           let inl = put_bytes (replicate INLINE_CAPACITY 0) 0 target
           in Inr \<lparr>sp_layout = Fast, sp_size = len, sp_inline = Some inl\<rparr>
         else Inr \<lparr>sp_layout = Slow, sp_size = len, sp_inline = None\<rparr>)"

definition is_fast :: "u32 \<Rightarrow> u32 \<Rightarrow> bool" where
  "is_fast blks sz \<longleftrightarrow> blks = 0 \<and> unat sz \<le> INLINE_CAPACITY"

definition fast_target :: "bytes \<Rightarrow> u32 \<Rightarrow> bytes option" where
  "fast_target inl sz = (let n = unat sz in if INLINE_CAPACITY < n then None else Some (take n inl))"

definition inline_words :: "bytes \<Rightarrow> u32 list" where
  "inline_words inl = map (\<lambda>i. of_le (sub_bytes inl (i * 4) 4)) [0..<INLINE_WORDS]"

definition inline_bytes :: "u32 list \<Rightarrow> bytes" where
  "inline_bytes words =
     fold (\<lambda>i inl. put_bytes inl (i * 4) (le_bytes 4 (words ! i))) [0..<length words] (replicate INLINE_CAPACITY 0)"

datatype unlink_action = DropLink | FreeInode

definition unlink_action_of :: "u16 \<Rightarrow> unlink_action option" where
  "unlink_action_of links_count = (if links_count = 0 then None else if links_count = 1 then Some FreeInode else Some DropLink)"

definition link_bump :: "u16 \<Rightarrow> u16 option" where
  "link_bump links_count = (if links_count = 0 then None else checked_add links_count 1)"

subsection \<open>Properties\<close>

lemma inline_bytes_fold:
  "n \<le> 15 \<Longrightarrow> length inl = 60 \<Longrightarrow>
   fold (\<lambda>i b. put_bytes b (i * 4) (le_bytes 4 (inline_words inl ! i))) [0..<n] (replicate 60 0) = take (4 * n) inl @ replicate (60 - 4 * n) 0"
proof (induction n)
  case (Suc n)
  let ?b = "take (4 * n) inl @ replicate (60 - 4 * n) (0 :: u8)"
  have w: "le_bytes 4 (inline_words inl ! n) = sub_bytes inl (4 * n) 4"
    using Suc.prems le_bytes_of_le[of "sub_bytes inl (n * 4) 4", where ?'a = 32]
    by (simp add: inline_words_def INLINE_WORDS_def buf_simps mult.commute)
  have "put_bytes ?b (n * 4) (sub_bytes inl (4 * n) 4) = take (4 * Suc n) inl @ replicate (60 - 4 * Suc n) 0"
    using Suc.prems by (simp add: put_bytes_def sub_bytes_def take_add[symmetric] mult.commute add.commute)
  then show ?case
    using Suc by (simp add: w)
qed simp

lemma inline_round_trip: "length inl = 60 \<Longrightarrow> inline_bytes (inline_words inl) = inl"
  using inline_bytes_fold[of 15 inl] by (simp add: inline_bytes_def INLINE_CAPACITY_def inline_words_def INLINE_WORDS_def)

text \<open>
  a symbolic link keeps its target.  An empty target and one longer than 32 bits can say are
  refused.  A target of at most 59 bytes is planned inline: written into the words of
  \<^verbatim>\<open>i_block\<close> and read back from them it is the same target, the inode is recognised as a fast
  link, and a terminating zero follows the target.  From 60 bytes on the link gets a data block.
\<close>
theorem symlink_round_trip:
  "if target = [] then plan target = Inl Empty
   else if 2 ^ 32 \<le> length target then plan target = Inl TooBig
   else if length target \<le> 59 then
     \<exists>inl. plan target = Inr \<lparr>sp_layout = Fast, sp_size = length target, sp_inline = Some inl\<rparr>
       \<and> is_fast 0 (of_nat (length target))
       \<and> fast_target (inline_bytes (inline_words inl)) (of_nat (length target)) = Some target
       \<and> inline_bytes (inline_words inl) ! length target = 0
   else plan target = Inr \<lparr>sp_layout = Slow, sp_size = length target, sp_inline = None\<rparr>"
proof -
  have "put_bytes (replicate 60 0) 0 target = target @ replicate (60 - length target) 0 \<and>
      unat (of_nat (length target) :: u32) = length target" if "length target \<le> 59"
    using that by (simp add: put_bytes_def unat_of_nat)
  moreover have "unat (- 1 :: u32) = 2 ^ 32 - 1"
    by (simp add: unsigned_minus_1_eq_mask mask_eq_exp_minus_1)
  ultimately show ?thesis
    by (auto simp: plan_def Let_def is_fast_def fast_target_def inline_round_trip FAST_MAX_TARGET_def
        INLINE_CAPACITY_def nth_append)
qed

lemma link_then_unlink: "link_bump n = Some m \<Longrightarrow> unlink_action_of m = Some DropLink \<and> m - 1 = n"
proof -
  assume b: "link_bump n = Some m"
  then have m: "m = n + 1" and lt: "unat n + 1 < 2 ^ 16" and n: "n \<noteq> 0"
    by (auto simp: link_bump_def checked_add_Some split: if_splits)
  have "unat m = unat n + 1"
    using m lt unat_plus_exact[of n 1] by simp
  then have "m \<noteq> 0" "m \<noteq> 1"
    using n by (auto simp: unat_eq_zero)
  then show ?thesis
    using m by (simp add: unlink_action_of_def)
qed

end
