(* ===== verification/Ext2Tx.thy ===== *)
theory Ext2Tx
  imports Ext2Alloc Ext2Symlink Journal "HOL-Library.AList"
begin

section \<open>ext2 transactions\<close>

text \<open>
  The transaction layer of \<^verbatim>\<open>fs/ext2/mod.rs\<close>: the working set of dirty blocks, allocation over
  the block groups, the inode table, the block map with its indirect blocks, and the commit
  through the journal; and the read path of \<^verbatim>\<open>fs/ext2/inode.rs\<close>.  Operations take and return
  the transaction; a function that changes an inode in place returns it.
\<close>

subsection \<open>The mounted file system\<close>

text \<open>
  \<^verbatim>\<open>Ext2Fs\<close> with the contents of its locks.  A transaction holds \<^verbatim>\<open>tx_lock\<close> for its whole
  life, so the model runs one at a time.  \<^verbatim>\<open>read_fs_block\<close> and \<^verbatim>\<open>write_fs_block_direct\<close>
  are the block accesses of the journal, under other names.
\<close>

record ext2_fs =
  fs_dev :: dev
  fs_sb :: ext2_super_block
  fs_gds :: "ext2_group_desc list"
  fs_journal :: journal

definition FMT_LOG_BLOCKS :: nat where "FMT_LOG_BLOCKS = 64"

definition JOURNAL_RESERVE_BLOCKS :: nat where "JOURNAL_RESERVE_BLOCKS = FMT_LOG_BLOCKS + 1"

definition SUPERBLOCK_OFFSET :: nat where "SUPERBLOCK_OFFSET = 1024"

definition ext2_journal_area :: "ext2_super_block \<Rightarrow> journal_area" where
  "ext2_journal_area sb =
     \<lparr>ja_super_block = unat (s_blocks_count sb), ja_log_blocks = FMT_LOG_BLOCKS, ja_fs_blocks = unat (s_blocks_count sb)\<rparr>"

definition inode_location :: "ext2_super_block \<Rightarrow> ext2_group_desc list \<Rightarrow> u32 \<Rightarrow> fs_error + nat \<times> nat" where
  "inode_location sb gds ino =
     (if ino = 0 \<or> s_inodes_count sb < ino then Inl Corrupt
      else
        let index = unat (ino - 1); ipg = unat (max (s_inodes_per_group sb) 1); group = index div ipg
        in if length gds \<le> group then Inl Corrupt
           else
             let within = index mod ipg; isz = inode_size sb; ipb = BS div isz;
                 block = unat (bg_inode_table (gds ! group)) + within div ipb;
                 off = (within mod ipb) * isz
             in Inr (block, off))"

subsection \<open>The working set\<close>

text \<open>
  The dirty blocks of a transaction, a \<^verbatim>\<open>BTreeMap\<close>, are an association list; where the code
  iterates over them it does so in the order of the block numbers.
\<close>

record tx =
  tx_dev :: dev
  tx_sb :: ext2_super_block
  tx_gds :: "ext2_group_desc list"
  tx_dirty :: "(nat \<times> bytes) list"
  tx_data :: "nat list"

type_synonym 'a txm = "tx \<Rightarrow> (fs_error + 'a) \<times> tx"

definition tx_return :: "'a \<Rightarrow> 'a txm" where
  "tx_return x t = (Inr x, t)"

definition tx_throw :: "fs_error \<Rightarrow> 'a txm" where
  "tx_throw e t = (Inl e, t)"

definition tx_bind :: "'a txm \<Rightarrow> ('a \<Rightarrow> 'b txm) \<Rightarrow> 'b txm" where
  "tx_bind m f t = (case m t of (Inl e, t') \<Rightarrow> (Inl e, t') | (Inr x, t') \<Rightarrow> f x t')"

definition tx_new :: "ext2_fs \<Rightarrow> tx" where
  "tx_new fs = \<lparr>tx_dev = fs_dev fs, tx_sb = fs_sb fs, tx_gds = fs_gds fs, tx_dirty = [], tx_data = []\<rparr>"

text \<open>The dirty block after \<^verbatim>\<open>self.dirty.get(..).unwrap()\<close>, and its update in place.\<close>

definition tx_get :: "tx \<Rightarrow> nat \<Rightarrow> bytes" where
  "tx_get t blk = (case map_of (tx_dirty t) blk of Some b \<Rightarrow> b | None \<Rightarrow> [])"

definition tx_put :: "nat \<Rightarrow> bytes \<Rightarrow> tx \<Rightarrow> tx" where
  "tx_put blk b t = t\<lparr>tx_dirty := AList.update blk b (tx_dirty t)\<rparr>"

definition tx_read :: "nat \<Rightarrow> bytes txm" where
  "tx_read blk t = (case read_block blk (tx_dev t) of (r, d) \<Rightarrow> (r, t\<lparr>tx_dev := d\<rparr>))"

definition tx_block :: "nat \<Rightarrow> unit txm" where
  "tx_block blk t =
     (case map_of (tx_dirty t) blk of
        Some _ \<Rightarrow> (Inr (), t)
      | None \<Rightarrow> tx_bind (tx_read blk) (\<lambda>data t. (Inr (), tx_put blk data t)) t)"

definition tx_data_block :: "nat \<Rightarrow> bool \<Rightarrow> unit txm" where
  "tx_data_block blk full_overwrite =
     tx_bind
       (\<lambda>t. case map_of (tx_dirty t) blk of
              Some _ \<Rightarrow> (Inr (), t)
            | None \<Rightarrow> tx_bind (if full_overwrite then tx_return zero_block else tx_read blk)
                        (\<lambda>data t. (Inr (), tx_put blk data t)) t)
       (\<lambda>_ t. (Inr (), t\<lparr>tx_data := List.insert blk (tx_data t)\<rparr>))"

definition set_gd :: "nat \<Rightarrow> ext2_group_desc \<Rightarrow> tx \<Rightarrow> tx" where
  "set_gd g gd t = t\<lparr>tx_gds := (tx_gds t)[g := gd]\<rparr>"

fun alloc_zeroed_groups :: "nat list \<Rightarrow> u32 txm" where
  "alloc_zeroed_groups [] t = (Inl OutOfSpace, t)"
| "alloc_zeroed_groups (g # gs) t =
     (let gd = tx_gds t ! g; bbm = unat (bg_block_bitmap gd)
      in if bg_free_blocks_count gd = 0 then alloc_zeroed_groups gs t
         else case tx_block bbm t of
                (Inl e, t) \<Rightarrow> (Inl e, t)
              | (Inr _, t) \<Rightarrow>
                  (case alloc_bit (tx_get t bbm) of
                     None \<Rightarrow> alloc_zeroed_groups gs (set_gd g (gd\<lparr>bg_free_blocks_count := 0\<rparr>) t)
                   | Some (bt, bm) \<Rightarrow>
                       let t = tx_put bbm bm t;
                           blk = s_first_data_block (tx_sb t) + of_nat g * s_blocks_per_group (tx_sb t) + bt
                       in if s_blocks_count (tx_sb t) \<le> blk
                          then alloc_zeroed_groups gs
                                 (set_gd g (gd\<lparr>bg_free_blocks_count := 0\<rparr>) (tx_put bbm (snd (clear_bit bm bt)) t))
                          else
                            let t = t\<lparr>tx_sb := (tx_sb t)\<lparr>s_free_blocks_count := saturating_sub (s_free_blocks_count (tx_sb t)) 1\<rparr>\<rparr>;
                                t = set_gd g (gd\<lparr>bg_free_blocks_count := saturating_sub (bg_free_blocks_count gd) 1\<rparr>) t
                            in case tx_block (unat blk) t of
                                 (Inl e, t) \<Rightarrow> (Inl e, t)
                               | (Inr _, t) \<Rightarrow> (Inr blk, tx_put (unat blk) (map (\<lambda>x. 0) (tx_get t (unat blk))) t)))"

definition alloc_zeroed_block :: "u32 txm" where
  "alloc_zeroed_block t = alloc_zeroed_groups [0..<length (tx_gds t)] t"

definition free_data_block :: "u32 \<Rightarrow> unit txm" where
  "free_data_block blk t =
     (let bpg = max (s_blocks_per_group (tx_sb t)) 1;
          rel = saturating_sub blk (s_first_data_block (tx_sb t));
          g = unat (rel div bpg); bt = rel mod bpg
      in if length (tx_gds t) \<le> g then (Inl Corrupt, t)
         else
           let gd = tx_gds t ! g; bbm = unat (bg_block_bitmap gd)
           in case tx_block bbm t of
                (Inl e, t) \<Rightarrow> (Inl e, t)
              | (Inr _, t) \<Rightarrow>
                  (case clear_bit (tx_get t bbm) bt of
                     (True, bm) \<Rightarrow>
                       let t = (tx_put bbm bm t)\<lparr>tx_sb := (tx_sb t)\<lparr>s_free_blocks_count := s_free_blocks_count (tx_sb t) + 1\<rparr>\<rparr>
                       in (Inr (), set_gd g (gd\<lparr>bg_free_blocks_count := bg_free_blocks_count gd + 1\<rparr>) t)
                   | (False, bm) \<Rightarrow> (Inr (), tx_put bbm bm t)))"

fun alloc_inode_groups :: "nat list \<Rightarrow> u32 txm" where
  "alloc_inode_groups [] t = (Inl OutOfSpace, t)"
| "alloc_inode_groups (g # gs) t =
     (let gd = tx_gds t ! g; ibm = unat (bg_inode_bitmap gd)
      in if bg_free_inodes_count gd = 0 then alloc_inode_groups gs t
         else case tx_block ibm t of
                (Inl e, t) \<Rightarrow> (Inl e, t)
              | (Inr _, t) \<Rightarrow>
                  (case alloc_bit (tx_get t ibm) of
                     None \<Rightarrow> alloc_inode_groups gs (set_gd g (gd\<lparr>bg_free_inodes_count := 0\<rparr>) t)
                   | Some (bt, bm) \<Rightarrow>
                       let t = tx_put ibm bm t;
                           ino = of_nat g * s_inodes_per_group (tx_sb t) + bt + 1
                       in if s_inodes_count (tx_sb t) < ino
                          then alloc_inode_groups gs
                                 (set_gd g (gd\<lparr>bg_free_inodes_count := 0\<rparr>) (tx_put ibm (snd (clear_bit bm bt)) t))
                          else
                            let t = t\<lparr>tx_sb := (tx_sb t)\<lparr>s_free_inodes_count := saturating_sub (s_free_inodes_count (tx_sb t)) 1\<rparr>\<rparr>
                            in (Inr ino, set_gd g (gd\<lparr>bg_free_inodes_count := saturating_sub (bg_free_inodes_count gd) 1\<rparr>) t)))"

definition alloc_new_inode :: "u32 txm" where
  "alloc_new_inode t = alloc_inode_groups [0..<length (tx_gds t)] t"

definition free_inode_bit :: "u32 \<Rightarrow> unit txm" where
  "free_inode_bit ino t =
     (if ino = 0 then (Inr (), t)
      else
        let ipg = max (s_inodes_per_group (tx_sb t)) 1; index = ino - 1;
            g = unat (index div ipg); bt = index mod ipg
        in if length (tx_gds t) \<le> g then (Inl Corrupt, t)
           else
             let gd = tx_gds t ! g; ibm = unat (bg_inode_bitmap gd)
             in case tx_block ibm t of
                  (Inl e, t) \<Rightarrow> (Inl e, t)
                | (Inr _, t) \<Rightarrow>
                    (case clear_bit (tx_get t ibm) bt of
                       (True, bm) \<Rightarrow>
                         let t = (tx_put ibm bm t)\<lparr>tx_sb := (tx_sb t)\<lparr>s_free_inodes_count := s_free_inodes_count (tx_sb t) + 1\<rparr>\<rparr>
                         in (Inr (), set_gd g (gd\<lparr>bg_free_inodes_count := bg_free_inodes_count gd + 1\<rparr>) t)
                     | (False, bm) \<Rightarrow> (Inr (), tx_put ibm bm t)))"

definition tx_read_inode :: "u32 \<Rightarrow> ext2_inode txm" where
  "tx_read_inode ino t =
     (case inode_location (tx_sb t) (tx_gds t) ino of
        Inl e \<Rightarrow> (Inl e, t)
      | Inr (block, off) \<Rightarrow>
          (case tx_block block t of
             (Inl e, t) \<Rightarrow> (Inl e, t)
           | (Inr _, t) \<Rightarrow> (Inr (dec_inode (drop off (tx_get t block))), t)))"

definition tx_write_inode :: "u32 \<Rightarrow> ext2_inode \<Rightarrow> unit txm" where
  "tx_write_inode ino inode t =
     (case inode_location (tx_sb t) (tx_gds t) ino of
        Inl e \<Rightarrow> (Inl e, t)
      | Inr (block, off) \<Rightarrow>
          (case tx_block block t of
             (Inl e, t) \<Rightarrow> (Inl e, t)
           | (Inr _, t) \<Rightarrow> (Inr (), tx_put block (put_bytes (tx_get t block) off (enc_inode inode)) t)))"


subsection \<open>The block map\<close>

definition ppb :: nat where "ppb = unat PTRS_PER_BLOCK"

text \<open>
  The slots of logical block \<open>lbn \<ge> 12\<close> as \<^verbatim>\<open>clear_mapping\<close> computes them: the root pointer
  in the inode and the slot in each indirect block below it.
\<close>

definition clear_path :: "nat \<Rightarrow> (nat \<times> nat list) option" where
  "clear_path lbn =
     (let l = lbn - 12
      in if l < ppb then Some (12, [l])
         else if l - ppb < ppb * ppb then
           let l2 = l - ppb in Some (13, [l2 div ppb, l2 mod ppb])
         else
           let t = l - ppb * ppb
           in if ppb * ppb * ppb \<le> t then None
              else Some (14, [t div (ppb * ppb), (t div ppb) mod ppb, t mod ppb]))"

text \<open>\<^verbatim>\<open>b.chunks_exact(4).all(|c| c == [0; 4])\<close>\<close>

definition all_zero :: "bytes \<Rightarrow> bool" where
  "all_zero b \<longleftrightarrow> list_all (\<lambda>x. x = 0) (take (length b div 4 * 4) b)"

text \<open>
  The parameter \<^verbatim>\<open>level\<close> of \<^verbatim>\<open>clear_slot\<close> is the length of the path at every call; an empty
  path does not occur.
\<close>

fun clear_slot :: "u32 \<Rightarrow> nat list \<Rightarrow> (bool \<times> u32) txm" where
  "clear_slot ind [] t = (Inl Corrupt, t)"
| "clear_slot ind (slot # path) t =
     (case tx_block (unat ind) t of
        (Inl e, t) \<Rightarrow> (Inl e, t)
      | (Inr _, t) \<Rightarrow>
          let child = read_u32 (tx_get t (unat ind)) (slot * 4)
          in case (if child = 0 then (Inr (False, 0), t)
                   else if path \<noteq> [] then clear_slot child path t
                   else case free_data_block child t of
                          (Inl e, t) \<Rightarrow> (Inl e, t)
                        | (Inr _, t) \<Rightarrow> (Inr (True, 1), t)) of
               (Inl e, t) \<Rightarrow> (Inl e, t)
             | (Inr (child_empty, freed), t) \<Rightarrow>
                 let t = (if child \<noteq> 0 \<and> child_empty
                          then tx_put (unat ind) (write_u32 (tx_get t (unat ind)) (slot * 4) 0) t else t)
                 in (Inr (all_zero (tx_get t (unat ind)), freed), t))"

definition clear_mapping :: "ext2_inode \<Rightarrow> nat \<Rightarrow> tx \<Rightarrow> (fs_error + u32) \<times> ext2_inode \<times> tx" where
  "clear_mapping inode lbn t =
     (if lbn < 12 then
        if i_block inode ! lbn = 0 then (Inr 0, inode, t)
        else case free_data_block (i_block inode ! lbn) t of
               (Inl e, t) \<Rightarrow> (Inl e, inode, t)
             | (Inr _, t) \<Rightarrow> (Inr 1, inode\<lparr>i_block := (i_block inode)[lbn := 0]\<rparr>, t)
      else case clear_path lbn of
             None \<Rightarrow> (Inr 0, inode, t)
           | Some (root_slot, path) \<Rightarrow>
               let root = i_block inode ! root_slot
               in if root = 0 then (Inr 0, inode, t)
                  else case clear_slot root path t of
                         (Inl e, t) \<Rightarrow> (Inl e, inode, t)
                       | (Inr (now_empty, freed), t) \<Rightarrow>
                           if now_empty then
                             case free_data_block root t of
                               (Inl e, t) \<Rightarrow> (Inl e, inode, t)
                             | (Inr _, t) \<Rightarrow> (Inr (freed + 1), inode\<lparr>i_block := (i_block inode)[root_slot := 0]\<rparr>, t)
                           else (Inr freed, inode, t))"

definition SECTORS :: u32 where "SECTORS = of_nat (BS div 512)"

text \<open>The direct pointers are filled in the same way as the three roots.\<close>

definition ensure_indirect_root :: "ext2_inode \<Rightarrow> nat \<Rightarrow> tx \<Rightarrow> (fs_error + u32) \<times> ext2_inode \<times> tx" where
  "ensure_indirect_root inode which t =
     (if i_block inode ! which = 0 then
        case alloc_zeroed_block t of
          (Inl e, t) \<Rightarrow> (Inl e, inode, t)
        | (Inr nb, t) \<Rightarrow>
            (Inr nb, inode\<lparr>i_block := (i_block inode)[which := nb], i_blocks := i_blocks inode + SECTORS\<rparr>, t)
      else (Inr (i_block inode ! which), inode, t))"

definition map_indirect :: "ext2_inode \<Rightarrow> u32 \<Rightarrow> nat \<Rightarrow> tx \<Rightarrow> (fs_error + u32) \<times> ext2_inode \<times> tx" where
  "map_indirect inode ind_block slot t =
     (case tx_block (unat ind_block) t of
        (Inl e, t) \<Rightarrow> (Inl e, inode, t)
      | (Inr _, t) \<Rightarrow>
          let cur = read_u32 (tx_get t (unat ind_block)) (slot * 4)
          in if cur \<noteq> 0 then (Inr cur, inode, t)
             else case alloc_zeroed_block t of
                    (Inl e, t) \<Rightarrow> (Inl e, inode, t)
                  | (Inr nb, t) \<Rightarrow>
                      let inode = inode\<lparr>i_blocks := i_blocks inode + SECTORS\<rparr>
                      in case tx_block (unat ind_block) t of
                           (Inl e, t) \<Rightarrow> (Inl e, inode, t)
                         | (Inr _, t) \<Rightarrow>
                             (Inr nb, inode, tx_put (unat ind_block) (write_u32 (tx_get t (unat ind_block)) (slot * 4) nb) t))"

text \<open>\<^verbatim>\<open>map_indirect\<close> down a path of slots, as \<^verbatim>\<open>map_or_alloc\<close> chains it.\<close>

fun map_path :: "ext2_inode \<Rightarrow> u32 \<Rightarrow> nat list \<Rightarrow> tx \<Rightarrow> (fs_error + u32) \<times> ext2_inode \<times> tx" where
  "map_path inode blk [] t = (Inr blk, inode, t)"
| "map_path inode blk (slot # path) t =
     (case map_indirect inode blk slot t of
        (Inl e, inode, t) \<Rightarrow> (Inl e, inode, t)
      | (Inr b, inode, t) \<Rightarrow> map_path inode b path t)"

definition map_root :: "ext2_inode \<Rightarrow> nat \<Rightarrow> nat list \<Rightarrow> tx \<Rightarrow> (fs_error + u32) \<times> ext2_inode \<times> tx" where
  "map_root inode which path t =
     (case ensure_indirect_root inode which t of
        (Inl e, inode, t) \<Rightarrow> (Inl e, inode, t)
      | (Inr root, inode, t) \<Rightarrow> map_path inode root path t)"

definition map_or_alloc :: "ext2_inode \<Rightarrow> nat \<Rightarrow> tx \<Rightarrow> (fs_error + u32) \<times> ext2_inode \<times> tx" where
  "map_or_alloc inode lbn t =
     (if lbn < 12 then ensure_indirect_root inode lbn t
      else
        let l = lbn - 12
        in if l < ppb then map_root inode 12 [l] t
           else
             let l = l - ppb
             in if l < ppb * ppb then map_root inode 13 [l div ppb, l mod ppb] t
                else
                  let l = l - ppb * ppb
                  in if l < ppb * ppb * ppb
                     then map_root inode 14 [l div (ppb * ppb), (l div ppb) mod ppb, l mod ppb] t
                     else (Inl OutOfSpace, inode, t))"

definition pointers :: "bytes \<Rightarrow> u32 list" where
  "pointers buf = map (\<lambda>slot. read_u32 buf (slot * 4)) [0..<ppb]"

text \<open>
  \<^verbatim>\<open>free_indirect\<close> with its level counted from zero: \<open>free_indirect 0\<close> frees an indirect block
  whose pointers are data blocks.
\<close>

fun free_each :: "(u32 \<Rightarrow> unit txm) \<Rightarrow> u32 list \<Rightarrow> unit txm" where
  "free_each f [] t = (Inr (), t)"
| "free_each f (p # ps) t =
     (if p = 0 then free_each f ps t
      else case f p t of (Inl e, t) \<Rightarrow> (Inl e, t) | (Inr _, t) \<Rightarrow> free_each f ps t)"

primrec free_indirect :: "nat \<Rightarrow> u32 \<Rightarrow> unit txm" where
  "free_indirect 0 blk = (\<lambda>t.
     if blk = 0 then (Inr (), t)
     else case tx_block (unat blk) t of
            (Inl e, t) \<Rightarrow> (Inl e, t)
          | (Inr _, t) \<Rightarrow> tx_bind (free_each free_data_block (pointers (tx_get t (unat blk)))) (\<lambda>_. free_data_block blk) t)"
| "free_indirect (Suc level) blk = (\<lambda>t.
     if blk = 0 then (Inr (), t)
     else case tx_block (unat blk) t of
            (Inl e, t) \<Rightarrow> (Inl e, t)
          | (Inr _, t) \<Rightarrow> tx_bind (free_each (free_indirect level) (pointers (tx_get t (unat blk)))) (\<lambda>_. free_data_block blk) t)"

definition free_all_blocks :: "ext2_inode \<Rightarrow> unit txm" where
  "free_all_blocks inode =
     tx_bind (free_each free_data_block (take 12 (i_block inode))) (\<lambda>_.
     tx_bind (free_indirect 0 (i_block inode ! 12)) (\<lambda>_.
     tx_bind (free_indirect 1 (i_block inode ! 13)) (\<lambda>_.
     tx_bind (free_indirect 2 (i_block inode ! 14)) tx_return)))"


definition free_inode_blocks :: "ext2_inode \<Rightarrow> unit txm" where
  "free_inode_blocks inode =
     (if is_symlink inode then
        if is_fast (i_blocks inode) (i_size inode) then tx_return ()
        else if i_block inode ! 0 \<noteq> 0 then free_data_block (i_block inode ! 0)
        else tx_return ()
      else free_all_blocks inode)"

subsection \<open>Commit\<close>

text \<open>
  \<^verbatim>\<open>Tx::commit\<close>: the superblock and the group descriptors are patched into their blocks, the
  file data is written in place, every other dirty block goes to the journal as one transaction,
  and the counters are published.
\<close>

definition put_super :: "unit txm" where
  "put_super t =
     (case tx_block 0 t of
        (Inl e, t) \<Rightarrow> (Inl e, t)
      | (Inr _, t) \<Rightarrow> (Inr (), tx_put 0 (put_bytes (tx_get t 0) SUPERBLOCK_OFFSET (enc_super_block (tx_sb t))) t))"

definition GD_SIZE :: nat where "GD_SIZE = 32"

fun put_descs :: "(nat \<times> ext2_group_desc) list \<Rightarrow> unit txm" where
  "put_descs [] t = (Inr (), t)"
| "put_descs ((g, gd) # gds) t =
     (let blk = 1 + g * GD_SIZE div BS; off = g * GD_SIZE mod BS
      in case tx_block blk t of
           (Inl e, t) \<Rightarrow> (Inl e, t)
         | (Inr _, t) \<Rightarrow> put_descs gds (tx_put blk (put_bytes (tx_get t blk) off (enc_group_desc gd)) t))"

definition dirty_data :: "tx \<Rightarrow> (nat \<times> bytes) list" where
  "dirty_data t = filter (\<lambda>(blk, b). List.member (tx_data t) blk) (sort_key fst (tx_dirty t))"

definition dirty_meta :: "tx \<Rightarrow> (nat \<times> bytes) list" where
  "dirty_meta t = filter (\<lambda>(blk, b). \<not> List.member (tx_data t) blk) (sort_key fst (tx_dirty t))"

definition tx_txn :: "tx \<Rightarrow> txn" where
  "tx_txn t = fold (\<lambda>(blk, data) txn. log_block blk data txn) (dirty_meta t) txn_begin"

definition tx_commit :: "tx \<Rightarrow> ext2_fs \<Rightarrow> (fs_error + unit) \<times> ext2_fs" where
  "tx_commit t fs =
     (case tx_bind put_super (\<lambda>_ t. put_descs (enumerate 0 (tx_gds t)) t) t of
        (Inl e, t) \<Rightarrow> (Inl e, fs\<lparr>fs_dev := tx_dev t\<rparr>)
      | (Inr _, t) \<Rightarrow>
          (case write_all (dirty_data t) (tx_dev t) of
             (Inl e, d) \<Rightarrow> (Inl e, fs\<lparr>fs_dev := d\<rparr>)
           | (Inr _, d) \<Rightarrow>
               (case commit (tx_txn t) (fs_journal fs) d of
                  (Inl e, j, d) \<Rightarrow> (Inl e, fs\<lparr>fs_dev := d, fs_journal := j\<rparr>)
                | (Inr _, j, d) \<Rightarrow>
                    (Inr (), \<lparr>fs_dev = d, fs_sb = tx_sb t, fs_gds = tx_gds t, fs_journal = j\<rparr>))))"

subsection \<open>The read path\<close>

definition nonzero :: "u32 \<Rightarrow> u32 option" where
  "nonzero p = (if p = 0 then None else Some p)"

definition read_ptr :: "u32 \<Rightarrow> nat \<Rightarrow> u32 io" where
  "read_ptr block index =
     (if block = 0 then io_return 0
      else io_bind (read_block (unat block)) (\<lambda>buf. io_return (read_u32 buf (index * 4))))"

text \<open>Follow the slots of a path, stopping at a hole, as \<^verbatim>\<open>block_for_offset\<close> does level by level.\<close>

fun read_path :: "u32 \<Rightarrow> nat list \<Rightarrow> u32 option io" where
  "read_path blk [] = io_return (nonzero blk)"
| "read_path blk (slot # path) =
     (if blk = 0 then io_return None else io_bind (read_ptr blk slot) (\<lambda>p. read_path p path))"

definition block_for_offset :: "ext2_inode \<Rightarrow> nat \<Rightarrow> u32 option io" where
  "block_for_offset inode off =
     (let idx = off div BS
      in if idx < 12 then io_return (nonzero (i_block inode ! idx))
         else
           let idx = idx - 12
           in if idx < ppb then read_path (i_block inode ! 12) [idx]
              else
                let idx = idx - ppb
                in if idx < ppb * ppb then read_path (i_block inode ! 13) [idx div ppb, idx mod ppb]
                   else
                     let idx = idx - ppb * ppb
                     in if idx < ppb * ppb * ppb
                        then read_path (i_block inode ! 14) [idx div (ppb * ppb), (idx div ppb) mod ppb, idx mod ppb]
                        else io_return None)"

definition fs_read_inode :: "ext2_fs \<Rightarrow> u32 \<Rightarrow> ext2_inode io" where
  "fs_read_inode fs ino =
     (case inode_location (fs_sb fs) (fs_gds fs) ino of
        Inl e \<Rightarrow> (\<lambda>d. (Inl e, d))
      | Inr (block, off) \<Rightarrow> io_bind (read_block block) (\<lambda>buf. io_return (dec_inode (drop off buf))))"

end
