(* ===== verification/Ext2Ops.thy ===== *)
theory Ext2Ops
  imports Ext2Tx Ext2Dir
begin

section \<open>ext2 file system operations\<close>

text \<open>
  The operations of \<^verbatim>\<open>fs/ext2/mod.rs\<close> on a mounted file system: directory lookup and
  enumeration, creation of files, directories, symbolic and hard links, removal, reading,
  writing and truncation of files, and the node adapters of the VFS.  An operation that only
  reads takes the file system and runs on its device; one that changes it runs a transaction
  and commits it.
\<close>

subsection \<open>Transactions over the file system\<close>

text \<open>
  A failing body drops its transaction, which changes nothing but the device state reads may
  have advanced.  \<open>tx_io\<close> reads the device past the working set, \<open>tx_edit\<close> is
  \<^verbatim>\<open>let buf = tx.block(blk)?\<close> followed by an update of the buffer.
\<close>

type_synonym 'a fsm = "ext2_fs \<Rightarrow> (fs_error + 'a) \<times> ext2_fs"

definition io_throw :: "fs_error \<Rightarrow> 'a io" where
  "io_throw e d = (Inl e, d)"

definition fs_io :: "'a io \<Rightarrow> 'a fsm" where
  "fs_io m fs = (case m (fs_dev fs) of (r, d) \<Rightarrow> (r, fs\<lparr>fs_dev := d\<rparr>))"

definition fs_bind :: "'a fsm \<Rightarrow> ('a \<Rightarrow> 'b fsm) \<Rightarrow> 'b fsm" where
  "fs_bind m f fs = (case m fs of (Inl e, fs) \<Rightarrow> (Inl e, fs) | (Inr x, fs) \<Rightarrow> f x fs)"

definition run_tx :: "'a txm \<Rightarrow> 'a fsm" where
  "run_tx body fs =
     (case body (tx_new fs) of
        (Inl e, t) \<Rightarrow> (Inl e, fs\<lparr>fs_dev := tx_dev t\<rparr>)
      | (Inr x, t) \<Rightarrow> fs_bind (tx_commit t) (\<lambda>_ fs. (Inr x, fs)) fs)"

definition tx_io :: "'a io \<Rightarrow> 'a txm" where
  "tx_io m t = (case m (tx_dev t) of (r, d) \<Rightarrow> (r, t\<lparr>tx_dev := d\<rparr>))"

definition tx_edit :: "nat \<Rightarrow> (bytes \<Rightarrow> (fs_error + 'a) \<times> bytes) \<Rightarrow> 'a txm" where
  "tx_edit blk f t =
     (case tx_block blk t of
        (Inl e, t) \<Rightarrow> (Inl e, t)
      | (Inr _, t) \<Rightarrow> (case f (tx_get t blk) of (r, b) \<Rightarrow> (r, tx_put blk b t)))"

subsection \<open>Directories\<close>

definition nblocks :: "ext2_inode \<Rightarrow> nat" where
  "nblocks inode = (unat (i_size inode) + BS - 1) div BS"

fun dir_entries :: "ext2_inode \<Rightarrow> nat list \<Rightarrow> (bytes \<times> u32) list io" where
  "dir_entries inode [] = io_return []"
| "dir_entries inode (lbn # lbns) =
     io_bind (block_for_offset inode (lbn * BS)) (\<lambda>b. case b of
       None \<Rightarrow> dir_entries inode lbns
     | Some blk \<Rightarrow>
         io_bind (read_block (unat blk)) (\<lambda>buf.
           case iter_entries buf of
             Inl e \<Rightarrow> io_throw e
           | Inr es \<Rightarrow>
               io_bind (dir_entries inode lbns) (\<lambda>rest.
                 io_return (map (\<lambda>e. (e_name e, e_inode e)) (filter (\<lambda>e. e_inode e \<noteq> 0) es) @ rest))))"

definition read_dir_entries :: "ext2_fs \<Rightarrow> u32 \<Rightarrow> (bytes \<times> u32) list io" where
  "read_dir_entries fs dir_ino =
     io_bind (fs_read_inode fs dir_ino) (\<lambda>inode.
       if \<not> is_dir inode then io_throw NotFound else dir_entries inode [0..<nblocks inode])"

fun lookup_blocks :: "ext2_inode \<Rightarrow> bytes \<Rightarrow> nat list \<Rightarrow> u32 io" where
  "lookup_blocks inode name [] = io_throw NotFound"
| "lookup_blocks inode name (lbn # lbns) =
     io_bind (block_for_offset inode (lbn * BS)) (\<lambda>b. case b of
       None \<Rightarrow> lookup_blocks inode name lbns
     | Some blk \<Rightarrow>
         io_bind (read_block (unat blk)) (\<lambda>buf.
           case dir_find buf name of
             Inl e \<Rightarrow> io_throw e
           | Inr (Some (ino, _)) \<Rightarrow> io_return ino
           | Inr None \<Rightarrow> lookup_blocks inode name lbns))"

definition lookup_entry :: "ext2_fs \<Rightarrow> u32 \<Rightarrow> bytes \<Rightarrow> u32 io" where
  "lookup_entry fs dir_ino name =
     io_bind (fs_read_inode fs dir_ino) (\<lambda>inode.
       if \<not> is_dir inode then io_throw NotFound else lookup_blocks inode name [0..<nblocks inode])"

text \<open>
  The scan of \<^verbatim>\<open>insert_dirent\<close> for a duplicate and that of \<^verbatim>\<open>unlink\<close> for its entry are the
  same loop; it yields the directory block and the inode of the entry.
\<close>

fun find_dirent :: "ext2_inode \<Rightarrow> bytes \<Rightarrow> nat list \<Rightarrow> (u32 \<times> u32) option txm" where
  "find_dirent inode name [] = tx_return None"
| "find_dirent inode name (lbn # lbns) =
     tx_bind (tx_io (block_for_offset inode (lbn * BS))) (\<lambda>b. case b of
       None \<Rightarrow> find_dirent inode name lbns
     | Some blk \<Rightarrow>
         tx_bind (tx_edit (unat blk) (\<lambda>buf. (dir_find buf name, buf))) (\<lambda>hit. case hit of
           Some (ino, _) \<Rightarrow> tx_return (Some (blk, ino))
         | None \<Rightarrow> find_dirent inode name lbns))"

fun insert_blocks :: "ext2_inode \<Rightarrow> bytes \<Rightarrow> u32 \<Rightarrow> nat list \<Rightarrow> bool txm" where
  "insert_blocks inode name child_ino [] = tx_return False"
| "insert_blocks inode name child_ino (lbn # lbns) =
     tx_bind (tx_io (block_for_offset inode (lbn * BS))) (\<lambda>b. case b of
       None \<Rightarrow> insert_blocks inode name child_ino lbns
     | Some blk \<Rightarrow>
         tx_bind (tx_edit (unat blk) (\<lambda>buf. insert_into_block buf name child_ino)) (\<lambda>inserted.
           if inserted then tx_return True else insert_blocks inode name child_ino lbns))"

definition grow_dir :: "u32 \<Rightarrow> ext2_inode \<Rightarrow> bytes \<Rightarrow> u32 \<Rightarrow> unit txm" where
  "grow_dir dir_ino dinode name child_ino t =
     (case map_or_alloc dinode (nblocks dinode) t of
        (Inl e, dinode, t) \<Rightarrow> (Inl e, t)
      | (Inr blk, dinode, t) \<Rightarrow>
          tx_bind (tx_edit (unat blk) (\<lambda>buf. insert_into_block (init_empty_block buf) name child_ino)) (\<lambda>ok.
            if \<not> ok then tx_throw Corrupt
            else tx_write_inode dir_ino (dinode\<lparr>i_size := i_size dinode + of_nat BS\<rparr>)) t)"

definition insert_dirent :: "u32 \<Rightarrow> bytes \<Rightarrow> u32 \<Rightarrow> unit txm" where
  "insert_dirent dir_ino name child_ino =
     (if length name > 255 then tx_throw NameTooLong
      else tx_bind (tx_read_inode dir_ino) (\<lambda>dinode.
        let lbns = [0..<nblocks dinode]
        in tx_bind (find_dirent dinode name lbns) (\<lambda>hit.
             if hit \<noteq> None then tx_throw AlreadyExists
             else tx_bind (insert_blocks dinode name child_ino lbns) (\<lambda>inserted.
               if inserted then tx_write_inode dir_ino dinode
               else grow_dir dir_ino dinode name child_ino))))"

text \<open>A failing probe of \<^verbatim>\<open>check_new_entry\<close> counts as \<^verbatim>\<open>not there\<close>, whatever the error was.\<close>

definition check_new_entry :: "u32 \<Rightarrow> bytes \<Rightarrow> unit fsm" where
  "check_new_entry parent_ino name fs =
     (if name = [] \<or> name = [0x2E] \<or> name = [0x2E, 0x2E] then (Inl Corrupt, fs)
      else if 0x2F \<in> set name then (Inl Corrupt, fs)
      else if length name > 255 then (Inl NameTooLong, fs)
      else case fs_io (lookup_entry fs parent_ino name) fs of
             (Inr _, fs) \<Rightarrow> (Inl AlreadyExists, fs)
           | (Inl _, fs) \<Rightarrow> (Inr (), fs))"

subsection \<open>Creating and linking\<close>

text \<open>
  The group of an inode is computed with a division by \<^verbatim>\<open>s_inodes_per_group\<close>, which a mounted
  file system has checked to be nonzero.
\<close>

definition add_used_dirs :: "u32 \<Rightarrow> (u16 \<Rightarrow> u16) \<Rightarrow> unit txm" where
  "add_used_dirs ino f t =
     (let g = unat ((ino - 1) div s_inodes_per_group (tx_sb t)); gd = tx_gds t ! g
      in (Inr (), set_gd g (gd\<lparr>bg_used_dirs_count := f (bg_used_dirs_count gd)\<rparr>) t))"

definition new_dir_inode :: "u32 \<Rightarrow> ext2_inode" where
  "new_dir_inode dblock = zeroed\<lparr>i_mode := S_IFDIR OR 0x1ED, i_links_count := 2, i_size := of_nat BS,
     i_blocks := SECTORS, i_block := (i_block zeroed)[0 := dblock]\<rparr>"

definition new_file_inode :: ext2_inode where
  "new_file_inode = zeroed\<lparr>i_mode := S_IFREG OR 0x1A4, i_links_count := 1, i_size := 0, i_blocks := 0\<rparr>"

definition create_tx :: "u32 \<Rightarrow> bytes \<Rightarrow> bool \<Rightarrow> u32 txm" where
  "create_tx parent_ino name isdir =
     tx_bind alloc_new_inode (\<lambda>new_ino.
     tx_bind
       (if isdir then
          tx_bind alloc_zeroed_block (\<lambda>dblock.
          tx_bind (tx_edit (unat dblock) (\<lambda>buf. (Inr (), init_dot_entries buf new_ino parent_ino))) (\<lambda>_.
            tx_return (new_dir_inode dblock)))
        else tx_return new_file_inode) (\<lambda>inode.
     tx_bind (tx_write_inode new_ino inode) (\<lambda>_.
     tx_bind (insert_dirent parent_ino name new_ino) (\<lambda>_.
       if isdir then
         tx_bind (tx_read_inode parent_ino) (\<lambda>pinode.
         tx_bind (tx_write_inode parent_ino (pinode\<lparr>i_links_count := i_links_count pinode + 1\<rparr>)) (\<lambda>_.
         tx_bind (add_used_dirs new_ino (\<lambda>n. n + 1)) (\<lambda>_. tx_return new_ino)))
       else tx_return new_ino))))"

definition create :: "u32 \<Rightarrow> bytes \<Rightarrow> bool \<Rightarrow> u32 fsm" where
  "create parent_ino name isdir =
     fs_bind (check_new_entry parent_ino name) (\<lambda>_. run_tx (create_tx parent_ino name isdir))"

text \<open>
  A slow target is copied into one block with \<^verbatim>\<open>b[..target.len()].copy_from_slice\<close>, which panics
  on a target longer than the block.  \<open>None\<close> is that panic.
\<close>

definition symlink_inode :: "bytes \<Rightarrow> symlink_plan \<Rightarrow> ext2_inode option txm" where
  "symlink_inode target p =
     (let inode = zeroed\<lparr>i_mode := S_IFLNK OR 0x1FF, i_size := of_nat (sp_size p), i_links_count := 1\<rparr>
      in case sp_layout p of
           Fast \<Rightarrow>
             let inl = (case sp_inline p of Some x \<Rightarrow> x | None \<Rightarrow> replicate INLINE_CAPACITY 0)
             in tx_return (Some (inode\<lparr>i_block := inline_words inl, i_blocks := 0\<rparr>))
         | Slow \<Rightarrow>
             tx_bind alloc_zeroed_block (\<lambda>blk.
             tx_bind (tx_data_block (unat blk) True) (\<lambda>_ t.
               if BS < length target then (Inr None, t)
               else (Inr (Some (inode\<lparr>i_block := (i_block inode)[0 := blk], i_blocks := SECTORS\<rparr>)),
                     tx_put (unat blk) (put_bytes (tx_get t (unat blk)) 0 target) t))))"

definition symlink_tx :: "u32 \<Rightarrow> bytes \<Rightarrow> bytes \<Rightarrow> symlink_plan \<Rightarrow> u32 option txm" where
  "symlink_tx parent_ino name target p =
     tx_bind alloc_new_inode (\<lambda>new_ino.
     tx_bind (symlink_inode target p) (\<lambda>r. case r of
       None \<Rightarrow> tx_return None
     | Some inode \<Rightarrow>
         tx_bind (tx_write_inode new_ino inode) (\<lambda>_.
         tx_bind (insert_dirent parent_ino name new_ino) (\<lambda>_. tx_return (Some new_ino)))))"

definition create_symlink :: "u32 \<Rightarrow> bytes \<Rightarrow> bytes \<Rightarrow> ext2_fs \<Rightarrow> ((fs_error + u32) \<times> ext2_fs) option" where
  "create_symlink parent_ino name target fs =
     (case check_new_entry parent_ino name fs of
        (Inl e, fs) \<Rightarrow> Some (Inl e, fs)
      | (Inr _, fs) \<Rightarrow>
          (case plan target of
             Inl Empty \<Rightarrow> Some (Inl Corrupt, fs)
           | Inl TooBig \<Rightarrow> Some (Inl FileTooBig, fs)
           | Inr p \<Rightarrow>
               (case symlink_tx parent_ino name target p (tx_new fs) of
                  (Inl e, t) \<Rightarrow> Some (Inl e, fs\<lparr>fs_dev := tx_dev t\<rparr>)
                | (Inr None, t) \<Rightarrow> None
                | (Inr (Some new_ino), t) \<Rightarrow> Some (fs_bind (tx_commit t) (\<lambda>_ fs. (Inr new_ino, fs)) fs))))"

definition link_tx :: "u32 \<Rightarrow> bytes \<Rightarrow> u32 \<Rightarrow> unit txm" where
  "link_tx parent_ino name target_ino =
     tx_bind (tx_read_inode target_ino) (\<lambda>target.
       if is_dir target then tx_throw AlreadyExists
       else case link_bump (i_links_count target) of
              None \<Rightarrow> tx_throw Corrupt
            | Some n \<Rightarrow>
                tx_bind (tx_write_inode target_ino (target\<lparr>i_links_count := n\<rparr>)) (\<lambda>_.
                  insert_dirent parent_ino name target_ino))"

definition link :: "u32 \<Rightarrow> bytes \<Rightarrow> u32 \<Rightarrow> unit fsm" where
  "link parent_ino name target_ino =
     fs_bind (check_new_entry parent_ino name) (\<lambda>_. run_tx (link_tx parent_ino name target_ino))"

subsection \<open>Removing\<close>

fun dir_is_empty :: "ext2_inode \<Rightarrow> nat list \<Rightarrow> bool io" where
  "dir_is_empty child [] = io_return True"
| "dir_is_empty child (lbn # lbns) =
     io_bind (block_for_offset child (lbn * BS)) (\<lambda>b. case b of
       None \<Rightarrow> dir_is_empty child lbns
     | Some cb \<Rightarrow>
         io_bind (read_block (unat cb)) (\<lambda>buf.
           case live_entry_count buf of
             Inl e \<Rightarrow> io_throw e
           | Inr n \<Rightarrow> if n \<noteq> 0 then io_return False else dir_is_empty child lbns))"

text \<open>
  The release of the child: \<^verbatim>\<open>released\<close> and the link count the inode is written back with.
\<close>

definition release_child :: "u32 \<Rightarrow> ext2_inode \<Rightarrow> ext2_inode txm" where
  "release_child child_ino child =
     (let free = tx_bind (free_inode_blocks child) (\<lambda>_. tx_bind (free_inode_bit child_ino) (\<lambda>_.
                   tx_return (child\<lparr>i_links_count := 0\<rparr>)))
      in if is_dir child then free
         else case unlink_action_of (i_links_count child) of
                Some DropLink \<Rightarrow> tx_return (child\<lparr>i_links_count := i_links_count child - 1\<rparr>)
              | Some FreeInode \<Rightarrow> free
              | None \<Rightarrow> tx_throw Corrupt)"

definition unlink_tx :: "u32 \<Rightarrow> bytes \<Rightarrow> unit txm" where
  "unlink_tx parent_ino name =
     tx_bind (tx_read_inode parent_ino) (\<lambda>pinode.
       if \<not> is_dir pinode then tx_throw NotFound
       else tx_bind (find_dirent pinode name [0..<nblocks pinode]) (\<lambda>found. case found of
         None \<Rightarrow> tx_throw NotFound
       | Some (dir_block, child_ino) \<Rightarrow>
           tx_bind (tx_read_inode child_ino) (\<lambda>child.
           tx_bind (if is_dir child then tx_io (dir_is_empty child [0..<nblocks child]) else tx_return True) (\<lambda>ok.
             if \<not> ok then tx_throw AlreadyExists
             else
               tx_bind (tx_edit (unat dir_block) (\<lambda>buf. remove_from_block buf name)) (\<lambda>_.
               tx_bind (release_child child_ino child) (\<lambda>child.
               tx_bind (tx_write_inode child_ino child) (\<lambda>_.
                 if is_dir child then
                   tx_bind (add_used_dirs child_ino (\<lambda>n. saturating_sub n 1)) (\<lambda>_.
                     tx_write_inode parent_ino (pinode\<lparr>i_links_count := saturating_sub (i_links_count pinode) 1\<rparr>))
                 else tx_write_inode parent_ino pinode)))))))"

definition unlink :: "u32 \<Rightarrow> bytes \<Rightarrow> unit fsm" where
  "unlink parent_ino name fs =
     (if name = [0x2E] \<or> name = [0x2E, 0x2E] then (Inl Corrupt, fs) else run_tx (unlink_tx parent_ino name) fs)"

subsection \<open>File contents\<close>

text \<open>The bytes \<^verbatim>\<open>read_file\<close> places at the start of its buffer; their number is its result.\<close>

function read_loop :: "ext2_inode \<Rightarrow> nat \<Rightarrow> nat \<Rightarrow> bytes io" where
  "read_loop inode pos n =
     (if n = 0 then io_return []
      else
        let within = pos mod BS; chunk = min (BS - within) n
        in io_bind (block_for_offset inode pos) (\<lambda>b.
           io_bind (case b of
                      Some blk \<Rightarrow> io_bind (read_block (unat blk)) (\<lambda>buf. io_return (sub_bytes buf within chunk))
                    | None \<Rightarrow> io_return (replicate chunk 0)) (\<lambda>part.
           io_bind (read_loop inode (pos + chunk) (n - chunk)) (\<lambda>rest. io_return (part @ rest)))))"
  by pat_completeness auto
termination by (relation "measure (\<lambda>(inode, pos, n). n)") (auto simp: BS_def)

declare read_loop.simps [simp del]

definition read_file :: "ext2_fs \<Rightarrow> u32 \<Rightarrow> nat \<Rightarrow> nat \<Rightarrow> bytes io" where
  "read_file fs ino offset len =
     io_bind (fs_read_inode fs ino) (\<lambda>inode.
       let sz = unat (i_size inode)
       in if sz \<le> offset then io_return [] else read_loop inode offset (min len (sz - offset)))"

definition read_symlink :: "ext2_fs \<Rightarrow> u32 \<Rightarrow> bytes io" where
  "read_symlink fs ino =
     io_bind (fs_read_inode fs ino) (\<lambda>inode.
       if \<not> is_symlink inode then io_throw Corrupt
       else if is_fast (i_blocks inode) (i_size inode) then
         case fast_target (inline_bytes (i_block inode)) (i_size inode) of
           None \<Rightarrow> io_throw Corrupt | Some target \<Rightarrow> io_return target
       else
         let sz = unat (i_size inode)
         in if sz = 0 then io_return []
            else io_bind (block_for_offset inode 0) (\<lambda>b.
                   if b = None then io_throw Corrupt else read_file fs ino 0 sz))"

definition TX_DATA_BLOCKS :: nat where "TX_DATA_BLOCKS = 64"

text \<open>
  The inner loop of \<^verbatim>\<open>write_file\<close>: the number of blocks the transaction may still touch, the
  position and the data left to write.
\<close>

fun write_blocks :: "nat \<Rightarrow> ext2_inode \<Rightarrow> nat \<Rightarrow> bytes \<Rightarrow> tx \<Rightarrow> (fs_error + nat \<times> bytes) \<times> ext2_inode \<times> tx" where
  "write_blocks 0 inode pos data t = (Inr (pos, data), inode, t)"
| "write_blocks (Suc k) inode pos data t =
     (if data = [] then (Inr (pos, data), inode, t)
      else
        let lbn = pos div BS; within = pos mod BS
        in case map_or_alloc inode lbn t of
             (Inl e, inode, t) \<Rightarrow> (Inl e, inode, t)
           | (Inr blk, inode, t) \<Rightarrow>
               let chunk = min (BS - within) (length data); full = (within = 0 \<and> chunk = BS)
               in case tx_data_block (unat blk) full t of
                    (Inl e, t) \<Rightarrow> (Inl e, inode, t)
                  | (Inr _, t) \<Rightarrow>
                      write_blocks k inode (pos + chunk) (drop chunk data)
                        (tx_put (unat blk) (put_bytes (tx_get t (unat blk)) within (take chunk data)) t))"

definition write_tx :: "u32 \<Rightarrow> nat \<Rightarrow> bytes \<Rightarrow> (nat \<times> bytes) txm" where
  "write_tx ino pos data =
     tx_bind (tx_read_inode ino) (\<lambda>inode t.
       if \<not> is_reg inode then (Inl Corrupt, t)
       else case write_blocks TX_DATA_BLOCKS inode pos data t of
              (Inl e, inode, t) \<Rightarrow> (Inl e, t)
            | (Inr (pos, rest), inode, t) \<Rightarrow>
                let inode = (if unat (i_size inode) < pos then inode\<lparr>i_size := of_nat pos\<rparr> else inode)
                in tx_bind (tx_write_inode ino inode) (\<lambda>_. tx_return (pos, rest)) t)"

lemma write_blocks_rest:
  "write_blocks k inode pos data t = (Inr (pos', rest), inode', t') \<Longrightarrow> length rest \<le> length data"
proof (induction k arbitrary: inode pos data t)
  case (Suc k)
  show ?case
  proof (cases "data = []")
    case False
    then obtain inode1 t1 c where "write_blocks k inode1 (pos + c) (drop c data) t1 = (Inr (pos', rest), inode', t')"
      using Suc.prems by (auto simp: Let_def split: prod.splits sum.splits)
    from Suc.IH[OF this] show ?thesis by simp
  qed (use Suc.prems in simp)
qed simp

lemma write_blocks_progress:
  assumes "write_blocks (Suc k) inode pos data t = (Inr (pos', rest), inode', t')" "data \<noteq> []"
  shows "length rest < length data"
proof -
  let ?c = "min (BS - pos mod BS) (length data)"
  obtain inode1 t1 where w: "write_blocks k inode1 (pos + ?c) (drop ?c data) t1 = (Inr (pos', rest), inode', t')"
    using assms by (auto simp: Let_def split: prod.splits sum.splits)
  have "0 < ?c"
    using assms(2) by (simp add: BS_def)
  then show ?thesis
    using write_blocks_rest[OF w] assms(2) by (metis diff_less length_drop length_greater_0_conv order_le_less_trans)
qed

lemma write_tx_progress:
  assumes "write_tx ino pos data t = (Inr (pos', rest), t')" "data \<noteq> []"
  shows "length rest < length data"
proof -
  have n: "TX_DATA_BLOCKS = Suc 63"
    by (simp add: TX_DATA_BLOCKS_def)
  obtain inode t1 inode' t2 where "write_blocks TX_DATA_BLOCKS inode pos data t1 = (Inr (pos', rest), inode', t2)"
    using assms(1) by (auto simp: write_tx_def tx_bind_def tx_return_def Let_def split: prod.splits sum.splits if_splits)
  then show ?thesis
    unfolding n using write_blocks_progress assms(2) by blast
qed

lemma run_tx_result: "run_tx m fs = (Inr x, fs') \<Longrightarrow> \<exists>t. m (tx_new fs) = (Inr x, t)"
  by (auto simp: run_tx_def fs_bind_def split: prod.splits sum.splits)

function write_loop :: "u32 \<Rightarrow> nat \<Rightarrow> bytes \<Rightarrow> unit fsm" where
  "write_loop ino pos data fs =
     (if data = [] then (Inr (), fs)
      else case run_tx (write_tx ino pos data) fs of
             (Inl e, fs) \<Rightarrow> (Inl e, fs)
           | (Inr (pos, rest), fs) \<Rightarrow> write_loop ino pos rest fs)"
  by pat_completeness auto
termination
  by (relation "measure (\<lambda>(ino, pos, data, fs). length data)") (auto dest!: run_tx_result write_tx_progress sym[of _ "run_tx _ _"])

declare write_loop.simps [simp del]

definition write_file :: "u32 \<Rightarrow> nat \<Rightarrow> bytes \<Rightarrow> nat fsm" where
  "write_file ino offset data =
     (if data = [] then (\<lambda>fs. (Inr 0, fs))
      else if 2 ^ 32 - 1 < offset + length data then (\<lambda>fs. (Inl FileTooBig, fs))
      else fs_bind (write_loop ino offset data) (\<lambda>_ fs. (Inr (length data), fs)))"

definition ZERO_CHUNK :: nat where "ZERO_CHUNK = 64 * 1024"

function grow_loop :: "u32 \<Rightarrow> nat \<Rightarrow> nat \<Rightarrow> unit fsm" where
  "grow_loop ino off new_size fs =
     (if new_size \<le> off then (Inr (), fs)
      else
        let n = min ZERO_CHUNK (new_size - off)
        in case write_file ino off (replicate n 0) fs of
             (Inl e, fs) \<Rightarrow> (Inl e, fs)
           | (Inr _, fs) \<Rightarrow> grow_loop ino (off + n) new_size fs)"
  by pat_completeness auto
termination by (relation "measure (\<lambda>(ino, off, new_size, fs). new_size - off)") (auto simp: ZERO_CHUNK_def)

declare grow_loop.simps [simp del]

fun clear_blocks :: "ext2_inode \<Rightarrow> u32 \<Rightarrow> nat list \<Rightarrow> tx \<Rightarrow> (fs_error + u32) \<times> ext2_inode \<times> tx" where
  "clear_blocks inode freed [] t = (Inr freed, inode, t)"
| "clear_blocks inode freed (lbn # lbns) t =
     (case clear_mapping inode lbn t of
        (Inl e, inode, t) \<Rightarrow> (Inl e, inode, t)
      | (Inr n, inode, t) \<Rightarrow> clear_blocks inode (freed + n) lbns t)"

definition zero_tail :: "ext2_inode \<Rightarrow> nat \<Rightarrow> unit txm" where
  "zero_tail inode new_size =
     (let new_nblocks = (new_size + BS - 1) div BS
      in if new_size mod BS \<noteq> 0 \<and> new_nblocks > 0 then
           tx_bind (tx_io (block_for_offset inode ((new_nblocks - 1) * BS))) (\<lambda>b. case b of
             None \<Rightarrow> tx_return ()
           | Some blk \<Rightarrow>
               tx_bind (tx_data_block (unat blk) False) (\<lambda>_ t.
                 let k = new_size mod BS; buf = tx_get t (unat blk)
                 in (Inr (), tx_put (unat blk) (take k buf @ map (\<lambda>x. 0) (drop k buf)) t)))
         else tx_return ())"

definition shrink_tx :: "u32 \<Rightarrow> nat \<Rightarrow> nat \<Rightarrow> unit txm" where
  "shrink_tx ino old_size new_size =
     tx_bind (tx_read_inode ino) (\<lambda>inode t.
       if \<not> is_reg inode then (Inl Corrupt, t)
       else case clear_blocks inode 0 [(new_size + BS - 1) div BS..<(old_size + BS - 1) div BS] t of
              (Inl e, inode, t) \<Rightarrow> (Inl e, t)
            | (Inr freed, inode, t) \<Rightarrow>
                tx_bind (zero_tail inode new_size) (\<lambda>_.
                  tx_write_inode ino (inode\<lparr>i_size := of_nat new_size,
                    i_blocks := saturating_sub (i_blocks inode) (freed * SECTORS)\<rparr>)) t)"

definition truncate_file :: "u32 \<Rightarrow> nat \<Rightarrow> unit fsm" where
  "truncate_file ino new_size fs =
     (if 2 ^ 32 - 1 < new_size then (Inl FileTooBig, fs)
      else fs_bind (\<lambda>fs. fs_io (fs_read_inode fs ino) fs) (\<lambda>inode0 fs.
        let old_size = unat (i_size inode0)
        in if \<not> is_reg inode0 then (Inl Corrupt, fs)
           else if new_size = old_size then (Inr (), fs)
           else if old_size < new_size then grow_loop ino old_size new_size fs
           else run_tx (shrink_tx ino old_size new_size) fs) fs)"

end
