(* ===== verification/Ext2Format.thy ===== *)
theory Ext2Format
  imports Ext2Tx Ext2Dir
begin

section \<open>Formatting and mounting\<close>

text \<open>
  \<^verbatim>\<open>Ext2Fs::format\<close> and \<^verbatim>\<open>Ext2Fs::mount_fs\<close> of \<^verbatim>\<open>fs/ext2/mod.rs\<close>: the layout of the block
  groups, the images the formatter writes, the checks of the superblock, and the repair of the
  free counters from the bitmaps.
\<close>

subsection \<open>The layout\<close>

definition MAX_GROUP_BLOCKS :: u32 where "MAX_GROUP_BLOCKS = of_nat (BS * 8)"

definition MAX_GROUP_INODES :: u32 where "MAX_GROUP_INODES = of_nat (BS * 8)"

definition BYTES_PER_INODE :: nat where "BYTES_PER_INODE = 16 * 1024"

definition MIN_INODES :: u32 where "MIN_INODES = 32"

definition gd_blocks :: "u32 \<Rightarrow> u32" where
  "gd_blocks groups = of_nat ((unat groups * GD_SIZE + BS - 1) div BS)"

definition meta_blocks :: "u32 \<Rightarrow> u32 \<Rightarrow> u32" where
  "meta_blocks groups itb = 1 + gd_blocks groups + 2 + itb"

text \<open>Inodes per group: the density rounded up to whole blocks of the inode table.\<close>

definition inodes_per_group :: "u32 \<Rightarrow> u32 \<Rightarrow> u32" where
  "inodes_per_group total_blocks groups =
     (let ipb = BS div INODE_SIZE;
          scaled = unat total_blocks * BS div BYTES_PER_INODE;
          per_group = max (max scaled (unat MIN_INODES) div unat groups) ipb;
          per_group = (per_group + (ipb - 1)) div ipb * ipb
      in of_nat (min per_group (unat MAX_GROUP_INODES)))"

text \<open>A tail group too small for its own metadata is dropped.\<close>

function drop_tail :: "u32 \<Rightarrow> u32 \<Rightarrow> u32 \<Rightarrow> u32 \<times> u32" where
  "drop_tail itb groups total_blocks =
     (let base = (groups - 1) * MAX_GROUP_BLOCKS; span = total_blocks - base
      in if 1 < groups \<and> span < meta_blocks groups itb + 8
         then drop_tail itb (groups - 1) ((groups - 1) * MAX_GROUP_BLOCKS)
         else (groups, total_blocks))"
  by pat_completeness auto
termination
  by (relation "measure (\<lambda>(itb, groups, total). unat groups)") (auto intro!: measure_unat)

declare drop_tail.simps [simp del]

record fmt_layout =
  fl_groups :: u32
  fl_total :: u32
  fl_ipg :: u32
  fl_itb :: u32
  fl_gdb :: u32
  fl_meta :: u32

text \<open>The geometry for a device of the given number of blocks, with the capacity checks.\<close>

definition format_layout :: "nat \<Rightarrow> fs_error + fmt_layout" where
  "format_layout device_blocks =
     (let min_table = (unat MIN_INODES * INODE_SIZE + BS - 1) div BS;
          min_ext2 = 4 + min_table + 1 + 1
      in if device_blocks < min_ext2 + JOURNAL_RESERVE_BLOCKS then Inl OutOfSpace
         else
           let data_blocks = device_blocks - JOURNAL_RESERVE_BLOCKS;
               total0 = of_nat (min data_blocks (2 ^ 32 - 1)) :: u32;
               groups0 = of_nat ((unat total0 + unat MAX_GROUP_BLOCKS - 1) div unat MAX_GROUP_BLOCKS) :: u32;
               ipg = inodes_per_group total0 groups0;
               itb = ipg div of_nat (BS div INODE_SIZE);
               (groups, total) = drop_tail itb groups0 total0;
               meta = meta_blocks groups itb
           in if total \<le> meta + 1 then Inl OutOfSpace
              else if total \<le> meta * groups + 1 then Inl OutOfSpace
              else Inr \<lparr>fl_groups = groups, fl_total = total, fl_ipg = ipg, fl_itb = itb,
                         fl_gdb = gd_blocks groups, fl_meta = meta\<rparr>)"

subsection \<open>The images\<close>

definition reserved_inodes :: u32 where "reserved_inodes = EXT2_FIRST_INO - 1"

definition fmt_super :: "fmt_layout \<Rightarrow> ext2_super_block" where
  "fmt_super l =
     \<lparr>s_inodes_count = fl_groups l * fl_ipg l, s_blocks_count = fl_total l, s_r_blocks_count = 0,
      s_free_blocks_count = fl_total l - (fl_meta l * fl_groups l + 1),
      s_free_inodes_count = fl_groups l * fl_ipg l - reserved_inodes, s_first_data_block = 0,
      s_log_block_size = 2, s_log_frag_size = 2, s_blocks_per_group = MAX_GROUP_BLOCKS,
      s_frags_per_group = MAX_GROUP_BLOCKS, s_inodes_per_group = fl_ipg l, s_mtime = 0, s_wtime = 0,
      s_mnt_count = 0, s_max_mnt_count = 0xFFFF, s_magic = EXT2_MAGIC, s_state = 1, s_errors = 1,
      s_minor_rev_level = 0, s_lastcheck = 0, s_checkinterval = 0, s_creator_os = 0, s_rev_level = 1,
      s_def_resuid = 0, s_def_resgid = 0, s_first_ino = EXT2_FIRST_INO, s_inode_size = of_nat INODE_SIZE,
      s_block_group_nr = 0, s_feature_compat = 0, s_feature_incompat = 0, s_feature_ro_compat = 0,
      s_uuid = replicate 16 0, s_volume_name = replicate 16 0\<rparr>"

definition fmt_base :: "nat \<Rightarrow> u32" where
  "fmt_base g = of_nat g * MAX_GROUP_BLOCKS"

definition fmt_span :: "fmt_layout \<Rightarrow> nat \<Rightarrow> u32" where
  "fmt_span l g = min MAX_GROUP_BLOCKS (fl_total l - fmt_base g)"

definition fmt_used :: "fmt_layout \<Rightarrow> nat \<Rightarrow> u32" where
  "fmt_used l g = (if g = 0 then fl_meta l + 1 else fl_meta l)"

definition fmt_desc :: "fmt_layout \<Rightarrow> nat \<Rightarrow> ext2_group_desc" where
  "fmt_desc l g =
     \<lparr>bg_block_bitmap = fmt_base g + 1 + fl_gdb l, bg_inode_bitmap = fmt_base g + 1 + fl_gdb l + 1,
      bg_inode_table = fmt_base g + 1 + fl_gdb l + 2,
      bg_free_blocks_count = ucast (fmt_span l g - fmt_used l g),
      bg_free_inodes_count = (if g = 0 then ucast (fl_ipg l - reserved_inodes) else ucast (fl_ipg l)),
      bg_used_dirs_count = (if g = 0 then 1 else 0), bg_pad = 0, bg_reserved = replicate 12 0\<rparr>"

definition fmt_descs :: "fmt_layout \<Rightarrow> ext2_group_desc list" where
  "fmt_descs l = map (fmt_desc l) [0..<unat (fl_groups l)]"

definition gd_table :: "fmt_layout \<Rightarrow> bytes" where
  "gd_table l = fold (\<lambda>(g, gd) b. put_bytes b (g * GD_SIZE) (enc_group_desc gd)) (enumerate 0 (fmt_descs l))
     (replicate (unat (fl_gdb l) * BS) 0)"

definition mark_bits :: "nat \<Rightarrow> nat \<Rightarrow> bytes \<Rightarrow> bytes" where
  "mark_bits a b bm = fold (\<lambda>i bm. snd (set_bit_at bm (of_nat i))) [a..<b] bm"

definition fmt_bbm :: "fmt_layout \<Rightarrow> nat \<Rightarrow> bytes" where
  "fmt_bbm l g = mark_bits (unat (fmt_span l g)) (unat MAX_GROUP_BLOCKS) (mark_bits 0 (unat (fmt_used l g)) zero_block)"

definition fmt_ibm :: "fmt_layout \<Rightarrow> nat \<Rightarrow> bytes" where
  "fmt_ibm l g = mark_bits (unat (fl_ipg l)) (unat MAX_GROUP_INODES)
     (if g = 0 then mark_bits 0 (unat reserved_inodes) zero_block else zero_block)"

definition sb_block :: "fmt_layout \<Rightarrow> bytes" where
  "sb_block l = put_bytes zero_block SUPERBLOCK_OFFSET (enc_super_block (fmt_super l))"

text \<open>The writes of one group, in their order.\<close>

definition group_writes :: "fmt_layout \<Rightarrow> nat \<Rightarrow> (nat \<times> bytes) list" where
  "group_writes l g =
     (let base = fmt_base g; gd = fmt_desc l g
      in (unat base, sb_block l)
         # map (\<lambda>i. (unat (base + 1 + of_nat i), sub_bytes (gd_table l) (i * BS) BS)) [0..<unat (fl_gdb l)]
         @ [(unat (bg_block_bitmap gd), fmt_bbm l g), (unat (bg_inode_bitmap gd), fmt_ibm l g)]
         @ map (\<lambda>b. (unat (bg_inode_table gd + of_nat b), zero_block)) [0..<unat (fl_itb l)])"

definition root_block :: bytes where
  "root_block = init_dot_entries zero_block EXT2_ROOT_INO EXT2_ROOT_INO"

definition root_inode :: "fmt_layout \<Rightarrow> ext2_inode" where
  "root_inode l = zeroed\<lparr>i_mode := S_IFDIR OR 0x1ED, i_links_count := 2, i_size := of_nat BS,
     i_blocks := SECTORS, i_block := (i_block zeroed)[0 := fl_meta l]\<rparr>"

definition format :: "unit io" where
  "format d =
     (case format_layout (capacity d) of
        Inl e \<Rightarrow> (Inl e, d)
      | Inr l \<Rightarrow>
          io_bind (write_all (concat (map (group_writes l) [0..<unat (fl_groups l)]))) (\<lambda>_.
          io_bind (write_block (unat (fl_meta l)) root_block) (\<lambda>_ d.
            case inode_location (fmt_super l) (fmt_descs l) EXT2_ROOT_INO of
              Inl e \<Rightarrow> (Inl e, d)
            | Inr (rblock, roff) \<Rightarrow>
                io_bind (write_block rblock (put_bytes zero_block roff (enc_inode (root_inode l)))) (\<lambda>_.
                  journal_format (ext2_journal_area (fmt_super l))) d)) d)"

subsection \<open>Mounting\<close>

text \<open>The block of descriptors read last is kept, so a block is read once; \<open>None\<close> is \<^verbatim>\<open>u64::MAX\<close>.\<close>

fun read_descs :: "nat list \<Rightarrow> nat option \<Rightarrow> bytes \<Rightarrow> ext2_group_desc list io" where
  "read_descs [] cached buf = io_return []"
| "read_descs (g # gs) cached buf =
     (let blk = 1 + g * GD_SIZE div BS; off = g * GD_SIZE mod BS
      in io_bind (if cached \<noteq> Some blk then read_block blk else io_return buf) (\<lambda>buf.
         io_bind (read_descs gs (Some blk) buf) (\<lambda>rest. io_return (dec_group_desc (drop off buf) # rest))))"

definition group_count :: "ext2_super_block \<Rightarrow> nat" where
  "group_count sb =
     (let span = unat (saturating_sub (s_blocks_count sb) (s_first_data_block sb)); bpg = unat (s_blocks_per_group sb)
      in (span + bpg - 1) div bpg)"

text \<open>The shift amount of \<^verbatim>\<open>1024usize << s_log_block_size\<close> is taken modulo 64.\<close>

definition super_valid :: "ext2_super_block \<Rightarrow> bool" where
  "super_valid sb \<longleftrightarrow>
     s_magic sb = EXT2_MAGIC
   \<and> (1024 * 2 ^ (unat (s_log_block_size sb) mod 64)) mod 2 ^ 64 = BS
   \<and> s_blocks_per_group sb \<noteq> 0 \<and> s_inodes_per_group sb \<noteq> 0
   \<and> (1 \<le> s_rev_level sb \<longrightarrow>
        INODE_SIZE \<le> unat (s_inode_size sb) \<and> unat (s_inode_size sb) \<le> BS \<and> is_power_of_two (unat (s_inode_size sb)))
   \<and> group_count sb \<noteq> 0 \<and> group_count sb \<le> 65536"

definition read_sb_gds :: "(ext2_super_block \<times> ext2_group_desc list) io" where
  "read_sb_gds =
     io_bind (read_block 0) (\<lambda>b0.
       let sb = dec_super_block (drop SUPERBLOCK_OFFSET b0)
       in if \<not> super_valid sb then (\<lambda>d. (Inl BadSuperBlock, d))
          else io_bind (read_descs [0..<group_count sb] None zero_block) (\<lambda>gds. io_return (sb, gds)))"

definition has_valid_superblock :: "dev \<Rightarrow> bool \<times> dev" where
  "has_valid_superblock d = (case read_sb_gds d of (Inl e, d) \<Rightarrow> (False, d) | (Inr x, d) \<Rightarrow> (True, d))"

text \<open>
  The free counts of one group from its bitmaps, and the loop over the groups, which gives the
  repaired descriptors, the totals, and whether anything changed.
\<close>

definition free_counts :: "ext2_super_block \<Rightarrow> nat \<Rightarrow> ext2_group_desc \<Rightarrow> (u32 \<times> u32) io" where
  "free_counts sb g gd =
     (let bpg = s_blocks_per_group sb; ipg = s_inodes_per_group sb;
          base = s_first_data_block sb + of_nat g * bpg;
          span = min bpg (saturating_sub (s_blocks_count sb) base);
          ispan = min ipg (saturating_sub (s_inodes_count sb) (of_nat g * ipg))
      in io_bind (read_block (unat (bg_block_bitmap gd))) (\<lambda>bbm.
         io_bind (read_block (unat (bg_inode_bitmap gd))) (\<lambda>ibm.
           io_return (saturating_sub span (count_set_bits bbm span), saturating_sub ispan (count_set_bits ibm ispan)))))"

definition repair_desc :: "ext2_group_desc \<Rightarrow> u32 \<Rightarrow> u32 \<Rightarrow> bool \<times> ext2_group_desc" where
  "repair_desc gd free_b free_i =
     (if ucast (bg_free_blocks_count gd) \<noteq> free_b \<or> ucast (bg_free_inodes_count gd) \<noteq> free_i
      then (True, gd\<lparr>bg_free_blocks_count := ucast (min free_b 0xFFFF), bg_free_inodes_count := ucast (min free_i 0xFFFF)\<rparr>)
      else (False, gd))"

fun reconcile_groups :: "ext2_super_block \<Rightarrow> (nat \<times> ext2_group_desc) list \<Rightarrow> (ext2_group_desc list \<times> u32 \<times> u32 \<times> bool) io" where
  "reconcile_groups sb [] = io_return ([], 0, 0, False)"
| "reconcile_groups sb ((g, gd) # gds) =
     io_bind (free_counts sb g gd) (\<lambda>(free_b, free_i).
     io_bind (reconcile_groups sb gds) (\<lambda>(gds, fb, fi, changed).
       case repair_desc gd free_b free_i of
         (c, gd) \<Rightarrow> io_return (gd # gds, free_b + fb, free_i + fi, c \<or> changed)))"

definition desc_block :: "ext2_group_desc list \<Rightarrow> nat \<Rightarrow> bytes \<Rightarrow> bytes" where
  "desc_block gds tb b = fold (\<lambda>(g, gd) b. put_bytes b (g * GD_SIZE mod BS) (enc_group_desc gd))
     (filter (\<lambda>(g, gd). g * GD_SIZE div BS = tb) (enumerate 0 gds)) b"

fun write_desc_blocks :: "ext2_group_desc list \<Rightarrow> nat list \<Rightarrow> unit io" where
  "write_desc_blocks gds [] = io_return ()"
| "write_desc_blocks gds (tb # tbs) =
     io_bind (read_block (1 + tb)) (\<lambda>b.
     io_bind (write_block (1 + tb) (desc_block gds tb b)) (\<lambda>_. write_desc_blocks gds tbs))"

definition reconcile_free_counts ::
  "ext2_super_block \<Rightarrow> ext2_group_desc list \<Rightarrow> (ext2_super_block \<times> ext2_group_desc list) io" where
  "reconcile_free_counts sb gds =
     io_bind (reconcile_groups sb (enumerate 0 gds)) (\<lambda>(gds, fb, fi, changed).
       let differs = (s_free_blocks_count sb \<noteq> fb \<or> s_free_inodes_count sb \<noteq> fi);
           sb = (if differs then sb\<lparr>s_free_blocks_count := fb, s_free_inodes_count := fi\<rparr> else sb)
       in if changed \<or> differs then
            io_bind (read_block 0) (\<lambda>b0.
            io_bind (write_block 0 (put_bytes b0 SUPERBLOCK_OFFSET (enc_super_block sb))) (\<lambda>_.
            io_bind (write_desc_blocks gds [0..<(length gds * GD_SIZE + BS - 1) div BS]) (\<lambda>_. io_return (sb, gds))))
          else io_return (sb, gds))"

definition mount_fs :: "dev \<Rightarrow> (fs_error + ext2_fs) \<times> dev" where
  "mount_fs d =
     (case io_bind read_sb_gds (\<lambda>(sb, _).
           io_bind (mount_journal (ext2_journal_area sb)) (\<lambda>j.
           io_bind read_sb_gds (\<lambda>(sb, gds).
           io_bind (reconcile_free_counts sb gds) (\<lambda>(sb, gds). io_return (sb, gds, j))))) d of
        (Inl e, d) \<Rightarrow> (Inl e, d)
      | (Inr (sb, gds, j), d) \<Rightarrow> (Inr \<lparr>fs_dev = d, fs_sb = sb, fs_gds = gds, fs_journal = j\<rparr>, d))"

end
