(* ===== verification/DevReads.thy ===== *)
theory DevReads
  imports Ext2Ops Ext2Format
begin

section \<open>Operations that only read\<close>

text \<open>
  A computation on the device is \<open>read_only\<close> when it leaves medium and cache as they are; only
  the command counter of a failing device moves.  The rules are collected, so that a routine is
  read-only by \<open>intro\<close> with its definition.
\<close>

named_theorems read_rules

definition read_only :: "'a io \<Rightarrow> bool" where
  "read_only m \<longleftrightarrow> (\<forall>d. \<exists>n. snd (m d) = d\<lparr>fuse := n\<rparr>)"

lemma read_onlyD: "read_only m \<Longrightarrow> m d = (r, d') \<Longrightarrow> \<exists>n. d' = d\<lparr>fuse := n\<rparr>"
  unfolding read_only_def by (metis snd_conv)

lemma read_only_nop: "(\<And>d. snd (m d) = d) \<Longrightarrow> read_only m"
  unfolding read_only_def by (metis dev.surjective dev.update_convs(4))

lemma read_only_return [read_rules]: "read_only (io_return x)"
  by (rule read_only_nop) (simp add: io_return_def)

lemma read_only_throw [read_rules]: "read_only (io_throw e)" "read_only (\<lambda>d. (Inl e, d))"
  by (rule read_only_nop; simp add: io_throw_def)+

lemma dev_read_keeps: "dev_read_block s d = (r, d') \<Longrightarrow> \<exists>n. d' = d\<lparr>fuse := n\<rparr>"
  by (cases d rule: tick_cases) (auto simp: dev_read_block_def split: if_splits intro: exI[of _ "fuse d"])

lemma read_only_block [read_rules]: "read_only (read_block b)"
  unfolding read_only_def read_block_def
  by (auto split: prod.splits sum.splits dest: dev_read_keeps)

lemma read_only_bind [read_rules]:
  assumes "read_only m" "\<And>x. read_only (f x)"
  shows "read_only (io_bind m f)"
  unfolding read_only_def
proof
  fix d
  obtain r d1 where m: "m d = (r, d1)" by (cases "m d")
  obtain n where n: "d1 = d\<lparr>fuse := n\<rparr>"
    using read_onlyD[OF assms(1) m] by blast
  show "\<exists>n. snd (io_bind m f d) = d\<lparr>fuse := n\<rparr>"
  proof (cases r)
    case (Inl e)
    then show ?thesis by (simp add: io_bind_def m n exI[of _ n])
  next
    case (Inr x)
    obtain k where "snd (f x d1) = d1\<lparr>fuse := k\<rparr>"
      using assms(2)[of x] by (auto simp: read_only_def)
    then show ?thesis by (auto simp: io_bind_def m n Inr)
  qed
qed

lemma read_only_if [read_rules]: "(c \<Longrightarrow> read_only m) \<Longrightarrow> (\<not> c \<Longrightarrow> read_only m') \<Longrightarrow> read_only (if c then m else m')"
  by simp

lemma read_only_option [read_rules]:
  "read_only m \<Longrightarrow> (\<And>x. read_only (f x)) \<Longrightarrow> read_only (case y of None \<Rightarrow> m | Some x \<Rightarrow> f x)"
  by (cases y) simp_all

lemma read_only_sum [read_rules]:
  "(\<And>e. read_only (f e)) \<Longrightarrow> (\<And>x. read_only (g x)) \<Longrightarrow> read_only (case y of Inl e \<Rightarrow> f e | Inr x \<Rightarrow> g x)"
  by (cases y) simp_all

lemma read_only_prod [read_rules]: "(\<And>a b. read_only (f a b)) \<Longrightarrow> read_only (case y of (a, b) \<Rightarrow> f a b)"
  by (cases y) simp

lemma read_only_let [read_rules]: "(\<And>x. read_only (f x)) \<Longrightarrow> read_only (let x = y in f x)"
  by simp

subsection \<open>The readers of the file system\<close>

lemma read_only_read_path [read_rules]: "read_only (read_path b p)"
  by (induction p arbitrary: b) (auto simp: read_ptr_def intro!: read_rules)

lemma read_only_block_for_offset [read_rules]: "read_only (block_for_offset inode off)"
  unfolding block_for_offset_def by (intro read_rules)

lemma read_only_fs_read_inode [read_rules]: "read_only (fs_read_inode fs ino)"
  unfolding fs_read_inode_def by (intro read_rules)

lemma read_only_dir_entries [read_rules]: "read_only (dir_entries inode ls)"
  by (induction ls) (auto intro!: read_rules)

lemma read_only_lookup_blocks [read_rules]: "read_only (lookup_blocks inode name ls)"
  by (induction ls) (auto intro!: read_rules)

lemma read_only_lookup_entry [read_rules]: "read_only (lookup_entry fs ino name)"
  unfolding lookup_entry_def by (intro read_rules)

lemma read_only_read_dir_entries [read_rules]: "read_only (read_dir_entries fs ino)"
  unfolding read_dir_entries_def by (intro read_rules)

lemma read_only_dir_is_empty [read_rules]: "read_only (dir_is_empty child ls)"
  by (induction ls) (auto intro!: read_rules)

lemma read_only_read_loop [read_rules]: "read_only (read_loop inode pos n)"
proof (induction n arbitrary: pos rule: less_induct)
  case (less n)
  show ?case
  proof (cases "n = 0")
    case False
    then have "n - min (BS - pos mod BS) n < n"
      by (simp add: BS_def)
    from less[OF this] show ?thesis
      unfolding read_loop.simps[of inode pos n] Let_def by (intro read_rules)
  qed (simp add: read_loop.simps read_rules)
qed

lemma read_only_read_file [read_rules]: "read_only (read_file fs ino off len)"
  unfolding read_file_def by (intro read_rules)

lemma read_only_read_symlink [read_rules]: "read_only (read_symlink fs ino)"
  unfolding read_symlink_def by (intro read_rules)

lemma read_only_descs [read_rules]: "read_only (read_descs gs c buf)"
  by (induction gs arbitrary: c buf) (auto simp: Let_def intro!: read_rules)

lemma read_only_read_sb_gds [read_rules]: "read_only read_sb_gds"
  unfolding read_sb_gds_def by (intro read_rules)

end
