(* ===== verification/Ext2Nodes.thy ===== *)
theory Ext2Nodes
  imports DevReads LinkWalk
begin

section \<open>ext2 behind the VFS\<close>

text \<open>
  The node adapters of \<^verbatim>\<open>fs/ext2/mod.rs\<close>: the four implementations of the trait \<^verbatim>\<open>VfsNode\<close>,
  with the defaults of the trait in \<^verbatim>\<open>vfs/mod.rs\<close> for the methods a node does not override.
  A node is a handle, so the file system is an argument of its methods.
\<close>

datatype vfs_error = NotFound | NotSupported | InvalidArgument | IoError | AlreadyExists

definition fs_to_vfs :: "fs_error \<Rightarrow> vfs_error" where
  "fs_to_vfs e =
     (case e of
        fs_error.NotFound \<Rightarrow> NotFound
      | fs_error.AlreadyExists \<Rightarrow> AlreadyExists
      | fs_error.NameTooLong \<Rightarrow> InvalidArgument
      | fs_error.FileTooBig \<Rightarrow> InvalidArgument
      | fs_error.OutOfSpace \<Rightarrow> IoError
      | _ \<Rightarrow> IoError)"

definition map_err :: "(fs_error + 'a) \<times> 's \<Rightarrow> (vfs_error + 'a) \<times> 's" where
  "map_err x = (case x of (Inl e, s) \<Rightarrow> (Inl (fs_to_vfs e), s) | (Inr y, s) \<Rightarrow> (Inr y, s))"

datatype node_kind = Ext2Dir | Ext2File | Ext2Symlink | Ext2Opaque

record ext2_node =
  en_kind :: node_kind
  en_ino :: u32
  en_name :: bytes
  en_cached_size :: nat

definition node_for :: "ext2_fs \<Rightarrow> u32 \<Rightarrow> bytes \<Rightarrow> ext2_node io" where
  "node_for fs ino name =
     io_bind (fs_read_inode fs ino) (\<lambda>inode.
       io_return \<lparr>en_kind = (if is_dir inode then Ext2Dir else if is_symlink inode then Ext2Symlink
                             else if is_reg inode then Ext2File else Ext2Opaque),
                  en_ino = ino, en_name = name, en_cached_size = unat (i_size inode)\<rparr>)"

definition root_node :: "ext2_fs \<Rightarrow> dev \<Rightarrow> ext2_node \<times> dev" where
  "root_node fs d =
     (case fs_read_inode fs EXT2_ROOT_INO d of
        (r, d) \<Rightarrow> (\<lparr>en_kind = Ext2Dir, en_ino = EXT2_ROOT_INO, en_name = [0x2F],
                   en_cached_size = (case r of Inl e \<Rightarrow> 0 | Inr i \<Rightarrow> unat (i_size i))\<rparr>, d))"

subsection \<open>Attributes\<close>

definition node_mode :: "ext2_fs \<Rightarrow> u32 \<Rightarrow> u32 \<Rightarrow> dev \<Rightarrow> u32 \<times> dev" where
  "node_mode fs ino fallback d =
     (case fs_read_inode fs ino d of (Inr inode, d) \<Rightarrow> (ucast (i_mode inode) AND 0xFFF, d) | (Inl e, d) \<Rightarrow> (fallback, d))"

definition node_owner :: "ext2_fs \<Rightarrow> u32 \<Rightarrow> dev \<Rightarrow> (u32 \<times> u32) \<times> dev" where
  "node_owner fs ino d =
     (case fs_read_inode fs ino d of
        (Inr inode, d) \<Rightarrow> ((ucast (i_uid inode), ucast (i_gid inode)), d) | (Inl e, d) \<Rightarrow> ((0, 0), d))"

definition set_inode_mode :: "u32 \<Rightarrow> u32 \<Rightarrow> unit fsm" where
  "set_inode_mode ino mode =
     run_tx (tx_bind (tx_read_inode ino) (\<lambda>inode.
       tx_write_inode ino (inode\<lparr>i_mode := (i_mode inode AND 0xF000) OR (ucast mode AND 0xFFF)\<rparr>)))"

definition set_inode_owner :: "u32 \<Rightarrow> u16 \<Rightarrow> u16 \<Rightarrow> unit fsm" where
  "set_inode_owner ino uid gid =
     run_tx (tx_bind (tx_read_inode ino) (\<lambda>inode. tx_write_inode ino (inode\<lparr>i_uid := uid, i_gid := gid\<rparr>)))"

definition ext2_set_owner :: "u32 \<Rightarrow> u32 \<Rightarrow> u32 \<Rightarrow> ext2_fs \<Rightarrow> (vfs_error + unit) \<times> ext2_fs" where
  "ext2_set_owner ino uid gid fs =
     (if 0xFFFF < uid \<or> 0xFFFF < gid then (Inl InvalidArgument, fs)
      else map_err (set_inode_owner ino (ucast uid) (ucast gid) fs))"

definition en_mode :: "ext2_fs \<Rightarrow> ext2_node \<Rightarrow> dev \<Rightarrow> u32 \<times> dev" where
  "en_mode fs n = node_mode fs (en_ino n)
     (case en_kind n of Ext2Dir \<Rightarrow> 0x1ED | Ext2File \<Rightarrow> 0x1A4 | Ext2Symlink \<Rightarrow> 0x1FF | Ext2Opaque \<Rightarrow> 0x1A4)"

definition en_set_mode :: "ext2_node \<Rightarrow> u32 \<Rightarrow> ext2_fs \<Rightarrow> (vfs_error + unit) \<times> ext2_fs" where
  "en_set_mode n mode fs = map_err (set_inode_mode (en_ino n) mode fs)"

record fs_stat =
  st_block_size :: nat
  st_blocks_total :: nat
  st_blocks_free :: nat
  st_inodes_total :: nat
  st_inodes_free :: nat

definition en_fs_stat :: "ext2_fs \<Rightarrow> ext2_node \<Rightarrow> fs_stat option" where
  "en_fs_stat fs n =
     (if en_kind n = Ext2Opaque then None
      else Some \<lparr>st_block_size = BS, st_blocks_total = unat (s_blocks_count (fs_sb fs)),
                 st_blocks_free = unat (s_free_blocks_count (fs_sb fs)), st_inodes_total = unat (s_inodes_count (fs_sb fs)),
                 st_inodes_free = unat (s_free_inodes_count (fs_sb fs))\<rparr>)"

definition en_nlink :: "ext2_fs \<Rightarrow> ext2_node \<Rightarrow> dev \<Rightarrow> nat \<times> dev" where
  "en_nlink fs n d =
     (if en_kind n = Ext2Opaque then (1, d)
      else case fs_read_inode fs (en_ino n) d of (Inr i, d) \<Rightarrow> (unat (i_links_count i), d) | (Inl e, d) \<Rightarrow> (1, d))"

definition en_size :: "ext2_fs \<Rightarrow> ext2_node \<Rightarrow> dev \<Rightarrow> nat \<times> dev" where
  "en_size fs n d =
     (if en_kind n = Ext2Opaque then (en_cached_size n, d)
      else case fs_read_inode fs (en_ino n) d of (Inr i, d) \<Rightarrow> (unat (i_size i), d) | (Inl e, d) \<Rightarrow> (en_cached_size n, d))"

subsection \<open>Directory methods\<close>

fun nodes_for :: "ext2_fs \<Rightarrow> (bytes \<times> u32) list \<Rightarrow> ext2_node list io" where
  "nodes_for fs [] = io_return []"
| "nodes_for fs ((name, ino) # es) =
     (if name = [0x2E] \<or> name = [0x2E, 0x2E] then nodes_for fs es
      else io_bind (node_for fs ino name) (\<lambda>n. io_bind (nodes_for fs es) (\<lambda>ns. io_return (n # ns))))"

definition en_readdir :: "ext2_fs \<Rightarrow> ext2_node \<Rightarrow> dev \<Rightarrow> (vfs_error + ext2_node list) \<times> dev" where
  "en_readdir fs n d =
     (if en_kind n = Ext2Dir then map_err (io_bind (read_dir_entries fs (en_ino n)) (nodes_for fs) d)
      else (Inl NotSupported, d))"

definition en_lookup :: "ext2_fs \<Rightarrow> ext2_node \<Rightarrow> bytes \<Rightarrow> dev \<Rightarrow> (vfs_error + ext2_node) \<times> dev" where
  "en_lookup fs n name d =
     (if en_kind n = Ext2Dir
      then map_err (io_bind (lookup_entry fs (en_ino n) name) (\<lambda>ino. node_for fs ino name) d)
      else (Inl NotFound, d))"

text \<open>A method that creates an entry reads the new node back from the file system it committed.\<close>

definition then_node :: "u32 fsm \<Rightarrow> bytes \<Rightarrow> ext2_node fsm" where
  "then_node m name = fs_bind m (\<lambda>ino fs. fs_io (node_for fs ino name) fs)"

definition en_create_dir :: "ext2_node \<Rightarrow> bytes \<Rightarrow> ext2_fs \<Rightarrow> (vfs_error + ext2_node) \<times> ext2_fs" where
  "en_create_dir n name fs =
     (if en_kind n = Ext2Dir then map_err (then_node (create (en_ino n) name True) name fs) else (Inl NotSupported, fs))"

definition en_create_file :: "ext2_node \<Rightarrow> bytes \<Rightarrow> ext2_fs \<Rightarrow> (vfs_error + ext2_node) \<times> ext2_fs" where
  "en_create_file n name fs =
     (if en_kind n = Ext2Dir then map_err (then_node (create (en_ino n) name False) name fs) else (Inl NotSupported, fs))"

definition en_create_symlink :: "ext2_node \<Rightarrow> bytes \<Rightarrow> bytes \<Rightarrow> ext2_fs \<Rightarrow> ((vfs_error + ext2_node) \<times> ext2_fs) option" where
  "en_create_symlink n name target fs =
     (if en_kind n = Ext2Dir
      then map_option (\<lambda>x. map_err (then_node (\<lambda>_. x) name fs)) (create_symlink (en_ino n) name target fs)
      else Some (Inl NotSupported, fs))"

definition en_link :: "ext2_node \<Rightarrow> bytes \<Rightarrow> ext2_node \<Rightarrow> ext2_fs \<Rightarrow> (vfs_error + ext2_node) \<times> ext2_fs" where
  "en_link n name target fs =
     (if en_kind n = Ext2Dir then
        if en_ino target = 0 then (Inl InvalidArgument, fs)
        else map_err (then_node (fs_bind (link (en_ino n) name (en_ino target)) (\<lambda>_ fs. (Inr (en_ino target), fs))) name fs)
      else (Inl NotSupported, fs))"

definition en_remove :: "ext2_node \<Rightarrow> bytes \<Rightarrow> ext2_fs \<Rightarrow> (vfs_error + unit) \<times> ext2_fs" where
  "en_remove n name fs =
     (if en_kind n = Ext2Dir then map_err (unlink (en_ino n) name fs) else (Inl NotSupported, fs))"

subsection \<open>File and link methods\<close>

definition en_read :: "ext2_fs \<Rightarrow> ext2_node \<Rightarrow> nat \<Rightarrow> nat \<Rightarrow> dev \<Rightarrow> (vfs_error + bytes) \<times> dev" where
  "en_read fs n off len d =
     (if en_kind n = Ext2File then map_err (read_file fs (en_ino n) off len d) else (Inl NotSupported, d))"

definition en_write :: "ext2_node \<Rightarrow> nat \<Rightarrow> bytes \<Rightarrow> ext2_fs \<Rightarrow> (vfs_error + nat) \<times> ext2_fs" where
  "en_write n off data fs =
     (if en_kind n = Ext2File then map_err (write_file (en_ino n) off data fs) else (Inl NotSupported, fs))"

definition en_truncate :: "ext2_node \<Rightarrow> nat \<Rightarrow> ext2_fs \<Rightarrow> (vfs_error + unit) \<times> ext2_fs" where
  "en_truncate n new_size fs =
     (if en_kind n = Ext2File then map_err (truncate_file (en_ino n) new_size fs) else (Inl NotSupported, fs))"

definition en_is_symlink :: "ext2_node \<Rightarrow> bool" where
  "en_is_symlink n \<longleftrightarrow> en_kind n = Ext2Symlink"

definition en_is_directory :: "ext2_node \<Rightarrow> bool" where
  "en_is_directory n \<longleftrightarrow> en_kind n = Ext2Dir"

definition target_bytes :: "ext2_fs \<Rightarrow> ext2_node \<Rightarrow> dev \<Rightarrow> bytes option \<times> dev" where
  "target_bytes fs n d = (case read_symlink fs (en_ino n) d of (Inr b, d) \<Rightarrow> (Some b, d) | (Inl e, d) \<Rightarrow> (None, d))"

definition en_read_link :: "ext2_fs \<Rightarrow> ext2_node \<Rightarrow> dev \<Rightarrow> bytes option \<times> dev" where
  "en_read_link fs n d =
     (if en_kind n = Ext2Symlink then (case target_bytes fs n d of (r, d) \<Rightarrow> (map_option utf8_lossy r, d)) else (None, d))"

text \<open>
  \<^verbatim>\<open>vfs::replace_contents\<close>, the shell's way to overwrite a file.
\<close>

definition replace_contents :: "ext2_node \<Rightarrow> bytes \<Rightarrow> ext2_fs \<Rightarrow> (vfs_error + nat) \<times> ext2_fs" where
  "replace_contents n data fs =
     (case en_truncate n 0 fs of
        (Inl e, fs) \<Rightarrow> (Inl e, fs)
      | (Inr _, fs) \<Rightarrow> if data = [] then (Inr 0, fs) else en_write n 0 data fs)"

end
