(* ===== verification/Boot.thy ===== *)
theory Boot
  imports DevReads
begin

section \<open>Which disk may be formatted\<close>

text \<open>
  The policy of \<^verbatim>\<open>fs/format_policy.rs\<close> and its only caller, \<^verbatim>\<open>init_fs\<close> of \<^verbatim>\<open>boot.rs\<close>: a disk
  that does not mount is formatted when the first MiB is blank or the operator's marker is
  present, and is left alone otherwise.  The choice of the block device and what boot does with
  the mounted file system are outside the model.
\<close>

subsection \<open>The policy\<close>

definition EXT2_MAGIC_LE :: bytes where "EXT2_MAGIC_LE = [0x53, 0xEF]"

definition GPT_SIGNATURE :: bytes where "GPT_SIGNATURE = [0x45, 0x46, 0x49, 0x20, 0x50, 0x41, 0x52, 0x54]"

definition MBR_SIGNATURE :: bytes where "MBR_SIGNATURE = [0x55, 0xAA]"

definition MIN_PROBE :: nat where "MIN_PROBE = SUPERBLOCK_OFFSET + 2"

definition OPT_IN_MARKER :: bytes where
  "OPT_IN_MARKER = [0x50, 0x41, 0x47, 0x48, 0x2D, 0x46, 0x4F, 0x52, 0x4D, 0x41, 0x54]"

datatype boot_layout = Ext2 | PartitionTable | Blank | Foreign

datatype refusal = ExistingFilesystem | PartitionTable | Ext2Like | ForeignData

record probe =
  p_layout :: boot_layout
  p_provisional_blank :: bool
  p_marked :: bool

definition is_ext2_superblock :: "bytes \<Rightarrow> bool" where
  "is_ext2_superblock buf \<longleftrightarrow> MIN_PROBE \<le> length buf \<and> sub_bytes buf SUPERBLOCK_OFFSET 2 = EXT2_MAGIC_LE"

definition is_partition_table :: "bytes \<Rightarrow> bool" where
  "is_partition_table buf \<longleftrightarrow>
     520 \<le> length buf \<and> sub_bytes buf 512 8 = GPT_SIGNATURE \<or> 512 \<le> length buf \<and> sub_bytes buf 510 2 = MBR_SIGNATURE"

definition is_zero :: "bytes \<Rightarrow> bool" where
  "is_zero buf \<longleftrightarrow> list_all (\<lambda>b. b = 0) buf"

definition probe_new :: "bytes \<Rightarrow> probe" where
  "probe_new first_block =
     (let marked = (length OPT_IN_MARKER \<le> length first_block \<and> take (length OPT_IN_MARKER) first_block = OPT_IN_MARKER)
      in if length first_block < MIN_PROBE
         then \<lparr>p_layout = Foreign, p_provisional_blank = False, p_marked = marked\<rparr>
         else
           let lay = (if is_ext2_superblock first_block then Ext2
                      else if is_partition_table first_block then boot_layout.PartitionTable
                      else if is_zero first_block then Blank else Foreign)
           in \<lparr>p_layout = lay, p_provisional_blank = (lay = Blank), p_marked = marked\<rparr>)"

definition probe_unreadable :: probe where
  "probe_unreadable = \<lparr>p_layout = Foreign, p_provisional_blank = False, p_marked = False\<rparr>"

definition probe_feed :: "bytes \<Rightarrow> probe \<Rightarrow> probe" where
  "probe_feed chunk p =
     (if p_provisional_blank p \<and> \<not> is_zero chunk then p\<lparr>p_layout := Foreign, p_provisional_blank := False\<rparr> else p)"

definition is_decided :: "probe \<Rightarrow> bool" where
  "is_decided p \<longleftrightarrow> \<not> p_provisional_blank p"

definition format_allowed :: "boot_layout \<Rightarrow> bool \<Rightarrow> bool \<Rightarrow> refusal + unit" where
  "format_allowed lay valid_superblock allow_destructive =
     (if valid_superblock then Inl ExistingFilesystem
      else if lay = Blank then Inr ()
      else if allow_destructive then Inr ()
      else Inl (case lay of boot_layout.PartitionTable \<Rightarrow> refusal.PartitionTable
                          | Ext2 \<Rightarrow> Ext2Like | Blank \<Rightarrow> ForeignData | Foreign \<Rightarrow> ForeignData))"

subsection \<open>The boot step\<close>

definition PROBE_LIMIT :: nat where "PROBE_LIMIT = 1024 * 1024"

definition SECTORS_PER_CHUNK :: nat where "SECTORS_PER_CHUNK = 4096 div 512"

function probe_loop :: "nat \<Rightarrow> probe \<Rightarrow> dev \<Rightarrow> probe \<times> dev" where
  "probe_loop sector p d =
     (if \<not> is_decided p \<and> sector * 512 < PROBE_LIMIT then
        case dev_read_block sector d of
          (Inr buf, d) \<Rightarrow> probe_loop (sector + SECTORS_PER_CHUNK) (probe_feed buf p) d
        | (Inl _, d) \<Rightarrow> (probe_unreadable, d)
      else (p, d))"
  by pat_completeness auto
termination
  by (relation "measure (\<lambda>(sector, p, d). PROBE_LIMIT - sector)") (auto simp: SECTORS_PER_CHUNK_def PROBE_LIMIT_def)

declare probe_loop.simps [simp del]

definition probe_boot_area :: "dev \<Rightarrow> probe \<times> dev" where
  "probe_boot_area d =
     (case dev_read_block 0 d of
        (Inl _, d) \<Rightarrow> (probe_unreadable, d)
      | (Inr buf, d) \<Rightarrow> probe_loop SECTORS_PER_CHUNK (probe_new buf) d)"

text \<open>The file system \<^verbatim>\<open>init_fs\<close> hands to \<^verbatim>\<open>mount_at\<close>, if any.\<close>

definition init_fs :: "dev \<Rightarrow> ext2_fs option \<times> dev" where
  "init_fs d =
     (case mount_fs d of
        (Inr fs, d) \<Rightarrow> (Some fs, d)
      | (Inl first_error, d) \<Rightarrow>
          (case has_valid_superblock d of
             (has_superblock, d) \<Rightarrow>
               (case probe_boot_area d of
                  (p, d) \<Rightarrow>
                    (case format_allowed (p_layout p) has_superblock (p_marked p) of
                       Inr _ \<Rightarrow>
                         (case format d of
                            (Inl e, d) \<Rightarrow> (None, d)
                          | (Inr _, d) \<Rightarrow>
                              (case mount_fs d of (Inr fs, d) \<Rightarrow> (Some fs, d) | (Inl e, d) \<Rightarrow> (None, d)))
                     | Inl _ \<Rightarrow> (None, d)))))"

subsection \<open>What the probe establishes\<close>

definition boot_blank :: "(nat \<Rightarrow> bytes) \<Rightarrow> bool" where
  "boot_blank v \<longleftrightarrow> (\<forall>b < 256. is_zero (v b))"

definition boot_marked :: "(nat \<Rightarrow> bytes) \<Rightarrow> bool" where
  "boot_marked v \<longleftrightarrow> take (length OPT_IN_MARKER) (v 0) = OPT_IN_MARKER"

definition probe_ok :: "probe \<Rightarrow> bool" where
  "probe_ok p \<longleftrightarrow> (p_layout p = Blank \<longleftrightarrow> p_provisional_blank p)"

lemma probe_feed_ok: "probe_ok p \<Longrightarrow> probe_ok (probe_feed b p)"
  by (auto simp: probe_ok_def probe_feed_def)

lemma probe_feed_blank: "p_provisional_blank (probe_feed b p) \<longleftrightarrow> p_provisional_blank p \<and> is_zero b"
  by (auto simp: probe_feed_def)

lemma dev_read_chunk:
  "dev_read_block (k * 8) d = (Inr buf, d') \<Longrightarrow> buf = view d k \<and> view d' = view d"
  by (cases d rule: tick_cases) (auto simp: dev_read_block_def SECTORS_PER_BLOCK_def BS_def split: if_splits)

lemma probe_loop_ok:
  assumes "probe_loop (k * 8) p d = (q, d')" "probe_ok p"
  shows "(\<exists>n. d' = d\<lparr>fuse := n\<rparr>) \<and> (p_marked q \<longrightarrow> p_marked p)
    \<and> (p_layout q = Blank \<longrightarrow> p_layout p = Blank \<and> (\<forall>b. k \<le> b \<and> b < 256 \<longrightarrow> is_zero (view d b)))"
  using assms
proof (induction "256 - k" arbitrary: k p d rule: less_induct)
  case less
  show ?case
  proof (cases "\<not> is_decided p \<and> k < 256")
    case go: True
    then have cond: "\<not> is_decided p \<and> k * 8 * 512 < PROBE_LIMIT"
      by (simp add: PROBE_LIMIT_def)
    obtain r d1 where rd: "dev_read_block (k * 8) d = (r, d1)"
      by (cases "dev_read_block (k * 8) d")
    obtain n where n: "d1 = d\<lparr>fuse := n\<rparr>"
      using dev_read_keeps[OF rd] by blast
    show ?thesis
    proof (cases r)
      case (Inl u)
      then have "q = probe_unreadable" "d' = d1"
        using less.prems(1) cond rd by (simp_all add: probe_loop.simps[of "k * 8"])
      then show ?thesis
        using n by (auto simp: probe_unreadable_def)
    next
      case (Inr buf)
      have b: "buf = view d k" "view d1 = view d"
        using dev_read_chunk rd Inr by auto
      have "probe_loop (Suc k * 8) (probe_feed buf p) d1 = (q, d')"
        using less.prems(1) cond rd Inr by (simp add: probe_loop.simps[of "k * 8"] SECTORS_PER_CHUNK_def add.commute)
      moreover have "256 - Suc k < 256 - k"
        using go by (intro diff_less_mono2) simp_all
      ultimately have ih: "(\<exists>n. d' = d1\<lparr>fuse := n\<rparr>) \<and> (p_marked q \<longrightarrow> p_marked (probe_feed buf p))
          \<and> (p_layout q = Blank \<longrightarrow> p_layout (probe_feed buf p) = Blank \<and> (\<forall>b. Suc k \<le> b \<and> b < 256 \<longrightarrow> is_zero (view d1 b)))"
        using less.hyps[OF _ _ probe_feed_ok[OF less.prems(2)]] by blast
      have z: "is_zero (view d k)" if "p_layout (probe_feed buf p) = Blank"
        using that probe_feed_ok[OF less.prems(2), of buf] b(1) probe_feed_blank[of buf p] by (simp add: probe_ok_def)
      have "is_zero (view d c)" if "p_layout q = Blank" "k \<le> c" "c < 256" for c
        using that ih z b(2) by (cases "c = k") auto
      then show ?thesis
        using ih n by (auto simp: probe_feed_def split: if_splits)
    qed
  next
    case stop: False
    then have "q = p" "d' = d"
      using less.prems(1) by (auto simp: probe_loop.simps[of "k * 8"] PROBE_LIMIT_def)
    then show ?thesis
      using stop less.prems(2) by (auto simp: is_decided_def probe_ok_def intro: exI[of _ "fuse d"])
  qed
qed

lemma probe_boot_area_ok:
  assumes "probe_boot_area d = (p, d')"
  shows "\<exists>n. d' = d\<lparr>fuse := n\<rparr>" "p_layout p = Blank \<Longrightarrow> boot_blank (view d)" "p_marked p \<Longrightarrow> boot_marked (view d)"
proof -
  obtain r d1 where rd: "dev_read_block (0 * 8) d = (r, d1)"
    by (cases "dev_read_block (0 * 8) d")
  obtain n where n: "d1 = d\<lparr>fuse := n\<rparr>"
    using dev_read_keeps[OF rd] by blast
  have "(\<exists>n. d' = d\<lparr>fuse := n\<rparr>) \<and> (p_layout p = Blank \<longrightarrow> boot_blank (view d)) \<and> (p_marked p \<longrightarrow> boot_marked (view d))"
  proof (cases r)
    case (Inl u)
    then show ?thesis
      using assms rd n by (auto simp: probe_boot_area_def probe_unreadable_def)
  next
    case (Inr buf)
    have b: "buf = view d 0" "view d1 = view d"
      using dev_read_chunk[of 0 d buf d1] rd Inr by auto
    have l: "probe_loop (1 * 8) (probe_new buf) d1 = (p, d')"
      using assms rd Inr by (simp add: probe_boot_area_def SECTORS_PER_CHUNK_def)
    have ok: "probe_ok (probe_new buf)"
      by (simp add: probe_ok_def probe_new_def Let_def)
    note pl = probe_loop_ok[OF l ok]
    have "is_zero (view d c)" if "p_layout p = Blank" "c < 256" for c
      using that pl b by (cases "c = 0") (auto simp: probe_new_def Let_def split: if_splits)
    moreover have "boot_marked (view d)" if "p_marked p"
      using that pl b by (auto simp: probe_new_def boot_marked_def Let_def split: if_splits)
    ultimately show ?thesis
      using pl n by (auto simp: boot_blank_def)
  qed
  then show "\<exists>n. d' = d\<lparr>fuse := n\<rparr>" "p_layout p = Blank \<Longrightarrow> boot_blank (view d)" "p_marked p \<Longrightarrow> boot_marked (view d)"
    by simp_all
qed

lemma mount_invalid:
  assumes "\<not> super_valid (dec_super_block (drop SUPERBLOCK_OFFSET (view d 0)))" "mount_fs d = (m, d1)"
  shows "\<exists>e n. m = Inl e \<and> d1 = d\<lparr>fuse := n\<rparr>"
proof -
  obtain r d0 where sb: "read_sb_gds d = (r, d0)"
    by (cases "read_sb_gds d")
  obtain b d2 where rb: "read_block 0 d = (b, d2)"
    by (cases "read_block 0 d")
  have "b = Inl x \<or> b = Inr (view d 0)" if "b = Inl x \<or> (\<exists>y. b = Inr y)" for x
    using that rb dev_read_chunk[of 0 d] by (auto simp: read_block_def split: prod.splits sum.splits)
  then have "\<exists>e. r = Inl e"
    using sb rb assms(1) by (cases b) (auto simp: read_sb_gds_def io_bind_def Let_def split: if_splits)
  then obtain e where "r = Inl e" ..
  then show ?thesis
    using read_onlyD[OF read_only_read_sb_gds sb] sb assms(2) by (auto simp: mount_fs_def io_bind_def)
qed

text \<open>
  C9: Booting formats a disk only when it is blank in its first MiB or carries the marker of the
  operator, and has no valid superblock.  On any other disk all that happens is the attempt to
  mount it: a file system that mounts is handed over, a disk that does not is left exactly as
  the attempt left it, and a disk without a valid superblock is not written at all.
\<close>

theorem boot_formats_only_blank_or_marked:
  assumes i: "init_fs d = (r, d')" and m: "mount_fs d = (m, d1)"
    and no: "fst (has_valid_superblock d1) \<or> \<not> boot_blank (view d1) \<and> \<not> boot_marked (view d1)"
  shows "r = (case m of Inr fs \<Rightarrow> Some fs | Inl e \<Rightarrow> None) \<and> medium d' = medium d1 \<and> cache d' = cache d1
    \<and> (super_valid (dec_super_block (drop SUPERBLOCK_OFFSET (view d 0)))
       \<or> r = None \<and> medium d' = medium d \<and> cache d' = cache d)"
proof (cases m)
  case (Inr fs)
  then show ?thesis
    using i m mount_invalid[OF _ m] by (auto simp: init_fs_def)
next
  case (Inl e)
  obtain hs d2 where h: "has_valid_superblock d1 = (hs, d2)"
    by (cases "has_valid_superblock d1")
  obtain n where n: "d2 = d1\<lparr>fuse := n\<rparr>"
    using h read_onlyD[OF read_only_read_sb_gds, of d1] by (auto simp: has_valid_superblock_def split: prod.splits sum.splits)
  obtain p d3 where p: "probe_boot_area d2 = (p, d3)"
    by (cases "probe_boot_area d2")
  note po = probe_boot_area_ok[OF p]
  have "format_allowed (p_layout p) hs (p_marked p) \<noteq> Inr ()"
    using no po(2,3) h n by (auto simp: format_allowed_def)
  then have "r = None" "d' = d3"
    using i m Inl h p by (auto simp: init_fs_def split: sum.splits)
  then show ?thesis
    using po(1) n Inl mount_invalid[OF _ m] by auto
qed

definition gpt_disk :: dev where
  "gpt_disk = \<lparr>medium = (\<lambda>_. zero_block)(0 := put_bytes zero_block 512 GPT_SIGNATURE), cache = [], capacity = 1000, fuse = None\<rparr>"

theorem boot_formats_only_blank_or_marked_witness:
  "\<exists>d'. init_fs gpt_disk = (None, d') \<and> medium d' = medium gpt_disk \<and> cache d' = []"
proof -
  let ?b = "put_bytes zero_block 512 GPT_SIGNATURE"
  obtain r d' where i: "init_fs gpt_disk = (r, d')" by (cases "init_fs gpt_disk")
  obtain m d1 where m: "mount_fs gpt_disk = (m, d1)" by (cases "mount_fs gpt_disk")
  have v: "view gpt_disk 0 = ?b"
    by (simp add: gpt_disk_def view_def)
  have "drop SUPERBLOCK_OFFSET ?b = replicate 3072 0"
    by (simp add: put_bytes_def zero_block_def SUPERBLOCK_OFFSET_def BS_def GPT_SIGNATURE_def)
  then have inv: "\<not> super_valid (dec_super_block (drop SUPERBLOCK_OFFSET (view gpt_disk 0)))"
    unfolding v super_valid_def by (simp add: dec_super_block_def EXT2_MAGIC_def read_u16_def sub_bytes_def)
  obtain n where n: "d1 = gpt_disk\<lparr>fuse := n\<rparr>"
    using mount_invalid[OF inv m] by blast
  have "0x45 \<in> set ?b"
    by (simp add: put_bytes_def GPT_SIGNATURE_def)
  then have "\<not> is_zero ?b"
    unfolding is_zero_def list_all_iff by (intro notI) (drule bspec, assumption, simp)
  then have "\<not> boot_blank (view d1)"
    using v n by (auto simp: boot_blank_def intro!: exI[of _ 0])
  moreover have "take 1 ?b = [0]"
    by (simp add: put_bytes_def zero_block_def BS_def)
  then have "take 1 (take (length OPT_IN_MARKER) ?b) \<noteq> take 1 OPT_IN_MARKER"
    by (simp add: OPT_IN_MARKER_def)
  then have "\<not> boot_marked (view d1)"
    unfolding boot_marked_def using v n by (metis view_fuse)
  ultimately show ?thesis
    using boot_formats_only_blank_or_marked[OF i m] i inv by (auto simp: gpt_disk_def)
qed

end
