(* ===== verification/Ext2Groups.thy ===== *)
theory Ext2Groups
  imports Ext2Tx JournalScan
begin

section \<open>What a transaction holds\<close>

text \<open>
  The block contents a transaction sees through its working set, the inode table in them, and
  the allocation of blocks over the groups: which blocks are in use, and that the allocator
  takes a free one and changes nothing else.
\<close>

subsection \<open>The contents a transaction sees\<close>

definition tx_view :: "tx \<Rightarrow> nat \<Rightarrow> bytes" where
  "tx_view t u = (case map_of (tx_dirty t) u of Some b \<Rightarrow> b | None \<Rightarrow> view (tx_dev t) u)"

definition tx_same :: "tx \<Rightarrow> tx \<Rightarrow> bool" where
  "tx_same t t' \<longleftrightarrow> tx_view t' = tx_view t \<and> tx_sb t' = tx_sb t \<and> tx_gds t' = tx_gds t \<and> tx_data t' = tx_data t
     \<and> capacity (tx_dev t') = capacity (tx_dev t) \<and> (fuse (tx_dev t) = None \<longrightarrow> tx_dev t' = tx_dev t)"

lemma tx_view_put [simp]: "tx_view (tx_put u b t) = (tx_view t)(u := b)"
  by (rule ext) (simp add: tx_view_def tx_put_def update_conv' split: option.splits)

lemma tx_put_sel [simp]:
  "tx_sb (tx_put u b t) = tx_sb t" "tx_gds (tx_put u b t) = tx_gds t" "tx_data (tx_put u b t) = tx_data t"
  "tx_dev (tx_put u b t) = tx_dev t" "tx_get (tx_put u b t) u = b"
  by (simp_all add: tx_put_def tx_get_def update_conv')

lemma tx_view_upd [simp]:
  "tx_view (t\<lparr>tx_sb := sb\<rparr>) = tx_view t" "tx_view (set_gd g gd t) = tx_view t" "tx_view (t\<lparr>tx_data := xs\<rparr>) = tx_view t"
  by (simp_all add: tx_view_def set_gd_def fun_eq_iff split: option.splits)

lemma set_gd_sel [simp]:
  "tx_sb (set_gd g gd t) = tx_sb t" "tx_gds (set_gd g gd t) = (tx_gds t)[g := gd]" "tx_dev (set_gd g gd t) = tx_dev t"
  "tx_data (set_gd g gd t) = tx_data t"
  by (simp_all add: set_gd_def)

lemma tx_same_refl [simp]: "tx_same t t"
  by (simp add: tx_same_def)

lemma unat_u32_blocks [simp]: "unat (x :: u32) < max_blocks"
  using unat_bound[of x] by (simp add: max_blocks_def)

lemma tx_block_ok:
  assumes "tx_block blk t = (Inr x, t')" "blk < max_blocks"
  shows "tx_same t t'" "tx_get t' blk = tx_view t blk"
proof -
  have "tx_same t t' \<and> tx_get t' blk = tx_view t blk"
  proof (cases "map_of (tx_dirty t) blk")
    case None
    obtain r d where rd: "read_block blk (tx_dev t) = (r, d)" by (cases "read_block blk (tx_dev t)")
    have t': "r = Inr (view (tx_dev t) blk)" "t' = tx_put blk (view (tx_dev t) blk) (t\<lparr>tx_dev := d\<rparr>)"
      "view d = view (tx_dev t)" "capacity d = capacity (tx_dev t)" "fuse (tx_dev t) = None \<longrightarrow> d = tx_dev t"
      using assms rd None
      by (auto simp: tx_block_def tx_bind_def tx_read_def read_block_def dev_read_block_def block_unit_num tick_def
          split: option.splits prod.splits sum.splits if_splits nat.splits)
    have "tx_view (t\<lparr>tx_dev := d\<rparr>) = tx_view t"
      using t'(3) by (simp add: tx_view_def fun_eq_iff split: option.splits)
    moreover have "tx_view t blk = view (tx_dev t) blk"
      using None by (simp add: tx_view_def)
    ultimately have "tx_view t' = tx_view t"
      using t'(2) by (auto simp: fun_upd_idem_iff)
    then show ?thesis
      using t' None by (auto simp: tx_same_def tx_view_def)
  qed (use assms in \<open>auto simp: tx_block_def tx_view_def tx_get_def\<close>)
  then show "tx_same t t'" "tx_get t' blk = tx_view t blk" by simp_all
qed

lemma tx_block_alive:
  assumes "fuse (tx_dev t) = None" "blk < capacity (tx_dev t)" "capacity (tx_dev t) \<le> max_blocks"
  shows "\<exists>t'. tx_block blk t = (Inr (), t')"
  using assms by (cases "map_of (tx_dirty t) blk") (auto simp: tx_block_def tx_bind_def tx_read_def read_block_alive)

lemma tx_same_alive: "tx_same t t' \<Longrightarrow> fuse (tx_dev t) = None \<Longrightarrow> tx_dev t' = tx_dev t"
  by (simp add: tx_same_def)


subsection \<open>The inode table\<close>

text \<open>
  The inode a transaction holds for a number, and the condition that the inode tables of
  different groups do not overlap.
\<close>

definition tx_inode :: "tx \<Rightarrow> u32 \<Rightarrow> ext2_inode option" where
  "tx_inode t ino =
     (case inode_location (tx_sb t) (tx_gds t) ino of
        Inl e \<Rightarrow> None
      | Inr (block, off) \<Rightarrow> Some (dec_inode (drop off (tx_view t block))))"

definition table_blocks :: "ext2_super_block \<Rightarrow> ext2_group_desc \<Rightarrow> nat set" where
  "table_blocks sb gd =
     (let n = unat (max (s_inodes_per_group sb) 1); ipb = BS div inode_size sb
      in {unat (bg_inode_table gd)..<unat (bg_inode_table gd) + (n + ipb - 1) div ipb})"

definition tables_ok :: "ext2_super_block \<Rightarrow> ext2_group_desc list \<Rightarrow> bool" where
  "tables_ok sb gds \<longleftrightarrow> (\<forall>g h. g < length gds \<longrightarrow> h < length gds \<longrightarrow> g \<noteq> h \<longrightarrow>
     table_blocks sb (gds ! g) \<inter> table_blocks sb (gds ! h) = {})"

lemma inode_size_bounds: "128 \<le> inode_size sb" "inode_size sb \<le> BS" "inode_size sb dvd BS"
proof -
  have d: "(2 :: nat) ^ k dvd BS" if "2 ^ k \<le> BS" for k
  proof -
    have "(2 :: nat) ^ k \<le> 2 ^ 12"
      using that by (simp add: BS_def)
    then have "k \<le> 12"
      by (rule power_le_imp_le_exp[rotated]) simp
    then have "(2 :: nat) ^ k dvd 2 ^ 12"
      by (rule le_imp_power_dvd)
    then show ?thesis
      by (simp add: BS_def)
  qed
  show "128 \<le> inode_size sb" "inode_size sb \<le> BS"
    by (auto simp: inode_size_def INODE_SIZE_def BS_def Let_def)
  show "inode_size sb dvd BS"
    using d d[of 7] by (auto simp: inode_size_def INODE_SIZE_def Let_def is_power_of_two_def list_ex_iff not_less BS_def)
qed

lemma ceil_div_less: "(x :: nat) < n \<Longrightarrow> 0 < k \<Longrightarrow> x div k < (n + k - 1) div k"
proof -
  assume "x < n" "0 < k"
  then have "x + k \<le> n + k - 1" by simp
  then have "(x + k) div k \<le> (n + k - 1) div k" by (rule div_le_mono)
  then show ?thesis using div_add_self2[of k x] \<open>0 < k\<close> by simp
qed

lemma inode_location_bounds:
  assumes "inode_location sb gds ino = Inr (block, off)"
  shows "off + inode_size sb \<le> BS" "block < max_blocks"
    "\<exists>g < length gds. g = unat (ino - 1) div unat (max (s_inodes_per_group sb) 1) \<and> block \<in> table_blocks sb (gds ! g)
       \<and> block = unat (bg_inode_table (gds ! g)) + unat (ino - 1) mod unat (max (s_inodes_per_group sb) 1) div (BS div inode_size sb)
       \<and> off = unat (ino - 1) mod unat (max (s_inodes_per_group sb) 1) mod (BS div inode_size sb) * inode_size sb"
proof -
  let ?ipg = "unat (max (s_inodes_per_group sb) 1)" and ?isz = "inode_size sb" and ?ipb = "BS div inode_size sb"
  let ?i = "unat (ino - 1)"
  have isz: "0 < ?isz" and ipb: "0 < ?ipb" "?ipb * ?isz = BS"
    using inode_size_bounds[of sb] by (auto simp: div_greater_zero_iff)
  have l: "?i div ?ipg < length gds" "block = unat (bg_inode_table (gds ! (?i div ?ipg))) + ?i mod ?ipg div ?ipb"
    "off = ?i mod ?ipg mod ?ipb * ?isz"
    using assms by (auto simp: inode_location_def Let_def split: if_splits)
  have "?i mod ?ipg mod ?ipb + 1 \<le> ?ipb"
    using ipb(1) by (simp add: Suc_le_eq)
  then have "(?i mod ?ipg mod ?ipb + 1) * ?isz \<le> ?ipb * ?isz"
    by (rule mult_le_mono1)
  then show "off + ?isz \<le> BS"
    using l(3) ipb(2) by simp
  have "max (s_inodes_per_group sb) 1 \<noteq> 0"
    by (metis max.cobounded2 word_le_0_iff zero_neq_one)
  then have "0 < ?ipg"
    by (metis unat_eq_zero neq0_conv)
  then have "?i mod ?ipg < ?ipg" by simp
  then have "?i mod ?ipg div ?ipb < (?ipg + ?ipb - 1) div ?ipb"
    using ipb(1) by (rule ceil_div_less)
  then show "\<exists>g < length gds. g = ?i div ?ipg \<and> block \<in> table_blocks sb (gds ! g)
       \<and> block = unat (bg_inode_table (gds ! g)) + ?i mod ?ipg div ?ipb \<and> off = ?i mod ?ipg mod ?ipb * ?isz"
    using l by (auto simp: table_blocks_def Let_def)
  have "?i mod ?ipg div ?ipb < 2 ^ 32"
    using unat_bound[of "ino - 1"] by (intro le_less_trans[OF div_le_dividend] le_less_trans[OF mod_less_eq_dividend]) simp
  then show "block < max_blocks"
    using l(2) unat_bound[of "bg_inode_table (gds ! (?i div ?ipg))"] by (simp add: max_blocks_def)
qed


lemma inode_slots_disjoint:
  assumes ok: "tables_ok sb gds" and l: "inode_location sb gds ino = Inr (b, off)" "inode_location sb gds ino' = Inr (b', off')"
    and ne: "ino \<noteq> ino'"
  shows "b \<noteq> b' \<or> off + 128 \<le> off' \<or> off' + 128 \<le> off"
proof (rule ccontr)
  assume c: "\<not> ?thesis"
  let ?ipg = "unat (max (s_inodes_per_group sb) 1)" and ?isz = "inode_size sb" and ?ipb = "BS div inode_size sb"
  let ?i = "unat (ino - 1)" and ?j = "unat (ino' - 1)"
  obtain g where g: "g < length gds" "g = ?i div ?ipg" "b \<in> table_blocks sb (gds ! g)"
    "b = unat (bg_inode_table (gds ! g)) + ?i mod ?ipg div ?ipb" "off = ?i mod ?ipg mod ?ipb * ?isz"
    using inode_location_bounds(3)[OF l(1)] by blast
  obtain h where h: "h < length gds" "h = ?j div ?ipg" "b' \<in> table_blocks sb (gds ! h)"
    "b' = unat (bg_inode_table (gds ! h)) + ?j mod ?ipg div ?ipb" "off' = ?j mod ?ipg mod ?ipb * ?isz"
    using inode_location_bounds(3)[OF l(2)] by blast
  have "g = h"
    using ok g(1,3) h(1,3) c by (auto simp: tables_ok_def)
  have "?i mod ?ipg div ?ipb = ?j mod ?ipg div ?ipb"
    using c g(4) h(4) \<open>g = h\<close> by simp
  moreover have "?i mod ?ipg mod ?ipb = ?j mod ?ipg mod ?ipb"
  proof (rule ccontr)
    assume "?i mod ?ipg mod ?ipb \<noteq> ?j mod ?ipg mod ?ipb"
    then have "?i mod ?ipg mod ?ipb + 1 \<le> ?j mod ?ipg mod ?ipb \<or> ?j mod ?ipg mod ?ipb + 1 \<le> ?i mod ?ipg mod ?ipb"
      by linarith
    then have "(?i mod ?ipg mod ?ipb + 1) * ?isz \<le> off' \<or> (?j mod ?ipg mod ?ipb + 1) * ?isz \<le> off"
      unfolding g(5) h(5) using mult_le_mono1 by blast
    then show False
      using c g(5) h(5) inode_size_bounds(1)[of sb] by auto
  qed
  ultimately have "?i mod ?ipg = ?j mod ?ipg"
    by (metis div_mult_mod_eq)
  then have "?i = ?j"
    using g(2) h(2) \<open>g = h\<close> by (metis div_mult_mod_eq)
  then have "ino - 1 = ino' - 1"
    by (rule unsigned_word_eqI)
  then show False
    using ne by simp
qed

lemma dec_inode_local:
  assumes "length b = BS" "length b' = BS" "off + 128 \<le> BS" "sub_bytes b off 128 = sub_bytes b' off 128"
  shows "dec_inode (drop off b) = dec_inode (drop off b')"
proof -
  have s: "sub_bytes (drop off c) k n = take n (drop k (sub_bytes c off 128))" if "k + n \<le> 128" for c :: bytes and k n
    using that by (simp add: sub_bytes_def drop_take min_def)
  have "read_u32 (drop off b) k = read_u32 (drop off b') k" if "k + 4 \<le> 128" for k
    using s[OF that] assms(4) by (simp add: read_u32_def)
  moreover have "read_u16 (drop off b) k = read_u16 (drop off b') k" if "k + 2 \<le> 128" for k
    using s[OF that] assms(4) by (simp add: read_u16_def)
  moreover have "sub_bytes (drop off b) 116 12 = sub_bytes (drop off b') 116 12"
    using s[of 116 12] assms(4) by simp
  ultimately show ?thesis
    by (simp add: dec_inode_def)
qed

lemma put_inode_read:
  assumes "wf_inode i" "length b = BS" "off + 128 \<le> BS"
  shows "dec_inode (drop off (put_bytes b off (enc_inode i))) = i"
  using dec_enc_inode[OF assms(1), of "drop (off + 128) b"] assms by (simp add: put_bytes_def)

lemma tx_read_inode_ok:
  assumes "tx_read_inode ino t = (Inr i, t')"
  shows "tx_same t t'" "tx_inode t ino = Some i"
proof -
  obtain b off where l: "inode_location (tx_sb t) (tx_gds t) ino = Inr (b, off)"
    using assms by (auto simp: tx_read_inode_def split: sum.splits)
  obtain t1 where t1: "tx_block b t = (Inr (), t1)" "t' = t1" "i = dec_inode (drop off (tx_get t1 b))"
    using assms l by (auto simp: tx_read_inode_def split: sum.splits prod.splits)
  note ok = tx_block_ok[OF t1(1) inode_location_bounds(2)[OF l]]
  show "tx_same t t'" "tx_inode t ino = Some i"
    using ok t1 l by (simp_all add: tx_inode_def)
qed

lemma tx_write_inode_ok:
  assumes w: "tx_write_inode ino i t = (Inr u, t')" and wf: "wf_inode i" and len: "\<And>u. length (tx_view t u) = BS"
  obtains b off where "inode_location (tx_sb t) (tx_gds t) ino = Inr (b, off)"
    "tx_view t' = (tx_view t)(b := put_bytes (tx_view t b) off (enc_inode i))" "tx_sb t' = tx_sb t" "tx_gds t' = tx_gds t"
proof -
  obtain b off where l: "inode_location (tx_sb t) (tx_gds t) ino = Inr (b, off)"
    using w by (auto simp: tx_write_inode_def split: sum.splits)
  obtain t1 where t1: "tx_block b t = (Inr (), t1)" "t' = tx_put b (put_bytes (tx_get t1 b) off (enc_inode i)) t1"
    using w l by (auto simp: tx_write_inode_def split: sum.splits prod.splits)
  note ok = tx_block_ok[OF t1(1) inode_location_bounds(2)[OF l]]
  show thesis
    using that[OF l] ok t1(2) by (simp add: tx_same_def)
qed

lemma tx_write_inode_view:
  assumes w: "tx_write_inode ino i t = (Inr u, t')" and wf: "wf_inode i" and len: "\<And>u. length (tx_view t u) = BS"
    and tb: "tables_ok (tx_sb t) (tx_gds t)"
  shows "tx_inode t' = (tx_inode t)(ino \<mapsto> i)"
proof
  fix k
  obtain b off where l: "inode_location (tx_sb t) (tx_gds t) ino = Inr (b, off)"
    and v: "tx_view t' = (tx_view t)(b := put_bytes (tx_view t b) off (enc_inode i))" "tx_sb t' = tx_sb t" "tx_gds t' = tx_gds t"
    using tx_write_inode_ok[OF w wf len] by blast
  have off: "off + 128 \<le> BS"
    using inode_location_bounds(1)[OF l] inode_size_bounds(1)[of "tx_sb t"] by simp
  show "tx_inode t' k = ((tx_inode t)(ino \<mapsto> i)) k"
  proof (cases "k = ino")
    case True
    then show ?thesis
      using l v put_inode_read[OF wf len off] by (simp add: tx_inode_def)
  next
    case False
    show ?thesis
    proof (cases "inode_location (tx_sb t) (tx_gds t) k")
      case (Inr p)
      obtain b' off' where p: "p = (b', off')" by (cases p)
      have off': "off' + 128 \<le> BS"
        using inode_location_bounds(1)[OF Inr[unfolded p]] inode_size_bounds(1)[of "tx_sb t"] by simp
      have "dec_inode (drop off' (put_bytes (tx_view t b) off (enc_inode i))) = dec_inode (drop off' (tx_view t b))" if "b' = b"
        using inode_slots_disjoint[OF tb l Inr[unfolded p]] False that wf off off'
        by (intro dec_inode_local) (auto simp: buf_simps len)
      then show ?thesis
        using False Inr p v by (simp add: tx_inode_def)
    qed (use False v in \<open>simp add: tx_inode_def\<close>)
  qed
qed


subsection \<open>Allocation over the block groups\<close>

text \<open>
  Allocation changes the free counters and the bitmaps only; \<open>layout\<close> is what it leaves alone.
  A block is in use when its bit is set in the bitmap of its group.  The groups have the 32768
  blocks the formatter gives them, and the blocks are numbered from zero.
\<close>

definition layout :: "tx \<Rightarrow> ext2_super_block \<times> ext2_group_desc list" where
  "layout t = ((tx_sb t)\<lparr>s_free_blocks_count := 0, s_free_inodes_count := 0\<rparr>,
     map (\<lambda>gd. gd\<lparr>bg_free_blocks_count := 0, bg_free_inodes_count := 0, bg_used_dirs_count := 0\<rparr>) (tx_gds t))"

definition bbm_of :: "tx \<Rightarrow> nat \<Rightarrow> nat" where
  "bbm_of t g = unat (bg_block_bitmap (tx_gds t ! g))"

definition bitmaps :: "tx \<Rightarrow> nat set" where
  "bitmaps t = bbm_of t ` {..<length (tx_gds t)}"

definition in_use :: "tx \<Rightarrow> nat set" where
  "in_use t = {g * 32768 + i | g i. g < length (tx_gds t) \<and> i < 32768 \<and> wl_test (tx_view t (bbm_of t g)) i}"

definition alloc_ok :: "tx \<Rightarrow> bool" where
  "alloc_ok t \<longleftrightarrow> (\<forall>u. length (tx_view t u) = BS) \<and> s_first_data_block (tx_sb t) = 0 \<and> s_blocks_per_group (tx_sb t) = 32768
     \<and> length (tx_gds t) * 32768 \<le> 2 ^ 32 \<and> inj_on (bbm_of t) {..<length (tx_gds t)} \<and> bitmaps t \<subseteq> in_use t \<and> 0 \<in> in_use t"

lemma layout_sb:
  assumes "layout t' = layout t"
  shows "s_first_data_block (tx_sb t') = s_first_data_block (tx_sb t)" "s_blocks_per_group (tx_sb t') = s_blocks_per_group (tx_sb t)"
    "s_blocks_count (tx_sb t') = s_blocks_count (tx_sb t)" "s_inodes_count (tx_sb t') = s_inodes_count (tx_sb t)"
    "s_inodes_per_group (tx_sb t') = s_inodes_per_group (tx_sb t)" "inode_size (tx_sb t') = inode_size (tx_sb t)"
proof -
  have e: "(tx_sb t')\<lparr>s_free_blocks_count := 0, s_free_inodes_count := 0\<rparr> = (tx_sb t)\<lparr>s_free_blocks_count := 0, s_free_inodes_count := 0\<rparr>"
    using assms by (simp add: layout_def)
  show "s_first_data_block (tx_sb t') = s_first_data_block (tx_sb t)" "s_blocks_per_group (tx_sb t') = s_blocks_per_group (tx_sb t)"
    "s_blocks_count (tx_sb t') = s_blocks_count (tx_sb t)" "s_inodes_count (tx_sb t') = s_inodes_count (tx_sb t)"
    "s_inodes_per_group (tx_sb t') = s_inodes_per_group (tx_sb t)" "inode_size (tx_sb t') = inode_size (tx_sb t)"
    using arg_cong[OF e, of s_first_data_block] arg_cong[OF e, of s_blocks_per_group] arg_cong[OF e, of s_blocks_count]
      arg_cong[OF e, of s_inodes_count] arg_cong[OF e, of s_inodes_per_group] arg_cong[OF e, of inode_size]
    by (simp_all add: inode_size_def)
qed

lemma layout_gds:
  assumes "layout t' = layout t"
  shows "length (tx_gds t') = length (tx_gds t)" "g < length (tx_gds t) \<Longrightarrow> bbm_of t' g = bbm_of t g" "bitmaps t' = bitmaps t"
proof -
  let ?f = "\<lambda>gd. gd\<lparr>bg_free_blocks_count := 0, bg_free_inodes_count := 0, bg_used_dirs_count := 0\<rparr>"
  have m: "map ?f (tx_gds t') = map ?f (tx_gds t)"
    using assms by (simp add: layout_def)
  show l: "length (tx_gds t') = length (tx_gds t)"
    using arg_cong[OF m, of length] by simp
  have b: "bbm_of t' g = bbm_of t g" if "g < length (tx_gds t)" for g
    using arg_cong[OF m, of "\<lambda>xs. bg_block_bitmap (xs ! g)"] that l by (simp add: bbm_of_def)
  then show "g < length (tx_gds t) \<Longrightarrow> bbm_of t' g = bbm_of t g" .
  show "bitmaps t' = bitmaps t"
    unfolding bitmaps_def l by (rule image_cong) (simp_all add: b)
qed

lemma same_layout: "tx_same t t' \<Longrightarrow> layout t' = layout t"
  by (simp add: tx_same_def layout_def)

lemma layout_set_gd:
  assumes "g < length (tx_gds t)"
  shows "layout (set_gd g ((tx_gds t ! g)\<lparr>bg_free_blocks_count := c\<rparr>) t) = layout t"
    "layout (set_gd g ((tx_gds t ! g)\<lparr>bg_free_inodes_count := c\<rparr>) t) = layout t"
  using assms by (simp_all add: layout_def set_gd_def map_update list_update_same_conv)

lemma layout_simps [simp]: "layout (tx_put u b t) = layout t"
  "layout (t\<lparr>tx_sb := (tx_sb t)\<lparr>s_free_blocks_count := c\<rparr>\<rparr>) = layout t"
  by (simp_all add: layout_def tx_put_def)

lemma in_use_cong:
  assumes "layout t' = layout t" "\<And>u. u \<in> bitmaps t \<Longrightarrow> tx_view t' u = tx_view t u"
  shows "in_use t' = in_use t"
proof -
  have "wl_test (tx_view t' (bbm_of t' g)) i \<longleftrightarrow> wl_test (tx_view t (bbm_of t g)) i" if "g < length (tx_gds t)" for g i
    using that assms(2)[of "bbm_of t g"] layout_gds(2)[OF assms(1) that] by (simp add: bitmaps_def)
  then show ?thesis
    unfolding in_use_def layout_gds(1)[OF assms(1)] by blast
qed

lemma in_use_mem:
  assumes "g < length (tx_gds t)" "i < 32768"
  shows "g * 32768 + i \<in> in_use t \<longleftrightarrow> wl_test (tx_view t (bbm_of t g)) i"
proof -
  have u: "h = g \<and> j = i" if "h * 32768 + j = g * 32768 + i" "j < 32768" for h j :: nat
  proof -
    have "(h * 32768 + j) div 32768 = h" "(g * 32768 + i) div 32768 = g"
      using that(2) assms(2) by simp_all
    then show ?thesis using that(1) by simp
  qed
  show ?thesis
  proof
    assume "g * 32768 + i \<in> in_use t"
    then obtain h j where "g * 32768 + i = h * 32768 + j" "j < 32768" "wl_test (tx_view t (bbm_of t h)) j"
      unfolding in_use_def by blast
    then show "wl_test (tx_view t (bbm_of t g)) i"
      using u[of h j] by simp
  qed (use assms in \<open>auto simp: in_use_def\<close>)
qed


lemma in_use_set:
  assumes g: "g < length (tx_gds t)" "i < 32768" and ok: "alloc_ok t" and ly: "layout t' = layout t"
    and v: "tx_view t' (bbm_of t g) = wl_set (tx_view t (bbm_of t g)) i"
    "\<And>h. h < length (tx_gds t) \<Longrightarrow> h \<noteq> g \<Longrightarrow> tx_view t' (bbm_of t h) = tx_view t (bbm_of t h)"
  shows "in_use t' = insert (g * 32768 + i) (in_use t)"
proof (intro set_eqI iffI)
  have bits: "wl_bits (tx_view t u) = 32768" for u
    using ok by (simp add: alloc_ok_def wl_bits_def BS_def)
  have tst: "wl_test (tx_view t' (bbm_of t' h)) j \<longleftrightarrow> h = g \<and> j = i \<or> wl_test (tx_view t (bbm_of t h)) j"
    if "h < length (tx_gds t)" "j < 32768" for h j
    using that v g bits layout_gds(2)[OF ly] by (cases "h = g") (simp_all add: wl_test_set)
  fix x
  show "x \<in> insert (g * 32768 + i) (in_use t)" if "x \<in> in_use t'"
    using that tst unfolding in_use_def layout_gds(1)[OF ly] by blast
  show "x \<in> in_use t'" if x: "x \<in> insert (g * 32768 + i) (in_use t)"
    using x tst g unfolding in_use_def layout_gds(1)[OF ly] by blast
qed

definition allocated :: "tx \<Rightarrow> u32 \<Rightarrow> tx \<Rightarrow> bool" where
  "allocated t blk t' \<longleftrightarrow> unat blk \<notin> in_use t \<and> blk < s_blocks_count (tx_sb t) \<and> layout t' = layout t \<and> alloc_ok t'
     \<and> in_use t' = insert (unat blk) (in_use t) \<and> tx_view t' (unat blk) = zero_block
     \<and> (\<forall>u. u \<notin> bitmaps t \<and> u \<noteq> unat blk \<longrightarrow> tx_view t' u = tx_view t u)"

lemma alloc_ok_cong:
  assumes "layout t' = layout t" "tx_view t' = tx_view t"
  shows "alloc_ok t' \<longleftrightarrow> alloc_ok t"
proof -
  have "inj_on (bbm_of t') {..<length (tx_gds t)} \<longleftrightarrow> inj_on (bbm_of t) {..<length (tx_gds t)}"
    by (rule inj_on_cong) (simp add: layout_gds(2)[OF assms(1)])
  then show ?thesis
    unfolding alloc_ok_def layout_gds(1,3)[OF assms(1)] layout_sb[OF assms(1)] assms(2)
      in_use_cong[OF assms(1), unfolded assms(2), OF refl] by simp
qed

lemma allocated_cong:
  assumes "layout t1 = layout t" "tx_view t1 = tx_view t" "allocated t1 blk t'"
  shows "allocated t blk t'"
  using assms in_use_cong[OF assms(1)] unfolding allocated_def by (simp add: layout_gds(3)[OF assms(1)] layout_sb(3)[OF assms(1)])

lemma unat_blk:
  assumes "g * 32768 + 32768 \<le> 2 ^ 32" "unat bt < 32768"
  shows "unat ((0 :: u32) + of_nat g * 32768 + bt) = g * 32768 + unat bt"
proof -
  have "g * 32768 < 2 ^ 32"
    using assms(1) by simp
  then have "unat (of_nat g * 32768 :: u32) = g * 32768"
    by (simp add: unat_word_ariths unat_of_nat take_bit_nat_def)
  then show ?thesis
    using assms by (simp add: unat_word_ariths)
qed

text \<open>Taking the lowest clear bit of a group and zeroing the block it stands for.\<close>

lemma take_bit_allocated:
  assumes ok: "alloc_ok t" and g: "g < length (tx_gds t)" and ab: "alloc_bit (tx_view t (bbm_of t g)) = Some (bt, bm)"
    and blk: "blk = s_first_data_block (tx_sb t) + of_nat g * s_blocks_per_group (tx_sb t) + bt" "blk < s_blocks_count (tx_sb t)"
    and t1: "layout t1 = layout t" "tx_view t1 = (tx_view t)(bbm_of t g := bm)"
    and t': "layout t' = layout t1" "tx_view t' = (tx_view t1)(unat blk := map (\<lambda>x. 0) (tx_view t1 (unat blk)))"
  shows "allocated t blk t'"
proof -
  have len: "length (tx_view t u) = BS" for u
    using ok by (simp add: alloc_ok_def)
  note sp = alloc_bit_spec(2)[OF eq_imp_le[OF len] ab]
  have bt: "unat bt < 32768"
    using sp len by (simp add: wl_bits_def BS_def)
  have "(g + 1) * 32768 \<le> length (tx_gds t) * 32768"
    using g by simp
  then have ub: "unat blk = g * 32768 + unat bt"
    using ok bt unat_blk[of g bt] by (simp add: blk(1) alloc_ok_def)
  have nin: "unat blk \<notin> in_use t"
    unfolding ub using in_use_mem[OF g bt] sp by simp
  then have nb: "unat blk \<noteq> bbm_of t h" if "h < length (tx_gds t)" for h
    using ok that by (auto simp: alloc_ok_def bitmaps_def)
  have inj: "bbm_of t h \<noteq> bbm_of t g" if "h < length (tx_gds t)" "h \<noteq> g" for h
    using ok that g by (auto simp: alloc_ok_def inj_on_def)
  have ly: "layout t' = layout t"
    using t1 t' by simp
  have use: "in_use t' = insert (unat blk) (in_use t)"
    unfolding ub using sp nb[OF g] nb[symmetric] inj by (intro in_use_set[OF g bt ok ly]) (simp_all add: t1 t')
  have len': "length (tx_view t' u) = BS" for u
    using sp len by (simp add: t' t1 wl_set_def Let_def)
  have "alloc_ok t'"
  proof -
    have "inj_on (bbm_of t') {..<length (tx_gds t)} \<longleftrightarrow> inj_on (bbm_of t) {..<length (tx_gds t)}"
      by (rule inj_on_cong) (simp add: layout_gds(2)[OF ly])
    then show ?thesis
      using ok use len' unfolding alloc_ok_def layout_gds(1,3)[OF ly] layout_sb[OF ly] by auto
  qed
  moreover have "tx_view t' (unat blk) = zero_block"
    using len nb[OF g] by (simp add: t' t1 zero_block_def map_replicate_const)
  moreover have "tx_view t' u = tx_view t u" if "u \<notin> bitmaps t" "u \<noteq> unat blk" for u
    using that g by (auto simp: t' t1 bitmaps_def)
  ultimately show ?thesis
    using nin blk(2) ly use by (simp add: allocated_def)
qed


text \<open>
  One round of the loop over the groups: either it takes a block from group \<open>g\<close>, or it goes on
  with the next group in a state that differs in free counters only.
\<close>

lemma alloc_round:
  assumes r: "alloc_zeroed_groups (g # gs) t = (Inr blk, t')" and ok: "alloc_ok t" and g: "g < length (tx_gds t)"
  shows "allocated t blk t' \<or> (\<exists>t1. alloc_zeroed_groups gs t1 = (Inr blk, t') \<and> layout t1 = layout t \<and> tx_view t1 = tx_view t)"
proof (cases "bg_free_blocks_count (tx_gds t ! g) = 0")
  case True
  then show ?thesis
    using r by (auto simp: Let_def)
next
  case False
  define gd where "gd = tx_gds t ! g"
  obtain t1 where b1: "tx_block (bbm_of t g) t = (Inr (), t1)"
    using r False by (auto simp: Let_def bbm_of_def split: prod.splits sum.splits)
  note ok1 = tx_block_ok[OF b1 unat_u32_blocks[of "bg_block_bitmap gd", folded gd_def, unfolded gd_def, folded bbm_of_def]]
  have s1: "tx_view t1 = tx_view t" "tx_sb t1 = tx_sb t" "tx_gds t1 = tx_gds t"
    using ok1(1) by (simp_all add: tx_same_def)
  have ly1: "layout t1 = layout t"
    using ok1(1) by (rule same_layout)
  have g1: "g < length (tx_gds t1)" and gd1: "tx_gds t1 ! g = gd"
    using g s1 by (simp_all add: gd_def)
  have len: "length (tx_view t (bbm_of t g)) \<le> BS"
    using ok by (simp add: alloc_ok_def)
  show ?thesis
  proof (cases "alloc_bit (tx_view t (bbm_of t g))")
    case None
    then have "alloc_zeroed_groups gs (set_gd g (gd\<lparr>bg_free_blocks_count := 0\<rparr>) t1) = (Inr blk, t')"
      using r False b1 ok1(2) by (simp add: Let_def bbm_of_def gd_def)
    then show ?thesis
      using layout_set_gd(1)[OF g1, of 0] ly1 s1(1) by (auto simp: gd1)
  next
    case (Some p)
    obtain bt bm where p: "p = (bt, bm)" by (cases p)
    note ab = Some[unfolded p]
    define t2 where "t2 = tx_put (bbm_of t g) bm t1"
    define nb where "nb = s_first_data_block (tx_sb t) + of_nat g * s_blocks_per_group (tx_sb t) + bt"
    have g2: "g < length (tx_gds t2)" and gd2: "tx_gds t2 ! g = gd"
      using g1 gd1 by (simp_all add: t2_def)
    show ?thesis
    proof (cases "s_blocks_count (tx_sb t) \<le> nb")
      case True
      define t3 where "t3 = set_gd g (gd\<lparr>bg_free_blocks_count := 0\<rparr>) (tx_put (bbm_of t g) (snd (clear_bit bm bt)) t2)"
      have "alloc_zeroed_groups gs t3 = (Inr blk, t')"
        using r False b1 ok1(2) ab True s1 by (simp add: Let_def bbm_of_def gd_def nb_def t2_def t3_def)
      moreover have "layout t3 = layout t"
        unfolding t3_def using layout_set_gd(1)[of g "tx_put (bbm_of t g) (snd (clear_bit bm bt)) t2" 0] g2 gd2 ly1
        by (simp add: t2_def)
      moreover have "snd (clear_bit bm bt) = tx_view t (bbm_of t g)"
        using alloc_bit_spec(2)[OF len ab] by (simp add: bit_ops wl.nbits_mark wl_clear_set)
      then have "tx_view t3 = tx_view t"
        by (simp add: t3_def t2_def s1)
      ultimately show ?thesis by blast
    next
      case fits: False
      define t3 where "t3 = set_gd g (gd\<lparr>bg_free_blocks_count := saturating_sub (bg_free_blocks_count gd) 1\<rparr>)
        (t2\<lparr>tx_sb := (tx_sb t2)\<lparr>s_free_blocks_count := saturating_sub (s_free_blocks_count (tx_sb t2)) 1\<rparr>\<rparr>)"
      obtain t4 where b4: "tx_block (unat nb) t3 = (Inr (), t4)" and f: "blk = nb" "t' = tx_put (unat nb) (map (\<lambda>x. 0) (tx_get t4 (unat nb))) t4"
        using r False b1 ok1(2) ab fits s1
        by (auto simp: Let_def bbm_of_def gd_def nb_def t2_def t3_def split: prod.splits sum.splits)
      note ok4 = tx_block_ok[OF b4 unat_u32_blocks]
      have v4: "tx_view t4 = tx_view t3" and l4: "layout t4 = layout t3"
        using ok4(1) same_layout by (auto simp: tx_same_def)
      have "layout t2 = layout t"
        using ly1 by (simp add: t2_def)
      then have l3: "layout t3 = layout t"
        unfolding t3_def
        using layout_set_gd(1)[of g "t2\<lparr>tx_sb := (tx_sb t2)\<lparr>s_free_blocks_count := saturating_sub (s_free_blocks_count (tx_sb t2)) 1\<rparr>\<rparr>"] g2 gd2
        by simp
      have v3: "tx_view t3 = (tx_view t)(bbm_of t g := bm)"
        by (simp add: t3_def t2_def s1)
      have "allocated t blk t'"
        using f fits ok4(2) l4 v4 by (intro take_bit_allocated[OF ok g ab _ _ l3 v3]) (simp_all add: nb_def)
      then show ?thesis ..
    qed
  qed
qed

lemma alloc_zeroed_groups_ok:
  "alloc_zeroed_groups gs t = (Inr blk, t') \<Longrightarrow> alloc_ok t \<Longrightarrow> set gs \<subseteq> {..<length (tx_gds t)} \<Longrightarrow> allocated t blk t'"
proof (induction gs arbitrary: t)
  case (Cons g gs)
  have g: "g < length (tx_gds t)" "set gs \<subseteq> {..<length (tx_gds t)}"
    using Cons.prems(3) by auto
  from alloc_round[OF Cons.prems(1,2) g(1)] show ?case
  proof
    assume "\<exists>t1. alloc_zeroed_groups gs t1 = (Inr blk, t') \<and> layout t1 = layout t \<and> tx_view t1 = tx_view t"
    then obtain t1 where t1: "alloc_zeroed_groups gs t1 = (Inr blk, t')" "layout t1 = layout t" "tx_view t1 = tx_view t"
      by blast
    then show ?thesis
      using Cons.IH[OF t1(1)] alloc_ok_cong[OF t1(2,3)] Cons.prems(2) g(2) layout_gds(1)[OF t1(2)] allocated_cong[OF t1(2,3)] by simp
  qed
qed simp

lemma alloc_zeroed_block_ok:
  "alloc_zeroed_block t = (Inr blk, t') \<Longrightarrow> alloc_ok t \<Longrightarrow> allocated t blk t'"
  unfolding alloc_zeroed_block_def by (erule alloc_zeroed_groups_ok) auto

end
