(* ===== verification/Ext2Map.thy ===== *)
theory Ext2Map
  imports Ext2Groups
begin

section \<open>The block map of an inode\<close>

text \<open>
  The tree of direct and indirect pointers of an inode: the read path computes what the tree
  says, filling a hole maps the block and keeps every other mapping, and the allocator makes
  progress while there is a block to take.
\<close>

subsection \<open>The block map\<close>

text \<open>
  \<open>block_path\<close> is the place of a logical block in the tree of pointers, \<open>follow\<close> reads the tree
  in given block contents, and \<open>block_lookup\<close> is the block a file's logical block is mapped to.
\<close>

definition block_path :: "nat \<Rightarrow> (nat \<times> nat list) option" where
  "block_path lbn =
     (if lbn < 12 then Some (lbn, [])
      else
        let l = lbn - 12
        in if l < ppb then Some (12, [l])
           else
             let l = l - ppb
             in if l < ppb * ppb then Some (13, [l div ppb, l mod ppb])
                else
                  let l = l - ppb * ppb
                  in if l < ppb * ppb * ppb then Some (14, [l div (ppb * ppb), (l div ppb) mod ppb, l mod ppb])
                     else None)"

definition ptr :: "bytes \<Rightarrow> nat \<Rightarrow> u32" where
  "ptr b sl = read_u32 b (sl * 4)"

fun follow :: "(nat \<Rightarrow> bytes) \<Rightarrow> u32 \<Rightarrow> nat list \<Rightarrow> u32 option" where
  "follow v b [] = nonzero b"
| "follow v b (sl # path) = (if b = 0 then None else follow v (ptr (v (unat b)) sl) path)"

definition block_lookup :: "(nat \<Rightarrow> bytes) \<Rightarrow> ext2_inode \<Rightarrow> nat \<Rightarrow> u32 option" where
  "block_lookup v inode lbn = (case block_path lbn of None \<Rightarrow> None | Some (w, path) \<Rightarrow> follow v (i_block inode ! w) path)"

lemma ppb_value: "ppb = 1024"
  by (simp add: ppb_def PTRS_PER_BLOCK_def BS_def)

lemma block_path_slots: "block_path lbn = Some (w, path) \<Longrightarrow> w < 15 \<and> (\<forall>s \<in> set path. s < 1024)"
  by (auto simp: block_path_def ppb_value Let_def less_mult_imp_div_less split: if_splits)

lemma map_or_alloc_path:
  "map_or_alloc inode lbn t = (case block_path lbn of None \<Rightarrow> (Inl OutOfSpace, inode, t) | Some (w, path) \<Rightarrow> map_root inode w path t)"
  by (auto simp: map_or_alloc_def block_path_def Let_def map_root_def split: prod.splits sum.splits)

lemma read_path_ok:
  "read_path b path d = (Inr r, d') \<Longrightarrow> r = follow (view d) b path \<and> view d' = view d"
proof (induction path arbitrary: b d)
  case Nil
  then show ?case by (simp add: io_return_def)
next
  case (Cons s path)
  show ?case
  proof (cases "b = 0")
    case False
    obtain x d1 where rd: "read_block (unat b) d = (Inr x, d1)" and rest: "read_path (read_u32 x (s * 4)) path d1 = (Inr r, d')"
      using Cons.prems False by (auto simp: io_bind_def io_return_def read_ptr_def split: prod.splits sum.splits)
    have "unat b < max_blocks" by simp
    then have "x = view d (unat b) \<and> view d1 = view d"
      using rd by (auto simp: read_block_def dev_read_block_def block_unit_num tick_def split: option.splits prod.splits sum.splits if_splits nat.splits)
    then show ?thesis
      using Cons.IH[OF rest] False by (simp add: ptr_def)
  qed (use Cons.prems in \<open>simp add: io_return_def\<close>)
qed

lemma block_for_offset_path:
  "block_for_offset inode off = (case block_path (off div BS) of None \<Rightarrow> io_return None | Some (w, path) \<Rightarrow> read_path (i_block inode ! w) path)"
  by (simp add: block_for_offset_def block_path_def Let_def)

lemma block_for_offset_ok:
  "block_for_offset inode off d = (Inr r, d') \<Longrightarrow> r = block_lookup (view d) inode (off div BS) \<and> view d' = view d"
  unfolding block_for_offset_path block_lookup_def
  by (cases "block_path (off div BS)") (auto simp: io_return_def dest: read_path_ok)

text \<open>Indirect blocks that are in use, are no bitmaps, and do not repeat on the path.\<close>

fun path_ok :: "tx \<Rightarrow> nat set \<Rightarrow> u32 \<Rightarrow> nat list \<Rightarrow> bool" where
  "path_ok t S b [] \<longleftrightarrow> True"
| "path_ok t S b (sl # path) \<longleftrightarrow> b = 0 \<or> unat b \<in> in_use t - bitmaps t - S
     \<and> path_ok t (insert (unat b) S) (ptr (tx_view t (unat b)) sl) path"

text \<open>What filling holes keeps: every pointer that is set in a block in use.\<close>

definition ptr_mono :: "tx \<Rightarrow> tx \<Rightarrow> bool" where
  "ptr_mono t t' \<longleftrightarrow> layout t' = layout t \<and> alloc_ok t' \<and> in_use t \<subseteq> in_use t'
     \<and> (\<forall>u \<in> in_use t - bitmaps t. \<forall>s < 1024. ptr (tx_view t u) s \<noteq> 0 \<longrightarrow> ptr (tx_view t' u) s = ptr (tx_view t u) s)"

lemma ptr_mono_trans: "ptr_mono t t1 \<Longrightarrow> ptr_mono t1 t2 \<Longrightarrow> ptr_mono t t2"
proof -
  assume a: "ptr_mono t t1" "ptr_mono t1 t2"
  then have "bitmaps t1 = bitmaps t"
    using layout_gds(3)[of t1 t] by (simp add: ptr_mono_def)
  then have "ptr (tx_view t2 u) s = ptr (tx_view t u) s" if "u \<in> in_use t - bitmaps t" "s < 1024" "ptr (tx_view t u) s \<noteq> 0" for u s
    using that a by (auto simp: ptr_mono_def subset_iff)
  then show "ptr_mono t t2"
    using a by (auto simp: ptr_mono_def)
qed

lemma ptr_mono_same: "alloc_ok t \<Longrightarrow> layout t' = layout t \<Longrightarrow> tx_view t' = tx_view t \<Longrightarrow> ptr_mono t t'"
  using alloc_ok_cong[of t' t] in_use_cong[of t' t] by (simp add: ptr_mono_def)

lemma follow_mono:
  "follow (tx_view t) b path = Some c \<Longrightarrow> path_ok t S b path \<Longrightarrow> ptr_mono t t' \<Longrightarrow> \<forall>s \<in> set path. s < 1024 \<Longrightarrow>
   follow (tx_view t') b path = Some c"
proof (induction path arbitrary: b S)
  case (Cons s path)
  let ?p = "ptr (tx_view t (unat b)) s"
  have b: "b \<noteq> 0" "follow (tx_view t) ?p path = Some c" "unat b \<in> in_use t - bitmaps t" "path_ok t (insert (unat b) S) ?p path"
    using Cons.prems by (auto split: if_splits)
  have "?p \<noteq> 0"
    using b(2) by (cases path) (auto simp: nonzero_def split: if_splits)
  then have "ptr (tx_view t' (unat b)) s = ?p"
    using Cons.prems(3,4) b(3) by (simp add: ptr_mono_def)
  then show ?case
    using b Cons.IH[OF b(2,4) Cons.prems(3)] Cons.prems(4) by simp
qed simp

lemma ptr_write:
  assumes "length b = BS" "s < 1024" "s' < 1024"
  shows "ptr (write_u32 b (s * 4) v) s' = (if s' = s then v else ptr b s')"
proof (cases "s' = s")
  case False
  then have "s' * 4 + 4 \<le> s * 4 \<or> s * 4 + 4 \<le> s' * 4" by linarith
  then show ?thesis
    using False assms by (simp add: ptr_def read_u32_def write_u32_def sub_put_other BS_def)
qed (use assms in \<open>simp add: ptr_def read_u32_def write_u32_def buf_simps BS_def\<close>)

lemma ptr_zero: "s < 1024 \<Longrightarrow> ptr zero_block s = 0"
  by (simp add: ptr_def read_u32_def zero_block_def buf_simps BS_def)


subsection \<open>Filling holes\<close>

lemma allocated_ptr_mono:
  assumes "allocated t blk t'"
  shows "ptr_mono t t'"
  using assms unfolding allocated_def ptr_mono_def by auto

text \<open>A hole in slot \<open>s\<close> of block \<open>b\<close> was filled with the fresh block \<open>r\<close>.\<close>

definition filled :: "tx \<Rightarrow> nat \<Rightarrow> nat \<Rightarrow> u32 \<Rightarrow> tx \<Rightarrow> bool" where
  "filled t b s r t' \<longleftrightarrow> (\<forall>k < 1024. ptr (tx_view t' b) k = (if k = s then r else ptr (tx_view t b) k)) \<and> r \<noteq> 0 \<and> unat r \<notin> in_use t \<and> unat r \<in> in_use t' \<and> unat r \<notin> bitmaps t \<and> tx_view t' (unat r) = zero_block
     \<and> (\<forall>u. u \<notin> bitmaps t \<and> u \<noteq> unat r \<and> u \<noteq> b \<longrightarrow> tx_view t' u = tx_view t u)"

lemma alloc_ok_sel: "alloc_ok t \<Longrightarrow> length (tx_view t u) = BS" "alloc_ok t \<Longrightarrow> bitmaps t \<subseteq> in_use t" "alloc_ok t \<Longrightarrow> 0 \<in> in_use t"
  by (simp_all add: alloc_ok_def)

lemma alloc_ok_put:
  assumes ok: "alloc_ok t" and b: "b \<notin> bitmaps t" and len: "length x = BS"
  shows "alloc_ok (tx_put b x t)" "in_use (tx_put b x t) = in_use t"
proof -
  have ly: "layout (tx_put b x t) = layout t" by simp
  show u: "in_use (tx_put b x t) = in_use t"
    using b by (intro in_use_cong[OF ly]) auto
  have "inj_on (bbm_of (tx_put b x t)) {..<length (tx_gds t)} \<longleftrightarrow> inj_on (bbm_of t) {..<length (tx_gds t)}"
    by (rule inj_on_cong) (simp add: bbm_of_def)
  then show "alloc_ok (tx_put b x t)"
    using ok u len unfolding alloc_ok_def layout_gds(3)[OF ly] by simp
qed

lemma fill_hole:
  assumes ok: "alloc_ok t" and s: "s < 1024" and b: "unat b \<in> in_use t - bitmaps t" and z: "ptr (tx_view t (unat b)) s = 0"
    and al: "allocated t r t1" and t2: "layout t2 = layout t1" "tx_view t2 = tx_view t1"
    and t': "t' = tx_put (unat b) (write_u32 (tx_view t1 (unat b)) (s * 4) r) t2"
  shows "ptr (tx_view t' (unat b)) s = r" "ptr_mono t t'" "filled t (unat b) s r t'"
proof -
  have a: "unat r \<notin> in_use t" "layout t1 = layout t" "alloc_ok t1" "in_use t1 = insert (unat r) (in_use t)"
    "tx_view t1 (unat r) = zero_block" "\<And>u. u \<notin> bitmaps t \<Longrightarrow> u \<noteq> unat r \<Longrightarrow> tx_view t1 u = tx_view t u"
    using al by (auto simp: allocated_def)
  have br: "unat b \<noteq> unat r"
    using a(1) b by auto
  have r0: "r \<noteq> 0"
    using a(1) alloc_ok_sel(3)[OF ok] by auto
  have rb: "unat r \<notin> bitmaps t"
    using a(1) alloc_ok_sel(2)[OF ok] by auto
  have vb: "tx_view t1 (unat b) = tx_view t (unat b)" "length (tx_view t (unat b)) = BS"
    using a(6) b br alloc_ok_sel(1)[OF ok] by auto
  have ok2: "alloc_ok t2" "in_use t2 = in_use t1" "bitmaps t2 = bitmaps t"
    using alloc_ok_cong[OF t2] a(3) in_use_cong[OF t2(1)] t2(2) layout_gds(3)[OF t2(1)] layout_gds(3)[OF a(2)] by simp_all
  have lw: "length (write_u32 (tx_view t1 (unat b)) (s * 4) r) = BS"
    using vb s by (simp add: write_u32_def buf_simps BS_def)
  note put = alloc_ok_put[OF ok2(1) _ lw, of "unat b", folded t']
  have p: "ptr (tx_view t' (unat b)) k = (if k = s then r else ptr (tx_view t (unat b)) k)" if "k < 1024" for k
    using ptr_write[OF vb(2) s that] vb(1) by (simp add: t')
  show "ptr (tx_view t' (unat b)) s = r"
    using p[OF s] by simp
  have v': "tx_view t' u = tx_view t1 u" if "u \<noteq> unat b" for u
    using that by (simp add: t' t2)
  have "ptr (tx_view t' u) k = ptr (tx_view t u) k" if "u \<in> in_use t - bitmaps t" "k < 1024" "ptr (tx_view t u) k \<noteq> 0" for u k
  proof -
    have "u \<noteq> unat r"
      using that(1) a(1) by auto
    then show ?thesis
      using that p v' a(6)[of u] z by (cases "u = unat b") auto
  qed
  then show "ptr_mono t t'"
    unfolding ptr_mono_def using put ok2 a b t2(1) by (auto simp: t')
  show "filled t (unat b) s r t'"
    unfolding filled_def using p r0 a rb br v' put ok2 b by auto
qed

lemma map_indirect_ok:
  assumes m: "map_indirect inode b s t = (Inr r, inode', t')" and ok: "alloc_ok t" and s: "s < 1024"
    and b: "unat b \<in> in_use t - bitmaps t"
  shows "ptr (tx_view t' (unat b)) s = r \<and> i_block inode' = i_block inode \<and> ptr_mono t t' \<and>
    (if ptr (tx_view t (unat b)) s \<noteq> 0 then r = ptr (tx_view t (unat b)) s \<and> inode' = inode \<and> tx_view t' = tx_view t
     else filled t (unat b) s r t')"
proof -
  obtain t1 where t1: "tx_block (unat b) t = (Inr (), t1)"
    using m by (auto simp: map_indirect_def split: prod.splits sum.splits)
  note s1 = tx_block_ok[OF t1 unat_u32_blocks]
  have v1: "tx_view t1 = tx_view t" "layout t1 = layout t"
    using s1(1) same_layout by (auto simp: tx_same_def)
  have ok1: "alloc_ok t1"
    using alloc_ok_cong[OF v1(2,1)] ok by simp
  show ?thesis
  proof (cases "ptr (tx_view t (unat b)) s = 0")
    case False
    then have "r = ptr (tx_view t (unat b)) s \<and> inode' = inode \<and> t' = t1"
      using m t1 s1(2) by (simp add: map_indirect_def ptr_def Let_def)
    then show ?thesis
      using v1 ptr_mono_same[OF ok v1(2,1)] False by auto
  next
    case True
    obtain t2 t3 where t2: "alloc_zeroed_block t1 = (Inr r, t2)" and t3: "tx_block (unat b) t2 = (Inr (), t3)"
      and e: "inode' = inode\<lparr>i_blocks := i_blocks inode + SECTORS\<rparr>"
      "t' = tx_put (unat b) (write_u32 (tx_get t3 (unat b)) (s * 4) r) t3"
      using m t1 s1(2) True by (auto simp: map_indirect_def ptr_def Let_def split: prod.splits sum.splits)
    note s3 = tx_block_ok[OF t3 unat_u32_blocks]
    have v3: "layout t3 = layout t2" "tx_view t3 = tx_view t2"
      using s3(1) same_layout by (auto simp: tx_same_def)
    have al: "allocated t r t2"
      using allocated_cong[OF v1(2,1) alloc_zeroed_block_ok[OF t2 ok1]] .
    show ?thesis
      using fill_hole[OF ok s b True al v3 e(2)[unfolded s3(2)]] True e(1) by simp
  qed
qed


lemma path_ok_cong:
  "layout t1 = layout t \<Longrightarrow> tx_view t1 = tx_view t \<Longrightarrow> path_ok t1 S b p = path_ok t S b p"
  using in_use_cong[of t1 t] layout_gds(3)[of t1 t] by (induction p arbitrary: S b) auto

lemma path_ok_0: "path_ok t S 0 p"
  by (cases p) auto

lemma path_ok_filled:
  assumes f: "filled t (unat b) s r t1" and m: "ptr_mono t t1" and S: "insert (unat b) S \<subseteq> in_use t" and p: "\<forall>s \<in> set p. s < 1024"
  shows "path_ok t1 (insert (unat b) S) r p"
proof (cases p)
  case (Cons s q)
  have "bitmaps t1 = bitmaps t"
    using m layout_gds(3)[of t1 t] by (simp add: ptr_mono_def)
  then have "unat r \<in> in_use t1 - bitmaps t1 - insert (unat b) S" "ptr (tx_view t1 (unat r)) s = 0"
    using f S p Cons by (auto simp: filled_def ptr_zero)
  then show ?thesis
    by (simp add: Cons path_ok_0)
qed simp

definition mapped_to :: "tx \<Rightarrow> u32 \<Rightarrow> nat list \<Rightarrow> ext2_inode \<Rightarrow> u32 \<Rightarrow> ext2_inode \<Rightarrow> tx \<Rightarrow> bool" where
  "mapped_to t b p inode r inode' t' \<longleftrightarrow> follow (tx_view t') b p = Some r \<and> i_block inode' = i_block inode \<and> ptr_mono t t'
     \<and> (case follow (tx_view t) b p of Some q \<Rightarrow> r = q \<and> inode' = inode \<and> tx_view t' = tx_view t | None \<Rightarrow> unat r \<notin> in_use t)"

lemma map_path_ok:
  "map_path inode b p t = (Inr r, inode', t') \<Longrightarrow> alloc_ok t \<Longrightarrow> b \<noteq> 0 \<Longrightarrow> path_ok t S b p \<Longrightarrow>
   S \<subseteq> in_use t - bitmaps t \<Longrightarrow> \<forall>s \<in> set p. s < 1024 \<Longrightarrow>
   mapped_to t b p inode r inode' t' \<and> (\<forall>u \<in> S. tx_view t' u = tx_view t u)"
proof (induction p arbitrary: inode b t S)
  case Nil
  then show ?case
    by (simp add: mapped_to_def nonzero_def ptr_mono_same)
next
  case (Cons s p)
  obtain c inode1 t1 where mi: "map_indirect inode b s t = (Inr c, inode1, t1)" and rest: "map_path inode1 c p t1 = (Inr r, inode', t')"
    using Cons.prems(1) by (auto split: prod.splits sum.splits)
  have b: "unat b \<in> in_use t - bitmaps t" "unat b \<notin> S" and po: "path_ok t (insert (unat b) S) (ptr (tx_view t (unat b)) s) p"
    and s: "s < 1024" "\<forall>s \<in> set p. s < 1024"
    using Cons.prems(3,4,6) by auto
  note m1 = map_indirect_ok[OF mi Cons.prems(2) s(1) b(1)]
  have mono: "ptr_mono t t1" and pc: "ptr (tx_view t1 (unat b)) s = c" and ib: "i_block inode1 = i_block inode"
    using m1 by simp_all
  have bm: "bitmaps t1 = bitmaps t" and ok1: "alloc_ok t1" and iu: "in_use t \<subseteq> in_use t1"
    using mono layout_gds(3)[of t1 t] by (simp_all add: ptr_mono_def)
  have S1: "insert (unat b) S \<subseteq> in_use t1 - bitmaps t1" "insert (unat b) S \<subseteq> in_use t"
    using Cons.prems(5) b(1) bm iu by auto
  show ?case
  proof (cases "ptr (tx_view t (unat b)) s = 0")
    case False
    then have v1: "tx_view t1 = tx_view t" "inode1 = inode" "c \<noteq> 0" "c = ptr (tx_view t (unat b)) s"
      using m1 by auto
    have ly: "layout t1 = layout t"
      using mono by (simp add: ptr_mono_def)
    have "path_ok t1 (insert (unat b) S) c p"
      using po path_ok_cong[OF ly v1(1)] v1(4) by simp
    from Cons.IH[OF rest ok1 v1(3) this S1(1) s(2)] show ?thesis
      using v1 ptr_mono_trans[OF mono] in_use_cong[OF ly] Cons.prems(3) by (auto simp: mapped_to_def split: option.splits)
  next
    case True
    then have f: "filled t (unat b) s c t1"
      using m1 by simp
    then have c0: "c \<noteq> 0" and cn: "unat c \<notin> in_use t"
      by (simp_all add: filled_def)
    from Cons.IH[OF rest ok1 c0 path_ok_filled[OF f mono S1(2) s(2)] S1(1) s(2)]
    have ih: "mapped_to t1 c p inode1 r inode' t'" "\<forall>u \<in> insert (unat b) S. tx_view t' u = tx_view t1 u"
      by simp_all
    have keep: "tx_view t1 u = tx_view t u" if "u \<in> S" for u
    proof -
      have "u \<noteq> unat c" "u \<noteq> unat b" "u \<notin> bitmaps t"
        using that Cons.prems(5) cn b(2) by auto
      then show ?thesis
        using f by (simp add: filled_def)
    qed
    have fresh: "unat r \<notin> in_use t"
    proof (cases p)
      case Nil
      then show ?thesis using rest cn by simp
    next
      case (Cons s' q)
      have "tx_view t1 (unat c) = zero_block"
        using f by (simp add: filled_def)
      then have "follow (tx_view t1) c p = None"
        using Cons s(2) c0 by (cases q) (simp_all add: ptr_zero nonzero_def)
      then show ?thesis
        using ih(1) iu by (auto simp: mapped_to_def)
    qed
    have "follow (tx_view t) b (s # p) = None"
      using True by (cases p) (simp_all add: nonzero_def)
    moreover have "follow (tx_view t') b (s # p) = Some r"
      using ih pc Cons.prems(3) by (simp add: mapped_to_def)
    ultimately show ?thesis
      using ih keep fresh ib ptr_mono_trans[OF mono] by (simp add: mapped_to_def)
  qed
qed


text \<open>The condition on the tree of one logical block.\<close>

definition lbn_ok :: "tx \<Rightarrow> ext2_inode \<Rightarrow> nat \<Rightarrow> bool" where
  "lbn_ok t inode lbn = (case block_path lbn of None \<Rightarrow> True | Some (w, p) \<Rightarrow> path_ok t {} (i_block inode ! w) p)"

lemma fresh_path_ok:
  assumes al: "allocated t b t1" and ok: "alloc_ok t" and p: "\<forall>s \<in> set p. s < 1024"
  shows "b \<noteq> 0" "path_ok t1 {} b p" "follow (tx_view t1) b p = (if p = [] then Some b else None)"
proof -
  have a: "unat b \<notin> in_use t" "layout t1 = layout t" "in_use t1 = insert (unat b) (in_use t)" "tx_view t1 (unat b) = zero_block"
    using al by (auto simp: allocated_def)
  have b: "unat b \<notin> bitmaps t1" "b \<noteq> 0"
    using a(1) alloc_ok_sel(2,3)[OF ok] layout_gds(3)[OF a(2)] by auto
  show "b \<noteq> 0" by fact
  show "path_ok t1 {} b p"
    using a b p by (cases p) (simp_all add: ptr_zero path_ok_0)
  show "follow (tx_view t1) b p = (if p = [] then Some b else None)"
  proof (cases p)
    case (Cons s q)
    then show ?thesis
      using a(4) p b(2) by (cases q) (simp_all add: ptr_zero nonzero_def)
  qed (simp add: nonzero_def b)
qed

lemma map_root_ok:
  assumes m: "map_root inode w p t = (Inr r, inode', t')" and ok: "alloc_ok t" and w: "w < length (i_block inode)"
    and po: "path_ok t {} (i_block inode ! w) p" and p: "\<forall>s \<in> set p. s < 1024"
  obtains b where "i_block inode' = (i_block inode)[w := b]" "i_block inode ! w \<noteq> 0 \<Longrightarrow> b = i_block inode ! w"
    "follow (tx_view t') b p = Some r" "ptr_mono t t'"
    "case follow (tx_view t) (i_block inode ! w) p of Some q \<Rightarrow> r = q \<and> inode' = inode \<and> tx_view t' = tx_view t | None \<Rightarrow> unat r \<notin> in_use t"
proof (cases "i_block inode ! w = 0")
  case False
  then have "map_path inode (i_block inode ! w) p t = (Inr r, inode', t')"
    using m by (simp add: map_root_def ensure_indirect_root_def)
  from map_path_ok[OF this ok False po _ p] show ?thesis
    using that[of "i_block inode ! w"] by (simp add: mapped_to_def)
next
  case True
  define inode1 where "inode1 nb = inode\<lparr>i_block := (i_block inode)[w := nb], i_blocks := i_blocks inode + SECTORS\<rparr>" for nb
  obtain nb t1 where al: "alloc_zeroed_block t = (Inr nb, t1)" and mp: "map_path (inode1 nb) nb p t1 = (Inr r, inode', t')"
    using m True by (auto simp: map_root_def ensure_indirect_root_def inode1_def split: prod.splits sum.splits)
  note a = alloc_zeroed_block_ok[OF al ok]
  note fr = fresh_path_ok[OF a ok p]
  have ok1: "alloc_ok t1" and iu: "in_use t \<subseteq> in_use t1" and nb: "unat nb \<notin> in_use t"
    using a by (auto simp: allocated_def)
  have mt: "mapped_to t1 nb p (inode1 nb) r inode' t'"
    using map_path_ok[OF mp ok1 fr(1,2) _ p] by simp
  have "unat r \<notin> in_use t"
  proof (cases "p = []")
    case True
    then show ?thesis using mt fr(3) nb by (simp add: mapped_to_def)
  next
    case False
    then have "unat r \<notin> in_use t1" using mt fr(3) by (simp add: mapped_to_def)
    then show ?thesis using iu by blast
  qed
  moreover have "follow (tx_view t) 0 p = None"
    by (cases p) (simp_all add: nonzero_def)
  ultimately show ?thesis
    using that[of nb] mt True ptr_mono_trans[OF allocated_ptr_mono[OF a]] by (simp add: mapped_to_def inode1_def)
qed

lemma map_or_alloc_ok:
  assumes m: "map_or_alloc inode lbn t = (Inr r, inode', t')" and ok: "alloc_ok t" and wf: "length (i_block inode) = 15"
    and po: "lbn_ok t inode lbn"
  shows "block_lookup (tx_view t') inode' lbn = Some r" "ptr_mono t t'"
    "case block_lookup (tx_view t) inode lbn of Some q \<Rightarrow> r = q \<and> inode' = inode \<and> tx_view t' = tx_view t | None \<Rightarrow> unat r \<notin> in_use t"
    "lbn_ok t inode k \<Longrightarrow> block_lookup (tx_view t) inode k = Some c \<Longrightarrow> block_lookup (tx_view t') inode' k = Some c"
proof -
  obtain w p where bp: "block_path lbn = Some (w, p)" and mr: "map_root inode w p t = (Inr r, inode', t')"
    using m by (auto simp: map_or_alloc_path split: option.splits)
  have w: "w < length (i_block inode)" and p: "\<forall>s \<in> set p. s < 1024"
    using block_path_slots[OF bp] wf by auto
  have po': "path_ok t {} (i_block inode ! w) p"
    using po bp by (simp add: lbn_ok_def)
  obtain b where b: "i_block inode' = (i_block inode)[w := b]" "i_block inode ! w \<noteq> 0 \<Longrightarrow> b = i_block inode ! w"
    "follow (tx_view t') b p = Some r" and mono: "ptr_mono t t'"
    and c: "case follow (tx_view t) (i_block inode ! w) p of Some q \<Rightarrow> r = q \<and> inode' = inode \<and> tx_view t' = tx_view t | None \<Rightarrow> unat r \<notin> in_use t"
    using map_root_ok[OF mr ok w po' p] by metis
  show "block_lookup (tx_view t') inode' lbn = Some r"
    using b(1,3) w by (simp add: block_lookup_def bp)
  show "ptr_mono t t'" by fact
  show "case block_lookup (tx_view t) inode lbn of Some q \<Rightarrow> r = q \<and> inode' = inode \<and> tx_view t' = tx_view t | None \<Rightarrow> unat r \<notin> in_use t"
    using c by (simp add: block_lookup_def bp)
  show "block_lookup (tx_view t') inode' k = Some c" if k: "lbn_ok t inode k" "block_lookup (tx_view t) inode k = Some c"
  proof -
    obtain x q where xq: "block_path k = Some (x, q)" "follow (tx_view t) (i_block inode ! x) q = Some c" "path_ok t {} (i_block inode ! x) q"
      using k by (auto simp: block_lookup_def lbn_ok_def split: option.splits)
    have "i_block inode ! x \<noteq> 0"
      using xq(2) by (cases q) (auto simp: nonzero_def split: if_splits)
    then have "i_block inode' ! x = i_block inode ! x"
      using b(1,2) w by (cases "x = w") simp_all
    then show ?thesis
      using follow_mono[OF xq(2,3) mono] block_path_slots[OF xq(1)] xq(1) by (simp add: block_lookup_def)
  qed
qed


subsection \<open>Progress of the allocator\<close>

text \<open>
  A device that answers and is large enough, and a block that the allocator can take: its bit is
  clear, it lies in the file system, and the counter of its group is not zero.
\<close>

definition tx_live :: "tx \<Rightarrow> bool" where
  "tx_live t \<longleftrightarrow> fuse (tx_dev t) = None \<and> capacity (tx_dev t) \<le> max_blocks \<and> unat (s_blocks_count (tx_sb t)) \<le> capacity (tx_dev t)
     \<and> (\<forall>u \<in> bitmaps t. u < capacity (tx_dev t))"

definition takeable :: "tx \<Rightarrow> nat \<Rightarrow> nat \<Rightarrow> bool" where
  "takeable t g i \<longleftrightarrow> g < length (tx_gds t) \<and> i < 32768 \<and> g * 32768 + i \<notin> in_use t
     \<and> g * 32768 + i < unat (s_blocks_count (tx_sb t)) \<and> bg_free_blocks_count (tx_gds t ! g) \<noteq> 0"

lemma takeable_bit:
  assumes ok: "alloc_ok t" and tk: "takeable t g i"
  obtains bt bm where "alloc_bit (tx_view t (bbm_of t g)) = Some (bt, bm)"
    "\<not> s_blocks_count (tx_sb t) \<le> s_first_data_block (tx_sb t) + of_nat g * s_blocks_per_group (tx_sb t) + bt"
proof -
  have g: "g < length (tx_gds t)" "i < 32768" and c: "\<not> wl_test (tx_view t (bbm_of t g)) i"
    and n: "g * 32768 + i < unat (s_blocks_count (tx_sb t))"
    using tk in_use_mem[of g t i] by (auto simp: takeable_def)
  have len: "length (tx_view t (bbm_of t g)) = BS"
    using ok by (rule alloc_ok_sel)
  have bits: "i < wl_bits (tx_view t (bbm_of t g))"
    using len g(2) by (simp add: wl_bits_def BS_def)
  obtain bt bm where ab: "alloc_bit (tx_view t (bbm_of t g)) = Some (bt, bm)"
    using alloc_bit_spec(1)[OF eq_imp_le[OF len] _ bits] c by (cases "alloc_bit (tx_view t (bbm_of t g))") auto
  note sp = alloc_bit_spec(2)[OF eq_imp_le[OF len] ab]
  have "unat bt \<le> i"
    using sp c by (meson not_le)
  moreover have "(g + 1) * 32768 \<le> length (tx_gds t) * 32768"
    using g(1) by simp
  ultimately have "unat (0 + of_nat g * 32768 + bt) = g * 32768 + unat bt"
    using ok g(2) by (intro unat_blk) (auto simp: alloc_ok_def)
  then have "\<not> s_blocks_count (tx_sb t) \<le> s_first_data_block (tx_sb t) + of_nat g * s_blocks_per_group (tx_sb t) + bt"
    using ok n \<open>unat bt \<le> i\<close> by (simp add: alloc_ok_def word_le_nat_alt)
  with ab show thesis by (rule that)
qed

lemma live_cong:
  assumes "layout t1 = layout t" "tx_view t1 = tx_view t" "tx_dev t1 = tx_dev t"
  shows "tx_live t1 \<longleftrightarrow> tx_live t"
    "(g < length (tx_gds t) \<Longrightarrow> bg_free_blocks_count (tx_gds t1 ! g) = bg_free_blocks_count (tx_gds t ! g)) \<Longrightarrow> takeable t1 g i \<longleftrightarrow> takeable t g i"
  using assms in_use_cong[OF assms(1)] layout_gds[OF assms(1)] layout_sb[OF assms(1)]
  by (auto simp: tx_live_def takeable_def)

lemma skip_group:
  assumes "tx_live t" "alloc_ok t" "takeable t g i" "h < length (tx_gds t)" "h \<noteq> g"
    "tx_view t1 = tx_view t" "tx_gds t1 = tx_gds t" "tx_sb t1 = tx_sb t" "tx_dev t1 = tx_dev t"
  defines "t2 \<equiv> set_gd h ((tx_gds t ! h)\<lparr>bg_free_blocks_count := 0\<rparr>) t1"
  shows "tx_live t2" "alloc_ok t2" "takeable t2 g i" "length (tx_gds t2) = length (tx_gds t)"
proof -
  have "layout t1 = layout t"
    using assms(7,8) by (simp add: layout_def)
  then have ly: "layout t2 = layout t"
    using layout_set_gd(1)[of h t1 0] assms(4,7) by (simp add: t2_def)
  have v: "tx_view t2 = tx_view t" "tx_dev t2 = tx_dev t" and f: "bg_free_blocks_count (tx_gds t2 ! g) = bg_free_blocks_count (tx_gds t ! g)"
    using assms(5,6,7,9) by (simp_all add: t2_def)
  show "tx_live t2" "alloc_ok t2" "takeable t2 g i" "length (tx_gds t2) = length (tx_gds t)"
    using live_cong[OF ly v(1,2)] alloc_ok_cong[OF ly v(1)] f assms(1-3,7) by (simp_all add: t2_def)
qed

lemma alloc_groups_progress:
  "tx_live t \<Longrightarrow> alloc_ok t \<Longrightarrow> takeable t g i \<Longrightarrow> set gs \<subseteq> {..<length (tx_gds t)} \<Longrightarrow> g \<in> set gs \<Longrightarrow>
   \<exists>blk t'. alloc_zeroed_groups gs t = (Inr blk, t')"
proof (induction gs arbitrary: t)
  case (Cons h gs)
  define gd where "gd = tx_gds t ! h"
  have h: "h < length (tx_gds t)"
    using Cons.prems(4) by simp
  have nxt: "\<exists>blk t'. alloc_zeroed_groups gs t2 = (Inr blk, t')"
    if "tx_live t2" "alloc_ok t2" "takeable t2 g i" "length (tx_gds t2) = length (tx_gds t)" "h \<noteq> g" for t2
    using Cons.IH[OF that(1-3)] Cons.prems(4,5) that(4,5) by auto
  show ?case
  proof (cases "bg_free_blocks_count gd = 0")
    case True
    then have "h \<noteq> g"
      using Cons.prems(3) by (auto simp: takeable_def gd_def)
    then show ?thesis
      using nxt[OF Cons.prems(1-3)] True by (simp add: gd_def Let_def)
  next
    case False
    have "bbm_of t h < capacity (tx_dev t)"
      using Cons.prems(1) h by (auto simp: tx_live_def bitmaps_def)
    then obtain t1 where b1: "tx_block (bbm_of t h) t = (Inr (), t1)"
      using tx_block_alive Cons.prems(1) unfolding tx_live_def by blast
    have "bbm_of t h < max_blocks"
      by (simp add: bbm_of_def)
    note s1 = tx_block_ok[OF b1 this]
    have v1: "tx_view t1 = tx_view t" "tx_gds t1 = tx_gds t" "tx_sb t1 = tx_sb t" "tx_dev t1 = tx_dev t"
      using s1(1) Cons.prems(1) by (simp_all add: tx_same_def tx_live_def)
    note sk = skip_group[OF Cons.prems(1-3) h _ _ _ _ _]
    show ?thesis
    proof (cases "alloc_bit (tx_view t (bbm_of t h))")
      case None
      then have "h \<noteq> g"
        using takeable_bit[OF Cons.prems(2,3)] by force
      then show ?thesis
        using nxt[OF sk[OF _ v1]] None False b1 s1(2) by (simp add: Let_def gd_def bbm_of_def)
    next
      case (Some p)
      obtain bt bm where p: "p = (bt, bm)" by (cases p)
      define nb where "nb = s_first_data_block (tx_sb t) + of_nat h * s_blocks_per_group (tx_sb t) + bt"
      define t2 where "t2 = tx_put (bbm_of t h) bm t1"
      show ?thesis
      proof (cases "s_blocks_count (tx_sb t) \<le> nb")
        case True
        then have ne: "h \<noteq> g"
          using takeable_bit[OF Cons.prems(2,3)] Some p by (force simp: nb_def)
        have len: "length (tx_view t (bbm_of t h)) \<le> BS"
          using alloc_ok_sel(1)[OF Cons.prems(2)] by simp
        have "snd (clear_bit bm bt) = tx_view t (bbm_of t h)"
          using alloc_bit_spec(2)[OF len Some[unfolded p]] by (simp add: bit_ops wl.nbits_mark wl_clear_set)
        then have v3: "tx_view (tx_put (bbm_of t h) (snd (clear_bit bm bt)) t2) = tx_view t"
          by (simp add: t2_def v1)
        show ?thesis
          using nxt[OF sk[OF ne v3]] ne True Some p False b1 s1(2) v1 by (simp add: Let_def gd_def bbm_of_def nb_def t2_def)
      next
        case fits: False
        define t3 where "t3 = set_gd h (gd\<lparr>bg_free_blocks_count := saturating_sub (bg_free_blocks_count gd) 1\<rparr>)
          (t2\<lparr>tx_sb := (tx_sb t2)\<lparr>s_free_blocks_count := saturating_sub (s_free_blocks_count (tx_sb t2)) 1\<rparr>\<rparr>)"
        have "fuse (tx_dev t3) = None" "unat nb < capacity (tx_dev t3)" "capacity (tx_dev t3) \<le> max_blocks"
          using Cons.prems(1) fits v1(4) by (simp_all add: t3_def t2_def tx_live_def word_le_nat_alt)
        then obtain t4 where "tx_block (unat nb) t3 = (Inr (), t4)"
          using tx_block_alive by blast
        then show ?thesis
          using fits Some p False b1 s1(2) v1 by (simp add: Let_def gd_def bbm_of_def nb_def t2_def t3_def)
      qed
    qed
  qed
qed simp

end
