(* ===== verification/Ext2Tree.thy ===== *)
theory Ext2Tree
  imports Ext2Map
begin

section \<open>The block map as a tree\<close>

text \<open>
  The pointers of an inode form a tree.  A position is a root pointer of the inode and a list of
  slots below it.  In a sound tree the blocks at different positions are different, in use, and
  none of the reserved blocks.  \<^verbatim>\<open>map_or_alloc\<close> keeps the tree sound and changes the mapping of
  one logical block only.
\<close>

subsection \<open>Positions and sound trees\<close>

definition depth :: "nat \<Rightarrow> nat" where
  "depth w = w - 11"

definition pos_ok :: "nat \<times> nat list \<Rightarrow> bool" where
  "pos_ok P \<longleftrightarrow> fst P < 15 \<and> length (snd P) \<le> depth (fst P) \<and> (\<forall>s \<in> set (snd P). s < 1024)"

definition leaf_pos :: "nat \<times> nat list \<Rightarrow> bool" where
  "leaf_pos P \<longleftrightarrow> pos_ok P \<and> length (snd P) = depth (fst P)"

definition node :: "(nat \<Rightarrow> bytes) \<Rightarrow> ext2_inode \<Rightarrow> nat \<times> nat list \<Rightarrow> u32 option" where
  "node v inode P = follow v (i_block inode ! fst P) (snd P)"

definition tree_ok :: "tx \<Rightarrow> nat set \<Rightarrow> ext2_inode \<Rightarrow> bool" where
  "tree_ok t R inode \<longleftrightarrow> length (i_block inode) = 15 \<and> R \<subseteq> in_use t \<and> bitmaps t \<subseteq> R
     \<and> (\<forall>P b. pos_ok P \<and> node (tx_view t) inode P = Some b \<longrightarrow> unat b \<in> in_use t - R)
     \<and> (\<forall>P Q b. pos_ok P \<and> pos_ok Q \<and> node (tx_view t) inode P = Some b \<and> node (tx_view t) inode Q = Some b \<longrightarrow> P = Q)"

lemma follow_0 [simp]: "follow v 0 p = None"
  by (cases p) (simp_all add: nonzero_def)

lemma follow_snoc: "follow v b (p @ [k]) = (case follow v b p of None \<Rightarrow> None | Some c \<Rightarrow> nonzero (ptr (v (unat c)) k))"
  by (induction p arbitrary: b) (auto simp: nonzero_def)

lemma node_snoc: "node v inode (w, p @ [k]) = (case node v inode (w, p) of None \<Rightarrow> None | Some c \<Rightarrow> nonzero (ptr (v (unat c)) k))"
  by (simp add: node_def follow_snoc)

lemma pos_ok_snoc: "pos_ok (w, p @ [k]) \<Longrightarrow> pos_ok (w, p) \<and> k < 1024 \<and> \<not> leaf_pos (w, p)"
  by (auto simp: pos_ok_def leaf_pos_def)

lemma node_Some_ne: "node v inode P = Some b \<Longrightarrow> b \<noteq> 0"
  by (cases P; cases "snd P" rule: rev_cases) (auto simp: node_def follow_snoc nonzero_def split: option.splits if_splits)

lemma tree_okD:
  assumes "tree_ok t R inode" "pos_ok P" "node (tx_view t) inode P = Some b"
  shows "unat b \<in> in_use t" "unat b \<notin> R" "unat b \<notin> bitmaps t"
    "pos_ok Q \<Longrightarrow> node (tx_view t) inode Q = Some b \<Longrightarrow> Q = P"
proof -
  show "unat b \<in> in_use t" "unat b \<notin> R"
    using assms unfolding tree_ok_def by blast+
  then show "unat b \<notin> bitmaps t"
    using assms(1) unfolding tree_ok_def by blast
  show "pos_ok Q \<Longrightarrow> node (tx_view t) inode Q = Some b \<Longrightarrow> Q = P"
    using assms unfolding tree_ok_def by blast
qed

text \<open>Filling one hole below block \<open>b\<close> changes the tree at that position only.\<close>

lemma fill_node:
  assumes tr: "tree_ok t R inode" and P: "pos_ok (w, p @ [s])" and b: "node (tx_view t) inode (w, p) = Some b"
    and z: "ptr (tx_view t (unat b)) s = 0" and f: "filled t (unat b) s r t'" and Q: "pos_ok Q"
  shows "node (tx_view t') inode Q = (if Q = (w, p @ [s]) then Some r else node (tx_view t) inode Q)"
proof -
  obtain x q where Qx: "Q = (x, q)" by (cases Q)
  have "pos_ok (x, q) \<Longrightarrow> node (tx_view t') inode (x, q) = (if (x, q) = (w, p @ [s]) then Some r else node (tx_view t) inode (x, q))"
  proof (induction q rule: rev_induct)
    case Nil
    then show ?case by (simp add: node_def)
  next
    case (snoc k q)
    have q: "pos_ok (x, q)" "k < 1024"
      using pos_ok_snoc[OF snoc.prems] by simp_all
    have bp: "pos_ok (w, p)"
      using pos_ok_snoc[OF P] by simp
    have slots: "ptr (tx_view t' (unat b)) k = (if k = s then r else ptr (tx_view t (unat b)) k)" "r \<noteq> 0" "unat r \<notin> in_use t"
      "tx_view t' (unat r) = zero_block"
      using f q(2) by (auto simp: filled_def)
    show ?case
    proof (cases "(x, q) = (w, p @ [s])")
      case True
      then have "node (tx_view t) inode (x, q) = None"
        using b z node_snoc[of "tx_view t" inode w p s] by (simp add: nonzero_def)
      moreover have "node (tx_view t') inode (x, q) = Some r"
        using snoc.IH[OF q(1)] True by simp
      ultimately show ?thesis
        using slots(4) q(2) True unfolding node_snoc[of _ inode x q k] by (auto simp: ptr_zero nonzero_def)
    next
      case ne: False
      then have ih: "node (tx_view t') inode (x, q) = node (tx_view t) inode (x, q)"
        using snoc.IH[OF q(1)] by (simp only: if_False)
      show ?thesis
      proof (cases "node (tx_view t) inode (x, q)")
        case None
        then have "(x, q @ [k]) \<noteq> (w, p @ [s])"
          using b by auto
        then show ?thesis using ih None by (simp add: node_snoc)
      next
        case (Some c)
        note c = tree_okD[OF tr q(1) Some]
        show ?thesis
        proof (cases "c = b")
          case True
          then have "(w, p) = (x, q)"
            using c(4)[OF bp] b by simp
          then show ?thesis
            using ih Some True slots(1,2) by (auto simp: node_snoc nonzero_def)
        next
          case False
          then have "unat c \<noteq> unat b"
            by (simp add: word_unat_eq_iff)
          moreover have "unat c \<noteq> unat r"
            using c(1) slots(3) by auto
          ultimately have "tx_view t' (unat c) = tx_view t (unat c)"
            using f c(3) by (simp add: filled_def)
          moreover have "(x, q @ [k]) \<noteq> (w, p @ [s])"
            using Some b False by auto
          ultimately show ?thesis
            using ih Some by (auto simp: node_snoc)
        qed
      qed
    qed
  qed
  then show ?thesis
    using Q Qx by simp
qed

lemma tree_ok_insert:
  assumes tr: "tree_ok t R inode" and nd: "\<And>Q. pos_ok Q \<Longrightarrow> node (tx_view t') inode' Q = (if Q = P then Some r else node (tx_view t) inode Q)"
    and r: "unat r \<notin> in_use t" "unat r \<in> in_use t'" "in_use t \<subseteq> in_use t'" and ly: "layout t' = layout t" and l: "length (i_block inode') = 15"
  shows "tree_ok t' R inode'"
proof -
  have bm: "bitmaps t' = bitmaps t"
    by (rule layout_gds(3)[OF ly])
  have rR: "unat r \<notin> R" and sub: "R \<subseteq> in_use t" "bitmaps t \<subseteq> R"
    using tr r(1) by (auto simp: tree_ok_def)
  have a: "unat b \<in> in_use t' - R" if "pos_ok Q" "node (tx_view t') inode' Q = Some b" for Q b
    using that nd[OF that(1)] r rR tree_okD(1,2)[OF tr that(1)] by (auto split: if_splits)
  have i: "Q = Q'" if "pos_ok Q" "pos_ok Q'" "node (tx_view t') inode' Q = Some b" "node (tx_view t') inode' Q' = Some b" for Q Q' b
  proof -
    have "b = r \<and> Q = P \<or> node (tx_view t) inode Q = Some b \<and> b \<noteq> r" if "pos_ok Q" "node (tx_view t') inode' Q = Some b" for Q
      using that nd[OF that(1)] r(1) tree_okD(1)[OF tr that(1)] by (auto split: if_splits)
    then show ?thesis
      using that tree_okD(4)[OF tr that(1) _ that(2)] by metis
  qed
  show ?thesis
    unfolding tree_ok_def bm using l sub r(3) a i by (intro conjI) blast+
qed


lemma node_cong:
  assumes "\<And>P b. pos_ok P \<Longrightarrow> \<not> leaf_pos P \<Longrightarrow> node v inode P = Some b \<Longrightarrow> v' (unat b) = v (unat b)" "pos_ok (x, q)"
  shows "node v' inode (x, q) = node v inode (x, q)"
  using assms(2)
proof (induction q rule: rev_induct)
  case (snoc k q)
  have q: "pos_ok (x, q)" "\<not> leaf_pos (x, q)"
    using pos_ok_snoc[OF snoc.prems] by simp_all
  show ?case
    unfolding node_snoc snoc.IH[OF q(1)] using assms(1)[OF q] by (auto split: option.splits)
qed (simp add: node_def)

text \<open>What a step of the block map leaves alone: block contents outside the bitmaps and the indirect blocks.\<close>

definition keeps :: "tx \<Rightarrow> nat set \<Rightarrow> ext2_inode \<Rightarrow> tx \<Rightarrow> bool" where
  "keeps t R inode t' \<longleftrightarrow> layout t' = layout t \<and> alloc_ok t' \<and> in_use t \<subseteq> in_use t'
     \<and> (\<forall>u \<in> R - bitmaps t. tx_view t' u = tx_view t u)
     \<and> (\<forall>Q c. leaf_pos Q \<and> node (tx_view t) inode Q = Some c \<longrightarrow> tx_view t' (unat c) = tx_view t (unat c))"

definition grown :: "tx \<Rightarrow> nat set \<Rightarrow> ext2_inode \<Rightarrow> nat \<times> nat list \<Rightarrow> u32 \<Rightarrow> tx \<Rightarrow> ext2_inode \<Rightarrow> bool" where
  "grown t R inode P r t' inode' \<longleftrightarrow> tree_ok t' R inode' \<and> keeps t R inode t' \<and> length (i_block inode') = 15
     \<and> (\<forall>Q. leaf_pos Q \<longrightarrow> node (tx_view t') inode' Q = (if Q = P then Some r else node (tx_view t) inode Q))
     \<and> (node (tx_view t) inode P = None \<longrightarrow> unat r \<notin> in_use t \<and> tx_view t' (unat r) = zero_block)
     \<and> (\<forall>q. node (tx_view t) inode P = Some q \<longrightarrow> r = q)"

lemma grown_node:
  "grown t R inode P r t' inode' \<Longrightarrow> leaf_pos Q \<Longrightarrow>
   node (tx_view t') inode' Q = (if Q = P then Some r else node (tx_view t) inode Q)"
  unfolding grown_def by blast

lemma leaf_pos_ok [simp]: "leaf_pos P \<Longrightarrow> pos_ok P"
  by (simp add: leaf_pos_def)

lemma root_step:
  assumes tr: "tree_ok t R inode" and ok: "alloc_ok t" and w: "w < 15" "i_block inode ! w = 0" and al: "allocated t nb t1"
    and inode1: "i_block inode1 = (i_block inode)[w := nb]"
  shows "tree_ok t1 R inode1" "keeps t R inode t1" "pos_ok Q \<Longrightarrow> node (tx_view t1) inode1 Q = (if Q = (w, []) then Some nb else node (tx_view t) inode Q)"
proof -
  have l: "length (i_block inode) = 15" and sub: "R \<subseteq> in_use t" "bitmaps t \<subseteq> R"
    using tr by (simp_all add: tree_ok_def)
  have a: "unat nb \<notin> in_use t" "layout t1 = layout t" "alloc_ok t1" "in_use t1 = insert (unat nb) (in_use t)"
    "tx_view t1 (unat nb) = zero_block" "\<And>u. u \<notin> bitmaps t \<Longrightarrow> u \<noteq> unat nb \<Longrightarrow> tx_view t1 u = tx_view t u"
    using al by (auto simp: allocated_def)
  have nb: "nb \<noteq> 0"
    using a(1) alloc_ok_sel(3)[OF ok] by auto
  have keep: "tx_view t1 (unat b) = tx_view t (unat b)" if "pos_ok P" "node (tx_view t) inode P = Some b" for P b
    using a(1,6) tree_okD(1,3)[OF tr that] by metis
  have "node (tx_view t1) inode1 (x, q) = (if (x, q) = (w, []) then Some nb else node (tx_view t) inode (x, q))" if q: "pos_ok (x, q)" for x q
  proof (cases "x = w")
    case False
    then have "node (tx_view t1) inode1 (x, q) = node (tx_view t1) inode (x, q)"
      by (simp add: node_def inode1)
    then show ?thesis
      using False node_cong[of "tx_view t" inode "tx_view t1" x q] keep q by simp
  next
    case True
    show ?thesis
    proof (cases q)
      case Nil
      then show ?thesis using True w l nb by (simp add: node_def inode1 nonzero_def)
    next
      case (Cons k ks)
      then have "k < 1024"
        using q by (simp add: pos_ok_def)
      then show ?thesis
        using True w l nb Cons a(5) by (simp add: node_def inode1 ptr_zero)
    qed
  qed
  then show nd: "pos_ok Q \<Longrightarrow> node (tx_view t1) inode1 Q = (if Q = (w, []) then Some nb else node (tx_view t) inode Q)" for Q
    by (cases Q) blast
  show "tree_ok t1 R inode1"
    using a l by (intro tree_ok_insert[OF tr nd]) (auto simp: inode1)
  have "tx_view t1 u = tx_view t u" if "u \<in> R - bitmaps t" for u
    using that a(1,6) sub by (metis DiffE subsetD)
  then show "keeps t R inode t1"
    unfolding keeps_def using a keep[OF leaf_pos_ok] by blast
qed

lemma keeps_trans:
  assumes "keeps t R inode t1" "keeps t1 R inode1 t2"
    and "\<And>Q c. leaf_pos Q \<Longrightarrow> node (tx_view t) inode Q = Some c \<Longrightarrow> node (tx_view t1) inode1 Q = Some c"
  shows "keeps t R inode t2"
proof -
  have "bitmaps t1 = bitmaps t"
    using assms(1) layout_gds(3)[of t1 t] by (simp add: keeps_def)
  moreover have "tx_view t2 (unat c) = tx_view t (unat c)" if "leaf_pos Q" "node (tx_view t) inode Q = Some c" for Q c
    using assms(1,2) assms(3)[OF that] that unfolding keeps_def by metis
  ultimately show ?thesis
    using assms(1,2) unfolding keeps_def by (metis subset_trans)
qed

lemma indirect_step:
  assumes m: "map_indirect inode b s t = (Inr c, inode1, t1)" and tr: "tree_ok t R inode" and ok: "alloc_ok t"
    and P: "pos_ok (w, p @ [s])" and b: "node (tx_view t) inode (w, p) = Some b"
  shows "tree_ok t1 R inode1" "keeps t R inode t1" "i_block inode1 = i_block inode"
    "pos_ok Q \<Longrightarrow> node (tx_view t1) inode1 Q = (if Q = (w, p @ [s]) then Some c else node (tx_view t) inode Q)"
    "node (tx_view t) inode (w, p @ [s]) = None \<Longrightarrow> unat c \<notin> in_use t \<and> tx_view t1 (unat c) = zero_block"
    "node (tx_view t) inode (w, p @ [s]) = Some d \<Longrightarrow> d = c"
proof -
  have bp: "pos_ok (w, p)" "s < 1024" "\<not> leaf_pos (w, p)"
    using pos_ok_snoc[OF P] by simp_all
  note tb = tree_okD[OF tr bp(1) b]
  have "unat b \<in> in_use t - bitmaps t"
    using tb by simp
  note mi = map_indirect_ok[OF m ok bp(2) this]
  show ib: "i_block inode1 = i_block inode"
    using mi by simp
  have nd1: "node v inode1 Q = node v inode Q" for v Q
    by (simp add: node_def ib)
  have ns: "node (tx_view t) inode (w, p @ [s]) = nonzero (ptr (tx_view t (unat b)) s)"
    using b by (simp add: node_snoc)
  have ly: "layout t1 = layout t" and ok1: "alloc_ok t1" and iu: "in_use t \<subseteq> in_use t1"
    using mi by (simp_all add: ptr_mono_def)
  have "(\<forall>Q. pos_ok Q \<longrightarrow> node (tx_view t1) inode1 Q = (if Q = (w, p @ [s]) then Some c else node (tx_view t) inode Q))
    \<and> tree_ok t1 R inode1 \<and> keeps t R inode t1 \<and> (node (tx_view t) inode (w, p @ [s]) = None \<longrightarrow> unat c \<notin> in_use t \<and> tx_view t1 (unat c) = zero_block)"
  proof (cases "ptr (tx_view t (unat b)) s = 0")
    case False
    then have e: "c = ptr (tx_view t (unat b)) s" "inode1 = inode" "tx_view t1 = tx_view t"
      using mi by simp_all
    have "in_use t1 = in_use t" "bitmaps t1 = bitmaps t"
      using in_use_cong[OF ly] e(3) layout_gds(3)[OF ly] by simp_all
    then show ?thesis
      using e ns False tr ok1 ly by (auto simp: nonzero_def keeps_def tree_ok_def)
  next
    case z: True
    then have f: "filled t (unat b) s c t1"
      using mi by simp
    have nd: "node (tx_view t1) inode1 Q = (if Q = (w, p @ [s]) then Some c else node (tx_view t) inode Q)" if "pos_ok Q" for Q
      unfolding nd1 using fill_node[OF tr P b z f that] .
    have fc: "unat c \<notin> in_use t" "unat c \<in> in_use t1" "tx_view t1 (unat c) = zero_block"
      "\<And>u. u \<notin> bitmaps t \<Longrightarrow> u \<noteq> unat c \<Longrightarrow> u \<noteq> unat b \<Longrightarrow> tx_view t1 u = tx_view t u"
      using f by (auto simp: filled_def)
    have l: "length (i_block inode1) = 15" and R: "R \<subseteq> in_use t"
      using tr ib by (simp_all add: tree_ok_def)
    have "tx_view t1 u = tx_view t u" if "u \<in> R - bitmaps t" for u
      using that fc(1) fc(4)[of u] R tb(2) by auto
    moreover have "tx_view t1 (unat d) = tx_view t (unat d)" if Q: "leaf_pos Q" "node (tx_view t) inode Q = Some d" for Q d
    proof -
      note td = tree_okD[OF tr leaf_pos_ok[OF Q(1)] Q(2)]
      have "d \<noteq> b"
        using td(4)[OF bp(1)] b Q(1) bp(3) by auto
      moreover have "unat d \<noteq> unat c"
        using fc(1) td(1) by metis
      ultimately show ?thesis
        using fc(4)[of "unat d"] td(3) by (simp add: word_unat_eq_iff)
    qed
    ultimately have "keeps t R inode t1"
      unfolding keeps_def using ly ok1 iu by blast
    then show ?thesis
      using tree_ok_insert[OF tr nd fc(1,2) iu ly l] nd fc(1,3) by blast
  qed
  then show "tree_ok t1 R inode1" "keeps t R inode t1"
    "pos_ok Q \<Longrightarrow> node (tx_view t1) inode1 Q = (if Q = (w, p @ [s]) then Some c else node (tx_view t) inode Q)"
    "node (tx_view t) inode (w, p @ [s]) = None \<Longrightarrow> unat c \<notin> in_use t \<and> tx_view t1 (unat c) = zero_block"
    by blast+
  show "d = c" if "node (tx_view t) inode (w, p @ [s]) = Some d"
    using that mi by (auto simp: ns nonzero_def split: if_splits)
qed


lemma map_path_tree:
  "map_path inode b q t = (Inr r, inode', t') \<Longrightarrow> tree_ok t R inode \<Longrightarrow> alloc_ok t \<Longrightarrow> leaf_pos (w, p @ q) \<Longrightarrow>
   node (tx_view t) inode (w, p) = Some b \<Longrightarrow> grown t R inode (w, p @ q) r t' inode' \<and> i_block inode' = i_block inode"
proof (induction q arbitrary: inode b t p)
  case Nil
  then have e: "r = b" "inode' = inode" "t' = t" and l: "length (i_block inode) = 15"
    by (simp_all add: tree_ok_def)
  show ?case
    using Nil.prems l unfolding e by (simp add: grown_def keeps_def)
next
  case (Cons s q)
  obtain c inode1 t1 where mi: "map_indirect inode b s t = (Inr c, inode1, t1)" and rest: "map_path inode1 c q t1 = (Inr r, inode', t')"
    using Cons.prems(1) by (auto split: prod.splits sum.splits)
  have P: "pos_ok (w, p @ [s])"
    using Cons.prems(4) by (auto simp: leaf_pos_def pos_ok_def)
  note st = indirect_step[OF mi Cons.prems(2,3) P Cons.prems(5)]
  have leaf1: "leaf_pos (w, (p @ [s]) @ q)" and nd1: "node (tx_view t1) inode1 (w, p @ [s]) = Some c"
    using Cons.prems(4) st(4)[OF P] by simp_all
  have ok1: "alloc_ok t1" and iu: "in_use t \<subseteq> in_use t1"
    using st(2) by (simp_all add: keeps_def)
  from Cons.IH[OF rest st(1) ok1 leaf1 nd1]
  have ih: "grown t1 R inode1 (w, p @ s # q) r t' inode'" "i_block inode' = i_block inode1"
    by simp_all
  have old: "node (tx_view t1) inode1 Q = (if Q = (w, p @ [s]) then Some c else node (tx_view t) inode Q)" if "leaf_pos Q" for Q
    using st(4) that by simp
  have mono: "node (tx_view t1) inode1 Q = Some d" if "leaf_pos Q" "node (tx_view t) inode Q = Some d" for Q d
    using old[OF that(1)] that(2) st(6)[of d] by (cases "Q = (w, p @ [s])") simp_all
  have same: "node (tx_view t1) inode1 Q = node (tx_view t) inode Q" if "leaf_pos Q" "Q \<noteq> (w, p @ s # q)" for Q
  proof -
    have "Q \<noteq> (w, p @ [s])"
      using that Cons.prems(4) by (cases q) (auto simp: leaf_pos_def)
    then show ?thesis using old[OF that(1)] by simp
  qed
  have "unat r \<notin> in_use t \<and> tx_view t' (unat r) = zero_block" if none: "node (tx_view t) inode (w, p @ s # q) = None"
  proof (cases q)
    case Nil
    then show ?thesis
      using rest none st(5) by simp
  next
    case q: (Cons s' q')
    then have "node (tx_view t1) inode1 (w, p @ s # q) = None"
      using none old[OF Cons.prems(4)] by simp
    then show ?thesis
      using ih(1) iu by (auto simp: grown_def)
  qed
  moreover have "\<forall>d. node (tx_view t) inode (w, p @ s # q) = Some d \<longrightarrow> r = d"
    using mono[OF Cons.prems(4)] ih(1) by (simp add: grown_def)
  moreover have "keeps t R inode t'"
    using keeps_trans[OF st(2) _ mono] ih(1) by (simp add: grown_def)
  moreover have "\<forall>Q. leaf_pos Q \<longrightarrow> node (tx_view t') inode' Q = (if Q = (w, p @ s # q) then Some r else node (tx_view t) inode Q)"
    using ih(1) same unfolding grown_def by metis
  ultimately show ?case
    using ih st(3) by (simp add: grown_def)
qed


lemma map_root_tree:
  assumes m: "map_root inode w p t = (Inr r, inode', t')" and tr: "tree_ok t R inode" and ok: "alloc_ok t" and P: "leaf_pos (w, p)"
  shows "grown t R inode (w, p) r t' inode'"
proof (cases "i_block inode ! w = 0")
  case False
  then have "map_path inode (i_block inode ! w) p t = (Inr r, inode', t')"
    using m by (simp add: map_root_def ensure_indirect_root_def)
  from map_path_tree[OF this tr ok, of w "[]"] show ?thesis
    using P False by (simp add: node_def nonzero_def)
next
  case True
  define inode1 where "inode1 nb = inode\<lparr>i_block := (i_block inode)[w := nb], i_blocks := i_blocks inode + SECTORS\<rparr>" for nb
  obtain nb t1 where al: "alloc_zeroed_block t = (Inr nb, t1)" and mp: "map_path (inode1 nb) nb p t1 = (Inr r, inode', t')"
    using m True by (auto simp: map_root_def ensure_indirect_root_def inode1_def split: prod.splits sum.splits)
  have w: "w < 15"
    using P by (simp add: leaf_pos_def pos_ok_def)
  note a = alloc_zeroed_block_ok[OF al ok]
  have i1: "i_block (inode1 nb) = (i_block inode)[w := nb]"
    by (simp add: inode1_def)
  note st = root_step[OF tr ok w True a i1]
  have ok1: "alloc_ok t1" and iu: "in_use t \<subseteq> in_use t1" and fresh: "unat nb \<notin> in_use t" "tx_view t1 (unat nb) = zero_block"
    using a by (auto simp: allocated_def)
  have w0: "pos_ok (w, [])"
    using w by (simp add: pos_ok_def)
  have gr: "grown t1 R (inode1 nb) (w, p) r t' inode'"
    using map_path_tree[OF mp st(1) ok1, of w "[]"] P st(3)[OF w0] by simp
  have none: "node (tx_view t) inode (w, q) = None" for q
    using True by (simp add: node_def)
  have same: "node (tx_view t1) (inode1 nb) Q = node (tx_view t) inode Q" if "leaf_pos Q" "Q \<noteq> (w, p)" for Q
  proof -
    have "Q \<noteq> (w, [])"
      using that P by (cases p) (auto simp: leaf_pos_def)
    then show ?thesis using st(3)[of Q] that(1) by simp
  qed
  have mono: "node (tx_view t1) (inode1 nb) Q = Some d" if "leaf_pos Q" "node (tx_view t) inode Q = Some d" for Q d
    using that none same[OF that(1)] by (cases "Q = (w, p)") auto
  have "unat r \<notin> in_use t \<and> tx_view t' (unat r) = zero_block"
  proof (cases p)
    case Nil
    then show ?thesis using mp fresh by simp
  next
    case (Cons s q)
    then have "node (tx_view t1) (inode1 nb) (w, p) = None"
      using st(3)[of "(w, p)"] P none by simp
    then show ?thesis
      using gr iu by (auto simp: grown_def)
  qed
  moreover have "keeps t R inode t'"
    using keeps_trans[OF st(2) _ mono] gr by (simp add: grown_def)
  moreover have "\<forall>Q. leaf_pos Q \<longrightarrow> node (tx_view t') inode' Q = (if Q = (w, p) then Some r else node (tx_view t) inode Q)"
    using gr same unfolding grown_def by metis
  ultimately show ?thesis
    using gr none by (simp add: grown_def)
qed

lemma block_path_leaf: "block_path lbn = Some P \<Longrightarrow> leaf_pos P"
  by (auto simp: block_path_def leaf_pos_def pos_ok_def depth_def Let_def ppb_value less_mult_imp_div_less split: if_splits)

lemma div_mod_inj: "a div n = b div n \<Longrightarrow> a mod n = b mod n \<Longrightarrow> a = (b :: nat)"
  by (metis div_mult_mod_eq)

lemma block_path_inj:
  assumes "block_path k = Some P" "block_path l = Some P"
  shows "k = l"
proof -
  have dm: "a = b" if "a div (n * n) = b div (n * n)" "(a div n) mod n = (b div n) mod n" "a mod n = b mod n" for a b n :: nat
  proof -
    have "a div n div n = b div n div n"
      using that(1) by (simp add: div_mult2_eq)
    then have "a div n = b div n"
      using that(2) by (rule div_mod_inj)
    then show ?thesis
      using that(3) by (rule div_mod_inj)
  qed
  show ?thesis
    using assms unfolding block_path_def Let_def
    by (auto split: if_splits dest: div_mod_inj dm)
qed

lemma block_lookup_node: "block_lookup v inode lbn = (case block_path lbn of None \<Rightarrow> None | Some P \<Rightarrow> node v inode P)"
  by (simp add: block_lookup_def node_def split: option.splits prod.splits)

subsection \<open>Mapping one logical block\<close>

lemma map_or_alloc_tree:
  assumes m: "map_or_alloc inode lbn t = (Inr r, inode', t')" and ok: "alloc_ok t" and tr: "tree_ok t R inode"
  obtains P where "block_path lbn = Some P" "grown t R inode P r t' inode'"
proof -
  obtain w p where bp: "block_path lbn = Some (w, p)" and mr: "map_root inode w p t = (Inr r, inode', t')"
    using m by (auto simp: map_or_alloc_path split: option.splits)
  show thesis
    using that[OF bp] map_root_tree[OF mr tr ok block_path_leaf[OF bp]] .
qed

lemma map_or_alloc_lookup:
  assumes m: "map_or_alloc inode lbn t = (Inr r, inode', t')" and ok: "alloc_ok t" and tr: "tree_ok t R inode"
  shows "block_lookup (tx_view t') inode' = (block_lookup (tx_view t) inode)(lbn \<mapsto> r)"
proof
  fix k
  obtain P where P: "block_path lbn = Some P" and g: "grown t R inode P r t' inode'"
    using map_or_alloc_tree[OF m ok tr] .
  show "block_lookup (tx_view t') inode' k = ((block_lookup (tx_view t) inode)(lbn \<mapsto> r)) k"
  proof (cases "block_path k")
    case None
    then show ?thesis
      using P by (auto simp: block_lookup_node)
  next
    case (Some Q)
    have "Q = P \<longleftrightarrow> k = lbn"
      using Some P block_path_inj[of k P lbn] by auto
    then show ?thesis
      using grown_node[OF g block_path_leaf[OF Some]] Some by (simp add: block_lookup_node)
  qed
qed

lemma inode_self: "\<exists>bs n. i = (i :: ext2_inode)\<lparr>i_block := bs, i_blocks := n\<rparr>"
  by (rule exI[of _ "i_block i"], rule exI[of _ "i_blocks i"]) simp

lemma map_or_alloc_inode:
  assumes "map_or_alloc inode lbn t = (Inr r, inode', t')"
  shows "\<exists>bs n. inode' = inode\<lparr>i_block := bs, i_blocks := n\<rparr>"
proof -
  have self: "\<exists>n. i = i\<lparr>i_blocks := n\<rparr>" for i :: ext2_inode
    by (rule exI[of _ "i_blocks i"]) simp
  have mi: "\<exists>n. inode' = inode\<lparr>i_blocks := n\<rparr>" if "map_indirect inode b s t = (x, inode', t')" for inode b s t x inode' t'
    using that by (auto simp: map_indirect_def Let_def split: prod.splits sum.splits if_splits intro: exI[of _ "i_blocks inode"])
  have mp: "\<exists>n. inode' = inode\<lparr>i_blocks := n\<rparr>" if "map_path inode b p t = (Inr r, inode', t')" for inode b p t
    using that
  proof (induction p arbitrary: inode b t)
    case (Cons s p)
    obtain c inode1 t1 where "map_indirect inode b s t = (Inr c, inode1, t1)" and rest: "map_path inode1 c p t1 = (Inr r, inode', t')"
      using Cons.prems by (auto split: prod.splits sum.splits)
    then show ?case
      using mi Cons.IH[OF rest] by force
  qed (use self in simp)
  obtain w p where mr: "map_root inode w p t = (Inr r, inode', t')"
    using assms by (auto simp: map_or_alloc_path split: option.splits)
  obtain b inode1 t1 where e: "ensure_indirect_root inode w t = (Inr b, inode1, t1)" "map_path inode1 b p t1 = (Inr r, inode', t')"
    using mr by (auto simp: map_root_def split: prod.splits sum.splits)
  obtain bs n where i1: "inode1 = inode\<lparr>i_block := bs, i_blocks := n\<rparr>"
    using e(1) inode_self by (auto simp: ensure_indirect_root_def split: prod.splits sum.splits if_splits)
  obtain m where "inode' = inode1\<lparr>i_blocks := m\<rparr>"
    using mp[OF e(2)] by blast
  then have "inode' = inode\<lparr>i_block := bs, i_blocks := m\<rparr>"
    using i1 by simp
  then show ?thesis by blast
qed

end
