(* ===== verification/Ext2File.thy ===== *)
theory Ext2File
  imports Ext2Tree DevReads
begin

section \<open>File contents\<close>

text \<open>
  A file is the function from byte positions to bytes that its block map and the block contents
  define; holes read as zero.  \<^verbatim>\<open>read_file\<close> returns a piece of it, and a transaction of
  \<^verbatim>\<open>write_file\<close> overwrites a piece of it and nothing else.
\<close>

definition file_byte :: "(nat \<Rightarrow> bytes) \<Rightarrow> ext2_inode \<Rightarrow> nat \<Rightarrow> u8" where
  "file_byte v inode i = (case block_lookup v inode (i div BS) of None \<Rightarrow> 0 | Some b \<Rightarrow> v (unat b) ! (i mod BS))"

subsection \<open>Reading\<close>

lemma read_block_view:
  assumes "read_block b d = (Inr x, d')" "b < max_blocks"
  shows "x = view d b \<and> view d' = view d"
  using assms by (auto simp: read_block_def dev_read_block_def block_unit_num tick_def split: option.splits prod.splits sum.splits if_splits nat.splits)

lemma read_loop_ok:
  "read_loop inode pos n d = (Inr bs, d') \<Longrightarrow> (\<And>u. length (view d u) = BS) \<Longrightarrow>
   bs = map (file_byte (view d) inode) [pos..<pos + n] \<and> view d' = view d"
proof (induction n arbitrary: pos d bs rule: less_induct)
  case (less n)
  show ?case
  proof (cases "n = 0")
    case False
    define w where "w = pos mod BS"
    define c where "c = min (BS - w) n"
    have c: "0 < c" "c \<le> n" "w + c \<le> BS"
      using False by (auto simp: c_def w_def BS_def)
    obtain b d1 part d2 rest where b: "block_for_offset inode pos d = (Inr b, d1)"
      and part: "(case b of Some blk \<Rightarrow> io_bind (read_block (unat blk)) (\<lambda>buf. io_return (sub_bytes buf w c))
        | None \<Rightarrow> io_return (replicate c 0)) d1 = (Inr part, d2)"
      and rest: "read_loop inode (pos + c) (n - c) d2 = (Inr rest, d')" and bs: "bs = part @ rest"
      using less.prems(1) False unfolding read_loop.simps[of inode pos n] Let_def w_def[symmetric] c_def[symmetric]
      by (auto simp: io_bind_def[of "block_for_offset inode pos"] io_bind_def[of "case_option _ _ _"]
          io_bind_def[of "read_loop inode (pos + c) (n - c)"] io_return_def[of "_ @ _"] split: prod.splits sum.splits)
    have bl: "b = block_lookup (view d) inode (pos div BS)" "view d1 = view d"
      using block_for_offset_ok[OF b] by simp_all
    have pt: "part = map (file_byte (view d) inode) [pos..<pos + c] \<and> view d2 = view d"
    proof -
      have dm: "(pos + i) div BS = pos div BS" "(pos + i) mod BS = w + i" if "i < c" for i
      proof -
        have p: "pos + i = (w + i) + pos div BS * BS" and lt: "w + i < BS"
          using that c(3) by (simp_all add: w_def)
        show "(pos + i) div BS = pos div BS" "(pos + i) mod BS = w + i"
          unfolding p using lt by simp_all
      qed
      have fb: "file_byte (view d) inode (pos + i) = (case b of None \<Rightarrow> 0 | Some blk \<Rightarrow> view d (unat blk) ! (w + i))" if "i < c" for i
        unfolding file_byte_def dm[OF that] bl(1) ..
      show ?thesis
      proof (cases b)
        case None
        then have "part = replicate c 0" "d2 = d1"
          using part by (auto simp: io_return_def)
        moreover have "replicate c 0 = map (file_byte (view d) inode) [pos..<pos + c]"
          using fb None by (intro nth_equalityI) simp_all
        ultimately show ?thesis
          using bl(2) by simp
      next
        case (Some blk)
        obtain x where x: "read_block (unat blk) d1 = (Inr x, d2)" "part = sub_bytes x w c"
          using part Some by (auto simp: io_bind_def io_return_def split: prod.splits sum.splits)
        have "x = view d (unat blk)" "view d2 = view d"
          using read_block_view[OF x(1)] bl by simp_all
        moreover have "sub_bytes (view d (unat blk)) w c = map (file_byte (view d) inode) [pos..<pos + c]"
          using fb Some c less.prems(2) by (intro nth_equalityI) (simp_all add: nth_sub_bytes buf_simps)
        ultimately show ?thesis
          using x(2) by simp
      qed
    qed
    then have "rest = map (file_byte (view d) inode) [pos + c..<pos + n]" "view d' = view d"
      using less.IH[OF _ rest] c less.prems(2) by auto
    then show ?thesis
      using pt bs c upt_add_eq_append[of pos "pos + c" "n - c"] by simp
  qed (use less.prems(1) in \<open>simp add: read_loop.simps io_return_def\<close>)
qed

subsection \<open>Overwriting a data block\<close>

lemma tx_data_block_ok:
  assumes "tx_data_block blk full t = (Inr u, t')" "blk < max_blocks"
  obtains B where "layout t' = layout t" "tx_view t' = (tx_view t)(blk := B)" "tx_get t' blk = B"
    "B = tx_view t blk \<or> full \<and> B = zero_block"
proof (cases "map_of (tx_dirty t) blk")
  case (Some b)
  then have t': "t' = t\<lparr>tx_data := List.insert blk (tx_data t)\<rparr>"
    using assms(1) by (auto simp: tx_data_block_def tx_bind_def)
  then have "tx_get t' blk = tx_view t blk"
    using Some by (simp add: tx_get_def tx_view_def)
  then show ?thesis
    using that[of "tx_view t blk"] t' by (simp add: layout_def)
next
  case None
  show ?thesis
  proof (cases full)
    case True
    then have t': "t' = (tx_put blk zero_block t)\<lparr>tx_data := List.insert blk (tx_data t)\<rparr>"
      using assms(1) None by (auto simp: tx_data_block_def tx_bind_def tx_return_def)
    have "tx_get t' blk = zero_block"
      unfolding t' by (simp add: tx_get_def tx_put_def update_conv')
    then show ?thesis
      using that[of zero_block] True by (simp add: t' layout_def)
  next
    case False
    obtain x where b: "tx_block blk t = (Inr (), x)" and t': "t' = x\<lparr>tx_data := List.insert blk (tx_data x)\<rparr>"
      using assms(1) None False by (auto simp: tx_data_block_def tx_bind_def tx_block_def split: prod.splits sum.splits)
    note s = tx_block_ok[OF b assms(2)]
    have "layout x = layout t" "tx_view x = tx_view t"
      using s(1) same_layout by (auto simp: tx_same_def)
    then show ?thesis
      using that[of "tx_view t blk"] s(2) by (simp add: t' layout_def tx_get_def)
  qed
qed

lemma write_leaf:
  assumes tr: "tree_ok t R inode" and ok: "alloc_ok t" and P: "leaf_pos P" "node (tx_view t) inode P = Some blk" and x: "length x = BS"
    and t': "layout t' = layout t" "tx_view t' = (tx_view t)(unat blk := x)"
  shows "tree_ok t' R inode" "alloc_ok t'" "in_use t' = in_use t" "pos_ok Q \<Longrightarrow> node (tx_view t') inode Q = node (tx_view t) inode Q"
proof -
  note tb = tree_okD[OF tr leaf_pos_ok[OF P(1)] P(2)]
  have ly: "layout t' = layout (tx_put (unat blk) x t)" "tx_view t' = tx_view (tx_put (unat blk) x t)"
    using t' by simp_all
  show ok': "alloc_ok t'" and iu: "in_use t' = in_use t"
    using alloc_ok_put[OF ok tb(3) x] alloc_ok_cong[OF ly] in_use_cong[OF ly(1)] ly(2) by auto
  have "tx_view t' (unat b) = tx_view t (unat b)" if "pos_ok Q" "\<not> leaf_pos Q" "node (tx_view t) inode Q = Some b" for Q b
  proof -
    have "b \<noteq> blk"
      using tb(4)[OF that(1)] that P(1) by auto
    then show ?thesis
      by (simp add: t' word_unat_eq_iff)
  qed
  then have nd: "node (tx_view t') inode Q = node (tx_view t) inode Q" if "pos_ok Q" for Q
    using node_cong[of "tx_view t" inode "tx_view t'" "fst Q" "snd Q"] that by simp
  then show "pos_ok Q \<Longrightarrow> node (tx_view t') inode Q = node (tx_view t) inode Q" .
  show "tree_ok t' R inode"
    using tr nd iu layout_gds(3)[OF t'(1)] unfolding tree_ok_def by metis
qed

lemma same_block_range:
  assumes "pos mod m + n \<le> (m :: nat)"
  shows "pos \<le> i \<and> i < pos + n \<longleftrightarrow> i div m = pos div m \<and> pos mod m \<le> i mod m \<and> i mod m < pos mod m + n"
    "i div m = pos div m \<Longrightarrow> i - pos = i mod m - pos mod m"
proof -
  have e: "pos = pos div m * m + pos mod m" "i = i div m * m + i mod m"
    by simp_all
  show "i - pos = i mod m - pos mod m" if "i div m = pos div m"
    using e that by (metis add_diff_cancel_left)
  show "pos \<le> i \<and> i < pos + n \<longleftrightarrow> i div m = pos div m \<and> pos mod m \<le> i mod m \<and> i mod m < pos mod m + n"
  proof
    assume r: "pos \<le> i \<and> i < pos + n"
    then have lt: "pos mod m + (i - pos) < m"
      using assms by linarith
    have "i = pos div m * m + (pos mod m + (i - pos))"
      using r e(1) by linarith
    then have "i div m = pos div m \<and> i mod m = pos mod m + (i - pos)"
      using lt by (metis div_mult_self3 div_less add.commute mod_less mod_mult_self3 add_0_right add_cancel_right_left not_less_zero)
    then show "i div m = pos div m \<and> pos mod m \<le> i mod m \<and> i mod m < pos mod m + n"
      using r by linarith
  next
    assume "i div m = pos div m \<and> pos mod m \<le> i mod m \<and> i mod m < pos mod m + n"
    then show "pos \<le> i \<and> i < pos + n"
      using e by (metis add.assoc add_le_cancel_left nat_add_left_cancel_less)
  qed
qed

lemma write_chunk:
  assumes m: "map_or_alloc inode (pos div BS) t = (Inr blk, inode1, t1)" and ok: "alloc_ok t" and tr: "tree_ok t R inode"
    and d: "tx_data_block (unat blk) full t1 = (Inr u, t2)"
    and x: "pos mod BS + length x \<le> BS" "full \<Longrightarrow> length x = BS"
  defines "t3 \<equiv> tx_put (unat blk) (put_bytes (tx_get t2 (unat blk)) (pos mod BS) x) t2"
  shows "tree_ok t3 R inode1" "alloc_ok t3" "layout t3 = layout t" "in_use t \<subseteq> in_use t3"
    "v \<in> R - bitmaps t \<Longrightarrow> tx_view t3 v = tx_view t v"
    "file_byte (tx_view t3) inode1 i = (if pos \<le> i \<and> i < pos + length x then x ! (i - pos) else file_byte (tx_view t) inode i)"
proof -
  obtain P where P: "block_path (pos div BS) = Some P" and g: "grown t R inode P blk t1 inode1"
    using map_or_alloc_tree[OF m ok tr] .
  have lf: "leaf_pos P"
    using block_path_leaf[OF P] .
  have tr1: "tree_ok t1 R inode1" and k: "keeps t R inode t1" and nP: "node (tx_view t1) inode1 P = Some blk"
    using g grown_node[OF g lf] by (simp_all add: grown_def)
  have ok1: "alloc_ok t1" and ly1: "layout t1 = layout t" and iu1: "in_use t \<subseteq> in_use t1"
    and kR: "\<And>v. v \<in> R - bitmaps t \<Longrightarrow> tx_view t1 v = tx_view t v"
    and kl: "\<And>Q c. leaf_pos Q \<Longrightarrow> node (tx_view t) inode Q = Some c \<Longrightarrow> tx_view t1 (unat c) = tx_view t (unat c)"
    using k unfolding keeps_def by blast+
  obtain B where B: "layout t2 = layout t1" "tx_view t2 = (tx_view t1)(unat blk := B)" "tx_get t2 (unat blk) = B"
    "B = tx_view t1 (unat blk) \<or> full \<and> B = zero_block"
    using tx_data_block_ok[OF d unat_u32_blocks] .
  define Y where "Y = put_bytes B (pos mod BS) x"
  have lB: "length B = BS"
    using B(4) alloc_ok_sel(1)[OF ok1] by auto
  have lY: "length Y = BS"
    using lB x(1) by (simp add: Y_def buf_simps)
  have t3: "layout t3 = layout t1" "tx_view t3 = (tx_view t1)(unat blk := Y)"
    by (simp_all add: t3_def B Y_def)
  note wl = write_leaf[OF tr1 ok1 lf nP lY t3]
  note tb = tree_okD[OF tr1 leaf_pos_ok[OF lf] nP]
  show "tree_ok t3 R inode1" "alloc_ok t3" "layout t3 = layout t" "in_use t \<subseteq> in_use t3"
    using wl ly1 iu1 t3 by simp_all
  show "v \<in> R - bitmaps t \<Longrightarrow> tx_view t3 v = tx_view t v"
    using tb(2) kR by (auto simp: t3)
  note rg = same_block_range[OF x(1), of i]
  have nd: "node (tx_view t3) inode1 Q = (if Q = P then Some blk else node (tx_view t) inode Q)" if "leaf_pos Q" for Q
    using wl(4)[of Q] grown_node[OF g that] that by simp
  show "file_byte (tx_view t3) inode1 i = (if pos \<le> i \<and> i < pos + length x then x ! (i - pos) else file_byte (tx_view t) inode i)"
  proof (cases "i div BS = pos div BS")
    case same: True
    have j: "i mod BS < BS"
      by (simp add: BS_def)
    have new: "file_byte (tx_view t3) inode1 i = Y ! (i mod BS)"
      using same P nd[OF lf] by (simp add: file_byte_def block_lookup_node t3)
    show ?thesis
    proof (cases "pos \<le> i \<and> i < pos + length x")
      case True
      then show ?thesis
        using new rg same lB x(1) j by (simp add: Y_def nth_put_bytes)
    next
      case False
      then have out: "i mod BS < pos mod BS \<or> pos mod BS + length x \<le> i mod BS"
        using rg same by auto
      then have "\<not> full"
        using x j by auto
      then have b: "B = tx_view t1 (unat blk)"
        using B(4) by simp
      have "Y ! (i mod BS) = tx_view t1 (unat blk) ! (i mod BS)"
        using out lB x(1) j by (auto simp: Y_def nth_put_bytes b)
      also have "\<dots> = file_byte (tx_view t) inode i"
      proof (cases "node (tx_view t) inode P")
        case None
        then show ?thesis
          using g same P j by (simp add: grown_def file_byte_def block_lookup_node zero_block_def)
      next
        case (Some q)
        then have "blk = q"
          using g by (simp add: grown_def)
        then show ?thesis
          using kl[OF lf Some] Some same P by (simp add: file_byte_def block_lookup_node)
      qed
      finally show ?thesis
        using new False by auto
    qed
  next
    case False
    then have nr: "\<not> (pos \<le> i \<and> i < pos + length x)"
      using rg by blast
    show ?thesis
    proof (cases "block_path (i div BS)")
      case None
      then show ?thesis
        using nr by (auto simp: file_byte_def block_lookup_node)
    next
      case (Some Q)
      have Q: "leaf_pos Q" "Q \<noteq> P"
        using block_path_leaf[OF Some] block_path_inj[OF Some] P False by auto
      have "tx_view t3 (unat c) = tx_view t (unat c)" if c: "node (tx_view t) inode Q = Some c" for c
      proof -
        have "c \<noteq> blk"
          using tb(4)[OF leaf_pos_ok[OF Q(1)]] grown_node[OF g Q(1)] Q(2) c by auto
        then show ?thesis
          using kl[OF Q(1) c] by (simp add: t3 word_unat_eq_iff)
      qed
      then show ?thesis
        using nr Some nd[OF Q(1)] Q(2) by (auto simp: file_byte_def block_lookup_node split: option.splits)
    qed
  qed
qed

text \<open>The loop over the blocks of one transaction.\<close>

definition rewritten :: "tx \<Rightarrow> nat set \<Rightarrow> ext2_inode \<Rightarrow> nat \<Rightarrow> bytes \<Rightarrow> tx \<Rightarrow> ext2_inode \<Rightarrow> bool" where
  "rewritten t R inode pos x t' inode' \<longleftrightarrow> tree_ok t' R inode' \<and> alloc_ok t' \<and> layout t' = layout t \<and> in_use t \<subseteq> in_use t'
     \<and> (\<forall>u \<in> R - bitmaps t. tx_view t' u = tx_view t u) \<and> (\<exists>bs n. inode' = inode\<lparr>i_block := bs, i_blocks := n\<rparr>)
     \<and> (\<forall>i. file_byte (tx_view t') inode' i = (if pos \<le> i \<and> i < pos + length x then x ! (i - pos) else file_byte (tx_view t) inode i))"

lemma rewritten_nil: "tree_ok t R inode \<Longrightarrow> alloc_ok t \<Longrightarrow> rewritten t R inode pos [] t inode"
  unfolding rewritten_def using inode_self[of inode] by (auto simp: not_less[symmetric])

lemma rewritten_trans:
  assumes a: "rewritten t R inode pos x t1 inode1" and b: "rewritten t1 R inode1 (pos + length x) y t2 inode2"
  shows "rewritten t R inode pos (x @ y) t2 inode2"
proof -
  have bm: "bitmaps t1 = bitmaps t"
    using a layout_gds(3)[of t1 t] by (simp add: rewritten_def)
  have "file_byte (tx_view t2) inode2 i = (if pos \<le> i \<and> i < pos + length (x @ y) then (x @ y) ! (i - pos) else file_byte (tx_view t) inode i)" for i
  proof (cases "pos + length x \<le> i \<and> i < pos + length x + length y")
    case True
    then have "i - (pos + length x) = i - pos - length x" "\<not> i - pos < length x"
      by auto
    then show ?thesis
      using b True by (auto simp: rewritten_def nth_append)
  next
    case False
    then have "file_byte (tx_view t2) inode2 i = file_byte (tx_view t1) inode1 i"
      using b by (auto simp: rewritten_def)
    then show ?thesis
      using a False by (auto simp: rewritten_def nth_append)
  qed
  moreover obtain bs n where i1: "inode1 = inode\<lparr>i_block := bs, i_blocks := n\<rparr>"
    using a by (auto simp: rewritten_def)
  moreover obtain bs' n' where i2: "inode2 = inode1\<lparr>i_block := bs', i_blocks := n'\<rparr>"
    using b by (auto simp: rewritten_def)
  moreover have "inode2 = inode\<lparr>i_block := bs', i_blocks := n'\<rparr>"
    using i1 i2 by simp
  ultimately show ?thesis
    using a b bm unfolding rewritten_def by auto
qed

lemma write_blocks_ok:
  "write_blocks k inode pos data t = (Inr (pos', rest), inode', t') \<Longrightarrow> alloc_ok t \<Longrightarrow> tree_ok t R inode \<Longrightarrow>
   \<exists>n. n \<le> length data \<and> pos' = pos + n \<and> rest = drop n data \<and> rewritten t R inode pos (take n data) t' inode'"
proof (induction k arbitrary: inode pos data t)
  case 0
  then show ?case
    by (intro exI[of _ 0]) (auto simp: rewritten_nil)
next
  case (Suc k)
  show ?case
  proof (cases "data = []")
    case True
    then show ?thesis
      using Suc.prems by (intro exI[of _ 0]) (auto simp: rewritten_nil)
  next
    case False
    define c where "c = min (BS - pos mod BS) (length data)"
    define full where "full = (pos mod BS = 0 \<and> c = BS)"
    obtain blk inode1 t1 u t2 where m: "map_or_alloc inode (pos div BS) t = (Inr blk, inode1, t1)"
      and d: "tx_data_block (unat blk) full t1 = (Inr u, t2)"
      and w: "write_blocks k inode1 (pos + c) (drop c data)
        (tx_put (unat blk) (put_bytes (tx_get t2 (unat blk)) (pos mod BS) (take c data)) t2) = (Inr (pos', rest), inode', t')"
      using Suc.prems(1) False unfolding write_blocks.simps Let_def c_def[symmetric] full_def[symmetric]
      by (auto split: prod.splits sum.splits)
    have c: "pos mod BS + length (take c data) \<le> BS" "full \<Longrightarrow> length (take c data) = BS" "length (take c data) = c" "c \<le> length data"
    proof -
      have "c \<le> length data" "c \<le> BS - pos mod BS" "pos mod BS < BS"
        by (simp_all add: c_def BS_def)
      then show "pos mod BS + length (take c data) \<le> BS" "full \<Longrightarrow> length (take c data) = BS" "length (take c data) = c" "c \<le> length data"
        by (simp_all add: full_def)
    qed
    note wc = write_chunk[OF m Suc.prems(2,3) d c(1,2)]
    let ?t3 = "tx_put (unat blk) (put_bytes (tx_get t2 (unat blk)) (pos mod BS) (take c data)) t2"
    have r1: "rewritten t R inode pos (take c data) ?t3 inode1"
      unfolding rewritten_def using wc map_or_alloc_inode[OF m] by blast
    obtain n where n: "n \<le> length (drop c data)" "pos' = pos + c + n" "rest = drop n (drop c data)"
      "rewritten ?t3 R inode1 (pos + c) (take n (drop c data)) t' inode'"
      using Suc.IH[OF w wc(2,1)] by blast
    have "take c data @ take n (drop c data) = take (c + n) data"
      by (simp add: take_add)
    then have "rewritten t R inode pos (take (c + n) data) t' inode'"
      using rewritten_trans[OF r1] n(4) c(3) by metis
    then show ?thesis
      using n c(4) by (intro exI[of _ "c + n"]) (simp add: add.commute)
  qed
qed

subsection \<open>The inode of the file\<close>

text \<open>The inode tables lie in reserved blocks and do not overlap.\<close>

definition meta_ok :: "tx \<Rightarrow> nat set \<Rightarrow> bool" where
  "meta_ok t R \<longleftrightarrow> tables_ok (tx_sb t) (tx_gds t) \<and> (\<forall>g < length (tx_gds t). table_blocks (tx_sb t) (tx_gds t ! g) \<subseteq> R - bitmaps t)"

lemma layout_tables:
  assumes ly: "layout t' = layout t"
  shows "inode_location (tx_sb t') (tx_gds t') = inode_location (tx_sb t) (tx_gds t)"
    "g < length (tx_gds t) \<Longrightarrow> table_blocks (tx_sb t') (tx_gds t' ! g) = table_blocks (tx_sb t) (tx_gds t ! g)"
proof -
  let ?f = "\<lambda>gd. gd\<lparr>bg_free_blocks_count := 0, bg_free_inodes_count := 0, bg_used_dirs_count := 0\<rparr>"
  have m: "map ?f (tx_gds t') = map ?f (tx_gds t)"
    using ly by (simp add: layout_def)
  note l = layout_gds(1)[OF ly] and sb = layout_sb[OF ly]
  have it: "bg_inode_table (tx_gds t' ! g) = bg_inode_table (tx_gds t ! g)" if "g < length (tx_gds t)" for g
    using arg_cong[OF m, of "\<lambda>xs. bg_inode_table (xs ! g)"] that l by simp
  then show "g < length (tx_gds t) \<Longrightarrow> table_blocks (tx_sb t') (tx_gds t' ! g) = table_blocks (tx_sb t) (tx_gds t ! g)"
    using sb by (simp add: table_blocks_def Let_def)
  show "inode_location (tx_sb t') (tx_gds t') = inode_location (tx_sb t) (tx_gds t)"
    using it sb l by (auto simp: inode_location_def Let_def fun_eq_iff)
qed

lemma layout_meta: "layout t' = layout t \<Longrightarrow> meta_ok t' R \<longleftrightarrow> meta_ok t R"
  unfolding meta_ok_def tables_ok_def
  by (simp add: layout_gds(1,3)[of t' t] layout_tables(2)[of t' t])

lemma location_reserved:
  assumes "meta_ok t R" "inode_location (tx_sb t) (tx_gds t) ino = Inr (b, off)"
  shows "b \<in> R - bitmaps t"
  using inode_location_bounds(3)[OF assms(2)] assms(1) unfolding meta_ok_def by blast

lemma inode_kept:
  assumes mo: "meta_ok t R" and ly: "layout t' = layout t" and v: "\<And>u. u \<in> R - bitmaps t \<Longrightarrow> tx_view t' u = tx_view t u"
  shows "tx_inode t' = tx_inode t"
proof
  fix ino
  show "tx_inode t' ino = tx_inode t ino"
    unfolding tx_inode_def layout_tables(1)[OF ly] using location_reserved[OF mo] v by (auto split: sum.splits)
qed

lemma wf_tx_inode:
  assumes "tx_inode t ino = Some i" "\<And>u. length (tx_view t u) = BS"
  shows "wf_inode i"
proof -
  obtain b off where l: "inode_location (tx_sb t) (tx_gds t) ino = Inr (b, off)" and i: "i = dec_inode (drop off (tx_view t b))"
    using assms(1) by (auto simp: tx_inode_def split: sum.splits)
  have "off + 128 \<le> BS"
    using inode_location_bounds(1)[OF l] inode_size_bounds(1)[of "tx_sb t"] by simp
  then show ?thesis
    using assms(2) by (simp add: i wf_inode_def dec_inode_def buf_simps)
qed

lemma write_inode_file:
  assumes w: "tx_write_inode ino i t = (Inr a, t')" and wf: "wf_inode i" and ok: "alloc_ok t" and tr: "tree_ok t R inode" and mo: "meta_ok t R"
  shows "tree_ok t' R inode" "alloc_ok t'" "layout t' = layout t" "in_use t' = in_use t"
    "file_byte (tx_view t') inode = file_byte (tx_view t) inode" "tx_inode t' = (tx_inode t)(ino \<mapsto> i)"
    "(\<And>g. g < length (tx_gds t) \<Longrightarrow> u \<notin> table_blocks (tx_sb t) (tx_gds t ! g)) \<Longrightarrow> tx_view t' u = tx_view t u"
proof -
  have len: "\<And>u. length (tx_view t u) = BS"
    using ok by (rule alloc_ok_sel)
  obtain b off where l: "inode_location (tx_sb t) (tx_gds t) ino = Inr (b, off)"
    and v: "tx_view t' = (tx_view t)(b := put_bytes (tx_view t b) off (enc_inode i))" "tx_sb t' = tx_sb t" "tx_gds t' = tx_gds t"
    using tx_write_inode_ok[OF w wf len] .
  have b: "b \<in> R" "b \<notin> bitmaps t"
    using location_reserved[OF mo l] by simp_all
  show "tx_view t' u = tx_view t u" if "\<And>g. g < length (tx_gds t) \<Longrightarrow> u \<notin> table_blocks (tx_sb t) (tx_gds t ! g)"
    using that inode_location_bounds(3)[OF l] by (auto simp: v)
  show ly: "layout t' = layout t"
    using v by (simp add: layout_def)
  define x where "x = put_bytes (tx_view t b) off (enc_inode i)"
  have "off + 128 \<le> BS"
    using inode_location_bounds(1)[OF l] inode_size_bounds(1)[of "tx_sb t"] by simp
  then have lx: "length x = BS"
    using len wf by (simp add: x_def buf_simps)
  have e: "layout t' = layout (tx_put b x t)" "tx_view t' = tx_view (tx_put b x t)"
    using ly v by (simp_all add: x_def)
  show "alloc_ok t'" and iu: "in_use t' = in_use t"
    using alloc_ok_put[OF ok b(2) lx] alloc_ok_cong[OF e] in_use_cong[OF e(1)] e(2) by auto
  have same: "tx_view t' (unat c) = tx_view t (unat c)" if "pos_ok Q" "node (tx_view t) inode Q = Some c" for Q c
    using tree_okD(2)[OF tr that] b(1) by (auto simp: v)
  have nd: "node (tx_view t') inode Q = node (tx_view t) inode Q" if "pos_ok Q" for Q
    using node_cong[of "tx_view t" inode "tx_view t'" "fst Q" "snd Q"] same that by simp
  show "tree_ok t' R inode"
    using tr nd iu layout_gds(3)[OF ly] unfolding tree_ok_def by metis
  show "file_byte (tx_view t') inode = file_byte (tx_view t) inode"
  proof
    fix k
    show "file_byte (tx_view t') inode k = file_byte (tx_view t) inode k"
    proof (cases "block_path (k div BS)")
      case (Some Q)
      have Q: "pos_ok Q"
        using block_path_leaf[OF Some] by simp
      then show ?thesis
        using nd[OF Q] same[OF Q] Some by (auto simp: file_byte_def block_lookup_node split: option.splits)
    qed (simp add: file_byte_def block_lookup_node)
  qed
  show "tx_inode t' = (tx_inode t)(ino \<mapsto> i)"
    using tx_write_inode_view[OF w wf len] mo by (simp add: meta_ok_def)
qed

subsection \<open>One transaction of a write\<close>

lemma i_size_update:
  "tree_ok t R (inode\<lparr>i_size := n\<rparr>) = tree_ok t R inode" "file_byte v (inode\<lparr>i_size := n\<rparr>) = file_byte v inode"
  by (auto simp: tree_ok_def node_def file_byte_def block_lookup_def fun_eq_iff split: option.splits)

definition written :: "tx \<Rightarrow> nat set \<Rightarrow> u32 \<Rightarrow> ext2_inode \<Rightarrow> nat \<Rightarrow> bytes \<Rightarrow> tx \<Rightarrow> ext2_inode \<Rightarrow> bool" where
  "written t R ino inode pos x t' inode' \<longleftrightarrow> alloc_ok t' \<and> tree_ok t' R inode' \<and> layout t' = layout t \<and> in_use t \<subseteq> in_use t'
     \<and> (\<forall>u \<in> R - bitmaps t. (\<forall>g < length (tx_gds t). u \<notin> table_blocks (tx_sb t) (tx_gds t ! g)) \<longrightarrow> tx_view t' u = tx_view t u)
     \<and> tx_inode t' = (tx_inode t)(ino \<mapsto> inode') \<and> i_mode inode' = i_mode inode
     \<and> unat (i_size inode') = max (unat (i_size inode)) (pos + length x)
     \<and> (\<forall>i. file_byte (tx_view t') inode' i = (if pos \<le> i \<and> i < pos + length x then x ! (i - pos) else file_byte (tx_view t) inode i))"

lemma write_tx_ok:
  assumes w: "write_tx ino pos data t = (Inr (pos', rest), t')" and ok: "alloc_ok t" and mo: "meta_ok t R"
    and i: "tx_inode t ino = Some inode" and tr: "tree_ok t R inode" and fit: "pos + length data < 2 ^ 32"
  obtains n inode' where "n \<le> length data" "data \<noteq> [] \<Longrightarrow> 0 < n" "pos' = pos + n" "rest = drop n data" "is_reg inode"
    "written t R ino inode pos (take n data) t' inode'"
proof -
  obtain i1 t1 where r: "tx_read_inode ino t = (Inr i1, t1)"
    using w by (auto simp: write_tx_def tx_bind_def split: prod.splits sum.splits)
  note ri = tx_read_inode_ok[OF r]
  have [simp]: "i1 = inode" "tx_view t1 = tx_view t" and ly1: "layout t1 = layout t"
    using ri i same_layout by (auto simp: tx_same_def)
  have ok1: "alloc_ok t1" and mo1: "meta_ok t1 R" and bm1: "bitmaps t1 = bitmaps t" and iu1: "in_use t1 = in_use t"
    using alloc_ok_cong[OF ly1] ok layout_meta[OF ly1] mo layout_gds(3)[OF ly1] in_use_cong[OF ly1] by simp_all
  have tr1: "tree_ok t1 R inode"
    using tr iu1 bm1 by (simp add: tree_ok_def)
  have in1: "tx_inode t1 = tx_inode t"
    using inode_kept[OF mo ly1] by simp
  obtain pos2 rest2 inode2 t2 where wb: "write_blocks TX_DATA_BLOCKS inode pos data t1 = (Inr (pos2, rest2), inode2, t2)"
    and reg: "is_reg inode"
    using w r by (auto simp: write_tx_def tx_bind_def split: prod.splits sum.splits if_splits)
  define inode3 where "inode3 = (if unat (i_size inode2) < pos2 then inode2\<lparr>i_size := of_nat pos2\<rparr> else inode2)"
  have wi: "tx_write_inode ino inode3 t2 = (Inr (), t')" and e: "pos' = pos2" "rest = rest2"
    using w r wb reg by (auto simp: write_tx_def tx_bind_def Let_def inode3_def tx_return_def split: prod.splits sum.splits)
  obtain n where n: "n \<le> length data" "pos2 = pos + n" "rest2 = drop n data" "rewritten t1 R inode pos (take n data) t2 inode2"
    using write_blocks_ok[OF wb ok1 tr1] by blast
  have rw: "tree_ok t2 R inode2" "alloc_ok t2" "layout t2 = layout t1" "in_use t1 \<subseteq> in_use t2" "\<And>u. u \<in> R - bitmaps t1 \<Longrightarrow> tx_view t2 u = tx_view t1 u"
    using n(4) unfolding rewritten_def by blast+
  obtain bs nb where i2: "inode2 = inode\<lparr>i_block := bs, i_blocks := nb\<rparr>"
    using n(4) unfolding rewritten_def by blast
  have in2: "tx_inode t2 = tx_inode t1" and mo2: "meta_ok t2 R"
    using inode_kept[OF mo1 rw(3,5)] layout_meta[OF rw(3)] mo1 by simp_all
  have tr3: "tree_ok t2 R inode3" and fb: "file_byte v inode3 = file_byte v inode2" for v
    using rw(1) by (simp_all add: inode3_def i_size_update)
  have "length (i_block inode2) = 15" "length (i_osd2 inode2) = 12"
    using rw(1) wf_tx_inode[OF i alloc_ok_sel(1)[OF ok]] by (simp_all add: tree_ok_def i2 wf_inode_def)
  then have wf: "wf_inode inode3"
    by (simp add: inode3_def wf_inode_def)
  note f = write_inode_file[OF wi wf rw(2) tr3 mo2]
  have sz: "unat (i_size inode3) = max (unat (i_size inode)) (pos + n)"
    using fit n(1,2) unat_of_nat_small[of "pos + n", where 'a = 32] by (auto simp: inode3_def i2 max_def)
  have ly2: "layout t2 = layout t"
    using rw(3) ly1 by simp
  have "written t R ino inode pos (take n data) t' inode3"
    unfolding written_def
  proof (intro conjI allI ballI impI)
    show "tx_view t' u = tx_view t u" if "u \<in> R - bitmaps t" "\<forall>g < length (tx_gds t). u \<notin> table_blocks (tx_sb t) (tx_gds t ! g)" for u
      using that f(7)[of u] rw(5) bm1 layout_gds(1)[OF ly2] layout_tables(2)[OF ly2] by simp
    show "file_byte (tx_view t') inode3 i = (if pos \<le> i \<and> i < pos + length (take n data) then take n data ! (i - pos) else file_byte (tx_view t) inode i)" for i
      using n(4) f(5) fb unfolding rewritten_def by simp
  qed (use f rw ly1 iu1 in2 in1 sz n(1) in \<open>simp_all add: i2 inode3_def\<close>)
  moreover have "0 < n" if "data \<noteq> []"
    using write_tx_progress[OF w that] e n by simp
  ultimately show ?thesis
    using that[of n inode3] n reg e by simp
qed

end
