(* ===== verification/Ext2Free.thy ===== *)
theory Ext2Free
  imports Ext2Map
begin

section \<open>Releasing blocks\<close>

text \<open>
  What \<^verbatim>\<open>free_data_block\<close> and the clearing of a leaf pointer do to the bitmaps and to the block
  contents a transaction sees.
\<close>

lemma in_use_clear:
  assumes g: "g < length (tx_gds t)" "i < 32768" and ok: "alloc_ok t" and ly: "layout t' = layout t"
    and v: "tx_view t' (bbm_of t g) = wl_clear (tx_view t (bbm_of t g)) i"
    "\<And>h. h < length (tx_gds t) \<Longrightarrow> h \<noteq> g \<Longrightarrow> tx_view t' (bbm_of t h) = tx_view t (bbm_of t h)"
  shows "in_use t' = in_use t - {g * 32768 + i}"
proof (rule set_eqI)
  have bits: "wl_bits (tx_view t u) = 32768" for u
    using ok by (simp add: alloc_ok_def wl_bits_def BS_def)
  have tst: "wl_test (tx_view t' (bbm_of t' h)) j \<longleftrightarrow> \<not> (h = g \<and> j = i) \<and> wl_test (tx_view t (bbm_of t h)) j"
    if "h < length (tx_gds t)" "j < 32768" for h j
    using that v g bits layout_gds(2)[OF ly] by (cases "h = g") (simp_all add: wl_test_clear)
  have l: "length (tx_gds t') = length (tx_gds t)"
    by (rule layout_gds(1)[OF ly])
  fix x :: nat
  have x: "x = x div 32768 * 32768 + x mod 32768" "x mod 32768 < 32768"
    by simp_all
  have e: "x = g * 32768 + i \<longleftrightarrow> x div 32768 = g \<and> x mod 32768 = i"
    using g(2) by auto
  show "x \<in> in_use t' \<longleftrightarrow> x \<in> in_use t - {g * 32768 + i}"
  proof (cases "x div 32768 < length (tx_gds t)")
    case True
    then show ?thesis
      using in_use_mem[of "x div 32768" t' "x mod 32768"] in_use_mem[of "x div 32768" t "x mod 32768"] tst[OF True x(2)] x e l
      by auto
  next
    case False
    have "y div 32768 < length (tx_gds t)" if "y \<in> in_use t \<or> y \<in> in_use t'" for y
      using that l by (auto simp: in_use_def)
    then show ?thesis
      using False by blast
  qed
qed

definition freed :: "tx \<Rightarrow> u32 \<Rightarrow> tx \<Rightarrow> bool" where
  "freed t blk t' \<longleftrightarrow> layout t' = layout t \<and> alloc_ok t' \<and> in_use t' = in_use t - {unat blk}
     \<and> (\<forall>u. u \<notin> bitmaps t \<longrightarrow> tx_view t' u = tx_view t u)"

lemma free_data_block_ok:
  assumes f: "free_data_block blk t = (Inr u, t')" and ok: "alloc_ok t" and blk: "blk \<noteq> 0" "unat blk \<notin> bitmaps t"
  shows "freed t blk t'"
proof -
  define g where "g = unat blk div 32768"
  define bt where "bt = blk mod 32768"
  have sb: "s_first_data_block (tx_sb t) = 0" "s_blocks_per_group (tx_sb t) = 32768" and len: "\<And>u. length (tx_view t u) = BS"
    using ok by (simp_all add: alloc_ok_def)
  have mx: "max (32768 :: u32) 1 = 32768" and rel: "saturating_sub blk 0 = blk"
    by (simp_all add: saturating_sub_def)
  have ug: "unat (blk div 32768) = g" and ub: "unat bt = unat blk mod 32768"
    by (simp_all add: g_def bt_def unat_div unat_mod)
  have g: "g < length (tx_gds t)"
    using f by (auto simp: free_data_block_def sb rel ug Let_def split: if_splits)
  obtain t1 where b1: "tx_block (bbm_of t g) t = (Inr (), t1)"
    using f g by (auto simp: free_data_block_def sb rel ug Let_def bbm_of_def split: prod.splits sum.splits)
  have "bbm_of t g < max_blocks"
    by (simp add: bbm_of_def)
  note s1 = tx_block_ok[OF b1 this]
  have v1: "tx_view t1 = tx_view t" "tx_sb t1 = tx_sb t" "tx_gds t1 = tx_gds t" and ly1: "layout t1 = layout t"
    using s1(1) same_layout by (auto simp: tx_same_def)
  obtain c bm where cb: "clear_bit (tx_view t (bbm_of t g)) bt = (c, bm)"
    by (cases "clear_bit (tx_view t (bbm_of t g)) bt")
  have bits: "unat bt < wl_bits (tx_view t (bbm_of t g))"
    using len by (simp add: wl_bits_def BS_def ub)
  have bm: "bm = wl_clear (tx_view t (bbm_of t g)) (unat bt)"
    using cb bits by (simp add: bit_ops)
  have t': "tx_view t' = (tx_view t)(bbm_of t g := bm) \<and> layout t' = layout t"
  proof (cases c)
    case True
    then have "t' = set_gd g ((tx_gds t ! g)\<lparr>bg_free_blocks_count := bg_free_blocks_count (tx_gds t ! g) + 1\<rparr>)
        ((tx_put (bbm_of t g) bm t1)\<lparr>tx_sb := (tx_sb t1)\<lparr>s_free_blocks_count := s_free_blocks_count (tx_sb t1) + 1\<rparr>\<rparr>)"
      using f g b1 s1(2) cb by (simp add: free_data_block_def sb rel ug bt_def[symmetric] Let_def bbm_of_def)
    then show ?thesis
      using layout_set_gd(1)[of g "(tx_put (bbm_of t g) bm t1)\<lparr>tx_sb := (tx_sb t1)\<lparr>s_free_blocks_count := s_free_blocks_count (tx_sb t1) + 1\<rparr>\<rparr>"]
        g v1 ly1 layout_simps(2)[where t = "tx_put (bbm_of t g) bm t1"] by simp
  next
    case False
    then have "t' = tx_put (bbm_of t g) bm t1"
      using f g b1 s1(2) cb by (simp add: free_data_block_def sb rel ug bt_def[symmetric] Let_def bbm_of_def)
    then show ?thesis
      using v1 ly1 by simp
  qed
  have inj: "bbm_of t h \<noteq> bbm_of t g" if "h < length (tx_gds t)" "h \<noteq> g" for h
    using ok that g by (auto simp: alloc_ok_def inj_on_def)
  have eq: "g * 32768 + unat bt = unat blk"
    by (simp add: g_def ub)
  have use: "in_use t' = in_use t - {unat blk}"
    unfolding eq[symmetric] using t' inj bm ub by (intro in_use_clear[OF g _ ok]) auto
  have len': "length (tx_view t' u) = BS" for u
    using t' len bm by (simp add: wl_clear_def Let_def)
  have "inj_on (bbm_of t') {..<length (tx_gds t)} \<longleftrightarrow> inj_on (bbm_of t) {..<length (tx_gds t)}"
    by (rule inj_on_cong) (simp add: layout_gds(2)[OF conjunct2[OF t']])
  then have "alloc_ok t'"
    using ok use len' blk unfolding alloc_ok_def layout_gds(1,3)[OF conjunct2[OF t']] layout_sb[OF conjunct2[OF t']]
    by (auto simp: unat_eq_zero)
  then show ?thesis
    using t' use g by (auto simp: freed_def bitmaps_def)
qed


lemma all_zero_ptr: "length b = BS \<Longrightarrow> all_zero b \<longleftrightarrow> (\<forall>k < 1024. ptr b k = 0)"
proof -
  assume len: "length b = BS"
  have w: "ptr b k = 0 \<longleftrightarrow> sub_bytes b (k * 4) 4 = replicate 4 0" if "k < 1024" for k
  proof -
    have "length (sub_bytes b (k * 4) 4) = 4"
      using that len by (simp add: buf_simps BS_def)
    then have "le_bytes 4 (ptr b k) = sub_bytes b (k * 4) 4"
      using le_bytes_of_le[of "sub_bytes b (k * 4) 4", where ?'a = 32] by (simp add: ptr_def read_u32_def)
    moreover have "le_bytes 4 (0 :: u32) = replicate 4 0"
      by (simp add: le_bytes_def numeral_eq_Suc)
    moreover have "of_le (replicate 4 0) = (0 :: u32)"
      by simp
    ultimately show ?thesis
      by (metis ptr_def read_u32_def)
  qed
  have z: "all_zero b \<longleftrightarrow> (\<forall>i < BS. b ! i = 0)"
    using len by (simp add: all_zero_def list_all_length BS_def)
  have s: "sub_bytes b (k * 4) 4 = replicate 4 0 \<longleftrightarrow> (\<forall>j < 4. b ! (k * 4 + j) = 0)" if "k < 1024" for k
    using that len by (auto simp: list_eq_iff_nth_eq nth_sub_bytes buf_simps BS_def)
  have "(\<forall>k < 1024. \<forall>j < 4. b ! (k * 4 + j) = 0) \<longleftrightarrow> (\<forall>i < BS. b ! i = 0)"
  proof (intro iffI allI impI)
    fix i assume a: "\<forall>k < 1024. \<forall>j < 4. b ! (k * 4 + j) = 0" and i: "i < BS"
    then have "i div 4 < 1024" "i mod 4 < 4"
      by (simp_all add: BS_def less_mult_imp_div_less)
    then have "b ! (i div 4 * 4 + i mod 4) = 0"
      using a by blast
    then show "b ! i = 0" by simp
  next
    fix k j :: nat assume "\<forall>i < BS. b ! i = 0" "k < 1024" "j < 4"
    then show "b ! (k * 4 + j) = 0" by (simp add: BS_def)
  qed
  then show ?thesis
    using z w s by simp
qed

lemma free_data_block_alive:
  assumes "tx_live t" "alloc_ok t" "unat blk div 32768 < length (tx_gds t)"
  shows "\<exists>t'. free_data_block blk t = (Inr (), t')"
proof -
  have sb: "s_first_data_block (tx_sb t) = 0" "s_blocks_per_group (tx_sb t) = 32768"
    using assms(2) by (simp_all add: alloc_ok_def)
  let ?g = "unat blk div 32768"
  have ug: "unat (blk div 32768) = ?g"
    by (simp add: unat_div)
  have "bbm_of t ?g < capacity (tx_dev t)"
    using assms(1,3) by (auto simp: tx_live_def bitmaps_def)
  then obtain t1 where "tx_block (bbm_of t ?g) t = (Inr (), t1)"
    using tx_block_alive assms(1) unfolding tx_live_def by blast
  then show ?thesis
    using assms(3) by (auto simp: free_data_block_def sb saturating_sub_def ug Let_def bbm_of_def split: prod.splits bool.splits)
qed

text \<open>The blocks in the working set.\<close>

definition in_dirty :: "tx \<Rightarrow> nat \<Rightarrow> bool" where
  "in_dirty t u \<longleftrightarrow> map_of (tx_dirty t) u \<noteq> None"

lemma in_dirty_get: "in_dirty t u \<Longrightarrow> tx_get t u = tx_view t u"
  by (auto simp: in_dirty_def tx_get_def tx_view_def)

lemma in_dirty_put [simp]: "in_dirty (tx_put u b t) v \<longleftrightarrow> v = u \<or> in_dirty t v"
  by (auto simp: in_dirty_def tx_put_def update_conv')

lemma in_dirty_upd [simp]: "in_dirty (t\<lparr>tx_sb := sb\<rparr>) u = in_dirty t u" "in_dirty (set_gd g gd t) u = in_dirty t u"
  "in_dirty (t\<lparr>tx_dev := d\<rparr>) u = in_dirty t u"
  by (simp_all add: in_dirty_def set_gd_def)

lemma tx_block_dirty:
  assumes "tx_block blk t = (r, t')"
  shows "in_dirty t u \<Longrightarrow> in_dirty t' u" "r = Inr x \<Longrightarrow> in_dirty t' blk"
proof -
  have a: "in_dirty t' u = (in_dirty t u \<or> in_dirty t blk \<and> u = blk \<or> (\<exists>x. r = Inr x) \<and> u = blk)" for u
    using assms by (cases "map_of (tx_dirty t) blk")
      (auto simp: tx_block_def tx_bind_def tx_read_def in_dirty_def tx_put_def update_conv' split: prod.splits sum.splits)
  show "in_dirty t u \<Longrightarrow> in_dirty t' u" "r = Inr x \<Longrightarrow> in_dirty t' blk"
    using a by auto
qed

lemma free_data_block_dirty:
  assumes "free_data_block blk t = (r, t')"
  shows "in_dirty t u \<Longrightarrow> in_dirty t' u"
  using assms unfolding free_data_block_def Let_def
  by (auto split: prod.splits sum.splits if_splits bool.splits dest: tx_block_dirty(1))

lemma clear_slot_dirty: "clear_slot b p t = (r, t') \<Longrightarrow> in_dirty t u \<Longrightarrow> in_dirty t' u"
proof (induction p arbitrary: b t r t')
  case (Cons s p)
  obtain r1 t1 where t1: "tx_block (unat b) t = (r1, t1)" by (cases "tx_block (unat b) t")
  note d1 = tx_block_dirty(1)[OF t1 Cons.prems(2)]
  show ?case
  proof (cases r1)
    case (Inr x)
    define child where "child = read_u32 (tx_get t1 (unat b)) (s * 4)"
    define m where "m = (if child = 0 then (Inr (False, 0), t1) else if p \<noteq> [] then clear_slot child p t1
      else case free_data_block child t1 of (Inl e, t) \<Rightarrow> (Inl e, t) | (Inr _, t) \<Rightarrow> (Inr (True, 1), t))"
    obtain r2 t2 where m2: "m = (r2, t2)" by (cases m)
    have "in_dirty t2 u"
      using m2 d1 Cons.IH[of child t1] free_data_block_dirty[of child t1]
      by (auto simp: m_def split: if_splits prod.splits sum.splits)
    moreover have "t' = t2 \<or> (\<exists>x. t' = tx_put (unat b) x t2)"
      using Cons.prems(1) t1 Inr m2 unfolding m_def child_def
      by (auto simp: Let_def split: sum.splits prod.splits) blast+
    ultimately show ?thesis by auto
  qed (use Cons.prems t1 d1 in auto)
qed simp

lemma clear_leaf:
  assumes c: "clear_slot b [s] t = (Inr (e, n), t')" and ok: "alloc_ok t" and s: "s < 1024" and b: "unat b \<notin> bitmaps t"
    and lf: "ptr (tx_view t (unat b)) s \<noteq> 0" "unat (ptr (tx_view t (unat b)) s) \<notin> bitmaps t"
  shows "n = 1 \<and> layout t' = layout t \<and> alloc_ok t' \<and> in_use t' = in_use t - {unat (ptr (tx_view t (unat b)) s)}
    \<and> tx_view t' (unat b) = write_u32 (tx_view t (unat b)) (s * 4) 0
    \<and> (\<forall>u. u \<notin> bitmaps t \<and> u \<noteq> unat b \<longrightarrow> tx_view t' u = tx_view t u)
    \<and> (e \<longleftrightarrow> (\<forall>k < 1024. k \<noteq> s \<longrightarrow> ptr (tx_view t (unat b)) k = 0))"
proof -
  let ?leaf = "ptr (tx_view t (unat b)) s"
  obtain t1 where t1: "tx_block (unat b) t = (Inr (), t1)"
    using c by (auto split: prod.splits sum.splits)
  note s1 = tx_block_ok[OF t1 unat_u32_blocks]
  have v1: "tx_view t1 = tx_view t" and ly1: "layout t1 = layout t"
    using s1(1) same_layout by (auto simp: tx_same_def)
  have ok1: "alloc_ok t1" and bm1: "bitmaps t1 = bitmaps t" and iu1: "in_use t1 = in_use t"
    using alloc_ok_cong[OF ly1 v1] ok layout_gds(3)[OF ly1] in_use_cong[OF ly1] v1 by simp_all
  obtain t2 where t2: "free_data_block ?leaf t1 = (Inr (), t2)"
    using c t1 s1(2) lf by (auto simp: ptr_def Let_def split: prod.splits sum.splits if_splits)
  have fr: "freed t1 ?leaf t2"
    using free_data_block_ok[OF t2 ok1 lf(1)] lf(2) bm1 by simp
  have vb: "tx_view t2 (unat b) = tx_view t (unat b)" and len: "length (tx_view t (unat b)) = BS"
    using fr b bm1 v1 alloc_ok_sel(1)[OF ok] by (auto simp: freed_def)
  have "in_dirty t2 (unat b)"
    using free_data_block_dirty[OF t2] tx_block_dirty(2)[OF t1] by blast
  then have g: "tx_get t2 (unat b) = tx_view t (unat b)"
    using in_dirty_get vb by simp
  define w where "w = write_u32 (tx_view t (unat b)) (s * 4) 0"
  have lw: "length w = BS"
    using len s by (simp add: w_def write_u32_def buf_simps BS_def)
  have r: "n = 1" "t' = tx_put (unat b) w t2" "e = all_zero w"
    using c t1 s1(2) lf t2 g by (simp_all add: ptr_def Let_def w_def)
  have b2: "unat b \<notin> bitmaps t2" and ok2: "alloc_ok t2" and ly2: "layout t2 = layout t"
    using fr ly1 bm1 b layout_gds(3)[of t2 t1] by (simp_all add: freed_def)
  have e: "e \<longleftrightarrow> (\<forall>k < 1024. k \<noteq> s \<longrightarrow> ptr (tx_view t (unat b)) k = 0)"
    unfolding r(3) all_zero_ptr[OF lw] by (auto simp: w_def ptr_write[OF len s])
  have o: "tx_view t' u = tx_view t u" if "u \<notin> bitmaps t" "u \<noteq> unat b" for u
    using that fr bm1 v1 by (simp add: r(2) freed_def)
  show ?thesis
    using alloc_ok_put[OF ok2 b2 lw] fr r(1,2) ly2 iu1 e o by (simp add: freed_def w_def)
qed

end
