(* ===== verification/Ext2Typed.thy ===== *)
theory Ext2Typed
  imports Ext2Free Ext2Nodes JournalCodec
begin

section \<open>Type safety of the file system\<close>

text \<open>
  Blocks are lists of bytes in the model; in the code they are arrays of 4096 bytes, and the
  fields of the on-disk structures have fixed widths.  This theory shows that every operation of
  the file system keeps them so, on every path and whatever the device answers, and that none
  moves the metadata: a judgement \<open>keeps_inv I Q m\<close> says that \<open>m\<close> keeps the invariant \<open>I\<close> and
  that its result, if there is one, satisfies \<open>Q\<close>; the rules for the combinators of the three
  monads and for each routine are collected, and an operation is typed by \<open>intro\<close>.
\<close>

named_theorems typed_rules

definition keeps_inv :: "('s \<Rightarrow> bool) \<Rightarrow> ('a \<Rightarrow> bool) \<Rightarrow> ('s \<Rightarrow> (fs_error + 'a) \<times> 's) \<Rightarrow> bool" where
  "keeps_inv I Q m \<longleftrightarrow> (\<forall>s. I s \<longrightarrow> I (snd (m s)) \<and> (\<forall>x. fst (m s) = Inr x \<longrightarrow> Q x))"

lemma keeps_invI: "(\<And>s r s'. I s \<Longrightarrow> m s = (r, s') \<Longrightarrow> I s' \<and> (\<forall>x. r = Inr x \<longrightarrow> Q x)) \<Longrightarrow> keeps_inv I Q m"
  unfolding keeps_inv_def by (metis prod.collapse)

lemma keeps_invD: "keeps_inv I Q m \<Longrightarrow> m s = (r, s') \<Longrightarrow> I s \<Longrightarrow> I s' \<and> (\<forall>x. r = Inr x \<longrightarrow> Q x)"
  unfolding keeps_inv_def by (metis fst_conv snd_conv)

lemma keeps_inv_weaken: "keeps_inv I Q m \<Longrightarrow> (\<And>x. Q x \<Longrightarrow> Q' x) \<Longrightarrow> keeps_inv I Q' m"
  unfolding keeps_inv_def by blast

lemma keeps_inv_return [typed_rules]:
  "Q x \<Longrightarrow> keeps_inv I Q (io_return x)" "Q x \<Longrightarrow> keeps_inv I' Q (tx_return x)" "Q x \<Longrightarrow> keeps_inv I'' Q (\<lambda>s. (Inr x, s))"
  by (simp_all add: keeps_inv_def io_return_def tx_return_def)

lemma keeps_inv_throw [typed_rules]:
  "keeps_inv I Q (io_throw e)" "keeps_inv I' Q (tx_throw e)" "keeps_inv I'' Q (\<lambda>s. (Inl e, s))"
  by (simp_all add: keeps_inv_def io_throw_def tx_throw_def)

lemma keeps_inv_bind:
  "keeps_inv I P m \<Longrightarrow> (\<And>x. P x \<Longrightarrow> keeps_inv I Q (f x)) \<Longrightarrow> keeps_inv I Q (io_bind m f)"
  "keeps_inv I' P m' \<Longrightarrow> (\<And>x. P x \<Longrightarrow> keeps_inv I' Q (f' x)) \<Longrightarrow> keeps_inv I' Q (tx_bind m' f')"
  "keeps_inv I'' P m'' \<Longrightarrow> (\<And>x. P x \<Longrightarrow> keeps_inv I'' Q (f'' x)) \<Longrightarrow> keeps_inv I'' Q (fs_bind m'' f'')"
  by (rule keeps_invI; force simp: io_bind_def tx_bind_def fs_bind_def dest: keeps_invD split: prod.splits sum.splits)+

lemmas keeps_inv_then [typed_rules] = keeps_inv_bind[where P = "\<lambda>_. True", simplified]

lemma keeps_inv_any: "keeps_inv I Q m \<Longrightarrow> keeps_inv I (\<lambda>_. True) m"
  by (simp add: keeps_inv_def)

lemma keeps_inv_if [typed_rules]: "(c \<Longrightarrow> keeps_inv I Q m) \<Longrightarrow> (\<not> c \<Longrightarrow> keeps_inv I Q m') \<Longrightarrow> keeps_inv I Q (if c then m else m')"
  by simp

lemma keeps_inv_option [typed_rules]:
  "(y = None \<Longrightarrow> keeps_inv I Q m) \<Longrightarrow> (\<And>x. y = Some x \<Longrightarrow> keeps_inv I Q (f x)) \<Longrightarrow> keeps_inv I Q (case y of None \<Rightarrow> m | Some x \<Rightarrow> f x)"
  by (cases y) simp_all

lemma keeps_inv_sum [typed_rules]:
  "(\<And>e. y = Inl e \<Longrightarrow> keeps_inv I Q (f e)) \<Longrightarrow> (\<And>x. y = Inr x \<Longrightarrow> keeps_inv I Q (g x)) \<Longrightarrow> keeps_inv I Q (case y of Inl e \<Rightarrow> f e | Inr x \<Rightarrow> g x)"
  by (cases y) simp_all

lemma keeps_inv_prod [typed_rules]: "(\<And>a b. y = (a, b) \<Longrightarrow> keeps_inv I Q (f a b)) \<Longrightarrow> keeps_inv I Q (case y of (a, b) \<Rightarrow> f a b)"
  by (cases y) simp

lemma keeps_inv_let [typed_rules]: "keeps_inv I Q (f y) \<Longrightarrow> keeps_inv I Q (let x = y in f x)"
  by simp

subsection \<open>The device\<close>

definition dev_typed :: "dev \<Rightarrow> bool" where
  "dev_typed d \<longleftrightarrow> (\<forall>u. length (medium d u) = BS) \<and> (\<forall>(u, b) \<in> set (cache d). length b = BS)"

lemma dev_typed_fuse [simp]: "dev_typed (d\<lparr>fuse := n\<rparr>) = dev_typed d"
  by (simp add: dev_typed_def)

lemma dev_typed_view: "dev_typed d \<Longrightarrow> length (view d u) = BS"
  using fold_upd_cases[of "cache d" "medium d" u] by (force simp: dev_typed_def view_def)

lemma typed_read_only: "read_only m \<Longrightarrow> keeps_inv dev_typed (\<lambda>_. True) m"
  by (rule keeps_invI) (auto dest: read_onlyD)

lemma typed_read_block: "keeps_inv dev_typed (\<lambda>b. length b = BS) (read_block b)"
proof (rule keeps_invI)
  fix d r d' assume d: "dev_typed d" and r: "read_block b d = (r, d')"
  have "dev_typed d'"
    using typed_read_only[OF read_only_block] r d by (blast dest: keeps_invD)
  moreover have "length x = BS" if "r = Inr x" for x
    using r that dev_typed_view[OF d]
    by (cases d rule: tick_cases) (auto simp: read_block_def dev_read_block_def split: if_splits)
  ultimately show "dev_typed d' \<and> (\<forall>x. r = Inr x \<longrightarrow> length x = BS)"
    by blast
qed

lemmas typed_read_any [typed_rules] = keeps_inv_any[OF typed_read_block]

lemma typed_write_block [typed_rules]: "length x = BS \<Longrightarrow> keeps_inv dev_typed (\<lambda>_. True) (write_block b x)"
proof (rule keeps_invI)
  fix d r d' assume "length x = BS" "dev_typed d" "write_block b x d = (r, d')"
  then show "dev_typed d' \<and> (\<forall>x. r = Inr x \<longrightarrow> True)"
    by (cases d rule: tick_cases) (auto simp: write_block_def dev_write_block_def dev_typed_def split: if_splits)
qed

lemma typed_flush [typed_rules]: "keeps_inv dev_typed (\<lambda>_. True) flush"
proof (rule keeps_invI)
  fix d r d' assume d: "dev_typed d" and f: "flush d = (r, d')"
  then show "dev_typed d' \<and> (\<forall>x. r = Inr x \<longrightarrow> True)"
    using dev_typed_view[OF d]
    by (cases d rule: tick_cases) (auto simp: flush_def dev_flush_def dev_typed_def)
qed

lemma typed_write_all [typed_rules]: "\<forall>(u, b) \<in> set ws. length b = BS \<Longrightarrow> keeps_inv dev_typed (\<lambda>_. True) (write_all ws)"
  by (induction ws rule: write_all.induct) (auto intro!: typed_rules)

subsection \<open>The journal\<close>

definition geometry :: "journal \<Rightarrow> nat \<times> nat \<times> nat \<times> nat" where
  "geometry j = (super_block j, log_start j, log_blocks j, fs_blocks j)"

lemma log_writes_typed:
  assumes "length t \<le> JDESC_MAX_TARGETS" "\<forall>(u, b) \<in> set t. length b = BS"
  shows "\<forall>(u, b) \<in> set (log_writes j t). length b = BS"
proof -
  have "length (snd (t ! i)) = BS" if "i < length t" for i
    using assms(2) nth_mem[OF that] by (cases "t ! i") force
  moreover have "length (desc_image q t) = BS" for q
    using assms(1) by simp
  ultimately show ?thesis
    unfolding log_writes_def by (simp add: ball_Un)
qed

lemma typed_commit_body:
  "length t \<le> JDESC_MAX_TARGETS \<Longrightarrow> \<forall>(u, b) \<in> set t. length b = BS \<Longrightarrow> keeps_inv dev_typed (\<lambda>_. True) (commit_body j t)"
  unfolding commit_body_def by (intro typed_rules log_writes_typed)

lemma typed_persist [typed_rules]: "keeps_inv dev_typed (\<lambda>_. True) (persist_super j)"
  unfolding persist_super_def by (intro typed_rules) simp

lemma reclaim_typed: "reclaim j d = (r, j', d') \<Longrightarrow> dev_typed d \<Longrightarrow> dev_typed d' \<and> geometry j' = geometry j"
proof -
  assume r: "reclaim j d = (r, j', d')" and d: "dev_typed d"
  have "keeps_inv dev_typed (\<lambda>_. True) (io_bind (persist_super k) (\<lambda>_. flush))" for k
    by (intro typed_rules)
  then show ?thesis
    using r d by (auto simp: reclaim_def geometry_def Let_def split: prod.splits dest: keeps_invD)
qed

lemma commit_typed:
  assumes c: "commit t j d = (r, j', d')" and d: "dev_typed d"
  shows "dev_typed d' \<and> geometry j' = geometry j"
proof -
  obtain r1 j1 d1 where 1: "(if wsub (log_blocks j) (log_used j) < wadd (length t) 2 then reclaim j d else (Inr (), j, d)) = (r1, j1, d1)"
    by (metis prod.exhaust)
  have d1: "dev_typed d1" "geometry j1 = geometry j"
    using 1 reclaim_typed d by (auto split: if_splits)
  have body: "dev_typed d2" if "commit_body j1 t d1 = (r2, d2)" "length t \<le> JDESC_MAX_TARGETS" "\<forall>(u, b) \<in> set t. length b = BS" for r2 d2
    using keeps_invD[OF typed_commit_body that(1)] that d1 by blast
  have pers: "dev_typed d3" if "persist_super k d2 = (r3, d3)" "dev_typed d2" for k d2 r3 d3
    using keeps_invD[OF typed_persist that] by blast
  show ?thesis
    using c 1 d d1 body unfolding commit_def Let_def
    by (auto simp: geometry_def list_ex_iff dest!: pers split: if_splits sum.splits prod.splits)
qed

lemma typed_read_all: "keeps_inv dev_typed (\<lambda>bs. \<forall>b \<in> set bs. length b = BS) (read_all us)"
proof (induction us)
  case (Cons u us)
  show ?case
    unfolding read_all.simps
    by (rule keeps_inv_bind(1)[OF typed_read_block], rule keeps_inv_bind(1)[OF Cons]) (simp add: typed_rules)
qed (simp add: typed_rules)

lemma typed_replay [typed_rules]: "\<forall>(u, b) \<in> set ws. length b = BS \<Longrightarrow> keeps_inv dev_typed (\<lambda>_. True) (replay_writes j ws)"
proof (induction ws)
  case (Cons w ws)
  obtain u b where w: "w = (u, b)" by (cases w)
  have "keeps_inv dev_typed (\<lambda>_. True) (io_bind (write_block u b) (\<lambda>_. replay_writes j ws))"
    using Cons by (auto simp: w intro!: typed_rules)
  then show ?case
    by (simp add: w keeps_inv_def)
qed (simp add: typed_rules)

lemma typed_read_log: "keeps_inv dev_typed (\<lambda>b. length b = BS) (read_log j u)"
  unfolding read_log_def by (rule typed_read_block)

lemma scan_typed: "scan_loop j n sc d = (r, d') \<Longrightarrow> dev_typed d \<Longrightarrow> dev_typed d'"
proof (induction n arbitrary: sc d r d' rule: less_induct)
  case (less n)
  note sc = less.prems(1)[unfolded scan_loop.simps[of j n sc d]]
  have rd: "dev_typed d2" if "read_log j u d1 = (x, d2)" "dev_typed d1" for u d1 x d2
    using keeps_invD[OF typed_read_log that] by blast
  have ra: "dev_typed d2" if "read_all us d1 = (x, d2)" "dev_typed d1" for us d1 x d2
    using keeps_invD[OF typed_read_all that] by blast
  have rp: "dev_typed d3" if "read_all us d1 = (Inr bs, d2)" "dev_typed d1" "replay_writes j (zip ts bs) d4 = (x, d3)" "dev_typed d4" for us d1 bs d2 ts d3 d4 x
  proof -
    have "\<forall>(u, b) \<in> set (zip ts bs). length b = BS"
      using keeps_invD[OF typed_read_all that(1,2)] by (auto dest: set_zip_rightD)
    then show ?thesis
      using keeps_invD[OF typed_replay that(3,4)] by blast
  qed
  show ?case
  proof (cases "n = 0")
    case False
    obtain x1 d1 where 1: "read_log j (sc_pos sc) d = (x1, d1)" by (metis prod.exhaust)
    note d1 = rd[OF 1 less.prems(2)]
    show ?thesis
    proof (cases x1)
      case (Inr buf)
      let ?c = "jd_count (load_descriptor buf)"
      obtain x2 d2 where 2: "read_all (map (\<lambda>i. log_block_addr j (wadd (wadd (sc_pos sc) 1) i)) [0..<?c]) d1 = (x2, d2)" by (metis prod.exhaust)
      note d2 = ra[OF 2 d1]
      have IH: "dev_typed d'" if "scan_loop j (n - Suc (Suc ?c)) sc' e = (r, d')" "dev_typed e" for sc' e
        using less.IH[OF _ that] False by simp
      show ?thesis
      proof (cases x2)
        case bs: (Inr bs)
        let ?p = "wadd (wadd (sc_pos sc) 1) ?c"
        obtain x3 d3 where 3: "read_log j ?p d2 = (x3, d3)" by (metis prod.exhaust)
        note d3 = rd[OF 3 d2]
        obtain x4 d4 where 4: "replay_writes j (zip (take ?c (jd_targets (load_descriptor buf))) bs) d3 = (x4, d4)" by (metis prod.exhaust)
        note d4 = rp[OF 2[unfolded bs] d1 4 d3]
        show ?thesis
          using sc False 1 2 3 4 d1 d2 d3 d4
          by (auto simp: Inr bs Let_def split: if_splits sum.splits elim: IH)
      qed (use sc False 1 2 d1 d2 in \<open>auto simp: Inr Let_def split: if_splits elim: IH\<close>)
    qed (use sc False 1 d1 in simp)
  qed (use sc less.prems(2) in simp)
qed

subsection \<open>Buffers\<close>

lemma length_alloc_bit: "length bm = BS \<Longrightarrow> alloc_bit bm = Some (i, bm') \<Longrightarrow> length bm' = BS"
  using alloc_bit_spec(2)[of bm i bm'] by simp

lemma length_clear_bit: "length (snd (clear_bit bm i)) = length bm"
  by (simp add: clear_bit_def Let_def)

lemma length_write_u32: "off + 4 \<le> length b \<Longrightarrow> length (write_u32 b off w) = length b"
  by (simp add: write_u32_def buf_simps)

lemma chain_entry: "chain b p es q \<Longrightarrow> e \<in> set es \<Longrightarrow> entry_ok (e_pos e) e"
  by (induction es arbitrary: p) (auto simp: entry_at_def Let_def)

lemma length_split_record:
  assumes b: "length b = BS" and e: "entry_ok (e_pos e) e" and n: "min_rec_len (length name) \<le> unat (e_rec_len e) - entry_ideal e"
  shows "length (split_record b e name ino) = BS"
proof -
  have m: "8 + length name \<le> min_rec_len (length name)"
    using align4_bounds(1)[of "8 + length name"] by (simp add: min_rec_len_def)
  have "e_pos e + entry_ideal e + 8 + length name \<le> BS" "e_pos e + 8 \<le> BS"
    using e n m unfolding entry_ok_def by linarith+
  then show ?thesis
    using b by (simp add: split_record_def Let_def buf_simps)
qed

lemma length_insert_into_block:
  assumes b: "length b = BS" and i: "insert_into_block b name ino = (r, b')"
  shows "length b' = BS"
proof -
  have loop: "length (snd (insert_loop b name ino (min_rec_len (length name)) es)) = BS" if "\<forall>e \<in> set es. entry_ok (e_pos e) e" for es
    using that by (induction es) (auto simp: Let_def b length_split_record)
  show ?thesis
  proof (cases "iter_entries b")
    case (Inr es)
    have "\<forall>e \<in> set es. entry_ok (e_pos e) e"
      using Inr chain_entry unfolding iter_entries_chain by blast
    from loop[OF this] show ?thesis
      using i b Inr by (auto simp: insert_into_block_def split: if_splits prod.splits)
  qed (use i b in \<open>auto simp: insert_into_block_def split: if_splits\<close>)
qed

lemma length_remove_from_block:
  assumes b: "length b = BS" and i: "remove_from_block b name = (r, b')"
  shows "length b' = BS"
proof -
  have loop: "length (snd (remove_loop b name pp es)) = BS" if "\<forall>e \<in> set es. entry_ok (e_pos e) e" "\<forall>p. pp = Some p \<longrightarrow> p + 8 \<le> BS" for es pp
    using that
    by (induction es arbitrary: pp) (auto simp: b unlink_record_def Let_def entry_ok_def buf_simps split: option.splits)
  show ?thesis
  proof (cases "iter_entries b")
    case (Inr es)
    have "\<forall>e \<in> set es. entry_ok (e_pos e) e"
      using Inr chain_entry unfolding iter_entries_chain by blast
    from loop[OF this, of None] show ?thesis
      using i b Inr by (auto simp: remove_from_block_def split: prod.splits)
  qed (use i b in \<open>auto simp: remove_from_block_def\<close>)
qed

lemma length_init_blocks:
  "length b = BS \<Longrightarrow> length (init_empty_block b) = BS" "length b = BS \<Longrightarrow> length (init_dot_entries b i p) = BS"
  by (simp_all add: init_empty_block_def init_dot_entries_def Let_def buf_simps BS_def min_rec_len_def align4_def)

subsection \<open>Transactions\<close>

definition tx_typed :: "ext2_super_block \<times> ext2_group_desc list \<Rightarrow> tx \<Rightarrow> bool" where
  "tx_typed L t \<longleftrightarrow> layout t = L \<and> dev_typed (tx_dev t) \<and> (\<forall>(u, b) \<in> set (tx_dirty t). length b = BS)
     \<and> distinct (map fst (tx_dirty t)) \<and> (\<forall>u \<in> set (tx_data t). u < max_blocks)
     \<and> wf_super_block (tx_sb t) \<and> (\<forall>gd \<in> set (tx_gds t). wf_group_desc gd)"

lemma tx_typed_put [intro]: "tx_typed L t \<Longrightarrow> length b = BS \<Longrightarrow> tx_typed L (tx_put u b t)"
proof -
  assume t: "tx_typed L t" and b: "length b = BS"
  have "set (AList.update u b xs) \<subseteq> insert (u, b) (set xs)" for xs
    by (induction xs) auto
  then show ?thesis
    using t b by (force simp: tx_typed_def tx_put_def layout_def distinct_update)
qed

lemma tx_typed_get: "tx_typed L t \<Longrightarrow> in_dirty t u \<Longrightarrow> length (tx_get t u) = BS"
  by (auto simp: tx_typed_def tx_get_def in_dirty_def dest: map_of_SomeD split: option.splits)

lemma tx_typed_upd [intro]:
  "tx_typed L t \<Longrightarrow> dev_typed d \<Longrightarrow> tx_typed L (t\<lparr>tx_dev := d\<rparr>)"
  "tx_typed L t \<Longrightarrow> u < max_blocks \<Longrightarrow> tx_typed L (t\<lparr>tx_data := List.insert u (tx_data t)\<rparr>)"
  "tx_typed L t \<Longrightarrow> tx_typed L (t\<lparr>tx_sb := (tx_sb t)\<lparr>s_free_blocks_count := n\<rparr>\<rparr>)"
  "tx_typed L t \<Longrightarrow> tx_typed L (t\<lparr>tx_sb := (tx_sb t)\<lparr>s_free_inodes_count := n\<rparr>\<rparr>)"
  by (auto simp: tx_typed_def layout_def wf_super_block_def)

lemma tx_typed_desc:
  assumes t: "tx_typed L t" and wf: "\<And>x. wf_group_desc (f x) = wf_group_desc x"
    and same: "\<And>x. (f x)\<lparr>bg_free_blocks_count := 0, bg_free_inodes_count := 0, bg_used_dirs_count := 0\<rparr>
      = x\<lparr>bg_free_blocks_count := 0, bg_free_inodes_count := 0, bg_used_dirs_count := 0\<rparr>"
  shows "tx_typed L (set_gd g (f (tx_gds t ! g)) t)"
proof (cases "g < length (tx_gds t)")
  case True
  let ?h = "\<lambda>gd :: ext2_group_desc. gd\<lparr>bg_free_blocks_count := 0, bg_free_inodes_count := 0, bg_used_dirs_count := 0\<rparr>"
  have "(map ?h (tx_gds t))[g := ?h (tx_gds t ! g)] = map ?h (tx_gds t)"
    using list_update_id[of "map ?h (tx_gds t)" g] unfolding nth_map[OF True] .
  then have "layout (set_gd g (f (tx_gds t ! g)) t) = layout t"
    by (simp add: layout_def map_update same)
  moreover have "\<forall>x \<in> set ((tx_gds t)[g := f (tx_gds t ! g)]). wf_group_desc x"
  proof
    fix x assume "x \<in> set ((tx_gds t)[g := f (tx_gds t ! g)])"
    then have "x = f (tx_gds t ! g) \<or> x \<in> set (tx_gds t)"
      using set_update_subset_insert by fastforce
    then show "wf_group_desc x"
      using t wf True unfolding tx_typed_def by auto
  qed
  ultimately show ?thesis
    using t by (simp add: tx_typed_def) (simp add: set_gd_def)
next
  case False
  then have "(tx_gds t)[g := f (tx_gds t ! g)] = tx_gds t"
    by (simp add: list_update_beyond)
  then show ?thesis
    using t by (simp add: set_gd_def)
qed

lemma tx_typed_gd [intro]:
  "tx_typed L t \<Longrightarrow> tx_typed L (set_gd g ((tx_gds t ! g)\<lparr>bg_free_blocks_count := n\<rparr>) t)"
  "tx_typed L t \<Longrightarrow> tx_typed L (set_gd g ((tx_gds t ! g)\<lparr>bg_free_inodes_count := n\<rparr>) t)"
  "tx_typed L t \<Longrightarrow> tx_typed L (set_gd g ((tx_gds t ! g)\<lparr>bg_used_dirs_count := n\<rparr>) t)"
  by (rule tx_typed_desc; simp add: wf_group_desc_def)+

subsection \<open>Routines of a transaction\<close>

lemma tx_block_typed: "tx_block u t = (r, t') \<Longrightarrow> tx_typed L t \<Longrightarrow> tx_typed L t' \<and> (r = Inr () \<longrightarrow> length (tx_get t' u) = BS) \<and> tx_gds t' = tx_gds t"
proof -
  assume b: "tx_block u t = (r, t')" and t: "tx_typed L t"
  show ?thesis
  proof (cases "map_of (tx_dirty t) u")
    case (Some x)
    then show ?thesis
      using b t tx_typed_get[OF t, of u] by (auto simp: tx_block_def in_dirty_def)
  next
    case None
    obtain x d where x: "read_block u (tx_dev t) = (x, d)" by (metis prod.exhaust)
    have "dev_typed d" "\<And>y. x = Inr y \<Longrightarrow> length y = BS"
      using keeps_invD[OF typed_read_block x] t by (auto simp: tx_typed_def)
    then show ?thesis
      using b t None x tx_typed_upd(1)[OF t]
      by (auto simp: tx_block_def tx_bind_def tx_read_def split: sum.splits intro!: tx_typed_put)
  qed
qed

text \<open>\<open>tx_keeps L\<close> is the judgement of a transaction body.\<close>

abbreviation tx_keeps :: "ext2_super_block \<times> ext2_group_desc list \<Rightarrow> ('a \<Rightarrow> bool) \<Rightarrow> 'a txm \<Rightarrow> bool" where
  "tx_keeps L \<equiv> keeps_inv (tx_typed L)"

lemma typed_tx_block [typed_rules]: "tx_keeps L (\<lambda>_. True) (tx_block u)"
  by (rule keeps_invI) (auto dest: tx_block_typed)

lemma typed_tx_io [typed_rules]: "read_only m \<Longrightarrow> tx_keeps L (\<lambda>_. True) (tx_io m)"
proof (rule keeps_invI)
  fix t r t' assume m: "read_only m" and t: "tx_typed L t" and r: "tx_io m t = (r, t')"
  obtain x d where x: "m (tx_dev t) = (x, d)" by (metis prod.exhaust)
  have "dev_typed d"
    using read_onlyD[OF m x] t by (auto simp: tx_typed_def)
  then show "tx_typed L t' \<and> (\<forall>x. r = Inr x \<longrightarrow> True)"
    using r x t by (auto simp: tx_io_def)
qed

lemma typed_tx_edit:
  assumes "\<And>b r b'. length b = BS \<Longrightarrow> f b = (r, b') \<Longrightarrow> length b' = BS"
  shows "tx_keeps L (\<lambda>_. True) (tx_edit u f)"
proof (rule keeps_invI)
  fix t r t' assume t: "tx_typed L t" and e: "tx_edit u f t = (r, t')"
  obtain x t1 where x: "tx_block u t = (x, t1)" by (metis prod.exhaust)
  obtain y b where y: "f (tx_get t1 u) = (y, b)" by (metis prod.exhaust)
  show "tx_typed L t' \<and> (\<forall>x. r = Inr x \<longrightarrow> True)"
    using e x y tx_block_typed[OF x t] assms[OF _ y] by (cases x) (auto simp: tx_edit_def)
qed

lemma typed_tx_data_block:
  assumes t: "tx_typed L t" and b: "tx_data_block u full t = (r, t')" and u: "u < max_blocks"
  shows "tx_typed L t' \<and> (r = Inr () \<longrightarrow> length (tx_get t' u) = BS)"
proof (cases "full \<and> map_of (tx_dirty t) u = None")
  case True
  then have e: "t' = (tx_put u zero_block t)\<lparr>tx_data := List.insert u (tx_data t)\<rparr>"
    using b by (auto simp: tx_data_block_def tx_bind_def tx_return_def)
  have "tx_get t' u = zero_block"
    by (simp add: e tx_get_def tx_put_def update_conv')
  moreover have "tx_typed L t'"
    unfolding e using tx_typed_upd(2)[OF tx_typed_put[OF t length_zero_block] u] by simp
  ultimately show ?thesis
    by simp
next
  case False
  obtain x t1 where x: "tx_block u t = (x, t1)" by (metis prod.exhaust)
  have e: "t' = (if x = Inr () then t1\<lparr>tx_data := List.insert u (tx_data t1)\<rparr> else t1)" "r = x"
    using b x False by (auto simp: tx_data_block_def tx_bind_def tx_block_def split: option.splits sum.splits prod.splits)
  show ?thesis
    using tx_block_typed[OF x t] u unfolding e by (auto simp: tx_get_def)
qed

lemma alloc_zeroed_groups_typed: "alloc_zeroed_groups gs t = (r, t') \<Longrightarrow> tx_typed L t \<Longrightarrow> tx_typed L t'"
proof (induction gs arbitrary: t)
  case (Cons g gs)
  let ?gd = "tx_gds t ! g"
  let ?b = "unat (bg_block_bitmap ?gd)"
  obtain x t1 where x: "tx_block ?b t = (x, t1)" by (metis prod.exhaust)
  note t1 = tx_block_typed[OF x Cons.prems(2)]
  have gd: "?gd = tx_gds t1 ! g"
    using t1 by simp
  show ?case
  proof (cases "bg_free_blocks_count ?gd = 0 \<or> x \<noteq> Inr ()")
    case False
    then have len: "length (tx_get t1 ?b) = BS"
      using t1 by simp
    show ?thesis
    proof (cases "alloc_bit (tx_get t1 ?b)")
      case None
      then show ?thesis
        using Cons.IH Cons.prems(1) x False t1 tx_typed_gd(1)[of L t1 g 0] by (auto simp: Let_def)
    next
      case (Some p)
      obtain bt bm where p: "p = (bt, bm)" by (cases p)
      have lb: "length bm = BS" "length (snd (clear_bit bm bt)) = BS"
        using length_alloc_bit[OF len] Some p length_clear_bit by simp_all
      define t2 where "t2 = tx_put ?b bm t1"
      define blk where "blk = s_first_data_block (tx_sb t2) + of_nat g * s_blocks_per_group (tx_sb t2) + bt"
      have t2: "tx_typed L t2" "tx_gds t2 = tx_gds t1"
        using t1 lb by (auto simp: t2_def)
      define t3 where "t3 = set_gd g (?gd\<lparr>bg_free_blocks_count := saturating_sub (bg_free_blocks_count ?gd) 1\<rparr>)
        (t2\<lparr>tx_sb := (tx_sb t2)\<lparr>s_free_blocks_count := saturating_sub (s_free_blocks_count (tx_sb t2)) 1\<rparr>\<rparr>)"
      have t3: "tx_typed L t3"
        unfolding t3_def gd t2(2)[symmetric] using tx_typed_gd(1)[OF tx_typed_upd(3)[OF t2(1)]] by simp
      obtain y t4 where y: "tx_block (unat blk) t3 = (y, t4)" by (metis prod.exhaust)
      have t4: "tx_typed L t4" "y = Inr () \<Longrightarrow> tx_typed L (tx_put (unat blk) (map (\<lambda>x. 0) (tx_get t4 (unat blk))) t4)"
        using tx_block_typed[OF y t3] by auto
      have t5: "tx_typed L (set_gd g (?gd\<lparr>bg_free_blocks_count := 0\<rparr>) (tx_put ?b (snd (clear_bit bm bt)) t2))"
        using tx_typed_gd(1)[OF tx_typed_put[OF t2(1) lb(2), of ?b], of g 0] gd t2(2) by simp
      show ?thesis
        using Cons.prems(1) Cons.IH[OF _ t5] x False Some p y t4 unfolding alloc_zeroed_groups.simps Let_def
        by (auto simp: t2_def[symmetric] blk_def[symmetric] t3_def[symmetric] split: if_splits sum.splits)
    qed
  qed (use Cons x t1 in \<open>cases x; auto simp: Let_def split: if_splits\<close>)
qed simp

lemma typed_alloc_zeroed_block [typed_rules]: "tx_keeps L (\<lambda>_. True) alloc_zeroed_block"
  by (rule keeps_invI) (auto simp: alloc_zeroed_block_def dest: alloc_zeroed_groups_typed)

lemma alloc_inode_groups_typed: "alloc_inode_groups gs t = (r, t') \<Longrightarrow> tx_typed L t \<Longrightarrow> tx_typed L t'"
proof (induction gs arbitrary: t)
  case (Cons g gs)
  let ?gd = "tx_gds t ! g"
  let ?b = "unat (bg_inode_bitmap ?gd)"
  obtain x t1 where x: "tx_block ?b t = (x, t1)" by (metis prod.exhaust)
  note t1 = tx_block_typed[OF x Cons.prems(2)]
  have gd: "?gd = tx_gds t1 ! g"
    using t1 by simp
  show ?case
  proof (cases "bg_free_inodes_count ?gd = 0 \<or> x \<noteq> Inr ()")
    case False
    then have len: "length (tx_get t1 ?b) = BS"
      using t1 by simp
    show ?thesis
    proof (cases "alloc_bit (tx_get t1 ?b)")
      case None
      then show ?thesis
        using Cons.IH Cons.prems(1) x False t1 tx_typed_gd(2)[of L t1 g 0] by (auto simp: Let_def)
    next
      case (Some p)
      obtain bt bm where p: "p = (bt, bm)" by (cases p)
      have lb: "length bm = BS" "length (snd (clear_bit bm bt)) = BS"
        using length_alloc_bit[OF len] Some p length_clear_bit by simp_all
      define t2 where "t2 = tx_put ?b bm t1"
      have t2: "tx_typed L t2" "tx_gds t2 = tx_gds t1"
        using t1 lb by (auto simp: t2_def)
      define t3 where "t3 = set_gd g (?gd\<lparr>bg_free_inodes_count := saturating_sub (bg_free_inodes_count ?gd) 1\<rparr>)
        (t2\<lparr>tx_sb := (tx_sb t2)\<lparr>s_free_inodes_count := saturating_sub (s_free_inodes_count (tx_sb t2)) 1\<rparr>\<rparr>)"
      have t3: "tx_typed L t3"
        unfolding t3_def gd t2(2)[symmetric] using tx_typed_gd(2)[OF tx_typed_upd(4)[OF t2(1)]] by simp
      have t5: "tx_typed L (set_gd g (?gd\<lparr>bg_free_inodes_count := 0\<rparr>) (tx_put ?b (snd (clear_bit bm bt)) t2))"
        using tx_typed_gd(2)[OF tx_typed_put[OF t2(1) lb(2), of ?b], of g 0] gd t2(2) by simp
      show ?thesis
        using Cons.prems(1) Cons.IH[OF _ t5] x False Some p t3 unfolding alloc_inode_groups.simps Let_def
        by (auto simp: t2_def[symmetric] t3_def[symmetric] split: if_splits)
    qed
  qed (use Cons x t1 in \<open>cases x; auto simp: Let_def split: if_splits\<close>)
qed simp

lemma typed_alloc_new_inode [typed_rules]: "tx_keeps L (\<lambda>_. True) alloc_new_inode"
  by (rule keeps_invI) (auto simp: alloc_new_inode_def dest: alloc_inode_groups_typed)

lemma free_data_block_typed: "free_data_block blk t = (r, t') \<Longrightarrow> tx_typed L t \<Longrightarrow> tx_typed L t'"
proof -
  assume f: "free_data_block blk t = (r, t')" and t: "tx_typed L t"
  define bpg where "bpg = max (s_blocks_per_group (tx_sb t)) 1"
  define rel where "rel = saturating_sub blk (s_first_data_block (tx_sb t))"
  define g where "g = unat (rel div bpg)"
  let ?gd = "tx_gds t ! g"
  let ?b = "unat (bg_block_bitmap ?gd)"
  obtain x t1 where x: "tx_block ?b t = (x, t1)" by (metis prod.exhaust)
  note t1 = tx_block_typed[OF x t]
  obtain was bm where c: "clear_bit (tx_get t1 ?b) (rel mod bpg) = (was, bm)" by (metis prod.exhaust)
  have t2: "tx_typed L (tx_put ?b bm t1)" if "x = Inr ()"
    using t1 that length_clear_bit[of "tx_get t1 ?b" "rel mod bpg"] by (auto simp: c)
  have t3: "tx_typed L (set_gd g (?gd\<lparr>bg_free_blocks_count := n\<rparr>) ((tx_put ?b bm t1)\<lparr>tx_sb := (tx_sb t1)\<lparr>s_free_blocks_count := m\<rparr>\<rparr>))" if "x = Inr ()" for n m
    using tx_typed_gd(1)[OF tx_typed_upd(3)[OF t2[OF that], of m], of g n] t1 by simp
  show ?thesis
    using f t x t1 c t2 t3 unfolding free_data_block_def Let_def bpg_def[symmetric] rel_def[symmetric] g_def[symmetric]
    by (cases was; cases x) (auto split: if_splits)
qed

lemma typed_free_data_block [typed_rules]: "tx_keeps L (\<lambda>_. True) (free_data_block blk)"
  by (rule keeps_invI) (auto dest: free_data_block_typed)

lemma typed_free_inode_bit [typed_rules]: "tx_keeps L (\<lambda>_. True) (free_inode_bit ino)"
proof (rule keeps_invI)
  fix t r t' assume f: "free_inode_bit ino t = (r, t')" and t: "tx_typed L t"
  define ipg where "ipg = max (s_inodes_per_group (tx_sb t)) 1"
  define g where "g = unat ((ino - 1) div ipg)"
  let ?gd = "tx_gds t ! g"
  let ?b = "unat (bg_inode_bitmap ?gd)"
  obtain x t1 where x: "tx_block ?b t = (x, t1)" by (metis prod.exhaust)
  note t1 = tx_block_typed[OF x t]
  obtain was bm where c: "clear_bit (tx_get t1 ?b) ((ino - 1) mod ipg) = (was, bm)" by (metis prod.exhaust)
  have t2: "tx_typed L (tx_put ?b bm t1)" if "x = Inr ()"
    using t1 that length_clear_bit[of "tx_get t1 ?b" "(ino - 1) mod ipg"] by (auto simp: c)
  have t3: "tx_typed L (set_gd g (?gd\<lparr>bg_free_inodes_count := n\<rparr>) ((tx_put ?b bm t1)\<lparr>tx_sb := (tx_sb t1)\<lparr>s_free_inodes_count := m\<rparr>\<rparr>))" if "x = Inr ()" for n m
    using tx_typed_gd(2)[OF tx_typed_upd(4)[OF t2[OF that], of m], of g n] t1 by simp
  have "tx_typed L t'"
    using f t x t1 c t2 t3 unfolding free_inode_bit_def Let_def ipg_def[symmetric] g_def[symmetric]
    by (cases was; cases x) (auto split: if_splits)
  then show "tx_typed L t' \<and> (\<forall>x. r = Inr x \<longrightarrow> True)"
    by simp
qed

lemma location_fits: "inode_location sb gds ino = Inr (b, off) \<Longrightarrow> off + 128 \<le> BS"
  using inode_location_bounds(1)[of sb gds ino b off] inode_size_bounds(1)[of sb] by simp

lemma wf_dec_inode: "128 \<le> length b \<Longrightarrow> wf_inode (dec_inode b)"
  by (simp add: wf_inode_def dec_inode_def buf_simps)

lemma typed_read_inode: "tx_keeps L wf_inode (tx_read_inode ino)"
proof (rule keeps_invI)
  fix t r t' assume t: "tx_typed L t" and r: "tx_read_inode ino t = (r, t')"
  show "tx_typed L t' \<and> (\<forall>x. r = Inr x \<longrightarrow> wf_inode x)"
  proof (cases "inode_location (tx_sb t) (tx_gds t) ino")
    case (Inr q)
    obtain b off where q: "q = (b, off)" by (cases q)
    obtain x t1 where x: "tx_block b t = (x, t1)" by (metis prod.exhaust)
    show ?thesis
      using r Inr q x tx_block_typed[OF x t] location_fits[OF Inr[unfolded q]]
      by (cases x) (auto simp: tx_read_inode_def intro!: wf_dec_inode)
  qed (use r t in \<open>auto simp: tx_read_inode_def\<close>)
qed

lemma typed_write_inode [typed_rules]: "wf_inode i \<Longrightarrow> tx_keeps L (\<lambda>_. True) (tx_write_inode ino i)"
proof (rule keeps_invI)
  fix t r t' assume i: "wf_inode i" and t: "tx_typed L t" and r: "tx_write_inode ino i t = (r, t')"
  show "tx_typed L t' \<and> (\<forall>x. r = Inr x \<longrightarrow> True)"
  proof (cases "inode_location (tx_sb t) (tx_gds t) ino")
    case (Inr q)
    obtain b off where q: "q = (b, off)" by (cases q)
    obtain x t1 where x: "tx_block b t = (x, t1)" by (metis prod.exhaust)
    note t1 = tx_block_typed[OF x t]
    have "tx_typed L (tx_put b (put_bytes (tx_get t1 b) off (enc_inode i)) t1)" if "x = Inr ()"
      using t1 that i location_fits[OF Inr[unfolded q]] by (intro tx_typed_put) (simp_all add: buf_simps)
    then show ?thesis
      using r Inr q x t1 by (cases x) (auto simp: tx_write_inode_def)
  qed (use r t in \<open>auto simp: tx_write_inode_def\<close>)
qed

subsection \<open>The block map\<close>

text \<open>Routines that also update an inode.\<close>

definition inode_keeps :: "ext2_super_block \<times> ext2_group_desc list \<Rightarrow> (tx \<Rightarrow> (fs_error + 'a) \<times> ext2_inode \<times> tx) \<Rightarrow> bool" where
  "inode_keeps L f \<longleftrightarrow> (\<forall>t r i' t'. f t = (r, i', t') \<longrightarrow> tx_typed L t \<longrightarrow> wf_inode i' \<and> tx_typed L t')"

lemma inode_keepsD: "inode_keeps L f \<Longrightarrow> f t = (r, i', t') \<Longrightarrow> tx_typed L t \<Longrightarrow> wf_inode i' \<and> tx_typed L t'"
  unfolding inode_keeps_def by blast

lemma inode_keeps_if: "(c \<Longrightarrow> inode_keeps L f) \<Longrightarrow> (\<not> c \<Longrightarrow> inode_keeps L g) \<Longrightarrow> inode_keeps L (if c then f else g)"
  by simp

lemma alloc_zeroed_block_typed: "alloc_zeroed_block t = (r, t') \<Longrightarrow> tx_typed L t \<Longrightarrow> tx_typed L t'"
  using keeps_invD[OF typed_alloc_zeroed_block] by blast

lemma wf_inode_upd [simp]:
  "wf_inode (i\<lparr>i_block := (i_block i)[k := p]\<rparr>) = wf_inode i" "wf_inode (i\<lparr>i_blocks := n\<rparr>) = wf_inode i"
  "wf_inode (i\<lparr>i_size := s\<rparr>) = wf_inode i" "wf_inode (i\<lparr>i_links_count := c\<rparr>) = wf_inode i"
  "wf_inode (i\<lparr>i_block := (i_block i)[k := p], i_blocks := n\<rparr>) = wf_inode i"
  by (simp_all add: wf_inode_def)

lemma typed_ensure_root: "wf_inode i \<Longrightarrow> inode_keeps L (ensure_indirect_root i w)"
  unfolding inode_keeps_def ensure_indirect_root_def
  by (auto split: if_splits prod.splits sum.splits dest: alloc_zeroed_block_typed)

lemma typed_put_ptr: "tx_typed L t \<Longrightarrow> length (tx_get t u) = BS \<Longrightarrow> k < ppb \<Longrightarrow> tx_typed L (tx_put u (write_u32 (tx_get t u) (k * 4) p) t)"
  by (rule tx_typed_put) (simp_all add: length_write_u32 ppb_value BS_def)

lemma typed_map_indirect: "wf_inode i \<Longrightarrow> k < ppb \<Longrightarrow> inode_keeps L (map_indirect i b k)"
  unfolding inode_keeps_def
proof (intro allI impI)
  fix t r i' t' assume i: "wf_inode i" and k: "k < ppb" and m: "map_indirect i b k t = (r, i', t')" and t: "tx_typed L t"
  obtain x t1 where x: "tx_block (unat b) t = (x, t1)" by (metis prod.exhaust)
  note t1 = tx_block_typed[OF x t]
  obtain y t2 where y: "alloc_zeroed_block t1 = (y, t2)" by (metis prod.exhaust)
  have t2: "tx_typed L t2"
    using alloc_zeroed_block_typed[OF y] t1 by blast
  obtain z t3 where z: "tx_block (unat b) t2 = (z, t3)" by (metis prod.exhaust)
  note t3 = tx_block_typed[OF z t2]
  show "wf_inode i' \<and> tx_typed L t'"
    using m i x t1 y t2 z t3 typed_put_ptr[OF _ _ k, of L t3 "unat b"]
    by (cases x; cases y; cases z) (auto simp: map_indirect_def Let_def split: if_splits)
qed

lemma typed_map_path: "wf_inode i \<Longrightarrow> \<forall>k \<in> set path. k < ppb \<Longrightarrow> inode_keeps L (map_path i b path)"
proof (induction path arbitrary: i b)
  case (Cons k path)
  show ?case
    unfolding inode_keeps_def
  proof (intro allI impI)
    fix t r i' t' assume m: "map_path i b (k # path) t = (r, i', t')" and t: "tx_typed L t"
    obtain x i1 t1 where x: "map_indirect i b k t = (x, i1, t1)" by (metis prod.exhaust)
    have 1: "wf_inode i1" "tx_typed L t1"
      using inode_keepsD[OF typed_map_indirect x t] Cons.prems by simp_all
    show "wf_inode i' \<and> tx_typed L t'"
      using m x 1 Cons.IH[OF 1(1)] Cons.prems(2) by (cases x) (auto dest: inode_keepsD)
  qed
qed (simp add: inode_keeps_def)

lemma typed_map_root: "wf_inode i \<Longrightarrow> \<forall>k \<in> set path. k < ppb \<Longrightarrow> inode_keeps L (map_root i w path)"
  unfolding inode_keeps_def[of L "map_root i w path"]
proof (intro allI impI)
  fix t r i' t' assume i: "wf_inode i" and p: "\<forall>k \<in> set path. k < ppb" and m: "map_root i w path t = (r, i', t')" and t: "tx_typed L t"
  obtain x i1 t1 where x: "ensure_indirect_root i w t = (x, i1, t1)" by (metis prod.exhaust)
  have 1: "wf_inode i1" "tx_typed L t1"
    using inode_keepsD[OF typed_ensure_root[OF i] x t] by simp_all
  show "wf_inode i' \<and> tx_typed L t'"
    using m x 1 inode_keepsD[OF typed_map_path[OF 1(1) p]] by (cases x) (auto simp: map_root_def)
qed

lemma path_slots: "l < ppb * ppb \<Longrightarrow> l div ppb < ppb" "l < ppb * ppb * ppb \<Longrightarrow> l div (ppb * ppb) < ppb" "l mod ppb < ppb"
  by (simp_all add: ppb_value less_mult_imp_div_less)

lemma typed_map_or_alloc: "wf_inode i \<Longrightarrow> inode_keeps L (map_or_alloc i lbn)"
proof -
  assume i: "wf_inode i"
  have 1: "inode_keeps L (map_root i 12 [k])" if "k < ppb" for k
    using typed_map_root[OF i] that by simp
  have 2: "inode_keeps L (map_root i 13 [k div ppb, k mod ppb])" if "k < ppb * ppb" for k
    using typed_map_root[OF i] path_slots that by simp
  have 3: "inode_keeps L (map_root i 14 [k div (ppb * ppb), (k div ppb) mod ppb, k mod ppb])" if "k < ppb * ppb * ppb" for k
    using typed_map_root[OF i] path_slots that by simp
  have 4: "inode_keeps L (ensure_indirect_root i lbn)" "inode_keeps L (\<lambda>t. (Inl OutOfSpace, i, t))"
    using typed_ensure_root[OF i] i by (simp_all add: inode_keeps_def)
  have "inode_keeps L (if lbn < 12 then ensure_indirect_root i lbn
      else let l = lbn - 12 in if l < ppb then map_root i 12 [l]
        else let l = l - ppb in if l < ppb * ppb then map_root i 13 [l div ppb, l mod ppb]
          else let l = l - ppb * ppb in if l < ppb * ppb * ppb
            then map_root i 14 [l div (ppb * ppb), (l div ppb) mod ppb, l mod ppb] else (\<lambda>t. (Inl OutOfSpace, i, t)))"
    unfolding Let_def by (intro inode_keeps_if 1 2 3 4)
  moreover have "map_or_alloc i lbn = (if lbn < 12 then ensure_indirect_root i lbn
      else let l = lbn - 12 in if l < ppb then map_root i 12 [l]
        else let l = l - ppb in if l < ppb * ppb then map_root i 13 [l div ppb, l mod ppb]
          else let l = l - ppb * ppb in if l < ppb * ppb * ppb
            then map_root i 14 [l div (ppb * ppb), (l div ppb) mod ppb, l mod ppb] else (\<lambda>t. (Inl OutOfSpace, i, t)))"
    by (rule ext) (simp add: map_or_alloc_def Let_def)
  ultimately show ?thesis
    by simp
qed

lemma clear_slot_typed: "clear_slot b path t = (r, t') \<Longrightarrow> \<forall>k \<in> set path. k < ppb \<Longrightarrow> tx_typed L t \<Longrightarrow> tx_typed L t'"
proof (induction path arbitrary: b t r t')
  case (Cons k path)
  obtain x t1 where x: "tx_block (unat b) t = (x, t1)" by (metis prod.exhaust)
  note t1 = tx_block_typed[OF x Cons.prems(3)]
  define child where "child = read_u32 (tx_get t1 (unat b)) (k * 4)"
  obtain y t2 where y: "(if child = 0 then (Inr (False, 0), t1)
                   else if path \<noteq> [] then clear_slot child path t1
                   else case free_data_block child t1 of
                          (Inl e, t) \<Rightarrow> (Inl e, t)
                        | (Inr _, t) \<Rightarrow> (Inr (True, 1), t)) = (y, t2)" by (rule prod.exhaust)
  have t2: "tx_typed L t2"
    using y t1 Cons.IH[of child t1] Cons.prems(2) by (auto split: if_splits prod.splits sum.splits dest: free_data_block_typed)
  have d: "in_dirty t2 (unat b)" if "x = Inr ()"
    using y tx_block_dirty(2)[OF x[unfolded that]] clear_slot_dirty free_data_block_dirty
    by (auto split: if_splits prod.splits sum.splits)
  have t3: "tx_typed L (tx_put (unat b) (write_u32 (tx_get t2 (unat b)) (k * 4) 0) t2)" if "x = Inr ()"
    using typed_put_ptr[OF t2 tx_typed_get[OF t2 d[OF that]]] Cons.prems(2) by simp
  show ?case
    using Cons.prems(1) x t1 y t2 t3 unfolding clear_slot.simps Let_def child_def[symmetric]
    by (cases x; cases y) (auto simp: child_def[symmetric] split: if_splits)
qed simp

lemma typed_clear_mapping: "wf_inode i \<Longrightarrow> inode_keeps L (clear_mapping i lbn)"
  unfolding inode_keeps_def
proof (intro allI impI)
  fix t r i' t' assume i: "wf_inode i" and m: "clear_mapping i lbn t = (r, i', t')" and t: "tx_typed L t"
  show "wf_inode i' \<and> tx_typed L t'"
  proof (cases "lbn < 12")
    case True
    then show ?thesis
      using m i t by (auto simp: clear_mapping_def split: if_splits prod.splits sum.splits dest: free_data_block_typed)
  next
    case False
    show ?thesis
    proof (cases "clear_path lbn")
      case (Some q)
      obtain w path where q: "q = (w, path)" by (cases q)
      have p: "\<forall>k \<in> set path. k < ppb"
        using Some path_slots by (auto simp: q clear_path_def Let_def split: if_splits)
      obtain x t1 where x: "clear_slot (i_block i ! w) path t = (x, t1)" by (metis prod.exhaust)
      note t1 = clear_slot_typed[OF x p t]
      obtain y t2 where y: "free_data_block (i_block i ! w) t1 = (y, t2)" by (metis prod.exhaust)
      note t2 = free_data_block_typed[OF y t1]
      show ?thesis
        using m i t x y t1 t2 False Some q unfolding clear_mapping_def Let_def
        by (cases x; cases y) (auto split: if_splits)
    qed (use m i t False in \<open>simp add: clear_mapping_def\<close>)
  qed
qed

lemma free_each_typed: "free_each f ps t = (r, t') \<Longrightarrow> (\<And>p. tx_keeps L (\<lambda>_. True) (f p)) \<Longrightarrow> tx_typed L t \<Longrightarrow> tx_typed L t'"
proof (induction ps arbitrary: t)
  case (Cons p ps)
  obtain x t1 where x: "f p t = (x, t1)" by (rule prod.exhaust)
  have "tx_typed L t1"
    using keeps_invD[OF Cons.prems(2) x Cons.prems(3)] by simp
  then show ?case
    using Cons x by (cases x) (auto split: if_splits)
qed simp

lemma typed_free_each [typed_rules]: "(\<And>p. tx_keeps L (\<lambda>_. True) (f p)) \<Longrightarrow> tx_keeps L (\<lambda>_. True) (free_each f ps)"
  by (rule keeps_invI) (auto dest: free_each_typed)

lemma typed_free_level:
  assumes f: "\<And>p. tx_keeps L (\<lambda>_. True) (f p)"
  shows "tx_keeps L (\<lambda>_. True) (\<lambda>t. if blk = 0 then (Inr (), t)
     else case tx_block (unat blk) t of
            (Inl e, t) \<Rightarrow> (Inl e, t)
          | (Inr _, t) \<Rightarrow> tx_bind (free_each f (pointers (tx_get t (unat blk)))) (\<lambda>_. free_data_block blk) t)"
proof (rule keeps_invI)
  fix t r t' assume t: "tx_typed L t" and r: "(if blk = 0 then (Inr (), t)
     else case tx_block (unat blk) t of
            (Inl e, t) \<Rightarrow> (Inl e, t)
          | (Inr _, t) \<Rightarrow> tx_bind (free_each f (pointers (tx_get t (unat blk)))) (\<lambda>_. free_data_block blk) t) = (r, t')"
  obtain x t1 where x: "tx_block (unat blk) t = (x, t1)" by (rule prod.exhaust)
  have b: "tx_keeps L (\<lambda>_. True) (tx_bind (free_each f ps) (\<lambda>_. free_data_block blk))" for ps
    by (intro typed_rules f)
  show "tx_typed L t' \<and> (\<forall>x. r = Inr x \<longrightarrow> True)"
    using r t x tx_block_typed[OF x t] keeps_invD[OF b] by (cases x) (auto split: if_splits)
qed

lemma typed_free_indirect [typed_rules]: "tx_keeps L (\<lambda>_. True) (free_indirect n blk)"
proof (induction n arbitrary: blk)
  case 0
  show ?case unfolding free_indirect.simps by (rule typed_free_level) (rule typed_rules)
next
  case (Suc n)
  show ?case unfolding free_indirect.simps by (rule typed_free_level) (rule Suc)
qed

lemma typed_free_inode_blocks [typed_rules]: "tx_keeps L (\<lambda>_. True) (free_inode_blocks i)"
  unfolding free_inode_blocks_def free_all_blocks_def by (intro typed_rules) (simp_all add: typed_rules tx_return_def[abs_def])

subsection \<open>Commit\<close>

lemma typed_put_super [typed_rules]: "tx_keeps L (\<lambda>_. True) put_super"
proof (rule keeps_invI)
  fix t r t' assume t: "tx_typed L t" and r: "put_super t = (r, t')"
  obtain x t1 where x: "tx_block 0 t = (x, t1)" by (rule prod.exhaust)
  note t1 = tx_block_typed[OF x t]
  have "length (enc_super_block (tx_sb t1)) = 136"
    using t1 by (simp add: tx_typed_def)
  then have "length (put_bytes (tx_get t1 0) SUPERBLOCK_OFFSET (enc_super_block (tx_sb t1))) = BS" if "x = Inr ()"
    using t1 that by (simp add: buf_simps SUPERBLOCK_OFFSET_def BS_def)
  then show "tx_typed L t' \<and> (\<forall>x. r = Inr x \<longrightarrow> True)"
    using r t1 x by (cases x) (auto simp: put_super_def)
qed

lemma desc_offset: "g * GD_SIZE mod BS + 32 \<le> BS"
proof -
  have "g * GD_SIZE mod BS = 32 * (g mod 128)"
    using mult_mod_right[of 32 g 128] by (simp add: GD_SIZE_def BS_def mult.commute)
  moreover have "g mod 128 < 128"
    by simp
  ultimately show ?thesis
    by (simp add: BS_def)
qed

lemma put_descs_typed: "put_descs gds t = (r, t') \<Longrightarrow> \<forall>(g, gd) \<in> set gds. wf_group_desc gd \<Longrightarrow> tx_typed L t \<Longrightarrow> tx_typed L t'"
proof (induction gds arbitrary: t)
  case (Cons p gds)
  obtain g gd where p: "p = (g, gd)" by (cases p)
  let ?b = "1 + g * GD_SIZE div BS"
  obtain x t1 where x: "tx_block ?b t = (x, t1)" by (rule prod.exhaust)
  note t1 = tx_block_typed[OF x Cons.prems(3)]
  have "length (put_bytes (tx_get t1 ?b) (g * GD_SIZE mod BS) (enc_group_desc gd)) = BS" if "x = Inr ()"
  proof -
    have "length (enc_group_desc gd) = 32"
      using Cons.prems(2) by (simp add: p)
    then show ?thesis
      using t1 that desc_offset[of g] by (simp add: buf_simps)
  qed
  then show ?case
    using Cons x t1 by (cases x) (auto simp: p Let_def)
qed simp

definition fs_typed :: "ext2_super_block \<times> ext2_group_desc list \<Rightarrow> nat \<times> nat \<times> nat \<times> nat \<Rightarrow> ext2_fs \<Rightarrow> bool" where
  "fs_typed L G fs \<longleftrightarrow> tx_typed L (tx_new fs) \<and> geometry (fs_journal fs) = G"

lemma fs_typed_dev: "fs_typed L G fs \<Longrightarrow> dev_typed d \<Longrightarrow> fs_typed L G (fs\<lparr>fs_dev := d\<rparr>)"
  by (simp add: fs_typed_def tx_typed_def tx_new_def layout_def)

lemma fs_typed_journal: "fs_typed L G fs \<Longrightarrow> geometry j = geometry (fs_journal fs) \<Longrightarrow> fs_typed L G (fs\<lparr>fs_journal := j\<rparr>)"
  by (simp add: fs_typed_def tx_typed_def tx_new_def layout_def)

lemma typed_put_all: "tx_keeps L (\<lambda>_. True) (tx_bind put_super (\<lambda>_ t. put_descs (enumerate 0 (tx_gds t)) t))"
proof (rule keeps_inv_then(2)[OF typed_put_super], rule keeps_invI)
  fix t r t' assume t: "tx_typed L t" and r: "put_descs (enumerate 0 (tx_gds t)) t = (r, t')"
  have "\<forall>(g, gd) \<in> set (enumerate 0 (tx_gds t)). wf_group_desc gd"
    using t by (auto simp: tx_typed_def in_set_enumerate_eq)
  then show "tx_typed L t' \<and> (\<forall>x. r = Inr x \<longrightarrow> True)"
    using put_descs_typed[OF r] t by simp
qed

lemma tx_commit_typed:
  assumes c: "tx_commit t fs = (r, fs')" and t: "tx_typed L t" and fs: "fs_typed L G fs"
  shows "fs_typed L G fs'"
proof -
  obtain x t1 where x: "tx_bind put_super (\<lambda>_ t. put_descs (enumerate 0 (tx_gds t)) t) t = (x, t1)" by (rule prod.exhaust)
  have t1: "tx_typed L t1"
    using keeps_invD[OF typed_put_all x t] by simp
  then have d1: "dev_typed (tx_dev t1)"
    by (simp add: tx_typed_def)
  obtain y d2 where y: "write_all (dirty_data t1) (tx_dev t1) = (y, d2)" by (rule prod.exhaust)
  have "\<forall>(u, b) \<in> set (dirty_data t1). length b = BS"
    using t1 by (auto simp: tx_typed_def dirty_data_def)
  from keeps_invD[OF typed_write_all[OF this] y d1] have d2: "dev_typed d2"
    by simp
  obtain z j d3 where z: "commit (tx_txn t1) (fs_journal fs) d2 = (z, j, d3)" by (metis prod.exhaust)
  have j: "dev_typed d3" "geometry j = geometry (fs_journal fs)"
    using commit_typed[OF z d2] by simp_all
  have "fs_typed L G \<lparr>fs_dev = d3, fs_sb = tx_sb t1, fs_gds = tx_gds t1, fs_journal = j\<rparr>"
    using t1 j fs by (simp add: fs_typed_def tx_typed_def tx_new_def layout_def)
  moreover have "fs_typed L G (fs\<lparr>fs_dev := d3, fs_journal := j\<rparr>)"
    using fs_typed_journal[OF fs_typed_dev[OF fs j(1)]] j(2) by simp
  ultimately show ?thesis
    using c x y z fs_typed_dev[OF fs d1] fs_typed_dev[OF fs d2]
    by (cases x; cases y; cases z) (auto simp: tx_commit_def)
qed

abbreviation fs_keeps :: "ext2_super_block \<times> ext2_group_desc list \<Rightarrow> nat \<times> nat \<times> nat \<times> nat \<Rightarrow> 'a fsm \<Rightarrow> bool" where
  "fs_keeps L G \<equiv> keeps_inv (fs_typed L G) (\<lambda>_. True)"

lemma typed_tx_commit: "tx_typed L t \<Longrightarrow> fs_keeps L G (tx_commit t)"
  by (rule keeps_invI) (auto dest: tx_commit_typed)

lemma typed_run_tx [typed_rules]:
  assumes "tx_keeps L (\<lambda>_. True) m"
  shows "fs_keeps L G (run_tx m)"
proof (rule keeps_invI)
  fix fs r fs' assume fs: "fs_typed L G fs" and r: "run_tx m fs = (r, fs')"
  obtain x t where x: "m (tx_new fs) = (x, t)" by (rule prod.exhaust)
  have t: "tx_typed L t"
    using keeps_invD[OF assms x] fs by (simp add: fs_typed_def)
  have "fs_keeps L G (fs_bind (tx_commit t) (\<lambda>_ fs. (Inr y, fs)))" for y :: 'a
    by (intro typed_rules typed_tx_commit[OF t] TrueI)
  moreover have "fs_typed L G (fs\<lparr>fs_dev := tx_dev t\<rparr>)"
    using fs_typed_dev[OF fs] t by (simp add: tx_typed_def)
  ultimately show "fs_typed L G fs' \<and> (\<forall>x. r = Inr x \<longrightarrow> True)"
    using r x fs by (cases x) (auto simp: run_tx_def dest: keeps_invD)
qed

lemma typed_fs_io [typed_rules]: "read_only m \<Longrightarrow> fs_keeps L G (fs_io m)"
proof (rule keeps_invI)
  fix fs r fs' assume m: "read_only m" and fs: "fs_typed L G fs" and r: "fs_io m fs = (r, fs')"
  obtain x d where x: "m (fs_dev fs) = (x, d)" by (rule prod.exhaust)
  have "dev_typed d"
    using read_onlyD[OF m x] fs by (auto simp: fs_typed_def tx_typed_def tx_new_def)
  then show "fs_typed L G fs' \<and> (\<forall>x. r = Inr x \<longrightarrow> True)"
    using r x fs_typed_dev[OF fs] by (auto simp: fs_io_def)
qed

end
