(* ===== verification/Ext2TypedOps.thy ===== *)
theory Ext2TypedOps
  imports Ext2Typed
begin

section \<open>The operations keep the types\<close>

text \<open>
  Every operation of the file system and every method of its nodes keeps \<open>fs_typed\<close>, on success
  and on every error path, and mounting establishes it.
\<close>

subsection \<open>Directories\<close>

lemma wf_new_inodes [simp]:
  "wf_inode (new_dir_inode b)" "wf_inode new_file_inode" "length (inline_words x) = 15"
  by (simp_all add: new_dir_inode_def new_file_inode_def zeroed_def wf_inode_def inline_words_def INLINE_WORDS_def)

lemma typed_find_dirent [typed_rules]: "tx_keeps L (\<lambda>_. True) (find_dirent i name ls)"
proof (induction ls)
  case (Cons l ls)
  show ?case
    unfolding find_dirent.simps by (intro typed_rules read_rules typed_tx_edit Cons TrueI) simp
qed (simp add: typed_rules)

lemma typed_insert_blocks [typed_rules]: "tx_keeps L (\<lambda>_. True) (insert_blocks i name ino ls)"
proof (induction ls)
  case (Cons l ls)
  show ?case
    unfolding insert_blocks.simps by (intro typed_rules read_rules typed_tx_edit Cons TrueI) (rule length_insert_into_block)
qed (simp add: typed_rules)

lemma typed_grow_dir [typed_rules]: "wf_inode i \<Longrightarrow> tx_keeps L (\<lambda>_. True) (grow_dir dir i name ino)"
proof (rule keeps_invI)
  fix t r t' assume i: "wf_inode i" and t: "tx_typed L t" and r: "grow_dir dir i name ino t = (r, t')"
  obtain x i1 t1 where x: "map_or_alloc i (nblocks i) t = (x, i1, t1)" by (metis prod.exhaust)
  note 1 = inode_keepsD[OF typed_map_or_alloc[OF i] x t]
  have "tx_keeps L (\<lambda>_. True) (tx_bind (tx_edit (unat blk) (\<lambda>buf. insert_into_block (init_empty_block buf) name ino)) (\<lambda>ok.
            if \<not> ok then tx_throw Corrupt else tx_write_inode dir (i1\<lparr>i_size := i_size i1 + of_nat BS\<rparr>)))" for blk
    using 1 by (intro typed_rules typed_tx_edit) (auto dest: length_insert_into_block[OF length_init_blocks(1)])
  then show "tx_typed L t' \<and> (\<forall>x. r = Inr x \<longrightarrow> True)"
    using r x 1 by (cases x) (auto simp: grow_dir_def dest: keeps_invD)
qed

lemmas typed_with_inode = keeps_inv_bind(2)[OF typed_read_inode]

lemma typed_insert_dirent [typed_rules]: "tx_keeps L (\<lambda>_. True) (insert_dirent dir name ino)"
  unfolding insert_dirent_def
  by (rule keeps_inv_if, rule typed_rules, rule typed_with_inode, intro typed_rules)

lemma typed_check_new_entry [typed_rules]: "fs_keeps L G (check_new_entry dir name)"
proof (rule keeps_invI)
  fix fs r fs' assume fs: "fs_typed L G fs" and r: "check_new_entry dir name fs = (r, fs')"
  obtain x fs1 where x: "fs_io (lookup_entry fs dir name) fs = (x, fs1)" by (rule prod.exhaust)
  have "fs_typed L G fs1"
    using keeps_invD[OF typed_fs_io[OF read_only_lookup_entry] x fs] by simp
  then show "fs_typed L G fs' \<and> (\<forall>x. r = Inr x \<longrightarrow> True)"
    using r x fs by (cases x) (auto simp: check_new_entry_def split: if_splits)
qed

subsection \<open>Creating and removing\<close>

lemma typed_add_used_dirs [typed_rules]: "tx_keeps L (\<lambda>_. True) (add_used_dirs ino f)"
  by (rule keeps_invI) (auto simp: add_used_dirs_def Let_def)

lemma typed_create_tx [typed_rules]: "tx_keeps L (\<lambda>_. True) (create_tx dir name isdir)"
proof -
  have link_up: "tx_keeps L (\<lambda>_. True) (if isdir then
         tx_bind (tx_read_inode dir) (\<lambda>pinode.
         tx_bind (tx_write_inode dir (pinode\<lparr>i_links_count := i_links_count pinode + 1\<rparr>)) (\<lambda>_.
         tx_bind (add_used_dirs ino (\<lambda>n. n + 1)) (\<lambda>_. tx_return ino)))
       else tx_return ino)" for ino
    by (rule keeps_inv_if, rule typed_with_inode, intro typed_rules) (auto intro!: typed_rules)
  have inode: "tx_keeps L wf_inode (if isdir then
          tx_bind alloc_zeroed_block (\<lambda>dblock.
          tx_bind (tx_edit (unat dblock) (\<lambda>buf. (Inr (), init_dot_entries buf ino dir))) (\<lambda>_.
            tx_return (new_dir_inode dblock)))
        else tx_return new_file_inode)" for ino
    by (intro typed_rules typed_tx_edit) (auto simp: length_init_blocks)
  show ?thesis
    unfolding create_tx_def
    by (rule keeps_inv_then(2)[OF typed_alloc_new_inode], rule keeps_inv_bind(2)[OF inode])
      (intro typed_rules link_up)
qed

lemma typed_create [typed_rules]: "fs_keeps L G (create dir name isdir)"
  unfolding create_def by (intro typed_rules)

lemma typed_symlink_inode: "tx_keeps L (\<lambda>r. \<forall>i. r = Some i \<longrightarrow> wf_inode i) (symlink_inode target p)"
proof -
  define i0 where "i0 = zeroed\<lparr>i_mode := S_IFLNK OR 0x1FF, i_size := of_nat (sp_size p), i_links_count := 1\<rparr>"
  have i0: "wf_inode i0"
    by (simp add: i0_def wf_inode_def zeroed_def)
  have blk: "tx_keeps L (\<lambda>r. \<forall>i. r = Some i \<longrightarrow> wf_inode i) (tx_bind (tx_data_block (unat blk) True) (\<lambda>_ t.
       if BS < length target then (Inr None, t)
       else (Inr (Some (i0\<lparr>i_block := (i_block i0)[0 := blk], i_blocks := SECTORS\<rparr>)),
             tx_put (unat blk) (put_bytes (tx_get t (unat blk)) 0 target) t)))" for blk
  proof (rule keeps_invI)
    fix t r t' assume t: "tx_typed L t" and r: "tx_bind (tx_data_block (unat blk) True) (\<lambda>_ t.
       if BS < length target then (Inr None, t)
       else (Inr (Some (i0\<lparr>i_block := (i_block i0)[0 := blk], i_blocks := SECTORS\<rparr>)),
             tx_put (unat blk) (put_bytes (tx_get t (unat blk)) 0 target) t)) t = (r, t')"
    obtain x t1 where x: "tx_data_block (unat blk) True t = (x, t1)" by (rule prod.exhaust)
    note t1 = typed_tx_data_block[OF t x unat_u32_blocks]
    have "tx_typed L (tx_put (unat blk) (put_bytes (tx_get t1 (unat blk)) 0 target) t1)" if "x = Inr ()" "length target \<le> BS"
      using t1 that by (intro tx_typed_put) (simp_all add: buf_simps)
    then show "tx_typed L t' \<and> (\<forall>x. r = Inr x \<longrightarrow> (\<forall>i. x = Some i \<longrightarrow> wf_inode i))"
      using r x t1 i0 by (cases x) (auto simp: tx_bind_def split: if_splits)
  qed
  have fast: "wf_inode (i0\<lparr>i_block := inline_words w\<rparr>)" for w
    using i0 by (simp add: wf_inode_def)
  show ?thesis
    unfolding symlink_inode_def Let_def i0_def[symmetric]
    by (cases "sp_layout p") (auto simp: fast intro!: typed_rules blk)
qed

lemma typed_symlink_tx: "tx_keeps L (\<lambda>_. True) (symlink_tx dir name target p)"
  unfolding symlink_tx_def
  by (rule keeps_inv_then(2)[OF typed_alloc_new_inode], rule keeps_inv_bind(2)[OF typed_symlink_inode])
    (intro typed_rules; simp)

lemma typed_create_symlink:
  assumes fs: "fs_typed L G fs" and c: "create_symlink dir name target fs = Some (r, fs')"
  shows "fs_typed L G fs'"
proof -
  obtain x fs1 where x: "check_new_entry dir name fs = (x, fs1)" by (rule prod.exhaust)
  have fs1: "fs_typed L G fs1"
    using keeps_invD[OF typed_check_new_entry x fs] by simp
  have "fs_typed L G fs'" if "x = Inr ()" "plan target = Inr p" for p
  proof -
    obtain y t where y: "symlink_tx dir name target p (tx_new fs1) = (y, t)" by (rule prod.exhaust)
    have t: "tx_typed L t"
      using keeps_invD[OF typed_symlink_tx y] fs1 by (simp add: fs_typed_def)
    have "fs_keeps L G (fs_bind (tx_commit t) (\<lambda>_ fs. (Inr ino, fs)))" for ino :: u32
      by (intro typed_rules typed_tx_commit[OF t] TrueI)
    moreover have "fs_typed L G (fs1\<lparr>fs_dev := tx_dev t\<rparr>)"
      using fs_typed_dev[OF fs1] t by (simp add: tx_typed_def)
    ultimately show ?thesis
      using c x that y fs1 by (auto simp: create_symlink_def split: sum.splits option.splits dest: keeps_invD)
  qed
  then show ?thesis
    using c x fs1 by (auto simp: create_symlink_def split: sum.splits symlink_error.splits)
qed

lemma typed_link_tx [typed_rules]: "tx_keeps L (\<lambda>_. True) (link_tx dir name ino)"
  unfolding link_tx_def by (rule typed_with_inode) (intro typed_rules; simp)

lemma typed_link [typed_rules]: "fs_keeps L G (link dir name ino)"
  unfolding link_def by (intro typed_rules)

lemma typed_release_child: "wf_inode i \<Longrightarrow> tx_keeps L wf_inode (release_child ino i)"
  unfolding release_child_def Let_def
  by (cases "unlink_action_of (i_links_count i)") (auto split: unlink_action.split intro!: typed_rules)

lemma typed_unlink_tx [typed_rules]: "tx_keeps L (\<lambda>_. True) (unlink_tx dir name)"
proof -
  have release: "tx_keeps L (\<lambda>_. True) (tx_bind (release_child ino child) (\<lambda>child.
               tx_bind (tx_write_inode ino child) (\<lambda>_.
                 if is_dir child then
                   tx_bind (add_used_dirs ino (\<lambda>n. saturating_sub n 1)) (\<lambda>_.
                     tx_write_inode dir (pinode\<lparr>i_links_count := saturating_sub (i_links_count pinode) 1\<rparr>))
                 else tx_write_inode dir pinode)))" if "wf_inode child" "wf_inode pinode" for ino child pinode
    by (rule keeps_inv_bind(2)[OF typed_release_child[OF that(1)]]) (intro typed_rules; simp add: that)
  have found: "tx_keeps L (\<lambda>_. True) (tx_bind (tx_read_inode ino) (\<lambda>child.
           tx_bind (if is_dir child then tx_io (dir_is_empty child [0..<nblocks child]) else tx_return True) (\<lambda>ok.
             if \<not> ok then tx_throw fs_error.AlreadyExists
             else
               tx_bind (tx_edit (unat b) (\<lambda>buf. remove_from_block buf name)) (\<lambda>_.
               tx_bind (release_child ino child) (\<lambda>child.
               tx_bind (tx_write_inode ino child) (\<lambda>_.
                 if is_dir child then
                   tx_bind (add_used_dirs ino (\<lambda>n. saturating_sub n 1)) (\<lambda>_.
                     tx_write_inode dir (pinode\<lparr>i_links_count := saturating_sub (i_links_count pinode) 1\<rparr>))
                 else tx_write_inode dir pinode))))))" if "wf_inode pinode" for ino b pinode
    by (rule typed_with_inode)
      (intro typed_rules read_rules typed_tx_edit release that TrueI; auto intro: length_remove_from_block)
  show ?thesis
    unfolding unlink_tx_def
    by (rule typed_with_inode, rule keeps_inv_if, rule typed_rules, rule keeps_inv_then(2), rule typed_rules)
      (intro keeps_inv_option keeps_inv_prod found keeps_inv_throw)
qed

lemma typed_unlink [typed_rules]: "fs_keeps L G (unlink dir name)"
proof -
  have "unlink dir name = (if name = [0x2E] \<or> name = [0x2E, 0x2E] then (\<lambda>fs. (Inl Corrupt, fs)) else run_tx (unlink_tx dir name))"
    by (rule ext) (simp add: unlink_def)
  then show ?thesis
    by (simp add: typed_rules)
qed

subsection \<open>File contents\<close>

lemma typed_write_blocks: "wf_inode i \<Longrightarrow> inode_keeps L (write_blocks k i pos data)"
proof (induction k arbitrary: i pos data)
  case (Suc k)
  show ?case
    unfolding inode_keeps_def
  proof (intro allI impI)
    fix t r i' t' assume w: "write_blocks (Suc k) i pos data t = (r, i', t')" and t: "tx_typed L t"
    define c where "c = min (BS - pos mod BS) (length data)"
    define full where "full = (pos mod BS = 0 \<and> c = BS)"
    obtain x i1 t1 where x: "map_or_alloc i (pos div BS) t = (x, i1, t1)" by (metis prod.exhaust)
    have 1: "wf_inode i1" "tx_typed L t1"
      using inode_keepsD[OF typed_map_or_alloc[OF Suc.prems] x t] by simp_all
    show "wf_inode i' \<and> tx_typed L t'"
    proof (cases "data = [] \<or> (\<exists>e. x = Inl e)")
      case True
      then show ?thesis
        using w Suc.prems t x 1 by (auto simp: Let_def split: if_splits)
    next
      case False
      then obtain b where b: "x = Inr b" by (cases x) auto
      obtain y t2 where y: "tx_data_block (unat b) full t1 = (y, t2)" by (rule prod.exhaust)
      note t2 = typed_tx_data_block[OF 1(2) y unat_u32_blocks]
      have "pos mod BS + c \<le> BS"
        by (simp add: c_def BS_def)
      then have "tx_typed L (tx_put (unat b) (put_bytes (tx_get t2 (unat b)) (pos mod BS) (take c data)) t2)" if "y = Inr ()"
        using t2 that by (intro tx_typed_put) (auto simp: buf_simps)
      then show ?thesis
        using w False x b y t2 1 inode_keepsD[OF Suc.IH[OF 1(1)]] unfolding write_blocks.simps Let_def c_def[symmetric] full_def[symmetric]
        by (cases y) auto
    qed
  qed
qed (simp add: inode_keeps_def)

lemma typed_write_tx [typed_rules]: "tx_keeps L (\<lambda>_. True) (write_tx ino pos data)"
  unfolding write_tx_def
proof (rule typed_with_inode, rule keeps_invI)
  fix i t r t'
  assume i: "wf_inode i" and t: "tx_typed L t"
    and w: "(if \<not> is_reg i then (Inl Corrupt, t)
       else case write_blocks TX_DATA_BLOCKS i pos data t of
              (Inl e, inode, t) \<Rightarrow> (Inl e, t)
            | (Inr (pos, rest), inode, t) \<Rightarrow>
                let inode = (if unat (i_size inode) < pos then inode\<lparr>i_size := of_nat pos\<rparr> else inode)
                in tx_bind (tx_write_inode ino inode) (\<lambda>_. tx_return (pos, rest)) t) = (r, t')"
  obtain x i1 t1 where x: "write_blocks TX_DATA_BLOCKS i pos data t = (x, i1, t1)" by (metis prod.exhaust)
  have 1: "wf_inode i1" "tx_typed L t1"
    using inode_keepsD[OF typed_write_blocks[OF i] x t] by simp_all
  have "tx_keeps L (\<lambda>_. True) (tx_bind (tx_write_inode ino (if unat (i_size i1) < q then i1\<lparr>i_size := of_nat q\<rparr> else i1)) (\<lambda>_. tx_return (q, rest)))" for q and rest :: bytes
    using 1 by (intro typed_rules) simp_all
  then show "tx_typed L t' \<and> (\<forall>x. r = Inr x \<longrightarrow> True)"
    using w x 1 t by (cases x) (auto simp: Let_def split: if_splits dest: keeps_invD)
qed

lemma write_loop_typed: "write_loop ino pos data fs = (r, fs') \<Longrightarrow> fs_typed L G fs \<Longrightarrow> fs_typed L G fs'"
proof (induction ino pos data fs arbitrary: r fs' rule: write_loop.induct)
  case (1 ino pos data fs)
  show ?case
  proof (cases "data = []")
    case False
    obtain x fs1 where x: "run_tx (write_tx ino pos data) fs = (x, fs1)" by (rule prod.exhaust)
    have fs1: "fs_typed L G fs1"
      using keeps_invD[OF typed_run_tx[OF typed_write_tx] x "1.prems"(2)] by simp
    show ?thesis
    proof (cases x)
      case (Inr y)
      then show ?thesis
        using "1.IH"[OF False x[symmetric] Inr, of "fst y" "snd y" r fs'] "1.prems"(1) x fs1 False
        by (simp add: write_loop.simps[of ino pos data] split: prod.splits)
    qed (use "1.prems"(1) x fs1 False in \<open>simp add: write_loop.simps[of ino pos data]\<close>)
  qed (use 1 in \<open>simp add: write_loop.simps\<close>)
qed

lemma typed_write_loop [typed_rules]: "fs_keeps L G (write_loop ino pos data)"
  by (rule keeps_invI) (auto dest: write_loop_typed)

lemma typed_write_file [typed_rules]: "fs_keeps L G (write_file ino off data)"
  unfolding write_file_def by (intro typed_rules TrueI)

lemma grow_loop_typed: "grow_loop ino off n fs = (r, fs') \<Longrightarrow> fs_typed L G fs \<Longrightarrow> fs_typed L G fs'"
proof (induction ino off n fs arbitrary: r fs' rule: grow_loop.induct)
  case (1 ino off n fs)
  show ?case
  proof (cases "n \<le> off")
    case False
    define k where "k = min ZERO_CHUNK (n - off)"
    obtain x fs1 where x: "write_file ino off (replicate k 0) fs = (x, fs1)" by (rule prod.exhaust)
    have fs1: "fs_typed L G fs1"
      using keeps_invD[OF typed_write_file x "1.prems"(2)] by simp
    show ?thesis
    proof (cases x)
      case (Inr y)
      then show ?thesis
        using "1.IH"[OF False k_def x[symmetric] Inr, of r fs'] "1.prems"(1) x fs1 False
        by (simp add: grow_loop.simps[of ino off n] Let_def k_def[symmetric])
    qed (use "1.prems"(1) x fs1 False in \<open>simp add: grow_loop.simps[of ino off n] Let_def k_def[symmetric]\<close>)
  qed (use 1 in \<open>simp add: grow_loop.simps\<close>)
qed

lemma typed_clear_blocks: "wf_inode i \<Longrightarrow> inode_keeps L (clear_blocks i n ls)"
proof (induction ls arbitrary: i n)
  case (Cons l ls)
  show ?case
    unfolding inode_keeps_def
  proof (intro allI impI)
    fix t r i' t' assume w: "clear_blocks i n (l # ls) t = (r, i', t')" and t: "tx_typed L t"
    obtain x i1 t1 where x: "clear_mapping i l t = (x, i1, t1)" by (metis prod.exhaust)
    have 1: "wf_inode i1" "tx_typed L t1"
      using inode_keepsD[OF typed_clear_mapping[OF Cons.prems] x t] by simp_all
    show "wf_inode i' \<and> tx_typed L t'"
      using w x 1 inode_keepsD[OF Cons.IH[OF 1(1)]] by (cases x) auto
  qed
qed (simp add: inode_keeps_def)

lemma typed_zero_tail [typed_rules]: "tx_keeps L (\<lambda>_. True) (zero_tail i n)"
proof -
  have tail: "tx_keeps L (\<lambda>_. True) (tx_bind (tx_data_block (unat b) False) (\<lambda>_ t.
      (Inr (), tx_put (unat b) (take k (tx_get t (unat b)) @ map (\<lambda>x. 0) (drop k (tx_get t (unat b)))) t)))" for b :: u32 and k
  proof (rule keeps_invI)
    fix t r t' assume t: "tx_typed L t" and r: "tx_bind (tx_data_block (unat b) False) (\<lambda>_ t.
      (Inr (), tx_put (unat b) (take k (tx_get t (unat b)) @ map (\<lambda>x. 0) (drop k (tx_get t (unat b)))) t)) t = (r, t')"
    obtain x t1 where x: "tx_data_block (unat b) False t = (x, t1)" by (rule prod.exhaust)
    show "tx_typed L t' \<and> (\<forall>x. r = Inr x \<longrightarrow> True)"
      using r x typed_tx_data_block[OF t x unat_u32_blocks] by (cases x) (auto simp: tx_bind_def intro!: tx_typed_put)
  qed
  show ?thesis
    unfolding zero_tail_def Let_def
    by (rule keeps_inv_if, rule keeps_inv_then(2), intro typed_rules read_rules, rule keeps_inv_option)
      (auto intro: tail typed_rules)
qed

lemma typed_shrink_tx [typed_rules]: "tx_keeps L (\<lambda>_. True) (shrink_tx ino old_size new_size)"
  unfolding shrink_tx_def
proof (rule typed_with_inode, rule keeps_invI)
  fix i t r t'
  let ?ls = "[(new_size + BS - 1) div BS..<(old_size + BS - 1) div BS]"
  assume i: "wf_inode i" and t: "tx_typed L t"
    and w: "(if \<not> is_reg i then (Inl Corrupt, t)
       else case clear_blocks i 0 ?ls t of
              (Inl e, inode, t) \<Rightarrow> (Inl e, t)
            | (Inr n0, inode, t) \<Rightarrow>
                tx_bind (zero_tail inode new_size) (\<lambda>_.
                  tx_write_inode ino (inode\<lparr>i_size := of_nat new_size,
                    i_blocks := saturating_sub (i_blocks inode) (n0 * SECTORS)\<rparr>)) t) = (r, t')"
  obtain x i1 t1 where x: "clear_blocks i 0 ?ls t = (x, i1, t1)" by (metis prod.exhaust)
  have 1: "wf_inode i1" "tx_typed L t1"
    using inode_keepsD[OF typed_clear_blocks[OF i] x t] by simp_all
  have "tx_keeps L (\<lambda>_. True) (tx_bind (zero_tail i1 new_size) (\<lambda>_. tx_write_inode ino (i1\<lparr>i_size := s, i_blocks := n\<rparr>)))" for s n
    using 1 by (intro typed_rules) simp
  then show "tx_typed L t' \<and> (\<forall>x. r = Inr x \<longrightarrow> True)"
    using w x 1 t by (cases x) (auto split: if_splits dest: keeps_invD)
qed

lemma typed_truncate_file [typed_rules]: "fs_keeps L G (truncate_file ino n)"
proof (rule keeps_invI)
  fix fs r fs' assume fs: "fs_typed L G fs" and w: "truncate_file ino n fs = (r, fs')"
  obtain x fs1 where x: "fs_io (fs_read_inode fs ino) fs = (x, fs1)" by (rule prod.exhaust)
  have fs1: "fs_typed L G fs1"
    using keeps_invD[OF typed_fs_io[OF read_only_fs_read_inode] x fs] by simp
  have "fs_typed L G fs2" if "run_tx (shrink_tx ino a b) fs1 = (y, fs2)" for a b y fs2
    using keeps_invD[OF typed_run_tx[OF typed_shrink_tx] that fs1] by simp
  then show "fs_typed L G fs' \<and> (\<forall>x. r = Inr x \<longrightarrow> True)"
    using w x fs fs1 grow_loop_typed[OF _ fs1]
    by (cases x) (auto simp: truncate_file_def fs_bind_def Let_def split: if_splits)
qed

lemma typed_set_inode [typed_rules]: "fs_keeps L G (set_inode_mode ino mode)" "fs_keeps L G (set_inode_owner ino uid gid)"
  unfolding set_inode_mode_def set_inode_owner_def
  by (rule typed_run_tx, rule typed_with_inode, rule typed_rules, simp add: wf_inode_def)+

subsection \<open>Mounting\<close>

lemma typed_journal_open [typed_rules]: "keeps_inv dev_typed (\<lambda>_. True) (journal_open area)"
proof -
  have "keeps_inv dev_typed (\<lambda>_. True) (\<lambda>d. case load_journal_super buf of
         Inl e \<Rightarrow> (Inl e, d)
       | Inr js \<Rightarrow> if js_magic js \<noteq> JNL_MAGIC then (Inl BadJournal, d)
           else if js_log_blocks js = 0 then (Inl BadJournal, d) else (Inr (f js), d))" for buf and f :: "journal_super \<Rightarrow> journal"
    by (auto simp: keeps_inv_def split: sum.split)
  then show ?thesis
    unfolding journal_open_def by (intro typed_rules)
qed

lemma recover_typed: "recover j d = (r, j', d') \<Longrightarrow> dev_typed d \<Longrightarrow> dev_typed d'"
proof -
  assume r: "recover j d = (r, j', d')" and d: "dev_typed d"
  obtain x d1 where x: "scan_loop j (log_blocks j)
      \<lparr>sc_pos = tail j, sc_replayed = 0, sc_expected = next_seq j, sc_last = None\<rparr> d = (x, d1)" by (rule prod.exhaust)
  note d1 = scan_typed[OF x d]
  have f: "dev_typed d2" if "flush d1 = (y, d2)" for y d2
    using keeps_invD[OF typed_flush that d1] by simp
  have p: "dev_typed d3" if "persist_super k d2 = (y, d3)" "dev_typed d2" for k y d2 d3
    using keeps_invD[OF typed_persist that] by simp
  show ?thesis
    using r x d1 by (cases x) (auto simp: recover_def Let_def split: option.splits prod.splits sum.splits dest!: p f)
qed

lemma typed_mount_journal [typed_rules]: "keeps_inv dev_typed (\<lambda>_. True) (mount_journal area)"
proof (rule keeps_invI)
  fix d r d' assume d: "dev_typed d" and r: "mount_journal area d = (r, d')"
  obtain x d1 where x: "journal_open area d = (x, d1)" by (rule prod.exhaust)
  have "dev_typed d1"
    using keeps_invD[OF typed_journal_open x d] by simp
  then show "dev_typed d' \<and> (\<forall>x. r = Inr x \<longrightarrow> True)"
    using r x by (auto simp: mount_journal_def split: sum.splits prod.splits dest: recover_typed)
qed

lemma wf_dec: "136 \<le> length b \<Longrightarrow> wf_super_block (dec_super_block b)" "32 \<le> length b \<Longrightarrow> wf_group_desc (dec_group_desc b)"
  by (simp_all add: wf_super_block_def dec_super_block_def wf_group_desc_def dec_group_desc_def buf_simps)

lemma typed_read_descs: "length buf = BS \<Longrightarrow> keeps_inv dev_typed (\<lambda>gds. \<forall>gd \<in> set gds. wf_group_desc gd) (read_descs gs c buf)"
proof (induction gs arbitrary: c buf)
  case (Cons g gs)
  have rd: "keeps_inv dev_typed (\<lambda>b. length b = BS) (if c \<noteq> Some b then read_block b else io_return buf)" for b
    using Cons.prems typed_read_block by (intro typed_rules) simp_all
  show ?case
    unfolding read_descs.simps Let_def
    by (rule keeps_inv_bind(1)[OF rd], rule keeps_inv_bind(1)[OF Cons.IH], assumption, rule typed_rules)
      (use desc_offset[of g] in \<open>auto intro!: wf_dec\<close>)
qed (simp add: typed_rules)

definition meta_typed :: "ext2_super_block \<times> ext2_group_desc list \<Rightarrow> bool" where
  "meta_typed m \<longleftrightarrow> wf_super_block (fst m) \<and> (\<forall>gd \<in> set (snd m). wf_group_desc gd)"

lemma typed_read_sb_gds: "keeps_inv dev_typed meta_typed read_sb_gds"
  unfolding read_sb_gds_def Let_def
  by (rule keeps_inv_bind(1)[OF typed_read_block], rule keeps_inv_if, rule typed_rules,
      rule keeps_inv_bind(1)[OF typed_read_descs], simp, rule typed_rules)
    (auto simp: meta_typed_def SUPERBLOCK_OFFSET_def BS_def intro!: wf_dec)

lemma wf_repair: "wf_group_desc gd \<Longrightarrow> repair_desc gd fb fi = (c, gd') \<Longrightarrow> wf_group_desc gd'"
  by (auto simp: repair_desc_def wf_group_desc_def split: if_splits)

lemma typed_reconcile_groups:
  "\<forall>(g, gd) \<in> set gds. wf_group_desc gd \<Longrightarrow> keeps_inv dev_typed (\<lambda>(gds, _). \<forall>gd \<in> set gds. wf_group_desc gd) (reconcile_groups sb gds)"
proof (induction gds)
  case (Cons p gds)
  obtain g gd where p: "p = (g, gd)" by (cases p)
  have fc: "keeps_inv dev_typed (\<lambda>_. True) (free_counts sb g gd)"
    unfolding free_counts_def Let_def by (intro typed_rules TrueI)
  show ?case
    unfolding p reconcile_groups.simps
    by (rule keeps_inv_then(1)[OF fc], rule keeps_inv_prod, rule keeps_inv_bind(1)[OF Cons.IH])
      (use Cons.prems p in \<open>auto intro!: typed_rules dest: wf_repair\<close>)
qed (simp add: typed_rules)

lemma length_desc_block:
  assumes "length b = BS" "\<forall>gd \<in> set gds. wf_group_desc gd"
  shows "length (desc_block gds tb b) = BS"
proof -
  have "length (fold (\<lambda>(g, gd) b. put_bytes b (g * GD_SIZE mod BS) (enc_group_desc gd)) xs b) = BS"
    if "\<forall>(g, gd) \<in> set xs. wf_group_desc gd" "length b = BS" for xs b
    using that
  proof (induction xs arbitrary: b)
    case (Cons p xs)
    obtain g gd where p: "p = (g, gd)" by (cases p)
    then show ?case
      using Cons desc_offset[of g] by (simp add: buf_simps)
  qed simp
  then show ?thesis
    using assms by (auto simp: desc_block_def in_set_enumerate_eq)
qed

lemma typed_write_desc_blocks: "\<forall>gd \<in> set gds. wf_group_desc gd \<Longrightarrow> keeps_inv dev_typed (\<lambda>_. True) (write_desc_blocks gds tbs)"
proof (induction tbs)
  case (Cons tb tbs)
  show ?case
    unfolding write_desc_blocks.simps
    by (rule keeps_inv_bind(1)[OF typed_read_block]) (intro typed_rules length_desc_block Cons; simp add: Cons.prems)
qed (simp add: typed_rules)

lemma typed_reconcile: "meta_typed (sb, gds) \<Longrightarrow> keeps_inv dev_typed meta_typed (reconcile_free_counts sb gds)"
proof -
  assume m: "meta_typed (sb, gds)"
  then have w: "\<forall>(g, gd) \<in> set (enumerate 0 gds). wf_group_desc gd"
    by (auto simp: meta_typed_def in_set_enumerate_eq)
  have store: "keeps_inv dev_typed meta_typed (io_bind (read_block 0) (\<lambda>b0.
      io_bind (write_block 0 (put_bytes b0 SUPERBLOCK_OFFSET (enc_super_block sb'))) (\<lambda>_.
      io_bind (write_desc_blocks gds' tbs) (\<lambda>_. io_return (sb', gds')))))" if "meta_typed (sb', gds')" for sb' gds' tbs
    using that
    by (intro keeps_inv_bind(1)[OF typed_read_block] typed_rules typed_write_desc_blocks)
      (auto simp: meta_typed_def buf_simps SUPERBLOCK_OFFSET_def BS_def)
  have wf: "wf_super_block (sb\<lparr>s_free_blocks_count := a, s_free_inodes_count := b\<rparr>)" "wf_super_block sb" for a b
    using m by (simp_all add: meta_typed_def wf_super_block_def)
  show ?thesis
    unfolding reconcile_free_counts_def
    by (rule keeps_inv_bind(1)[OF typed_reconcile_groups[OF w]])
      (auto simp: Let_def meta_typed_def wf intro!: typed_rules store)
qed

lemma mount_typed:
  assumes d: "dev_typed d" and m: "mount_fs d = (r, d')"
  shows "dev_typed d'" "r = Inr fs \<Longrightarrow> fs_typed (layout (tx_new fs)) (geometry (fs_journal fs)) fs"
proof -
  let ?m = "io_bind read_sb_gds (\<lambda>(sb, _).
           io_bind (mount_journal (ext2_journal_area sb)) (\<lambda>j.
           io_bind read_sb_gds (\<lambda>(sb, gds).
           io_bind (reconcile_free_counts sb gds) (\<lambda>(sb, gds). io_return (sb, gds, j)))))"
  have second: "keeps_inv dev_typed (\<lambda>(sb, gds, _). meta_typed (sb, gds)) (io_bind read_sb_gds (\<lambda>(sb, gds).
           io_bind (reconcile_free_counts sb gds) (\<lambda>(sb, gds). io_return (sb, gds, j))))" for j :: journal
    by (rule keeps_inv_bind(1)[OF typed_read_sb_gds], rule keeps_inv_prod, rule keeps_inv_bind(1)[OF typed_reconcile])
      (auto intro!: typed_rules)
  have k: "keeps_inv dev_typed (\<lambda>(sb, gds, _). meta_typed (sb, gds)) ?m"
    by (rule keeps_inv_then(1)[OF keeps_inv_any[OF typed_read_sb_gds]], rule keeps_inv_prod, rule keeps_inv_then(1)[OF typed_mount_journal])
      (rule second)
  obtain x d1 where x: "?m d = (x, d1)" by (rule prod.exhaust)
  have "dev_typed d1 \<and> (\<forall>y. x = Inr y \<longrightarrow> (case y of (sb, gds, _) \<Rightarrow> meta_typed (sb, gds)))"
    using keeps_invD[OF k x d] by blast
  then show "dev_typed d'" "r = Inr fs \<Longrightarrow> fs_typed (layout (tx_new fs)) (geometry (fs_journal fs)) fs"
    using m x by (auto simp: mount_fs_def fs_typed_def tx_typed_def tx_new_def meta_typed_def split: sum.splits)
qed

subsection \<open>Any sequence of calls\<close>

text \<open>
  The calls through which the kernel changes a mounted file system, with their arguments, and
  their effect; \<open>None\<close> is the panic of a symbolic link with a target longer than a block.
\<close>

datatype fs_call =
    Create u32 bytes bool
  | Symlink u32 bytes bytes
  | Link u32 bytes u32
  | Unlink u32 bytes
  | Write u32 nat bytes
  | Truncate u32 nat
  | Set_mode u32 u32
  | Set_owner u32 u16 u16
  | Replace u32 bytes

primrec run_call :: "fs_call \<Rightarrow> ext2_fs \<Rightarrow> ext2_fs option" where
  "run_call (Create dir name isdir) fs = Some (snd (create dir name isdir fs))"
| "run_call (Symlink dir name target) fs = map_option snd (create_symlink dir name target fs)"
| "run_call (Link dir name ino) fs = Some (snd (link dir name ino fs))"
| "run_call (Unlink dir name) fs = Some (snd (unlink dir name fs))"
| "run_call (Write ino off data) fs = Some (snd (write_file ino off data fs))"
| "run_call (Truncate ino n) fs = Some (snd (truncate_file ino n fs))"
| "run_call (Set_mode ino mode) fs = Some (snd (set_inode_mode ino mode fs))"
| "run_call (Set_owner ino uid gid) fs = Some (snd (set_inode_owner ino uid gid fs))"
| "run_call (Replace ino data) fs =
     Some (snd (replace_contents \<lparr>en_kind = Ext2File, en_ino = ino, en_name = [], en_cached_size = 0\<rparr> data fs))"

primrec run_calls :: "fs_call list \<Rightarrow> ext2_fs \<Rightarrow> ext2_fs option" where
  "run_calls [] fs = Some fs"
| "run_calls (c # cs) fs = (case run_call c fs of None \<Rightarrow> None | Some fs \<Rightarrow> run_calls cs fs)"

lemma fs_keeps_snd: "fs_keeps L G m \<Longrightarrow> fs_typed L G fs \<Longrightarrow> fs_typed L G (snd (m fs))"
  by (simp add: keeps_inv_def)

lemma replace_typed: "fs_typed L G fs \<Longrightarrow> fs_typed L G (snd (replace_contents n data fs))"
proof -
  assume fs: "fs_typed L G fs"
  obtain x fs1 where x: "truncate_file (en_ino n) 0 fs = (x, fs1)" by (rule prod.exhaust)
  obtain y fs2 where y: "write_file (en_ino n) 0 data fs1 = (y, fs2)" by (rule prod.exhaust)
  have "fs_typed L G fs1"
    using keeps_invD[OF typed_truncate_file x fs] by simp
  moreover from this have "fs_typed L G fs2"
    using keeps_invD[OF typed_write_file y] by simp
  ultimately show ?thesis
    using x y fs by (cases x; cases y) (simp_all add: replace_contents_def en_truncate_def en_write_def map_err_def)
qed

lemma run_call_typed: "run_call c fs = Some fs' \<Longrightarrow> fs_typed L G fs \<Longrightarrow> fs_typed L G fs'"
  by (cases c) (auto intro: fs_keeps_snd[OF typed_create] fs_keeps_snd[OF typed_link] fs_keeps_snd[OF typed_unlink]
      fs_keeps_snd[OF typed_write_file] fs_keeps_snd[OF typed_truncate_file] fs_keeps_snd[OF typed_set_inode(1)]
      fs_keeps_snd[OF typed_set_inode(2)] replace_typed typed_create_symlink)

text \<open>
  Over sequences of calls: starting from a file system
  whose blocks all have 4096 bytes and whose superblock and descriptors have fields of their
  declared lengths, any calls with any arguments, succeeding or failing at any point, also when
  the device stops answering, lead to such a file system again; and the geometry in the
  superblock, the places of bitmaps and inode tables and the place of the journal never change.
\<close>

lemma fs_calls_keep_types:
  assumes "fs_typed L G fs" "run_calls cs fs = Some fs'"
  shows "fs_typed L G fs'"
  using assms
proof (induction cs arbitrary: fs)
  case (Cons c cs)
  then show ?case
    by (auto split: option.splits dest: run_call_typed)
qed simp

end
