(* ===== verification/Ext2Commit.thy ===== *)
theory Ext2Commit
  imports Ext2File Ext2TypedOps JournalCommit
begin

section \<open>Committing a transaction\<close>

text \<open>
  What a committed transaction leaves on the device: every block of the file system reads as the
  transaction saw it, with the superblock and the descriptors it held patched in.
\<close>

subsection \<open>The journal, seen through reads\<close>

lemma write_block_view: "write_block b x d = (Inr y, d') \<Longrightarrow> b < max_blocks \<Longrightarrow> view d' = (view d)(b := x)"
  by (cases d rule: tick_cases) (auto simp: write_block_def dev_write_block_def block_unit_num view_def split: if_splits)

lemma flush_view: "flush d = (Inr y, d') \<Longrightarrow> view d' = view d"
  by (cases d rule: tick_cases) (auto simp: flush_def dev_flush_def)

lemma write_all_view: "write_all ws d = (Inr y, d') \<Longrightarrow> \<forall>x \<in> set ws. fst x < max_blocks \<Longrightarrow> view d' = apply_writes ws (view d)"
proof (induction ws arbitrary: d)
  case (Cons w ws)
  obtain b x where w: "w = (b, x)" by (cases w)
  obtain d1 where d1: "write_block b x d = (Inr (), d1)" "write_all ws d1 = (Inr y, d')"
    using Cons.prems(1) by (auto simp: w io_bind_def split: prod.splits sum.splits)
  then show ?case
    using Cons.IH[OF d1(2)] Cons.prems(2) write_block_view[OF d1(1)] by (simp add: w)
qed (simp add: io_return_def)

text \<open>The journal lies behind the file system, and block numbers do not wrap.\<close>

definition placed :: "journal \<Rightarrow> bool" where
  "placed j \<longleftrightarrow> 0 < log_blocks j \<and> log_start j = super_block j + 1 \<and> fs_blocks j \<le> super_block j \<and> log_start j + log_blocks j \<le> max_blocks"

lemma placed_addr: "placed j \<Longrightarrow> fs_blocks j \<le> log_block_addr j p \<and> log_block_addr j p < max_blocks"
proof -
  assume p: "placed j"
  have "p mod log_blocks j < log_blocks j"
    using p by (simp add: placed_def)
  then have lt: "log_start j + p mod log_blocks j < max_blocks"
    using p by (simp add: placed_def)
  then have "log_block_addr j p = log_start j + p mod log_blocks j"
    unfolding log_block_addr_def by (intro wadd_exact) (simp add: max_blocks_def)
  then show ?thesis
    using lt p by (simp add: placed_def)
qed

lemma placed_geometry: "geometry j' = geometry j \<Longrightarrow> placed j' \<longleftrightarrow> placed j"
  by (simp add: geometry_def placed_def)

lemma log_writes_behind: "placed j \<Longrightarrow> x \<in> set (log_writes j t) \<Longrightarrow> fs_blocks j \<le> fst x \<and> fst x < max_blocks"
  using placed_addr[of j] by (auto simp: log_writes_def)

lemma persist_view: "persist_super j d = (Inr y, d') \<Longrightarrow> placed j \<Longrightarrow> u < fs_blocks j \<Longrightarrow> view d' u = view d u"
  unfolding persist_super_def by (drule write_block_view) (auto simp: placed_def)

lemma commit_body_view:
  assumes "commit_body j t d = (Inr y, d')" "placed j" "\<forall>x \<in> set t. fst x < fs_blocks j" "u < fs_blocks j"
  shows "view d' u = apply_writes t (view d) u"
proof -
  obtain d1 d2 d3 where d: "write_all (log_writes j t) d = (Inr (), d1)" "flush d1 = (Inr (), d2)" "write_all t d2 = (Inr (), d3)" "flush d3 = (Inr (), d')"
    using assms(1) by (auto simp: commit_body_def io_bind_def split: prod.splits sum.splits)
  have m: "\<forall>x \<in> set (log_writes j t). fst x < max_blocks" "\<forall>x \<in> set t. fst x < max_blocks"
    using log_writes_behind[OF assms(2)] assms(2,3) by (auto simp: placed_def)
  have "view d1 v = view d v" if "v < fs_blocks j" for v
    unfolding write_all_view[OF d(1) m(1)] using log_writes_behind[OF assms(2)] that by (intro apply_writes_other) fastforce
  then show ?thesis
    using write_all_view[OF d(3) m(2)] flush_view[OF d(2)] flush_view[OF d(4)] assms(4)
      apply_agree[of "fs_blocks j" "view d1" "view d" u t] by simp
qed

lemma commit_view:
  assumes c: "commit t j d = (Inr y, j', d')" and p: "placed j" and u: "u < fs_blocks j"
  shows "view d' u = apply_writes t (view d) u"
proof (cases "t = []")
  case False
  obtain r1 j1 d1 where 1: "(if wsub (log_blocks j) (log_used j) < wadd (length t) 2 then reclaim j d else (Inr (), j, d)) = (r1, j1, d1)"
    by (metis prod.exhaust)
  have r1: "r1 = Inr ()" and gd: "\<forall>x \<in> set t. fst x < fs_blocks j1"
    using c 1 False unfolding commit_def Let_def by (auto simp: list_ex_iff not_le split: if_splits sum.splits prod.splits)
  obtain d2 where d2: "commit_body j1 t d1 = (Inr (), d2)" and pe: "persist_super j' d2 = (Inr (), d')" and j': "geometry j' = geometry j1"
    using c 1 r1 False unfolding commit_def Let_def by (auto simp: geometry_def split: if_splits sum.splits prod.splits)
  have j1: "geometry j1 = geometry j \<and> (\<forall>u < fs_blocks j. view d1 u = view d u)"
  proof (cases "wsub (log_blocks j) (log_used j) < wadd (length t) 2")
    case True
    then obtain d0 where d0: "j1 = j\<lparr>tail := head j\<rparr>" "persist_super j1 d = (Inr (), d0)" "flush d0 = (Inr (), d1)"
      using 1 r1 by (auto simp: reclaim_def Let_def io_bind_def split: prod.splits sum.splits)
    then show ?thesis
      using persist_view[OF d0(2)] flush_view[OF d0(3)] p by (simp add: geometry_def placed_def)
  qed (use 1 in simp)
  then have fb: "fs_blocks j1 = fs_blocks j" "fs_blocks j' = fs_blocks j" and pl: "placed j1" "placed j'"
    using j' p placed_geometry[of j1 j] placed_geometry[of j' j] by (auto simp: geometry_def)
  have "view d' u = view d2 u"
    using persist_view[OF pe pl(2)] u fb by simp
  also have "\<dots> = apply_writes t (view d1) u"
    using commit_body_view[OF d2 pl(1) gd] u fb by simp
  also have "\<dots> = apply_writes t (view d) u"
    using apply_agree[of "fs_blocks j" "view d1" "view d" u t] j1 u by simp
  finally show ?thesis .
qed (use c in \<open>simp add: commit_def\<close>)

subsection \<open>The dirty blocks\<close>

lemma log_block_new: "length b = BS \<Longrightarrow> u \<notin> fst ` set t \<Longrightarrow> log_block u b t = t @ [(u, b)]"
proof -
  assume b: "length b = BS" and u: "u \<notin> fst ` set t"
  have "replace_target u x t = None" for x
    using u by (induction t) auto
  moreover have "put_bytes zero_block 0 b = b"
    using b by (simp add: put_bytes_def)
  ultimately show ?thesis
    using b by (simp add: log_block_def)
qed

lemma fold_log_block:
  "distinct (map fst ws) \<Longrightarrow> fst ` set ws \<inter> fst ` set acc = {} \<Longrightarrow> \<forall>(u, b) \<in> set ws. length b = BS \<Longrightarrow>
   fold (\<lambda>(blk, data) txn. log_block blk data txn) ws acc = acc @ ws"
proof (induction ws arbitrary: acc)
  case (Cons w ws)
  obtain u b where w: "w = (u, b)" by (cases w)
  have "log_block u b acc = acc @ [(u, b)]"
    using Cons.prems by (intro log_block_new) (auto simp: w)
  moreover have "fst ` set ws \<inter> fst ` set (acc @ [(u, b)]) = {}"
    using Cons.prems(1,2) by (auto simp: w)
  ultimately show ?case
    using Cons.IH[of "acc @ [(u, b)]"] Cons.prems by (simp add: w)
qed simp

lemma dirty_parts:
  assumes "tx_typed L t"
  shows "distinct (map fst (dirty_data t))" "distinct (map fst (dirty_meta t))"
    "(u, b) \<in> set (dirty_data t) \<longleftrightarrow> (u, b) \<in> set (tx_dirty t) \<and> u \<in> set (tx_data t)"
    "(u, b) \<in> set (dirty_meta t) \<longleftrightarrow> (u, b) \<in> set (tx_dirty t) \<and> u \<notin> set (tx_data t)"
    "tx_txn t = dirty_meta t"
proof -
  have s: "distinct (map fst (sort_key fst (tx_dirty t)))"
    using assms by (simp add: tx_typed_def distinct_map)
  then show d: "distinct (map fst (dirty_data t))" "distinct (map fst (dirty_meta t))"
    unfolding dirty_data_def dirty_meta_def by (rule distinct_map_filter)+
  show "(u, b) \<in> set (dirty_data t) \<longleftrightarrow> (u, b) \<in> set (tx_dirty t) \<and> u \<in> set (tx_data t)"
    by (auto simp: dirty_data_def List.member_iff)
  show "(u, b) \<in> set (dirty_meta t) \<longleftrightarrow> (u, b) \<in> set (tx_dirty t) \<and> u \<notin> set (tx_data t)"
    by (auto simp: dirty_meta_def List.member_iff)
  have "\<forall>(u, b) \<in> set (dirty_meta t). length b = BS"
    using assms by (auto simp: tx_typed_def dirty_meta_def)
  then show "tx_txn t = dirty_meta t"
    using fold_log_block[OF d(2), of "[]"] by (simp add: tx_txn_def txn_begin_def)
qed

lemma dirty_view:
  assumes t: "tx_typed L t"
  shows "apply_writes (tx_txn t) (apply_writes (dirty_data t) (view (tx_dev t))) u = tx_view t u"
proof -
  note dp = dirty_parts[OF t]
  have ds: "distinct (map fst (tx_dirty t))"
    using t by (simp add: tx_typed_def)
  show ?thesis
  proof (cases "map_of (tx_dirty t) u")
    case None
    then have "u \<notin> fst ` set (tx_dirty t)"
      by (simp add: map_of_eq_None_iff)
    then have "u \<notin> fst ` set (dirty_data t)" "u \<notin> fst ` set (dirty_meta t)"
      by (auto simp: dp dirty_data_def dirty_meta_def)
    then show ?thesis
      using None by (simp add: dp(5) apply_writes_other tx_view_def)
  next
    case (Some b)
    then have m: "(u, b) \<in> set (tx_dirty t)"
      by (rule map_of_SomeD)
    show ?thesis
    proof (cases "u \<in> set (tx_data t)")
      case True
      then have "u \<notin> fst ` set (dirty_meta t)" "(u, b) \<in> set (dirty_data t)"
        using dp(3,4) m by auto
      then show ?thesis
        using Some apply_writes_in[OF dp(1)] by (simp add: dp(5) apply_writes_other tx_view_def)
    next
      case False
      then show ?thesis
        using Some apply_writes_in[OF dp(2)] dp(4) m by (simp add: dp(5) tx_view_def)
    qed
  qed
qed

subsection \<open>Superblock and descriptors\<close>

definition desc_blocks :: "nat \<Rightarrow> nat set" where
  "desc_blocks n = insert 0 ((\<lambda>g. 1 + g * GD_SIZE div BS) ` {..<n})"

lemma put_super_view: "put_super t = (Inr y, t') \<Longrightarrow> u \<noteq> 0 \<Longrightarrow> tx_view t' u = tx_view t u \<and> tx_sb t' = tx_sb t \<and> tx_gds t' = tx_gds t"
proof -
  assume p: "put_super t = (Inr y, t')" and u: "u \<noteq> 0"
  obtain t1 where t1: "tx_block 0 t = (Inr (), t1)" "t' = tx_put 0 (put_bytes (tx_get t1 0) SUPERBLOCK_OFFSET (enc_super_block (tx_sb t1))) t1"
    using p by (auto simp: put_super_def split: prod.splits sum.splits)
  have "tx_same t t1"
    using tx_block_ok[OF t1(1)] by (simp add: max_blocks_def)
  then show ?thesis
    using u by (simp add: t1(2) tx_same_def)
qed

lemma put_descs_view:
  "put_descs gds t = (Inr y, t') \<Longrightarrow> \<forall>(g, gd) \<in> set gds. g < n \<Longrightarrow> n \<le> 2 ^ 32 \<Longrightarrow> u \<notin> desc_blocks n \<Longrightarrow>
   tx_view t' u = tx_view t u \<and> tx_sb t' = tx_sb t \<and> tx_gds t' = tx_gds t"
proof (induction gds arbitrary: t)
  case (Cons p gds)
  obtain g gd where p: "p = (g, gd)" by (cases p)
  let ?b = "1 + g * GD_SIZE div BS"
  obtain t1 where t1: "tx_block ?b t = (Inr (), t1)"
    and r: "put_descs gds (tx_put ?b (put_bytes (tx_get t1 ?b) (g * GD_SIZE mod BS) (enc_group_desc gd)) t1) = (Inr y, t')"
    using Cons.prems(1) by (auto simp: p Let_def split: prod.splits sum.splits)
  have g: "g < n"
    using Cons.prems(2) by (simp add: p)
  have "?b < max_blocks"
    using g Cons.prems(3) by (simp add: GD_SIZE_def BS_def max_blocks_def)
  then have s: "tx_same t t1"
    using tx_block_ok(1)[OF t1] by simp
  have "u \<noteq> ?b"
    using Cons.prems(4) g by (auto simp: desc_blocks_def)
  then show ?case
    using Cons.IH[OF r _ Cons.prems(3,4)] Cons.prems(2) s by (simp add: tx_same_def)
qed simp

lemma tx_commit_view:
  assumes c: "tx_commit t fs = (Inr y, fs')" and t: "tx_typed L t" and p: "placed (fs_journal fs)" and n: "length (tx_gds t) \<le> 2 ^ 32"
  shows "fs_sb fs' = tx_sb t" "fs_gds fs' = tx_gds t"
    "u < fs_blocks (fs_journal fs) \<Longrightarrow> u \<notin> desc_blocks (length (tx_gds t)) \<Longrightarrow> view (fs_dev fs') u = tx_view t u"
proof -
  obtain t0 t1 d2 j d3 where t0: "put_super t = (Inr (), t0)" and t1: "put_descs (enumerate 0 (tx_gds t0)) t0 = (Inr (), t1)"
    and d2: "write_all (dirty_data t1) (tx_dev t1) = (Inr (), d2)" and cm: "commit (tx_txn t1) (fs_journal fs) d2 = (Inr (), j, d3)"
    and fs': "fs' = \<lparr>fs_dev = d3, fs_sb = tx_sb t1, fs_gds = tx_gds t1, fs_journal = j\<rparr>"
    using c by (auto simp: tx_commit_def tx_bind_def split: prod.splits sum.splits)
  have ty: "tx_typed L t1"
    using keeps_invD[OF typed_put_all _ t, of "Inr ()" t1] t0 t1 by (simp add: tx_bind_def)
  have s0: "tx_sb t0 = tx_sb t \<and> tx_gds t0 = tx_gds t" "v \<noteq> 0 \<Longrightarrow> tx_view t0 v = tx_view t v" for v
    using put_super_view[OF t0] by (blast intro: zero_neq_one)+
  have gs: "\<forall>(g, gd) \<in> set (enumerate 0 (tx_gds t0)). g < length (tx_gds t)"
    using s0(1) by (auto simp: in_set_enumerate_eq)
  have fresh: "\<exists>v. v \<notin> desc_blocks (length (tx_gds t))"
    using ex_new_if_finite[of "desc_blocks (length (tx_gds t))"] by (simp add: desc_blocks_def)
  have s1: "tx_sb t1 = tx_sb t \<and> tx_gds t1 = tx_gds t" "v \<notin> desc_blocks (length (tx_gds t)) \<Longrightarrow> tx_view t1 v = tx_view t v" for v
    using put_descs_view[OF t1 gs n] s0 fresh by (auto simp: desc_blocks_def)
  show "fs_sb fs' = tx_sb t" "fs_gds fs' = tx_gds t"
    using s1 by (simp_all add: fs')
  assume u: "u < fs_blocks (fs_journal fs)" "u \<notin> desc_blocks (length (tx_gds t))"
  have m: "\<forall>x \<in> set (dirty_data t1). fst x < max_blocks"
    using dirty_parts(3)[OF ty] ty by (auto simp: tx_typed_def)
  have "view d3 u = apply_writes (tx_txn t1) (view d2) u"
    using commit_view[OF cm p u(1)] .
  also have "\<dots> = tx_view t1 u"
    unfolding write_all_view[OF d2 m] by (rule dirty_view[OF ty])
  finally show "view (fs_dev fs') u = tx_view t u"
    using s1(2)[OF u(2)] by (simp add: fs')
qed

end
