(* ===== verification/Ext2Volume.thy ===== *)
theory Ext2Volume
  imports Ext2Commit
begin

section \<open>Files on a mounted volume\<close>

text \<open>
  The contents of the files of a mounted file system and what \<^verbatim>\<open>write_file\<close> and \<^verbatim>\<open>read_file\<close>
  make of them, over all the transactions of a call.  \<open>R\<close> is a set of blocks in use that do not
  belong to the file: the metadata, the blocks of other files, and whatever the bitmaps mark
  behind the end of the file system.
\<close>

definition tables :: "tx \<Rightarrow> nat set" where
  "tables t = (\<Union>g < length (tx_gds t). table_blocks (tx_sb t) (tx_gds t ! g))"

definition volume_ok :: "ext2_fs \<Rightarrow> nat set \<Rightarrow> bool" where
  "volume_ok fs R \<longleftrightarrow>
     fs_typed (layout (tx_new fs)) (geometry (fs_journal fs)) fs \<and> placed (fs_journal fs)
     \<and> alloc_ok (tx_new fs) \<and> meta_ok (tx_new fs) R \<and> bitmaps (tx_new fs) \<subseteq> R \<and> R \<subseteq> in_use (tx_new fs)
     \<and> {fs_blocks (fs_journal fs)..<length (fs_gds fs) * 32768} \<subseteq> R
     \<and> bitmaps (tx_new fs) \<union> tables (tx_new fs) \<subseteq> {..<fs_blocks (fs_journal fs)}
     \<and> desc_blocks (length (fs_gds fs)) \<subseteq> R \<inter> {..<fs_blocks (fs_journal fs)} - bitmaps (tx_new fs) - tables (tx_new fs)"

lemma tx_new_sel [simp]:
  "tx_view (tx_new fs) = view (fs_dev fs)" "tx_sb (tx_new fs) = fs_sb fs" "tx_gds (tx_new fs) = fs_gds fs" "tx_dev (tx_new fs) = fs_dev fs"
  by (auto simp: tx_new_def tx_view_def fun_eq_iff)

lemma in_use_bound: "u \<in> in_use t \<Longrightarrow> u < length (tx_gds t) * 32768"
proof -
  assume "u \<in> in_use t"
  then obtain g i where u: "u = g * 32768 + i" "g < length (tx_gds t)" "i < 32768"
    by (auto simp: in_use_def)
  have "Suc g * 32768 \<le> length (tx_gds t) * 32768"
    using u(2) by (intro mult_right_mono) simp_all
  then show ?thesis
    using u by simp
qed

lemma layout_tables_set: "layout t' = layout t \<Longrightarrow> tables t' = tables t"
  using layout_tables(2)[of t' t] layout_gds(1)[of t' t] by (auto simp: tables_def)

text \<open>A tree outside \<open>R\<close> lies inside the file system.\<close>

lemma tree_inside:
  assumes "volume_ok fs R" "layout t = layout (tx_new fs)" "tree_ok t R inode" "pos_ok P" "node (tx_view t) inode P = Some b"
  shows "unat b < fs_blocks (fs_journal fs)" "unat b \<notin> desc_blocks (length (fs_gds fs))"
proof -
  have b: "unat b \<in> in_use t" "unat b \<notin> R"
    using tree_okD[OF assms(3-5)] by simp_all
  have "unat b < length (fs_gds fs) * 32768"
    using in_use_bound[OF b(1)] layout_gds(1)[OF assms(2)] by simp
  then show "unat b < fs_blocks (fs_journal fs)"
    using b(2) assms(1) unfolding volume_ok_def by (metis atLeastLessThan_iff not_le subsetD)
  show "unat b \<notin> desc_blocks (length (fs_gds fs))"
    using b(2) assms(1) unfolding volume_ok_def by blast
qed

lemma tree_transfer:
  assumes tr: "tree_ok t R inode" and ly: "layout t' = layout t" and iu: "in_use t' = in_use t"
    and same: "\<And>P b. pos_ok P \<Longrightarrow> node (tx_view t) inode P = Some b \<Longrightarrow> tx_view t' (unat b) = tx_view t (unat b)"
  shows "tree_ok t' R inode" "file_byte (tx_view t') inode = file_byte (tx_view t) inode"
proof -
  have nd: "node (tx_view t') inode Q = node (tx_view t) inode Q" if "pos_ok Q" for Q
    using node_cong[of "tx_view t" inode "tx_view t'" "fst Q" "snd Q"] same that by simp
  show "tree_ok t' R inode"
    using tr nd iu layout_gds(3)[OF ly] unfolding tree_ok_def by metis
  show "file_byte (tx_view t') inode = file_byte (tx_view t) inode"
  proof
    fix k
    show "file_byte (tx_view t') inode k = file_byte (tx_view t) inode k"
    proof (cases "block_path (k div BS)")
      case (Some Q)
      have Q: "pos_ok Q"
        using block_path_leaf[OF Some] by simp
      then show ?thesis
        using nd[OF Q] same[OF Q] Some by (auto simp: file_byte_def block_lookup_node split: option.splits)
    qed (simp add: file_byte_def block_lookup_node)
  qed
qed

lemma volume_transfer:
  assumes v: "volume_ok fs R" and c: "tx_commit t fs = (Inr y, fs')" and ok: "alloc_ok t" and ly: "layout t = layout (tx_new fs)"
    and R: "R \<subseteq> in_use t" and ty: "tx_typed (layout (tx_new fs)) t"
  shows "volume_ok fs' R" "layout (tx_new fs') = layout t" "in_use (tx_new fs') = in_use t" "tx_inode (tx_new fs') = tx_inode t"
    "geometry (fs_journal fs') = geometry (fs_journal fs)"
    "u < fs_blocks (fs_journal fs) \<Longrightarrow> u \<notin> desc_blocks (length (fs_gds fs)) \<Longrightarrow> view (fs_dev fs') u = tx_view t u"
proof -
  have f: "fs_typed (layout (tx_new fs)) (geometry (fs_journal fs)) fs" and p: "placed (fs_journal fs)"
    and mo: "meta_ok (tx_new fs) R" and bR: "bitmaps (tx_new fs) \<subseteq> R" and eR: "{fs_blocks (fs_journal fs)..<length (fs_gds fs) * 32768} \<subseteq> R"
    and inside: "bitmaps (tx_new fs) \<union> tables (tx_new fs) \<subseteq> {..<fs_blocks (fs_journal fs)}"
    and ds: "desc_blocks (length (fs_gds fs)) \<subseteq> R \<inter> {..<fs_blocks (fs_journal fs)} - bitmaps (tx_new fs) - tables (tx_new fs)"
    using v unfolding volume_ok_def by auto
  have ln: "length (tx_gds t) = length (fs_gds fs)" and bm: "bitmaps t = bitmaps (tx_new fs)" and tb: "tables t = tables (tx_new fs)"
    using layout_gds(1,3)[OF ly] layout_tables_set[OF ly] by simp_all
  have "length (tx_gds t) \<le> 2 ^ 32"
    using ok unfolding alloc_ok_def by linarith
  note cv = tx_commit_view[OF c ty p this]
  show vw: "u < fs_blocks (fs_journal fs) \<Longrightarrow> u \<notin> desc_blocks (length (fs_gds fs)) \<Longrightarrow> view (fs_dev fs') u = tx_view t u" for u
    using cv(3) ln by simp
  show ly': "layout (tx_new fs') = layout t"
    using cv(1,2) by (simp add: layout_def)
  have ty': "fs_typed (layout (tx_new fs)) (geometry (fs_journal fs)) fs'"
    using tx_commit_typed[OF c ty f] .
  then show ge: "geometry (fs_journal fs') = geometry (fs_journal fs)"
    by (simp add: fs_typed_def)
  have same: "tx_view (tx_new fs') u = tx_view t u" if "u \<in> bitmaps t \<union> tables t" for u
  proof -
    have "u < fs_blocks (fs_journal fs)" "u \<notin> desc_blocks (length (fs_gds fs))"
      using that inside ds unfolding bm tb by blast+
    then show ?thesis
      using vw by simp
  qed
  show iu: "in_use (tx_new fs') = in_use t"
    by (rule in_use_cong[OF ly']) (use same in simp)
  show "tx_inode (tx_new fs') = tx_inode t"
  proof
    fix ino
    have "tx_view (tx_new fs') b = tx_view t b" if "inode_location (tx_sb t) (tx_gds t) ino = Inr (b, off)" for b off
      using inode_location_bounds(3)[OF that] same by (auto simp: tables_def)
    then show "tx_inode (tx_new fs') ino = tx_inode t ino"
      unfolding tx_inode_def layout_tables(1)[OF ly'] by (auto split: sum.splits)
  qed
  have "length (view (fs_dev fs') u) = BS" for u
    using ty' dev_typed_view[of "fs_dev fs'"] by (simp add: fs_typed_def tx_typed_def)
  moreover have "inj_on (bbm_of (tx_new fs')) {..<length (fs_gds fs)} = inj_on (bbm_of t) {..<length (fs_gds fs)}"
    using layout_gds(2)[OF ly'] ln by (intro inj_on_cong) simp
  ultimately have "alloc_ok (tx_new fs')"
    using ok iu layout_gds(1,3)[OF ly'] layout_sb[OF ly'] ln unfolding alloc_ok_def by simp
  moreover have "layout (tx_new fs') = layout (tx_new fs)" "length (fs_gds fs') = length (fs_gds fs)" "fs_blocks (fs_journal fs') = fs_blocks (fs_journal fs)"
    using ly' ly layout_gds(1)[OF ly'] ln ge by (simp_all add: geometry_def)
  ultimately show "volume_ok fs' R"
    using ty' p R mo bR eR inside ds iu ge layout_meta[of "tx_new fs'" "tx_new fs" R] layout_gds(3)[of "tx_new fs'" "tx_new fs"]
      layout_tables_set[of "tx_new fs'" "tx_new fs"] placed_geometry[OF ge]
    unfolding volume_ok_def by simp
qed

subsection \<open>Files\<close>

text \<open>
  \<open>file_at\<close>: the inode of a file whose blocks form a sound tree and that reads as zero behind its
  end.  \<open>apart\<close>: a file all of whose blocks are in \<open>R\<close> and not among the metadata.
\<close>

abbreviation fs_inode :: "ext2_fs \<Rightarrow> u32 \<Rightarrow> ext2_inode option" where
  "fs_inode fs \<equiv> tx_inode (tx_new fs)"

definition file_at :: "ext2_fs \<Rightarrow> nat set \<Rightarrow> u32 \<Rightarrow> ext2_inode \<Rightarrow> bool" where
  "file_at fs R ino i \<longleftrightarrow> fs_inode fs ino = Some i \<and> tree_ok (tx_new fs) R i
     \<and> (\<forall>k. unat (i_size i) \<le> k \<longrightarrow> file_byte (view (fs_dev fs)) i k = 0)"

definition contents :: "ext2_fs \<Rightarrow> u32 \<Rightarrow> bytes" where
  "contents fs ino = (case fs_inode fs ino of None \<Rightarrow> [] | Some i \<Rightarrow> map (file_byte (view (fs_dev fs)) i) [0..<unat (i_size i)])"

definition apart :: "ext2_fs \<Rightarrow> nat set \<Rightarrow> u32 \<Rightarrow> bool" where
  "apart fs R k \<longleftrightarrow> (\<forall>i P b. fs_inode fs k = Some i \<and> pos_ok P \<and> node (view (fs_dev fs)) i P = Some b \<longrightarrow>
     unat b \<in> R - bitmaps (tx_new fs) - tables (tx_new fs) - desc_blocks (length (fs_gds fs)) \<and> unat b < fs_blocks (fs_journal fs))"

definition wrote :: "ext2_fs \<Rightarrow> nat set \<Rightarrow> u32 \<Rightarrow> ext2_inode \<Rightarrow> nat \<Rightarrow> bytes \<Rightarrow> ext2_fs \<Rightarrow> ext2_inode \<Rightarrow> bool" where
  "wrote fs R ino i pos x fs' i' \<longleftrightarrow> volume_ok fs' R \<and> file_at fs' R ino i'
     \<and> unat (i_size i') = max (unat (i_size i)) (pos + length x)
     \<and> (\<forall>k. file_byte (view (fs_dev fs')) i' k = (if pos \<le> k \<and> k < pos + length x then x ! (k - pos) else file_byte (view (fs_dev fs)) i k))
     \<and> (\<forall>k. k \<noteq> ino \<and> apart fs R k \<longrightarrow> apart fs' R k \<and> fs_inode fs' k = fs_inode fs k \<and> contents fs' k = contents fs k)"

lemma apartD:
  assumes "apart fs R k" "fs_inode fs k = Some i" "pos_ok P" "node (view (fs_dev fs)) i P = Some b"
  shows "unat b \<in> R - bitmaps (tx_new fs) - tables (tx_new fs) - desc_blocks (length (fs_gds fs)) \<and> unat b < fs_blocks (fs_journal fs)"
  using assms unfolding apart_def by blast

lemma apart_transfer:
  assumes a: "apart fs R k" and i: "fs_inode fs' k = fs_inode fs k" and ly: "layout (tx_new fs') = layout (tx_new fs)"
    and g: "geometry (fs_journal fs') = geometry (fs_journal fs)"
    and v: "\<And>u. u \<in> R - bitmaps (tx_new fs) - tables (tx_new fs) - desc_blocks (length (fs_gds fs)) \<Longrightarrow> u < fs_blocks (fs_journal fs) \<Longrightarrow>
      view (fs_dev fs') u = view (fs_dev fs) u"
  shows "apart fs' R k" "contents fs' k = contents fs k"
proof -
  have same: "view (fs_dev fs') (unat b) = view (fs_dev fs) (unat b)" if "fs_inode fs k = Some j" "pos_ok P" "node (view (fs_dev fs)) j P = Some b" for j P b
    using apartD[OF a that] by (intro v) blast+
  have nd: "node (view (fs_dev fs')) j Q = node (view (fs_dev fs)) j Q" if "fs_inode fs k = Some j" "pos_ok Q" for j Q
    using node_cong[of "view (fs_dev fs)" j "view (fs_dev fs')" "fst Q" "snd Q"] same that by simp
  show "apart fs' R k"
    unfolding apart_def i
  proof (intro allI impI)
    fix j P b assume "fs_inode fs k = Some j \<and> pos_ok P \<and> node (view (fs_dev fs')) j P = Some b"
    then have "unat b \<in> R - bitmaps (tx_new fs) - tables (tx_new fs) - desc_blocks (length (fs_gds fs)) \<and> unat b < fs_blocks (fs_journal fs)"
      using nd[of j P] by (intro apartD[OF a, of j P b]) auto
    then show "unat b \<in> R - bitmaps (tx_new fs') - tables (tx_new fs') - desc_blocks (length (fs_gds fs')) \<and> unat b < fs_blocks (fs_journal fs')"
      using layout_gds(1,3)[OF ly] layout_tables_set[OF ly] g by (simp add: geometry_def)
  qed
  show "contents fs' k = contents fs k"
  proof (cases "fs_inode fs k")
    case (Some j)
    have "file_byte (view (fs_dev fs')) j = file_byte (view (fs_dev fs)) j"
    proof
      fix q
      show "file_byte (view (fs_dev fs')) j q = file_byte (view (fs_dev fs)) j q"
      proof (cases "block_path (q div BS)")
        case path: (Some Q)
        have Q: "pos_ok Q"
          using block_path_leaf[OF path] by simp
        then show ?thesis
          using nd[OF Some Q] same[OF Some Q] path by (auto simp: file_byte_def block_lookup_node split: option.splits)
      qed (simp add: file_byte_def block_lookup_node)
    qed
    then show ?thesis
      by (simp add: contents_def i Some)
  qed (simp add: contents_def i)
qed

lemma write_step:
  assumes r: "run_tx (write_tx ino pos data) fs = (Inr (pos', rest), fs')" and v: "volume_ok fs R" and f: "file_at fs R ino i"
    and fit: "pos + length data < 2 ^ 32"
  shows "\<exists>n i'. n \<le> length data \<and> pos' = pos + n \<and> rest = drop n data \<and> (data \<noteq> [] \<longrightarrow> 0 < n) \<and> wrote fs R ino i pos (take n data) fs' i'"
proof -
  obtain t where t: "write_tx ino pos data (tx_new fs) = (Inr (pos', rest), t)" and c: "tx_commit t fs = (Inr (), fs')"
    using r by (auto simp: run_tx_def fs_bind_def split: prod.splits sum.splits)
  have ok: "alloc_ok (tx_new fs)" and mo: "meta_ok (tx_new fs) R" and R: "R \<subseteq> in_use (tx_new fs)"
    and ty0: "tx_typed (layout (tx_new fs)) (tx_new fs)"
    using v by (simp_all add: volume_ok_def fs_typed_def)
  have fi: "fs_inode fs ino = Some i" "tree_ok (tx_new fs) R i" and tail: "\<And>k. unat (i_size i) \<le> k \<Longrightarrow> file_byte (view (fs_dev fs)) i k = 0"
    using f by (simp_all add: file_at_def)
  obtain n i' where n: "n \<le> length data" "data \<noteq> [] \<Longrightarrow> 0 < n" "pos' = pos + n" "rest = drop n data"
    and w: "written (tx_new fs) R ino i pos (take n data) t i'"
    using write_tx_ok[OF t ok mo fi fit] by metis
  have wr: "alloc_ok t" "tree_ok t R i'" "layout t = layout (tx_new fs)" "in_use (tx_new fs) \<subseteq> in_use t" "tx_inode t = (fs_inode fs)(ino \<mapsto> i')"
    and wf: "\<And>u. u \<in> R - bitmaps (tx_new fs) \<Longrightarrow> u \<notin> tables (tx_new fs) \<Longrightarrow> tx_view t u = view (fs_dev fs) u"
    and sz: "unat (i_size i') = max (unat (i_size i)) (pos + length (take n data))"
    and bk: "\<And>k. file_byte (tx_view t) i' k = (if pos \<le> k \<and> k < pos + length (take n data) then take n data ! (k - pos) else file_byte (view (fs_dev fs)) i k)"
    using w by (simp_all add: written_def tables_def)
  have ty: "tx_typed (layout (tx_new fs)) t"
    using keeps_invD[OF typed_write_tx t ty0] by simp
  have "R \<subseteq> in_use t"
    using R wr(4) by blast
  note tr = volume_transfer[OF v c wr(1,3) this ty]
  have ly': "layout (tx_new fs') = layout (tx_new fs)"
    using tr(2) wr(3) by simp
  have nodes: "tx_view (tx_new fs') (unat b) = tx_view t (unat b)" if "pos_ok P" "node (tx_view t) i' P = Some b" for P b
    using tr(6)[of "unat b"] tree_inside[OF v wr(3,2) that] by simp
  note tt = tree_transfer[OF wr(2) tr(2,3) nodes]
  have "file_at fs' R ino i'"
    unfolding file_at_def
  proof (intro conjI allI impI)
    show "file_byte (view (fs_dev fs')) i' k = 0" if "unat (i_size i') \<le> k" for k
      using that tt(2) bk sz tail by (auto simp: fun_eq_iff)
  qed (use tt(1) tr(4) wr(5) in simp_all)
  moreover have "apart fs' R k \<and> fs_inode fs' k = fs_inode fs k \<and> contents fs' k = contents fs k" if k: "k \<noteq> ino" "apart fs R k" for k
  proof -
    have ik: "fs_inode fs' k = fs_inode fs k"
      using tr(4) wr(5) k by simp
    have "view (fs_dev fs') u = view (fs_dev fs) u"
      if "u \<in> R - bitmaps (tx_new fs) - tables (tx_new fs) - desc_blocks (length (fs_gds fs))" "u < fs_blocks (fs_journal fs)" for u
      using tr(6)[of u] wf[of u] that by simp
    then show ?thesis
      using apart_transfer[OF k(2) ik ly' tr(5)] ik by blast
  qed
  ultimately have "wrote fs R ino i pos (take n data) fs' i'"
    using tr(1) sz tt(2) bk unfolding wrote_def by (simp add: fun_eq_iff)
  then show ?thesis
    using n by blast
qed

subsection \<open>The loop over the transactions\<close>

lemma wrote_trans:
  assumes a: "wrote fs R ino i pos x fs1 i1" and b: "wrote fs1 R ino i1 (pos + length x) y fs2 i2"
  shows "wrote fs R ino i pos (x @ y) fs2 i2"
proof -
  have bytes: "file_byte (view (fs_dev fs2)) i2 k = (if pos \<le> k \<and> k < pos + length (x @ y) then (x @ y) ! (k - pos) else file_byte (view (fs_dev fs)) i k)" for k
  proof (cases "pos + length x \<le> k \<and> k < pos + length x + length y")
    case True
    then have "k - (pos + length x) = k - pos - length x" "\<not> k - pos < length x"
      by auto
    then show ?thesis
      using b True by (auto simp: wrote_def nth_append)
  next
    case False
    then have "file_byte (view (fs_dev fs2)) i2 k = file_byte (view (fs_dev fs1)) i1 k"
      using b by (auto simp: wrote_def)
    then show ?thesis
      using a False by (auto simp: wrote_def nth_append)
  qed
  have "unat (i_size i2) = max (unat (i_size i)) (pos + length (x @ y))"
    using a b by (auto simp: wrote_def)
  moreover have "volume_ok fs2 R" "file_at fs2 R ino i2"
    using b by (simp_all add: wrote_def)
  moreover have "apart fs2 R k \<and> fs_inode fs2 k = fs_inode fs k \<and> contents fs2 k = contents fs k" if "k \<noteq> ino" "apart fs R k" for k
    using a b that unfolding wrote_def by metis
  ultimately show ?thesis
    unfolding wrote_def using bytes by blast
qed

lemma write_loop_ok:
  "write_loop ino pos data fs = (Inr u, fs') \<Longrightarrow> volume_ok fs R \<Longrightarrow> file_at fs R ino i \<Longrightarrow> pos + length data < 2 ^ 32 \<Longrightarrow> data \<noteq> [] \<Longrightarrow>
   \<exists>i'. wrote fs R ino i pos data fs' i'"
proof (induction ino pos data fs arbitrary: i rule: write_loop.induct)
  case (1 ino pos data fs)
  obtain p rest fs1 where r: "run_tx (write_tx ino pos data) fs = (Inr (p, rest), fs1)" and l: "write_loop ino p rest fs1 = (Inr u, fs')"
    using "1.prems"(1,5) by (auto simp: write_loop.simps[of ino pos data fs] split: prod.splits sum.splits)
  obtain n i1 where n: "n \<le> length data" "p = pos + n" "rest = drop n data" and w: "wrote fs R ino i pos (take n data) fs1 i1"
    using write_step[OF r "1.prems"(2-4)] by blast
  show ?case
  proof (cases "rest = []")
    case True
    then have "fs' = fs1" "take n data = data"
      using n l by (simp_all add: write_loop.simps[of _ _ "[]"])
    then show ?thesis
      using w by auto
  next
    case False
    have w1: "volume_ok fs1 R" "file_at fs1 R ino i1" "length (take n data) = n"
      using w n by (simp_all add: wrote_def)
    obtain i' where "wrote fs1 R ino i1 p rest fs' i'"
      using "1.IH"[OF "1.prems"(5) r[symmetric] refl refl l w1(1,2) _ False] "1.prems"(4) n by auto
    then have "wrote fs R ino i pos (take n data @ drop n data) fs' i'"
      using n w1(3) by (intro wrote_trans[OF w]) simp
    then show ?thesis
      by auto
  qed
qed

subsection \<open>The contents of a file\<close>

text \<open>Overwriting a piece of a byte string; a gap behind its end is filled with zeros.\<close>

definition overwrite :: "nat \<Rightarrow> bytes \<Rightarrow> bytes \<Rightarrow> bytes" where
  "overwrite off data c = take off c @ replicate (off - length c) 0 @ data @ drop (off + length data) c"

lemma nth_overwrite:
  "k < length (overwrite off data c) \<Longrightarrow> overwrite off data c ! k =
     (if off \<le> k \<and> k < off + length data then data ! (k - off) else if k < length c then c ! k else 0)"
  by (auto simp: overwrite_def nth_append min_def not_less)

lemma length_overwrite: "length (overwrite off data c) = max (length c) (off + length data)"
  by (simp add: overwrite_def)

lemma wrote_contents:
  assumes w: "wrote fs R ino i off data fs' i'" and f: "file_at fs R ino i"
  shows "contents fs' ino = overwrite off data (contents fs ino)"
proof (rule nth_equalityI)
  have i: "fs_inode fs ino = Some i" "fs_inode fs' ino = Some i'" and sz: "unat (i_size i') = max (unat (i_size i)) (off + length data)"
    using w f by (simp_all add: wrote_def file_at_def)
  have c: "length (contents fs ino) = unat (i_size i)" "length (contents fs' ino) = unat (i_size i')"
    by (simp_all add: contents_def i)
  then show "length (contents fs' ino) = length (overwrite off data (contents fs ino))"
    using sz by (simp add: length_overwrite)
  fix k assume k: "k < length (contents fs' ino)"
  have "contents fs ino ! k = file_byte (view (fs_dev fs)) i k" if "k < unat (i_size i)"
    using that by (simp add: contents_def i)
  moreover have "file_byte (view (fs_dev fs)) i k = 0" if "\<not> k < unat (i_size i)"
    using f that by (simp add: file_at_def)
  moreover have "contents fs' ino ! k = file_byte (view (fs_dev fs')) i' k"
    using k c by (simp add: contents_def i)
  moreover have "file_byte (view (fs_dev fs')) i' k = (if off \<le> k \<and> k < off + length data then data ! (k - off) else file_byte (view (fs_dev fs)) i k)"
    using w by (simp add: wrote_def)
  ultimately show "contents fs' ino ! k = overwrite off data (contents fs ino) ! k"
    using k c sz by (simp add: nth_overwrite length_overwrite)
qed

end
