(* ===== verification/Ext2Live.thy ===== *)
theory Ext2Live
  imports Ext2Volume
begin

section \<open>Progress\<close>

text \<open>
  A write that fits into one block of a file succeeds on a device that answers, as long as a block
  is free: the steps of the transaction find their blocks, the metadata it changes fits into the
  log, and the commit goes through.
\<close>

subsection \<open>What a transaction touches\<close>

text \<open>\<open>moved K t t'\<close>: a live device is as it was, and the dirty blocks that were added are in \<open>K\<close>.\<close>

definition keys :: "tx \<Rightarrow> nat set" where
  "keys t = fst ` set (tx_dirty t)"

definition moved :: "nat set \<Rightarrow> tx \<Rightarrow> tx \<Rightarrow> bool" where
  "moved K t t' \<longleftrightarrow> (fuse (tx_dev t) = None \<longrightarrow> tx_dev t' = tx_dev t) \<and> keys t' \<subseteq> keys t \<union> K"

lemma moved_refl [simp]: "moved K t t"
  by (simp add: moved_def)

lemma moved_trans: "moved K t t1 \<Longrightarrow> moved K' t1 t2 \<Longrightarrow> moved (K \<union> K') t t2"
  by (auto simp: moved_def)

lemma moved_step: "moved K t t1 \<Longrightarrow> moved K t1 t2 \<Longrightarrow> moved K t t2"
  by (auto simp: moved_def)

lemma moved_mono: "moved K t t' \<Longrightarrow> K \<subseteq> K' \<Longrightarrow> moved K' t t'"
  by (auto simp: moved_def)

lemma keys_put [simp]: "keys (tx_put u b t) = insert u (keys t)"
  by (simp add: keys_def tx_put_def update_conv' flip: dom_map_of_conv_image_fst)

lemma keys_upd [simp]:
  "keys (t\<lparr>tx_dev := d\<rparr>) = keys t" "keys (set_gd g gd t) = keys t" "keys (t\<lparr>tx_sb := sb\<rparr>) = keys t" "keys (t\<lparr>tx_data := xs\<rparr>) = keys t"
  by (simp_all add: keys_def set_gd_def)

lemma moved_put: "u \<in> K \<Longrightarrow> moved K t (tx_put u b t)"
  by (auto simp: moved_def)

lemma moved_set_gd [simp]: "moved K t (set_gd g gd t)"
  by (simp add: moved_def)

lemma tx_block_moved: "tx_block u t = (r, t') \<Longrightarrow> moved {u} t t'"
proof -
  assume b: "tx_block u t = (r, t')"
  show ?thesis
  proof (cases "map_of (tx_dirty t) u")
    case None
    obtain x d where x: "read_block u (tx_dev t) = (x, d)" by (rule prod.exhaust)
    have "fuse (tx_dev t) = None \<Longrightarrow> d = tx_dev t"
      using x by (auto simp: read_block_def dev_read_block_def split: if_splits)
    moreover have "t' = (case x of Inl e \<Rightarrow> t\<lparr>tx_dev := d\<rparr> | Inr y \<Rightarrow> tx_put u y (t\<lparr>tx_dev := d\<rparr>))"
      using b None x by (auto simp: tx_block_def tx_bind_def tx_read_def split: sum.splits)
    ultimately show ?thesis
      by (cases x) (auto simp: moved_def)
  qed (use b in \<open>auto simp: tx_block_def\<close>)
qed

lemma alloc_zeroed_moved:
  "alloc_zeroed_groups gs t = (Inr blk, t') \<Longrightarrow> set gs \<subseteq> {..<length (tx_gds t)} \<Longrightarrow> moved (insert (unat blk) (bitmaps t)) t t'"
proof (induction gs arbitrary: t)
  case (Cons g gs)
  let ?gd = "tx_gds t ! g" and ?K = "insert (unat blk) (bitmaps t)"
  let ?b = "unat (bg_block_bitmap ?gd)"
  have g: "g < length (tx_gds t)"
    using Cons.prems(2) by simp
  have bK: "?b \<in> bitmaps t"
    using g by (auto simp: bitmaps_def bbm_of_def)
  have nxt: "moved ?K t t'" if "alloc_zeroed_groups gs t2 = (Inr blk, t')" "moved ?K t t2" "tx_gds t2 = (tx_gds t)[g := ?gd\<lparr>bg_free_blocks_count := c\<rparr>]" for t2 c
  proof -
    have bm: "bitmaps t2 = bitmaps t"
      using g that(3) by (auto simp: bitmaps_def bbm_of_def nth_list_update)
    have "moved ?K t2 t'"
      using Cons.IH[OF that(1)] Cons.prems(2) that(3) bm by simp
    then show ?thesis
      by (rule moved_step[OF that(2)])
  qed
  show ?case
  proof (cases "bg_free_blocks_count ?gd = 0")
    case True
    then show ?thesis
      using Cons.IH[of t] Cons.prems by (simp add: Let_def)
  next
    case False
    obtain x t1 where x: "tx_block ?b t = (x, t1)" by (rule prod.exhaust)
    have xr: "x = Inr ()"
      using Cons.prems(1) False x by (cases x) (auto simp: Let_def)
    have s1: "tx_same t t1"
      using tx_block_ok(1)[OF x[unfolded xr]] by simp
    have m1: "moved ?K t t1"
      using tx_block_moved[OF x] moved_mono[of "{?b}" t t1 ?K] bK by simp
    have g1: "tx_gds t1 = tx_gds t"
      using s1 by (simp add: tx_same_def)
    show ?thesis
    proof (cases "alloc_bit (tx_get t1 ?b)")
      case None
      show ?thesis
        by (rule nxt[of "set_gd g (?gd\<lparr>bg_free_blocks_count := 0\<rparr>) t1" 0])
          (use Cons.prems(1) False x xr None m1 g1 moved_step[OF m1 moved_set_gd[of ?K]] in \<open>auto simp: Let_def\<close>)
    next
      case (Some p)
      obtain bt bm where p: "p = (bt, bm)" by (cases p)
      define t2 where "t2 = tx_put ?b bm t1"
      have m2: "moved ?K t t2"
        using moved_step[OF m1 moved_put[of ?b ?K t1 bm]] bK by (simp add: t2_def)
      have sb2 [simp]: "tx_sb t2 = tx_sb t1"
        by (simp add: t2_def)
      define nb where "nb = s_first_data_block (tx_sb t1) + of_nat g * s_blocks_per_group (tx_sb t1) + bt"
      show ?thesis
      proof (cases "s_blocks_count (tx_sb t1) \<le> nb")
        case True
        let ?t3 = "set_gd g (?gd\<lparr>bg_free_blocks_count := 0\<rparr>) (tx_put ?b (snd (clear_bit bm bt)) t2)"
        have "moved ?K t ?t3"
          using moved_step[OF moved_step[OF m2 moved_put[of ?b ?K]] moved_set_gd[of ?K]] bK by simp
        then show ?thesis
          by (rule nxt[of ?t3 0, rotated])
            (use Cons.prems(1) False x xr Some p True g1 in \<open>auto simp: Let_def t2_def nb_def\<close>)
      next
        case lt: False
        define t3 where "t3 = set_gd g (?gd\<lparr>bg_free_blocks_count := saturating_sub (bg_free_blocks_count ?gd) 1\<rparr>)
          (t2\<lparr>tx_sb := (tx_sb t1)\<lparr>s_free_blocks_count := saturating_sub (s_free_blocks_count (tx_sb t1)) 1\<rparr>\<rparr>)"
        have m3: "moved ?K t t3"
          using m2 by (simp add: t3_def moved_def)
        obtain y t4 where y: "tx_block (unat nb) t3 = (y, t4)" by (rule prod.exhaust)
        have "y = Inr () \<and> blk = nb \<and> t' = tx_put (unat nb) (map (\<lambda>x. 0) (tx_get t4 (unat nb))) t4"
          using Cons.prems(1) False x xr Some p lt y unfolding alloc_zeroed_groups.simps Let_def
          by (auto simp: t2_def[symmetric] nb_def[symmetric] t3_def[symmetric] split: if_splits sum.splits)
        then have r: "blk = nb" "t' = tx_put (unat nb) (map (\<lambda>x. 0) (tx_get t4 (unat nb))) t4"
          by simp_all
        have "moved ?K t3 t4"
          using tx_block_moved[OF y] moved_mono[of "{unat nb}" t3 t4 ?K] r(1) by simp
        then show ?thesis
          using moved_step[OF moved_step[OF m3] moved_put[of "unat nb" ?K]] r by simp
      qed
    qed
  qed
qed simp

lemma tx_data_block_alive:
  assumes "fuse (tx_dev t) = None" "u < capacity (tx_dev t)" "capacity (tx_dev t) \<le> max_blocks"
  obtains t' where "tx_data_block u full t = (Inr (), t')" "moved {u} t t'" "u \<in> set (tx_data t')" "layout t' = layout t"
proof (cases "full \<and> map_of (tx_dirty t) u = None")
  case True
  then have "tx_data_block u full t = (Inr (), (tx_put u zero_block t)\<lparr>tx_data := List.insert u (tx_data t)\<rparr>)"
    by (auto simp: tx_data_block_def tx_bind_def tx_return_def)
  then show thesis
    by (rule that) (auto simp: moved_def layout_def)
next
  case False
  obtain t1 where t1: "tx_block u t = (Inr (), t1)"
    using tx_block_alive[OF assms] by blast
  have "tx_data_block u full t = (Inr (), t1\<lparr>tx_data := List.insert u (tx_data t1)\<rparr>)"
    using t1 False by (auto simp: tx_data_block_def tx_bind_def tx_block_def split: option.splits sum.splits prod.splits)
  then show thesis
    by (rule that) (use tx_block_moved[OF t1] same_layout[OF tx_block_ok(1)[OF t1]] assms in \<open>auto simp: moved_def layout_def\<close>)
qed

lemma tx_write_inode_alive:
  assumes "inode_location (tx_sb t) (tx_gds t) ino = Inr (b, off)" "fuse (tx_dev t) = None" "b < capacity (tx_dev t)" "capacity (tx_dev t) \<le> max_blocks"
  obtains t' where "tx_write_inode ino i t = (Inr (), t')" "moved {b} t t'" "tx_data t' = tx_data t" "tx_gds t' = tx_gds t"
proof -
  obtain t1 where t1: "tx_block b t = (Inr (), t1)"
    using tx_block_alive[OF assms(2-4)] by blast
  have "tx_data t1 = tx_data t" "tx_gds t1 = tx_gds t"
    using tx_block_ok(1)[OF t1] assms by (auto simp: tx_same_def)
  then show thesis
    using that[of "tx_put b (put_bytes (tx_get t1 b) off (enc_inode i)) t1"] t1 assms(1)
      moved_step[OF tx_block_moved[OF t1] moved_put[of b]] by (simp add: tx_write_inode_def)
qed

lemma put_super_alive:
  assumes "fuse (tx_dev t) = None" "0 < capacity (tx_dev t)" "capacity (tx_dev t) \<le> max_blocks"
  obtains t' where "put_super t = (Inr (), t')" "moved {0} t t'" "tx_gds t' = tx_gds t" "tx_data t' = tx_data t"
proof -
  obtain t1 where t1: "tx_block 0 t = (Inr (), t1)"
    using tx_block_alive[OF assms] by blast
  have "tx_gds t1 = tx_gds t" "tx_data t1 = tx_data t"
    using tx_block_ok(1)[OF t1] by (auto simp: tx_same_def max_blocks_def)
  then show thesis
    using that t1 moved_step[OF tx_block_moved[OF t1] moved_put[of 0]] by (simp add: put_super_def)
qed

lemma put_descs_alive:
  "fuse (tx_dev t) = None \<Longrightarrow> capacity (tx_dev t) \<le> max_blocks \<Longrightarrow> \<forall>(g, gd) \<in> set gds. g < n \<Longrightarrow>
   \<forall>u \<in> desc_blocks n. u < capacity (tx_dev t) \<Longrightarrow> \<exists>t'. put_descs gds t = (Inr (), t') \<and> moved (desc_blocks n) t t' \<and> tx_data t' = tx_data t"
proof (induction gds arbitrary: t)
  case (Cons p gds)
  obtain g gd where p: "p = (g, gd)" by (cases p)
  let ?b = "1 + g * GD_SIZE div BS"
  have b: "?b \<in> desc_blocks n"
    using Cons.prems(3) by (auto simp: p desc_blocks_def)
  have cap: "?b < capacity (tx_dev t)"
    using Cons.prems(4) b by blast
  obtain t1 where t1: "tx_block ?b t = (Inr (), t1)"
    using tx_block_alive[OF Cons.prems(1) cap Cons.prems(2)] by blast
  let ?t2 = "tx_put ?b (put_bytes (tx_get t1 ?b) (g * GD_SIZE mod BS) (enc_group_desc gd)) t1"
  have m: "moved (desc_blocks n) t ?t2"
    using moved_step[OF moved_mono[OF tx_block_moved[OF t1]] moved_put] b by blast
  have d: "tx_dev ?t2 = tx_dev t" "tx_data ?t2 = tx_data t"
    using m Cons.prems(1) tx_block_ok(1)[OF t1] cap Cons.prems(2) by (auto simp: moved_def tx_same_def)
  obtain t' where "put_descs gds ?t2 = (Inr (), t')" "moved (desc_blocks n) ?t2 t'" "tx_data t' = tx_data ?t2"
    using Cons.IH[of ?t2] Cons.prems d by auto
  then show ?case
    using t1 moved_step[OF m] d(2) by (simp add: p Let_def)
qed simp

subsection \<open>The commit goes through\<close>

lemma commit_succeeds:
  assumes a: "fuse d = None" and p: "placed j" and cap: "log_start j + log_blocks j \<le> capacity d" "capacity d \<le> max_blocks"
    and t: "length t \<le> JDESC_MAX_TARGETS" "length t + 3 \<le> log_blocks j" "\<forall>x \<in> set t. fst x < fs_blocks j \<and> length (snd x) = BS"
  shows "\<exists>j' d'. commit t j d = (Inr (), j', d') \<and> fuse d' = None \<and> capacity d' = capacity d"
proof (cases "t = []")
  case False
  have sb: "super_block j < capacity d"
    using p cap by (simp add: placed_def)
  have persist: "\<exists>d'. persist_super k e = (Inr (), d') \<and> fuse d' = None \<and> capacity d' = capacity e" if "fuse e = None" "capacity e = capacity d" "super_block k = super_block j" for k e
    using that sb cap(2) by (simp add: persist_super_def write_block_alive)
  have body: "\<exists>d'. commit_body k t e = (Inr (), d') \<and> fuse d' = None \<and> capacity d' = capacity d" if "fuse e = None" "capacity e = capacity d" "geometry k = geometry j" for k e
  proof -
    have "fst x < capacity e" if "x \<in> set (log_writes k t)" for x
    proof -
      obtain q where "fst x = log_block_addr k q"
        using \<open>x \<in> set (log_writes k t)\<close> by (auto simp: log_writes_def)
      moreover have "log_block_addr k q < log_start j + log_blocks j" for q
      proof -
        have "q mod log_blocks k < log_blocks k"
          using p \<open>geometry k = geometry j\<close> by (simp add: placed_def geometry_def)
        moreover have "log_block_addr k q \<le> log_start k + q mod log_blocks k"
          by (simp add: log_block_addr_def wadd_def)
        ultimately show ?thesis
          using \<open>geometry k = geometry j\<close> by (simp add: geometry_def)
      qed
      ultimately show ?thesis
        using cap(1) \<open>capacity e = capacity d\<close> by (metis order_less_le_trans)
    qed
    moreover have "\<forall>x \<in> set t. fst x < capacity e"
      using t(3) p sb that(2) by (auto simp: placed_def)
    ultimately show ?thesis
      using that cap(2) by (simp add: commit_body_def io_bind_def write_all_alive flush_alive)
  qed
  have w: "wadd (length t) 3 = length t + 3" "wadd (length t) 2 = length t + 2"
    using t(1) by (simp_all add: wadd_def JDESC_MAX_TARGETS_def)
  obtain j1 d1 where 1: "(if wsub (log_blocks j) (log_used j) < wadd (length t) 2 then reclaim j d else (Inr (), j, d)) = (Inr (), j1, d1)"
    "fuse d1 = None" "capacity d1 = capacity d" "geometry j1 = geometry j"
  proof (cases "wsub (log_blocks j) (log_used j) < wadd (length t) 2")
    case True
    obtain e where e: "persist_super (j\<lparr>tail := head j\<rparr>) d = (Inr (), e)" "fuse e = None" "capacity e = capacity d"
      using persist[of d "j\<lparr>tail := head j\<rparr>"] a by auto
    then show thesis
      using True that[of "j\<lparr>tail := head j\<rparr>" "e\<lparr>medium := view e, cache := []\<rparr>"]
      by (simp add: reclaim_def Let_def io_bind_def flush_alive geometry_def)
  qed (use that[of j d] a in simp)
  obtain d2 where d2: "commit_body j1 t d1 = (Inr (), d2)" "fuse d2 = None" "capacity d2 = capacity d"
    using body[OF 1(2-4)] by blast
  let ?j2 = "j1\<lparr>head := wadd (wadd (head j1) (length t)) 2 mod log_blocks j1, next_seq := wadd (next_seq j1) 1\<rparr>"
  obtain d3 where d3: "persist_super ?j2 d2 = (Inr (), d3)" "fuse d3 = None" "capacity d3 = capacity d"
    using persist[OF d2(2,3), of ?j2] 1(4) d2(3) by (auto simp: geometry_def)
  have "\<not> list_ex (\<lambda>(target, contents). fs_blocks j1 \<le> target \<or> length contents \<noteq> BS) t"
    using t(3) 1(4) by (force simp: list_ex_iff geometry_def)
  then show ?thesis
    using t 1(1) d2 d3 w False unfolding commit_def Let_def by (simp add: not_less)
qed (use a in \<open>simp add: commit_def\<close>)

subsection \<open>A small write\<close>

text \<open>
  A healthy volume: the device answers and holds the whole volume, and the log has room for the
  metadata blocks one small write can touch: superblock, descriptors, bitmaps and one inode block.
\<close>

definition healthy :: "ext2_fs \<Rightarrow> bool" where
  "healthy fs \<longleftrightarrow> fuse (fs_dev fs) = None \<and> log_start (fs_journal fs) + log_blocks (fs_journal fs) \<le> capacity (fs_dev fs)
     \<and> capacity (fs_dev fs) \<le> max_blocks \<and> unat (s_blocks_count (fs_sb fs)) \<le> fs_blocks (fs_journal fs)
     \<and> 2 * length (fs_gds fs) + 5 \<le> log_blocks (fs_journal fs) \<and> 2 * length (fs_gds fs) + 2 \<le> JDESC_MAX_TARGETS"

lemma healthy_inside: "healthy fs \<Longrightarrow> placed (fs_journal fs) \<Longrightarrow> u < fs_blocks (fs_journal fs) \<Longrightarrow> u < capacity (fs_dev fs)"
  by (simp add: healthy_def placed_def)

lemma healthy_live: "healthy fs \<Longrightarrow> volume_ok fs R \<Longrightarrow> tx_live (tx_new fs)"
proof -
  assume h: "healthy fs" and v: "volume_ok fs R"
  have pl: "placed (fs_journal fs)" and b: "bitmaps (tx_new fs) \<subseteq> {..<fs_blocks (fs_journal fs)}"
    using v by (simp_all add: volume_ok_def)
  have "u < capacity (fs_dev fs)" if "u \<in> bitmaps (tx_new fs)" for u
    using b that by (intro healthy_inside[OF h pl]) auto
  moreover have "fs_blocks (fs_journal fs) < capacity (fs_dev fs)"
    using h pl by (simp add: healthy_def placed_def)
  ultimately show ?thesis
    using h by (simp add: tx_live_def healthy_def)
qed

lemma map_direct_succeeds:
  assumes lv: "tx_live t" and ok: "alloc_ok t" and tk: "takeable t g k" and l: "lbn < 12"
  obtains blk i' t' where "map_or_alloc i lbn t = (Inr blk, i', t')" "moved (insert (unat blk) (bitmaps t)) t t'"
proof (cases "i_block i ! lbn = 0")
  case True
  have "g \<in> set [0..<length (tx_gds t)]"
    using tk by (simp add: takeable_def)
  moreover have gs: "set [0..<length (tx_gds t)] \<subseteq> {..<length (tx_gds t)}"
    by auto
  ultimately obtain blk t' where a: "alloc_zeroed_groups [0..<length (tx_gds t)] t = (Inr blk, t')"
    using alloc_groups_progress[OF lv ok tk] by blast
  then show thesis
    using that True l alloc_zeroed_moved[OF a gs] by (auto simp: map_or_alloc_def ensure_indirect_root_def alloc_zeroed_block_def)
next
  case False
  then show thesis
    using that l by (simp add: map_or_alloc_def ensure_indirect_root_def)
qed

lemma write_blocks_one:
  assumes "map_or_alloc i (pos div BS) t = (Inr blk, i', t1)" "tx_data_block (unat blk) full t1 = (Inr (), t2)"
    "data \<noteq> []" "pos mod BS + length data \<le> BS" "full = (pos mod BS = 0 \<and> length data = BS)"
  shows "write_blocks TX_DATA_BLOCKS i pos data t
    = (Inr (pos + length data, []), i', tx_put (unat blk) (put_bytes (tx_get t2 (unat blk)) (pos mod BS) data) t2)"
proof -
  have k: "TX_DATA_BLOCKS = Suc 63"
    by (simp add: TX_DATA_BLOCKS_def)
  have c: "min (BS - pos mod BS) (length data) = length data"
    using assms(4) by simp
  have e: "write_blocks n x p [] y = (Inr (p, []), x, y)" for n x p y
    by (cases n) simp_all
  show ?thesis
    unfolding k write_blocks.simps(2) Let_def c using assms(1,2,3,5) e by simp
qed

lemma small_write_tx:
  assumes v: "volume_ok fs R" and h: "healthy fs" and f: "file_at fs R ino i" and reg: "is_reg i"
    and d: "data \<noteq> []" "pos mod BS + length data \<le> BS" "pos div BS < 12" and tk: "takeable (tx_new fs) g k"
  obtains t b u where "write_tx ino pos data (tx_new fs) = (Inr (pos + length data, []), t)"
    "moved (bitmaps (tx_new fs) \<union> {b, u}) (tx_new fs) t" "u \<in> set (tx_data t)" "b \<in> tables (tx_new fs)" "u < fs_blocks (fs_journal fs)" "length (tx_gds t) = length (fs_gds fs)"
proof -
  let ?t0 = "tx_new fs"
  have ok: "alloc_ok ?t0" and pl: "placed (fs_journal fs)" and tb: "tables ?t0 \<subseteq> {..<fs_blocks (fs_journal fs)}"
    using v by (simp_all add: volume_ok_def)
  have al: "fuse (fs_dev fs) = None" "capacity (fs_dev fs) \<le> max_blocks"
    using h by (simp_all add: healthy_def)
  have fi: "fs_inode fs ino = Some i" and tr: "tree_ok ?t0 R i"
    using f by (simp_all add: file_at_def)
  obtain b off where loc: "inode_location (fs_sb fs) (fs_gds fs) ino = Inr (b, off)"
    using fi by (auto simp: tx_inode_def split: sum.splits)
  have b: "b \<in> tables ?t0" "b < capacity (fs_dev fs)"
    using inode_location_bounds(3)[OF loc] tb healthy_inside[OF h pl] by (auto simp: tables_def)
  obtain t1 where t1: "tx_block b ?t0 = (Inr (), t1)"
    using tx_block_alive[of ?t0 b] al b by auto
  have m1: "moved {b} ?t0 t1"
    using tx_block_moved[OF t1] .
  have r: "tx_read_inode ino ?t0 = (Inr i, t1)"
    using t1 loc tx_block_ok(2)[OF t1 inode_location_bounds(2)[OF loc]] fi by (simp add: tx_read_inode_def tx_inode_def)
  note ri = tx_read_inode_ok[OF r]
  have ly1: "layout t1 = layout ?t0" and v1: "tx_view t1 = tx_view ?t0" and g1: "tx_gds t1 = fs_gds fs" and d1: "tx_dev t1 = tx_dev ?t0"
    using ri(1) same_layout[OF ri(1)] al by (simp_all add: tx_same_def)
  have ok1: "alloc_ok t1" and lv1: "tx_live t1" and tk1: "takeable t1 g k" and bm1: "bitmaps t1 = bitmaps ?t0"
    using alloc_ok_cong[OF ly1 v1] ok live_cong[OF ly1 v1 d1] healthy_live[OF h v] tk g1 layout_gds(3)[OF ly1] by auto
  have tr1: "tree_ok t1 R i"
    using tree_transfer(1)[OF tr ly1 in_use_cong[OF ly1]] v1 by simp
  obtain blk i2 t2 where m: "map_or_alloc i (pos div BS) t1 = (Inr blk, i2, t2)" and m2: "moved (insert (unat blk) (bitmaps t1)) t1 t2"
    using map_direct_succeeds[OF lv1 ok1 tk1 d(3)] by metis
  obtain P where P: "block_path (pos div BS) = Some P" and gr: "grown t1 R i P blk t2 i2"
    using map_or_alloc_tree[OF m ok1 tr1] .
  have tr2: "tree_ok t2 R i2" and nP: "node (tx_view t2) i2 P = Some blk" and ly2: "layout t2 = layout ?t0"
    using gr grown_node[OF gr block_path_leaf[OF P]] ly1 by (simp_all add: grown_def keeps_def)
  have blkf: "unat blk < fs_blocks (fs_journal fs)"
    using tree_inside(1)[OF v ly2 tr2 leaf_pos_ok[OF block_path_leaf[OF P]] nP] .
  have blk: "unat blk < capacity (fs_dev fs)"
    using healthy_inside[OF h pl blkf] .
  have d2: "tx_dev t2 = fs_dev fs"
    using m2 d1 al by (simp add: moved_def)
  obtain t3 where t3: "tx_data_block (unat blk) (pos mod BS = 0 \<and> length data = BS) t2 = (Inr (), t3)" and m3: "moved {unat blk} t2 t3"
    and d3: "unat blk \<in> set (tx_data t3)" "layout t3 = layout t2"
    using tx_data_block_alive[of t2 "unat blk"] d2 al blk by auto
  let ?t4 = "tx_put (unat blk) (put_bytes (tx_get t3 (unat blk)) (pos mod BS) data) t3"
  have wb: "write_blocks TX_DATA_BLOCKS i pos data t1 = (Inr (pos + length data, []), i2, ?t4)"
    using write_blocks_one[OF m t3 d(1,2)] by simp
  have d4: "tx_dev ?t4 = fs_dev fs" "layout ?t4 = layout ?t0" "unat blk \<in> set (tx_data ?t4)"
    using m3 d2 al ly2 d3 by (simp_all add: moved_def)
  have loc4: "inode_location (tx_sb ?t4) (tx_gds ?t4) ino = Inr (b, off)"
    using loc layout_tables(1)[OF d4(2)] by simp
  define i3 where "i3 = (if unat (i_size i2) < pos + length data then i2\<lparr>i_size := of_nat (pos + length data)\<rparr> else i2)"
  obtain t5 where t5: "tx_write_inode ino i3 ?t4 = (Inr (), t5)" and m5: "moved {b} ?t4 t5" and dd: "tx_data t5 = tx_data ?t4" "tx_gds t5 = tx_gds ?t4"
    using tx_write_inode_alive[OF loc4] d4(1) al b(2) by metis
  have w: "write_tx ino pos data ?t0 = (Inr (pos + length data, []), t5)"
    using r reg wb t5 by (simp add: write_tx_def tx_bind_def Let_def i3_def tx_return_def)
  let ?K = "bitmaps ?t0 \<union> {b, unat blk}"
  have "moved ?K ?t0 t1" "moved ?K t1 t2" "moved ?K t2 t3" "moved ?K t3 ?t4" "moved ?K ?t4 t5"
    using moved_mono[OF m1, of ?K] moved_mono[OF m2, of ?K] moved_mono[OF m3, of ?K] moved_put[of "unat blk" ?K t3] moved_mono[OF m5, of ?K] bm1 by auto
  then have "moved ?K ?t0 t5"
    by (blast intro: moved_step)
  moreover have "length (tx_gds t5) = length (fs_gds fs)"
    using layout_gds(1)[OF d4(2)] dd(2) by simp
  ultimately show thesis
    using that[OF w] d4(3) dd b(1) blkf by auto
qed

lemma card_desc_blocks: "finite (desc_blocks n)" "card (desc_blocks n) \<le> n + 1"
proof -
  show "finite (desc_blocks n)"
    by (simp add: desc_blocks_def)
  have "card ((\<lambda>g. 1 + g * GD_SIZE div BS) ` {..<n}) \<le> n"
    using card_image_le[of "{..<n}"] by simp
  then show "card (desc_blocks n) \<le> n + 1"
    unfolding desc_blocks_def using card_insert_le_m1[of "n + 1"] by (metis add_diff_cancel_right' card_insert_le_m1 zero_less_Suc Suc_eq_plus1)
qed

lemma small_write_commit:
  assumes v: "volume_ok fs R" and h: "healthy fs" and m: "moved (bitmaps (tx_new fs) \<union> {b, u}) (tx_new fs) t"
    and u: "u \<in> set (tx_data t)" "u < fs_blocks (fs_journal fs)" and b: "b \<in> tables (tx_new fs)"
    and g: "length (tx_gds t) = length (fs_gds fs)" and ty: "tx_typed L t" and L: "layout t = layout (tx_new fs)"
  shows "\<exists>fs'. tx_commit t fs = (Inr (), fs') \<and> fuse (fs_dev fs') = None \<and> capacity (fs_dev fs') = capacity (fs_dev fs)"
proof -
  let ?n = "length (fs_gds fs)" and ?j = "fs_journal fs" and ?D = "desc_blocks (length (fs_gds fs))"
  have pl: "placed ?j" and inside: "bitmaps (tx_new fs) \<union> tables (tx_new fs) \<subseteq> {..<fs_blocks ?j}" and ds: "?D \<subseteq> {..<fs_blocks ?j}"
    and al: "fuse (fs_dev fs) = None" and cap: "capacity (fs_dev fs) \<le> max_blocks" "log_start ?j + log_blocks ?j \<le> capacity (fs_dev fs)"
    and room: "2 * ?n + 5 \<le> log_blocks ?j" "2 * ?n + 2 \<le> JDESC_MAX_TARGETS"
    using v h by (auto simp: volume_ok_def healthy_def)
  have fc: "w < capacity (fs_dev fs)" if "w < fs_blocks ?j" for w
    using healthy_inside[OF h pl that] .
  have dt: "tx_dev t = fs_dev fs" and kt: "keys t \<subseteq> bitmaps (tx_new fs) \<union> {b, u}"
    using m al by (simp_all add: moved_def keys_def tx_new_def)
  have z: "0 < capacity (fs_dev fs)"
    using cap(2) room(1) by simp
  obtain t1 where t1: "put_super t = (Inr (), t1)" and m1: "moved {0} t t1" and g1: "tx_gds t1 = tx_gds t" "tx_data t1 = tx_data t"
    using put_super_alive[of t] dt al z cap by auto
  have d1: "tx_dev t1 = fs_dev fs"
    using m1 dt al by (simp add: moved_def)
  have en: "\<forall>(k, gd) \<in> set (enumerate 0 (tx_gds t1)). k < ?n"
    using g1 g by (auto simp: in_set_enumerate_eq)
  obtain t2 where t2: "put_descs (enumerate 0 (tx_gds t1)) t1 = (Inr (), t2)" and m2: "moved ?D t1 t2" and dd: "tx_data t2 = tx_data t"
    using put_descs_alive[of t1 "enumerate 0 (tx_gds t1)" ?n] d1 al cap en ds fc g1(2) by auto
  have ty2: "tx_typed L t2"
    using keeps_invD[OF typed_put_all _ ty, of "Inr ()" t2] t1 t2 by (simp add: tx_bind_def)
  have d2: "tx_dev t2 = fs_dev fs"
    using m2 d1 al by (simp add: moved_def)
  have k2: "keys t2 \<subseteq> bitmaps (tx_new fs) \<union> {b, u} \<union> ?D"
    using m1 m2 kt unfolding moved_def desc_blocks_def by blast
  have kf: "w < fs_blocks ?j" if "w \<in> keys t2" for w
    using k2 that inside ds b u(2) by blast
  have dk: "x \<in> set (dirty_data t2) \<or> x \<in> set (dirty_meta t2) \<Longrightarrow> fst x \<in> keys t2" for x
    by (auto simp: dirty_data_def dirty_meta_def keys_def)
  have "\<forall>x \<in> set (dirty_data t2). fst x < capacity (tx_dev t2)"
    using fc kf dk d2 by simp
  then obtain d3 where d3: "write_all (dirty_data t2) (tx_dev t2) = (Inr (), d3)" "fuse d3 = None" "capacity d3 = capacity (fs_dev fs)"
    using write_all_alive[of "tx_dev t2" "dirty_data t2"] d2 al cap by auto
  note dp = dirty_parts[OF ty2]
  have mk: "fst ` set (dirty_meta t2) \<subseteq> bitmaps (tx_new fs) \<union> {b} \<union> ?D"
    using k2 dk dp(4) dd u(1) by fastforce
  have bm: "finite (bitmaps (tx_new fs))" "card (bitmaps (tx_new fs)) \<le> ?n"
    using card_image_le[of "{..<?n}" "bbm_of (tx_new fs)"] by (auto simp: bitmaps_def)
  have "length (dirty_meta t2) = card (fst ` set (dirty_meta t2))"
    using distinct_card[OF dp(2)] by simp
  also have "\<dots> \<le> card (bitmaps (tx_new fs) \<union> {b} \<union> ?D)"
    using bm(1) card_desc_blocks(1) by (intro card_mono mk) simp
  also have "\<dots> \<le> card (bitmaps (tx_new fs)) + 1 + card ?D"
    using card_Un_le[of "bitmaps (tx_new fs) \<union> {b}" ?D] card_Un_le[of "bitmaps (tx_new fs)" "{b}"] by simp
  finally have len: "length (dirty_meta t2) \<le> 2 * ?n + 2"
    using bm(2) card_desc_blocks(2)[of ?n] by simp
  have "\<forall>x \<in> set (dirty_meta t2). fst x < fs_blocks ?j \<and> length (snd x) = BS"
    using kf dk ty2 dp(4) by (force simp: tx_typed_def)
  then obtain j' d4 where "commit (dirty_meta t2) ?j d3 = (Inr (), j', d4)" "fuse d4 = None" "capacity d4 = capacity (fs_dev fs)"
    using commit_succeeds[OF d3(2) pl, of "dirty_meta t2"] d3(3) cap len room by auto
  then show ?thesis
    using t1 t2 d3(1) dp(5) by (simp add: tx_commit_def tx_bind_def)
qed

end
