(* ===== verification/Ext2Props.thy ===== *)
theory Ext2Props
  imports Ext2Free
begin

section \<open>Properties of the transaction layer\<close>

text \<open>
  The inode store, the block map and the allocator of the transaction layer as the file system
  operations use them, and what becomes of the indirect blocks a truncation empties.
\<close>

subsection \<open>A small file system\<close>

text \<open>
  One group of 40 blocks, the first ten in use: bitmaps in blocks 3 and 4, the inode table in
  block 5, and a double-indirect tree over the blocks 6, 7 and 8.
\<close>

definition demo_bitmap :: bytes where
  "demo_bitmap = 0xFF # 0x03 # replicate 4094 0"

definition demo_tx :: tx where
  "demo_tx =
     \<lparr>tx_dev = \<lparr>medium = (\<lambda>u. if u = 3 then demo_bitmap else zero_block), cache = [], capacity = 64, fuse = None\<rparr>,
      tx_sb = (dec_super_block (replicate 1024 0))\<lparr>s_blocks_count := 40, s_first_data_block := 0,
        s_blocks_per_group := 32768, s_inodes_count := 32, s_inodes_per_group := 32, s_rev_level := 0\<rparr>,
      tx_gds = [(dec_group_desc (replicate 32 0))\<lparr>bg_block_bitmap := 3, bg_inode_bitmap := 4, bg_inode_table := 5,
        bg_free_blocks_count := 30\<rparr>],
      tx_dirty = [(6, write_u32 zero_block 0 7), (7, write_u32 zero_block 0 8)], tx_data = []\<rparr>"

lemma demo_bitmap_bits: "i < 32768 \<Longrightarrow> wl_test demo_bitmap i \<longleftrightarrow> i < 10"
proof -
  assume i: "i < 32768"
  have m: "(0xFF :: u8) = mask 8" "(0x03 :: u8) = mask 2"
    by (simp_all add: mask_eq_exp_minus_1)
  have b: "bit (mask n :: u8) k \<longleftrightarrow> k < 8 \<and> k < n" for n k
    by (simp add: bit_mask_iff)
  have q: "i = i div 8 * 8 + i mod 8" "i mod 8 < 8"
    by simp_all
  consider "i div 8 = 0" | "i div 8 = 1" | k where "i div 8 = Suc (Suc k)"
    by (cases "i div 8") (auto, metis One_nat_def old.nat.exhaust)
  then show ?thesis
  proof cases
    case 1
    then have "wl_test demo_bitmap i \<longleftrightarrow> bit (0xFF :: u8) (i mod 8)"
      by (simp add: wl_test_iff demo_bitmap_def)
    then show ?thesis using 1 q unfolding m b by linarith
  next
    case 2
    then have "wl_test demo_bitmap i \<longleftrightarrow> bit (0x03 :: u8) (i mod 8)"
      by (simp add: wl_test_iff demo_bitmap_def)
    then show ?thesis using 2 q unfolding m b by linarith
  next
    case (3 k)
    then have "k < 4094"
      using i by simp
    then show ?thesis
      using 3 q by (simp add: wl_test_iff demo_bitmap_def)
  qed
qed

lemma demo_view: "tx_view demo_tx u = (if u = 3 then demo_bitmap else if u = 6 then write_u32 zero_block 0 7
    else if u = 7 then write_u32 zero_block 0 8 else zero_block)"
  by (simp add: tx_view_def demo_tx_def view_def)

lemma demo_geometry:
  "length (tx_gds demo_tx) = 1" "bbm_of demo_tx 0 = 3" "bitmaps demo_tx = {3}" "s_blocks_count (tx_sb demo_tx) = 40"
  "fuse (tx_dev demo_tx) = None" "capacity (tx_dev demo_tx) = 64" "bg_free_blocks_count (tx_gds demo_tx ! 0) = 30"
  by (simp_all add: demo_tx_def bbm_of_def bitmaps_def lessThan_Suc)

lemma demo_in_use: "in_use demo_tx = {..<10}"
proof -
  have "in_use demo_tx = {i. i < 32768 \<and> wl_test demo_bitmap i}"
    by (auto simp: in_use_def demo_geometry demo_view)
  also have "\<dots> = {i. i < 32768 \<and> i < 10}"
    using demo_bitmap_bits by blast
  also have "\<dots> = {..<10}"
    by auto
  finally show ?thesis .
qed

lemma demo_ok: "alloc_ok demo_tx" "tx_live demo_tx" "takeable demo_tx 0 10"
proof -
  have "length (tx_view demo_tx u) = BS" for u
    by (simp add: demo_view demo_bitmap_def zero_block_def write_u32_def buf_simps BS_def)
  moreover have "s_first_data_block (tx_sb demo_tx) = 0" "s_blocks_per_group (tx_sb demo_tx) = 32768"
    by (simp_all add: demo_tx_def)
  ultimately show "alloc_ok demo_tx"
    by (simp add: alloc_ok_def demo_geometry demo_in_use lessThan_Suc)
  show "tx_live demo_tx" "takeable demo_tx 0 10"
    by (simp_all add: tx_live_def takeable_def demo_geometry demo_in_use max_blocks_def)
qed

lemma demo_ptrs:
  "k < 1024 \<Longrightarrow> ptr (tx_view demo_tx 6) k = (if k = 0 then 7 else 0)"
  "k < 1024 \<Longrightarrow> ptr (tx_view demo_tx 7) k = (if k = 0 then 8 else 0)"
  using ptr_write[of zero_block 0 k] by (simp_all add: demo_view ptr_zero length_zero_block)

text \<open>
  C30: emptying an indirect block in the middle of the tree loses it.  When \<^verbatim>\<open>clear_slot\<close> removes
  the only leaf below a child indirect block, it frees the leaf and clears the pointer to the
  child, but the child stays marked in the bitmap although nothing points to it any more; it
  is neither reachable from the file nor free, and it is not counted in the blocks freed.
\<close>

theorem clear_slot_leaks_child:
  assumes c: "clear_slot ind [s, s'] t = (Inr (e, n), t')" and ok: "alloc_ok t" and s: "s < 1024" "s' < 1024"
    and child: "child = ptr (tx_view t (unat ind)) s" "child \<noteq> 0" "unat child \<in> in_use t - bitmaps t" "child \<noteq> ind" "unat ind \<notin> bitmaps t"
    and leaf: "leaf = ptr (tx_view t (unat child)) s'" "leaf \<noteq> 0" "unat leaf \<notin> bitmaps t" "leaf \<noteq> child"
    and only: "\<forall>k < 1024. k \<noteq> s' \<longrightarrow> ptr (tx_view t (unat child)) k = 0" "\<forall>k < 1024. k \<noteq> s \<longrightarrow> ptr (tx_view t (unat ind)) k \<noteq> child"
  shows "n = 1 \<and> unat leaf \<notin> in_use t' \<and> unat child \<in> in_use t' \<and> (\<forall>k < 1024. ptr (tx_view t' (unat ind)) k \<noteq> child)"
proof -
  obtain t1 where t1: "tx_block (unat ind) t = (Inr (), t1)"
    using c by (auto split: prod.splits sum.splits)
  note s1 = tx_block_ok[OF t1 unat_u32_blocks]
  have v1: "tx_view t1 = tx_view t" and ly1: "layout t1 = layout t"
    using s1(1) same_layout by (auto simp: tx_same_def)
  have ok1: "alloc_ok t1" and bm1: "bitmaps t1 = bitmaps t" and iu1: "in_use t1 = in_use t"
    using alloc_ok_cong[OF ly1 v1] ok layout_gds(3)[OF ly1] in_use_cong[OF ly1] v1 by simp_all
  obtain e2 n2 t2 where t2: "clear_slot child [s'] t1 = (Inr (e2, n2), t2)"
    using c t1 s1(2) child(1,2) by (auto simp del: clear_slot.simps(2) simp: clear_slot.simps(2)[of ind] ptr_def Let_def split: prod.splits sum.splits if_splits)
  note cl = clear_leaf[OF t2 ok1 s(2)]
  have "unat child \<noteq> unat ind" "unat leaf \<noteq> unat child"
    using child(4) leaf(4) by (simp_all add: word_unat_eq_iff)
  then have e2: "e2" "n2 = 1" "in_use t2 = in_use t - {unat leaf}" "tx_view t2 (unat ind) = tx_view t (unat ind)" "layout t2 = layout t" "alloc_ok t2"
    using cl v1 bm1 iu1 ly1 child leaf only(1) by auto
  have "in_dirty t2 (unat ind)"
    using clear_slot_dirty[OF t2] tx_block_dirty(2)[OF t1] by blast
  then have g: "tx_get t2 (unat ind) = tx_view t (unat ind)"
    using in_dirty_get e2(4) by simp
  define w where "w = write_u32 (tx_view t (unat ind)) (s * 4) 0"
  have len: "length (tx_view t (unat ind)) = BS"
    using ok by (rule alloc_ok_sel)
  have r: "n = 1" "t' = tx_put (unat ind) w t2"
    using c t1 s1(2) child(1,2) t2 e2(1,2) g by (simp_all add: clear_slot.simps(2)[of ind] ptr_def Let_def w_def del: clear_slot.simps(2))
  have b2: "unat ind \<notin> bitmaps t2"
    using child(5) layout_gds(3)[OF e2(5)] by simp
  have "length w = BS"
    using len s(1) by (simp add: w_def write_u32_def buf_simps BS_def)
  then have "in_use t' = in_use t - {unat leaf}"
    using alloc_ok_put(2)[OF e2(6) b2] e2(3) r(2) by simp
  moreover have "ptr (tx_view t' (unat ind)) k \<noteq> child" if "k < 1024" for k
    using ptr_write[OF len s(1) that, of 0] only(2) that child(2) by (auto simp: r(2) w_def)
  ultimately show ?thesis
    using r(1) child(3) \<open>unat leaf \<noteq> unat child\<close> by auto
qed

theorem clear_slot_leaks_child_witness:
  "\<exists>e n t'. clear_slot 6 [0, 0] demo_tx = (Inr (e, n), t') \<and> n = 1 \<and> 8 \<notin> in_use t' \<and> 7 \<in> in_use t'
     \<and> (\<forall>k < 1024. ptr (tx_view t' 6) k \<noteq> 7)"
proof -
  have b: "tx_block 6 demo_tx = (Inr (), demo_tx)" "tx_block 7 demo_tx = (Inr (), demo_tx)"
    by (simp_all add: tx_block_def demo_tx_def)
  have g: "read_u32 (tx_get demo_tx 6) 0 = 7" "read_u32 (tx_get demo_tx 7) 0 = 8"
    using demo_ptrs[of 0] by (simp_all add: ptr_def in_dirty_get in_dirty_def demo_tx_def)
  obtain t1 where f: "free_data_block 8 demo_tx = (Inr (), t1)"
    using free_data_block_alive[OF demo_ok(2,1), of 8] demo_geometry by auto
  obtain e n t' where c: "clear_slot 6 [0, 0] demo_tx = (Inr (e, n), t')"
    using b g f by (simp add: Let_def)
  show ?thesis
    using clear_slot_leaks_child[OF c demo_ok(1), of 7 8] c by (simp add: demo_ptrs demo_in_use demo_geometry)
qed

end
