(* ===== verification/Ext2Files.thy ===== *)
theory Ext2Files
  imports Ext2Live Ext2Props
begin

section \<open>Reading and writing files\<close>

text \<open>
  The contents of a file under \<^verbatim>\<open>write_file\<close> and \<^verbatim>\<open>read_file\<close>: a write that succeeds overwrites
  exactly its piece, a read returns what was written, and a small write succeeds.
\<close>

subsection \<open>A volume\<close>

text \<open>
  One group of 40 blocks with the journal behind it: bitmaps in blocks 3 and 4, the inode table in
  block 5, and an empty regular file as inode 2.  The blocks from 10 to 39 are free.
\<close>

definition vol_bitmap :: bytes where
  "vol_bitmap = 0xFF # 0x03 # 0 # 0 # 0 # replicate 4091 0xFF"

definition vol_table :: bytes where
  "vol_table = put_bytes zero_block 128 (enc_inode new_file_inode)"

definition vol :: ext2_fs where
  "vol = \<lparr>fs_dev = \<lparr>medium = (\<lambda>u. if u = 3 then vol_bitmap else if u = 5 then vol_table else zero_block), cache = [], capacity = 128, fuse = None\<rparr>,
     fs_sb = (dec_super_block (replicate 1024 0))\<lparr>s_blocks_count := 40, s_first_data_block := 0,
       s_blocks_per_group := 32768, s_inodes_count := 32, s_inodes_per_group := 32, s_rev_level := 0\<rparr>,
     fs_gds = [(dec_group_desc (replicate 32 0))\<lparr>bg_block_bitmap := 3, bg_inode_bitmap := 4, bg_inode_table := 5, bg_free_blocks_count := 30\<rparr>],
     fs_journal = \<lparr>super_block = 40, log_start = 41, log_blocks = 64, fs_blocks = 40, head = 0, tail = 0, next_seq = 1\<rparr>\<rparr>"

definition vol_reserved :: "nat set" where
  "vol_reserved = {..<10} \<union> {40..<32768}"

lemma vol_bitmap_bits: "i < 32768 \<Longrightarrow> wl_test vol_bitmap i \<longleftrightarrow> i < 10 \<or> 40 \<le> i"
proof -
  assume i: "i < 32768"
  have n: "vol_bitmap ! k = (if k = 0 then mask 8 else if k = 1 then mask 2 else if k < 5 then 0 else mask 8)" if "k < 4096" for k
    using that by (auto simp: vol_bitmap_def nth_Cons' mask_eq_exp_minus_1)
  have b: "bit (mask c :: u8) k \<longleftrightarrow> k < 8 \<and> k < c" for c k
    by (simp add: bit_mask_iff)
  have "i < 10 \<longleftrightarrow> i div 8 = 0 \<or> i div 8 = 1 \<and> i mod 8 < 2" "40 \<le> i \<longleftrightarrow> 5 \<le> i div 8"
    by presburger+
  moreover have "wl_test vol_bitmap i \<longleftrightarrow> bit (vol_bitmap ! (i div 8)) (i mod 8)"
    using less_mult_imp_div_less[of i 4096 8] i by (simp add: wl_test_iff vol_bitmap_def)
  ultimately show ?thesis
    using i n[of "i div 8"] by (auto simp: b)
qed

lemma vol_sel [simp]:
  "view (fs_dev vol) u = (if u = 3 then vol_bitmap else if u = 5 then vol_table else zero_block)"
  "length (fs_gds vol) = 1" "fs_blocks (fs_journal vol) = 40" "bitmaps (tx_new vol) = {3}"
  "tables (tx_new vol) = {5}" "desc_blocks (Suc 0) = {0, 1}"
proof -
  have "{5..<6} = {5 :: nat}"
    by auto
  then show "view (fs_dev vol) u = (if u = 3 then vol_bitmap else if u = 5 then vol_table else zero_block)"
    "length (fs_gds vol) = 1" "fs_blocks (fs_journal vol) = 40" "bitmaps (tx_new vol) = {3}" "tables (tx_new vol) = {5}" "desc_blocks (Suc 0) = {0, 1}"
    by (simp_all add: vol_def view_def bitmaps_def bbm_of_def tables_def table_blocks_def inode_size_def INODE_SIZE_def BS_def
        lessThan_Suc desc_blocks_def)
qed

lemma vol_lengths: "length (view (fs_dev vol) u) = BS"
  by (simp add: vol_bitmap_def vol_table_def buf_simps BS_def)

lemma vol_in_use: "in_use (tx_new vol) = vol_reserved"
proof -
  have "bbm_of (tx_new vol) 0 = 3"
    by (simp add: vol_def bbm_of_def)
  then have "in_use (tx_new vol) = {i. i < 32768 \<and> wl_test vol_bitmap i}"
    by (auto simp: in_use_def)
  also have "\<dots> = vol_reserved"
    using vol_bitmap_bits by (auto simp: vol_reserved_def)
  finally show ?thesis .
qed

lemma vol_ok: "volume_ok vol vol_reserved" "healthy vol" "takeable (tx_new vol) 0 10"
proof -
  have typed: "fs_typed (layout (tx_new vol)) (geometry (fs_journal vol)) vol"
    using vol_lengths
    by (simp add: fs_typed_def tx_typed_def tx_new_def dev_typed_def vol_def view_def wf_super_block_def wf_group_desc_def dec_super_block_def
        dec_group_desc_def buf_simps)
  have "alloc_ok (tx_new vol)"
    using vol_lengths by (simp add: alloc_ok_def vol_in_use vol_reserved_def lessThan_Suc) (simp add: vol_def)
  moreover have "meta_ok (tx_new vol) vol_reserved"
    using vol_sel(5) by (simp add: meta_ok_def tables_ok_def tables_def vol_reserved_def lessThan_Suc)
  moreover have "placed (fs_journal vol)"
    by (simp add: placed_def vol_def max_blocks_def)
  ultimately show "volume_ok vol vol_reserved"
    using typed vol_in_use by (auto simp: volume_ok_def vol_reserved_def)
  show "healthy vol" "takeable (tx_new vol) 0 10"
    by (simp_all add: healthy_def takeable_def vol_in_use) (simp_all add: vol_def max_blocks_def JDESC_MAX_TARGETS_def vol_reserved_def)
qed

lemma vol_file: "file_at vol vol_reserved 2 new_file_inode" "is_reg new_file_inode"
proof -
  have z: "i_block new_file_inode = replicate 15 0"
    by (simp add: new_file_inode_def zeroed_def)
  have n: "node v new_file_inode P = None" if "pos_ok P" for v P
    using that by (cases P) (auto simp: node_def z pos_ok_def)
  have "fs_inode vol 2 = Some new_file_inode"
  proof -
    have "inode_location (fs_sb vol) (fs_gds vol) 2 = Inr (5, 128)"
      by (simp add: inode_location_def vol_def inode_size_def INODE_SIZE_def BS_def Let_def)
    then show ?thesis
      using dec_enc_inode[OF wf_new_inodes(2)] by (simp add: tx_inode_def vol_table_def put_bytes_def BS_def)
  qed
  moreover have "tree_ok (tx_new vol) vol_reserved new_file_inode"
    unfolding tree_ok_def using n vol_in_use by (auto simp: z vol_reserved_def simp del: split_paired_All)
  moreover have "file_byte v new_file_inode k = 0" for v k
    using n block_path_leaf[of "k div BS"] leaf_pos_ok by (auto simp: file_byte_def block_lookup_node split: option.splits)
  ultimately show "file_at vol vol_reserved 2 new_file_inode"
    by (simp add: file_at_def)
  show "is_reg new_file_inode"
    by (simp add: is_reg_def new_file_inode_def S_IFREG_def)
qed

subsection \<open>Writing\<close>

lemma small_write:
  assumes v: "volume_ok fs R" and h: "healthy fs" and f: "file_at fs R ino i" and reg: "is_reg i" and tk: "takeable (tx_new fs) g k"
    and d: "data \<noteq> []" "off mod BS + length data \<le> BS" "off div BS < 12"
  shows "\<exists>fs'. write_file ino off data fs = (Inr (length data), fs') \<and> contents fs' ino = overwrite off data (contents fs ino)
    \<and> fuse (fs_dev fs') = None \<and> capacity (fs_dev fs') = capacity (fs_dev fs)"
proof -
  have "off < 12 * BS"
    using d(3) by (simp add: div_less_iff_less_mult BS_def)
  then have fit: "off + length data < 2 ^ 32"
    using d(2) by (simp add: BS_def)
  obtain t b u where w: "write_tx ino off data (tx_new fs) = (Inr (off + length data, []), t)"
    and m: "moved (bitmaps (tx_new fs) \<union> {b, u}) (tx_new fs) t" "u \<in> set (tx_data t)" "b \<in> tables (tx_new fs)" "u < fs_blocks (fs_journal fs)"
      "length (tx_gds t) = length (fs_gds fs)"
    using small_write_tx[OF v h f reg d tk] .
  have ty: "tx_typed (layout (tx_new fs)) t"
    using keeps_invD[OF typed_write_tx w] v by (simp add: volume_ok_def fs_typed_def)
  obtain fs' where c: "tx_commit t fs = (Inr (), fs')" "fuse (fs_dev fs') = None" "capacity (fs_dev fs') = capacity (fs_dev fs)"
    using small_write_commit[OF v h m(1,2,4,3,5) ty] ty by (auto simp: tx_typed_def)
  have r: "run_tx (write_tx ino off data) fs = (Inr (off + length data, []), fs')"
    using w c(1) by (simp add: run_tx_def fs_bind_def)
  then have l: "write_loop ino off data fs = (Inr (), fs')"
    using d(1) by (simp add: write_loop.simps[of ino off data] write_loop.simps[of ino _ "[]"])
  then have "write_file ino off data fs = (Inr (length data), fs')"
    using d(1) fit by (simp add: write_file_def fs_bind_def)
  moreover obtain i' where wr: "wrote fs R ino i off data fs' i'"
    using write_loop_ok[OF l v f fit d(1)] by blast
  ultimately show ?thesis
    using wrote_contents[OF wr f] c(2,3) by blast
qed

text \<open>
  C3: \<^verbatim>\<open>write_file\<close> overwrites exactly the bytes it is given.  A call that succeeds, over however
  many transactions, leaves the file with the new bytes at their offset, a gap behind the old end
  filled with zeros and every other byte of the file as it was; the volume stays sound, and every
  other file that shares no block with this one keeps its inode and its contents.
\<close>

theorem write_file_overwrites:
  assumes w: "write_file ino off data fs = (Inr n, fs')" and v: "volume_ok fs R" and f: "file_at fs R ino i" and ne: "data \<noteq> []"
  shows "n = length data \<and> volume_ok fs' R \<and> (\<exists>i'. file_at fs' R ino i')
    \<and> contents fs' ino = overwrite off data (contents fs ino)
    \<and> (\<forall>k. k \<noteq> ino \<and> apart fs R k \<longrightarrow> fs_inode fs' k = fs_inode fs k \<and> contents fs' k = contents fs k)"
proof -
  have l: "write_loop ino off data fs = (Inr (), fs')" "n = length data" and fit: "off + length data < 2 ^ 32"
    using w ne by (auto simp: write_file_def fs_bind_def split: if_splits prod.splits sum.splits)
  obtain i' where wr: "wrote fs R ino i off data fs' i'"
    using write_loop_ok[OF l(1) v f fit ne] by blast
  show ?thesis
    using l(2) wr wrote_contents[OF wr f] unfolding wrote_def by blast
qed


theorem write_file_overwrites_witness:
  "\<exists>fs'. write_file 2 5 [1, 2, 3] vol = (Inr 3, fs') \<and> volume_ok fs' vol_reserved \<and> contents fs' 2 = [0, 0, 0, 0, 0, 1, 2, 3]"
proof -
  obtain fs' where w: "write_file 2 5 [1, 2, 3] vol = (Inr 3, fs')"
    using small_write[OF vol_ok(1,2) vol_file vol_ok(3), of "[1, 2, 3]" 5] by (auto simp: BS_def)
  have "contents vol 2 = []"
    using vol_file(1) by (simp add: file_at_def contents_def new_file_inode_def)
  then show ?thesis
    using write_file_overwrites[OF w vol_ok(1) vol_file(1)] w by (simp add: overwrite_def numeral_eq_Suc)
qed

text \<open>
  C13: a small write succeeds.  On a sound volume whose device answers and whose log has room for
  the metadata, a write to a regular file that stays inside one of its first twelve blocks returns
  the number of bytes asked for whenever a block is free, and the file then holds the bytes.
\<close>

theorem small_write_succeeds:
  assumes v: "volume_ok fs R" and h: "healthy fs" and f: "file_at fs R ino i" and reg: "is_reg i" and tk: "takeable (tx_new fs) g k"
    and d: "data \<noteq> []" "off mod BS + length data \<le> BS" "off div BS < 12"
  shows "\<exists>fs'. write_file ino off data fs = (Inr (length data), fs') \<and> contents fs' ino = overwrite off data (contents fs ino)"
  using small_write[OF assms] by blast

theorem small_write_succeeds_witness:
  "\<exists>fs'. write_file 2 4095 [7] vol = (Inr 1, fs') \<and> contents fs' 2 = overwrite 4095 [7] (contents vol 2)"
  using small_write_succeeds[OF vol_ok(1,2) vol_file vol_ok(3), of "[7]" 4095] by (simp add: BS_def)

subsection \<open>Reading\<close>

lemma read_inode_view: "fs_read_inode fs ino (fs_dev fs) = (Inr i, d) \<Longrightarrow> fs_inode fs ino = Some i \<and> view d = view (fs_dev fs)"
proof -
  assume r: "fs_read_inode fs ino (fs_dev fs) = (Inr i, d)"
  obtain b off where loc: "inode_location (fs_sb fs) (fs_gds fs) ino = Inr (b, off)"
    using r by (auto simp: fs_read_inode_def split: sum.splits)
  obtain buf where "read_block b (fs_dev fs) = (Inr buf, d)" "i = dec_inode (drop off buf)"
    using r loc by (auto simp: fs_read_inode_def io_bind_def io_return_def split: prod.splits sum.splits)
  then show ?thesis
    using read_block_view inode_location_bounds(2)[OF loc] loc by (auto simp: tx_inode_def)
qed

lemma read_file_contents:
  assumes r: "read_file fs ino off len (fs_dev fs) = (Inr bs, d)" and t: "dev_typed (fs_dev fs)"
  shows "bs = take len (drop off (contents fs ino))"
proof -
  obtain i d1 where i: "fs_read_inode fs ino (fs_dev fs) = (Inr i, d1)"
    using r by (auto simp: read_file_def io_bind_def split: prod.splits sum.splits)
  note ri = read_inode_view[OF i]
  let ?sz = "unat (i_size i)"
  have c: "contents fs ino = map (file_byte (view (fs_dev fs)) i) [0..<?sz]"
    using ri by (simp add: contents_def)
  show ?thesis
  proof (cases "?sz \<le> off")
    case True
    then show ?thesis
      using r i by (simp add: read_file_def io_bind_def io_return_def c)
  next
    case False
    have l: "read_loop i off (min len (?sz - off)) d1 = (Inr bs, d)"
      using r i False by (simp add: read_file_def io_bind_def Let_def)
    have "length (view d1 u) = BS" for u
      using ri dev_typed_view[OF t] by simp
    from read_loop_ok[OF l this] have "bs = map (file_byte (view (fs_dev fs)) i) [off..<off + min len (?sz - off)]"
      using ri by simp
    also have "\<dots> = take len (drop off (contents fs ino))"
      using False by (auto simp: c drop_map take_map min_def)
    finally show ?thesis .
  qed
qed

text \<open>
  C11: a read sees the writes.  After a successful write every read of the file that succeeds
  returns the requested bytes of the overwritten contents, cut off at the end of the file; in
  particular the range just written reads back as the bytes that were written.
\<close>

theorem write_then_read:
  assumes w: "write_file ino off data fs = (Inr n, fs')" and v: "volume_ok fs R" and f: "file_at fs R ino i" and ne: "data \<noteq> []"
    and r: "read_file fs' ino pos len (fs_dev fs') = (Inr bs, d)"
  shows "bs = take len (drop pos (overwrite off data (contents fs ino))) \<and> (pos = off \<and> len = length data \<longrightarrow> bs = data)"
proof -
  have l: "write_loop ino off data fs = (Inr (), fs')" and fit: "off + length data < 2 ^ 32"
    using w ne by (auto simp: write_file_def fs_bind_def split: if_splits prod.splits sum.splits)
  obtain i' where wr: "wrote fs R ino i off data fs' i'"
    using write_loop_ok[OF l v f fit ne] by blast
  have "dev_typed (fs_dev fs')"
    using wr by (simp add: wrote_def volume_ok_def fs_typed_def tx_typed_def)
  from read_file_contents[OF r this] have "bs = take len (drop pos (overwrite off data (contents fs ino)))"
    using wrote_contents[OF wr f] by simp
  moreover have "take (length data) (drop off (overwrite off data c)) = data" for c
    by (simp add: overwrite_def min_def)
  ultimately show ?thesis
    by auto
qed

lemma read_direct_alive:
  assumes a: "fuse (fs_dev fs) = None" "capacity (fs_dev fs) \<le> max_blocks" and loc: "inode_location (fs_sb fs) (fs_gds fs) ino = Inr (b, o')" "b < capacity (fs_dev fs)"
    and i: "fs_inode fs ino = Some i" and k: "off div BS < 12" "off mod BS + len \<le> BS" "unat (i_block i ! (off div BS)) < capacity (fs_dev fs)"
  shows "\<exists>bs. read_file fs ino off len (fs_dev fs) = (Inr bs, fs_dev fs)"
proof -
  let ?d = "fs_dev fs"
  have ri: "fs_read_inode fs ino ?d = (Inr i, ?d)"
    using a loc i by (simp add: fs_read_inode_def io_bind_def io_return_def read_block_alive tx_inode_def)
  have "\<exists>bs. read_loop i off n ?d = (Inr bs, ?d)" if "n \<le> len" for n
  proof (cases "n = 0")
    case False
    have c: "min (BS - off mod BS) n = n"
      using k(2) that by simp
    have bo: "block_for_offset i off ?d = (Inr (nonzero (i_block i ! (off div BS))), ?d)"
      using k(1) by (simp add: block_for_offset_def Let_def io_return_def)
    have z: "read_loop i p 0 ?d = (Inr [], ?d)" for p
      by (simp add: read_loop.simps io_return_def)
    show ?thesis
      using False bo z a k(3) unfolding read_loop.simps[of i off n] Let_def c
      by (simp add: io_bind_def io_return_def nonzero_def read_block_alive)
  qed (simp add: read_loop.simps io_return_def)
  from this[of "min len (unat (i_size i) - off)"] show ?thesis
    using ri by (simp add: read_file_def io_bind_def Let_def io_return_def)
qed

theorem write_then_read_witness:
  "\<exists>fs' d. write_file 2 5 [1, 2, 3] vol = (Inr 3, fs') \<and> read_file fs' 2 5 3 (fs_dev fs') = (Inr [1, 2, 3], d)"
proof -
  obtain fs' where w: "write_file 2 5 [1, 2, 3] vol = (Inr 3, fs')" and a: "fuse (fs_dev fs') = None" "capacity (fs_dev fs') = 128"
    using small_write[OF vol_ok(1,2) vol_file vol_ok(3), of "[1, 2, 3]" 5] by (auto simp: BS_def vol_def)
  have l: "write_loop 2 5 [1, 2, 3] vol = (Inr (), fs')"
    using w by (auto simp: write_file_def fs_bind_def split: if_splits prod.splits sum.splits)
  obtain i' where wr: "wrote vol vol_reserved 2 new_file_inode 5 [1, 2, 3] fs' i'"
    using write_loop_ok[OF l vol_ok(1) vol_file(1)] by auto
  have v: "volume_ok fs' vol_reserved" and f: "fs_inode fs' 2 = Some i'" "tree_ok (tx_new fs') vol_reserved i'"
    using wr by (simp_all add: wrote_def file_at_def)
  have "fs_typed (layout (tx_new vol)) (geometry (fs_journal vol)) fs'"
    using keeps_invD[OF typed_write_file w] vol_ok(1) by (simp add: volume_ok_def)
  then have fb: "fs_blocks (fs_journal fs') = 40"
    by (simp add: fs_typed_def geometry_def vol_def)
  obtain b o' where loc: "inode_location (fs_sb fs') (fs_gds fs') 2 = Inr (b, o')"
    using f(1) by (auto simp: tx_inode_def split: sum.splits)
  have "b \<in> tables (tx_new fs')"
    using inode_location_bounds(3)[OF loc] by (auto simp: tables_def)
  then have b: "b < capacity (fs_dev fs')"
    using v fb a by (auto simp: volume_ok_def)
  have p: "unat (i_block i' ! 0) < capacity (fs_dev fs')"
  proof (cases "i_block i' ! 0 = 0")
    case False
    then have "node (tx_view (tx_new fs')) i' (0, []) = Some (i_block i' ! 0)"
      by (simp add: node_def nonzero_def)
    from tree_inside(1)[OF v refl f(2) _ this] show ?thesis
      using fb a by (simp add: pos_ok_def)
  qed (simp add: a)
  obtain bs d where r: "read_file fs' 2 5 3 (fs_dev fs') = (Inr bs, d)"
    using read_direct_alive[OF a(1) _ loc b f(1), of 5 3] a(2) p by (auto simp: BS_def max_blocks_def)
  have "bs = [1, 2, 3]"
    using conjunct2[OF write_then_read[OF w vol_ok(1) vol_file(1) list.distinct(2) r]] by simp
  then show ?thesis
    using w r by blast
qed

end
