(* ===== verification/NetWire.thy ===== *)
theory NetWire
  imports PaghPrelude
begin

text \<open>
  The packet formats of \<^verbatim>\<open>net/wire.rs\<close>: Ethernet, ARP, IPv4, IPv6, ICMP, ICMPv6 with neighbour
  discovery, UDP and TCP, each with the function that builds a packet and the one that parses it,
  and the internet checksum.  Addresses are the byte arrays of the source (6, 4 and 16 bytes).
\<close>

type_synonym mac = bytes
type_synonym ipv4 = bytes
type_synonym ipv6 = bytes

datatype ip_addr = V4 ipv4 | V6 ipv6

record ip_endpoint =
  ie_addr :: ip_addr
  ie_port :: u16

definition be_bytes :: "nat \<Rightarrow> 'a::len word \<Rightarrow> bytes" where
  "be_bytes n w = rev (le_bytes n w)"

definition of_be :: "bytes \<Rightarrow> 'a::len word" where
  "of_be bs = of_le (rev bs)"

abbreviation be16 :: "u16 \<Rightarrow> bytes" where "be16 \<equiv> be_bytes 2"
abbreviation be32 :: "u32 \<Rightarrow> bytes" where "be32 \<equiv> be_bytes 4"

definition get16 :: "bytes \<Rightarrow> nat \<Rightarrow> u16" where
  "get16 p i = of_be [p ! i, p ! (i + 1)]"

definition get32 :: "bytes \<Rightarrow> nat \<Rightarrow> u32" where
  "get32 p i = of_be [p ! i, p ! (i + 1), p ! (i + 2), p ! (i + 3)]"

subsection \<open>Addresses\<close>

definition mac_broadcast :: mac where "mac_broadcast = replicate 6 0xFF"

definition ipv4_unspecified :: ipv4 where "ipv4_unspecified = [0, 0, 0, 0]"

definition ipv4_broadcast :: ipv4 where "ipv4_broadcast = [255, 255, 255, 255]"

definition is_unspecified4 :: "ipv4 \<Rightarrow> bool" where
  "is_unspecified4 a \<longleftrightarrow> a ! 0 = 0 \<and> a ! 1 = 0 \<and> a ! 2 = 0 \<and> a ! 3 = 0"

definition is_broadcast :: "ipv4 \<Rightarrow> bool" where
  "is_broadcast a \<longleftrightarrow> a ! 0 = 255 \<and> a ! 1 = 255 \<and> a ! 2 = 255 \<and> a ! 3 = 255"

record ipv4_cidr =
  c4_addr :: ipv4
  c4_prefix :: u8

definition mask_octet :: "u8 \<Rightarrow> nat \<Rightarrow> u8" where
  "mask_octet prefix i =
     (let base = of_nat (i * 8) :: u8;
          n = (if base + 8 \<le> prefix then 8 else saturating_sub prefix base)
      in if n = 0 then 0 else push_bit (unat (8 - n)) (- 1))"

definition mask_octets :: "ipv4_cidr \<Rightarrow> bytes" where
  "mask_octets c = map (mask_octet (c4_prefix c)) [0..<4]"

definition in_subnet4 :: "ipv4 \<Rightarrow> ipv4_cidr \<Rightarrow> bool" where
  "in_subnet4 a c \<longleftrightarrow>
     (\<forall>i \<in> set [0..<4]. a ! i AND mask_octets c ! i = c4_addr c ! i AND mask_octets c ! i)"

definition all_nodes :: ipv6 where "all_nodes = [0xFF, 0x02, 0, 0, 0, 0, 0, 0, 0, 0, 0, 0, 0, 0, 0, 1]"

definition all_routers :: ipv6 where "all_routers = [0xFF, 0x02, 0, 0, 0, 0, 0, 0, 0, 0, 0, 0, 0, 0, 0, 2]"

definition is_unspecified6 :: "ipv6 \<Rightarrow> bool" where
  "is_unspecified6 a \<longleftrightarrow> (\<forall>i \<in> set [0..<16]. a ! i = 0)"

definition is_link_local :: "ipv6 \<Rightarrow> bool" where
  "is_link_local a \<longleftrightarrow> a ! 0 = 0xFE \<and> a ! 1 AND 0xC0 = 0x80"

definition to_v4_mapped6 :: "ipv6 \<Rightarrow> ipv4 option" where
  "to_v4_mapped6 a =
     (if (\<forall>i \<in> set [0..<10]. a ! i = 0) \<and> a ! 10 = 0xFF \<and> a ! 11 = 0xFF
      then Some [a ! 12, a ! 13, a ! 14, a ! 15] else None)"

definition to_v4_mapped :: "ip_addr \<Rightarrow> ipv4 option" where
  "to_v4_mapped a = (case a of V4 v4 \<Rightarrow> Some v4 | V6 v6 \<Rightarrow> to_v4_mapped6 v6)"

definition is_ipv4 :: "ip_addr \<Rightarrow> bool" where
  "is_ipv4 a = (case a of V4 _ \<Rightarrow> True | V6 _ \<Rightarrow> False)"

definition solicited_node :: "ipv6 \<Rightarrow> ipv6" where
  "solicited_node a = [0xFF, 0x02, 0, 0, 0, 0, 0, 0, 0, 0, 0, 0x01, 0xFF, a ! 13, a ! 14, a ! 15]"

record ipv6_cidr =
  c6_addr :: ipv6
  c6_prefix :: u8

definition in_subnet6 :: "ipv6 \<Rightarrow> ipv6_cidr \<Rightarrow> bool" where
  "in_subnet6 a c =
     (let full = unat (c6_prefix c div 8); rem = c6_prefix c mod 8; mask = push_bit (unat (8 - rem)) (- 1) :: u8
      in take full a = take full (c6_addr c) \<and>
         (rem = 0 \<or> 16 \<le> full \<or> a ! full AND mask = c6_addr c ! full AND mask))"

definition link_local_from_mac :: "mac \<Rightarrow> ipv6" where
  "link_local_from_mac m =
     [0xFE, 0x80, 0, 0, 0, 0, 0, 0, m ! 0 XOR 0x02, m ! 1, m ! 2, 0xFF, 0xFE, m ! 3, m ! 4, m ! 5]"

definition ipv6_multicast_mac :: "ipv6 \<Rightarrow> mac" where
  "ipv6_multicast_mac a = [0x33, 0x33, a ! 12, a ! 13, a ! 14, a ! 15]"

subsection \<open>The internet checksum\<close>

definition pair16 :: "u8 \<Rightarrow> u8 \<Rightarrow> u16" where
  "pair16 a b = of_be [a, b]"

text \<open>The sum of the big-endian pairs of a slice, and the odd byte left at its end.\<close>

fun sum_pairs :: "u32 \<Rightarrow> bytes \<Rightarrow> u32 \<times> u8 option" where
  "sum_pairs s [] = (s, None)"
| "sum_pairs s [b] = (s, Some b)"
| "sum_pairs s (b # c # bs) = sum_pairs (s + ucast (pair16 b c)) bs"

fun sum_parts :: "u32 \<Rightarrow> u8 option \<Rightarrow> bytes list \<Rightarrow> u32 \<times> u8 option" where
  "sum_parts s carry [] = (s, carry)"
| "sum_parts s None (part # parts) = (case sum_pairs s part of (s, carry) \<Rightarrow> sum_parts s carry parts)"
| "sum_parts s (Some b) ([] # parts) = sum_parts s (Some b) parts"
| "sum_parts s (Some b) ((b1 # part) # parts) =
     (case sum_pairs (s + ucast (pair16 b b1)) part of (s, carry) \<Rightarrow> sum_parts s carry parts)"

lemma fold_carries_less:
  assumes "drop_bit 16 s \<noteq> (0 :: u32)"
  shows "unat ((s AND 0xFFFF) + drop_bit 16 s) < unat s"
proof -
  have m: "(0xFFFF :: u32) = mask 16"
    by (simp add: mask_eq_exp_minus_1)
  have d: "unat (drop_bit 16 s) = unat s div 65536"
    by (simp add: drop_bit_eq_div unat_div)
  have t: "unat (s AND 0xFFFF) = unat s mod 65536"
    by (simp add: m unat_mod take_bit_eq_mod flip: take_bit_eq_mask)
  have lt: "unat s < 2 ^ 32"
    using unsigned_less[of s] by simp
  have "unat s div 65536 \<noteq> 0"
    using assms d by (metis unat_eq_zero)
  then have "unat s mod 65536 + unat s div 65536 < unat s"
    using div_mult_mod_eq[of "unat s" 65536] by linarith
  then show ?thesis
    using lt by (simp add: unat_word_ariths(1) t d)
qed

function fold_carries :: "u32 \<Rightarrow> u32" where
  "fold_carries s = (if drop_bit 16 s \<noteq> 0 then fold_carries ((s AND 0xFFFF) + drop_bit 16 s) else s)"
  by pat_completeness auto
termination
  by (relation "measure unat") (auto simp: fold_carries_less)

declare fold_carries.simps [simp del]

definition checksum :: "bytes list \<Rightarrow> u16" where
  "checksum parts =
     (case sum_parts 0 None parts of
        (s, carry) \<Rightarrow>
          NOT (ucast (fold_carries (case carry of Some b \<Rightarrow> s + push_bit 8 (ucast b) | None \<Rightarrow> s))))"

definition checksum_valid :: "bytes \<Rightarrow> nat \<Rightarrow> bool" where
  "checksum_valid header cksum_off \<longleftrightarrow>
     cksum_off + 2 \<le> length header \<and>
     checksum [take cksum_off header, drop (cksum_off + 2) header] = get16 header cksum_off"

subsection \<open>Ethernet and ARP\<close>

definition ETH_HDR_LEN :: nat where "ETH_HDR_LEN = 14"
definition ETHERTYPE_IPV4 :: u16 where "ETHERTYPE_IPV4 = 0x0800"
definition ETHERTYPE_ARP :: u16 where "ETHERTYPE_ARP = 0x0806"
definition ETHERTYPE_IPV6 :: u16 where "ETHERTYPE_IPV6 = 0x86DD"

definition eth_frame :: "mac \<Rightarrow> mac \<Rightarrow> u16 \<Rightarrow> bytes \<Rightarrow> bytes" where
  "eth_frame dst src ethertype payload = dst @ src @ be16 ethertype @ payload"

definition eth_parse :: "bytes \<Rightarrow> (mac \<times> mac \<times> u16 \<times> bytes) option" where
  "eth_parse frame =
     (if length frame < ETH_HDR_LEN then None
      else Some (sub_bytes frame 0 6, sub_bytes frame 6 6, get16 frame 12, drop ETH_HDR_LEN frame))"

definition ARP_HTYPE_ETHERNET :: u16 where "ARP_HTYPE_ETHERNET = 1"
definition ARP_PTYPE_IPV4 :: u16 where "ARP_PTYPE_IPV4 = 0x0800"
definition ARP_REQUEST :: u16 where "ARP_REQUEST = 1"
definition ARP_REPLY :: u16 where "ARP_REPLY = 2"
definition ARP_PKT_LEN :: nat where "ARP_PKT_LEN = 28"

definition arp_build :: "u16 \<Rightarrow> mac \<Rightarrow> ipv4 \<Rightarrow> mac \<Rightarrow> ipv4 \<Rightarrow> bytes" where
  "arp_build operation sender_mac sender_ip target_mac target_ip =
     be16 ARP_HTYPE_ETHERNET @ be16 ARP_PTYPE_IPV4 @ [6, 4] @ be16 operation @
     sender_mac @ sender_ip @ target_mac @ target_ip"

record arp_packet =
  ap_operation :: u16
  ap_sender_mac :: mac
  ap_sender_ip :: ipv4
  ap_target_ip :: ipv4

definition arp_parse :: "bytes \<Rightarrow> arp_packet option" where
  "arp_parse p =
     (if length p < ARP_PKT_LEN then None
      else if get16 p 0 \<noteq> ARP_HTYPE_ETHERNET \<or> get16 p 2 \<noteq> ARP_PTYPE_IPV4 \<or> p ! 4 \<noteq> 6 \<or> p ! 5 \<noteq> 4 then None
      else Some \<lparr>ap_operation = get16 p 6, ap_sender_mac = sub_bytes p 8 6, ap_sender_ip = sub_bytes p 14 4,
                 ap_target_ip = sub_bytes p 24 4\<rparr>)"

subsection \<open>IPv4\<close>

definition IPV4_HDR_MIN :: nat where "IPV4_HDR_MIN = 20"
definition PROTO_ICMP :: u8 where "PROTO_ICMP = 1"
definition PROTO_TCP :: u8 where "PROTO_TCP = 6"
definition PROTO_UDP :: u8 where "PROTO_UDP = 17"
definition PROTO_ICMPV6 :: u8 where "PROTO_ICMPV6 = 58"
definition IPV4_FLAG_MF :: u16 where "IPV4_FLAG_MF = push_bit 13 1"

text \<open>Storing a checksum over its placeholder: the high byte first.\<close>

definition set_csum :: "nat \<Rightarrow> u16 \<Rightarrow> bytes \<Rightarrow> bytes" where
  "set_csum off csum p = p[off := ucast (drop_bit 8 csum), off + 1 := ucast (csum AND 0xFF)]"

definition ipv4_build :: "ipv4 \<Rightarrow> ipv4 \<Rightarrow> u8 \<Rightarrow> u16 \<Rightarrow> u16 \<Rightarrow> u8 \<Rightarrow> bytes \<Rightarrow> bytes" where
  "ipv4_build src dst proto ident flags_frag ttl payload =
     (let total_len = of_nat (IPV4_HDR_MIN + length payload) :: u16;
          p = [0x45, 0x00] @ be16 total_len @ be16 ident @ be16 flags_frag @ [ttl, proto, 0, 0] @ src @ dst;
          csum = checksum [take IPV4_HDR_MIN p]
      in set_csum 10 csum p @ payload)"

record ipv4_header =
  h4_src :: ipv4
  h4_dst :: ipv4
  h4_proto :: u8
  h4_ttl :: u8
  h4_ident :: u16
  h4_flags_frag :: u16
  h4_hdr_len :: nat
  h4_total_len :: nat

definition ipv4_parse :: "bytes \<Rightarrow> (ipv4_header \<times> bytes) option" where
  "ipv4_parse p =
     (if length p < IPV4_HDR_MIN then None
      else if drop_bit 4 (p ! 0) \<noteq> 4 then None
      else let ihl = unat (p ! 0 AND 0x0F) * 4
        in if ihl < IPV4_HDR_MIN \<or> length p < ihl then None
           else if \<not> checksum_valid (take ihl p) 10 then None
           else let total_len = unat (get16 p 2)
             in if total_len < ihl \<or> length p < total_len then None
                else Some (\<lparr>h4_src = sub_bytes p 12 4, h4_dst = sub_bytes p 16 4, h4_proto = p ! 9, h4_ttl = p ! 8,
                            h4_ident = get16 p 4, h4_flags_frag = get16 p 6, h4_hdr_len = ihl,
                            h4_total_len = total_len\<rparr>,
                           sub_bytes p ihl (total_len - ihl)))"

subsection \<open>IPv6\<close>

definition IPV6_HDR_LEN :: nat where "IPV6_HDR_LEN = 40"
definition IPV6_EXT_HOPBYHOP :: u8 where "IPV6_EXT_HOPBYHOP = 0"
definition IPV6_EXT_ROUTING :: u8 where "IPV6_EXT_ROUTING = 43"
definition IPV6_EXT_FRAGMENT :: u8 where "IPV6_EXT_FRAGMENT = 44"
definition IPV6_EXT_DESTOPT :: u8 where "IPV6_EXT_DESTOPT = 60"
definition IPV6_NO_NEXT :: u8 where "IPV6_NO_NEXT = 59"

definition ipv6_build :: "ipv6 \<Rightarrow> ipv6 \<Rightarrow> u8 \<Rightarrow> u8 \<Rightarrow> bytes \<Rightarrow> bytes" where
  "ipv6_build src dst next_header hop_limit payload =
     [0x60, 0, 0, 0] @ be16 (of_nat (length payload)) @ [next_header, hop_limit] @ src @ dst @ payload"

record ipv6_header =
  h6_src :: ipv6
  h6_dst :: ipv6
  h6_proto :: u8
  h6_hop_limit :: u8
  h6_payload_off :: nat

text \<open>
  The walk over the extension headers: the next header and the offset behind them.  The counter
  stops it after eight of them.
\<close>

function skip_exts :: "bytes \<Rightarrow> nat \<Rightarrow> u8 \<Rightarrow> nat \<Rightarrow> nat \<Rightarrow> (u8 \<times> nat) option" where
  "skip_exts pkt lim nh off hops =
     (if nh = IPV6_EXT_HOPBYHOP \<or> nh = IPV6_EXT_ROUTING \<or> nh = IPV6_EXT_DESTOPT
      then if lim < off + 2 \<or> length pkt < off + 2 then None
           else let ext_len = (unat (pkt ! (off + 1)) + 1) * 8
             in if lim < off + ext_len then None
                else if 8 < hops + 1 then None
                else skip_exts pkt lim (pkt ! off) (off + ext_len) (hops + 1)
      else Some (nh, off))"
  by pat_completeness auto
termination
  by (relation "measure (\<lambda>(pkt, lim, nh, off, hops). 9 - hops)") auto

declare skip_exts.simps [simp del]

definition ipv6_parse :: "bytes \<Rightarrow> (ipv6_header \<times> bytes) option" where
  "ipv6_parse pkt =
     (if length pkt < IPV6_HDR_LEN \<or> drop_bit 4 (pkt ! 0) \<noteq> 6 then None
      else let payload_len = unat (get16 pkt 4); lim = IPV6_HDR_LEN + payload_len
        in if length pkt < lim then None
           else case skip_exts pkt lim (pkt ! 6) IPV6_HDR_LEN 0 of
                  None \<Rightarrow> None
                | Some (nh, off) \<Rightarrow>
                    Some (\<lparr>h6_src = sub_bytes pkt 8 16, h6_dst = sub_bytes pkt 24 16, h6_proto = nh,
                           h6_hop_limit = pkt ! 7, h6_payload_off = off\<rparr>,
                          sub_bytes pkt off (lim - off)))"

definition ipv6_fragment_parse :: "bytes \<Rightarrow> (u32 \<times> nat \<times> bool \<times> bytes) option" where
  "ipv6_fragment_parse payload =
     (if length payload < 8 then None
      else let word = get16 payload 4
        in Some (get32 payload 0, unat (drop_bit 3 word) * 8, word AND 1 \<noteq> 0, drop 8 payload))"

subsection \<open>ICMP\<close>

definition ICMP_ECHO_REPLY :: u8 where "ICMP_ECHO_REPLY = 0"
definition ICMP_ECHO_REQUEST :: u8 where "ICMP_ECHO_REQUEST = 8"

definition icmp_echo_build :: "u8 \<Rightarrow> u16 \<Rightarrow> u16 \<Rightarrow> bytes \<Rightarrow> bytes" where
  "icmp_echo_build kind ident seq payload =
     (let p = [kind, 0, 0, 0] @ be16 ident @ be16 seq @ payload in set_csum 2 (checksum [p]) p)"

definition icmp_echo_parse :: "bytes \<Rightarrow> (u8 \<times> u16 \<times> u16 \<times> bytes) option" where
  "icmp_echo_parse p =
     (if length p < 8 then None
      else if p ! 0 \<noteq> ICMP_ECHO_REQUEST \<and> p ! 0 \<noteq> ICMP_ECHO_REPLY then None
      else if \<not> checksum_valid p 2 then None
      else Some (p ! 0, get16 p 4, get16 p 6, drop 8 p))"

subsection \<open>ICMPv6 and neighbour discovery\<close>

definition ICMPV6_ROUTER_SOLICIT :: u8 where "ICMPV6_ROUTER_SOLICIT = 133"
definition ICMPV6_ECHO_REQUEST :: u8 where "ICMPV6_ECHO_REQUEST = 128"
definition ICMPV6_ECHO_REPLY :: u8 where "ICMPV6_ECHO_REPLY = 129"
definition ICMPV6_ROUTER_ADVERT :: u8 where "ICMPV6_ROUTER_ADVERT = 134"
definition ICMPV6_NEIGHBOR_SOLICIT :: u8 where "ICMPV6_NEIGHBOR_SOLICIT = 135"
definition ICMPV6_NEIGHBOR_ADVERT :: u8 where "ICMPV6_NEIGHBOR_ADVERT = 136"
definition ND_OPT_SOURCE_LL :: u8 where "ND_OPT_SOURCE_LL = 1"
definition ND_OPT_TARGET_LL :: u8 where "ND_OPT_TARGET_LL = 2"
definition ND_OPT_PREFIX_INFO :: u8 where "ND_OPT_PREFIX_INFO = 3"

definition icmpv6_pseudo :: "ipv6 \<Rightarrow> ipv6 \<Rightarrow> nat \<Rightarrow> bytes" where
  "icmpv6_pseudo src dst len = src @ dst @ be32 (of_nat len) @ [0, 0, 0, PROTO_ICMPV6]"

definition icmpv6_build :: "ipv6 \<Rightarrow> ipv6 \<Rightarrow> u8 \<Rightarrow> u8 \<Rightarrow> bytes \<Rightarrow> bytes" where
  "icmpv6_build src dst kind code body =
     (let p = [kind, code, 0, 0] @ body
      in set_csum 2 (checksum [icmpv6_pseudo src dst (4 + length body) @ p]) p)"

text \<open>The check the three parsers share: the sum with the stored checksum taken as zero.\<close>

definition icmpv6_sum_ok :: "ipv6 \<Rightarrow> ipv6 \<Rightarrow> bytes \<Rightarrow> bool" where
  "icmpv6_sum_ok src dst msg \<longleftrightarrow>
     checksum [(icmpv6_pseudo src dst (length msg) @ msg)[40 + 2 := 0, 40 + 3 := 0]] = get16 msg 2"

definition icmpv6_echo_parse :: "ipv6 \<Rightarrow> ipv6 \<Rightarrow> bytes \<Rightarrow> (u8 \<times> u16 \<times> u16 \<times> bytes) option" where
  "icmpv6_echo_parse src dst msg =
     (if length msg < 8 then None
      else if msg ! 0 \<noteq> ICMPV6_ECHO_REQUEST \<and> msg ! 0 \<noteq> ICMPV6_ECHO_REPLY then None
      else if \<not> icmpv6_sum_ok src dst msg then None
      else Some (msg ! 0, get16 msg 4, get16 msg 6, drop 8 msg))"

record ndp_packet =
  np_is_solicit :: bool
  np_na_flags :: u8
  np_target :: ipv6
  np_ll_addr :: "mac option"

function nd_options :: "bytes \<Rightarrow> nat \<Rightarrow> mac option \<Rightarrow> mac option" where
  "nd_options msg i ll =
     (if i < length msg \<and> msg ! i \<noteq> 0 \<and> i + 1 < length msg \<and> msg ! (i + 1) \<noteq> 0 \<and>
         i + unat (msg ! (i + 1)) * 8 \<le> length msg
      then let len = unat (msg ! (i + 1)) * 8
        in nd_options msg (i + len)
             (if (msg ! i = ND_OPT_SOURCE_LL \<or> msg ! i = ND_OPT_TARGET_LL) \<and> len = 8
              then Some (sub_bytes msg (i + 2) 6) else ll)
      else ll)"
  by pat_completeness auto
termination
  by (relation "measure (\<lambda>(msg, i, ll). length msg - i)") (auto intro!: diff_less_mono2 simp: unat_gt_0)

declare nd_options.simps [simp del]

definition ndp_parse :: "ipv6 \<Rightarrow> ipv6 \<Rightarrow> bytes \<Rightarrow> ndp_packet option" where
  "ndp_parse src dst msg =
     (if length msg < 24 then None
      else if msg ! 0 \<noteq> ICMPV6_NEIGHBOR_SOLICIT \<and> msg ! 0 \<noteq> ICMPV6_NEIGHBOR_ADVERT then None
      else if \<not> icmpv6_sum_ok src dst msg then None
      else Some \<lparr>np_is_solicit = (msg ! 0 = ICMPV6_NEIGHBOR_SOLICIT), np_na_flags = msg ! 4,
                 np_target = sub_bytes msg 8 16, np_ll_addr = nd_options msg 24 None\<rparr>)"

record prefix_info =
  pi_on_link :: bool
  pi_autonomous :: bool
  pi_valid_lifetime_secs :: u32
  pi_preferred_lifetime_secs :: u32
  pi_prefix :: ipv6
  pi_prefix_len :: u8

function ra_options :: "bytes \<Rightarrow> nat \<Rightarrow> prefix_info option" where
  "ra_options msg i =
     (if i < length msg \<and> msg ! i \<noteq> 0 \<and> i + 1 < length msg \<and> msg ! (i + 1) \<noteq> 0 \<and>
         i + unat (msg ! (i + 1)) * 8 \<le> length msg
      then let len = unat (msg ! (i + 1)) * 8
        in if msg ! i = ND_OPT_PREFIX_INFO \<and> 32 \<le> len
           then Some \<lparr>pi_on_link = (msg ! (i + 3) AND 0x80 \<noteq> 0), pi_autonomous = (msg ! (i + 3) AND 0x40 \<noteq> 0),
                      pi_valid_lifetime_secs = get32 msg (i + 4), pi_preferred_lifetime_secs = get32 msg (i + 8),
                      pi_prefix = sub_bytes msg (i + 16) 16, pi_prefix_len = msg ! (i + 2)\<rparr>
           else ra_options msg (i + len)
      else None)"
  by pat_completeness auto
termination
  by (relation "measure (\<lambda>(msg, i). length msg - i)") (auto intro!: diff_less_mono2 simp: unat_gt_0)

declare ra_options.simps [simp del]

definition ra_parse_prefix :: "ipv6 \<Rightarrow> ipv6 \<Rightarrow> bytes \<Rightarrow> prefix_info option" where
  "ra_parse_prefix src dst msg =
     (if length msg < 16 \<or> msg ! 0 \<noteq> ICMPV6_ROUTER_ADVERT then None
      else if \<not> icmpv6_sum_ok src dst msg then None
      else ra_options msg 16)"

definition router_solicit :: "ipv6 \<Rightarrow> mac \<Rightarrow> bytes" where
  "router_solicit src_ip src_mac =
     icmpv6_build src_ip all_routers ICMPV6_ROUTER_SOLICIT 0 ([0, 0, 0, 0] @ [ND_OPT_SOURCE_LL, 1] @ src_mac)"

definition neighbor_solicit :: "ipv6 \<Rightarrow> mac \<Rightarrow> ipv6 \<Rightarrow> bytes" where
  "neighbor_solicit src_ip src_mac target =
     icmpv6_build src_ip (solicited_node target) ICMPV6_NEIGHBOR_SOLICIT 0
       ([0, 0, 0, 0] @ target @ [ND_OPT_SOURCE_LL, 1] @ src_mac)"

definition neighbor_advert :: "ipv6 \<Rightarrow> ipv6 \<Rightarrow> mac \<Rightarrow> ipv6 \<Rightarrow> bool \<Rightarrow> bytes" where
  "neighbor_advert src_ip dst_ip src_mac target solicited =
     icmpv6_build src_ip dst_ip ICMPV6_NEIGHBOR_ADVERT 0
       ([if solicited then 0x20 OR 0x80 else 0x80, 0, 0, 0] @ target @ [ND_OPT_TARGET_LL, 1] @ src_mac)"

subsection \<open>UDP\<close>

definition UDP_HDR_LEN :: nat where "UDP_HDR_LEN = 8"

text \<open>The pseudo header of a datagram; nothing for endpoints of different families.\<close>

definition udp_pseudo :: "ip_addr \<Rightarrow> ip_addr \<Rightarrow> u16 \<Rightarrow> bytes option" where
  "udp_pseudo src dst len =
     (case (src, dst) of
        (V4 s, V4 d) \<Rightarrow> Some (s @ d @ [0, PROTO_UDP] @ be16 len)
      | (V6 s, V6 d) \<Rightarrow> Some (s @ d @ be32 (ucast len) @ [0, 0, 0, PROTO_UDP])
      | _ \<Rightarrow> None)"

definition udp_build :: "ip_endpoint \<Rightarrow> ip_endpoint \<Rightarrow> bytes \<Rightarrow> bytes" where
  "udp_build src dst payload =
     (let udp_len = of_nat (UDP_HDR_LEN + length payload) :: u16;
          p = be16 (ie_port src) @ be16 (ie_port dst) @ be16 udp_len @ [0, 0] @ payload;
          csum = checksum [(case udp_pseudo (ie_addr src) (ie_addr dst) udp_len of Some h \<Rightarrow> h | None \<Rightarrow> []) @ p]
      in set_csum 6 (if csum = 0 then 0xFFFF else csum) p)"

definition udp_parse :: "ip_addr \<Rightarrow> ip_addr \<Rightarrow> bytes \<Rightarrow> (ip_endpoint \<times> ip_endpoint \<times> bytes) option" where
  "udp_parse src_ip dst_ip dgram =
     (if length dgram < UDP_HDR_LEN then None
      else let len = unat (get16 dgram 4)
        in if len < UDP_HDR_LEN \<or> length dgram < len then None
           else let stored = get16 dgram 6;
                    ok = (if stored \<noteq> 0 \<or> \<not> is_ipv4 src_ip
                          then case udp_pseudo src_ip dst_ip (of_nat len) of
                                 None \<Rightarrow> False
                               | Some h \<Rightarrow> checksum [(h @ take len dgram)[length h + 6 := 0, length h + 7 := 0]] = stored
                          else True)
             in if ok
                then Some (\<lparr>ie_addr = src_ip, ie_port = get16 dgram 0\<rparr>,
                           \<lparr>ie_addr = dst_ip, ie_port = get16 dgram 2\<rparr>,
                           sub_bytes dgram UDP_HDR_LEN (len - UDP_HDR_LEN))
                else None)"

subsection \<open>TCP\<close>

definition TCP_HDR_MIN :: nat where "TCP_HDR_MIN = 20"
definition TCP_FIN :: u8 where "TCP_FIN = 1"
definition TCP_SYN :: u8 where "TCP_SYN = 2"
definition TCP_RST :: u8 where "TCP_RST = 4"
definition TCP_PSH :: u8 where "TCP_PSH = 8"
definition TCP_ACK :: u8 where "TCP_ACK = 16"

record tcp_header =
  th_src_port :: u16
  th_dst_port :: u16
  th_seq :: u32
  th_ack :: u32
  th_flags :: u8
  th_window :: u16
  th_hdr_len :: nat
  th_mss :: "u16 option"
  th_wscale :: "u8 option"
  th_sack_permitted :: bool
  th_sack_blocks :: "(u32 \<times> u32) list"

text \<open>The fixed-capacity vector of SACK blocks drops what does not fit.\<close>

definition push_capped :: "nat \<Rightarrow> 'a \<Rightarrow> 'a list \<Rightarrow> 'a list" where
  "push_capped cap v xs = (if length xs < cap then xs @ [v] else xs)"

function sack_scan :: "bytes \<Rightarrow> nat \<Rightarrow> nat \<Rightarrow> (u32 \<times> u32) list \<Rightarrow> (u32 \<times> u32) list" where
  "sack_scan seg j lim blocks =
     (if j + 8 \<le> lim \<and> length blocks < 4
      then sack_scan seg (j + 8) lim (push_capped 4 (get32 seg j, get32 seg (j + 4)) blocks)
      else blocks)"
  by pat_completeness auto
termination
  by (relation "measure (\<lambda>(seg, j, lim, blocks). lim - j)") auto

declare sack_scan.simps [simp del]

function tcp_options :: "bytes \<Rightarrow> nat \<Rightarrow> nat \<Rightarrow> tcp_header \<Rightarrow> tcp_header" where
  "tcp_options seg data_off i hdr =
     (if i < data_off \<and> seg ! i \<noteq> 0
      then if seg ! i = 1 then tcp_options seg data_off (i + 1) hdr
           else if i + 1 < data_off \<and> 2 \<le> unat (seg ! (i + 1)) \<and> i + unat (seg ! (i + 1)) \<le> data_off
             then let n = seg ! i; len = unat (seg ! (i + 1));
                      hdr = (if n = 2 \<and> len = 4 then hdr\<lparr>th_mss := Some (get16 seg (i + 2))\<rparr>
                             else if n = 3 \<and> len = 3 then hdr\<lparr>th_wscale := Some (seg ! (i + 2))\<rparr>
                             else if n = 4 \<and> len = 2 then hdr\<lparr>th_sack_permitted := True\<rparr>
                             else if n = 5 \<and> 10 \<le> len
                             then hdr\<lparr>th_sack_blocks := sack_scan seg (i + 2) (i + len) (th_sack_blocks hdr)\<rparr>
                             else hdr)
                  in tcp_options seg data_off (i + len) hdr
             else hdr
      else hdr)"
  by pat_completeness auto
termination
  by (relation "measure (\<lambda>(seg, data_off, i, hdr). data_off - i)") auto

declare tcp_options.simps [simp del]

definition tcp_pseudo :: "ip_addr \<Rightarrow> ip_addr \<Rightarrow> nat \<Rightarrow> bytes option" where
  "tcp_pseudo src dst len =
     (case (src, dst) of
        (V4 s, V4 d) \<Rightarrow> Some (s @ d @ [0, PROTO_TCP] @ be16 (of_nat len))
      | (V6 s, V6 d) \<Rightarrow> Some (s @ d @ be32 (of_nat len) @ [0, 0, 0, PROTO_TCP])
      | _ \<Rightarrow> None)"

definition tcp_fields :: "bytes \<Rightarrow> nat \<Rightarrow> tcp_header" where
  "tcp_fields seg data_off =
     \<lparr>th_src_port = get16 seg 0, th_dst_port = get16 seg 2, th_seq = get32 seg 4, th_ack = get32 seg 8,
      th_flags = seg ! 13, th_window = get16 seg 14, th_hdr_len = data_off, th_mss = None, th_wscale = None,
      th_sack_permitted = False, th_sack_blocks = []\<rparr>"

definition tcp_parse :: "ip_addr \<Rightarrow> ip_addr \<Rightarrow> bytes \<Rightarrow> (tcp_header \<times> bytes) option" where
  "tcp_parse src_ip dst_ip seg =
     (if length seg < TCP_HDR_MIN then None
      else let data_off = unat (drop_bit 4 (seg ! 12)) * 4
        in if data_off < TCP_HDR_MIN \<or> length seg < data_off then None
           else let hdr = tcp_options seg data_off TCP_HDR_MIN (tcp_fields seg data_off)
             in case tcp_pseudo src_ip dst_ip (length seg) of
                  None \<Rightarrow> None
                | Some h \<Rightarrow>
                    if checksum [(h @ seg)[length h + 16 := 0, length h + 17 := 0]] \<noteq> get16 seg 16 then None
                    else Some (hdr, drop data_off seg))"

definition tcp_build :: "ip_endpoint \<Rightarrow> ip_endpoint \<Rightarrow> u32 \<Rightarrow> u32 \<Rightarrow> u8 \<Rightarrow> u16 \<Rightarrow> bytes \<Rightarrow> bytes \<Rightarrow> bytes" where
  "tcp_build src dst seq ack flags window options payload =
     (let hdr_len = TCP_HDR_MIN + length options; total = hdr_len + length payload;
          p = be16 (ie_port src) @ be16 (ie_port dst) @ be32 seq @ be32 ack @
              [push_bit 4 (of_nat hdr_len div 4), flags] @ be16 window @ [0, 0] @ [0, 0] @ options @ payload;
          csum = checksum [(case tcp_pseudo (ie_addr src) (ie_addr dst) total of Some h \<Rightarrow> h | None \<Rightarrow> []) @ p]
      in set_csum 16 csum p)"

definition sack_option :: "(u32 \<times> u32) list \<Rightarrow> bytes" where
  "sack_option blocks =
     (let n = min (length blocks) 4
      in if n = 0 then []
         else [1, 1, 5, of_nat (2 + 8 * n)] @ concat (map (\<lambda>(l, r). be32 l @ be32 r) (take n blocks)))"

definition sack_permitted_option :: bytes where "sack_permitted_option = [4, 2]"

end
