(* ===== verification/NetTcp.thy ===== *)
theory NetTcp
  imports NetWire "HOL-Library.Signed_Division"
begin

text \<open>
  One TCP socket of \<^verbatim>\<open>net/tcp.rs\<close>: the record \<^verbatim>\<open>TcpSock\<close>, the calls of the application, the
  handlers for a received segment and the step that the poll loop runs.  A handler of the source
  works on the socket through the whole stack and hands each segment to \<^verbatim>\<open>ip::output\<close>; that call
  reads and writes nothing of the socket table, so a handler here maps a socket to a socket and
  the list of the segments it emits, in order.  \<open>now\<close> is the argument of that name and \<open>tk\<close> what
  \<^verbatim>\<open>scheduler::ticks()\<close> returns while the handler runs.
\<close>

definition ACK_EVERY_N :: u8 where "ACK_EVERY_N = 2"
definition TAIL_ACK_DELAY_TICKS :: u64 where "TAIL_ACK_DELAY_TICKS = 16"
definition MSS :: nat where "MSS = 1460"
definition DEFAULT_PEER_MSS :: u16 where "DEFAULT_PEER_MSS = 536"
definition RTO_INIT_MS :: u32 where "RTO_INIT_MS = 300"
definition RTO_MAX_MS :: u32 where "RTO_MAX_MS = 30000"
definition CONNECT_MAX_RETRIES :: u32 where "CONNECT_MAX_RETRIES = 5"
definition DATA_MAX_RETRIES :: u32 where "DATA_MAX_RETRIES = 15"
definition TIME_WAIT_TICKS :: u64 where "TIME_WAIT_TICKS = 2000"
definition IW_BYTES :: u32 where "IW_BYTES = 4 * of_nat MSS"
definition OOO_CAP :: nat where "OOO_CAP = 16"

definition seq_lt :: "u32 \<Rightarrow> u32 \<Rightarrow> bool" where
  "seq_lt a b \<longleftrightarrow> sint (a - b) < 0"

definition seq_le :: "u32 \<Rightarrow> u32 \<Rightarrow> bool" where
  "seq_le a b \<longleftrightarrow> a = b \<or> seq_lt a b"

definition seq_gt :: "u32 \<Rightarrow> u32 \<Rightarrow> bool" where
  "seq_gt a b \<longleftrightarrow> seq_lt b a"

datatype tcp_state = Closed | Listen | SynSent | SynRcvd | Established | FinWait1 | FinWait2 | CloseWait
  | LastAck | Closing | TimeWait

definition is_data_state :: "tcp_state \<Rightarrow> bool" where
  "is_data_state s \<longleftrightarrow> s \<in> {Established, FinWait1, FinWait2, CloseWait}"

record tcp_sock =
  ts_state :: tcp_state
  local_port :: u16
  remote :: ip_endpoint
  iss :: u32
  snd_una :: u32
  snd_nxt :: u32
  snd_wnd :: u32
  snd_scale :: u8
  ctrl_needs_send :: bool
  close_requested :: bool
  fin_seq :: "u32 option"
  irs :: u32
  rcv_nxt :: u32
  rcv_scale :: u8
  peer_mss :: u16
  peer_fin_seq :: "u32 option"
  peer_fin_seen :: bool
  ts_tx :: bytes
  ts_rx :: bytes
  tx_cap :: nat
  rx_cap :: nat
  ooo :: "(u32 \<times> bytes) list"
  ever_established :: bool
  unacked_segs :: u8
  last_ack_tick :: u64
  last_adv_free :: nat
  wnd_update_pending :: bool
  refused :: bool
  sack_ok :: bool
  offered_sack :: bool
  sacked :: "(u32 \<times> u32) list"
  cwnd :: u32
  ssthresh :: u32
  dup_acks :: u8
  rto_ms :: u32
  rto_deadline :: "u64 option"
  retries :: u32
  rtt_srtt_ms :: "u32 option"
  rtt_var_ms :: u32
  timing_end :: "u32 option"
  timing_start :: "u64 option"
  timewait_deadline :: "u64 option"

subsection \<open>Construction\<close>

function offer_scale_loop :: "nat \<Rightarrow> u8 \<Rightarrow> u8" where
  "offer_scale_loop cap s = (if 255 < cap \<and> s < 14 then offer_scale_loop (cap div 2) (s + 1) else s)"
  by pat_completeness auto
termination
  by (relation "measure fst") auto

declare offer_scale_loop.simps [simp del]

definition offer_scale :: "nat \<Rightarrow> u8" where
  "offer_scale cap = offer_scale_loop (drop_bit 8 cap) 0"

definition new_active :: "ip_endpoint \<Rightarrow> u16 \<Rightarrow> nat \<Rightarrow> nat \<Rightarrow> u32 \<Rightarrow> tcp_sock" where
  "new_active rmt lport rcap tcap iss0 =
     \<lparr>ts_state = SynSent, local_port = lport, remote = rmt, iss = iss0, snd_una = iss0, snd_nxt = iss0 + 1,
      snd_wnd = 4096, snd_scale = 0, ctrl_needs_send = True, close_requested = False, fin_seq = None,
      irs = 0, rcv_nxt = 0, rcv_scale = offer_scale rcap, peer_mss = DEFAULT_PEER_MSS, peer_fin_seq = None,
      peer_fin_seen = False, ts_tx = [], ts_rx = [], tx_cap = tcap, rx_cap = rcap, ooo = [],
      ever_established = False, unacked_segs = 0, last_ack_tick = 0, last_adv_free = 0,
      wnd_update_pending = False, refused = False, sack_ok = False, offered_sack = True, sacked = [],
      cwnd = IW_BYTES, ssthresh = 65535, dup_acks = 0, rto_ms = RTO_INIT_MS, rto_deadline = None, retries = 0,
      rtt_srtt_ms = None, rtt_var_ms = 0, timing_end = None, timing_start = None, timewait_deadline = None\<rparr>"

definition new_listen :: "u16 \<Rightarrow> tcp_sock" where
  "new_listen lport =
     (new_active \<lparr>ie_addr = V4 ipv4_unspecified, ie_port = 0\<rparr> lport 4096 4096 1)
       \<lparr>ts_state := Listen, ctrl_needs_send := False\<rparr>"

definition new_child :: "u16 \<Rightarrow> ip_endpoint \<Rightarrow> u32 \<Rightarrow> u32 \<Rightarrow> tcp_sock" where
  "new_child listener_port rmt irs0 iss0 =
     (new_active rmt listener_port 4096 4096 iss0)
       \<lparr>ts_state := SynRcvd, irs := irs0, rcv_nxt := irs0 + 1, snd_una := iss0, snd_nxt := iss0 + 1\<rparr>"

subsection \<open>The application's calls\<close>

definition is_active :: "tcp_sock \<Rightarrow> bool" where
  "is_active s \<longleftrightarrow> ts_state s \<notin> {Closed, Listen}"

definition may_send :: "tcp_sock \<Rightarrow> bool" where
  "may_send s \<longleftrightarrow> ts_state s \<in> {SynRcvd, Established, FinWait1, FinWait2, CloseWait, LastAck, Closing}"

definition may_recv :: "tcp_sock \<Rightarrow> bool" where
  "may_recv s \<longleftrightarrow> ts_state s \<in> {Established, FinWait1, FinWait2}"

definition can_send :: "tcp_sock \<Rightarrow> bool" where
  "can_send s \<longleftrightarrow> may_send s \<and> length (ts_tx s) < tx_cap s"

definition can_recv :: "tcp_sock \<Rightarrow> bool" where
  "can_recv s \<longleftrightarrow> ts_rx s \<noteq> []"

definition send_slice :: "bytes \<Rightarrow> tcp_sock \<Rightarrow> nat \<times> tcp_sock" where
  "send_slice data s =
     (if \<not> can_send s then (0, s)
      else let n = min (tx_cap s - length (ts_tx s)) (length data)
        in (n, s\<lparr>ts_tx := ts_tx s @ take n data\<rparr>))"

text \<open>\<open>recv_slice\<close> for a buffer of \<open>len\<close> bytes: the bytes copied.\<close>

definition recv_slice :: "nat \<Rightarrow> tcp_sock \<Rightarrow> bytes \<times> tcp_sock" where
  "recv_slice len s =
     (let n = min len (length (ts_rx s)); out = take n (ts_rx s); s = s\<lparr>ts_rx := drop n (ts_rx s)\<rparr>
      in (out,
          if 0 < n \<and> \<not> wnd_update_pending s \<and>
             rx_cap s div 4 \<le> rx_cap s - length (ts_rx s) - last_adv_free s
          then s\<lparr>wnd_update_pending := True\<rparr> else s))"

definition eof_visible :: "tcp_sock \<Rightarrow> bool" where
  "eof_visible s \<longleftrightarrow> peer_fin_seen s \<and> ts_rx s = []"

definition tcp_close :: "tcp_sock \<Rightarrow> tcp_sock" where
  "tcp_close s = (if ts_state s = Closed \<or> fin_seq s \<noteq> None then s else s\<lparr>close_requested := True\<rparr>)"

subsection \<open>Window and SACK bookkeeping\<close>

definition fin_pending :: "tcp_sock \<Rightarrow> bool" where
  "fin_pending s = (case fin_seq s of Some f \<Rightarrow> seq_le (snd_una s) f | None \<Rightarrow> False)"

definition outstanding_data :: "tcp_sock \<Rightarrow> u32" where
  "outstanding_data s =
     (let raw = snd_nxt s - snd_una s in if fin_pending s then saturating_sub raw 1 else raw)"

definition rcv_wnd_field :: "tcp_sock \<Rightarrow> u16" where
  "rcv_wnd_field s =
     (let free = rx_cap s - length (ts_rx s)
      in if 0 < rcv_scale s
         then of_nat (min (unat (of_nat (drop_bit (unat (rcv_scale s)) free) :: u32)) 65535)
         else of_nat (min free 65535))"

definition effective_mss :: "tcp_sock \<Rightarrow> nat" where
  "effective_mss s = min MSS (unat (peer_mss s))"

definition prune_sacked :: "tcp_sock \<Rightarrow> tcp_sock" where
  "prune_sacked s =
     s\<lparr>sacked := map (\<lambda>(l, r). (if seq_lt l (snd_una s) then snd_una s else l, r))
                   (filter (\<lambda>(l, r). seq_gt r (snd_una s)) (sacked s))\<rparr>"

definition clip_sack :: "tcp_sock \<Rightarrow> u32 \<times> u32 \<Rightarrow> u32 \<times> u32" where
  "clip_sack s = (\<lambda>(l, r). (if seq_lt l (snd_una s) then snd_una s else l,
                             if seq_lt (snd_nxt s) r then snd_nxt s else r))"

text \<open>The merge of the sorted ranges; the last range of the result is at the head of \<open>merged\<close>.\<close>

fun merge_sacked :: "(u32 \<times> u32) list \<Rightarrow> (u32 \<times> u32) list \<Rightarrow> (u32 \<times> u32) list" where
  "merge_sacked merged [] = rev merged"
| "merge_sacked [] ((l, r) # rest) = merge_sacked [(l, r)] rest"
| "merge_sacked ((a, b) # merged) ((l, r) # rest) =
     (if \<not> seq_gt l b then merge_sacked ((a, if seq_gt r b then r else b) # merged) rest
      else merge_sacked ((l, r) # (a, b) # merged) rest)"

definition note_sacked :: "(u32 \<times> u32) list \<Rightarrow> tcp_sock \<Rightarrow> tcp_sock" where
  "note_sacked blocks s =
     (let fresh = map (clip_sack s)
                    (filter (\<lambda>(l, r). \<not> (seq_le r (snd_una s) \<or> seq_lt (snd_nxt s) l)) blocks);
          s = (if fresh \<noteq> []
               then s\<lparr>sacked := merge_sacked [] (sort_key fst (sacked s @ fresh))\<rparr> else s)
      in prune_sacked s)"

fun hole_scan :: "u32 \<Rightarrow> nat \<Rightarrow> nat \<Rightarrow> (u32 \<times> u32) list \<Rightarrow> nat option" where
  "hole_scan una outst off [] = (if off < outst then Some off else None)"
| "hole_scan una outst off ((l, r) # rest) =
     (if off < unat (l - una) then Some (min off outst)
      else hole_scan una outst (max (unat (r - una)) off) rest)"

definition first_hole :: "tcp_sock \<Rightarrow> nat option" where
  "first_hole s = hole_scan (snd_una s) (unat (outstanding_data s)) 0 (sacked s)"

subsection \<open>Emission\<close>

record tcp_seg =
  sg_seq :: u32
  sg_ack :: u32
  sg_flags :: u8
  sg_window :: u16
  sg_opts :: bytes
  sg_payload :: bytes

type_synonym emitted = "tcp_sock \<times> tcp_seg list"

definition emit :: "u32 \<Rightarrow> u32 \<Rightarrow> u8 \<Rightarrow> bytes \<Rightarrow> bytes \<Rightarrow> tcp_sock \<Rightarrow> emitted" where
  "emit seq ack flags opts payload s =
     (s\<lparr>last_adv_free := rx_cap s - length (ts_rx s)\<rparr>,
      [\<lparr>sg_seq = seq, sg_ack = ack, sg_flags = flags, sg_window = rcv_wnd_field s, sg_opts = opts,
        sg_payload = payload\<rparr>])"

definition and_then :: "emitted \<Rightarrow> (tcp_sock \<Rightarrow> emitted) \<Rightarrow> emitted" where
  "and_then r f = (case r of (s, out) \<Rightarrow> case f s of (s', out') \<Rightarrow> (s', out @ out'))"

definition ctrl_options :: "u8 \<Rightarrow> bytes" where
  "ctrl_options scale =
     (let o1 = [2, 4] @ be16 (of_nat MSS) @ (if 0 < scale then [1, 3, 3, scale] else []) @ sack_permitted_option
      in o1 @ replicate ((4 - length o1 mod 4) mod 4) 1)"

fun merge_edges :: "(u32 \<times> u32) list \<Rightarrow> (u32 \<times> u32) list \<Rightarrow> (u32 \<times> u32) list" where
  "merge_edges merged [] = rev merged"
| "merge_edges [] ((l, r) # rest) = merge_edges [(l, r)] rest"
| "merge_edges ((a, b) # merged) ((l, r) # rest) =
     (if l \<le> b then merge_edges ((a, max b r) # merged) rest else merge_edges ((l, r) # (a, b) # merged) rest)"

definition ack_options_with_sack :: "tcp_sock \<Rightarrow> bytes" where
  "ack_options_with_sack s =
     (if \<not> sack_ok s \<or> ooo s = [] then []
      else sack_option (merge_edges [] (sort_key fst (map (\<lambda>(sq, d). (sq, sq + of_nat (length d))) (ooo s)))))"

definition send_ack :: "bytes \<Rightarrow> tcp_sock \<Rightarrow> emitted" where
  "send_ack opts s = emit (snd_nxt s) (rcv_nxt s) TCP_ACK opts [] s"

subsection \<open>Acknowledgements\<close>

definition i32_div :: "u32 \<Rightarrow> int \<Rightarrow> u32" where
  "i32_div a n = word_of_int (sint a sdiv n)"

definition i32_abs :: "u32 \<Rightarrow> u32" where
  "i32_abs a = (if sint a < 0 then - a else a)"

definition i32_max1 :: "u32 \<Rightarrow> u32" where
  "i32_max1 a = (if sint a < 1 then 1 else a)"

definition rtt_sample :: "u32 \<Rightarrow> u64 \<Rightarrow> tcp_sock \<Rightarrow> tcp_sock" where
  "rtt_sample ack now s =
     (case (timing_end s, timing_start s) of
        (Some te, Some t0) \<Rightarrow>
          if seq_lt ack te then s
          else let rtt = ucast (min (saturating_sub now t0) 0xFFFFFFFF) :: u32;
                   s = (case rtt_srtt_ms s of
                          None \<Rightarrow> s\<lparr>rtt_srtt_ms := Some (max rtt 1), rtt_var_ms := rtt div 2\<rparr>
                        | Some prev \<Rightarrow>
                            let err = rtt - prev
                            in s\<lparr>rtt_var_ms := i32_max1 (rtt_var_ms s + i32_div (i32_abs err - rtt_var_ms s) 4),
                                 rtt_srtt_ms := Some (i32_max1 (prev + i32_div err 8))\<rparr>)
               in s\<lparr>timing_end := None, timing_start := None\<rparr>
      | _ \<Rightarrow> s)"

definition grow_cwnd :: "tcp_sock \<Rightarrow> tcp_sock" where
  "grow_cwnd s =
     (let m = of_nat (effective_mss s) :: u32
      in if outstanding_data s = 0 then s
         else if cwnd s < ssthresh s then s\<lparr>cwnd := saturating_add (cwnd s) m\<rparr>
         else s\<lparr>cwnd := saturating_add (cwnd s) (max ((m * m) div max (cwnd s) 1) 1)\<rparr>)"

text \<open>A new acknowledgement: release the bytes it covers and restart the timer.\<close>

definition ack_advance :: "tcp_header \<Rightarrow> u64 \<Rightarrow> tcp_sock \<Rightarrow> tcp_sock" where
  "ack_advance hdr now s =
     (let advanced = unat (th_ack hdr - snd_una s);
          s = s\<lparr>ts_tx := drop (min advanced (length (ts_tx s))) (ts_tx s), snd_una := th_ack hdr\<rparr>;
          s = grow_cwnd (rtt_sample (th_ack hdr) now s);
          s = s\<lparr>rto_deadline := (if outstanding_data s = 0 then None else Some (now + ucast (rto_ms s))),
                retries := 0, dup_acks := 0, snd_wnd := push_bit (unat (snd_scale s)) (ucast (th_window hdr))\<rparr>
      in if th_sack_blocks hdr \<noteq> [] then note_sacked (th_sack_blocks hdr) s else prune_sacked s)"

definition fin_transitions :: "u32 \<Rightarrow> u64 \<Rightarrow> tcp_sock \<Rightarrow> tcp_sock" where
  "fin_transitions ack now s =
     (if (case fin_seq s of Some f \<Rightarrow> seq_gt ack f | None \<Rightarrow> False)
      then (case ts_state s of
              FinWait1 \<Rightarrow> s\<lparr>ts_state := FinWait2\<rparr>
            | Closing \<Rightarrow> s\<lparr>ts_state := TimeWait, timewait_deadline := Some (now + TIME_WAIT_TICKS)\<rparr>
            | LastAck \<Rightarrow> s\<lparr>ts_state := Closed\<rparr>
            | _ \<Rightarrow> s)
      else s)"

definition halve_window :: "tcp_sock \<Rightarrow> u32" where
  "halve_window s = max (cwnd s div 2) (2 * of_nat (effective_mss s))"

definition process_ack :: "tcp_header \<Rightarrow> u64 \<Rightarrow> tcp_sock \<Rightarrow> emitted" where
  "process_ack hdr now s =
     (let ack = th_ack hdr
      in if seq_lt (snd_una s) ack \<and> seq_le ack (snd_nxt s)
         then (fin_transitions ack now (ack_advance hdr now s), [])
         else if ack = snd_una s \<and> th_flags hdr AND (TCP_SYN OR TCP_FIN) = 0 \<and> 0 < outstanding_data s
         then let s = s\<lparr>dup_acks := saturating_add (dup_acks s) 1\<rparr>;
                  n = min (min (effective_mss s) (length (ts_tx s))) 65535
              in if dup_acks s = 3
                 then if 0 < n
                      then let s' = s\<lparr>ssthresh := halve_window s, cwnd := halve_window s, dup_acks := 0,
                                      rto_deadline := Some (now + ucast (rto_ms s))\<rparr>
                           in emit (snd_una s) (rcv_nxt s) (TCP_ACK OR TCP_PSH) [] (take n (ts_tx s)) s'
                      else (fin_transitions ack now (s\<lparr>dup_acks := 0\<rparr>), [])
                 else (fin_transitions ack now s, [])
         else let s = s\<lparr>snd_wnd := push_bit (unat (snd_scale s)) (ucast (th_window hdr))\<rparr>;
                  s = (if th_sack_blocks hdr \<noteq> [] then note_sacked (th_sack_blocks hdr) s else s)
              in (fin_transitions ack now s, []))"

subsection \<open>Receiving\<close>

datatype after = AfterNothing | SendAck

definition append_rx :: "bytes \<Rightarrow> tcp_sock \<Rightarrow> tcp_sock" where
  "append_rx body s =
     (let n = min (rx_cap s - length (ts_rx s)) (length body)
      in s\<lparr>ts_rx := ts_rx s @ take n body, rcv_nxt := rcv_nxt s + of_nat n\<rparr>)"

definition ooo_room :: "tcp_sock \<Rightarrow> nat" where
  "ooo_room s = (rx_cap s - length (ts_rx s)) + sum_list (map (\<lambda>(_, d). length d) (ooo s))"

function accept_stream :: "u64 \<Rightarrow> u32 \<Rightarrow> bytes \<Rightarrow> bool \<Rightarrow> tcp_sock \<Rightarrow> after \<times> emitted" where
  "accept_stream tk seq body fin s =
     (if \<not> is_data_state (ts_state s) then (AfterNothing, s, [])
      else let rcv = rcv_nxt s
        in if seq = rcv
           then let s = append_rx body s;
                    s = (if fin then s\<lparr>peer_fin_seq := Some (seq + of_nat (length body)), peer_fin_seen := True\<rparr> else s);
                    s = s\<lparr>unacked_segs := unacked_segs s + 1\<rparr>
                in if ACK_EVERY_N \<le> unacked_segs s
                   then let s = s\<lparr>unacked_segs := 0, last_ack_tick := tk\<rparr>
                        in (AfterNothing, send_ack (ack_options_with_sack s) s)
                   else (SendAck, s, [])
           else if seq_lt rcv seq
           then let off = unat (seq - rcv);
                    s = (if off < max (ooo_room s) 1 \<and> length (ooo s) < OOO_CAP \<and> seq \<notin> set (map fst (ooo s))
                         then s\<lparr>ooo := ooo s @ [(seq, body)]\<rparr> else s)
                in (AfterNothing, send_ack (ack_options_with_sack s) s)
           else let rel = unat (rcv - seq)
                in if rel < length body then accept_stream tk rcv (drop rel body) fin s
                   else (AfterNothing, send_ack (ack_options_with_sack s) s))"
  by pat_completeness auto
termination
  by (relation "measure (\<lambda>(tk, seq, body, fin, s). if seq = rcv_nxt s then 0 else 1)") auto

declare accept_stream.simps [simp del]

text \<open>\<^verbatim>\<open>swap_remove\<close>: the last element takes the place of the removed one.\<close>

definition swap_remove :: "nat \<Rightarrow> 'a list \<Rightarrow> 'a list" where
  "swap_remove i xs = butlast (xs[i := last xs])"

definition find_index :: "('a \<Rightarrow> bool) \<Rightarrow> 'a list \<Rightarrow> nat option" where
  "find_index P xs = find (\<lambda>i. P (xs ! i)) [0..<length xs]"

definition consume_fin :: "u64 \<Rightarrow> tcp_sock \<Rightarrow> tcp_sock" where
  "consume_fin tk s =
     (if peer_fin_seq s = Some (rcv_nxt s)
      then let s = s\<lparr>rcv_nxt := rcv_nxt s + 1\<rparr>
           in (case ts_state s of
                 Established \<Rightarrow> s\<lparr>ts_state := CloseWait\<rparr>
               | SynRcvd \<Rightarrow> s\<lparr>ts_state := CloseWait\<rparr>
               | FinWait1 \<Rightarrow> s\<lparr>ts_state := Closing\<rparr>
               | FinWait2 \<Rightarrow> s\<lparr>ts_state := TimeWait, timewait_deadline := Some (tk + TIME_WAIT_TICKS)\<rparr>
               | _ \<Rightarrow> s)
      else s)"

definition take_ooo :: "nat \<Rightarrow> tcp_sock \<Rightarrow> tcp_sock" where
  "take_ooo i s = append_rx (snd (ooo s ! i)) (s\<lparr>ooo := swap_remove i (ooo s)\<rparr>)"

lemma consume_fin_sel [simp]:
  "ooo (consume_fin tk s) = ooo s" "ts_rx (consume_fin tk s) = ts_rx s" "rx_cap (consume_fin tk s) = rx_cap s"
  "peer_fin_seq (consume_fin tk s) = peer_fin_seq s"
  "rcv_nxt (consume_fin tk s) = (if peer_fin_seq s = Some (rcv_nxt s) then rcv_nxt s + 1 else rcv_nxt s)"
  by (simp_all add: consume_fin_def Let_def split: tcp_state.split)

lemma find_index_Some:
  assumes "find_index P xs = Some i"
  shows "i < length xs" and "P (xs ! i)"
  using assms by (auto simp: find_index_def find_Some_iff)

lemma find_index_None: "find_index P xs = None \<longleftrightarrow> (\<forall>x \<in> set xs. \<not> P x)"
  by (simp add: find_index_def find_None_iff all_set_conv_all_nth)

lemma length_swap_remove [simp]: "length (swap_remove i xs) = length xs - 1"
  by (simp add: swap_remove_def)

lemma append_rx_sel [simp]:
  "ooo (append_rx b s) = ooo s" "rx_cap (append_rx b s) = rx_cap s" "peer_fin_seq (append_rx b s) = peer_fin_seq s"
  by (simp_all add: append_rx_def Let_def)

function consume_fin_and_ooo :: "u64 \<Rightarrow> tcp_sock \<Rightarrow> tcp_sock" where
  "consume_fin_and_ooo tk s =
     (let fin = (peer_fin_seq s = Some (rcv_nxt s)); s = consume_fin tk s
      in case find_index (\<lambda>(sq, _). sq = rcv_nxt s) (ooo s) of
           Some i \<Rightarrow> consume_fin_and_ooo tk (take_ooo i s)
         | None \<Rightarrow> if fin then consume_fin_and_ooo tk s else s)"
  by pat_completeness auto
termination
  by (relation "measures [\<lambda>(tk, s). length (ooo s), \<lambda>(tk, s). if peer_fin_seq s = Some (rcv_nxt s) then 1 else 0]")
    (auto simp: take_ooo_def dest!: find_index_Some(1))

declare consume_fin_and_ooo.simps [simp del]

definition established_input :: "tcp_header \<Rightarrow> bytes \<Rightarrow> u64 \<Rightarrow> u64 \<Rightarrow> tcp_sock \<Rightarrow> emitted" where
  "established_input hdr body now tk s =
     and_then (if th_flags hdr AND TCP_ACK \<noteq> 0 then process_ack hdr now s else (s, [])) (\<lambda>s.
       let has_fin = (th_flags hdr AND TCP_FIN \<noteq> 0);
           (after, r) = (if body \<noteq> [] \<or> has_fin then accept_stream tk (th_seq hdr) body has_fin s
                         else (AfterNothing, s, []))
       in and_then r (\<lambda>s.
            let s = consume_fin_and_ooo tk s
            in if ts_state s \<in> {Established, FinWait1, FinWait2, CloseWait} \<and> after = SendAck
               then send_ack (ack_options_with_sack s) s else (s, [])))"

definition synsent_input :: "tcp_header \<Rightarrow> bytes \<Rightarrow> u64 \<Rightarrow> u64 \<Rightarrow> tcp_sock \<Rightarrow> emitted" where
  "synsent_input hdr body now tk s =
     (if th_flags hdr AND TCP_SYN \<noteq> 0 \<and> th_flags hdr AND TCP_ACK \<noteq> 0
      then if th_ack hdr \<noteq> iss s + 1 then (s, [])
           else let s = s\<lparr>irs := th_seq hdr, rcv_nxt := th_seq hdr + 1, snd_una := th_ack hdr, snd_nxt := th_ack hdr,
                          peer_mss := (case th_mss hdr of Some m \<Rightarrow> m | None \<Rightarrow> DEFAULT_PEER_MSS),
                          sack_ok := offered_sack s \<and> th_sack_permitted hdr\<rparr>;
                    s = (case th_wscale hdr of
                           Some w \<Rightarrow> s\<lparr>snd_scale := min w 14\<rparr>
                         | None \<Rightarrow> s\<lparr>snd_scale := 0, rcv_scale := 0\<rparr>);
                    s = s\<lparr>ever_established := True, ts_state := Established, rto_deadline := None, retries := 0\<rparr>
                in and_then (send_ack [] s) (\<lambda>s. if body \<noteq> [] then established_input hdr body now tk s else (s, []))
      else if th_flags hdr AND TCP_SYN \<noteq> 0
      then (s\<lparr>irs := th_seq hdr, rcv_nxt := th_seq hdr + 1, ts_state := SynRcvd, ctrl_needs_send := True\<rparr>, [])
      else (s, []))"

definition synrcvd_input :: "tcp_header \<Rightarrow> bytes \<Rightarrow> u64 \<Rightarrow> u64 \<Rightarrow> tcp_sock \<Rightarrow> emitted" where
  "synrcvd_input hdr body now tk s =
     (if th_flags hdr AND TCP_ACK \<noteq> 0 \<and> seq_le (snd_una s) (th_ack hdr) \<and> seq_le (th_ack hdr) (snd_nxt s)
      then let s = s\<lparr>ever_established := True, ts_state := Established, rto_deadline := None, retries := 0\<rparr>
           in if body \<noteq> [] then established_input hdr body now tk s else (s, [])
      else (s, []))"

definition rst_acceptable :: "tcp_header \<Rightarrow> tcp_sock \<Rightarrow> bool" where
  "rst_acceptable hdr s =
     (if ts_state s = SynSent then th_ack hdr = iss s + 1
      else let wnd = push_bit (unat (rcv_scale s)) (ucast (rcv_wnd_field s)) :: u32
        in \<not> seq_lt (th_seq hdr) (rcv_nxt s - wnd) \<and> seq_lt (th_seq hdr) (rcv_nxt s + wnd))"

definition connected_input :: "tcp_header \<Rightarrow> bytes \<Rightarrow> u64 \<Rightarrow> u64 \<Rightarrow> tcp_sock \<Rightarrow> emitted" where
  "connected_input hdr body now tk s =
     (if th_flags hdr AND TCP_RST \<noteq> 0
      then if \<not> rst_acceptable hdr s then (s, [])
           else (s\<lparr>refused := (if ever_established s then refused s else True), ts_state := Closed\<rparr>, [])
      else (case ts_state s of
              SynSent \<Rightarrow> synsent_input hdr body now tk s
            | SynRcvd \<Rightarrow> synrcvd_input hdr body now tk s
            | _ \<Rightarrow> established_input hdr body now tk s))"

subsection \<open>The poll step\<close>

definition ctrl_segment :: "tcp_sock \<Rightarrow> emitted" where
  "ctrl_segment s =
     emit (iss s) (if ts_state s = SynSent then 0 else rcv_nxt s)
       (if ts_state s = SynSent then TCP_SYN else TCP_SYN OR TCP_ACK) (ctrl_options (rcv_scale s)) [] s"

definition retransmit :: "tcp_sock \<Rightarrow> emitted" where
  "retransmit s =
     (let outst = unat (outstanding_data s)
      in if outst = 0 \<and> fin_pending s
         then emit (the (fin_seq s)) (rcv_nxt s) (TCP_ACK OR TCP_FIN) [] [] s
         else if 0 < outst
         then (case first_hole s of
                 None \<Rightarrow> (s, [])
               | Some off \<Rightarrow>
                   emit (snd_una s + of_nat off) (rcv_nxt s) (TCP_ACK OR TCP_PSH) []
                     (take (min (effective_mss s) (length (ts_tx s) - off)) (drop off (ts_tx s))) s)
         else if snd_wnd s = 0 \<and> ts_tx s \<noteq> []
         then emit (snd_una s) (rcv_nxt s) TCP_ACK [] [hd (ts_tx s)] s
         else (s, []))"

definition timer_step :: "u64 \<Rightarrow> tcp_sock \<Rightarrow> emitted" where
  "timer_step now s =
     (if (case rto_deadline s of Some d \<Rightarrow> d \<le> now | None \<Rightarrow> False)
      then let s = s\<lparr>retries := retries s + 1, rto_ms := min (saturating_mul (rto_ms s) 2) RTO_MAX_MS,
                     timing_end := None, timing_start := None, ssthresh := halve_window s,
                     cwnd := of_nat (effective_mss s)\<rparr>
        in if ts_state s = SynSent \<or> ts_state s = SynRcvd
           then if CONNECT_MAX_RETRIES < retries s then (s\<lparr>refused := True, ts_state := Closed\<rparr>, [])
                else ctrl_segment (s\<lparr>rto_deadline := Some (now + ucast (rto_ms s))\<rparr>)
           else if DATA_MAX_RETRIES < retries s then (s\<lparr>ts_state := Closed\<rparr>, [])
           else let s = s\<lparr>rto_deadline := Some (now + ucast (rto_ms s))\<rparr>
             in if is_data_state (ts_state s) then retransmit s else (s, [])
      else (s, []))"

definition arm_rto :: "u64 \<Rightarrow> tcp_sock \<Rightarrow> tcp_sock" where
  "arm_rto now s = (if rto_deadline s = None then s\<lparr>rto_deadline := Some (now + ucast (rto_ms s))\<rparr> else s)"

definition tail_ack :: "u64 \<Rightarrow> tcp_sock \<Rightarrow> emitted" where
  "tail_ack now s =
     (if 0 < unacked_segs s \<and> last_ack_tick s + TAIL_ACK_DELAY_TICKS \<le> now
      then and_then (send_ack [] s) (\<lambda>s. (s\<lparr>unacked_segs := 0, last_ack_tick := now\<rparr>, []))
      else (s, []))"

definition window_update :: "u64 \<Rightarrow> tcp_sock \<Rightarrow> emitted" where
  "window_update now s =
     (if wnd_update_pending s \<and> is_data_state (ts_state s)
      then and_then (send_ack [] s) (\<lambda>s.
             (s\<lparr>wnd_update_pending := False, last_adv_free := rx_cap s - length (ts_rx s), unacked_segs := 0,
                last_ack_tick := now\<rparr>, []))
      else (s, []))"

text \<open>
  The loop that sends new data.  Every round sends at least one byte, so as many rounds as there
  are bytes in the send buffer are enough.
\<close>

primrec send_data :: "nat \<Rightarrow> u64 \<Rightarrow> tcp_sock \<Rightarrow> emitted" where
  "send_data 0 now s = (s, [])"
| "send_data (Suc k) now s =
     (let outst = unat (outstanding_data s);
          allowed = unat (min (snd_wnd s) (cwnd s));
          unsent = length (ts_tx s) - outst;
          n = min (effective_mss s) (min (allowed - outst) unsent)
      in if allowed \<le> outst \<or> unsent = 0 \<or> n = 0 then (s, [])
         else let payload = take n (drop outst (ts_tx s));
                  s = (if timing_end s = None
                       then s\<lparr>timing_end := Some (snd_nxt s + of_nat n), timing_start := Some now\<rparr> else s)
              in and_then (emit (snd_nxt s) (rcv_nxt s) (TCP_ACK OR TCP_PSH) [] payload s) (\<lambda>s.
                   send_data k now (arm_rto now (s\<lparr>snd_nxt := snd_nxt s + of_nat n\<rparr>))))"

definition send_fin :: "u64 \<Rightarrow> tcp_sock \<Rightarrow> emitted" where
  "send_fin now s =
     (if close_requested s \<and> fin_seq s = None \<and> unat (outstanding_data s) = length (ts_tx s)
      then and_then (emit (snd_nxt s) (rcv_nxt s) (TCP_ACK OR TCP_FIN) [] [] s) (\<lambda>s.
             (arm_rto now
               (s\<lparr>fin_seq := Some (snd_nxt s), snd_nxt := snd_nxt s + 1,
                  ts_state := (case ts_state s of Established \<Rightarrow> FinWait1 | CloseWait \<Rightarrow> LastAck | st \<Rightarrow> st)\<rparr>), []))
      else (s, []))"

definition output_step :: "u64 \<Rightarrow> tcp_sock \<Rightarrow> emitted" where
  "output_step now s =
     (if ts_state s \<in> {SynSent, SynRcvd}
      then if ctrl_needs_send s
           then and_then (ctrl_segment s) (\<lambda>s. (arm_rto now (s\<lparr>ctrl_needs_send := False\<rparr>), []))
           else (s, [])
      else if ts_state s \<in> {Established, CloseWait, FinWait1, LastAck, Closing}
      then and_then (send_data (length (ts_tx s)) now s) (send_fin now)
      else (s, []))"

definition step_sock :: "u64 \<Rightarrow> tcp_sock \<Rightarrow> emitted" where
  "step_sock now s =
     and_then (timer_step now s) (\<lambda>s. and_then (tail_ack now s) (\<lambda>s. and_then (window_update now s) (output_step now)))"

subsection \<open>The listener\<close>

definition LISTEN_BACKLOG :: nat where "LISTEN_BACKLOG = 16"

text \<open>The child socket for a bare SYN, with the SYN-ACK it answers.\<close>

definition accept_syn :: "tcp_header \<Rightarrow> u16 \<Rightarrow> ip_endpoint \<Rightarrow> u32 \<Rightarrow> emitted" where
  "accept_syn hdr lport src_ep iss0 =
     (let child = (new_child lport src_ep (th_seq hdr) iss0)
                    \<lparr>peer_mss := (case th_mss hdr of Some m \<Rightarrow> m | None \<Rightarrow> DEFAULT_PEER_MSS)\<rparr>;
          child = child\<lparr>sack_ok := offered_sack child \<and> th_sack_permitted hdr\<rparr>;
          child = (case th_wscale hdr of
                     Some w \<Rightarrow> child\<lparr>snd_scale := min w 14, rcv_scale := offer_scale 4096\<rparr>
                   | None \<Rightarrow> child)
      in emit (iss child) (th_seq hdr + 1) (TCP_SYN OR TCP_ACK) (ctrl_options (rcv_scale child)) [] child)"

end
