(* ===== verification/NetStream.thy ===== *)
theory NetStream
  imports NetTcp "HOL-Library.Sublist"
begin

text \<open>
  The byte stream between two TCP sockets.  The sequence numbers of a sender that started at \<open>iss\<close>
  are read as offsets: offset 0 is the SYN, offset \<open>k + 1\<close> byte \<open>k\<close> of the stream, the offset behind
  the last byte the FIN.  The invariant says that the send buffer is the unacknowledged rest of the
  stream, the receive buffer with what was read before a prefix of it, and that every segment ever
  emitted carries a piece of the stream at its sequence number.
\<close>

subsection \<open>Sequence numbers as offsets\<close>

definition stream_max :: nat where "stream_max = 2 ^ 31 - 3"

lemma sint_small:
  assumes "- (2 ^ 31) \<le> x" "x < 2 ^ 31"
  shows "sint (word_of_int x :: u32) = x"
  using assms by (simp add: signed_of_int signed_take_bit_int_eq_self)

lemma seq_lt_off:
  assumes "i < 2 ^ 31" "j < 2 ^ 31"
  shows "seq_lt (a + of_nat i) (a + of_nat j) \<longleftrightarrow> i < j"
proof -
  have "(a + of_nat i) - (a + of_nat j) = (word_of_int (int i - int j) :: u32)"
    by (simp add: of_nat_diff)
  then have "sint ((a + of_nat i) - (a + of_nat j)) = int i - int j"
    using sint_small[of "int i - int j"] assms by simp
  then show ?thesis by (simp add: seq_lt_def)
qed

lemma off_inject:
  assumes "i < 2 ^ 32" "j < 2 ^ 32"
  shows "a + of_nat i = a + (of_nat j :: u32) \<longleftrightarrow> i = j"
  using assms by (simp add: word_of_nat_eq_iff take_bit_nat_eq_self)

lemma seq_le_off:
  assumes "i < 2 ^ 31" "j < 2 ^ 31"
  shows "seq_le (a + of_nat i) (a + of_nat j) \<longleftrightarrow> i \<le> j"
  using assms off_inject[of i j a] by (auto simp: seq_le_def seq_lt_off)

lemma off_diff:
  assumes "i \<le> j" "j < 2 ^ 32"
  shows "unat ((a + of_nat j) - (a + of_nat i) :: u32) = j - i"
  using assms by (simp add: unat_of_nat take_bit_nat_eq_self flip: of_nat_diff)

subsection \<open>The invariants\<close>

text \<open>\<open>d\<close> is the piece of the stream \<open>S\<close> that belongs at \<open>seq\<close>, for a sender that started at \<open>a\<close>.\<close>

definition piece :: "u32 \<Rightarrow> bytes \<Rightarrow> u32 \<Rightarrow> bytes \<Rightarrow> bool" where
  "piece a S seq d \<longleftrightarrow>
     (\<exists>k. seq = a + of_nat (Suc k) \<and> k + length d \<le> length S \<and> d = take (length d) (drop k S))"

text \<open>The send side: the accepted stream \<open>S\<close>, acknowledged up to offset \<open>u\<close>, sent up to offset \<open>n\<close>.\<close>

definition snd_at :: "bytes \<Rightarrow> tcp_sock \<Rightarrow> nat \<Rightarrow> nat \<Rightarrow> bool" where
  "snd_at S s u n \<longleftrightarrow>
     length S \<le> stream_max \<and> snd_una s = iss s + of_nat u \<and> snd_nxt s = iss s + of_nat n \<and> u \<le> n \<and>
     ts_tx s = drop (u - 1) S \<and> (u = 0 \<longrightarrow> S = [] \<and> n = 1) \<and>
     (case fin_seq s of
        None \<Rightarrow> n \<le> Suc (length S)
      | Some f \<Rightarrow> close_requested s \<and> f = iss s + of_nat (Suc (length S)) \<and> n = Suc (Suc (length S)))"

definition snd_ok :: "bytes \<Rightarrow> tcp_sock \<Rightarrow> bool" where
  "snd_ok S s \<longleftrightarrow> (\<exists>u n. snd_at S s u n)"

text \<open>
  The receive side, for a peer that started at \<open>b\<close> with the stream \<open>T\<close>, closed if \<open>d\<close>; \<open>G\<close> is what
  the application has read.  Before the first SYN of the peer there is nothing.
\<close>

definition rcv_at :: "u32 \<Rightarrow> bytes \<Rightarrow> bool \<Rightarrow> bytes \<Rightarrow> tcp_sock \<Rightarrow> nat \<Rightarrow> bool" where
  "rcv_at b T d G s r \<longleftrightarrow>
     ts_state s \<noteq> SynSent \<and> length T \<le> stream_max \<and> rcv_nxt s = b + of_nat r \<and> 1 \<le> r \<and> r \<le> length T + 2 \<and>
     G @ ts_rx s = take (r - 1) T \<and> (r = length T + 2 \<longrightarrow> d) \<and> length (ts_rx s) \<le> rx_cap s \<and>
     (\<forall>x \<in> set (ooo s). piece b T (fst x) (snd x)) \<and>
     (\<forall>f. peer_fin_seq s = Some f \<longrightarrow> d \<and> f = b + of_nat (Suc (length T)))"

definition unsynced :: "tcp_sock \<Rightarrow> bool" where
  "unsynced s \<longleftrightarrow> ts_state s \<in> {SynSent, Closed} \<and> ts_rx s = [] \<and> ooo s = [] \<and> peer_fin_seq s = None \<and>
     unacked_segs s = 0 \<and> ts_tx s = []"

definition rcv_ok :: "u32 \<Rightarrow> bytes \<Rightarrow> bool \<Rightarrow> bytes \<Rightarrow> tcp_sock \<Rightarrow> bool" where
  "rcv_ok b T d G s \<longleftrightarrow> unsynced s \<and> G = [] \<or> (\<exists>r. rcv_at b T d G s r)"

text \<open>A segment of a sender that started at \<open>a\<close> with stream \<open>S\<close>, closed if \<open>c\<close>, to a peer at \<open>b\<close> with stream \<open>T\<close>.\<close>

definition seg_ok :: "u32 \<Rightarrow> bytes \<Rightarrow> bool \<Rightarrow> u32 \<Rightarrow> bytes \<Rightarrow> tcp_seg \<Rightarrow> bool" where
  "seg_ok a S c b T sg \<longleftrightarrow>
     (sg_payload sg \<noteq> [] \<or> sg_flags sg AND TCP_FIN \<noteq> 0 \<longrightarrow> piece a S (sg_seq sg) (sg_payload sg)) \<and>
     (sg_flags sg AND TCP_FIN \<noteq> 0 \<longrightarrow> c \<and> sg_seq sg + of_nat (length (sg_payload sg)) = a + of_nat (Suc (length S))) \<and>
     (sg_flags sg AND TCP_SYN \<noteq> 0 \<longrightarrow> sg_payload sg = [] \<and> sg_seq sg = a) \<and>
     (sg_flags sg AND TCP_ACK \<noteq> 0 \<longrightarrow> (\<exists>r. sg_ack sg = b + of_nat r \<and> r \<le> length T + 2))"

text \<open>One socket: its own stream \<open>S\<close>, the stream \<open>T\<close> of the peer, and what was read of it.\<close>

record side =
  own_iss :: u32
  own :: bytes
  own_closed :: bool
  peer_iss :: u32
  peer :: bytes
  peer_closed :: bool
  got :: bytes

definition sock_ok :: "side \<Rightarrow> tcp_sock \<Rightarrow> bool" where
  "sock_ok w s \<longleftrightarrow> iss s = own_iss w \<and> close_requested s = own_closed w \<and> snd_ok (own w) s \<and>
     (ts_state s = SynSent \<longrightarrow> own w = [] \<and> fin_seq s = None) \<and> length (peer w) \<le> stream_max \<and>
     rcv_ok (peer_iss w) (peer w) (peer_closed w) (got w) s"

definition emits_ok :: "side \<Rightarrow> emitted \<Rightarrow> bool" where
  "emits_ok w r \<longleftrightarrow> sock_ok w (fst r) \<and>
     (\<forall>sg \<in> set (snd r). seg_ok (own_iss w) (own w) (own_closed w) (peer_iss w) (peer w) sg)"

named_theorems stream_intros

lemma emits_ok_quiet [stream_intros]: "sock_ok w s \<Longrightarrow> emits_ok w (s, [])"
  by (simp add: emits_ok_def)

lemma emits_ok_then:
  assumes "emits_ok w r" "sock_ok w (fst r) \<Longrightarrow> emits_ok w (f (fst r))"
  shows "emits_ok w (and_then r f)"
  using assms by (cases r, cases "f (fst r)") (auto simp: emits_ok_def and_then_def)

subsection \<open>Fields the stream does not depend on\<close>

definition same_stream :: "tcp_sock \<Rightarrow> tcp_sock \<Rightarrow> bool" where
  "same_stream s t \<longleftrightarrow>
     iss t = iss s \<and> close_requested t = close_requested s \<and> snd_una t = snd_una s \<and> snd_nxt t = snd_nxt s \<and>
     ts_tx t = ts_tx s \<and> fin_seq t = fin_seq s \<and> rcv_nxt t = rcv_nxt s \<and> ts_rx t = ts_rx s \<and> rx_cap t = rx_cap s \<and>
     ooo t = ooo s \<and> peer_fin_seq t = peer_fin_seq s"

text \<open>A change of the state or of the acknowledgement counter is harmless unless the socket is not synchronised.\<close>

definition calm :: "tcp_sock \<Rightarrow> tcp_sock \<Rightarrow> bool" where
  "calm s t \<longleftrightarrow> (ts_state t = SynSent \<longrightarrow> ts_state s = SynSent) \<and>
     (ts_state s \<in> {SynSent, Closed} \<longrightarrow>
        (ts_state t = ts_state s \<or> ts_state t = Closed) \<and> (unacked_segs s = 0 \<longrightarrow> unacked_segs t = 0))"

lemma sock_ok_same:
  assumes "sock_ok w s" "same_stream s t" "calm s t"
  shows "sock_ok w t"
proof -
  note eq = assms(2)[unfolded same_stream_def]
  have snd: "snd_at S t u n \<longleftrightarrow> snd_at S s u n" for S u n
    by (simp add: snd_at_def eq split: option.split)
  have rcv: "rcv_at b T d G s r \<Longrightarrow> rcv_at b T d G t r" for b T d G r
    using assms(3) by (auto simp: rcv_at_def eq calm_def)
  have uns: "unsynced s \<Longrightarrow> unsynced t"
    using assms(3) by (auto simp: unsynced_def eq calm_def)
  have "ts_state t = SynSent \<Longrightarrow> ts_state s = SynSent"
    using assms(3) by (simp add: calm_def)
  then show ?thesis
    using assms(1) uns rcv eq unfolding sock_ok_def snd_ok_def rcv_ok_def snd by metis
qed

lemma sock_ok_upd [stream_intros]:
  assumes "sock_ok w s"
  shows "sock_ok w (s\<lparr>snd_wnd := x0\<rparr>)"
    and "sock_ok w (s\<lparr>snd_scale := x1\<rparr>)"
    and "sock_ok w (s\<lparr>ctrl_needs_send := x2\<rparr>)"
    and "sock_ok w (s\<lparr>irs := x3\<rparr>)"
    and "sock_ok w (s\<lparr>rcv_scale := x4\<rparr>)"
    and "sock_ok w (s\<lparr>peer_mss := x5\<rparr>)"
    and "sock_ok w (s\<lparr>peer_fin_seen := x6\<rparr>)"
    and "sock_ok w (s\<lparr>tx_cap := x7\<rparr>)"
    and "sock_ok w (s\<lparr>ever_established := x8\<rparr>)"
    and "sock_ok w (s\<lparr>last_ack_tick := x9\<rparr>)"
    and "sock_ok w (s\<lparr>last_adv_free := x10\<rparr>)"
    and "sock_ok w (s\<lparr>wnd_update_pending := x11\<rparr>)"
    and "sock_ok w (s\<lparr>refused := x12\<rparr>)"
    and "sock_ok w (s\<lparr>sack_ok := x13\<rparr>)"
    and "sock_ok w (s\<lparr>sacked := x14\<rparr>)"
    and "sock_ok w (s\<lparr>cwnd := x15\<rparr>)"
    and "sock_ok w (s\<lparr>ssthresh := x16\<rparr>)"
    and "sock_ok w (s\<lparr>dup_acks := x17\<rparr>)"
    and "sock_ok w (s\<lparr>rto_ms := x18\<rparr>)"
    and "sock_ok w (s\<lparr>rto_deadline := x19\<rparr>)"
    and "sock_ok w (s\<lparr>retries := x20\<rparr>)"
    and "sock_ok w (s\<lparr>rtt_srtt_ms := x21\<rparr>)"
    and "sock_ok w (s\<lparr>rtt_var_ms := x22\<rparr>)"
    and "sock_ok w (s\<lparr>timing_end := x23\<rparr>)"
    and "sock_ok w (s\<lparr>timing_start := x24\<rparr>)"
    and "sock_ok w (s\<lparr>timewait_deadline := x25\<rparr>)"
  by (rule sock_ok_same[OF assms]; simp add: same_stream_def calm_def)+

lemma sock_ok_state [stream_intros]:
  assumes "sock_ok w s" "x = Closed \<or> ts_state s \<notin> {SynSent, Closed} \<and> x \<noteq> SynSent"
  shows "sock_ok w (s\<lparr>ts_state := x\<rparr>)"
  using assms(2) by (auto intro!: sock_ok_same[OF assms(1)] simp: same_stream_def calm_def)

lemma sock_ok_unacked [stream_intros]:
  assumes "sock_ok w s" "x = 0 \<or> ts_state s \<notin> {SynSent, Closed}"
  shows "sock_ok w (s\<lparr>unacked_segs := x\<rparr>)"
  using assms(2) by (auto intro!: sock_ok_same[OF assms(1)] simp: same_stream_def calm_def)

lemma sock_ok_helpers [stream_intros]:
  assumes "sock_ok w s"
  shows "sock_ok w (rtt_sample ack now s)" and "sock_ok w (grow_cwnd s)" and "sock_ok w (prune_sacked s)"
    and "sock_ok w (arm_rto now s)"
  using assms
  by (auto simp: rtt_sample_def grow_cwnd_def prune_sacked_def arm_rto_def Let_def
      intro!: stream_intros split: option.split)

lemma sock_ok_note_sacked [stream_intros]: "sock_ok w s \<Longrightarrow> sock_ok w (note_sacked blocks s)"
  by (auto simp: note_sacked_def Let_def intro!: stream_intros)

lemma sock_ok_fin_transitions [stream_intros]: "sock_ok w s \<Longrightarrow> sock_ok w (fin_transitions ack now s)"
  by (auto simp: fin_transitions_def intro!: stream_intros split: option.split tcp_state.split)

subsection \<open>The send side\<close>

lemmas tcp_flag_defs = TCP_FIN_def TCP_SYN_def TCP_RST_def TCP_PSH_def TCP_ACK_def

lemma tcp_flags [simp]:
  "TCP_ACK AND TCP_FIN = 0" "TCP_ACK AND TCP_SYN = 0" "TCP_ACK AND TCP_ACK \<noteq> 0"
  "(TCP_ACK OR TCP_PSH) AND TCP_FIN = 0" "(TCP_ACK OR TCP_PSH) AND TCP_SYN = 0"
  "(TCP_ACK OR TCP_FIN) AND TCP_SYN = 0" "TCP_SYN AND TCP_FIN = 0" "TCP_SYN AND TCP_ACK = 0"
  "(TCP_SYN OR TCP_ACK) AND TCP_FIN = 0"
  by (simp_all add: tcp_flag_defs)

lemma snd_at_bounds:
  assumes "snd_at S s u n"
  shows "u \<le> n" "n \<le> length S + 2" "n < 2 ^ 31" "u < 2 ^ 31" "Suc (length S) < 2 ^ 31"
  using assms by (auto simp: snd_at_def stream_max_def split: option.splits)

lemma outstanding_at:
  assumes at: "snd_at S s u n"
  shows "unat (outstanding_data s) = min n (Suc (length S)) - min u (Suc (length S))"
proof -
  note b = snd_at_bounds[OF at]
  have una: "snd_una s = iss s + of_nat u" and nxt: "snd_nxt s = iss s + of_nat n"
    using at by (simp_all add: snd_at_def)
  have raw: "unat (snd_nxt s - snd_una s) = n - u"
    unfolding una nxt using b by (intro off_diff) auto
  show ?thesis
  proof (cases "fin_seq s")
    case None
    then show ?thesis
      using at raw by (simp add: outstanding_data_def fin_pending_def snd_at_def)
  next
    case (Some f)
    then have f: "f = iss s + of_nat (Suc (length S))" "n = length S + 2"
      using at by (simp_all add: snd_at_def)
    have "seq_le (snd_una s) f \<longleftrightarrow> u \<le> Suc (length S)"
      unfolding una f(1) by (rule seq_le_off) (use b in simp_all)
    then have pend: "fin_pending s \<longleftrightarrow> u \<le> Suc (length S)"
      by (simp add: fin_pending_def Some)
    have "1 \<le> snd_nxt s - snd_una s" if "u \<le> Suc (length S)"
      using raw that f(2) by (simp add: word_le_nat_alt)
    then show ?thesis
      using raw f(2) b pend
      by (auto simp: outstanding_data_def saturating_sub_def unat_sub min_def Let_def)
  qed
qed

lemma piece_tx:
  assumes at: "snd_at S s u n" and u: "0 < u" and m: "off + m \<le> length (ts_tx s)" "0 < m"
  shows "piece (iss s) S (snd_una s + of_nat off) (take m (drop off (ts_tx s)))"
proof -
  have tx: "ts_tx s = drop (u - 1) S" and una: "snd_una s = iss s + of_nat u"
    using at by (simp_all add: snd_at_def)
  have "take m (drop off (ts_tx s)) = take m (drop (u - 1 + off) S)"
    by (simp add: tx add.commute)
  moreover have "snd_una s + of_nat off = iss s + of_nat (Suc (u - 1 + off))"
    using u by (simp add: una)
  moreover have "u - 1 + off + m \<le> length S"
    using m u by (auto simp: tx)
  ultimately show ?thesis
    unfolding piece_def by (intro exI[of _ "u - 1 + off"]) (simp add: min_def)
qed

text \<open>An acknowledgement that the peer can have sent and that passes the check of \<^verbatim>\<open>process_ack\<close>.\<close>

lemma ack_advance_at:
  assumes at: "snd_at S s u n" and r: "th_ack hdr = iss s + of_nat r" "r \<le> length S + 2"
    and valid: "seq_lt (snd_una s) (th_ack hdr)" "seq_le (th_ack hdr) (snd_nxt s)"
  shows "snd_at S (s\<lparr>ts_tx := drop (min (unat (th_ack hdr - snd_una s)) (length (ts_tx s))) (ts_tx s),
                      snd_una := th_ack hdr\<rparr>) r n"
proof -
  note b = snd_at_bounds[OF at]
  have una: "snd_una s = iss s + of_nat u" and nxt: "snd_nxt s = iss s + of_nat n" and tx: "ts_tx s = drop (u - 1) S"
    using at by (simp_all add: snd_at_def)
  have r31: "r < 2 ^ 31"
    using r(2) at by (simp add: snd_at_def stream_max_def)
  have ur: "u < r"
    using valid(1) b r31 by (simp add: una r(1) seq_lt_off)
  have rn: "r \<le> n"
    using valid(2) b r31 by (simp add: nxt r(1) seq_le_off)
  have adv: "unat (th_ack hdr - snd_una s) = r - u"
    unfolding una r(1) using ur r31 by (intro off_diff) auto
  have "drop (min (r - u) (length (ts_tx s))) (ts_tx s) = drop (r - 1) S"
  proof (cases "u = 0")
    case True
    then show ?thesis using at by (simp add: snd_at_def)
  next
    case False
    then have "drop (r - u) (ts_tx s) = drop (r - 1) S"
      using ur by (simp add: tx)
    moreover have "drop (min k (length (ts_tx s))) (ts_tx s) = drop k (ts_tx s)" for k
      by (simp add: min_def)
    ultimately show ?thesis by simp
  qed
  then have D: "drop (min (unat (th_ack hdr - snd_una s)) (length (ts_tx s))) (ts_tx s) = drop (r - 1) S"
    by (simp only: adv)
  show ?thesis
    unfolding D using at ur rn r by (auto simp: snd_at_def split: option.splits)
qed

definition ack_ok :: "side \<Rightarrow> tcp_header \<Rightarrow> bool" where
  "ack_ok w hdr \<longleftrightarrow> (\<exists>r. th_ack hdr = own_iss w + of_nat r \<and> r \<le> length (own w) + 2)"

lemma piece_end: "piece a S (a + of_nat (Suc (length S))) []"
  unfolding piece_def by (intro exI[of _ "length S"]) simp

lemma emits_ok_emit:
  assumes "sock_ok w s"
    and "payload \<noteq> [] \<Longrightarrow> piece (own_iss w) (own w) seq payload"
    and "flags AND TCP_FIN \<noteq> 0 \<Longrightarrow> own_closed w \<and> payload = [] \<and> seq = own_iss w + of_nat (Suc (length (own w)))"
    and "flags AND TCP_SYN \<noteq> 0 \<Longrightarrow> payload = [] \<and> seq = own_iss w"
    and "flags AND TCP_ACK \<noteq> 0 \<Longrightarrow> ack = rcv_nxt s \<and> \<not> unsynced s"
  shows "emits_ok w (emit seq ack flags opts payload s)"
proof -
  have acked: "\<exists>r. rcv_nxt s = peer_iss w + of_nat r \<and> r \<le> length (peer w) + 2" if "\<not> unsynced s"
    using assms(1) that by (auto simp: sock_ok_def rcv_ok_def rcv_at_def)
  have data: "piece (own_iss w) (own w) seq payload" if "payload \<noteq> [] \<or> flags AND TCP_FIN \<noteq> 0"
  proof (cases "payload = []")
    case True
    then have "seq = own_iss w + of_nat (Suc (length (own w)))"
      using that assms(3) by blast
    then show ?thesis
      using True piece_end by simp
  qed (rule assms(2))
  have fin: "own_closed w \<and> seq + of_nat (length payload) = own_iss w + of_nat (Suc (length (own w)))"
    if "flags AND TCP_FIN \<noteq> 0"
    using assms(3)[OF that] by (elim conjE) simp
  have "seg_ok (own_iss w) (own w) (own_closed w) (peer_iss w) (peer w)
      \<lparr>sg_seq = seq, sg_ack = ack, sg_flags = flags, sg_window = x, sg_opts = opts, sg_payload = payload\<rparr>" for x
    unfolding seg_ok_def tcp_seg.simps using data fin assms(4,5) acked by blast
  moreover have "sock_ok w (s\<lparr>last_adv_free := rx_cap s - length (ts_rx s)\<rparr>)"
    by (rule stream_intros) (rule assms)
  ultimately show ?thesis
    by (simp add: emits_ok_def emit_def)
qed

lemma send_ack_ok:
  assumes "sock_ok w s" "\<not> unsynced s"
  shows "emits_ok w (send_ack opts s)"
  unfolding send_ack_def by (rule emits_ok_emit) (use assms in simp_all)

lemma sock_ok_tx:
  assumes ok: "sock_ok w s" and tx: "ts_tx s \<noteq> []"
  obtains u n where "snd_at (own w) s u n" "0 < u" "\<not> unsynced s"
proof -
  from ok obtain u n where at: "snd_at (own w) s u n"
    by (auto simp: sock_ok_def snd_ok_def)
  then have "0 < u"
    using tx by (cases u) (auto simp: snd_at_def)
  then show thesis
    using that[OF at] tx by (simp add: unsynced_def)
qed

lemma sock_ok_ack_advance:
  assumes ok: "sock_ok w s" and a: "ack_ok w hdr"
    and valid: "seq_lt (snd_una s) (th_ack hdr)" "seq_le (th_ack hdr) (snd_nxt s)"
  shows "sock_ok w (ack_advance hdr now s)"
proof -
  define t where "t = s\<lparr>ts_tx := drop (min (unat (th_ack hdr - snd_una s)) (length (ts_tx s))) (ts_tx s),
                         snd_una := th_ack hdr\<rparr>"
  from ok obtain u n where at: "snd_at (own w) s u n" and iss: "iss s = own_iss w"
    by (auto simp: sock_ok_def snd_ok_def)
  from a obtain r where r: "th_ack hdr = iss s + of_nat r" "r \<le> length (own w) + 2"
    by (auto simp: ack_ok_def iss)
  have snd: "snd_ok (own w) t"
    unfolding t_def snd_ok_def using ack_advance_at[OF at r valid] by blast
  have "rcv_ok b T d G t \<longleftrightarrow> rcv_ok b T d G s" if "unsynced s \<longleftrightarrow> unsynced t" for b T d G
    using that by (simp add: t_def rcv_ok_def rcv_at_def)
  moreover have "unsynced s \<Longrightarrow> unsynced t"
    by (simp add: t_def unsynced_def)
  ultimately have "sock_ok w t"
    using ok snd by (auto simp: sock_ok_def t_def rcv_ok_def rcv_at_def)
  then show ?thesis
    unfolding ack_advance_def Let_def t_def[symmetric] by (auto intro!: stream_intros)
qed

lemma process_ack_ok:
  assumes ok: "sock_ok w s" and a: "ack_ok w hdr"
  shows "emits_ok w (process_ack hdr now s)"
proof (cases "seq_lt (snd_una s) (th_ack hdr) \<and> seq_le (th_ack hdr) (snd_nxt s)")
  case True
  then show ?thesis
    using sock_ok_ack_advance[OF ok a] by (auto simp: process_ack_def Let_def intro!: stream_intros)
next
  case False
  define s1 where "s1 = s\<lparr>dup_acks := saturating_add (dup_acks s) 1\<rparr>"
  define n where "n = min (min (effective_mss s1) (length (ts_tx s1))) 65535"
  define s2 where "s2 = s1\<lparr>ssthresh := halve_window s1, cwnd := halve_window s1, dup_acks := 0,
                            rto_deadline := Some (now + ucast (rto_ms s1))\<rparr>"
  have ok1: "sock_ok w s1"
    unfolding s1_def using ok by (intro stream_intros)
  have fast: "emits_ok w (emit (snd_una s1) (rcv_nxt s1) (TCP_ACK OR TCP_PSH) [] (take n (ts_tx s1)) s2)" if "0 < n"
  proof (rule emits_ok_emit)
    show ok2: "sock_ok w s2"
      unfolding s2_def using ok1 by (intro stream_intros)
    from that have "ts_tx s2 \<noteq> []"
      by (auto simp: n_def s2_def)
    from sock_ok_tx[OF ok2 this] obtain u m where at: "snd_at (own w) s2 u m" "0 < u" "\<not> unsynced s2" .
    have "0 + n \<le> length (ts_tx s2)"
      by (simp add: n_def s2_def)
    from piece_tx[OF at(1,2) this that] show "piece (own_iss w) (own w) (snd_una s1) (take n (ts_tx s1))"
      using ok2 by (simp add: s2_def sock_ok_def)
    show "rcv_nxt s1 = rcv_nxt s2 \<and> \<not> unsynced s2"
      using at(3) by (simp add: s2_def)
  qed simp_all
  show ?thesis
    using False fast ok ok1
    unfolding process_ack_def Let_def s1_def[symmetric] n_def[symmetric] s2_def[symmetric]
    by (auto intro!: stream_intros)
qed

subsection \<open>The poll step\<close>

lemma fst_and_then [simp]: "fst (and_then r f) = fst (f (fst r))"
  by (cases r, cases "f (fst r)") (auto simp: and_then_def)

lemma fst_emit [simp]: "fst (emit seq ack flags opts payload s) = s\<lparr>last_adv_free := rx_cap s - length (ts_rx s)\<rparr>"
  by (simp add: emit_def)

lemma fst_send_ack [simp]: "fst (send_ack opts s) = s\<lparr>last_adv_free := rx_cap s - length (ts_rx s)\<rparr>"
  by (simp add: send_ack_def)

lemma fst_ctrl_segment [simp]: "fst (ctrl_segment s) = s\<lparr>last_adv_free := rx_cap s - length (ts_rx s)\<rparr>"
  by (simp add: ctrl_segment_def)

lemma hole_scan_le: "hole_scan una outst off xs = Some k \<Longrightarrow> k \<le> outst"
  by (induction una outst off xs rule: hole_scan.induct) (auto split: if_splits)

lemma retransmit_ok:
  assumes ok: "sock_ok w s" and st: "is_data_state (ts_state s)"
  shows "emits_ok w (retransmit s)"
proof -
  have syn: "\<not> unsynced s"
    using st by (auto simp: unsynced_def is_data_state_def)
  have data: "emits_ok w (emit (snd_una s + of_nat off) (rcv_nxt s) flags []
      (take (min (effective_mss s) (length (ts_tx s) - off)) (drop off (ts_tx s))) s)"
    if "flags = (TCP_ACK OR TCP_PSH)" for off flags
  proof (rule emits_ok_emit[OF ok])
    define m where "m = min (effective_mss s) (length (ts_tx s) - off)"
    assume "take (min (effective_mss s) (length (ts_tx s) - off)) (drop off (ts_tx s)) \<noteq> []"
    then have m: "0 < m" "off < length (ts_tx s)"
      by (auto simp: m_def)
    then have "ts_tx s \<noteq> []" by auto
    from sock_ok_tx[OF ok this] obtain u n where at: "snd_at (own w) s u n" "0 < u" .
    have "off + m \<le> length (ts_tx s)"
      using m(2) by (simp add: m_def)
    from piece_tx[OF at this m(1)]
    show "piece (own_iss w) (own w) (snd_una s + of_nat off)
        (take (min (effective_mss s) (length (ts_tx s) - off)) (drop off (ts_tx s)))"
      using ok by (simp add: m_def sock_ok_def)
  qed (use syn that in simp_all)
  have fin: "emits_ok w (emit (the (fin_seq s)) (rcv_nxt s) (TCP_ACK OR TCP_FIN) [] [] s)" if "fin_pending s"
    by (rule emits_ok_emit[OF ok]) (use that ok syn in \<open>auto simp: fin_pending_def sock_ok_def snd_ok_def snd_at_def split: option.splits\<close>)
  have probe: "emits_ok w (emit (snd_una s) (rcv_nxt s) TCP_ACK [] [hd (ts_tx s)] s)" if tx: "ts_tx s \<noteq> []"
  proof (rule emits_ok_emit[OF ok])
    from sock_ok_tx[OF ok tx] obtain u n where at: "snd_at (own w) s u n" "0 < u" .
    have "0 + 1 \<le> length (ts_tx s)"
      using tx by (cases "ts_tx s") auto
    from piece_tx[OF at this] show "piece (own_iss w) (own w) (snd_una s) [hd (ts_tx s)]"
      using ok tx by (cases "ts_tx s") (auto simp: sock_ok_def)
  qed (use syn in simp_all)
  show ?thesis
    using ok data fin probe by (auto simp: retransmit_def Let_def intro!: stream_intros split: option.split)
qed

lemma ctrl_segment_ok:
  assumes "sock_ok w s" "ts_state s \<in> {SynSent, SynRcvd}"
  shows "emits_ok w (ctrl_segment s)"
  unfolding ctrl_segment_def
  by (rule emits_ok_emit) (use assms in \<open>auto simp: sock_ok_def unsynced_def split: if_splits\<close>)

lemma timer_step_ok:
  assumes "sock_ok w s"
  shows "emits_ok w (timer_step now s)"
proof -
  define t where "t = s\<lparr>retries := retries s + 1, rto_ms := min (saturating_mul (rto_ms s) 2) RTO_MAX_MS,
                     timing_end := None, timing_start := None, ssthresh := halve_window s,
                     cwnd := of_nat (effective_mss s)\<rparr>"
  have t: "sock_ok w t" "sock_ok w (t\<lparr>rto_deadline := d\<rparr>)" for d
    unfolding t_def using assms by (auto intro!: stream_intros)
  show ?thesis
    unfolding timer_step_def Let_def t_def[symmetric]
    using assms t by (auto intro!: stream_intros retransmit_ok ctrl_segment_ok)
qed

lemma tail_ack_ok:
  assumes "sock_ok w s"
  shows "emits_ok w (tail_ack now s)"
  unfolding tail_ack_def using assms
  by (auto intro!: emits_ok_then send_ack_ok stream_intros simp: unsynced_def)

lemma window_update_ok:
  assumes "sock_ok w s"
  shows "emits_ok w (window_update now s)"
  unfolding window_update_def using assms
  by (auto intro!: emits_ok_then send_ack_ok stream_intros simp: unsynced_def is_data_state_def)

lemma snd_at_more:
  assumes at: "snd_at S s u n" and u: "0 < u" and m: "unat (outstanding_data s) + m \<le> length (ts_tx s)" "0 < m"
  shows "snd_at S (s\<lparr>snd_nxt := snd_nxt s + of_nat m\<rparr>) u (n + m)"
    and "snd_nxt s = snd_una s + of_nat (unat (outstanding_data s))"
proof -
  have tx: "length (ts_tx s) = length S - (u - 1)"
    using at by (simp add: snd_at_def)
  have fin: "fin_seq s = None"
  proof (cases "fin_seq s")
    case (Some f)
    then show ?thesis
      using at u m tx by (auto simp: outstanding_at[OF at] snd_at_def)
  qed simp
  then have n: "n \<le> Suc (length S)" "u \<le> n" and nxt: "snd_una s = iss s + of_nat u" "snd_nxt s = iss s + of_nat n"
    using at by (simp_all add: snd_at_def)
  then have out: "unat (outstanding_data s) = n - u"
    using outstanding_at[OF at] by simp
  then show "snd_nxt s = snd_una s + of_nat (unat (outstanding_data s))"
    using n(2) by (simp add: nxt flip: of_nat_add)
  have "n + m \<le> Suc (length S)"
    using m u n out tx by linarith
  then show "snd_at S (s\<lparr>snd_nxt := snd_nxt s + of_nat m\<rparr>) u (n + m)"
    using at u n(2) fin by (simp add: snd_at_def)
qed

lemma sock_ok_snd:
  assumes "sock_ok w s" "snd_ok (own w) t" "iss t = iss s" "close_requested t = close_requested s" "ts_tx t = ts_tx s"
    "rcv_nxt t = rcv_nxt s" "ts_rx t = ts_rx s" "rx_cap t = rx_cap s" "ooo t = ooo s" "peer_fin_seq t = peer_fin_seq s"
    "\<not> unsynced s" "ts_state t = ts_state s"
  shows "sock_ok w t"
proof -
  from assms obtain r where "rcv_at (peer_iss w) (peer w) (peer_closed w) (got w) s r"
    by (auto simp: sock_ok_def rcv_ok_def)
  then have "ts_state t \<noteq> SynSent" "rcv_at (peer_iss w) (peer w) (peer_closed w) (got w) t r"
    using assms by (auto simp: rcv_at_def)
  then show ?thesis
    using assms by (auto simp: sock_ok_def rcv_ok_def)
qed

lemma send_data_ok:
  assumes "sock_ok w s"
  shows "emits_ok w (send_data k now s)"
  using assms
proof (induction k arbitrary: s)
  case (Suc k)
  define outst where "outst = unat (outstanding_data s)"
  define m where "m = min (effective_mss s) (min (unat (min (snd_wnd s) (cwnd s)) - outst) (length (ts_tx s) - outst))"
  define t where "t = (if timing_end s = None
                       then s\<lparr>timing_end := Some (snd_nxt s + of_nat m), timing_start := Some now\<rparr> else s)"
  have t: "sock_ok w t" "ts_tx t = ts_tx s" "outstanding_data t = outstanding_data s"
    using Suc.prems by (auto simp: t_def outstanding_data_def fin_pending_def intro!: stream_intros split: option.split)
  have step: "emits_ok w (and_then (emit (snd_nxt t) (rcv_nxt t) (TCP_ACK OR TCP_PSH) [] (take m (drop outst (ts_tx s))) t)
      (\<lambda>s. send_data k now (arm_rto now (s\<lparr>snd_nxt := snd_nxt s + of_nat m\<rparr>))))" if m0: "0 < m"
  proof (rule emits_ok_then)
    have len: "unat (outstanding_data t) + m \<le> length (ts_tx t)"
      using m0 t by (auto simp: m_def outst_def)
    then have "ts_tx t \<noteq> []" using m0 by auto
    from sock_ok_tx[OF t(1) this] obtain u n where at: "snd_at (own w) t u n" "0 < u" "\<not> unsynced t" .
    note more = snd_at_more[OF at(1,2) len m0]
    show "emits_ok w (emit (snd_nxt t) (rcv_nxt t) (TCP_ACK OR TCP_PSH) [] (take m (drop outst (ts_tx s))) t)"
    proof (rule emits_ok_emit[OF t(1)])
      show "piece (own_iss w) (own w) (snd_nxt t) (take m (drop outst (ts_tx s)))"
        using piece_tx[OF at(1,2) len m0] more(2) t by (simp add: outst_def sock_ok_def)
    qed (use at in simp_all)
    have "snd_at (own w) (t\<lparr>last_adv_free := x, snd_nxt := snd_nxt t + of_nat m\<rparr>) u (n + m)" for x
      using more(1) by (simp add: snd_at_def split: option.splits)
    then have "sock_ok w (t\<lparr>last_adv_free := x, snd_nxt := snd_nxt t + of_nat m\<rparr>)" for x
      by (intro sock_ok_snd[OF t(1)]) (use at(3) in \<open>auto simp: snd_ok_def\<close>)
    then show "emits_ok w (send_data k now (arm_rto now (fst (emit (snd_nxt t) (rcv_nxt t) (TCP_ACK OR TCP_PSH) []
        (take m (drop outst (ts_tx s))) t)\<lparr>snd_nxt := snd_nxt (fst (emit (snd_nxt t) (rcv_nxt t) (TCP_ACK OR TCP_PSH) []
        (take m (drop outst (ts_tx s))) t)) + of_nat m\<rparr>)))"
      by (intro Suc.IH stream_intros) simp
  qed
  show ?case
    unfolding send_data.simps Let_def outst_def[symmetric] m_def[symmetric] t_def[symmetric]
    using Suc.prems step by (auto intro!: stream_intros)
qed (simp add: stream_intros)

lemma state_arm_rto [simp]: "ts_state (arm_rto now s) = ts_state s"
  by (simp add: arm_rto_def)

lemma send_data_state [simp]: "ts_state (fst (send_data k now s)) = ts_state s"
  by (induction k arbitrary: s) (simp_all add: Let_def)

lemma send_fin_ok:
  assumes ok: "sock_ok w s" and st: "ts_state s \<notin> {SynSent, Closed}"
  shows "emits_ok w (send_fin now s)"
proof (cases "close_requested s \<and> fin_seq s = None \<and> unat (outstanding_data s) = length (ts_tx s)")
  case True
  from ok obtain u n where at: "snd_at (own w) s u n"
    by (auto simp: sock_ok_def snd_ok_def)
  have n: "n = Suc (length (own w))" and u: "0 < u"
    using at True outstanding_at[OF at] by (cases u; auto simp: snd_at_def)+
  have syn: "\<not> unsynced s"
    using st by (auto simp: unsynced_def)
  have "emits_ok w (emit (snd_nxt s) (rcv_nxt s) (TCP_ACK OR TCP_FIN) [] [] s)"
    by (rule emits_ok_emit[OF ok]) (use at n ok True syn in \<open>simp_all add: snd_at_def sock_ok_def\<close>)
  moreover have "snd_at (own w) (s\<lparr>last_adv_free := x, fin_seq := Some (snd_nxt s), snd_nxt := snd_nxt s + 1\<rparr>) u (Suc n)" for x
    using at n u True by (simp add: snd_at_def algebra_simps)
  then have "sock_ok w (s\<lparr>last_adv_free := x, fin_seq := Some (snd_nxt s), snd_nxt := snd_nxt s + 1\<rparr>)" for x
    by (intro sock_ok_snd[OF ok]) (use syn in \<open>auto simp: snd_ok_def\<close>)
  then have "sock_ok w (s\<lparr>last_adv_free := x, fin_seq := Some (snd_nxt s), snd_nxt := snd_nxt s + 1,
      ts_state := (case ts_state s of Established \<Rightarrow> FinWait1 | CloseWait \<Rightarrow> LastAck | st \<Rightarrow> st)\<rparr>)" for x
    by (intro stream_intros) (use st in \<open>auto split: tcp_state.split\<close>)
  ultimately show ?thesis
    unfolding send_fin_def using True by (auto intro!: emits_ok_then emits_ok_quiet sock_ok_helpers(4))
next
  case False
  then show ?thesis
    unfolding send_fin_def if_not_P[OF False] using ok by (intro stream_intros)
qed

lemma output_step_ok:
  assumes "sock_ok w s"
  shows "emits_ok w (output_step now s)"
  unfolding output_step_def using assms
  by (auto intro!: emits_ok_then stream_intros ctrl_segment_ok send_data_ok send_fin_ok)

lemma step_sock_ok:
  assumes "sock_ok w s"
  shows "emits_ok w (step_sock now s)"
  unfolding step_sock_def
  by (intro emits_ok_then timer_step_ok tail_ack_ok window_update_ok output_step_ok assms)

subsection \<open>The receive side\<close>

lemma rcv_at_bounds:
  assumes "rcv_at b T d G s r"
  shows "1 \<le> r" "r \<le> length T + 2" "r < 2 ^ 32" "Suc (length T) < 2 ^ 32"
  using assms by (auto simp: rcv_at_def stream_max_def)

text \<open>A piece of the stream that starts where the receiver stands extends what it has.\<close>

lemma append_rx_at:
  assumes at: "rcv_at b T d G s r" and p: "piece b T (rcv_nxt s) body"
  shows "\<exists>m \<le> length body. rcv_at b T d G (append_rx body s) (r + m)"
proof -
  define m where "m = min (rx_cap s - length (ts_rx s)) (length body)"
  note bd = rcv_at_bounds[OF at]
  from p obtain k where k: "rcv_nxt s = b + of_nat (Suc k)" "k + length body \<le> length T"
      "body = take (length body) (drop k T)"
    by (auto simp: piece_def)
  have "rcv_nxt s = b + of_nat r"
    using at by (simp add: rcv_at_def)
  then have r: "r = Suc k"
    using k(1,2) bd off_inject[of r "Suc k" b] by (metis le_add1 le_trans not_less Suc_le_mono leI order.strict_trans1)
  have "take m body = take m (drop k T)"
    using k(3) by (metis m_def min.commute min.right_idem take_take)
  then have "G @ ts_rx s @ take m body = take (r + m - 1) T"
    using at r by (simp add: rcv_at_def take_add flip: append_assoc)
  then have "rcv_at b T d G (append_rx body s) (r + m)"
    using at k(2) r by (auto simp: rcv_at_def append_rx_def Let_def m_def[symmetric] min_def m_def)
  then show ?thesis
    by (intro exI[of _ m]) (simp add: m_def)
qed

definition same_send :: "tcp_sock \<Rightarrow> tcp_sock \<Rightarrow> bool" where
  "same_send s t \<longleftrightarrow> iss t = iss s \<and> close_requested t = close_requested s \<and> snd_una t = snd_una s \<and>
     snd_nxt t = snd_nxt s \<and> ts_tx t = ts_tx s \<and> fin_seq t = fin_seq s"

lemma sock_ok_rcv:
  assumes "sock_ok w s" "same_send s t" "rcv_at (peer_iss w) (peer w) (peer_closed w) (got w) t r"
  shows "sock_ok w t"
proof -
  have "snd_at S t u n \<longleftrightarrow> snd_at S s u n" for S u n
    using assms(2) by (simp add: snd_at_def same_send_def split: option.split)
  then show ?thesis
    using assms by (auto simp: sock_ok_def same_send_def snd_ok_def rcv_ok_def rcv_at_def)
qed

lemma sock_ok_synced:
  assumes "sock_ok w s" "\<not> unsynced s"
  obtains r where "rcv_at (peer_iss w) (peer w) (peer_closed w) (got w) s r"
  using assms by (auto simp: sock_ok_def rcv_ok_def)

lemma same_send_rx [simp]: "same_send s (append_rx body s)" "same_send s (consume_fin tk s)"
    "same_send s (take_ooo i s)"
  by (auto simp: same_send_def append_rx_def consume_fin_def take_ooo_def Let_def split: tcp_state.split)

lemma consume_fin_at:
  assumes at: "rcv_at b T d G s r" and f: "peer_fin_seq s = Some (rcv_nxt s)"
  shows "rcv_at b T d G (consume_fin tk s) (Suc r)"
proof -
  note bd = rcv_at_bounds[OF at]
  have "d" "b + of_nat r = b + of_nat (Suc (length T))"
    using at f by (auto simp: rcv_at_def)
  then have "r = Suc (length T)" "d"
    using bd off_inject[of r "Suc (length T)" b] by simp_all
  then show ?thesis
    using at f by (simp add: rcv_at_def) (simp add: consume_fin_def Let_def split: tcp_state.split)
qed

lemma set_swap_remove: "i < length xs \<Longrightarrow> set (swap_remove i xs) \<subseteq> set xs"
  by (cases "xs = []") (auto simp: swap_remove_def dest!: in_set_butlastD set_update_subset_insert[THEN subsetD])

lemma take_ooo_at:
  assumes at: "rcv_at b T d G s r" and i: "i < length (ooo s)" "fst (ooo s ! i) = rcv_nxt s"
  shows "\<exists>r'. rcv_at b T d G (take_ooo i s) r'"
proof -
  have "rcv_at b T d G (s\<lparr>ooo := swap_remove i (ooo s)\<rparr>) r"
    using at set_swap_remove[OF i(1)] by (auto simp: rcv_at_def)
  moreover have "piece b T (rcv_nxt s) (snd (ooo s ! i))"
    using at nth_mem[OF i(1)] unfolding rcv_at_def i(2)[symmetric] by blast
  ultimately show ?thesis
    using append_rx_at[of b T d G "s\<lparr>ooo := swap_remove i (ooo s)\<rparr>" r "snd (ooo s ! i)"]
    by (auto simp: take_ooo_def)
qed

lemma consume_ok:
  assumes "sock_ok w s"
  shows "sock_ok w (consume_fin_and_ooo tk s)"
  using assms
proof (induction tk s rule: consume_fin_and_ooo.induct)
  case (1 tk s)
  define t where "t = consume_fin tk s"
  have ok: "sock_ok w t"
  proof (cases "peer_fin_seq s = Some (rcv_nxt s)")
    case True
    then have "\<not> unsynced s" by (simp add: unsynced_def)
    with 1(3) obtain r where "rcv_at (peer_iss w) (peer w) (peer_closed w) (got w) s r"
      by (rule sock_ok_synced)
    from consume_fin_at[OF this True] show ?thesis
      unfolding t_def by (rule sock_ok_rcv[OF 1(3), rotated]) simp
  qed (use 1(3) in \<open>simp add: t_def consume_fin_def\<close>)
  show ?case
  proof (cases "find_index (\<lambda>(sq, _). sq = rcv_nxt t) (ooo t)")
    case None
    then show ?thesis
      using 1(1)[OF refl t_def None] ok by (subst consume_fin_and_ooo.simps) (auto simp: Let_def t_def[symmetric])
  next
    case (Some i)
    note i = find_index_Some[OF Some]
    then have "\<not> unsynced t" by (auto simp: unsynced_def)
    with ok obtain r where at: "rcv_at (peer_iss w) (peer w) (peer_closed w) (got w) t r"
      by (rule sock_ok_synced)
    obtain r' where "rcv_at (peer_iss w) (peer w) (peer_closed w) (got w) (take_ooo i t) r'"
      using take_ooo_at[OF at i(1)] i(2) by (auto simp: case_prod_beta)
    then have "sock_ok w (take_ooo i t)"
      by (rule sock_ok_rcv[OF ok, rotated]) simp
    from 1(2)[OF refl t_def Some this] show ?thesis
      using Some by (subst consume_fin_and_ooo.simps) (simp add: Let_def t_def[symmetric])
  qed
qed

lemma piece_trim:
  assumes "piece b T seq body" "rel \<le> length body"
  shows "piece b T (seq + of_nat rel) (drop rel body)"
proof -
  from assms(1) obtain k where k: "seq = b + of_nat (Suc k)" "k + length body \<le> length T"
      "body = take (length body) (drop k T)"
    by (auto simp: piece_def)
  have "drop rel body = take (length body - rel) (drop (k + rel) T)"
    by (subst k(3)) (simp add: drop_take add.commute)
  then show ?thesis
    unfolding piece_def using k(1,2) assms(2) by (intro exI[of _ "k + rel"]) (simp add: algebra_simps)
qed

lemma accept_in_order:
  assumes ok: "sock_ok w s" and st: "is_data_state (ts_state s)"
    and p: "piece (peer_iss w) (peer w) (rcv_nxt s) body"
    and f: "fin \<Longrightarrow> peer_closed w \<and> rcv_nxt s + of_nat (length body) = peer_iss w + of_nat (Suc (length (peer w)))"
  shows "sock_ok w (if fin then (append_rx body s)\<lparr>peer_fin_seq := Some (rcv_nxt s + of_nat (length body)), peer_fin_seen := True\<rparr>
                    else append_rx body s)"
proof -
  have "\<not> unsynced s"
    using st by (auto simp: unsynced_def is_data_state_def)
  with ok obtain r where at: "rcv_at (peer_iss w) (peer w) (peer_closed w) (got w) s r"
    by (rule sock_ok_synced)
  from append_rx_at[OF at p] obtain r' where
      at': "rcv_at (peer_iss w) (peer w) (peer_closed w) (got w) (append_rx body s) r'"
    by blast
  show ?thesis
  proof (cases fin)
    case True
    have "rcv_at (peer_iss w) (peer w) (peer_closed w) (got w)
        ((append_rx body s)\<lparr>peer_fin_seq := Some (rcv_nxt s + of_nat (length body)), peer_fin_seen := True\<rparr>) r'"
      using at' f[OF True] by (auto simp: rcv_at_def)
    then show ?thesis
      using True by (auto intro!: sock_ok_rcv[OF ok] simp: same_send_def append_rx_def Let_def)
  next
    case False
    then show ?thesis
      using sock_ok_rcv[OF ok _ at'] by simp
  qed
qed

lemma accept_out_of_order:
  assumes ok: "sock_ok w s" and st: "is_data_state (ts_state s)" and p: "piece (peer_iss w) (peer w) seq body"
  shows "sock_ok w (s\<lparr>ooo := ooo s @ [(seq, body)]\<rparr>)"
proof -
  have "\<not> unsynced s"
    using st by (auto simp: unsynced_def is_data_state_def)
  with ok obtain r where at: "rcv_at (peer_iss w) (peer w) (peer_closed w) (got w) s r"
    by (rule sock_ok_synced)
  then have "rcv_at (peer_iss w) (peer w) (peer_closed w) (got w) (s\<lparr>ooo := ooo s @ [(seq, body)]\<rparr>) r"
    using p by (auto simp: rcv_at_def)
  then show ?thesis
    by (rule sock_ok_rcv[OF ok, rotated]) (simp add: same_send_def)
qed

lemma data_state_synced: "is_data_state (ts_state s) \<Longrightarrow> \<not> unsynced s"
  by (auto simp: unsynced_def is_data_state_def)

lemma append_rx_state [simp]: "ts_state (append_rx body s) = ts_state s"
  by (simp add: append_rx_def Let_def)

lemma accept_stream_ok:
  assumes "sock_ok w s" "piece (peer_iss w) (peer w) seq body"
    and "fin \<Longrightarrow> peer_closed w \<and> seq + of_nat (length body) = peer_iss w + of_nat (Suc (length (peer w)))"
  shows "emits_ok w (snd (accept_stream tk seq body fin s))"
  using assms
proof (induction tk seq body fin s rule: accept_stream.induct)
  case (1 tk seq body fin s)
  show ?case
  proof (cases "is_data_state (ts_state s)")
    case False
    then show ?thesis
      using 1(2) by (subst accept_stream.simps) (simp add: stream_intros)
  next
    case st: True
    then have st': "ts_state s \<notin> {SynSent, Closed}"
      by (auto simp: is_data_state_def)
    have ack: "emits_ok w (send_ack opts t)" if "sock_ok w t" "ts_state t = ts_state s" for opts t
      using send_ack_ok[OF that(1)] data_state_synced[of t] st that(2) by simp
    consider (here) "seq = rcv_nxt s" | (ahead) "seq \<noteq> rcv_nxt s" "seq_lt (rcv_nxt s) seq"
      | (behind) "seq \<noteq> rcv_nxt s" "\<not> seq_lt (rcv_nxt s) seq" by blast
    then show ?thesis
    proof cases
      case here
      define t where "t = (if fin then (append_rx body s)\<lparr>peer_fin_seq := Some (rcv_nxt s + of_nat (length body)), peer_fin_seen := True\<rparr>
                            else append_rx body s)"
      have t: "sock_ok w t" "ts_state t = ts_state s"
        unfolding t_def using accept_in_order[OF 1(2) st, of body fin] 1(3,4) here by auto
      define v where "v = t\<lparr>unacked_segs := 0, last_ack_tick := tk\<rparr>"
      have v: "sock_ok w v" "ts_state v = ts_state s" "sock_ok w (t\<lparr>unacked_segs := unacked_segs t + 1\<rparr>)"
        unfolding v_def using t st' by (auto intro!: stream_intros)
      have "accept_stream tk seq body fin s =
          (if ACK_EVERY_N \<le> unacked_segs t + 1 then (AfterNothing, send_ack (ack_options_with_sack v) v)
           else (SendAck, t\<lparr>unacked_segs := unacked_segs t + 1\<rparr>, []))"
        using st here by (subst accept_stream.simps) (simp add: Let_def t_def v_def)
      then show ?thesis
        using ack[OF v(1,2)] v(3) by (simp add: stream_intros)
    next
      case ahead
      then show ?thesis
        using 1(2) accept_out_of_order[OF 1(2) st 1(3)] st
        by (subst accept_stream.simps) (auto simp: Let_def intro!: ack)
    next
      case behind
      define rel where "rel = unat (rcv_nxt s - seq)"
      have rel: "rcv_nxt s = seq + of_nat rel"
        by (simp add: rel_def)
      show ?thesis
      proof (cases "rel < length body")
        case True
        have "emits_ok w (snd (accept_stream tk (rcv_nxt s) (drop rel body) fin s))"
          using 1(1)[OF _ refl behind(1) behind(2) rel_def True 1(2)] st piece_trim[OF 1(3), of rel] True 1(4)
          by (simp add: rel algebra_simps)
        then show ?thesis
          using st behind True by (subst accept_stream.simps) (simp add: Let_def rel_def)
      next
        case False
        then show ?thesis
          using st behind 1(2) by (subst accept_stream.simps) (simp add: Let_def rel_def ack)
      qed
    qed
  qed
qed

subsection \<open>Received segments\<close>

text \<open>A received header with its payload that the peer sent: window and options may be anything.\<close>

definition received :: "tcp_seg \<Rightarrow> tcp_header \<Rightarrow> bytes \<Rightarrow> bool" where
  "received sg hdr body \<longleftrightarrow>
     th_seq hdr = sg_seq sg \<and> th_ack hdr = sg_ack sg \<and> th_flags hdr = sg_flags sg \<and> body = sg_payload sg"

definition arrives :: "side \<Rightarrow> tcp_header \<Rightarrow> bytes \<Rightarrow> bool" where
  "arrives w hdr body \<longleftrightarrow>
     (\<exists>sg. received sg hdr body \<and> seg_ok (peer_iss w) (peer w) (peer_closed w) (own_iss w) (own w) sg)"

lemma arrivesD:
  assumes "arrives w hdr body"
  shows "body \<noteq> [] \<or> th_flags hdr AND TCP_FIN \<noteq> 0 \<Longrightarrow> piece (peer_iss w) (peer w) (th_seq hdr) body"
    and "th_flags hdr AND TCP_FIN \<noteq> 0 \<Longrightarrow>
           peer_closed w \<and> th_seq hdr + of_nat (length body) = peer_iss w + of_nat (Suc (length (peer w)))"
    and "th_flags hdr AND TCP_SYN \<noteq> 0 \<Longrightarrow> body = [] \<and> th_seq hdr = peer_iss w"
    and "th_flags hdr AND TCP_ACK \<noteq> 0 \<Longrightarrow> ack_ok w hdr"
  using assms unfolding arrives_def received_def seg_ok_def ack_ok_def by metis+

lemma established_input_ok:
  assumes ok: "sock_ok w s" and a: "arrives w hdr body"
  shows "emits_ok w (established_input hdr body now tk s)"
  unfolding established_input_def
proof (rule emits_ok_then)
  show "emits_ok w (if th_flags hdr AND TCP_ACK \<noteq> 0 then process_ack hdr now s else (s, []))"
    using ok arrivesD(4)[OF a] by (simp add: process_ack_ok stream_intros)
  define t where "t = fst (if th_flags hdr AND TCP_ACK \<noteq> 0 then process_ack hdr now s else (s, []))"
  define fin where "fin \<longleftrightarrow> th_flags hdr AND TCP_FIN \<noteq> 0"
  define acc where "acc = (if body \<noteq> [] \<or> fin then accept_stream tk (th_seq hdr) body fin t else (AfterNothing, t, []))"
  assume okt: "sock_ok w (fst (if th_flags hdr AND TCP_ACK \<noteq> 0 then process_ack hdr now s else (s, [])))"
  then have "emits_ok w (snd acc)"
    using accept_stream_ok[of w t "th_seq hdr" body fin tk] arrivesD(1,2)[OF a]
    by (auto simp: acc_def t_def fin_def intro: stream_intros)
  moreover have "emits_ok w
      (let s = consume_fin_and_ooo tk v
       in if ts_state s \<in> {Established, FinWait1, FinWait2, CloseWait} \<and> fst acc = SendAck
          then send_ack (ack_options_with_sack s) s else (s, []))" if "sock_ok w v" for v
    using consume_ok[OF that]
    by (auto simp: Let_def unsynced_def intro!: send_ack_ok stream_intros)
  ultimately have "emits_ok w (and_then (snd acc) (\<lambda>s.
      let s = consume_fin_and_ooo tk s
      in if ts_state s \<in> {Established, FinWait1, FinWait2, CloseWait} \<and> fst acc = SendAck
         then send_ack (ack_options_with_sack s) s else (s, [])))"
    by (rule emits_ok_then)
  then show "emits_ok w
      (let has_fin = (th_flags hdr AND TCP_FIN \<noteq> 0);
           (after, r) = (if body \<noteq> [] \<or> has_fin then accept_stream tk (th_seq hdr) body has_fin
                (fst (if th_flags hdr AND TCP_ACK \<noteq> 0 then process_ack hdr now s else (s, [])))
              else (AfterNothing, fst (if th_flags hdr AND TCP_ACK \<noteq> 0 then process_ack hdr now s else (s, [])), []))
       in and_then r (\<lambda>s. let s = consume_fin_and_ooo tk s
            in if ts_state s \<in> {Established, FinWait1, FinWait2, CloseWait} \<and> after = SendAck
               then send_ack (ack_options_with_sack s) s else (s, [])))"
    unfolding t_def[symmetric] fin_def[symmetric] Let_def[of fin] acc_def[symmetric]
    by (cases acc) (simp only: Let_def case_prod_conv prod.sel)
qed

lemma synsent_input_ok:
  assumes ok: "sock_ok w s" and a: "arrives w hdr body" and st: "ts_state s = SynSent"
  shows "emits_ok w (synsent_input hdr body now tk s)"
proof -
  have uns: "unsynced s" "got w = []" "own w = []" "fin_seq s = None" "iss s = own_iss w" "close_requested s = own_closed w"
    using ok st by (auto simp: sock_ok_def rcv_ok_def rcv_at_def)
  define t where "t = s\<lparr>irs := th_seq hdr, rcv_nxt := th_seq hdr + 1, snd_una := th_ack hdr, snd_nxt := th_ack hdr,
      peer_mss := (case th_mss hdr of Some m \<Rightarrow> m | None \<Rightarrow> DEFAULT_PEER_MSS),
      sack_ok := offered_sack s \<and> th_sack_permitted hdr\<rparr>"
  define v where "v = (case th_wscale hdr of Some x \<Rightarrow> t\<lparr>snd_scale := min x 14\<rparr> | None \<Rightarrow> t\<lparr>snd_scale := 0, rcv_scale := 0\<rparr>)"
  define e where "e = v\<lparr>ever_established := True, ts_state := Established, rto_deadline := None, retries := 0\<rparr>"
  have sel: "iss e = iss s" "snd_una e = th_ack hdr" "snd_nxt e = th_ack hdr" "ts_tx e = []" "fin_seq e = None"
    "close_requested e = close_requested s" "rcv_nxt e = th_seq hdr + 1" "ts_rx e = []" "ooo e = []"
    "peer_fin_seq e = None" "ts_state e = Established"
    using uns by (simp_all add: e_def v_def t_def unsynced_def split: option.split)
  have opened: "sock_ok w e" if "th_ack hdr = iss s + 1" "th_flags hdr AND TCP_SYN \<noteq> 0"
  proof -
    have "snd_at (own w) e 1 1"
      using that uns by (simp add: snd_at_def sel stream_max_def)
    moreover have "rcv_at (peer_iss w) (peer w) (peer_closed w) (got w) e 1"
      using arrivesD(3)[OF a that(2)] uns ok by (simp add: rcv_at_def sel sock_ok_def)
    ultimately show ?thesis
      using ok uns by (auto simp: sock_ok_def sel snd_ok_def rcv_ok_def)
  qed
  have crossed: "sock_ok w (s\<lparr>irs := th_seq hdr, rcv_nxt := th_seq hdr + 1, ts_state := SynRcvd, ctrl_needs_send := True\<rparr>)"
    if "th_flags hdr AND TCP_SYN \<noteq> 0"
  proof -
    have "rcv_at (peer_iss w) (peer w) (peer_closed w) (got w)
        (s\<lparr>irs := th_seq hdr, rcv_nxt := th_seq hdr + 1, ts_state := SynRcvd, ctrl_needs_send := True\<rparr>) 1"
      using arrivesD(3)[OF a that] uns ok by (simp add: rcv_at_def sock_ok_def unsynced_def)
    then show ?thesis
      by (rule sock_ok_rcv[OF ok, rotated]) (simp add: same_send_def)
  qed
  show ?thesis
    unfolding synsent_input_def Let_def t_def[symmetric] v_def[symmetric] e_def[symmetric]
    using ok a opened crossed
    by (auto intro!: emits_ok_then send_ack_ok established_input_ok emits_ok_quiet simp: unsynced_def sel)
qed

lemma synrcvd_input_ok:
  assumes "sock_ok w s" "arrives w hdr body" "ts_state s = SynRcvd"
  shows "emits_ok w (synrcvd_input hdr body now tk s)"
  using assms by (auto simp: synrcvd_input_def Let_def intro!: established_input_ok stream_intros)

lemma connected_input_ok:
  assumes "sock_ok w s" "arrives w hdr body"
  shows "emits_ok w (connected_input hdr body now tk s)"
  using assms
  by (auto simp: connected_input_def intro!: stream_intros synsent_input_ok synrcvd_input_ok established_input_ok
      split: tcp_state.split)

end
