(* ===== verification/NetPair.thy ===== *)
theory NetPair
  imports NetStream
begin

text \<open>
  Two sockets of the stack on a network that may lose, delay, reorder and duplicate segments.  Every
  interleaving of polls, arrivals and calls of the two applications is a sequence of steps.  While no
  application misuses its socket, the bytes each read are a prefix of the bytes the other had accepted.
\<close>

record endpoint =
  e_sock :: tcp_sock
  e_wire :: "tcp_seg list"
  e_sent :: bytes
  e_got :: bytes
  e_misused :: bool

text \<open>
  The socket accepts data at two moments at which it then breaks the stream: after the application
  has closed it, and, if it was opened passively, as long as \<open>snd_una\<close> is still the number of its
  SYN.  The flag \<open>e_misused\<close> remembers that an application wrote at such a moment.
\<close>

definition unsafe_write :: "tcp_sock \<Rightarrow> bool" where
  "unsafe_write s \<longleftrightarrow> close_requested s \<or> snd_una s = iss s"

text \<open>One step of an endpoint; \<open>inc\<close> are the segments its peer has ever emitted.\<close>

inductive ep_step :: "tcp_seg list \<Rightarrow> endpoint \<Rightarrow> endpoint \<Rightarrow> bool" for inc where
  poll: "step_sock now (e_sock e) = (s, out) \<Longrightarrow> ep_step inc e (e\<lparr>e_sock := s, e_wire := e_wire e @ out\<rparr>)"
| segment: "sg \<in> set inc \<Longrightarrow> received sg hdr body \<Longrightarrow> connected_input hdr body now tk (e_sock e) = (s, out) \<Longrightarrow>
    ep_step inc e (e\<lparr>e_sock := s, e_wire := e_wire e @ out\<rparr>)"
| send: "send_slice data (e_sock e) = (n, s) \<Longrightarrow>
    ep_step inc e (e\<lparr>e_sock := s, e_sent := e_sent e @ take n data,
                     e_misused := e_misused e \<or> 0 < n \<and> unsafe_write (e_sock e)\<rparr>)"
| recv: "recv_slice len (e_sock e) = (bs, s) \<Longrightarrow> ep_step inc e (e\<lparr>e_sock := s, e_got := e_got e @ bs\<rparr>)"
| close: "ep_step inc e (e\<lparr>e_sock := tcp_close (e_sock e)\<rparr>)"

inductive pair_step :: "endpoint \<times> endpoint \<Rightarrow> endpoint \<times> endpoint \<Rightarrow> bool" where
  left: "ep_step (e_wire b) a a' \<Longrightarrow> pair_step (a, b) (a', b)"
| right: "ep_step (e_wire a) b b' \<Longrightarrow> pair_step (a, b) (a, b')"

text \<open>An endpoint before any data: an active open, or the child a listener made for the SYN of the peer.\<close>

definition opened :: "endpoint \<Rightarrow> endpoint \<Rightarrow> bool" where
  "opened e p \<longleftrightarrow> e_sent e = [] \<and> e_got e = [] \<and>
     ((\<exists>rmt lport rcap tcap i. e_sock e = new_active rmt lport rcap tcap i \<and> e_wire e = []) \<or>
      (\<exists>hdr lport src i. th_seq hdr = iss (e_sock p) \<and> (e_sock e, e_wire e) = accept_syn hdr lport src i))"

definition side_of :: "endpoint \<Rightarrow> endpoint \<Rightarrow> side" where
  "side_of e p =
     \<lparr>own_iss = iss (e_sock e), own = e_sent e, own_closed = close_requested (e_sock e),
      peer_iss = iss (e_sock p), peer = e_sent p, peer_closed = close_requested (e_sock p), got = e_got e\<rparr>"

definition half_inv :: "endpoint \<Rightarrow> endpoint \<Rightarrow> bool" where
  "half_inv e p \<longleftrightarrow> emits_ok (side_of e p) (e_sock e, e_wire e)"

subsection \<open>The streams grow\<close>

lemma piece_mono: "piece a S seq d \<Longrightarrow> piece a (S @ x) seq d"
  unfolding piece_def by (elim exE) (rule_tac x = k in exI, auto)

lemma seg_ok_grow:
  assumes "seg_ok a S c b T sg"
  shows "\<not> c \<Longrightarrow> seg_ok a (S @ x) c b T sg" and "seg_ok a S c b (T @ x) sg" and "seg_ok a S True b T sg"
  using assms piece_mono[of a S "sg_seq sg" "sg_payload sg" x] unfolding seg_ok_def by (auto intro: trans_le_add1)

lemma rcv_at_grow:
  assumes "rcv_at b T False G s r" "length (T @ x) \<le> stream_max"
  shows "rcv_at b (T @ x) False G s r"
  using assms by (auto simp: rcv_at_def intro: piece_mono)

lemma sock_ok_peer:
  assumes "sock_ok w s"
  shows "\<not> peer_closed w \<Longrightarrow> length (peer w @ x) \<le> stream_max \<Longrightarrow> sock_ok (w\<lparr>peer := peer w @ x\<rparr>) s"
    and "sock_ok (w\<lparr>peer_closed := True\<rparr>) s"
  using assms rcv_at_grow[of "peer_iss w" "peer w" "got w" s _ x]
  by (auto simp: sock_ok_def rcv_ok_def) (auto simp: rcv_at_def)

lemma sock_ok_send:
  assumes ok: "sock_ok w s" and g: "\<not> close_requested s" "snd_una s \<noteq> iss s"
    and s: "send_slice data s = (n, t)" and len: "length (own w @ take n data) \<le> stream_max"
  shows "sock_ok (w\<lparr>own := own w @ take n data\<rparr>) t"
proof (cases "can_send s")
  case True
  then have st: "ts_state s \<notin> {SynSent, Closed}"
    by (auto simp: can_send_def may_send_def)
  have t: "t = s\<lparr>ts_tx := ts_tx s @ take n data\<rparr>"
    using s True by (auto simp: send_slice_def Let_def)
  from ok obtain u m where at: "snd_at (own w) s u m"
    by (auto simp: sock_ok_def snd_ok_def)
  have fin: "fin_seq s = None" and u: "0 < u"
    using at g by (auto simp: snd_at_def split: option.splits intro: gr0I)
  then have "snd_at (own w @ take n data) t u m"
    using at len by (auto simp: snd_at_def t)
  moreover have "\<not> unsynced s" "\<not> unsynced t"
    using st by (auto simp: unsynced_def t)
  ultimately show ?thesis
    using ok st by (auto simp: sock_ok_def snd_ok_def rcv_ok_def rcv_at_def t)
next
  case False
  then show ?thesis
    using s ok by (auto simp: send_slice_def)
qed

lemma sock_ok_recv:
  assumes ok: "sock_ok w s" and s: "recv_slice len s = (bs, t)"
  shows "sock_ok (w\<lparr>got := got w @ bs\<rparr>) t"
proof -
  define m where "m = min len (length (ts_rx s))"
  define v where "v = s\<lparr>ts_rx := drop m (ts_rx s)\<rparr>"
  have bs: "bs = take m (ts_rx s)" and t: "t = v \<or> t = v\<lparr>wnd_update_pending := True\<rparr>"
    using s by (auto simp: recv_slice_def Let_def m_def v_def split: if_splits)
  have "rcv_at b T d (G @ bs) v r" if "rcv_at b T d G s r" for b T d G r
    using that by (auto simp: rcv_at_def v_def bs)
  moreover have "unsynced v \<and> bs = []" if "unsynced s"
    using that by (auto simp: unsynced_def v_def bs)
  ultimately have "rcv_ok b T d G s \<Longrightarrow> rcv_ok b T d (G @ bs) v" for b T d G
    unfolding rcv_ok_def by blast
  moreover have "snd_ok S v \<longleftrightarrow> snd_ok S s" for S
    by (simp add: snd_ok_def snd_at_def v_def split: option.split)
  moreover have "iss v = iss s" "close_requested v = close_requested s" "ts_state v = ts_state s" "fin_seq v = fin_seq s"
    by (simp_all add: v_def)
  ultimately have "sock_ok (w\<lparr>got := got w @ bs\<rparr>) v"
    using ok by (simp add: sock_ok_def)
  then show ?thesis
    using t by (auto intro: stream_intros)
qed

lemma sock_ok_close:
  assumes "sock_ok w s"
  shows "sock_ok (w\<lparr>own_closed := close_requested (tcp_close s)\<rparr>) (tcp_close s)"
proof (cases "ts_state s = Closed \<or> fin_seq s \<noteq> None")
  case True
  then have "tcp_close s = s"
    by (auto simp: tcp_close_def)
  then show ?thesis
    using assms by (simp add: sock_ok_def)
next
  case False
  then have "tcp_close s = s\<lparr>close_requested := True\<rparr>" "fin_seq s = None"
    by (auto simp: tcp_close_def)
  moreover from this(2) have "snd_ok S (s\<lparr>close_requested := True\<rparr>) \<longleftrightarrow> snd_ok S s" for S
    by (simp add: snd_ok_def snd_at_def)
  moreover have "rcv_ok b T d G (s\<lparr>close_requested := True\<rparr>) \<longleftrightarrow> rcv_ok b T d G s" for b T d G
    by (simp add: rcv_ok_def rcv_at_def unsynced_def)
  ultimately show ?thesis
    using assms by (simp add: sock_ok_def)
qed

subsection \<open>The invariant of the pair\<close>

lemma half_inv_keep:
  assumes "half_inv e p" "emits_ok (side_of e p) (s, out)"
  shows "half_inv (e\<lparr>e_sock := s, e_wire := e_wire e @ out\<rparr>) p" and "half_inv p e \<Longrightarrow> half_inv p (e\<lparr>e_sock := s, e_wire := e_wire e @ out\<rparr>)"
proof -
  have same: "iss s = iss (e_sock e)" "close_requested s = close_requested (e_sock e)"
    using assms(2) by (simp_all add: emits_ok_def sock_ok_def side_of_def)
  then have side: "side_of (e\<lparr>e_sock := s, e_wire := e_wire e @ out\<rparr>) p = side_of e p"
    "side_of p (e\<lparr>e_sock := s, e_wire := e_wire e @ out\<rparr>) = side_of p e"
    by (simp_all add: side_of_def)
  show "half_inv (e\<lparr>e_sock := s, e_wire := e_wire e @ out\<rparr>) p"
    using assms by (auto simp: half_inv_def emits_ok_def side)
  show "half_inv p e \<Longrightarrow> half_inv p (e\<lparr>e_sock := s, e_wire := e_wire e @ out\<rparr>)"
    by (simp add: half_inv_def side)
qed

lemma half_inv_arrives:
  assumes "half_inv p e" "sg \<in> set (e_wire p)" "received sg hdr body"
  shows "arrives (side_of e p) hdr body"
  using assms by (auto simp: half_inv_def emits_ok_def arrives_def side_of_def)

text \<open>A run that is fit to be judged by: no misuse, and streams short enough for the sequence numbers.\<close>

definition fair :: "endpoint \<Rightarrow> bool" where
  "fair e \<longleftrightarrow> \<not> e_misused e \<and> length (e_sent e) \<le> stream_max"

lemma fair_before: "ep_step inc e e' \<Longrightarrow> fair e' \<Longrightarrow> fair e"
  by (induction rule: ep_step.induct) (auto simp: fair_def)

lemma send_nothing: "send_slice data s = (0, t) \<Longrightarrow> t = s"
  by (auto simp: send_slice_def Let_def split: if_splits)

lemma ep_step_inv:
  assumes "ep_step (e_wire p) e e'" "fair e'" "half_inv e p" "half_inv p e"
  shows "half_inv e' p \<and> half_inv p e'"
  using assms
proof (induction rule: ep_step.induct)
  case (poll now e s out)
  then have "emits_ok (side_of e p) (s, out)"
    using step_sock_ok[of "side_of e p" "e_sock e" now] by (simp add: half_inv_def emits_ok_def)
  then show ?case
    using half_inv_keep poll by blast
next
  case (segment sg hdr body now tk e s out)
  then have "emits_ok (side_of e p) (s, out)"
    using connected_input_ok[of "side_of e p" "e_sock e" hdr body now tk] half_inv_arrives[of p e sg hdr body]
    by (simp add: half_inv_def emits_ok_def)
  then show ?case
    using half_inv_keep segment by blast
next
  case (send data e n s)
  have ok: "sock_ok (side_of e p) (e_sock e)" "sock_ok (side_of p e) (e_sock p)"
    using send(3,4) by (simp_all add: half_inv_def emits_ok_def)
  have same: "iss s = iss (e_sock e)" "close_requested s = close_requested (e_sock e)"
    using send(1) by (auto simp: send_slice_def Let_def split: if_splits)
  have len: "length (e_sent e @ take n data) \<le> stream_max"
    using send(2) by (simp add: fair_def)
  show ?case
  proof (cases "n = 0")
    case True
    then show ?thesis
      using send send_nothing[of data "e_sock e" s] by (auto simp: half_inv_def emits_ok_def side_of_def)
  next
    case False
    then have g: "\<not> close_requested (e_sock e)" "snd_una (e_sock e) \<noteq> iss (e_sock e)"
      using send(2) by (simp_all add: fair_def unsafe_write_def)
    have own: "sock_ok ((side_of e p)\<lparr>own := e_sent e @ take n data\<rparr>) s"
      using sock_ok_send[OF ok(1) g send(1)] len by (simp add: side_of_def)
    have peer: "sock_ok ((side_of p e)\<lparr>peer := e_sent e @ take n data\<rparr>) (e_sock p)"
      using sock_ok_peer(1)[OF ok(2), of "take n data"] g(1) len by (simp add: side_of_def)
    show ?thesis
      using g(1) send(3,4) own peer same
      by (auto simp: half_inv_def emits_ok_def side_of_def intro: seg_ok_grow)
  qed
next
  case (recv len e bs s)
  have ok: "sock_ok (side_of e p) (e_sock e)"
    using recv(3) by (simp add: half_inv_def emits_ok_def)
  have same: "iss s = iss (e_sock e)" "close_requested s = close_requested (e_sock e)"
    using recv(1) by (auto simp: recv_slice_def Let_def split: if_splits)
  show ?case
    using sock_ok_recv[OF ok recv(1)] recv(3,4) same by (auto simp: half_inv_def emits_ok_def side_of_def)
next
  case (close e)
  define t where "t = tcp_close (e_sock e)"
  have t: "iss t = iss (e_sock e)" "close_requested t = close_requested (e_sock e) \<or> close_requested t"
    by (auto simp: t_def tcp_close_def)
  have ok: "sock_ok (side_of e p) (e_sock e)" "sock_ok (side_of p e) (e_sock p)"
    using close by (simp_all add: half_inv_def emits_ok_def)
  have own: "sock_ok ((side_of e p)\<lparr>own_closed := close_requested t\<rparr>) t"
    unfolding t_def by (rule sock_ok_close[OF ok(1)])
  have peer: "sock_ok ((side_of p e)\<lparr>peer_closed := close_requested t\<rparr>) (e_sock p)"
    using ok(2) sock_ok_peer(2)[OF ok(2)] t(2) by (cases "close_requested t") (auto simp: side_of_def)
  have "seg_ok (iss (e_sock e)) (e_sent e) (close_requested t) (iss (e_sock p)) (e_sent p) sg"
    if "seg_ok (iss (e_sock e)) (e_sent e) (close_requested (e_sock e)) (iss (e_sock p)) (e_sent p) sg" for sg
    using that t(2) seg_ok_grow(3)[OF that] by (cases "close_requested t") auto
  then show ?case
    using close own peer t(1) unfolding t_def[symmetric] by (auto simp: half_inv_def emits_ok_def side_of_def)
qed

lemma opened_half_inv:
  assumes "opened e p" "opened p e"
  shows "half_inv e p"
proof -
  have sent: "e_sent e = []" "e_got e = []" "e_sent p = []"
    using assms by (simp_all add: opened_def)
  consider (act) rmt lport rcap tcap i where "e_sock e = new_active rmt lport rcap tcap i" "e_wire e = []"
    | (pas) hdr lport src i where "th_seq hdr = iss (e_sock p)" "(e_sock e, e_wire e) = accept_syn hdr lport src i"
    using assms(1) by (auto simp: opened_def)
  then show ?thesis
  proof cases
    case act
    have "snd_at [] (e_sock e) 0 1"
      by (simp add: act new_active_def snd_at_def)
    then show ?thesis
      using act sent
      by (auto simp: half_inv_def emits_ok_def side_of_def sock_ok_def snd_ok_def rcv_ok_def unsynced_def new_active_def)
  next
    case pas
    have *: "iss (fst (accept_syn hdr lport src i)) = i" "snd_una (fst (accept_syn hdr lport src i)) = i"
      "snd_nxt (fst (accept_syn hdr lport src i)) = i + 1" "ts_tx (fst (accept_syn hdr lport src i)) = []"
      "fin_seq (fst (accept_syn hdr lport src i)) = None" "rcv_nxt (fst (accept_syn hdr lport src i)) = th_seq hdr + 1"
      "ts_rx (fst (accept_syn hdr lport src i)) = []" "ooo (fst (accept_syn hdr lport src i)) = []"
      "peer_fin_seq (fst (accept_syn hdr lport src i)) = None" "ts_state (fst (accept_syn hdr lport src i)) = SynRcvd"
      "close_requested (fst (accept_syn hdr lport src i)) = False"
      by (simp_all add: accept_syn_def Let_def new_child_def new_active_def split: option.split)
    have sock: "e_sock e = fst (accept_syn hdr lport src i)" and wire: "e_wire e = snd (accept_syn hdr lport src i)"
      using pas(2) by (metis fst_conv, metis snd_conv)
    have "snd_at [] (e_sock e) 0 1" "rcv_at (iss (e_sock p)) [] d [] (e_sock e) 1" for d
      by (simp_all add: sock * snd_at_def rcv_at_def stream_max_def pas(1))
    then have "snd_ok [] (e_sock e)" "rcv_ok (iss (e_sock p)) [] d [] (e_sock e)" for d
      unfolding snd_ok_def rcv_ok_def by blast+
    then have "sock_ok (side_of e p) (e_sock e)"
      using sent by (simp add: sock_ok_def side_of_def sock *)
    moreover have "seg_ok i [] c (iss (e_sock p)) [] sg" if "sg \<in> set (e_wire e)" for sg c
      using that pas(1)
      by (auto simp: wire accept_syn_def Let_def emit_def seg_ok_def new_child_def new_active_def
          intro!: exI[of _ 1] split: option.splits)
    ultimately show ?thesis
      using sent by (auto simp: half_inv_def emits_ok_def side_of_def sock *)
  qed
qed

lemma pair_inv:
  assumes "pair_step\<^sup>*\<^sup>* (a, b) (a', b')" "fair a'" "fair b'" "opened a b" "opened b a"
  shows "half_inv a' b' \<and> half_inv b' a'"
  using assms(1-3)
proof (induction "(a', b')" arbitrary: a' b' rule: rtranclp_induct)
  case base
  then show ?case using assms opened_half_inv by blast
next
  case (step y)
  then show ?case
    by (cases y) (auto elim!: pair_step.cases dest: ep_step_inv fair_before)
qed

end
