(* ===== verification/NetDelivery.thy ===== *)
theory NetDelivery
  imports NetPair
begin

text \<open>
  The theorem on the byte stream of a TCP connection, with a run of two sockets from the handshake
  to the delivery of three bytes.
\<close>

subsection \<open>A run\<close>

definition hdr_of :: "tcp_seg \<Rightarrow> tcp_header" where
  "hdr_of sg = \<lparr>th_src_port = 0, th_dst_port = 0, th_seq = sg_seq sg, th_ack = sg_ack sg, th_flags = sg_flags sg,
     th_window = sg_window sg, th_hdr_len = 20, th_mss = None, th_wscale = None, th_sack_permitted = False,
     th_sack_blocks = []\<rparr>"

definition deliver :: "tcp_seg \<Rightarrow> endpoint \<Rightarrow> endpoint" where
  "deliver sg e = (case connected_input (hdr_of sg) (sg_payload sg) 0 0 (e_sock e) of
     (s, out) \<Rightarrow> e\<lparr>e_sock := s, e_wire := e_wire e @ out\<rparr>)"

definition polled :: "endpoint \<Rightarrow> endpoint" where
  "polled e = (case step_sock 0 (e_sock e) of (s, out) \<Rightarrow> e\<lparr>e_sock := s, e_wire := e_wire e @ out\<rparr>)"

definition demo_remote :: ip_endpoint where
  "demo_remote = \<lparr>ie_addr = V4 [10, 0, 2, 2], ie_port = 80\<rparr>"

definition demo_a :: endpoint where
  "demo_a = \<lparr>e_sock = new_active demo_remote 49152 4096 4096 100, e_wire = [], e_sent = [], e_got = [], e_misused = False\<rparr>"

definition demo_syn :: tcp_header where
  "demo_syn = hdr_of \<lparr>sg_seq = 100, sg_ack = 0, sg_flags = TCP_SYN, sg_window = 4096, sg_opts = [], sg_payload = []\<rparr>"

definition demo_b :: endpoint where
  "demo_b = (case accept_syn demo_syn 80 demo_remote 500 of
     (s, out) \<Rightarrow> \<lparr>e_sock = s, e_wire = out, e_sent = [], e_got = [], e_misused = False\<rparr>)"

definition demo_a1 :: endpoint where "demo_a1 = deliver (hd (e_wire demo_b)) demo_a"
definition demo_b1 :: endpoint where "demo_b1 = deliver (hd (e_wire demo_a1)) demo_b"
definition demo_a2 :: endpoint where
  "demo_a2 = polled (demo_a1\<lparr>e_sock := snd (send_slice [7, 8, 9] (e_sock demo_a1)), e_sent := [7, 8, 9]\<rparr>)"
definition demo_b2 :: endpoint where "demo_b2 = deliver (last (e_wire demo_a2)) demo_b1"
definition demo_b3 :: endpoint where
  "demo_b3 = demo_b2\<lparr>e_sock := snd (recv_slice 10 (e_sock demo_b2)), e_got := fst (recv_slice 10 (e_sock demo_b2))\<rparr>"

lemma deliver_step: "sg \<in> set inc \<Longrightarrow> ep_step inc e (deliver sg e)"
  unfolding deliver_def by (split prod.split) (auto intro!: ep_step.segment simp: received_def hdr_of_def)

lemma polled_step: "ep_step inc e (polled e)"
  unfolding polled_def by (split prod.split) (auto intro: ep_step.poll)

lemma offer_scale_4096 [simp]: "offer_scale 4096 = 0"
  by (simp add: offer_scale_def offer_scale_loop.simps)

lemma demo_b_sock:
  "e_sock demo_b = (new_child 80 demo_remote 100 500)\<lparr>last_adv_free := 4096\<rparr>" 
  "e_wire demo_b = [\<lparr>sg_seq = 500, sg_ack = 101, sg_flags = TCP_SYN OR TCP_ACK, sg_window = 4096,
     sg_opts = ctrl_options 0, sg_payload = []\<rparr>]"
  "e_sent demo_b = []" "e_got demo_b = []"
  by (simp_all add: demo_b_def accept_syn_def demo_syn_def hdr_of_def Let_def new_child_def new_active_def
      emit_def rcv_wnd_field_def)

lemma demo_a1_sock:
  "e_sock demo_a1 = (new_active demo_remote 49152 4096 4096 100)
     \<lparr>irs := 500, rcv_nxt := 501, snd_una := 101, snd_nxt := 101, ever_established := True, ts_state := Established,
      last_adv_free := 4096\<rparr>"
  "e_wire demo_a1 = [\<lparr>sg_seq = 101, sg_ack = 501, sg_flags = TCP_ACK, sg_window = 4096, sg_opts = [], sg_payload = []\<rparr>]"
  "e_sent demo_a1 = []"
  by (simp_all add: demo_a1_def deliver_def demo_b_sock demo_a_def connected_input_def synsent_input_def hdr_of_def
      new_active_def tcp_flag_defs Let_def send_ack_def emit_def and_then_def rcv_wnd_field_def)

lemma demo_b1_sock:
  "e_sock demo_b1 = (e_sock demo_b)\<lparr>ever_established := True, ts_state := Established\<rparr>" "e_got demo_b1 = []"
  by (simp_all add: demo_b1_def deliver_def demo_b_sock demo_a1_sock connected_input_def synrcvd_input_def hdr_of_def
      new_active_def new_child_def tcp_flag_defs Let_def seq_le_def seq_lt_def)

lemma step_sock_quiet:
  assumes "rto_deadline s = None" "unacked_segs s = 0" "\<not> wnd_update_pending s"
  shows "step_sock now s = output_step now s"
  using assms by (simp add: step_sock_def timer_step_def tail_ack_def window_update_def and_then_def)

text \<open>What is unsent goes out in one segment when it fits the segment size and both windows.\<close>

lemma send_data_once:
  assumes fin: "fin_seq s = None" and o: "k = unat (outstanding_data s)"
    and m: "k < length (ts_tx s)" "length (ts_tx s) - k \<le> effective_mss s"
    and wnd: "length (ts_tx s) \<le> unat (min (snd_wnd s) (cwnd s))"
  shows "snd (send_data (Suc n) now s) =
    [\<lparr>sg_seq = snd_nxt s, sg_ack = rcv_nxt s, sg_flags = TCP_ACK OR TCP_PSH, sg_window = rcv_wnd_field s,
      sg_opts = [], sg_payload = drop k (ts_tx s)\<rparr>]"
    and "fin_seq (fst (send_data (Suc n) now s)) = None" "close_requested (fst (send_data (Suc n) now s)) = close_requested s"
proof -
  define j where "j = length (ts_tx s) - k"
  have lt: "length (ts_tx s) < 2 ^ 32"
    using wnd unsigned_less[of "min (snd_wnd s) (cwnd s)", where ?'a = nat] by simp
  have raw: "snd_nxt s - snd_una s = of_nat k"
    using o fin by (simp add: outstanding_data_def fin_pending_def)
  have "outstanding_data (s\<lparr>snd_nxt := snd_nxt s + of_nat j\<rparr>) = of_nat k + of_nat j"
    using fin raw by (simp add: outstanding_data_def fin_pending_def algebra_simps)
  then have "outstanding_data (s\<lparr>snd_nxt := snd_nxt s + of_nat j\<rparr>) = of_nat (length (ts_tx s))"
    using m(1) by (simp add: j_def flip: of_nat_add)
  then have out: "unat (outstanding_data (s\<lparr>snd_nxt := snd_nxt s + of_nat j\<rparr>)) = length (ts_tx s)"
    using lt by (simp add: unat_of_nat take_bit_nat_eq_self)
  define t where "t = (if timing_end s = None
      then s\<lparr>timing_end := Some (snd_nxt s + of_nat j), timing_start := Some now\<rparr> else s)"
  define v where "v = arm_rto now (t\<lparr>last_adv_free := rx_cap t - length (ts_rx t), snd_nxt := snd_nxt t + of_nat j\<rparr>)"
  have v: "outstanding_data v = outstanding_data (s\<lparr>snd_nxt := snd_nxt s + of_nat j\<rparr>)" "ts_tx v = ts_tx s"
    "fin_seq v = None" "close_requested v = close_requested s"
    using fin by (simp_all add: v_def t_def arm_rto_def outstanding_data_def fin_pending_def)
  have stop: "send_data i now v = (v, [])" for i
    by (cases i) (simp_all add: Let_def v out)
  have t: "snd_nxt t = snd_nxt s" "rcv_nxt t = rcv_nxt s" "rcv_wnd_field t = rcv_wnd_field s"
    by (simp_all add: t_def rcv_wnd_field_def Let_def)
  have "send_data (Suc n) now s =
      (v, [\<lparr>sg_seq = snd_nxt s, sg_ack = rcv_nxt s, sg_flags = TCP_ACK OR TCP_PSH, sg_window = rcv_wnd_field s,
            sg_opts = [], sg_payload = drop k (ts_tx s)\<rparr>])"
  proof -
    have mn: "min (effective_mss s) (min (unat (min (snd_wnd s) (cwnd s)) - k) j) = j"
      using m(2) diff_le_mono[OF wnd, of k] unfolding j_def by (simp only: min_absorb2)
    have g: "\<not> (unat (min (snd_wnd s) (cwnd s)) \<le> k \<or> j = 0 \<or> j = 0)"
      using m wnd by (simp add: j_def)
    have d: "take j (drop k (ts_tx s)) = drop k (ts_tx s)"
      by (simp add: j_def)
    show ?thesis
      unfolding send_data.simps Let_def o[symmetric] j_def[symmetric] mn t_def[symmetric] if_not_P[OF g] d
      by (simp add: emit_def and_then_def v_def[symmetric] stop) (simp add: t)
  qed
  then show "snd (send_data (Suc n) now s) =
    [\<lparr>sg_seq = snd_nxt s, sg_ack = rcv_nxt s, sg_flags = TCP_ACK OR TCP_PSH, sg_window = rcv_wnd_field s,
      sg_opts = [], sg_payload = drop k (ts_tx s)\<rparr>]"
    and "fin_seq (fst (send_data (Suc n) now s)) = None" "close_requested (fst (send_data (Suc n) now s)) = close_requested s"
    using v by simp_all
qed

lemma demo_a2_wire:
  "last (e_wire demo_a2) = \<lparr>sg_seq = 101, sg_ack = 501, sg_flags = TCP_ACK OR TCP_PSH, sg_window = 4096, sg_opts = [],
     sg_payload = [7, 8, 9]\<rparr>"
  "e_wire demo_a2 \<noteq> []" "e_sent demo_a2 = [7, 8, 9]"
proof -
  define s where "s = (e_sock demo_a1)\<lparr>ts_tx := [7, 8, 9]\<rparr>"
  have send: "send_slice [7, 8, 9] (e_sock demo_a1) = (3, s)"
    by (simp add: demo_a1_sock s_def send_slice_def can_send_def may_send_def new_active_def)
  have data: "snd (send_data (Suc n) now s) = [\<lparr>sg_seq = 101, sg_ack = 501, sg_flags = TCP_ACK OR TCP_PSH,
      sg_window = 4096, sg_opts = [], sg_payload = [7, 8, 9]\<rparr>]"
      "fin_seq (fst (send_data (Suc n) now s)) = None" "\<not> close_requested (fst (send_data (Suc n) now s))" for n now
    using send_data_once[of s 0 n now]
    by (simp_all add: s_def demo_a1_sock new_active_def outstanding_data_def fin_pending_def effective_mss_def MSS_def
        DEFAULT_PEER_MSS_def IW_BYTES_def rcv_wnd_field_def)
  have "step_sock now s = output_step now s" for now
    by (rule step_sock_quiet) (simp_all add: s_def demo_a1_sock new_active_def)
  moreover have "output_step now s = and_then (send_data (length (ts_tx s)) now s) (send_fin now)" for now
    by (simp add: output_step_def s_def demo_a1_sock)
  moreover have "length (ts_tx s) = Suc 2"
    by (simp add: s_def)
  ultimately have "snd (step_sock now s) = [\<lparr>sg_seq = 101, sg_ack = 501, sg_flags = TCP_ACK OR TCP_PSH,
      sg_window = 4096, sg_opts = [], sg_payload = [7, 8, 9]\<rparr>]" for now
    using data[of 2 now] by (simp add: and_then_def send_fin_def case_prod_beta del: send_data.simps)
  then show "last (e_wire demo_a2) = \<lparr>sg_seq = 101, sg_ack = 501, sg_flags = TCP_ACK OR TCP_PSH, sg_window = 4096,
      sg_opts = [], sg_payload = [7, 8, 9]\<rparr>" "e_wire demo_a2 \<noteq> []" "e_sent demo_a2 = [7, 8, 9]"
    by (simp_all add: demo_a2_def polled_def send case_prod_beta)
qed

lemma demo_b2_sock: "ts_rx (e_sock demo_b2) = [7, 8, 9]" "e_got demo_b2 = []"
  by (simp_all add: demo_b2_def deliver_def demo_b1_sock demo_b_sock demo_a2_wire connected_input_def established_input_def
      hdr_of_def new_active_def new_child_def tcp_flag_defs Let_def seq_le_def seq_lt_def process_ack_def ack_advance_def
      rtt_sample_def grow_cwnd_def outstanding_data_def fin_pending_def fin_transitions_def prune_sacked_def
      accept_stream.simps is_data_state_def append_rx_def ACK_EVERY_N_def consume_fin_and_ooo.simps consume_fin_def
      find_index_def and_then_def send_ack_def emit_def)

lemma demo_run: "pair_step\<^sup>*\<^sup>* (demo_a, demo_b) (demo_a2, demo_b3)"
proof -
  define s where "s = snd (send_slice [7, 8, 9] (e_sock demo_a1))"
  have s: "send_slice [7, 8, 9] (e_sock demo_a1) = (3, s)"
    by (simp add: s_def demo_a1_sock send_slice_def can_send_def may_send_def new_active_def)
  have "pair_step (demo_a, demo_b) (demo_a1, demo_b)"
    unfolding demo_a1_def by (intro pair_step.left deliver_step) (simp add: demo_b_sock)
  moreover have "pair_step (demo_a1, demo_b) (demo_a1, demo_b1)"
    unfolding demo_b1_def by (intro pair_step.right deliver_step) (simp add: demo_a1_sock)
  moreover have "ep_step inc demo_a1 (demo_a1\<lparr>e_sock := s, e_sent := [7, 8, 9]\<rparr>)" for inc
    using ep_step.send[OF s, of inc] by (simp add: demo_a1_sock new_active_def unsafe_write_def)
  then have "pair_step (demo_a1, demo_b1) (demo_a1\<lparr>e_sock := s, e_sent := [7, 8, 9]\<rparr>, demo_b1)"
    by (rule pair_step.left)
  moreover have "pair_step (demo_a1\<lparr>e_sock := s, e_sent := [7, 8, 9]\<rparr>, demo_b1) (demo_a2, demo_b1)"
    unfolding demo_a2_def s_def by (intro pair_step.left polled_step)
  moreover have "pair_step (demo_a2, demo_b1) (demo_a2, demo_b2)"
    unfolding demo_b2_def by (intro pair_step.right deliver_step) (simp add: demo_a2_wire(2))
  moreover have "pair_step (demo_a2, demo_b2) (demo_a2, demo_b3)"
    using ep_step.recv[of 10 demo_b2 _ _ "e_wire demo_a2"]
    by (intro pair_step.right) (simp add: demo_b3_def demo_b2_sock(2) prod_eq_iff)
  ultimately show ?thesis
    by (meson converse_rtranclp_into_rtranclp rtranclp.rtrancl_refl)
qed

lemma demo_opened: "opened demo_a demo_b" "opened demo_b demo_a"
proof -
  show "opened demo_a demo_b"
    unfolding opened_def demo_a_def endpoint.simps by blast
  have "(e_sock demo_b, e_wire demo_b) = accept_syn demo_syn 80 demo_remote 500"
    by (simp add: demo_b_def case_prod_beta)
  moreover have "th_seq demo_syn = iss (e_sock demo_a)"
    by (simp add: demo_syn_def hdr_of_def demo_a_def new_active_def)
  ultimately show "opened demo_b demo_a"
    unfolding opened_def using demo_b_sock(3,4) by blast
qed

lemma demo_sent: "e_sent demo_b3 = []"
  by (simp add: demo_b3_def demo_b2_def demo_b1_def deliver_def demo_b_sock case_prod_beta)

lemma demo_fair: "\<not> e_misused demo_a2" "\<not> e_misused demo_b3"
  by (simp_all add: demo_a2_def demo_b3_def demo_a1_def demo_b2_def demo_b1_def polled_def deliver_def demo_a_def demo_b_def
      case_prod_beta)

text \<open>
  C4: Two sockets of the stack are connected over a network that loses, delays, reorders and duplicates
  segments at will, but neither alters nor invents them; polls, timers, arrivals and the calls of both
  applications interleave freely.  Suppose that no application wrote after it closed its socket, that
  no socket accepted data while its own SYN still counted as unacknowledged, and that neither stream
  passed two gigabytes.  Then what one application has read is a prefix of what the other had
  accepted for sending, and the receive buffer does not exceed its capacity.  Once a socket has
  consumed the FIN of its peer and its buffer is drained, the whole stream has been read.
\<close>
theorem tcp_stream_delivered:
  assumes "opened a b" "opened b a" "pair_step\<^sup>*\<^sup>* (a, b) (a', b')"
    and "\<not> e_misused a'" "\<not> e_misused b'" "length (e_sent a') \<le> stream_max" "length (e_sent b') \<le> stream_max"
  shows "prefix (e_got b') (e_sent a') \<and> prefix (e_got a') (e_sent b') \<and>
    (ts_rx (e_sock b') = [] \<and> (\<exists>f. peer_fin_seq (e_sock b') = Some f \<and> rcv_nxt (e_sock b') = f + 1) \<longrightarrow>
       e_got b' = e_sent a') \<and>
    length (ts_rx (e_sock b')) \<le> rx_cap (e_sock b')"
proof -
  have read: "prefix (e_got e) (e_sent p) \<and> length (ts_rx (e_sock e)) \<le> rx_cap (e_sock e) \<and>
      (ts_rx (e_sock e) = [] \<and> (\<exists>f. peer_fin_seq (e_sock e) = Some f \<and> rcv_nxt (e_sock e) = f + 1) \<longrightarrow>
         e_got e = e_sent p)" if "half_inv e p" for e p
  proof (cases "unsynced (e_sock e) \<and> e_got e = []")
    case False
    with that obtain r where at:
        "rcv_at (iss (e_sock p)) (e_sent p) (close_requested (e_sock p)) (e_got e) (e_sock e) r"
      by (auto simp: half_inv_def emits_ok_def sock_ok_def rcv_ok_def side_of_def)
    have "e_got e = e_sent p" if "ts_rx (e_sock e) = []" "peer_fin_seq (e_sock e) = Some f" "rcv_nxt (e_sock e) = f + 1" for f
    proof -
      have "f = iss (e_sock p) + of_nat (Suc (length (e_sent p)))" "f + 1 = iss (e_sock p) + of_nat r"
        using at that by (auto simp: rcv_at_def)
      then have "iss (e_sock p) + of_nat r = iss (e_sock p) + of_nat (length (e_sent p) + 2)"
        by (simp add: algebra_simps)
      then have "r = length (e_sent p) + 2"
        using off_inject[of r "length (e_sent p) + 2" "iss (e_sock p)"] rcv_at_bounds[OF at] at
        by (simp add: rcv_at_def stream_max_def)
      then show ?thesis
        using at that(1) by (simp add: rcv_at_def)
    qed
    moreover have "prefix (e_got e) (e_sent p)"
      using at by (metis append_prefixD rcv_at_def take_is_prefix)
    ultimately show ?thesis
      using at by (auto simp: rcv_at_def)
  qed (auto simp: unsynced_def)
  show ?thesis
    using read[of b' a'] read[of a' b'] pair_inv[OF assms(3) _ _ assms(1,2)] assms(4-) by (auto simp: fair_def)
qed

theorem tcp_stream_delivered_witness:
  "opened demo_a demo_b \<and> opened demo_b demo_a \<and> pair_step\<^sup>*\<^sup>* (demo_a, demo_b) (demo_a2, demo_b3) \<and>
   e_sent demo_a2 = [7, 8, 9] \<and> e_got demo_b3 = [7, 8, 9] \<and> prefix (e_got demo_b3) (e_sent demo_a2)"
proof -
  have "e_got demo_b3 = [7, 8, 9]"
    by (simp add: demo_b3_def recv_slice_def Let_def demo_b2_sock)
  then show ?thesis
    using tcp_stream_delivered[OF demo_opened demo_run demo_fair] demo_opened demo_run demo_a2_wire(3) demo_sent
    by (auto simp: stream_max_def)
qed

end
