(* ===== verification/NetFaults.thy ===== *)
theory NetFaults
  imports NetDelivery
begin

text \<open>
  Four behaviours of \<^verbatim>\<open>net/tcp.rs\<close> that break what a TCP socket promises: a passive socket that
  speaks first loses its first byte, a window of zero is never probed, a lost FIN is not sent again
  by the side that closes second, and end of file is reported while bytes are missing.
\<close>

subsection \<open>The first byte of a passive socket\<close>



lemma consume_nothing:
  assumes "peer_fin_seq s \<noteq> Some (rcv_nxt s)" "ooo s = []"
  shows "consume_fin_and_ooo tk s = s"
  using assms by (subst consume_fin_and_ooo.simps) (simp add: consume_fin_def find_index_def)

lemma rtt_sample_sel [simp]:
  "fin_seq (rtt_sample ack now s) = fin_seq s"
  "peer_fin_seq (rtt_sample ack now s) = peer_fin_seq s"
  "ooo (rtt_sample ack now s) = ooo s"
  "unacked_segs (rtt_sample ack now s) = unacked_segs s"
  "wnd_update_pending (rtt_sample ack now s) = wnd_update_pending s"
  "ts_state (rtt_sample ack now s) = ts_state s"
  "snd_nxt (rtt_sample ack now s) = snd_nxt s"
  "snd_una (rtt_sample ack now s) = snd_una s"
  "snd_scale (rtt_sample ack now s) = snd_scale s"
  "rto_deadline (rtt_sample ack now s) = rto_deadline s"
  "ts_rx (rtt_sample ack now s) = ts_rx s" "rcv_nxt (rtt_sample ack now s) = rcv_nxt s" "rx_cap (rtt_sample ack now s) = rx_cap s"
  by (simp_all add: rtt_sample_def Let_def split: option.split)

lemma grow_cwnd_sel [simp]:
  "fin_seq (grow_cwnd s) = fin_seq s"
  "peer_fin_seq (grow_cwnd s) = peer_fin_seq s"
  "ooo (grow_cwnd s) = ooo s"
  "unacked_segs (grow_cwnd s) = unacked_segs s"
  "wnd_update_pending (grow_cwnd s) = wnd_update_pending s"
  "ts_state (grow_cwnd s) = ts_state s"
  "snd_nxt (grow_cwnd s) = snd_nxt s"
  "snd_una (grow_cwnd s) = snd_una s"
  "snd_scale (grow_cwnd s) = snd_scale s"
  "rto_deadline (grow_cwnd s) = rto_deadline s"
  "ts_rx (grow_cwnd s) = ts_rx s" "rcv_nxt (grow_cwnd s) = rcv_nxt s" "rx_cap (grow_cwnd s) = rx_cap s"
  by (simp_all add: grow_cwnd_def Let_def)











subsection \<open>The window of zero\<close>

text \<open>
  C32: The peer acknowledges everything that was sent and advertises a window of zero.  If the
  application then writes, no poll ever sends anything again, a probe of the window included: the
  timer that would send it is not running.  The connection stays stuck unless the peer sends
  another segment.
\<close>
theorem zero_window_never_probed:
  fixes data :: bytes and now tk :: u64
  assumes st: "ts_state s \<in> {Established, CloseWait}" and una: "seq_lt (snd_una s) (snd_nxt s)"
    and s: "fin_seq s = None" "peer_fin_seq s = None" "ooo s = []" "unacked_segs s = 0" "\<not> wnd_update_pending s"
    and ack: "th_flags hdr = TCP_ACK" "th_ack hdr = snd_nxt s" "th_window hdr = 0" "th_sack_blocks hdr = []"
  defines "t \<equiv> snd (send_slice data (fst (connected_input hdr [] now tk s)))"
  assumes tx: "ts_tx t \<noteq> []"
  shows "\<forall>later. step_sock later t = (t, [])"
proof
  fix later
  define v where "v = ack_advance hdr now s"
  have same: "fin_seq v = None" "peer_fin_seq v = None" "ooo v = []" "unacked_segs v = 0" "\<not> wnd_update_pending v"
      "ts_state v = ts_state s" "snd_nxt v = snd_nxt s" "snd_una v = snd_nxt s" "snd_wnd v = 0" "rto_deadline v = None"
    using s ack
    by (simp_all add: v_def ack_advance_def Let_def prune_sacked_def outstanding_data_def fin_pending_def)
  have "connected_input hdr [] now tk s = established_input hdr [] now tk s"
    using st ack by (auto simp: connected_input_def tcp_flag_defs)
  also have "\<dots> = (v, [])"
    using ack una same st
    by (auto simp: established_input_def process_ack_def Let_def v_def[symmetric] seq_le_def fin_transitions_def
        and_then_def consume_nothing tcp_flag_defs)
  finally have "t = snd (send_slice data v)"
    by (simp add: t_def)
  then obtain buf where t: "t = v\<lparr>ts_tx := buf\<rparr>"
    by (cases "can_send v") (auto simp: send_slice_def Let_def intro: that[of "ts_tx v"])
  have "step_sock later t = output_step later t"
    by (rule step_sock_quiet) (use same in \<open>simp_all add: t\<close>)
  moreover have "send_data n later t = (t, [])" for n
    by (cases n) (use same in \<open>simp_all add: t Let_def\<close>)
  moreover have "outstanding_data t = 0"
    using same by (simp add: t outstanding_data_def fin_pending_def)
  ultimately show "step_sock later t = (t, [])"
    using st same tx by (auto simp: output_step_def and_then_def send_fin_def t)
qed

theorem zero_window_never_probed_witness:
  "\<exists>s hdr t. ts_state s = Established \<and> th_window hdr = 0 \<and> t = snd (send_slice [4] (fst (connected_input hdr [] 0 0 s))) \<and>
     ts_tx t = [4] \<and> (\<forall>later. step_sock later t = (t, []))"
proof -
  define s where "s = (e_sock demo_a1)\<lparr>ts_tx := [1, 2, 3], snd_nxt := 104\<rparr>"
  define hdr where "hdr = hdr_of \<lparr>sg_seq = 501, sg_ack = 104, sg_flags = TCP_ACK, sg_window = 0, sg_opts = [], sg_payload = []\<rparr>"
  have tx: "ts_tx (snd (send_slice [4] (fst (connected_input hdr [] 0 0 s)))) = [4]"
    by (simp add: s_def hdr_def hdr_of_def demo_a1_sock new_active_def connected_input_def established_input_def
        process_ack_def Let_def seq_le_def seq_lt_def fin_transitions_def and_then_def consume_nothing tcp_flag_defs
        ack_advance_def prune_sacked_def rtt_sample_def grow_cwnd_def outstanding_data_def fin_pending_def
        send_slice_def can_send_def may_send_def)
  have "\<forall>later. step_sock later (snd (send_slice [4] (fst (connected_input hdr [] 0 0 s)))) =
      (snd (send_slice [4] (fst (connected_input hdr [] 0 0 s))), [])"
    by (rule zero_window_never_probed)
      (use tx in \<open>simp_all add: s_def hdr_def hdr_of_def demo_a1_sock new_active_def seq_lt_def\<close>)
  moreover have "ts_state s = Established" "th_window hdr = 0"
    by (simp_all add: s_def hdr_def hdr_of_def demo_a1_sock)
  ultimately show ?thesis
    using tx by blast
qed

subsection \<open>The FIN of the side that closes second\<close>

fun polls :: "u64 list \<Rightarrow> tcp_sock \<Rightarrow> emitted" where
  "polls [] s = (s, [])"
| "polls (now # later) s = and_then (step_sock now s) (polls later)"

definition fin_waiting :: "u32 \<Rightarrow> tcp_sock \<Rightarrow> bool" where
  "fin_waiting f s \<longleftrightarrow> ts_state s \<in> {LastAck, Closing, Closed} \<and> fin_seq s = Some f \<and> snd_una s = f \<and>
     snd_nxt s = f + 1 \<and> ts_tx s = [] \<and> unacked_segs s = 0"

lemma fin_waiting_step:
  assumes "fin_waiting f s"
  shows "fin_waiting f (fst (step_sock now s))" and "snd (step_sock now s) = []"
proof -
  define t where "t = fst (timer_step now s)"
  have "snd (timer_step now s) = [] \<and> fin_waiting f (fst (timer_step now s))"
    using assms by (auto simp: timer_step_def Let_def fin_waiting_def is_data_state_def)
  then have t: "timer_step now s = (t, [])" "fin_waiting f t"
    by (simp_all add: t_def prod_eq_iff)
  then have tail: "tail_ack now t = (t, [])" and upd: "window_update now t = (t, [])"
    by (auto simp: tail_ack_def window_update_def fin_waiting_def is_data_state_def)
  have "send_data n now t = (t, [])" for n
    by (cases n) (use t(2) in \<open>simp_all add: fin_waiting_def Let_def\<close>)
  then have "output_step now t = (t, [])"
    using t(2) by (auto simp: output_step_def send_fin_def and_then_def fin_waiting_def)
  then show "fin_waiting f (fst (step_sock now s))" "snd (step_sock now s) = []"
    using t tail upd by (simp_all add: step_sock_def and_then_def)
qed

text \<open>
  C33: A socket that closed after its peer (LAST-ACK) or together with it (CLOSING) has sent its FIN and
  waits for the acknowledgement.  If the FIN was lost, no sequence of polls, at whatever times, sends
  it again; the socket only gives up.
\<close>
theorem second_fin_never_resent:
  assumes "ts_state s \<in> {LastAck, Closing}" "fin_seq s = Some f" "snd_una s = f" "snd_nxt s = f + 1" "ts_tx s = []"
    "unacked_segs s = 0"
  shows "snd (polls ticks s) = []"
proof -
  have "snd (polls ticks s) = []" if "fin_waiting f s"
    using that
  proof (induction ticks arbitrary: s)
    case (Cons now later)
    then show ?case
      using fin_waiting_step[OF Cons.prems, of now] by (simp add: and_then_def case_prod_beta)
  qed simp
  then show ?thesis
    using assms by (auto simp: fin_waiting_def)
qed

theorem second_fin_never_resent_witness:
  "snd (polls [1000, 5000, 100000]
     ((new_active demo_remote 49152 4096 4096 100)\<lparr>ts_state := LastAck, fin_seq := Some 101, snd_una := 101,
        snd_nxt := 102, rto_deadline := Some 300\<rparr>)) = []"
  by (rule second_fin_never_resent[of _ 101]) (simp_all add: new_active_def)

subsection \<open>End of file before the end\<close>

text \<open>
  C34: The last segment of a stream, with the FIN, is longer than the space in the receive buffer.  Once
  the application has read the buffer empty, end of file is reported, although the bytes between
  the next expected sequence number and the FIN are missing.
\<close>
theorem eof_before_last_bytes:
  fixes now tk :: u64
  assumes s: "ts_state s = Established" "snd_una s = snd_nxt s" "fin_seq s = None" "ooo s = []" "peer_fin_seq s = None"
    and hdr: "th_flags hdr = TCP_ACK OR TCP_FIN" "th_seq hdr = rcv_nxt s" "th_ack hdr = snd_una s" "th_sack_blocks hdr = []"
    and body: "rx_cap s - length (ts_rx s) < length body" "length body < 2 ^ 32"
  defines "t \<equiv> snd (recv_slice (length (ts_rx s) + length body) (fst (connected_input hdr body now tk s)))"
  shows "eof_visible t \<and> peer_fin_seq t = Some (rcv_nxt s + of_nat (length body)) \<and>
    rcv_nxt t = rcv_nxt s + of_nat (rx_cap s - length (ts_rx s)) \<and>
    rcv_nxt t \<noteq> rcv_nxt s + of_nat (length body)"
proof -
  define n where "n = rx_cap s - length (ts_rx s)"
  define v where "v = s\<lparr>snd_wnd := push_bit (unat (snd_scale s)) (ucast (th_window hdr)),
      ts_rx := ts_rx s @ take n body, rcv_nxt := rcv_nxt s + of_nat n,
      peer_fin_seq := Some (rcv_nxt s + of_nat (length body)), peer_fin_seen := True\<rparr>"
  have n: "n < length body" "rcv_nxt s + of_nat n \<noteq> rcv_nxt s + of_nat (length body)"
    using body off_inject[of n "length body" "rcv_nxt s"] by (auto simp: n_def)
  have ne: "body \<noteq> []"
    using body by auto
  have pa: "process_ack hdr now s = (s\<lparr>snd_wnd := push_bit (unat (snd_scale s)) (ucast (th_window hdr))\<rparr>, [])"
    using s hdr by (simp add: process_ack_def Let_def seq_lt_def fin_transitions_def outstanding_data_def fin_pending_def)
  define x where "x = fst (connected_input hdr body now tk s)"
  have x: "ts_rx x = ts_rx v" "rcv_nxt x = rcv_nxt v" "peer_fin_seq x = peer_fin_seq v" "peer_fin_seen x"
  proof -
    have "connected_input hdr body now tk s = established_input hdr body now tk s"
      using s hdr by (simp add: connected_input_def tcp_flag_defs)
    then show "ts_rx x = ts_rx v" "rcv_nxt x = rcv_nxt v" "peer_fin_seq x = peer_fin_seq v" "peer_fin_seen x"
      using s hdr ne n
      by (simp_all add: x_def established_input_def pa and_then_def accept_stream.simps append_rx_def Let_def
          is_data_state_def tcp_flag_defs consume_nothing send_ack_def emit_def v_def n_def[symmetric] min_absorb1
          less_imp_le)
  qed
  have "min (length (ts_rx s) + length body) (length (ts_rx x)) = length (ts_rx x)"
    using n by (simp add: x v_def)
  then have "ts_rx t = []" "peer_fin_seen t" "rcv_nxt t = rcv_nxt v" "peer_fin_seq t = peer_fin_seq v"
    using x by (simp_all add: t_def x_def[symmetric] recv_slice_def Let_def)
  then show ?thesis
    using n by (simp add: eof_visible_def v_def n_def[symmetric])
qed

theorem eof_before_last_bytes_witness:
  "let s = (e_sock demo_a1)\<lparr>rx_cap := 512, ts_rx := replicate 510 0\<rparr>;
       hdr = hdr_of \<lparr>sg_seq = 501, sg_ack = 101, sg_flags = TCP_ACK OR TCP_FIN, sg_window = 4096, sg_opts = [],
                      sg_payload = [1, 2, 3]\<rparr>;
       t = snd (recv_slice 513 (fst (connected_input hdr [1, 2, 3] 0 0 s)))
   in eof_visible t \<and> rcv_nxt t = 503 \<and> peer_fin_seq t = Some 504"
  using eof_before_last_bytes[of "(e_sock demo_a1)\<lparr>rx_cap := 512, ts_rx := replicate 510 0\<rparr>"
      "hdr_of \<lparr>sg_seq = 501, sg_ack = 101, sg_flags = TCP_ACK OR TCP_FIN, sg_window = 4096, sg_opts = [],
               sg_payload = [1, 2, 3]\<rparr>" "[1, 2, 3]" 0 0]
  by (simp add: Let_def hdr_of_def demo_a1_sock new_active_def)

end
