(* ===== verification/NetWireCorrect.thy ===== *)
theory NetWireCorrect
  imports NetWire
begin

text \<open>
  What the packet formats promise: each parser gives back what its builder was given, and the checksum
  does not depend on how the bytes are cut into slices.
\<close>

named_theorems wire_simps

subsection \<open>Big-endian fields\<close>

lemma length_be_bytes [simp]: "length (be_bytes n w) = n"
  by (simp add: be_bytes_def)

lemma of_be_be16 [wire_simps]: "of_be (be16 w) = w"
  by (simp add: of_be_def be_bytes_def of_le_le_bytes)

lemma of_be_be32 [wire_simps]: "of_be (be32 w) = w"
  by (simp add: of_be_def be_bytes_def of_le_le_bytes)

lemma two_bytes: "length xs = 2 \<Longrightarrow> [xs ! 0, xs ! 1] = xs"
  by (cases xs rule: list.exhaust; cases "tl xs") (auto simp: numeral_2_eq_2 length_Suc_conv)

lemma four_bytes: "length xs = 4 \<Longrightarrow> [xs ! 0, xs ! 1, xs ! 2, xs ! 3] = xs"
  by (auto simp: numeral_eq_Suc length_Suc_conv)

text \<open>Reading a field that was written at its place.\<close>

lemma get16_at: "length a = i \<Longrightarrow> get16 (a @ be16 w @ b) i = w"
  using two_bytes[of "be16 w"] by (simp add: get16_def nth_append wire_simps)

lemma get32_at: "length a = i \<Longrightarrow> get32 (a @ be32 w @ b) i = w"
  using four_bytes[of "be32 w"] by (simp add: get32_def nth_append wire_simps)

lemma be16_bytes: "be16 w = [ucast (drop_bit 8 w), ucast w]"
  by (simp add: be_bytes_def le_bytes_def upt_rec)

lemma csum_bytes: "[ucast (drop_bit 8 w), ucast (w AND 0xFF)] = be16 (w :: u16)"
proof -
  have m: "(0xFF :: u16) = mask 8"
    by (simp add: mask_eq_exp_minus_1)
  have "(ucast (w AND mask 8) :: u8) = ucast w"
    by (rule bit_word_eqI) (simp add: bit_simps)
  then have "(ucast (w AND 0xFF) :: u8) = ucast w"
    by (simp only: m)
  then show ?thesis by (simp add: be16_bytes)
qed

subsection \<open>The checksum\<close>

lemma sum_pairs_append:
  "even (length a) \<Longrightarrow> sum_pairs s (a @ b) = sum_pairs (fst (sum_pairs s a)) b"
  by (induction s a rule: sum_pairs.induct) auto

lemma sum_pairs_even: "even (length a) \<Longrightarrow> snd (sum_pairs s a) = None"
  by (induction s a rule: sum_pairs.induct) auto

text \<open>The field of the checksum reads as zero, whether it is cut out or zeroed.\<close>

lemma checksum_hole:
  assumes "even (length a)"
  shows "checksum [a, b] = checksum [a @ [0, 0] @ b]"
proof -
  obtain s where s: "sum_pairs 0 a = (s, None)"
    using sum_pairs_even[OF assms, of 0] by (cases "sum_pairs 0 a") auto
  have "sum_pairs 0 (a @ [0, 0] @ b) = sum_pairs s b"
    using sum_pairs_append[OF assms, of 0 "[0, 0] @ b"] s by (simp add: pair16_def of_be_def)
  then show ?thesis
    by (simp add: checksum_def s)
qed

lemma set_csum_at:
  assumes "length a = off"
  shows "set_csum off w (a @ [x, y] @ b) = a @ be16 w @ b"
proof -
  have "(a @ [x, y] @ b)[off := u, off + 1 := v] = a @ [u, v] @ b" for u v
    using assms by (simp add: list_update_append)
  then show ?thesis
    by (simp add: set_csum_def csum_bytes[symmetric])
qed

lemma clear_csum_at:
  assumes "length a = off"
  shows "(a @ be16 w @ b)[off := 0, off + 1 := 0] = a @ [0, 0] @ b"
  using assms by (simp add: be16_bytes list_update_append)

subsection \<open>Ethernet, ARP, IPv4\<close>

lemma eth_round_trip:
  assumes "length dst = 6" "length src = 6"
  shows "eth_parse (eth_frame dst src et payload) = Some (dst, src, et, payload)"
  using assms get16_at[of "dst @ src" 12 et payload]
  by (simp add: eth_parse_def eth_frame_def ETH_HDR_LEN_def sub_bytes_def)

lemma arp_round_trip:
  assumes "length smac = 6" "length sip = 4" "length tmac = 6" "length tip = 4"
  shows "arp_parse (arp_build op smac sip tmac tip) =
    Some \<lparr>ap_operation = op, ap_sender_mac = smac, ap_sender_ip = sip, ap_target_ip = tip\<rparr>"
proof -
  define p where "p = arp_build op smac sip tmac tip"
  have "get16 p 0 = ARP_HTYPE_ETHERNET" "get16 p 2 = ARP_PTYPE_IPV4" "get16 p 6 = op"
    using get16_at[of "[]" 0 ARP_HTYPE_ETHERNET "be16 ARP_PTYPE_IPV4 @ [6, 4] @ be16 op @ smac @ sip @ tmac @ tip"]
      get16_at[of "be16 ARP_HTYPE_ETHERNET" 2 ARP_PTYPE_IPV4 "[6, 4] @ be16 op @ smac @ sip @ tmac @ tip"]
      get16_at[of "be16 ARP_HTYPE_ETHERNET @ be16 ARP_PTYPE_IPV4 @ [6, 4]" 6 op "smac @ sip @ tmac @ tip"]
    by (simp_all add: p_def arp_build_def)
  moreover have "p ! 4 = 6" "p ! 5 = 4" "length p = 28" "sub_bytes p 8 6 = smac" "sub_bytes p 14 4 = sip" "sub_bytes p 24 4 = tip"
    using assms by (simp_all add: p_def arp_build_def nth_append sub_bytes_def)
  ultimately show ?thesis
    by (simp add: arp_parse_def ARP_PKT_LEN_def p_def[symmetric])
qed

lemma ipv4_build_eq:
  assumes "length src = 4" "length dst = 4"
  shows "\<exists>c. ipv4_build src dst proto ident ff ttl payload =
      ([0x45, 0] @ be16 (of_nat (20 + length payload)) @ be16 ident @ be16 ff @ [ttl, proto]) @ be16 c @ src @ dst @ payload \<and>
    c = checksum [([0x45, 0] @ be16 (of_nat (20 + length payload)) @ be16 ident @ be16 ff @ [ttl, proto]) @ [0, 0] @ src @ dst]"
proof -
  define a where "a = [0x45, 0] @ be16 (of_nat (20 + length payload)) @ be16 ident @ be16 ff @ [ttl, proto]"
  have a: "length a = 10"
    by (simp add: a_def)
  have p: "[0x45, 0] @ be16 (of_nat (20 + length payload)) @ be16 ident @ be16 ff @ [ttl, proto, 0, 0] @ src @ dst =
      a @ [0, 0] @ src @ dst"
    by (simp add: a_def)
  have "take 20 (a @ [0, 0] @ src @ dst) = a @ [0, 0] @ src @ dst"
    using a assms by simp
  then show ?thesis
    unfolding ipv4_build_def IPV4_HDR_MIN_def Let_def p set_csum_at[OF a] by (simp add: a_def)
qed

text \<open>Bytes behind the datagram (the padding of a short frame) are cut off.\<close>

lemma ipv4_round_trip:
  assumes len: "length src = 4" "length dst = 4" "length payload \<le> 65515"
  shows "ipv4_parse (ipv4_build src dst proto ident ff ttl payload @ pad) =
    Some (\<lparr>h4_src = src, h4_dst = dst, h4_proto = proto, h4_ttl = ttl, h4_ident = ident, h4_flags_frag = ff,
           h4_hdr_len = 20, h4_total_len = 20 + length payload\<rparr>, payload)"
proof -
  define tl where "tl = (of_nat (20 + length payload) :: u16)"
  define a where "a = [0x45, 0] @ be16 tl @ be16 ident @ be16 ff @ [ttl, proto]"
  obtain c where b: "ipv4_build src dst proto ident ff ttl payload = a @ be16 c @ src @ dst @ payload"
    and c: "c = checksum [a @ [0, 0] @ src @ dst]"
    using ipv4_build_eq[OF len(1,2)] unfolding a_def tl_def by blast
  define p where "p = a @ be16 c @ src @ dst @ payload @ pad"
  have a: "length a = 10"
    by (simp add: a_def)
  have tl: "unat tl = 20 + length payload"
    using len(3) by (simp add: tl_def unat_of_nat take_bit_nat_eq_self del: of_nat_add)
  have f: "get16 p 2 = tl" "get16 p 4 = ident" "get16 p 6 = ff" "p ! 0 = 0x45" "p ! 8 = ttl" "p ! 9 = proto"
    using get16_at[of "[0x45, 0]" 2 tl] get16_at[of "[0x45, 0] @ be16 tl" 4 ident]
      get16_at[of "[0x45, 0] @ be16 tl @ be16 ident" 6 ff]
    by (simp_all add: p_def a_def nth_append)
  have h: "take 20 p = a @ be16 c @ src @ dst"
    using a len by (simp add: p_def)
  have "checksum_valid (take 20 p) 10"
    using checksum_hole[of a "src @ dst"] get16_at[of a 10 c "src @ dst"] a len c
    by (simp add: checksum_valid_def h)
  then show ?thesis
    using a len tl f
    by (simp add: b ipv4_parse_def IPV4_HDR_MIN_def Let_def p_def[symmetric])
      (simp add: p_def sub_bytes_def)
qed

subsection \<open>TCP\<close>

lemma nibble:
  assumes "m < 16"
  shows "drop_bit 4 (push_bit 4 (of_nat m :: u8)) = of_nat m"
proof -
  have "\<forall>m \<in> set [0..<16]. drop_bit 4 (push_bit 4 (of_nat m :: u8)) = of_nat m"
    by (simp add: upt_rec)
  then show ?thesis using assms by simp
qed

lemma data_offset:
  assumes "h \<le> 60" "4 dvd h"
  shows "unat (drop_bit 4 (push_bit 4 (of_nat h div 4 :: u8))) * 4 = h"
proof -
  have "of_nat h div 4 = (of_nat (h div 4) :: u8)"
    using assms by (intro word_unat_eq_iff[THEN iffD2]) (simp add: unat_div unat_of_nat take_bit_nat_eq_self)
  then have "unat (drop_bit 4 (push_bit 4 (of_nat h div 4 :: u8))) = h div 4"
    using nibble[of "h div 4"] assms by (simp add: unat_of_nat take_bit_nat_eq_self)
  then show ?thesis using assms(2) by simp
qed

lemma tcp_options_fields:
  "th_src_port (tcp_options seg n i hdr) = th_src_port hdr \<and> th_dst_port (tcp_options seg n i hdr) = th_dst_port hdr \<and>
   th_seq (tcp_options seg n i hdr) = th_seq hdr \<and> th_ack (tcp_options seg n i hdr) = th_ack hdr \<and>
   th_flags (tcp_options seg n i hdr) = th_flags hdr \<and> th_window (tcp_options seg n i hdr) = th_window hdr"
proof (induction seg n i hdr rule: tcp_options.induct)
  case (1 seg n i hdr)
  show ?case
    using 1 by (subst (1 2 3 4 5 6) tcp_options.simps) (simp add: Let_def)
qed

lemma tcp_build_parts:
  fixes src dst :: ip_endpoint and seq ack :: u32 and flags :: u8 and wnd :: u16 and opts payload :: bytes
  assumes ps: "tcp_pseudo (ie_addr src) (ie_addr dst) (20 + length opts + length payload) = Some ph"
  defines "a \<equiv> be16 (ie_port src) @ be16 (ie_port dst) @ be32 seq @ be32 ack @
      [push_bit 4 (of_nat (20 + length opts) div 4), flags] @ be16 wnd"
  shows "\<exists>c. tcp_build src dst seq ack flags wnd opts payload = a @ be16 c @ [0, 0] @ opts @ payload \<and>
    c = checksum [ph @ a @ [0, 0] @ [0, 0] @ opts @ payload]"
proof -
  have a: "length a = 16"
    by (simp add: a_def)
  have p: "be16 (ie_port src) @ be16 (ie_port dst) @ be32 seq @ be32 ack @
      [push_bit 4 (of_nat (20 + length opts) div 4), flags] @ be16 wnd @ [0, 0] @ [0, 0] @ opts @ payload =
      a @ [0, 0] @ [0, 0] @ opts @ payload"
    by (simp add: a_def)
  show ?thesis
    unfolding tcp_build_def TCP_HDR_MIN_def Let_def p set_csum_at[OF a] ps by simp
qed

lemma tcp_round_trip:
  fixes seq ack :: u32 and flags :: u8 and wnd :: u16
  assumes ps: "tcp_pseudo (ie_addr src) (ie_addr dst) (20 + length opts + length payload) \<noteq> None"
    and opts: "length opts \<le> 40" "4 dvd length opts"
  defines "seg \<equiv> tcp_build src dst seq ack flags wnd opts payload"
  shows "tcp_parse (ie_addr src) (ie_addr dst) seg =
    Some (tcp_options seg (20 + length opts) 20 (tcp_fields seg (20 + length opts)), payload)"
    and "tcp_fields seg n = \<lparr>th_src_port = ie_port src, th_dst_port = ie_port dst, th_seq = seq, th_ack = ack,
      th_flags = flags, th_window = wnd, th_hdr_len = n, th_mss = None, th_wscale = None, th_sack_permitted = False,
      th_sack_blocks = []\<rparr>"
    and "drop 20 seg = opts @ payload"
proof -
  obtain ph where ph: "tcp_pseudo (ie_addr src) (ie_addr dst) (20 + length opts + length payload) = Some ph"
    using ps by blast
  define a where "a = be16 (ie_port src) @ be16 (ie_port dst) @ be32 seq @ be32 ack @
      [push_bit 4 (of_nat (20 + length opts) div 4), flags] @ be16 wnd"
  obtain c where seg: "seg = a @ be16 c @ [0, 0] @ opts @ payload"
    and c: "c = checksum [ph @ a @ [0, 0] @ [0, 0] @ opts @ payload]"
    using tcp_build_parts[OF ph, of seq ack flags wnd] unfolding a_def seg_def by blast
  have a: "length a = 16" and len: "length seg = 20 + length opts + length payload"
    by (simp_all add: a_def seg)
  show "tcp_fields seg n = \<lparr>th_src_port = ie_port src, th_dst_port = ie_port dst, th_seq = seq, th_ack = ack,
      th_flags = flags, th_window = wnd, th_hdr_len = n, th_mss = None, th_wscale = None, th_sack_permitted = False,
      th_sack_blocks = []\<rparr>"
    using get16_at[of "[]" 0 "ie_port src"] get16_at[of "be16 (ie_port src)" 2 "ie_port dst"]
      get32_at[of "be16 (ie_port src) @ be16 (ie_port dst)" 4 seq]
      get32_at[of "be16 (ie_port src) @ be16 (ie_port dst) @ be32 seq" 8 ack]
      get16_at[of "be16 (ie_port src) @ be16 (ie_port dst) @ be32 seq @ be32 ack @
        [push_bit 4 (of_nat (20 + length opts) div 4), flags]" 14 wnd]
    by (simp add: tcp_fields_def seg a_def nth_append)
  have off: "unat (drop_bit 4 (seg ! 12)) * 4 = 20 + length opts"
    using data_offset[of "20 + length opts"] opts by (simp add: seg a_def nth_append del: of_nat_add)
  have "(ph @ seg)[length ph + 16 := 0, length ph + 17 := 0] = ph @ a @ [0, 0] @ [0, 0] @ opts @ payload"
    using clear_csum_at[of "ph @ a" "length ph + 16" c "[0, 0] @ opts @ payload"] a by (simp add: seg add.commute)
  moreover have "get16 seg 16 = c"
    using get16_at[of a 16 c] a by (simp add: seg)
  ultimately show "tcp_parse (ie_addr src) (ie_addr dst) seg =
      Some (tcp_options seg (20 + length opts) 20 (tcp_fields seg (20 + length opts)), payload)"
    using len off c ph by (simp add: tcp_parse_def TCP_HDR_MIN_def Let_def) (simp add: seg a)
  show "drop 20 seg = opts @ payload"
    using a by (simp add: seg)
qed

subsection \<open>UDP\<close>

text \<open>The checksum \<^verbatim>\<open>udp_build\<close> computes, before a zero is replaced.\<close>

definition udp_sum :: "ip_endpoint \<Rightarrow> ip_endpoint \<Rightarrow> bytes \<Rightarrow> u16" where
  "udp_sum src dst payload =
     checksum [(case udp_pseudo (ie_addr src) (ie_addr dst) (of_nat (8 + length payload)) of Some h \<Rightarrow> h | None \<Rightarrow> []) @
       be16 (ie_port src) @ be16 (ie_port dst) @ be16 (of_nat (8 + length payload)) @ [0, 0] @ payload]"

text \<open>
  C35: A UDP datagram that the stack built is accepted by its own parser, with both endpoints and the
  payload unchanged, exactly when its checksum is not zero.  A checksum of zero is sent as 0xFFFF, as
  the protocol demands, but the parser compares the stored value with the plain sum and drops the
  datagram.
\<close>
theorem udp_round_trip_unless_zero:
  assumes ps: "udp_pseudo (ie_addr src) (ie_addr dst) (of_nat (8 + length payload)) = Some ph"
    and len: "length payload \<le> 65527"
  shows "udp_parse (ie_addr src) (ie_addr dst) (udp_build src dst payload) =
    (if udp_sum src dst payload = 0 then None else Some (src, dst, payload))"
proof -
  define l where "l = (of_nat (8 + length payload) :: u16)"
  define a where "a = be16 (ie_port src) @ be16 (ie_port dst) @ be16 l"
  define sum where "sum = udp_sum src dst payload"
  define c where "c = (if sum = 0 then 0xFFFF else sum)"
  define p where "p = a @ be16 c @ payload"
  have a: "length a = 6" and l: "unat l = 8 + length payload"
    using len by (simp_all add: a_def l_def unat_of_nat take_bit_nat_eq_self del: of_nat_add)
  have p0: "be16 (ie_port src) @ be16 (ie_port dst) @ be16 l @ [0, 0] @ payload = a @ [0, 0] @ payload"
    by (simp add: a_def)
  have sum: "sum = checksum [ph @ a @ [0, 0] @ payload]"
    by (simp add: sum_def udp_sum_def ps a_def l_def del: of_nat_add)
  have build: "udp_build src dst payload = p"
    unfolding udp_build_def UDP_HDR_LEN_def Let_def l_def[symmetric] p0 set_csum_at[OF a] p_def c_def sum
    using ps by (simp add: l_def del: of_nat_add)
  have c0: "c \<noteq> 0"
    by (simp add: c_def)
  have f: "get16 p 0 = ie_port src" "get16 p 2 = ie_port dst" "get16 p 4 = l" "get16 p 6 = c"
    using get16_at[of "[]" 0 "ie_port src"] get16_at[of "be16 (ie_port src)" 2 "ie_port dst"]
      get16_at[of "be16 (ie_port src) @ be16 (ie_port dst)" 4 l] get16_at[of a 6 c] a
    by (simp_all add: p_def a_def)
  have plen: "length p = 8 + length payload" "take (8 + length payload) p = p" "sub_bytes p 8 (length payload) = payload"
    using a by (simp_all add: p_def sub_bytes_def)
  have "(ph @ p)[length ph + 6 := 0, length ph + 7 := 0] = ph @ a @ [0, 0] @ payload"
    using clear_csum_at[of "ph @ a" "length ph + 6" c payload] a by (simp add: p_def add.commute)
  moreover have "of_nat (8 + length payload) = l"
    by (simp add: l_def)
  moreover have "sum = c \<longleftrightarrow> sum \<noteq> 0"
    by (auto simp: c_def)
  ultimately show ?thesis
    using f plen l c0 ps sum
    by (simp add: build udp_parse_def UDP_HDR_LEN_def Let_def sum_def[symmetric] del: of_nat_add)
qed

definition demo_src :: ip_endpoint where "demo_src = \<lparr>ie_addr = V4 [0, 0, 0, 0], ie_port = 0\<rparr>"

theorem udp_round_trip_unless_zero_witness:
  "udp_sum demo_src demo_src [0xFF, 0xDA] = 0 \<and>
   udp_parse (ie_addr demo_src) (ie_addr demo_src) (udp_build demo_src demo_src [0xFF, 0xDA]) = None"
proof -
  have "udp_sum demo_src demo_src [0xFF, 0xDA] = 0"
    by (simp add: udp_sum_def demo_src_def udp_pseudo_def PROTO_UDP_def be16_bytes checksum_def pair16_def of_be_def
        fold_carries.simps)
  then show ?thesis
    using udp_round_trip_unless_zero[of demo_src demo_src "[0xFF, 0xDA]"] by (simp add: demo_src_def udp_pseudo_def)
qed

end
