(* ===== verification/Spec2Isabelle.thy ===== *)
theory Spec2Isabelle
  imports PmmCorrect FdSystem JournalStale Ext2Alloc Ext2Dir LinkWalk Ext2Nodes Boot Ext2Files NetFaults NetWireCorrect
begin

text \<open>
  A verification library for the kernel of Pagh-OS (Rust, x86_64, all sources under
  \<^verbatim>\<open>src/src\<close>).

  \<^bold>\<open>The program.\<close>  The kernel boots with a memory map from the boot loader, hands the usable frames
  to the physical memory manager, finds a disk, mounts (or formats) an ext2 file system with a
  write-ahead log on it and runs Linux binaries, which reach files, pipes and sockets through a
  per-process descriptor table.  The library follows the data: frames; descriptors and pipes;
  disk, log and file system; path resolution; the decision to format at boot; packets and TCP.

  \<^bold>\<open>Conventions.\<close>  Definitions keep the names of the source.  \<^verbatim>\<open>u8\<close> to \<^verbatim>\<open>u64\<close> are words of
  that width and wrap as in a release build; \<^verbatim>\<open>usize\<close> is \<^typ>\<open>nat\<close>, with
  \<^verbatim>\<open>wadd\<close> and \<^verbatim>\<open>wsub\<close> where the source relies on 64-bit arithmetic.  \<^verbatim>\<open>Result\<close> is a sum
  with the error on the left, \<^verbatim>\<open>Option\<close> is \<^verbatim>\<open>option\<close>; a panic of the source, where one is
  reachable, is the value \<^verbatim>\<open>None\<close>.  Code under one lock is one step.  State is passed
  explicitly; the device, transaction and file-system code use three state monads of the same
  shape (\<^verbatim>\<open>io\<close>, \<^verbatim>\<open>txm\<close>, \<^verbatim>\<open>fsm\<close>), whose state survives an error, as the device does.

  \<^bold>\<open>Prelude and interfaces.\<close>
  \<^item> \<^verbatim>\<open>PaghPrelude\<close>: type names, byte-buffer reads and writes, little-endian accessors, trailing
    zeros, lemma collections.
  \<^item> \<^verbatim>\<open>BitmapSpec\<close>: locale \<^verbatim>\<open>bitmap\<close>, the contract of a bit sequence, interpreted on the word bitmap
    of the frame allocator, and locale \<^verbatim>\<open>allocator\<close>, which proves once that interleaved
    allocations and releases never share a unit, interpreted in \<^verbatim>\<open>PmmCorrect\<close> on frames and in
    \<^verbatim>\<open>Ext2Alloc\<close> on blocks and on inodes.
  \<^item> \<^verbatim>\<open>FdAlloc\<close>: locale \<^verbatim>\<open>fd_store\<close>, what the descriptor table needs of the slot vector.

  \<^bold>\<open>Physical memory\<close> (\<^verbatim>\<open>memory/pmm.rs\<close>).  \<^verbatim>\<open>Pmm\<close> has the record of the manager, \<^verbatim>\<open>init\<close> from the
  memory map, single and contiguous allocation, release and the copy-on-write counts;
  \<^verbatim>\<open>PmmCorrect\<close> shows that init frees exactly the usable frames, allocation is lowest-first and
  complete, no frame is handed out twice over any history, releases undo allocations, and that releasing
  an unaligned address frees a reserved frame.

  \<^bold>\<open>Descriptors, pipes and local sockets\<close> (\<^verbatim>\<open>task/fd_alloc.rs\<close>, \<^verbatim>\<open>task/fd.rs\<close>,
  \<^verbatim>\<open>linux/unix_sock.rs\<close>).  \<^verbatim>\<open>FdAlloc\<close> is the slot vector, \<^verbatim>\<open>FdTable\<close> the table, the open objects and the
  reference-counted pipe endpoints on an explicit heap; \<^verbatim>\<open>FdCorrect\<close> has the reference-count
  invariant and its preservation by every operation; \<^verbatim>\<open>UnixSock\<close> adds listeners, their queues and
  the registry of paths.  \<^verbatim>\<open>FdSystem\<close> runs any number of processes over one heap, with calls that block
  halfway and hold clones of their endpoints, and shows that end of file and broken pipe are reported exactly
  when no descriptor, running call or queued connection holds the other side, that pipes are
  first-in first-out, what descriptor allocation and the execve sweep do, and that a path stays
  connectable after its listener is gone.

  \<^bold>\<open>Disk and log\<close> (\<^verbatim>\<open>drivers/mod.rs\<close>, \<^verbatim>\<open>fs/journal.rs\<close>).  \<^verbatim>\<open>BlockDev\<close> is the device the trait
  documents: a medium, a volatile cache whose writes a power loss keeps in any subset and order, and a fuse
  after which every call fails.  \<^verbatim>\<open>Ext2Structs\<close> holds the on-disk records and the CRC-32 of the log
  (\<^verbatim>\<open>fs/ext2/structs.rs\<close>), \<^verbatim>\<open>JournalCodec\<close> and \<^verbatim>\<open>JournalRing\<close> the record format and the ring arithmetic,
  \<^verbatim>\<open>Journal\<close> format, open, commit and recovery, \<^verbatim>\<open>JournalScan\<close>, \<^verbatim>\<open>JournalCommit\<close>,
  \<^verbatim>\<open>JournalCrash\<close> what recovery finds after a commit that was cut off at any write, and
  \<^verbatim>\<open>JournalCorrect\<close> the theorems: a commit is atomic under any device failure and power loss,
  committed transactions survive in order, recovery stays inside its region.  They hold for a journal
  whose ring has no record with the current or a later sequence number and for transactions that
  fill at most half of the ring and whose blocks do not begin with a journal magic; atomicity also
  excludes a collision of the CRC-32.  \<^verbatim>\<open>JournalStale\<close>
  shows two ways in which old log contents are replayed when the first condition fails, which the code
  does not exclude.

  \<^bold>\<open>ext2\<close> (\<^verbatim>\<open>fs/ext2\<close>).  \<^verbatim>\<open>Ext2Alloc\<close> (\<^verbatim>\<open>alloc.rs\<close>; its allocation calls have no caller in the kernel, its bit operations do), \<^verbatim>\<open>Ext2Dir\<close> with \<^verbatim>\<open>Utf8\<close> (\<^verbatim>\<open>dir.rs\<close>) and
  \<^verbatim>\<open>Ext2Symlink\<close> (\<^verbatim>\<open>symlink.rs\<close>) are byte-level components.
  \<^verbatim>\<open>Ext2Tx\<close> is the transaction of \<^verbatim>\<open>mod.rs\<close> (working set, allocation over groups, inode table, block map,
  commit) and the block-map reader of \<^verbatim>\<open>inode.rs\<close>; \<^verbatim>\<open>Ext2Ops\<close> the operations, \<^verbatim>\<open>Ext2Format\<close> format and
  mount, \<^verbatim>\<open>Ext2Nodes\<close> the VFS nodes.  Proofs: \<^verbatim>\<open>Ext2Groups\<close> and \<^verbatim>\<open>Ext2Free\<close> (bitmaps and counters of a
  transaction), \<^verbatim>\<open>Ext2Map\<close> and \<^verbatim>\<open>Ext2Tree\<close> (the pointer tree of a file and what allocation and clearing do to it),
  \<^verbatim>\<open>Ext2File\<close> (one transaction of a write), \<^verbatim>\<open>Ext2Typed\<close> and \<^verbatim>\<open>Ext2TypedOps\<close> (block lengths and geometry,
  kept by every call on every path), \<^verbatim>\<open>Ext2Commit\<close> (what a commit does to the view of the disk), \<^verbatim>\<open>Ext2Volume\<close> (a sound volume,
  the contents of a file, the whole write loop), \<^verbatim>\<open>Ext2Live\<close> (a write that succeeds), \<^verbatim>\<open>Ext2Files\<close>
  (overwrite, read back, success) and \<^verbatim>\<open>Ext2Props\<close> (the leak in clear_slot); \<^verbatim>\<open>DevReads\<close> collects which code only reads.

  \<^bold>\<open>Paths\<close> (\<^verbatim>\<open>vfs/link_walk.rs\<close>, \<^verbatim>\<open>vfs/mod.rs\<close>, the path mapping of \<^verbatim>\<open>linux/io_sys.rs\<close>).  \<^verbatim>\<open>LinkWalk\<close>: the walker
  as written, a relational specification of what a path denotes that shares no definition with it,
  agreement, termination on cyclic links, and the mapping of guest paths.

  \<^bold>\<open>Boot\<close> (\<^verbatim>\<open>fs/format_policy.rs\<close>, \<^verbatim>\<open>boot.rs\<close>).  \<^verbatim>\<open>Boot\<close>: probe, policy and the mount-or-format step over the
  same device model; only blank or marked disks are formatted.

  \<^bold>\<open>Network\<close> (\<^verbatim>\<open>net/wire.rs\<close>, \<^verbatim>\<open>net/tcp.rs\<close>).  \<^verbatim>\<open>NetWire\<close> has the builders and parsers of the packet
  formats, \<^verbatim>\<open>NetWireCorrect\<close> their round trips; the theorem on UDP shows which datagram is lost.
  \<^verbatim>\<open>NetTcp\<close> is one TCP socket: its record, the calls of the application, the segment handlers and the
  poll step.  \<^verbatim>\<open>NetStream\<close> relates sequence numbers to positions in the byte stream and shows that
  every operation keeps that relation, \<^verbatim>\<open>NetPair\<close> runs two sockets over a network that loses, delays,
  reorders and duplicates, and \<^verbatim>\<open>NetDelivery\<close> shows that each application reads a prefix of what the other
  sent.  The conditions of that theorem are the faults of the code that \<^verbatim>\<open>NetFaults\<close> and the ghost flag
  \<open>e_misused\<close> name: no data accepted after \<^verbatim>\<open>close\<close>, none while the own SYN counts as unacknowledged,
  and less than two gigabytes in a stream.

  \<^bold>\<open>Bounds and fuel.\<close>  Every loop of the model is structural or terminates by a measure; the walker
  by the pending components plus the bytes of expansion that are left, and \<^verbatim>\<open>resolve_terminates_within\<close>
  bounds its iterations.  Loops over a range take the number of rounds the range has.  The loop of
  \<^verbatim>\<open>send_data\<close> takes the length of the send buffer as fuel, which is enough because each round but
  the last sends at least one byte of it.  A transaction of a write touches \<^verbatim>\<open>TX_DATA_BLOCKS\<close> = 64 data
  blocks, as in the source.  The device has at most \<open>2^60\<close> blocks, so that block numbers times 4096 stay in
  64 bits.

  \<^bold>\<open>Parameters.\<close>  The file-system nodes the walker visits are a record of functions (the trait
  \<^verbatim>\<open>VfsNode\<close>); handles to files, network sockets and epoll sets in the descriptor table are opaque numbers.

  \<^bold>\<open>Not modelled.\<close>  Code whose meaning is hardware: the drivers, interrupt and context-switch code, page
  tables and the kernel heap, the framebuffer and the interrupt-level locks.  Code that needs several
  cores or an address space in the state: scheduler, process creation, signals, memory system calls, the
  system-call wrappers around the modelled operations.  Independent user-level features: the shell and its
  applications, procfs texts, RAM disk, packages, and of the network everything around packets and
  TCP sockets (ARP, IP and UDP processing, the table of sockets, DNS, HTTP, TLS, certificates).  Log lines and statistics of the modelled parts are left out.
\<close>

end
